(* ===== verification/LDB_Prelude.thy ===== *)
theory LDB_Prelude
  imports
    Main
    "HOL-Library.Word"
    "HOL-Library.Multiset"
    "HOL-Library.List_Lexorder"
    "HOL-Library.Option_ord"
begin

text \<open>
  Shared vocabulary of the development: the machine types of the Rust sources, the error and
  panic values every fallible operation returns, the sequencing of fallible steps, and the generic
  lemmas on lists and wrapped integers that the component theories use.

  Integer types. \<open>u8\<close> to \<open>u64\<close> are words of that width. An \<open>i64\<close> is an \<open>int\<close> in the range
  \<open>in_i64\<close>, and every unchecked \<open>i64\<close> operation of the sources is followed by \<open>wrap_i64\<close>, its
  two's complement wrap-around (the release profile of Cargo.toml has no overflow checks).
  A \<open>usize\<close> that counts elements of a vector is a \<open>nat\<close>.
  A \<open>str\<close> is its UTF-8 bytes, which is also what Rust's ordering on strings compares.
  An \<open>f64\<close> is carried as its bit pattern: the modelled code moves floats and never computes
  with them.
\<close>

unbundle bit_operations_syntax

type_synonym u8 = "8 word"
type_synonym u16 = "16 word"
type_synonym u32 = "32 word"
type_synonym u64 = "64 word"
type_synonym i64 = int
type_synonym f64 = "64 word"
type_synonym rstr = "u8 list"

named_theorems ldb_wrap "wrap-around of i64 arithmetic"
named_theorems ldb_bits "bit maps and bit positions"

section \<open>Errors and panics\<close>

text \<open>The error values of src/src/errors.rs (the backtrace of a fatal error is not kept).\<close>

datatype QueryError =
    SytaxErrorCharsRemaining string
  | SyntaxErrorBytesRemaining "u8 list"
  | ParseError string
  | FatalError string
  | NotImplemented string
  | TypeError string
  | Overflow

text \<open>
  An operation either returns, returns an \<open>Err\<close>, or panics (a failed \<open>assert\<close>, an \<open>unwrap\<close> of
  \<open>None\<close>, an index out of range, \<open>panic!\<close>, \<open>unreachable!\<close>).
\<close>

datatype failure = Fail QueryError | Panicked

type_synonym 'a res = "failure + 'a"

fun rbind :: "'a res \<Rightarrow> ('a \<Rightarrow> 'b res) \<Rightarrow> 'b res" where
  "rbind (Inl e) f = Inl e"
| "rbind (Inr a) f = f a"

definition rmap :: "('a \<Rightarrow> 'b) \<Rightarrow> 'a res \<Rightarrow> 'b res" where
  "rmap f r = rbind r (\<lambda>a. Inr (f a))"

fun unwrap :: "'a option \<Rightarrow> 'a res" where
  "unwrap None = Inl Panicked"
| "unwrap (Some a) = Inr a"

definition rassert :: "bool \<Rightarrow> 'a res \<Rightarrow> 'a res" where
  "rassert b r = (if b then r else Inl Panicked)"

text \<open>Indexing and slicing as Rust does it: a panic out of range.\<close>

definition index :: "'a list \<Rightarrow> nat \<Rightarrow> 'a res" where
  "index xs i = (if i < length xs then Inr (xs ! i) else Inl Panicked)"

definition slice :: "'a list \<Rightarrow> nat \<Rightarrow> nat \<Rightarrow> 'a list res" where
  "slice xs from until =
     (if from \<le> until \<and> until \<le> length xs then Inr (take (until - from) (drop from xs))
      else Inl Panicked)"

text \<open>A loop over a list whose body may fail: stops at the first failure.\<close>

fun rmapM :: "('a \<Rightarrow> 'b res) \<Rightarrow> 'a list \<Rightarrow> 'b list res" where
  "rmapM f [] = Inr []"
| "rmapM f (x # xs) = rbind (f x) (\<lambda>y. rbind (rmapM f xs) (\<lambda>ys. Inr (y # ys)))"

fun rfoldM :: "('s \<Rightarrow> 'a \<Rightarrow> 's res) \<Rightarrow> 's \<Rightarrow> 'a list \<Rightarrow> 's res" where
  "rfoldM f s [] = Inr s"
| "rfoldM f s (x # xs) = rbind (f s x) (\<lambda>s'. rfoldM f s' xs)"

lemma rbind_Inr_iff [simp]: "rbind r f = Inr b \<longleftrightarrow> (\<exists>a. r = Inr a \<and> f a = Inr b)"
  by (cases r) auto

lemma rbind_cong [fundef_cong]:
  "r = r' \<Longrightarrow> (\<And>a. r' = Inr a \<Longrightarrow> f a = g a) \<Longrightarrow> rbind r f = rbind r' g"
  by (cases r') auto

lemma rbind_Inl_iff: "rbind r f = Inl e \<longleftrightarrow> r = Inl e \<or> (\<exists>a. r = Inr a \<and> f a = Inl e)"
  by (cases r) auto

lemma rbind_assoc: "rbind (rbind r f) g = rbind r (\<lambda>a. rbind (f a) g)"
  by (cases r) auto

lemma rbind_right_unit [simp]: "rbind r Inr = r"
  by (cases r) auto

lemma rmap_Inr [simp]: "rmap f (Inr a) = Inr (f a)"
  by (simp add: rmap_def)

lemma rmap_Inl [simp]: "rmap f (Inl e) = Inl e"
  by (simp add: rmap_def)

lemma rmap_Inr_iff: "rmap f r = Inr b \<longleftrightarrow> (\<exists>a. r = Inr a \<and> b = f a)"
  by (cases r) auto

lemma rmapM_Inr_map: "(\<And>x. x \<in> set xs \<Longrightarrow> f x = Inr (g x)) \<Longrightarrow> rmapM f xs = Inr (map g xs)"
  by (induction xs) auto

lemma rmapM_cong: "(\<And>x. x \<in> set xs \<Longrightarrow> f x = g x) \<Longrightarrow> rmapM f xs = rmapM g xs"
  by (induction xs) auto

lemma rmapM_append:
  "rmapM f (xs @ ys) = rbind (rmapM f xs) (\<lambda>as. rbind (rmapM f ys) (\<lambda>bs. Inr (as @ bs)))"
proof (induction xs)
  case Nil
  show ?case by (cases "rmapM f ys") auto
next
  case (Cons x xs)
  show ?case
    by (cases "f x"; cases "rmapM f xs"; cases "rmapM f ys") (use Cons in auto)
qed

text \<open>A loop that pushes one result per element is \<open>rmapM\<close> appended to what was there.\<close>

lemma rfoldM_push_rmapM:
  "rfoldM (\<lambda>out x. rbind (f x) (\<lambda>y. Inr (out @ [y]))) out xs = rmap ((@) out) (rmapM f xs)"
proof (induction xs arbitrary: out)
  case (Cons x xs)
  show ?case
    by (cases "f x"; cases "rmapM f xs") (use Cons in auto)
qed simp

lemma rmapM_map: "rmapM f (map g xs) = rmapM (\<lambda>x. f (g x)) xs"
  by (induction xs) auto

lemma rmapM_Inr_length: "rmapM f xs = Inr ys \<Longrightarrow> length ys = length xs"
  by (induction xs arbitrary: ys) auto

lemma rfoldM_append: "rfoldM f s (xs @ ys) = rbind (rfoldM f s xs) (\<lambda>s'. rfoldM f s' ys)"
  by (induction xs arbitrary: s) (auto simp: rbind_assoc)

lemma rfoldM_Inr_foldl: "(\<And>s x. f s x = Inr (g s x)) \<Longrightarrow> rfoldM f s xs = Inr (foldl g s xs)"
  by (induction xs arbitrary: s) auto

lemma index_append_here [simp]: "index (xs @ y # ys) (length xs) = Inr y"
  by (simp add: index_def nth_append)

lemma slice_middle [simp]:
  "slice (pre @ s @ post) (length pre) (length pre + length s) = Inr s"
  by (simp add: slice_def)

section \<open>Two's complement wrap-around of i64\<close>

definition i64_MIN :: int where "i64_MIN = - (2 ^ 63)"
definition i64_MAX :: int where "i64_MAX = 2 ^ 63 - 1"

definition in_i64 :: "int \<Rightarrow> bool" where
  "in_i64 x \<longleftrightarrow> i64_MIN \<le> x \<and> x \<le> i64_MAX"

definition wrap_i64 :: "int \<Rightarrow> int" where
  "wrap_i64 x = (x + 2 ^ 63) mod 2 ^ 64 - 2 ^ 63"

lemmas i64_bounds = in_i64_def i64_MIN_def i64_MAX_def

lemma wrap_i64_id [simp]: "in_i64 x \<Longrightarrow> wrap_i64 x = x"
  by (simp add: wrap_i64_def i64_bounds)

lemma in_i64_wrap [simp]: "in_i64 (wrap_i64 x)"
proof -
  have "0 \<le> (x + 2 ^ 63) mod 2 ^ 64" and "(x + 2 ^ 63) mod 2 ^ 64 < 2 ^ 64"
    by simp_all
  then show ?thesis by (simp add: wrap_i64_def i64_bounds)
qed

lemma wrap_i64_cong: "x mod 2 ^ 64 = y mod 2 ^ 64 \<Longrightarrow> wrap_i64 x = wrap_i64 y"
  unfolding wrap_i64_def by (metis mod_add_left_eq)

lemma wrap_i64_mod [ldb_wrap]: "wrap_i64 x mod 2 ^ 64 = x mod 2 ^ 64"
proof -
  have "((x + 2 ^ 63) mod 2 ^ 64 - 2 ^ 63) mod 2 ^ 64 = (x + 2 ^ 63 - 2 ^ 63) mod (2 ^ 64 :: int)"
    by (rule mod_diff_left_eq)
  then show ?thesis by (simp add: wrap_i64_def)
qed

lemma wrap_i64_add_left [simp]: "wrap_i64 (wrap_i64 x + y) = wrap_i64 (x + y)"
  by (rule wrap_i64_cong) (metis mod_add_left_eq wrap_i64_mod)

lemma wrap_i64_add_right [simp]: "wrap_i64 (x + wrap_i64 y) = wrap_i64 (x + y)"
  by (rule wrap_i64_cong) (metis mod_add_right_eq wrap_i64_mod)

lemma wrap_i64_diff_left [simp]: "wrap_i64 (wrap_i64 x - y) = wrap_i64 (x - y)"
  by (rule wrap_i64_cong) (metis mod_diff_left_eq wrap_i64_mod)

lemma wrap_i64_eq_iff: "wrap_i64 x = x \<longleftrightarrow> in_i64 x"
  by (metis in_i64_wrap wrap_i64_id)

text \<open>\<open>checked_add\<close>, \<open>checked_sub\<close> and the \<open>overflowing_*\<close> operations of \<open>i64\<close>.\<close>

definition checked_i64 :: "int \<Rightarrow> int option" where
  "checked_i64 x = (if in_i64 x then Some x else None)"

definition overflowing_i64 :: "int \<Rightarrow> int \<times> bool" where
  "overflowing_i64 x = (wrap_i64 x, \<not> in_i64 x)"

lemma unat_of_nat_small: "n < 2 ^ LENGTH('a) \<Longrightarrow> unat (of_nat n :: 'a::len word) = n"
  by (simp add: unsigned_of_nat take_bit_nat_eq_self)

section \<open>Lists\<close>

lemma sorted_wrt_take: "sorted_wrt P xs \<Longrightarrow> sorted_wrt P (take n xs)"
  by (metis append_take_drop_id sorted_wrt_append)

lemma map_nth_upt [simp]: "map (\<lambda>i. xs ! i) [0..<length xs] = xs"
  by (rule map_nth)

lemma last_snoc_eq: "xs \<noteq> [] \<Longrightarrow> \<exists>ys. xs = ys @ [last xs]"
  by (metis append_butlast_last_id)

end
