(* ===== verification/Encoding_Types.thy ===== *)
theory Encoding_Types
  imports LDB_Prelude
begin

text \<open>
  The type tags of src/src/engine/data_types/types.rs: the encoding of a buffer (\<open>EncodingType\<close>),
  the type a query sees (\<open>BasicType\<close>), and the conversions between them. Constructors carry the
  prefix \<open>E\<close> or \<open>B\<close>, since both enums use the same names. The calls of \<open>panic!\<close> and
  \<open>unimplemented!\<close> are \<open>Inl Panicked\<close>.
\<close>

datatype EncodingType =
    EStr | EOptStr | EI64 | EU8 | EU16 | EU32 | EU64 | EF64
  | ENullableStr | ENullableI64 | ENullableU8 | ENullableU16 | ENullableU32 | ENullableU64
  | ENullableF64
  | EUSize | EVal | ENull
  | EScalarI64 | EScalarStr | EScalarString | EConstVal
  | EByteSlices nat | EValRows | EPremerge | EMergeOp

datatype BasicType =
    BString | BInteger | BFloat | BNullableString | BNullableInteger | BNullableFloat
  | BVal | BNull | BBoolean

fun cast_to_basic :: "EncodingType \<Rightarrow> BasicType res" where
  "cast_to_basic EStr = Inr BString"
| "cast_to_basic EI64 = Inr BInteger"
| "cast_to_basic EF64 = Inr BFloat"
| "cast_to_basic ENullableStr = Inr BNullableString"
| "cast_to_basic ENullableI64 = Inr BNullableInteger"
| "cast_to_basic ENullableF64 = Inr BNullableFloat"
| "cast_to_basic EVal = Inr BVal"
| "cast_to_basic ENull = Inr BNull"
| "cast_to_basic _ = Inl Panicked"

fun nullable :: "EncodingType \<Rightarrow> EncodingType res" where
  "nullable EStr = Inr ENullableStr"
| "nullable EI64 = Inr ENullableI64"
| "nullable EU8 = Inr ENullableU8"
| "nullable EU16 = Inr ENullableU16"
| "nullable EU32 = Inr ENullableU32"
| "nullable EU64 = Inr ENullableU64"
| "nullable EOptStr = Inr ENullableStr"
| "nullable ENullableStr = Inr ENullableStr"
| "nullable ENullableI64 = Inr ENullableI64"
| "nullable ENullableU8 = Inr ENullableU8"
| "nullable ENullableU16 = Inr ENullableU16"
| "nullable ENullableU32 = Inr ENullableU32"
| "nullable ENullableU64 = Inr ENullableU64"
| "nullable EVal = Inr EVal"
| "nullable _ = Inl Panicked"

fun nullable_fused :: "EncodingType \<Rightarrow> EncodingType res" where
  "nullable_fused ENullableStr = Inr EOptStr"
| "nullable_fused ENullableI64 = Inr EI64"
| "nullable_fused _ = Inl Panicked"

definition is_nullable :: "EncodingType \<Rightarrow> bool" where
  "is_nullable t \<longleftrightarrow> t \<in> {ENullableStr, ENullableI64, ENullableU8, ENullableU16, ENullableU32,
     ENullableU64}"

fun non_nullable :: "EncodingType \<Rightarrow> EncodingType" where
  "non_nullable ENullableStr = EStr"
| "non_nullable ENullableI64 = EI64"
| "non_nullable ENullableU8 = EU8"
| "non_nullable ENullableU16 = EU16"
| "non_nullable ENullableU32 = EU32"
| "non_nullable ENullableU64 = EU64"
| "non_nullable EOptStr = EStr"
| "non_nullable t = t"

definition least_upper_bound :: "EncodingType \<Rightarrow> EncodingType \<Rightarrow> EncodingType res" where
  "least_upper_bound t u =
     (if t = u then Inr t
      else case (t, u) of
        (EVal, _) \<Rightarrow> Inr EVal
      | (_, EVal) \<Rightarrow> Inr EVal
      | (EOptStr, EStr) \<Rightarrow> Inr EOptStr
      | (EStr, EOptStr) \<Rightarrow> Inr EOptStr
      | _ \<Rightarrow> Inl Panicked)"

fun to_encoded :: "BasicType \<Rightarrow> EncodingType" where
  "to_encoded BString = EStr"
| "to_encoded BInteger = EI64"
| "to_encoded BFloat = EF64"
| "to_encoded BNullableString = ENullableStr"
| "to_encoded BNullableInteger = ENullableI64"
| "to_encoded BNullableFloat = ENullableF64"
| "to_encoded BVal = EVal"
| "to_encoded BNull = ENull"
| "to_encoded BBoolean = EU8"

definition basic_is_nullable :: "BasicType \<Rightarrow> bool" where
  "basic_is_nullable t \<longleftrightarrow> t = BNullableInteger \<or> t = BNullableString"

fun basic_non_nullable :: "BasicType \<Rightarrow> BasicType" where
  "basic_non_nullable BNullableInteger = BInteger"
| "basic_non_nullable BNullableString = BString"
| "basic_non_nullable t = t"

section \<open>Laws\<close>

lemma is_nullable_nullable: "nullable t = Inr u \<Longrightarrow> is_nullable u \<or> u = EVal"
  by (cases t) (auto simp: is_nullable_def)

lemma non_nullable_nullable:
  "nullable t = Inr u \<Longrightarrow> \<not> is_nullable t \<Longrightarrow> t \<noteq> EOptStr \<Longrightarrow> non_nullable u = t"
  by (cases t) (auto simp: is_nullable_def)

lemma nullable_non_nullable: "is_nullable t \<Longrightarrow> nullable (non_nullable t) = Inr t"
  by (auto simp: is_nullable_def)

lemma non_nullable_idem [simp]: "non_nullable (non_nullable t) = non_nullable t"
  by (cases t) auto

lemma not_is_nullable_non_nullable [simp]: "\<not> is_nullable (non_nullable t)"
  by (cases t) (auto simp: is_nullable_def)

lemma lub_commute: "least_upper_bound t u = least_upper_bound u t"
  by (cases t; cases u) (auto simp: least_upper_bound_def)

lemma lub_idem [simp]: "least_upper_bound t t = Inr t"
  by (simp add: least_upper_bound_def)

lemma lub_Val [simp]: "least_upper_bound EVal t = Inr EVal" "least_upper_bound t EVal = Inr EVal"
  by (cases t; simp add: least_upper_bound_def)+

lemma lub_OptStr [simp]:
  "least_upper_bound EStr EOptStr = Inr EOptStr" "least_upper_bound EOptStr EStr = Inr EOptStr"
  by (simp_all add: least_upper_bound_def)

lemma lub_Inr_cases:
  assumes "least_upper_bound t u = Inr v"
  obtains "t = u" "v = t" | "t \<noteq> u" "v = EVal" "t = EVal \<or> u = EVal"
    | "v = EOptStr" "{t, u} = {EStr, EOptStr}"
  using assms by (cases t; cases u) (auto simp: least_upper_bound_def split: if_splits)

text \<open>The bound is an upper bound: joining it again with either side changes nothing.\<close>

lemma lub_absorb: "least_upper_bound t u = Inr v \<Longrightarrow> least_upper_bound t v = Inr v"
  by (erule lub_Inr_cases) (auto simp: doubleton_eq_iff)

text \<open>
  Where all the bounds exist, they do not depend on the order in which batches are merged.
\<close>

lemma lub_assoc:
  assumes "least_upper_bound t u = Inr v" and "least_upper_bound v w = Inr x"
    and "least_upper_bound u w = Inr y" and "least_upper_bound t y = Inr z"
  shows "x = z"
  using assms
  by (elim lub_Inr_cases) (auto simp: doubleton_eq_iff)

lemma cast_to_basic_to_encoded: "cast_to_basic t = Inr b \<Longrightarrow> to_encoded b = t"
  by (cases t) auto

lemma to_encoded_cast_to_basic: "b \<noteq> BBoolean \<Longrightarrow> cast_to_basic (to_encoded b) = Inr b"
  by (cases b) auto

section \<open>Main results\<close>

text \<open>
  The common type of two encodings is an upper bound: it absorbs both of them, so that both sides
  of a merge can be cast to it, and the order of the two sides does not matter.
\<close>

theorem lub_is_upper_bound:
  assumes "least_upper_bound t u = Inr v"
  shows "least_upper_bound t v = Inr v \<and> least_upper_bound u v = Inr v \<and> least_upper_bound u t = Inr v"
  using assms lub_absorb [of t u v] lub_absorb [of u t v] by (simp add: lub_commute [of u t])

theorem lub_is_upper_bound_witness:
  "least_upper_bound EStr EOptStr = Inr EOptStr \<and> least_upper_bound EOptStr EOptStr = Inr EOptStr \<and>
   least_upper_bound EOptStr EStr = Inr EOptStr"
  using lub_is_upper_bound [of EStr EOptStr EOptStr] by simp

end
