(* ===== verification/Codecs.thy ===== *)
theory Codecs
  imports Encoding_Types
begin

text \<open>
  Column codecs, src/src/mem_store/codec.rs, and the \<open>Type\<close> of an expression that carries one
  (src/src/engine/data_types/types.rs).

  A codec is a program for a stack machine: it starts with the first data section on the stack,
  \<open>PushDataSection\<close> pushes further sections and every other operation replaces its arguments by
  its result. \<open>decode_ops\<close> runs it over plans (the buffers of the query planner, here terms with
  their type tag), \<open>output_type\<close> over type tags alone. Vectors used as stacks are modelled with the
  top as the head of the list.
\<close>

datatype CodecOp =
    Nullable
  | Add EncodingType i64
  | Delta EncodingType
  | ToI64 EncodingType
  | PushDataSection nat
  | DictLookup EncodingType
  | LZ4 EncodingType nat
  | UnpackStrings
  | UnhexpackStrings bool nat
  | Unknown

section \<open>Properties of single operations\<close>

fun op_is_summation_preserving :: "CodecOp \<Rightarrow> bool res" where
  "op_is_summation_preserving Nullable = Inr False"
| "op_is_summation_preserving (Add _ x) = Inr (x = 0)"
| "op_is_summation_preserving (Delta _) = Inr False"
| "op_is_summation_preserving (ToI64 _) = Inr True"
| "op_is_summation_preserving (PushDataSection _) = Inr True"
| "op_is_summation_preserving (DictLookup _) = Inr False"
| "op_is_summation_preserving (LZ4 _ _) = Inr False"
| "op_is_summation_preserving UnpackStrings = Inr False"
| "op_is_summation_preserving (UnhexpackStrings _ _) = Inr False"
| "op_is_summation_preserving Unknown = Inl Panicked"

fun op_is_order_preserving :: "CodecOp \<Rightarrow> bool res" where
  "op_is_order_preserving Nullable = Inr False"
| "op_is_order_preserving (Add _ _) = Inr True"
| "op_is_order_preserving (Delta _) = Inr False"
| "op_is_order_preserving (ToI64 _) = Inr True"
| "op_is_order_preserving (PushDataSection _) = Inr True"
| "op_is_order_preserving (DictLookup _) = Inr True"
| "op_is_order_preserving (LZ4 _ _) = Inr False"
| "op_is_order_preserving UnpackStrings = Inr False"
| "op_is_order_preserving (UnhexpackStrings _ _) = Inr False"
| "op_is_order_preserving Unknown = Inl Panicked"

fun op_is_elementwise_decodable :: "CodecOp \<Rightarrow> bool res" where
  "op_is_elementwise_decodable Nullable = Inr False"
| "op_is_elementwise_decodable (Add _ _) = Inr True"
| "op_is_elementwise_decodable (Delta _) = Inr False"
| "op_is_elementwise_decodable (ToI64 _) = Inr True"
| "op_is_elementwise_decodable (PushDataSection _) = Inr True"
| "op_is_elementwise_decodable (DictLookup _) = Inr True"
| "op_is_elementwise_decodable (LZ4 _ _) = Inr False"
| "op_is_elementwise_decodable UnpackStrings = Inr False"
| "op_is_elementwise_decodable (UnhexpackStrings _ _) = Inr False"
| "op_is_elementwise_decodable Unknown = Inl Panicked"

fun arg_count :: "CodecOp \<Rightarrow> nat res" where
  "arg_count Nullable = Inr 0"
| "arg_count (Add _ _) = Inr 1"
| "arg_count (Delta _) = Inr 1"
| "arg_count (ToI64 _) = Inr 1"
| "arg_count (PushDataSection _) = Inr 0"
| "arg_count (DictLookup _) = Inr 3"
| "arg_count (LZ4 _ _) = Inr 1"
| "arg_count UnpackStrings = Inr 1"
| "arg_count (UnhexpackStrings _ _) = Inr 1"
| "arg_count Unknown = Inl Panicked"

section \<open>The result type of a sequence of operations\<close>

definition i64_like :: "EncodingType \<Rightarrow> EncodingType" where
  "i64_like t = (if is_nullable t then ENullableI64 else EI64)"

definition str_like :: "EncodingType \<Rightarrow> EncodingType" where
  "str_like t = (if is_nullable t then ENullableStr else EStr)"

text \<open>
  \<open>LZ4\<close>, \<open>UnpackStrings\<close> and \<open>UnhexpackStrings\<close> push their result without popping their
  argument, as in the source.
\<close>

fun output_step :: "EncodingType list \<Rightarrow> EncodingType list \<Rightarrow> CodecOp \<Rightarrow> EncodingType list res" where
  "output_step sts stack Nullable =
     (case stack of _ # t # rest \<Rightarrow> rmap (\<lambda>u. u # rest) (nullable t) | _ \<Rightarrow> Inl Panicked)"
| "output_step sts stack (Add _ _) =
     (case stack of t # rest \<Rightarrow> Inr (i64_like t # rest) | _ \<Rightarrow> Inl Panicked)"
| "output_step sts stack (Delta _) =
     (case stack of t # rest \<Rightarrow> Inr (i64_like t # rest) | _ \<Rightarrow> Inl Panicked)"
| "output_step sts stack (ToI64 _) =
     (case stack of t # rest \<Rightarrow> Inr (i64_like t # rest) | _ \<Rightarrow> Inl Panicked)"
| "output_step sts stack (DictLookup _) =
     (case stack of _ # _ # t # rest \<Rightarrow> Inr (str_like t # rest) | _ \<Rightarrow> Inl Panicked)"
| "output_step sts stack (LZ4 t _) = Inr (t # stack)"
| "output_step sts stack UnpackStrings = Inr (EStr # stack)"
| "output_step sts stack (UnhexpackStrings _ _) = Inr (EStr # stack)"
| "output_step sts stack (PushDataSection i) = rmap (\<lambda>t. t # stack) (index sts i)"
| "output_step sts stack Unknown = Inl Panicked"

definition output_type :: "CodecOp list \<Rightarrow> EncodingType list \<Rightarrow> BasicType res" where
  "output_type codec section_types =
     rbind (index section_types 0) (\<lambda>t0.
     rbind (rfoldM (output_step section_types) [t0] codec) (\<lambda>stack.
       case stack of t # _ \<Rightarrow> cast_to_basic t | [] \<Rightarrow> Inl Panicked))"

section \<open>Properties of a sequence of operations\<close>

text \<open>
  \<open>Codec::pop\<close> removes an operation and, by recursion, one operation per argument of it. Here
  \<open>codec_pop k\<close> makes \<open>k\<close> such calls: the calls an operation adds come before the ones that are
  pending, so their number is added to it. The vector is held back to front.
\<close>

fun codec_pop :: "nat \<Rightarrow> CodecOp list \<Rightarrow> CodecOp list res" where
  "codec_pop 0 ops = Inr ops"
| "codec_pop (Suc k) [] = Inr []"
| "codec_pop (Suc k) (op # ops) = rbind (arg_count op) (\<lambda>n. codec_pop (n + k) ops)"

lemma length_codec_pop: "codec_pop k ops = Inr ops' \<Longrightarrow> length ops' \<le> length ops"
  by (induction k ops arbitrary: ops' rule: codec_pop.induct) (auto intro: le_SucI)

function has_property_loop :: "(CodecOp \<Rightarrow> bool res) \<Rightarrow> CodecOp list \<Rightarrow> bool res" where
  "has_property_loop p [] = Inr True"
| "has_property_loop p (op # ops) =
     rbind (p op) (\<lambda>b. if \<not> b then Inr False
       else rbind (arg_count op) (\<lambda>n. rbind (codec_pop (n - 1) ops) (\<lambda>ops'. has_property_loop p ops')))"
  by pat_completeness auto
termination
  by (relation "measure (\<lambda>(p, ops). length ops)") (auto dest: length_codec_pop)

definition has_property :: "CodecOp list \<Rightarrow> (CodecOp \<Rightarrow> bool res) \<Rightarrow> bool res" where
  "has_property ops p = has_property_loop p (rev ops)"

text \<open>\<open>Codec::pop_push\<close>: as \<open>pop\<close>, moving what it removes to the end of another vector.\<close>

fun codec_pop_push :: "nat \<Rightarrow> CodecOp list \<Rightarrow> CodecOp list \<Rightarrow> (CodecOp list \<times> CodecOp list) res" where
  "codec_pop_push 0 ops push = Inr (ops, push)"
| "codec_pop_push (Suc k) [] push = Inr ([], push)"
| "codec_pop_push (Suc k) (op # ops) push =
     rbind (arg_count op) (\<lambda>n. codec_pop_push (n + k) ops (push @ [op]))"

lemma length_codec_pop_push:
  "codec_pop_push k ops push = Inr (ops', push') \<Longrightarrow> length ops' \<le> length ops"
  by (induction k ops push arbitrary: ops' push' rule: codec_pop_push.induct) (auto intro: le_SucI)

text \<open>The loop of \<open>ensure_property\<close>; the exit at the end of the vector does not reverse.\<close>

function ensure_property_loop ::
    "(CodecOp \<Rightarrow> bool res) \<Rightarrow> CodecOp list \<Rightarrow> CodecOp list \<Rightarrow> (CodecOp list \<times> CodecOp list) res" where
  "ensure_property_loop p [] preserving = Inr ([], preserving)"
| "ensure_property_loop p (op # ops) preserving =
     rbind (p op) (\<lambda>b. if \<not> b then Inr (rev (op # ops), rev preserving)
       else rbind (arg_count op) (\<lambda>n.
            rbind (codec_pop_push (n - 1) ops (preserving @ [op])) (\<lambda>r.
              ensure_property_loop p (fst r) (snd r))))"
  by pat_completeness auto
termination
  by (relation "measure (\<lambda>(p, ops, _). length ops)") (auto dest: length_codec_pop_push)

definition ensure_property ::
    "CodecOp list \<Rightarrow> (CodecOp \<Rightarrow> bool res) \<Rightarrow> (CodecOp list \<times> CodecOp list) res" where
  "ensure_property ops p = ensure_property_loop p (rev ops) []"

section \<open>Codecs\<close>

record Codec =
  c_ops :: "CodecOp list"
  c_column_name :: string
  c_section_types :: "EncodingType list"
  c_decoded_type :: BasicType
  c_is_summation_preserving :: bool
  c_is_order_preserving :: bool
  c_is_fixed_width :: bool

definition codec_new :: "CodecOp list \<Rightarrow> EncodingType list \<Rightarrow> Codec res" where
  "codec_new ops section_types =
     rbind (output_type ops section_types) (\<lambda>decoded_type.
     rbind (has_property ops op_is_summation_preserving) (\<lambda>sp.
     rbind (has_property ops op_is_order_preserving) (\<lambda>ord.
     rbind (has_property ops op_is_elementwise_decodable) (\<lambda>fw.
       Inr \<lparr>c_ops = ops, c_column_name = ''COLUMN_UNSPECIFIED'', c_section_types = section_types,
            c_decoded_type = decoded_type, c_is_summation_preserving = sp,
            c_is_order_preserving = ord, c_is_fixed_width = fw\<rparr>))))"

definition codec_identity :: "BasicType \<Rightarrow> Codec" where
  "codec_identity t =
     \<lparr>c_ops = [], c_column_name = ''COLUMN_UNSPECIFIED'', c_section_types = [to_encoded t],
      c_decoded_type = t, c_is_summation_preserving = True, c_is_order_preserving = True,
      c_is_fixed_width = True\<rparr>"

definition integer_offset :: "EncodingType \<Rightarrow> i64 \<Rightarrow> Codec res" where
  "integer_offset t offset = codec_new [Add t offset] [t]"

definition integer_cast :: "EncodingType \<Rightarrow> Codec res" where
  "integer_cast t = codec_new [ToI64 t] [t]"

definition codec_lz4 :: "EncodingType \<Rightarrow> nat \<Rightarrow> Codec res" where
  "codec_lz4 t decoded_length = codec_new [LZ4 t decoded_length] [t]"

definition codec_opaque :: "EncodingType \<Rightarrow> BasicType \<Rightarrow> bool \<Rightarrow> bool \<Rightarrow> bool \<Rightarrow> Codec" where
  "codec_opaque encoding_type decoded_type sp ord fw =
     \<lparr>c_ops = [Unknown], c_column_name = ''COLUMN_UNSPECIFIED'', c_section_types = [encoding_type],
      c_decoded_type = decoded_type, c_is_summation_preserving = sp, c_is_order_preserving = ord,
      c_is_fixed_width = fw\<rparr>"

definition set_column_name :: "Codec \<Rightarrow> string \<Rightarrow> Codec" where
  "set_column_name c name = c\<lparr>c_column_name := name\<rparr>"

definition with_lz4 :: "Codec \<Rightarrow> nat \<Rightarrow> Codec res" where
  "with_lz4 c decoded_length =
     rbind (index (c_section_types c) 0) (\<lambda>t0.
     rbind (codec_new (LZ4 t0 decoded_length # c_ops c) ((c_section_types c)[0 := EU8])) (\<lambda>c'.
       Inr (set_column_name c' (c_column_name c))))"

fun strip_lz4 :: "CodecOp list \<Rightarrow> EncodingType option \<Rightarrow> CodecOp list \<times> EncodingType option" where
  "strip_lz4 [] decoded = ([], decoded)"
| "strip_lz4 (LZ4 t n # ops) decoded = strip_lz4 ops (Some t)"
| "strip_lz4 (op # ops) decoded = (let (ops', d) = strip_lz4 ops decoded in (op # ops', d))"

text \<open>
  \<open>Vec::with_capacity(self.ops.len() - 1)\<close> asks for a capacity near \<open>usize::MAX\<close> when there
  is no operation, which panics.
\<close>

definition without_lz4 :: "Codec \<Rightarrow> Codec res" where
  "without_lz4 c =
     (if c_ops c = [] then Inl Panicked
      else let (ops, decoded_type) = strip_lz4 (c_ops c) None in
        rbind (if ops = [] then Inr (codec_identity (c_decoded_type c))
               else case decoded_type of
                   None \<Rightarrow> codec_new ops (c_section_types c)
                 | Some t \<Rightarrow>
                     if c_section_types c = [] then Inl Panicked
                     else codec_new ops ((c_section_types c)[0 := t]))
          (\<lambda>codec. Inr (set_column_name codec (c_column_name c))))"

definition encoding_type :: "Codec \<Rightarrow> EncodingType res" where
  "encoding_type c = index (c_section_types c) 0"

definition is_identity :: "Codec \<Rightarrow> bool" where
  "is_identity c \<longleftrightarrow> c_ops c = []"

definition encode_int :: "Codec \<Rightarrow> i64 \<Rightarrow> i64 res" where
  "encode_int c x =
     (case c_ops c of
        Add _ y # rest \<Rightarrow> if rest = [] then Inr (wrap_i64 (x - y)) else Inl Panicked
      | ToI64 _ # rest \<Rightarrow> if rest = [] then Inr x else Inl Panicked
      | _ \<Rightarrow> Inl Panicked)"

section \<open>Decoding plans\<close>

text \<open>
  The operations of the query planner that decoding calls, as terms over inputs: an input is a buffer
  that another operation of the plan fills.
\<close>

datatype 'p dplan =
    Input 'p
  | ColumnSection string nat
  | AssembleNullable "'p dplan" "'p dplan"
  | PAdd "'p dplan" i64
  | DeltaDecode "'p dplan"
  | Cast "'p dplan" EncodingType
  | PDictLookup "'p dplan" "'p dplan" "'p dplan"
  | LZ4Decode "'p dplan" nat EncodingType
  | PUnpackStrings "'p dplan"
  | PUnhexpackStrings "'p dplan" bool nat

type_synonym 'p tplan = "'p dplan \<times> EncodingType"

text \<open>\<open>TypedBufferRef::u8()\<close> and \<open>u64()\<close> followed by \<open>unwrap\<close>.\<close>

definition expect :: "EncodingType \<Rightarrow> 'p tplan \<Rightarrow> 'p dplan res" where
  "expect t p = (if snd p = t then Inr (fst p) else Inl Panicked)"

fun decode_step :: "Codec \<Rightarrow> 'p tplan list \<Rightarrow> CodecOp \<Rightarrow> 'p tplan list res" where
  "decode_step c stack Nullable =
     (case stack of
        present # data # rest \<Rightarrow>
          rbind (expect EU8 present) (\<lambda>p.
          rbind (nullable (snd data)) (\<lambda>t. Inr ((AssembleNullable (fst data) p, t) # rest)))
      | _ \<Rightarrow> Inl Panicked)"
| "decode_step c stack (Add _ x) =
     (case stack of lhs # rest \<Rightarrow> Inr ((PAdd (fst lhs) x, i64_like (snd lhs)) # rest) | _ \<Rightarrow> Inl Panicked)"
| "decode_step c stack (Delta _) =
     (case stack of p # rest \<Rightarrow> Inr ((DeltaDecode (fst p), EI64) # rest) | _ \<Rightarrow> Inl Panicked)"
| "decode_step c stack (ToI64 _) =
     (case stack of p # rest \<Rightarrow> Inr ((Cast (fst p) EI64, i64_like (snd p)) # rest) | _ \<Rightarrow> Inl Panicked)"
| "decode_step c stack (PushDataSection i) =
     rmap (\<lambda>t. (ColumnSection (c_column_name c) i, t) # stack) (index (c_section_types c) i)"
| "decode_step c stack (DictLookup _) =
     (case stack of
        dict_data # dict_indices # indices # rest \<Rightarrow>
          rbind (expect EU64 dict_indices) (\<lambda>di.
          rbind (expect EU8 dict_data) (\<lambda>dd.
            Inr ((PDictLookup (fst indices) di dd, str_like (snd indices)) # rest)))
      | _ \<Rightarrow> Inl Panicked)"
| "decode_step c stack (LZ4 t decoded_length) =
     (case stack of
        p # rest \<Rightarrow> rbind (expect EU8 p) (\<lambda>b. Inr ((LZ4Decode b decoded_length t, t) # rest))
      | _ \<Rightarrow> Inl Panicked)"
| "decode_step c stack UnpackStrings =
     (case stack of
        p # rest \<Rightarrow> rbind (expect EU8 p) (\<lambda>b. Inr ((PUnpackStrings b, EStr) # rest))
      | _ \<Rightarrow> Inl Panicked)"
| "decode_step c stack (UnhexpackStrings upper total_bytes) =
     (case stack of
        p # rest \<Rightarrow> rbind (expect EU8 p) (\<lambda>b. Inr ((PUnhexpackStrings b upper total_bytes, EStr) # rest))
      | _ \<Rightarrow> Inl Panicked)"
| "decode_step c stack Unknown = Inl Panicked"

definition decode_ops :: "Codec \<Rightarrow> CodecOp list \<Rightarrow> 'p tplan \<Rightarrow> 'p tplan res" where
  "decode_ops c ops plan =
     rbind (rfoldM (decode_step c) [plan] ops) (\<lambda>stack.
       case stack of [p] \<Rightarrow> Inr p | _ \<Rightarrow> Inl Panicked)"

definition decode :: "Codec \<Rightarrow> 'p tplan \<Rightarrow> 'p tplan res" where
  "decode c plan = decode_ops c (c_ops c) plan"

definition ensure_fixed_width :: "Codec \<Rightarrow> 'p tplan \<Rightarrow> (Codec \<times> 'p tplan) res" where
  "ensure_fixed_width c plan =
     rbind (ensure_property (c_ops c) op_is_elementwise_decodable) (\<lambda>(fixed_width, rest).
     rbind (if rest = [] then Inr (codec_identity (c_decoded_type c))
            else codec_new rest (c_section_types c)) (\<lambda>codec.
     rbind (decode_ops c fixed_width plan) (\<lambda>decoded.
       Inr (set_column_name codec (c_column_name c), decoded))))"

text \<open>The plan for the code of a string constant in a dictionary column.\<close>

datatype 'p const_plan = InverseDictLookup "'p dplan" "'p dplan" rstr

fun encode_str :: "Codec \<Rightarrow> rstr \<Rightarrow> 'p const_plan res" where
  "encode_str c s =
     (case c_ops c of
        [PushDataSection i, PushDataSection j, DictLookup _] \<Rightarrow>
          if i = 1 \<and> j = 2
          then Inr (InverseDictLookup (ColumnSection (c_column_name c) 1)
                      (ColumnSection (c_column_name c) 2) s)
          else Inl Panicked
      | _ \<Rightarrow> Inl Panicked)"

section \<open>Types of expressions\<close>

record Type =
  ty_decoded :: BasicType
  ty_codec :: "Codec option"
  ty_is_scalar :: bool
  ty_is_borrowed :: bool

definition type_new :: "BasicType \<Rightarrow> Codec option \<Rightarrow> Type" where
  "type_new basic codec =
     \<lparr>ty_decoded = basic, ty_codec = codec, ty_is_scalar = False, ty_is_borrowed = False\<rparr>"

definition type_encoded :: "Codec \<Rightarrow> Type" where
  "type_encoded codec =
     \<lparr>ty_decoded = c_decoded_type codec, ty_codec = Some codec, ty_is_scalar = False,
      ty_is_borrowed = False\<rparr>"

definition type_unencoded :: "BasicType \<Rightarrow> Type" where
  "type_unencoded basic =
     \<lparr>ty_decoded = basic, ty_codec = None, ty_is_scalar = False, ty_is_borrowed = False\<rparr>"

definition type_mutable :: "Type \<Rightarrow> Type" where
  "type_mutable t = t\<lparr>ty_is_borrowed := True\<rparr>"

definition type_bit_vec :: Type where
  "type_bit_vec = type_mutable (type_new BBoolean None)"

definition type_is_encoded :: "Type \<Rightarrow> bool" where
  "type_is_encoded t = (case ty_codec t of None \<Rightarrow> False | Some c \<Rightarrow> \<not> is_identity c)"

definition type_is_summation_preserving :: "Type \<Rightarrow> bool" where
  "type_is_summation_preserving t =
     (case ty_codec t of None \<Rightarrow> True | Some c \<Rightarrow> c_is_summation_preserving c)"

definition type_is_elementwise_decodable :: "Type \<Rightarrow> bool" where
  "type_is_elementwise_decodable t =
     (case ty_codec t of None \<Rightarrow> True | Some c \<Rightarrow> c_is_fixed_width c)"

definition type_is_order_preserving :: "Type \<Rightarrow> bool" where
  "type_is_order_preserving t =
     (case ty_codec t of None \<Rightarrow> True | Some c \<Rightarrow> c_is_order_preserving c)"

definition type_is_nullable :: "Type \<Rightarrow> bool" where
  "type_is_nullable t = basic_is_nullable (ty_decoded t)"

definition type_scalar :: "BasicType \<Rightarrow> Type" where
  "type_scalar basic =
     \<lparr>ty_decoded = basic, ty_codec = None, ty_is_scalar = True, ty_is_borrowed = False\<rparr>"

definition type_encoding_type :: "Type \<Rightarrow> EncodingType res" where
  "type_encoding_type t =
     (case ty_codec t of None \<Rightarrow> Inr (to_encoded (ty_decoded t)) | Some c \<Rightarrow> encoding_type c)"

definition type_decoded :: "Type \<Rightarrow> Type" where
  "type_decoded t = t\<lparr>ty_is_borrowed := \<not> type_is_encoded t, ty_codec := None\<rparr>"

section \<open>Splitting a codec\<close>

text \<open>
  What \<open>codec_pop_push\<close> moves is a prefix \<open>ds\<close> of the (reversed) vector, and \<open>codec_pop\<close> with the
  same number of calls removes exactly that prefix.
\<close>

lemma codec_pop_push_prefix:
  assumes "codec_pop_push k ops push = Inr (ops', push')"
  shows "\<exists>ds. ops = ds @ ops' \<and> push' = push @ ds \<and>
     (\<forall>es. ops' \<noteq> [] \<or> es = [] \<longrightarrow> codec_pop k (ds @ es) = Inr es)"
  using assms
proof (induction k ops push rule: codec_pop_push.induct)
  case (2 k push)
  then show ?case by (intro exI [of _ "[]"]) auto
next
  case (3 k op ops push)
  then obtain n where n: "arg_count op = Inr n"
    and "codec_pop_push (n + k) ops (push @ [op]) = Inr (ops', push')" by auto
  with 3 obtain ds where "ops = ds @ ops'" "push' = (push @ [op]) @ ds"
    "\<forall>es. ops' \<noteq> [] \<or> es = [] \<longrightarrow> codec_pop (n + k) (ds @ es) = Inr es" by blast
  with n show ?case by (intro exI [of _ "op # ds"]) auto
qed auto

lemma codec_pop_iff_push: "codec_pop k ops = rmap fst (codec_pop_push k ops push)"
proof (induction k ops push rule: codec_pop_push.induct)
  case (3 k op ops push)
  then show ?case by (cases "arg_count op") auto
qed auto

text \<open>
  The two traversals agree: where \<open>has_property\<close> is false, \<open>ensure_property\<close> stops at the same
  operation, keeps it last in the first part, and has the rest in order in the second.
\<close>

lemma ensure_property_loop_split:
  assumes "has_property_loop p ops = Inr False"
  shows "\<exists>a b. ensure_property_loop p ops acc = Inr (a, b) \<and> a @ b = rev ops @ rev acc \<and>
     a \<noteq> [] \<and> p (last a) = Inr False"
  using assms
proof (induction p ops arbitrary: acc rule: has_property_loop.induct)
  case (2 p op ops)
  then obtain b where b: "p op = Inr b" by auto
  show ?case
  proof (cases b)
    case False
    with b show ?thesis by simp
  next
    case True
    with 2 b obtain n ops1 where n: "arg_count op = Inr n" "codec_pop (n - 1) ops = Inr ops1"
      "has_property_loop p ops1 = Inr False" by auto
    from n(2) obtain acc1 where
      pp: "codec_pop_push (n - 1) ops (acc @ [op]) = Inr (ops1, acc1)"
      by (auto simp: codec_pop_iff_push [of _ _ "acc @ [op]"] rmap_def)
    from "2.IH" [OF b] True n obtain a b' where
      ab: "ensure_property_loop p ops1 acc1 = Inr (a, b')" "a @ b' = rev ops1 @ rev acc1"
      "a \<noteq> []" "p (last a) = Inr False" by blast
    from codec_pop_push_prefix [OF pp] obtain ds where "ops = ds @ ops1" "acc1 = (acc @ [op]) @ ds"
      by blast
    with ab(2) have "a @ b' = rev (op # ops) @ rev acc" by simp
    with ab b True n pp show ?thesis by simp
  qed
qed simp

lemma ensure_property_loop_all:
  assumes "has_property_loop p ops = Inr True"
  shows "ensure_property_loop p ops acc = Inr ([], acc @ ops)"
  using assms
proof (induction p ops arbitrary: acc rule: has_property_loop.induct)
  case (2 p op ops)
  then obtain n ops1 where b: "p op = Inr True" and n: "arg_count op = Inr n"
    "codec_pop (n - 1) ops = Inr ops1" "has_property_loop p ops1 = Inr True"
    by (auto split: if_splits)
  from n(2) obtain acc1 where
    pp: "codec_pop_push (n - 1) ops (acc @ [op]) = Inr (ops1, acc1)"
    by (auto simp: codec_pop_iff_push [of _ _ "acc @ [op]"] rmap_def)
  from "2.IH" [OF b] n have "ensure_property_loop p ops1 acc1 = Inr ([], acc1 @ ops1)" by blast
  moreover from codec_pop_push_prefix [OF pp] obtain ds where
    "ops = ds @ ops1" "acc1 = (acc @ [op]) @ ds" by blast
  ultimately show ?case using b n pp by simp
qed simp

lemma ensure_property_loop_rest:
  assumes "ensure_property_loop p ops acc = Inr (a, b)" and "a \<noteq> []"
  shows "\<exists>cs. b = rev (acc @ cs) \<and> has_property_loop p cs = Inr True \<and> ops = cs @ rev a"
  using assms
proof (induction p ops acc rule: ensure_property_loop.induct)
  case (2 p op ops acc)
  from 2(2) obtain q where q: "p op = Inr q" by auto
  show ?case
  proof (cases q)
    case False
    with 2 q show ?thesis by (intro exI [of _ "[]"]) auto
  next
    case True
    with 2 q obtain n r where n: "arg_count op = Inr n"
      and r: "codec_pop_push (n - 1) ops (acc @ [op]) = Inr r"
      and e: "ensure_property_loop p (fst r) (snd r) = Inr (a, b)" by auto
    from "2.IH" [OF q _ n r e] True 2(3) obtain cs where
      cs: "b = rev (snd r @ cs)" "has_property_loop p cs = Inr True" "fst r = cs @ rev a" by auto
    obtain ops1 acc1 where r': "r = (ops1, acc1)" by (cases r)
    from codec_pop_push_prefix [of "n - 1" ops "acc @ [op]" ops1 acc1] r r' obtain ds where
      ds: "ops = ds @ ops1" "acc1 = (acc @ [op]) @ ds"
      "\<forall>es. ops1 \<noteq> [] \<or> es = [] \<longrightarrow> codec_pop (n - 1) (ds @ es) = Inr es" by blast
    have "codec_pop (n - 1) (ds @ cs) = Inr cs"
      using ds(3) cs(3) r' 2(3) by simp
    with q True n cs(2) have "has_property_loop p (op # ds @ cs) = Inr True" by simp
    then show ?thesis
      using cs ds r' by (intro exI [of _ "op # ds @ cs"]) simp
  qed
qed simp

section \<open>Decoding in two steps\<close>

lemma decode_ops_Inr_iff:
  "decode_ops c ops p = Inr q \<longleftrightarrow> rfoldM (decode_step c) [p] ops = Inr [q]"
  by (cases "rfoldM (decode_step c) [p] ops") (auto simp: decode_ops_def split: list.splits)

lemma decode_ops_append:
  "decode_ops c a p = Inr q \<Longrightarrow> decode_ops c (a @ b) p = decode_ops c b q"
  unfolding decode_ops_Inr_iff by (simp add: decode_ops_def rfoldM_append)

lemma decode_step_cong:
  "c_column_name c = c_column_name c' \<Longrightarrow> c_section_types c = c_section_types c' \<Longrightarrow>
   decode_step c stack op = decode_step c' stack op"
  by (cases op) simp_all

lemma decode_ops_cong:
  fixes p :: "'p tplan"
  assumes "c_column_name c = c_column_name c'" "c_section_types c = c_section_types c'"
  shows "decode_ops c ops p = decode_ops c' ops p"
proof -
  have "decode_step c = (decode_step c' :: 'p tplan list \<Rightarrow> _)"
    using decode_step_cong [OF assms] by (intro ext)
  then show ?thesis by (simp add: decode_ops_def)
qed

lemma decode_ops_Nil [simp]: "decode_ops c [] p = Inr p"
  by (simp add: decode_ops_def)

lemma codec_new_fields:
  "codec_new ops sts = Inr c \<Longrightarrow>
   c_ops c = ops \<and> c_section_types c = sts \<and> output_type ops sts = Inr (c_decoded_type c) \<and>
   has_property ops op_is_elementwise_decodable = Inr (c_is_fixed_width c)"
  by (auto simp: codec_new_def)

section \<open>Type tags of decoded plans\<close>

fun is_unary_head :: "CodecOp \<Rightarrow> bool" where
  "is_unary_head (LZ4 _ _) = True"
| "is_unary_head UnpackStrings = True"
| "is_unary_head (UnhexpackStrings _ _) = True"
| "is_unary_head _ = False"

fun is_delta :: "CodecOp \<Rightarrow> bool" where
  "is_delta (Delta _) = True"
| "is_delta _ = False"

fun is_Nullable :: "CodecOp \<Rightarrow> bool" where
  "is_Nullable Nullable = True"
| "is_Nullable _ = False"

text \<open>
  The shape of every codec the column writers build: decompression first, over a type that is not
  nullable, and deltas undone before the null map is attached.
\<close>

fun plain_head :: "CodecOp \<Rightarrow> bool" where
  "plain_head (LZ4 t _) = (\<not> is_nullable t)"
| "plain_head op = is_unary_head op"

fun body_shape :: "bool \<Rightarrow> CodecOp list \<Rightarrow> bool" where
  "body_shape nul [] = True"
| "body_shape nul (op # ops) =
     (\<not> is_unary_head op \<and> (nul \<longrightarrow> \<not> is_delta op) \<and> body_shape (nul \<or> is_Nullable op) ops)"

definition writer_shape :: "CodecOp list \<Rightarrow> bool" where
  "writer_shape ops \<longleftrightarrow> body_shape False (dropWhile plain_head ops)"

text \<open>
  The tags on the stack of plans are a prefix of the type stack: \<open>output_type\<close> leaves the arguments
  of the unary operations below.
\<close>

definition tags_agree :: "'p tplan list \<Rightarrow> EncodingType list \<Rightarrow> bool" where
  "tags_agree stack ts \<longleftrightarrow> (\<exists>junk. ts = map snd stack @ junk)"

lemma not_is_nullable_like [simp]:
  "is_nullable (i64_like t) = is_nullable t" "is_nullable (str_like t) = is_nullable t"
  by (simp_all add: i64_like_def str_like_def is_nullable_def)

lemma heads_agree:
  assumes "\<forall>op \<in> set hs. plain_head op" and "\<not> is_nullable (snd p)"
    and "rfoldM (decode_step c) [p] hs = Inr stack" and "rfoldM (output_step sts) (snd p # junk) hs = Inr ts"
  shows "\<exists>q. stack = [q] \<and> \<not> is_nullable (snd q) \<and> tags_agree stack ts"
  using assms
proof (induction hs arbitrary: p junk)
  case Nil
  then show ?case by (cases p) (auto simp: tags_agree_def)
next
  case (Cons h hs)
  then obtain p' where p': "decode_step c [p] h = Inr [p']" "\<not> is_nullable (snd p')"
    "output_step sts (snd p # junk) h = Inr (snd p' # snd p # junk)"
    by (cases h) (auto simp: is_nullable_def)
  with Cons show ?case by auto
qed

lemma body_step_agree:
  assumes "decode_step c stack op = Inr stack'" and "output_step (c_section_types c) ts op = Inr ts'"
    and "tags_agree stack ts" and "\<not> is_unary_head op"
    and "is_delta op \<Longrightarrow> \<forall>p \<in> set stack. \<not> is_nullable (snd p)"
  shows "tags_agree stack' ts'"
proof -
  from assms(3) obtain junk where "ts = map snd stack @ junk" by (auto simp: tags_agree_def)
  with assms show ?thesis
    by (cases op) (auto simp: tags_agree_def i64_like_def rmap_Inr_iff split: list.splits)
qed

lemma body_step_plain:
  assumes step: "decode_step c stack op = Inr stack'" and op: "\<not> is_Nullable op" "\<not> is_unary_head op"
    and sts: "\<forall>t \<in> set (c_section_types c). \<not> is_nullable t"
    and stack: "\<forall>p \<in> set stack. \<not> is_nullable (snd p)"
  shows "\<forall>p \<in> set stack'. \<not> is_nullable (snd p)"
proof (cases op)
  case (PushDataSection i)
  with step sts stack show ?thesis
    by (auto simp: rmap_Inr_iff index_def split: if_splits)
next
  case (Delta t)
  with step stack show ?thesis
    by (auto simp: is_nullable_def split: list.splits)
next
  case (DictLookup t)
  with step stack show ?thesis by (auto split: list.splits)
next
  case (Add t x)
  with step stack show ?thesis by (auto split: list.splits)
next
  case (ToI64 t)
  with step stack show ?thesis by (auto split: list.splits)
qed (use step op in auto)

lemma body_agree:
  assumes "body_shape nul ops" and "tags_agree stack ts"
    and "nul \<or> (\<forall>p \<in> set stack. \<not> is_nullable (snd p))"
    and "\<forall>t \<in> set (c_section_types c). \<not> is_nullable t"
    and "rfoldM (decode_step c) stack ops = Inr stack'"
    and "rfoldM (output_step (c_section_types c)) ts ops = Inr ts'"
  shows "tags_agree stack' ts'"
  using assms
proof (induction nul ops arbitrary: stack ts rule: body_shape.induct)
  case (2 nul op ops)
  from 2 obtain s1 t1 where s1: "decode_step c stack op = Inr s1"
    and t1: "output_step (c_section_types c) ts op = Inr t1" by auto
  have "tags_agree s1 t1" using body_step_agree [OF s1 t1] 2 by auto
  moreover have "nul \<or> is_Nullable op \<or> (\<forall>p \<in> set s1. \<not> is_nullable (snd p))"
    using body_step_plain [OF s1] 2 by auto
  ultimately show ?case using 2 s1 t1 by auto
qed auto

lemma decode_tag:
  assumes "writer_shape (c_ops c)" and "\<forall>t \<in> set (c_section_types c). \<not> is_nullable t"
    and "index (c_section_types c) 0 = Inr t0" and "decode c (p, t0) = Inr (q, t)"
    and "output_type (c_ops c) (c_section_types c) = Inr b"
  shows "cast_to_basic t = Inr b"
proof -
  let ?hs = "takeWhile plain_head (c_ops c)" and ?bs = "dropWhile plain_head (c_ops c)"
  have t0: "\<not> is_nullable t0" using assms(2,3) by (auto simp: index_def split: if_splits)
  from assms(5,3) obtain ts where ts: "rfoldM (output_step (c_section_types c)) [t0] (?hs @ ?bs) = Inr ts"
    and b: "(case ts of t # _ \<Rightarrow> cast_to_basic t | [] \<Rightarrow> Inl Panicked) = Inr b"
    by (auto simp: output_type_def)
  from assms(4) have st: "rfoldM (decode_step c) [(p, t0)] (?hs @ ?bs) = Inr [(q, t)]"
    by (simp add: decode_def decode_ops_Inr_iff)
  from ts obtain t1 where t1: "rfoldM (output_step (c_section_types c)) [t0] ?hs = Inr t1"
    "rfoldM (output_step (c_section_types c)) t1 ?bs = Inr ts" unfolding rfoldM_append by auto
  from st obtain s1 where s1: "rfoldM (decode_step c) [(p, t0)] ?hs = Inr s1"
    "rfoldM (decode_step c) s1 ?bs = Inr [(q, t)]" unfolding rfoldM_append by auto
  have "\<exists>q. s1 = [q] \<and> \<not> is_nullable (snd q) \<and> tags_agree s1 t1"
    by (rule heads_agree [of ?hs "(p, t0)" c s1 "c_section_types c" "[]"])
       (use t0 s1 t1 in \<open>auto dest: set_takeWhileD\<close>)
  then have "tags_agree [(q, t)] ts"
    using body_agree [of False ?bs s1 t1 c] assms(1,2) s1 t1 by (auto simp: writer_shape_def)
  with b show ?thesis by (auto simp: tags_agree_def)
qed

section \<open>Restoring fixed width\<close>

lemma ensure_fixed_width_sound:
  assumes new: "codec_new (c_ops c) (c_section_types c) = Inr c0"
    and var: "\<not> c_is_fixed_width c0"
    and e: "ensure_fixed_width c plan = Inr (c', p)"
  shows "decode c' p = decode c plan" and "c_is_fixed_width c'"
proof -
  let ?P = "op_is_elementwise_decodable"
  from codec_new_fields [OF new] var have "has_property_loop ?P (rev (c_ops c)) = Inr False"
    by (simp add: has_property_def)
  from ensure_property_loop_split [OF this, of "[]"] obtain a b where
    ab: "ensure_property_loop ?P (rev (c_ops c)) [] = Inr (a, b)" "a @ b = c_ops c" "a \<noteq> []" by auto
  from ensure_property_loop_rest [OF ab(1,3)] have
    fw: "has_property b ?P = Inr True" by (auto simp: has_property_def)
  from e ab(1) obtain k where k: "(if b = [] then Inr (codec_identity (c_decoded_type c))
      else codec_new b (c_section_types c)) = Inr k"
    and d: "decode_ops c a plan = Inr p" and c': "c' = set_column_name k (c_column_name c)"
    by (auto simp: ensure_fixed_width_def ensure_property_def)
  show "c_is_fixed_width c'"
    using k c' fw codec_new_fields [of b "c_section_types c" k]
    by (auto simp: set_column_name_def codec_identity_def split: if_splits)
  show "decode c' p = decode c plan"
  proof (cases "b = []")
    case True
    with k c' have "c_ops c' = []" by (auto simp: set_column_name_def codec_identity_def)
    with True ab(2) d show ?thesis by (simp add: decode_def)
  next
    case False
    with k codec_new_fields [of b "c_section_types c" k] c'
    have "c_ops c' = b" "c_column_name c' = c_column_name c" "c_section_types c' = c_section_types c"
      by (auto simp: set_column_name_def)
    with decode_ops_append [OF d, of b] ab(2) decode_ops_cong [of c' c b p] show ?thesis
      by (simp add: decode_def)
  qed
qed

text \<open>
  On a codec that is fixed width already the second part comes back in reverse order: the exit at
  the end of the loop of \<open>ensure_property\<close> does not reverse it.
\<close>

lemma ensure_property_all_reversed:
  "has_property ops p = Inr True \<Longrightarrow> ensure_property ops p = Inr ([], rev ops)"
  by (simp add: has_property_def ensure_property_def ensure_property_loop_all)

section \<open>Main results\<close>

text \<open>
  Decoding in two steps. For a codec that is not fixed width, \<open>ensure_fixed_width\<close> decodes just
  enough of it: what remains is a fixed width codec, and decoding the remainder gives the plan that
  decoding everything at once gives.
\<close>

theorem ensure_fixed_width_correct:
  assumes "codec_new (c_ops c) (c_section_types c) = Inr c0" and "\<not> c_is_fixed_width c0"
    and "ensure_fixed_width c plan = Inr (c', p)"
  shows "c_is_fixed_width c' \<and> decode c' p = decode c plan"
  using ensure_fixed_width_sound [OF assms] by simp

text \<open>Compressed bytes with an offset: the offset can be added element by element, the compression not.\<close>

definition compressed_codec :: Codec where
  "compressed_codec = \<lparr>c_ops = [LZ4 EU8 3, Add EU8 5], c_column_name = ''COLUMN_UNSPECIFIED'',
     c_section_types = [EU8], c_decoded_type = BInteger, c_is_summation_preserving = False,
     c_is_order_preserving = False, c_is_fixed_width = False\<rparr>"

lemma compressed_codec_new: "codec_new [LZ4 EU8 3, Add EU8 5] [EU8] = Inr compressed_codec"
  by (simp add: codec_new_def output_type_def index_def has_property_def compressed_codec_def i64_like_def is_nullable_def)

theorem ensure_fixed_width_correct_witness:
  "\<exists>c' p. ensure_fixed_width compressed_codec (ColumnSection ''x'' 0 :: unit dplan, EU8) = Inr (c', p) \<and>
    c_ops c' = [Add EU8 5] \<and> c_is_fixed_width c' \<and>
    decode c' p = decode compressed_codec (ColumnSection ''x'' 0 :: unit dplan, EU8)"
proof -
  have "\<exists>c' p. ensure_fixed_width compressed_codec (ColumnSection ''x'' 0 :: unit dplan, EU8) = Inr (c', p) \<and> c_ops c' = [Add EU8 5]"
    by (simp add: ensure_fixed_width_def ensure_property_def compressed_codec_def codec_new_def output_type_def
        index_def has_property_def i64_like_def is_nullable_def decode_ops_def expect_def set_column_name_def)
  then obtain c' p where e: "ensure_fixed_width compressed_codec (ColumnSection ''x'' 0 :: unit dplan, EU8) = Inr (c', p)"
    "c_ops c' = [Add EU8 5]" by blast
  have "codec_new (c_ops compressed_codec) (c_section_types compressed_codec) = Inr compressed_codec"
    using compressed_codec_new by (simp add: compressed_codec_def)
  from ensure_fixed_width_correct [OF this _ e(1)] e show ?thesis by (simp add: compressed_codec_def)
qed

text \<open>
  C31. Type soundness of codecs. For codecs of the shape the column writers build, the type that
  \<open>output_type\<close> computes from the section types alone is the type tag of the plan \<open>decode\<close> builds.
\<close>

theorem decode_type_sound:
  assumes "writer_shape (c_ops c)" and "\<forall>t \<in> set (c_section_types c). \<not> is_nullable t"
    and "index (c_section_types c) 0 = Inr t0" and "decode c (p, t0) = Inr (q, t)"
    and "output_type (c_ops c) (c_section_types c) = Inr b"
  shows "cast_to_basic t = Inr b"
  using assms by (rule decode_tag)

theorem decode_type_sound_witness:
  "\<exists>q t. decode compressed_codec (ColumnSection ''x'' 0 :: unit dplan, EU8) = Inr (q, t) \<and> cast_to_basic t = Inr BInteger"
proof -
  have "\<exists>q t. decode compressed_codec (ColumnSection ''x'' 0 :: unit dplan, EU8) = Inr (q, t)"
    by (simp add: decode_def decode_ops_def compressed_codec_def expect_def)
  then obtain q t where q: "decode compressed_codec (ColumnSection ''x'' 0 :: unit dplan, EU8) = Inr (q, t)" by blast
  have "cast_to_basic t = Inr BInteger"
    by (rule decode_type_sound [OF _ _ _ q])
      (simp_all add: compressed_codec_def writer_shape_def is_nullable_def index_def output_type_def i64_like_def)
  with q show ?thesis by blast
qed

end
