(* ===== verification/Bit_Vectors.thy ===== *)
theory Bit_Vectors
  imports LDB_Prelude
begin

text \<open>
  The null maps of the engine, src/src/bitvec.rs: a \<open>Vec<u8>\<close> with one bit per row, set for the
  rows that are present. Growing on \<open>set\<close>, and reading \<open>false\<close> beyond the end on \<open>is_set\<close>,
  make the byte vector a finite set of row numbers; the locale \<open>presence_map\<close> states that
  contract for the operators that build and read null maps.
\<close>

section \<open>The trait implementations\<close>

text \<open>\<open>while slot >= self.len() { self.push(0); }\<close>\<close>

function bv_grow :: "u8 list \<Rightarrow> nat \<Rightarrow> u8 list" where
  "bv_grow v slot = (if length v \<le> slot then bv_grow (v @ [0]) slot else v)"
  by pat_completeness auto
termination
  by (relation "measure (\<lambda>(v, slot). Suc slot - length v)") auto

declare bv_grow.simps [simp del]

definition bv_mask :: "nat \<Rightarrow> u8" where
  "bv_mask i = push_bit (unat ((of_nat i :: u8) AND 7)) 1"

definition bv_set :: "u8 list \<Rightarrow> nat \<Rightarrow> u8 list" where
  "bv_set v i =
     (let slot = drop_bit 3 i; w = bv_grow v slot
      in w[slot := w ! slot OR bv_mask i])"

definition bv_is_set :: "u8 list \<Rightarrow> nat \<Rightarrow> bool" where
  "bv_is_set v i =
     (let slot = drop_bit 3 i
      in slot < length v \<and> v ! slot AND bv_mask i > 0)"

section \<open>Slots and masks\<close>

lemma bv_grow_eq: "bv_grow v slot = v @ replicate (Suc slot - length v) 0"
proof (induction v slot rule: bv_grow.induct)
  case (1 v slot)
  show ?case
  proof (cases "length v \<le> slot")
    case True
    then have "Suc slot - length v = Suc (Suc slot - length (v @ [0]))" by simp
    with True 1 show ?thesis
      by (simp add: bv_grow.simps [of v slot])
  next
    case False
    then show ?thesis by (simp add: bv_grow.simps [of v slot])
  qed
qed

lemma length_bv_grow [simp]: "length (bv_grow v slot) = max (length v) (Suc slot)"
  by (simp add: bv_grow_eq)

lemma bit_bv_grow:
  assumes "k < length (bv_grow v slot)"
  shows "bit (bv_grow v slot ! k) b \<longleftrightarrow> k < length v \<and> bit (v ! k) b"
proof (cases "k < length v")
  case True
  then show ?thesis by (simp add: bv_grow_eq nth_append)
next
  case False
  with assms have "k - length v < Suc slot - length v" by auto
  with False show ?thesis by (simp add: bv_grow_eq nth_append)
qed

lemma bv_mask_eq [ldb_bits]: "bv_mask i = push_bit (i mod 8) 1"
proof -
  have "(of_nat i :: u8) AND 7 = take_bit 3 (of_nat i)"
    by (simp add: take_bit_eq_mask mask_eq_exp_minus_1)
  then have "unat ((of_nat i :: u8) AND 7) = take_bit 3 (unat (of_nat i :: u8))"
    by (simp only: unsigned_take_bit_eq)
  also have "\<dots> = take_bit 3 (take_bit 8 i)"
    by (simp add: unsigned_of_nat)
  also have "\<dots> = i mod 8"
    by (simp add: take_bit_eq_mod mod_mod_cancel)
  finally have "unat ((of_nat i :: u8) AND 7) = i mod 8" .
  then show ?thesis by (simp add: bv_mask_def)
qed

lemma bit_and_mask [ldb_bits]: "w AND bv_mask i > 0 \<longleftrightarrow> bit w (i mod 8)"
proof -
  have "w AND bv_mask i = (if bit w (i mod 8) then push_bit (i mod 8) 1 else 0)"
    by (rule bit_eqI) (auto simp: bv_mask_eq bit_simps)
  moreover have "push_bit (i mod 8) (1 :: u8) \<noteq> 0"
  proof
    assume "push_bit (i mod 8) (1 :: u8) = 0"
    then have "bit (push_bit (i mod 8) (1 :: u8)) (i mod 8) = bit (0 :: u8) (i mod 8)" by simp
    then show False by (simp add: bit_simps)
  qed
  ultimately show ?thesis by (auto simp: word_gt_0)
qed

lemma bv_is_set_iff [ldb_bits]:
  "bv_is_set v i \<longleftrightarrow> i div 8 < length v \<and> bit (v ! (i div 8)) (i mod 8)"
  by (simp add: bv_is_set_def Let_def bit_and_mask drop_bit_eq_div)

lemma bit_or_mask: "j < 8 \<Longrightarrow> bit (w OR bv_mask i) j \<longleftrightarrow> bit w j \<or> j = i mod 8" for w :: u8
  by (auto simp: bv_mask_eq bit_simps)

lemma length_bv_set [simp]: "length (bv_set v i) = max (length v) (Suc (i div 8))"
  by (simp add: bv_set_def Let_def bv_grow_eq drop_bit_eq_div)

section \<open>The contract of a null map\<close>

locale presence_map =
  fixes nothing :: 'm
    and set_row :: "'m \<Rightarrow> nat \<Rightarrow> 'm"
    and has_row :: "'m \<Rightarrow> nat \<Rightarrow> bool"
  assumes has_nothing: "\<not> has_row nothing i"
    and has_set_row: "has_row (set_row m i) j \<longleftrightarrow> j = i \<or> has_row m j"
begin

text \<open>Setting a sequence of rows marks exactly those rows, in any order and multiplicity.\<close>

lemma has_foldl_set: "has_row (foldl set_row m rows) j \<longleftrightarrow> j \<in> set rows \<or> has_row m j"
  by (induction rows arbitrary: m) (auto simp: has_set_row)

lemma has_foldl_nothing: "has_row (foldl set_row nothing rows) j \<longleftrightarrow> j \<in> set rows"
  by (simp add: has_foldl_set has_nothing)

text \<open>Marking the rows of \<open>[0..<n]\<close> that satisfy a predicate.\<close>

lemma has_foldl_cond:
  "has_row (foldl (\<lambda>m i. if P i then set_row m i else m) m rows) j
     \<longleftrightarrow> (j \<in> set rows \<and> P j) \<or> has_row m j"
  by (induction rows arbitrary: m) (auto simp: has_set_row)

lemma foldl_set_commute:
  "has_row (foldl set_row m (xs @ ys)) = has_row (foldl set_row m (ys @ xs))"
  by (rule ext) (auto simp: has_foldl_set)

end

lemma bv_is_set_bv_set: "bv_is_set (bv_set v i) j \<longleftrightarrow> j = i \<or> bv_is_set v j"
proof (cases "j div 8 = i div 8")
  case True
  have "bv_is_set (bv_set v i) j
      \<longleftrightarrow> bit (bv_grow v (i div 8) ! (i div 8)) (j mod 8) \<or> j mod 8 = i mod 8"
    using True
    by (simp add: bv_is_set_iff bv_set_def Let_def drop_bit_eq_div bit_or_mask less_max_iff_disj)
  moreover have "bit (bv_grow v (i div 8) ! (i div 8)) (j mod 8) \<longleftrightarrow> bv_is_set v j"
    using True by (simp add: bit_bv_grow bv_is_set_iff less_max_iff_disj)
  moreover have "j mod 8 = i mod 8 \<longleftrightarrow> j = i"
    using True by (metis div_mult_mod_eq)
  ultimately show ?thesis by blast
next
  case False
  then have "j \<noteq> i" by auto
  moreover have "bv_is_set (bv_set v i) j \<longleftrightarrow> bv_is_set v j"
    using False bit_bv_grow [of "j div 8" v "i div 8" "j mod 8"]
    by (auto simp: bv_is_set_iff bv_set_def Let_def drop_bit_eq_div)
  ultimately show ?thesis by simp
qed

interpretation null_map: presence_map "[] :: u8 list" bv_set bv_is_set
proof unfold_locales
  show "\<not> bv_is_set [] i" for i by (simp add: bv_is_set_iff)
  show "bv_is_set (bv_set m i) j \<longleftrightarrow> j = i \<or> bv_is_set m j" for m i j
    by (rule bv_is_set_bv_set)
qed

lemma bv_is_set_zeros [simp]: "\<not> bv_is_set (replicate n 0) i"
  by (auto simp: bv_is_set_iff)

lemma bv_is_set_ones: "bv_is_set (replicate n 255) i \<longleftrightarrow> i div 8 < n"
proof -
  have "bit (255 :: u8) k" if "k < 8" for k
  proof -
    have "(255 :: u8) = mask 8" by (simp add: mask_eq_exp_minus_1)
    then have "bit (255 :: u8) k \<longleftrightarrow> bit (mask 8 :: u8) k" by (rule arg_cong)
    then show ?thesis using that by (simp add: bit_mask_iff del: mask_numeral)
  qed
  then show ?thesis by (auto simp: bv_is_set_iff)
qed


section \<open>Nullable vectors as vectors of options\<close>

definition rows_of :: "'a list \<Rightarrow> u8 list \<Rightarrow> 'a option list" where
  "rows_of data present = map (\<lambda>i. if bv_is_set present i then Some (data ! i) else None) [0..<length data]"

lemma length_rows_of [simp]: "length (rows_of data present) = length data"
  by (simp add: rows_of_def)

lemma nth_rows_of [simp]:
  "i < length data \<Longrightarrow> rows_of data present ! i = (if bv_is_set present i then Some (data ! i) else None)"
  by (simp add: rows_of_def)

lemma rows_of_snoc:
  assumes "\<And>n. length data \<le> n \<Longrightarrow> \<not> bv_is_set present n"
  shows "rows_of (data @ [x]) (if b then bv_set present (length data) else present) =
    rows_of data present @ [if b then Some x else None]"
proof (rule nth_equalityI)
  fix i assume "i < length (rows_of (data @ [x]) (if b then bv_set present (length data) else present))"
  then consider "i < length data" | "i = length data" by force
  then show "rows_of (data @ [x]) (if b then bv_set present (length data) else present) ! i =
      (rows_of data present @ [if b then Some x else None]) ! i"
    by cases (auto simp: nth_append bv_is_set_bv_set assms)
qed simp

section \<open>Main results\<close>

text \<open>
  A null map built by setting bits answers exactly for the rows that were set, in whatever order
  they come and however far apart they are, and it is only as long as its last set row needs.
\<close>

theorem null_map_correct:
  "bv_is_set (foldl bv_set [] rows) j = (j \<in> set rows)"
  by (rule null_map.has_foldl_nothing)

end
