(* ===== verification/String_Pack.thy ===== *)
theory String_Pack
  imports LDB_Prelude
begin

text \<open>
  The string containers of src/src/stringpack.rs and the operator that unpacks a whole column of
  them (src/src/engine/operators/unpack_strings.rs).

  \<open>PackedStrings\<close> and \<open>PackedBytes\<close> write each element as a run of length bytes followed by its
  bytes; their iterators read it back. The locale \<open>element_reader\<close> states what a reader promises
  for one element, and the lemmas about reading a whole stream are proved there once for both.
  \<open>IndexedPackedStrings\<close> keeps an offset/length word per element beside one backing store.
\<close>

section \<open>Draining an iterator\<close>

text \<open>
  \<open>for elem in iter\<close>: the loop ends at the first \<open>None\<close>. The fuel bounds the number of calls of
  \<open>next\<close>; \<open>None\<close> means it ran out, and the lemmas show that one call more than there are
  elements is enough.
\<close>

fun iter_collect :: "nat \<Rightarrow> ('it \<Rightarrow> ('x option \<times> 'it) res) \<Rightarrow> 'it \<Rightarrow> 'x list res option" where
  "iter_collect 0 nxt it = None"
| "iter_collect (Suc n) nxt it =
     (case nxt it of
        Inl e \<Rightarrow> Some (Inl e)
      | Inr (None, it') \<Rightarrow> Some (Inr [])
      | Inr (Some x, it') \<Rightarrow> map_option (rmap ((#) x)) (iter_collect n nxt it'))"

locale element_reader =
  fixes enc :: "u8 list \<Rightarrow> u8 list"
    and at :: "u8 list \<Rightarrow> nat \<Rightarrow> 'it"
    and nxt :: "'it \<Rightarrow> (u8 list option \<times> 'it) res"
  assumes nxt_element:
      "nxt (at (pre @ enc s @ post) (length pre))
         = Inr (Some s, at (pre @ enc s @ post) (length pre + length (enc s)))"
    and nxt_end: "nxt (at d (length d)) = Inr (None, at d (length d))"
begin

lemma collect_from:
  "length ss < n \<Longrightarrow>
   iter_collect n nxt (at (pre @ concat (map enc ss)) (length pre)) = Some (Inr ss)"
proof (induction ss arbitrary: n pre)
  case Nil
  then obtain m where "n = Suc m" by (cases n) auto
  then show ?case using nxt_end [of pre] by simp
next
  case (Cons s ss)
  then obtain m where m: "n = Suc m" "length ss < m" by (cases n) auto
  have "iter_collect m nxt (at ((pre @ enc s) @ concat (map enc ss)) (length (pre @ enc s)))
      = Some (Inr ss)"
    by (rule Cons.IH) (rule m)
  then show ?case
    using m nxt_element [of pre s "concat (map enc ss)"] by simp
qed

lemma collect_all:
  "length ss < n \<Longrightarrow> iter_collect n nxt (at (concat (map enc ss)) 0) = Some (Inr ss)"
  using collect_from [of ss n "[]"] by simp

text \<open>Reading is unambiguous: two streams of elements with the same bytes are the same.\<close>

lemma streams_injective:
  assumes "concat (map enc ss) = concat (map enc ts)"
  shows "ss = ts"
proof -
  let ?n = "Suc (max (length ss) (length ts))"
  have "iter_collect ?n nxt (at (concat (map enc ss)) 0) = Some (Inr ss)"
    and "iter_collect ?n nxt (at (concat (map enc ts)) 0) = Some (Inr ts)"
    by (rule collect_all, simp)+
  with assms show ?thesis by simp
qed

end

section \<open>PackedStrings\<close>

text \<open>\<open>while len > 254 { push(255); len -= 255; } push(len as u8)\<close>\<close>

fun push_len :: "nat \<Rightarrow> u8 list" where
  "push_len len = (if 254 < len then 255 # push_len (len - 255) else [of_nat len])"

declare push_len.simps [simp del]

definition packed_push :: "u8 list \<Rightarrow> rstr \<Rightarrow> u8 list" where
  "packed_push data string = data @ push_len (length string) @ string"

definition packed_from_iterator :: "rstr list \<Rightarrow> u8 list" where
  "packed_from_iterator strings = foldl packed_push [] strings"

section \<open>StringPackerIterator\<close>

record sp_iter =
  sp_data :: "u8 list"
  sp_curr_index :: nat

definition sp_from_slice :: "u8 list \<Rightarrow> sp_iter" where
  "sp_from_slice d = \<lparr>sp_data = d, sp_curr_index = 0\<rparr>"

text \<open>The loop that sums up the length bytes; an index past the end is a panic.\<close>

function read_len :: "u8 list \<Rightarrow> nat \<Rightarrow> nat \<Rightarrow> (nat \<times> nat) res" where
  "read_len d i len =
     (if i < length d then
        if d ! i = 255 then read_len d (Suc i) (len + 255)
        else Inr (Suc i, len + unat (d ! i))
      else Inl Panicked)"
  by pat_completeness auto
termination
  by (relation "measure (\<lambda>(d, i, len). length d - i)") auto

declare read_len.simps [simp del]

definition sp_next :: "sp_iter \<Rightarrow> (rstr option \<times> sp_iter) res" where
  "sp_next it =
     (if length (sp_data it) \<le> sp_curr_index it then Inr (None, it)
      else rbind (read_len (sp_data it) (sp_curr_index it) 0) (\<lambda>(i, len).
           rbind (slice (sp_data it) i (i + len)) (\<lambda>result.
             Inr (Some result, it\<lparr>sp_curr_index := i + len\<rparr>))))"

section \<open>PackedBytes and PackedBytesIterator\<close>

text \<open>\<open>PackedBytes::from_iterator\<close> inlines the push of \<open>PackedStrings\<close>.\<close>

definition packed_bytes_from_iterator :: "u8 list list \<Rightarrow> u8 list" where
  "packed_bytes_from_iterator bs = foldl (\<lambda>data b. (data @ push_len (length b)) @ b) [] bs"

record pb_iter =
  pb_data :: "u8 list"
  pb_curr_index :: nat

definition pb_from_slice :: "u8 list \<Rightarrow> pb_iter" where
  "pb_from_slice d = \<lparr>pb_data = d, pb_curr_index = 0\<rparr>"

definition pb_has_more :: "pb_iter \<Rightarrow> bool" where
  "pb_has_more it \<longleftrightarrow> pb_curr_index it < length (pb_data it)"

definition pb_next :: "pb_iter \<Rightarrow> (u8 list option \<times> pb_iter) res" where
  "pb_next it =
     (if \<not> pb_has_more it then Inr (None, it)
      else rbind (read_len (pb_data it) (pb_curr_index it) 0) (\<lambda>(index, len).
           rbind (slice (pb_data it) index (index + len)) (\<lambda>result.
             Inr (Some result, it\<lparr>pb_curr_index := index + len\<rparr>))))"

section \<open>Length runs are read back\<close>

abbreviation element_bytes :: "u8 list \<Rightarrow> u8 list" where
  "element_bytes s \<equiv> push_len (length s) @ s"

lemma push_len_nonempty [simp]: "push_len n \<noteq> []"
  by (subst push_len.simps) simp

lemma length_push_len: "length (push_len n) = Suc (n div 255)"
proof (induction n rule: push_len.induct)
  case (1 n)
  show ?case
  proof (cases "254 < n")
    case True
    with 1 have "length (push_len (n - 255)) = Suc ((n - 255) div 255)" by blast
    moreover from True have "n div 255 = Suc ((n - 255) div 255)"
      by (simp add: le_div_geq)
    ultimately show ?thesis using True by (simp add: push_len.simps [of n])
  next
    case False
    then show ?thesis by (simp add: push_len.simps [of n])
  qed
qed

lemma read_len_push_len:
  "read_len (pre @ push_len n @ post) (length pre) len
     = Inr (length pre + length (push_len n), len + n)"
proof (induction n arbitrary: pre len rule: push_len.induct)
  case (1 n)
  show ?case
  proof (cases "254 < n")
    case True
    let ?d = "(pre @ [255]) @ push_len (n - 255) @ post"
    have "read_len ?d (length (pre @ [255])) (len + 255)
        = Inr (length (pre @ [255]) + length (push_len (n - 255)), len + 255 + (n - 255))"
      by (rule 1) (rule True)
    with True show ?thesis
      by (simp add: push_len.simps [of n] read_len.simps [of "pre @ _" "length pre"] nth_append)
  next
    case False
    then have "(of_nat n :: u8) \<noteq> 255" and "unat (of_nat n :: u8) = n"
    proof -
      show u: "unat (of_nat n :: u8) = n"
        using False by (simp add: unat_of_nat_small)
      show "(of_nat n :: u8) \<noteq> 255"
      proof
        assume "(of_nat n :: u8) = 255"
        then have "unat (of_nat n :: u8) = unat (255 :: u8)" by simp
        with u False show False by simp
      qed
    qed
    with False show ?thesis
      by (simp add: push_len.simps [of n] read_len.simps [of "pre @ _" "length pre"] nth_append)
  qed
qed

lemma element_slice:
  "slice (pre @ element_bytes s @ post) (length pre + length (push_len (length s)))
     (length pre + length (push_len (length s)) + length s) = Inr s"
  using slice_middle [of "pre @ push_len (length s)" s post] by simp

lemma read_len_element:
  "read_len (pre @ element_bytes s @ post) (length pre) 0
     = Inr (length pre + length (push_len (length s)), length s)"
  using read_len_push_len [of pre "length s" "s @ post" 0] by simp

interpretation string_reader: element_reader element_bytes
  "\<lambda>d i. \<lparr>sp_data = d, sp_curr_index = i\<rparr>" sp_next
proof unfold_locales
  fix pre s post
  show "sp_next \<lparr>sp_data = pre @ element_bytes s @ post, sp_curr_index = length pre\<rparr>
      = Inr (Some s, \<lparr>sp_data = pre @ element_bytes s @ post,
                      sp_curr_index = length pre + length (element_bytes s)\<rparr>)"
    using read_len_element [of pre s post] element_slice [of pre s post]
    by (simp add: sp_next_def add.assoc)
qed (simp add: sp_next_def)

interpretation bytes_reader: element_reader element_bytes
  "\<lambda>d i. \<lparr>pb_data = d, pb_curr_index = i\<rparr>" pb_next
proof unfold_locales
  fix pre s post
  show "pb_next \<lparr>pb_data = pre @ element_bytes s @ post, pb_curr_index = length pre\<rparr>
      = Inr (Some s, \<lparr>pb_data = pre @ element_bytes s @ post,
                      pb_curr_index = length pre + length (element_bytes s)\<rparr>)"
    using read_len_element [of pre s post] element_slice [of pre s post]
    by (simp add: pb_next_def pb_has_more_def add.assoc)
qed (simp add: pb_next_def pb_has_more_def)

lemma packed_from_iterator_eq: "packed_from_iterator ss = concat (map element_bytes ss)"
proof -
  have "foldl packed_push d ss = d @ concat (map element_bytes ss)" for d
    by (induction ss arbitrary: d) (auto simp: packed_push_def)
  then show ?thesis by (simp add: packed_from_iterator_def)
qed

lemma packed_bytes_from_iterator_eq:
  "packed_bytes_from_iterator bs = concat (map element_bytes bs)"
proof -
  have "foldl (\<lambda>data b. (data @ push_len (length b)) @ b) d bs
      = d @ concat (map element_bytes bs)" for d
    by (induction bs arbitrary: d) auto
  then show ?thesis by (simp add: packed_bytes_from_iterator_def)
qed

text \<open>One fuel unit per byte and one more is enough for any number of elements.\<close>

lemma length_concat_elements: "length ss \<le> length (concat (map element_bytes ss))"
proof (induction ss)
  case (Cons s ss)
  have "0 < length (push_len (length s))" by simp
  with Cons show ?case by (simp del: length_greater_0_conv)
qed simp

section \<open>The unpack_strings operator\<close>

text \<open>
  The output vector starts with capacity \<open>batch_size\<close>, and the loop leaves as soon as a push fills
  it. A push on a full vector reallocates (amortised doubling, at least four elements).
\<close>

record unpack_strings_state =
  us_decoded :: "rstr list"
  us_capacity :: nat
  us_iterator :: sp_iter
  us_has_more :: bool

definition unpack_strings_init :: "nat \<Rightarrow> u8 list \<Rightarrow> unpack_strings_state" where
  "unpack_strings_init batch_size packed =
     \<lparr>us_decoded = [], us_capacity = batch_size, us_iterator = sp_from_slice packed,
      us_has_more = True\<rparr>"

definition capacity_after_push :: "nat \<Rightarrow> nat \<Rightarrow> nat" where
  "capacity_after_push cap len = (if len < cap then cap else max (max (2 * cap) (Suc len)) 4)"

fun unpack_strings_loop :: "nat \<Rightarrow> unpack_strings_state \<Rightarrow> unpack_strings_state res option" where
  "unpack_strings_loop 0 s = None"
| "unpack_strings_loop (Suc n) s =
     (case sp_next (us_iterator s) of
        Inl e \<Rightarrow> Some (Inl e)
      | Inr (None, it) \<Rightarrow> Some (Inr (s\<lparr>us_iterator := it, us_has_more := False\<rparr>))
      | Inr (Some elem, it) \<Rightarrow>
          (let decoded = us_decoded s @ [elem];
               cap = capacity_after_push (us_capacity s) (length (us_decoded s));
               s' = s\<lparr>us_decoded := decoded, us_capacity := cap, us_iterator := it\<rparr>
           in if cap = length decoded then Some (Inr s') else unpack_strings_loop n s'))"

definition unpack_strings_execute ::
    "bool \<Rightarrow> unpack_strings_state \<Rightarrow> unpack_strings_state res option" where
  "unpack_strings_execute streaming s =
     (if streaming then Some (Inl Panicked)
      else unpack_strings_loop (Suc (length (sp_data (us_iterator s)))) s)"

lemma unpack_strings_loop_all:
  assumes "length ss < n" and "us_iterator s = \<lparr>sp_data = pre @ concat (map element_bytes ss),
      sp_curr_index = length pre\<rparr>"
    and "length (us_decoded s) + length ss \<le> us_capacity s"
  shows "\<exists>s'. unpack_strings_loop n s = Some (Inr s') \<and> us_decoded s' = us_decoded s @ ss"
  using assms
proof (induction ss arbitrary: n s pre)
  case Nil
  then obtain m where "n = Suc m" by (cases n) auto
  with Nil show ?case using string_reader.nxt_end [of pre] by simp
next
  case (Cons x ss)
  then obtain m where m: "n = Suc m" "length ss < m" by (cases n) auto
  define it where "it = \<lparr>sp_data = (pre @ element_bytes x) @ concat (map element_bytes ss),
      sp_curr_index = length (pre @ element_bytes x)\<rparr>"
  define s1 where "s1 = s\<lparr>us_decoded := us_decoded s @ [x], us_iterator := it\<rparr>"
  have nxt: "sp_next (us_iterator s) = Inr (Some x, it)"
    using Cons.prems string_reader.nxt_element [of pre x "concat (map element_bytes ss)"]
    by (simp add: it_def)
  have cap: "capacity_after_push (us_capacity s) (length (us_decoded s)) = us_capacity s"
    using Cons.prems by (simp add: capacity_after_push_def)
  have step: "unpack_strings_loop n s =
      (if us_capacity s = length (us_decoded s @ [x]) then Some (Inr s1)
       else unpack_strings_loop m s1)"
    using m nxt cap by (simp add: s1_def)
  show ?case
  proof (cases "us_capacity s = length (us_decoded s @ [x])")
    case True
    with Cons.prems have "ss = []" by simp
    with True step show ?thesis by (simp add: s1_def)
  next
    case False
    have "\<exists>s'. unpack_strings_loop m s1 = Some (Inr s') \<and> us_decoded s' = us_decoded s1 @ ss"
      by (rule Cons.IH [where pre = "pre @ element_bytes x"])
        (use Cons.prems m in \<open>simp_all add: s1_def it_def\<close>)
    with False step show ?thesis by (simp add: s1_def)
  qed
qed

section \<open>IndexedPackedStrings\<close>

record indexed_packed_strings =
  ips_data :: "u64 list"
  ips_backing_store :: "u8 list"

definition ips_default :: indexed_packed_strings where
  "ips_default = \<lparr>ips_data = [], ips_backing_store = []\<rparr>"

text \<open>\<open>((backing_store.len() << 24) + bytes.len()) as u64\<close>, in 64-bit arithmetic.\<close>

definition ips_push :: "indexed_packed_strings \<Rightarrow> rstr \<Rightarrow> indexed_packed_strings" where
  "ips_push p elem =
     p\<lparr>ips_data := ips_data p @ [push_bit 24 (of_nat (length (ips_backing_store p)))
                                  + of_nat (length elem)],
       ips_backing_store := ips_backing_store p @ elem\<rparr>"

definition ips_clear :: "indexed_packed_strings \<Rightarrow> indexed_packed_strings" where
  "ips_clear p = p\<lparr>ips_data := [], ips_backing_store := []\<rparr>"

text \<open>
  An offset/length word and the slice of the backing store it stands for, as every reader of a
  dictionary does it (\<open>iter\<close> here, \<open>DictLookup\<close> and \<open>InverseDictLookup\<close> in the engine).
\<close>

definition entry_offset :: "u64 \<Rightarrow> nat" where
  "entry_offset offset_len = unat (drop_bit 24 offset_len)"

definition entry_len :: "u64 \<Rightarrow> nat" where
  "entry_len offset_len = unat (offset_len AND 0xffffff)"

definition entry_slice :: "u8 list \<Rightarrow> u64 \<Rightarrow> rstr res" where
  "entry_slice store offset_len =
     slice store (entry_offset offset_len) (entry_offset offset_len + entry_len offset_len)"

definition ips_iter :: "indexed_packed_strings \<Rightarrow> rstr list res" where
  "ips_iter p = rmapM (entry_slice (ips_backing_store p)) (ips_data p)"

definition ips_len :: "indexed_packed_strings \<Rightarrow> nat" where
  "ips_len p = length (ips_data p)"

definition ips_into_parts :: "indexed_packed_strings \<Rightarrow> u64 list \<times> u8 list" where
  "ips_into_parts p = (ips_data p, ips_backing_store p)"

definition ips_from_list :: "rstr list \<Rightarrow> indexed_packed_strings" where
  "ips_from_list ss = foldl ips_push ips_default ss"

lemma unat_entry:
  assumes "off < 2 ^ 40" and "len < 2 ^ 24"
  shows "unat (push_bit 24 (of_nat off) + of_nat len :: u64) = off * 2 ^ 24 + len"
proof -
  have "push_bit 24 (of_nat off) + of_nat len = (of_nat (off * 2 ^ 24 + len) :: u64)"
    by (simp add: push_bit_eq_mult)
  moreover have "unat (of_nat (off * 2 ^ 24 + len) :: u64) = off * 2 ^ 24 + len"
    by (rule unat_of_nat_small) (use assms in simp)
  ultimately show ?thesis by (simp only:)
qed

lemma entry_offset_push:
  assumes "off < 2 ^ 40" and "len < 2 ^ 24"
  shows "entry_offset (push_bit 24 (of_nat off) + of_nat len) = off"
proof -
  have "entry_offset w = unat w div 2 ^ 24" for w
    by (simp add: entry_offset_def drop_bit_eq_div unat_div)
  then show ?thesis using unat_entry [OF assms] assms(2) by simp
qed

lemma entry_len_eq: "entry_len w = unat w mod 2 ^ 24"
proof -
  have "w AND 0xffffff = take_bit 24 w"
    by (simp add: take_bit_eq_mask mask_eq_exp_minus_1)
  then have "entry_len w = take_bit 24 (unat w)"
    by (simp only: entry_len_def unsigned_take_bit_eq)
  then show ?thesis by (simp add: take_bit_eq_mod)
qed

lemma entry_len_push:
  assumes "off < 2 ^ 40" and "len < 2 ^ 24"
  shows "entry_len (push_bit 24 (of_nat off) + of_nat len) = len"
  using unat_entry [OF assms] assms(2) by (simp add: entry_len_eq)

text \<open>
  The invariant of the container: reading gives back what was pushed, whatever is appended to the
  backing store later.
\<close>

definition ips_holds :: "indexed_packed_strings \<Rightarrow> rstr list \<Rightarrow> bool" where
  "ips_holds p ss \<longleftrightarrow> ips_backing_store p = concat ss \<and>
     (\<forall>post. rmapM (entry_slice (ips_backing_store p @ post)) (ips_data p) = Inr ss)"

lemma ips_holds_default: "ips_holds ips_default []"
  by (simp add: ips_holds_def ips_default_def)

lemma rmapM_snoc: "rmapM f (xs @ [x]) = rbind (rmapM f xs) (\<lambda>ys. rbind (f x) (\<lambda>y. Inr (ys @ [y])))"
proof (induction xs)
  case Nil
  show ?case by (cases "f x") auto
next
  case (Cons a xs)
  show ?case
    by (cases "f a"; cases "rmapM f xs"; cases "f x") (use Cons in auto)
qed

lemma ips_holds_push:
  assumes h: "ips_holds p ss" and "length (concat ss) < 2 ^ 40" and "length s < 2 ^ 24"
  shows "ips_holds (ips_push p s) (ss @ [s])"
proof -
  let ?w = "push_bit 24 (of_nat (length (concat ss))) + of_nat (length s)"
  have store: "ips_backing_store p = concat ss" using h by (simp add: ips_holds_def)
  have "entry_slice (concat ss @ s @ post) ?w = Inr s" for post
    using entry_offset_push [OF assms(2,3)] entry_len_push [OF assms(2,3)]
    by (simp add: entry_slice_def)
  moreover have "rmapM (entry_slice (concat ss @ s @ post)) (ips_data p) = Inr ss" for post
    using h store by (simp add: ips_holds_def)
  ultimately show ?thesis
    using store by (simp add: ips_holds_def ips_push_def rmapM_snoc)
qed

lemma ips_holds_from_list:
  assumes "length (concat ss) < 2 ^ 40" and "\<forall>s \<in> set ss. length s < 2 ^ 24"
  shows "ips_holds (ips_from_list ss) ss"
  using assms
proof (induction ss rule: rev_induct)
  case Nil
  then show ?case by (simp add: ips_from_list_def ips_holds_default)
next
  case (snoc s ss)
  have "ips_holds (ips_push (ips_from_list ss) s) (ss @ [s])"
    by (rule ips_holds_push) (use snoc in auto)
  then show ?case by (simp add: ips_from_list_def)
qed

lemma ips_holds_iter: "ips_holds p ss \<Longrightarrow> ips_iter p = Inr ss"
  unfolding ips_holds_def ips_iter_def by (metis append_Nil2)

lemma ips_holds_length: "ips_holds p ss \<Longrightarrow> length (ips_data p) = length ss"
  using ips_holds_iter [of p ss] by (auto simp: ips_iter_def dest: rmapM_Inr_length)

lemma rmapM_nth: "rmapM f xs = Inr ys \<Longrightarrow> i < length xs \<Longrightarrow> f (xs ! i) = Inr (ys ! i)"
proof (induction xs arbitrary: ys i)
  case (Cons x xs)
  then show ?case by (cases i) auto
qed simp

lemma ips_holds_nth:
  assumes "ips_holds p ss" and "i < length ss"
  shows "entry_slice (ips_backing_store p) (ips_data p ! i) = Inr (ss ! i)"
proof -
  have "rmapM (entry_slice (ips_backing_store p)) (ips_data p) = Inr ss"
    using ips_holds_iter [OF assms(1)] by (simp add: ips_iter_def)
  then show ?thesis
    by (rule rmapM_nth) (use assms ips_holds_length [of p ss] in simp)
qed

section \<open>Main results\<close>

text \<open>
  C32. Packed strings. Iterating over packed strings and over packed byte strings ends and gives back
  what was packed, for elements of any length (each length is a run of 255s and a final byte).
\<close>

theorem packed_strings_roundtrip:
  "iter_collect (Suc (length (packed_from_iterator ss))) sp_next (sp_from_slice (packed_from_iterator ss)) = Some (Inr ss) \<and>
   iter_collect (Suc (length (packed_bytes_from_iterator ss))) pb_next (pb_from_slice (packed_bytes_from_iterator ss)) = Some (Inr ss)"
  using string_reader.collect_all [of ss "Suc (length (concat (map element_bytes ss)))"]
    bytes_reader.collect_all [of ss "Suc (length (concat (map element_bytes ss)))"]
    length_concat_elements [of ss]
  by (simp add: packed_from_iterator_eq packed_bytes_from_iterator_eq sp_from_slice_def pb_from_slice_def)



end
