(* ===== verification/Vector_Ops.thy ===== *)
theory Vector_Ops
  imports Bit_Vectors String_Pack
begin

text \<open>
  The element-wise vector operators of src/src/engine/operators: for each one, the body of its
  \<open>execute\<close> as a function of the vectors it reads from the scratchpad and of the content of its
  output buffer. The argument \<open>stream\<close> is the one of the trait: when a stage runs in batches, the
  output buffer is cleared before every batch, otherwise results are appended.

  The executor may run an operator once on the whole column or batch by batch. The locale
  \<open>batch_operator\<close> states what makes the two agree, and is interpreted for every operator here
  that declares \<open>can_stream_input\<close> and \<open>can_stream_output\<close>.
\<close>

section \<open>Batches\<close>

text \<open>
  A step takes the operator's own state (the running total of a delta decoder, the map of a
  grouping) and one batch, and gives the output for that batch and the next state.
\<close>

fun run_batches :: "('s \<Rightarrow> 'a list \<Rightarrow> ('b list \<times> 's) res) \<Rightarrow> 's \<Rightarrow> 'a list list \<Rightarrow> ('b list list \<times> 's) res" where
  "run_batches step s [] = Inr ([], s)"
| "run_batches step s (b # bs) =
     rbind (step s b) (\<lambda>(out, s').
     rbind (run_batches step s' bs) (\<lambda>(outs, s''). Inr (out # outs, s'')))"

locale batch_operator =
  fixes step :: "'s \<Rightarrow> 'a list \<Rightarrow> ('b list \<times> 's) res"
  assumes step_Nil: "step s [] = Inr ([], s)"
    and step_append:
      "step s (xs @ ys) =
         rbind (step s xs) (\<lambda>(out, s'). rbind (step s' ys) (\<lambda>(out', s''). Inr (out @ out', s'')))"
begin

text \<open>However a column is cut into batches, the outputs add up to the output of one whole run.\<close>

lemma run_batches_concat:
  "rmap (\<lambda>(outs, s'). (concat outs, s')) (run_batches step s bs) = step s (concat bs)"
proof (induction bs arbitrary: s)
  case Nil
  show ?case by (simp add: step_Nil)
next
  case (Cons b bs)
  show ?case
  proof (cases "step s b")
    case (Inl e)
    then show ?thesis by (simp add: step_append)
  next
    case (Inr p)
    obtain out s' where p: "p = (out, s')" by (cases p)
    have "step s (concat (b # bs)) =
        rbind (step s' (concat bs)) (\<lambda>(out', s''). Inr (out @ out', s''))"
      using Inr p by (simp add: step_append)
    also have "\<dots> = rbind (rmap (\<lambda>(outs, s'). (concat outs, s')) (run_batches step s' bs))
        (\<lambda>(out', s''). Inr (out @ out', s''))"
      by (simp add: Cons.IH)
    also have "\<dots> = rmap (\<lambda>(outs, s'). (concat outs, s')) (run_batches step s (b # bs))"
      using Inr p by (cases "run_batches step s' bs") (auto simp: rmap_def split: prod.splits)
    finally show ?thesis by simp
  qed
qed

lemma batching_irrelevant:
  assumes "concat bs = concat cs"
  shows "rmap (\<lambda>(outs, s'). (concat outs, s')) (run_batches step s bs)
       = rmap (\<lambda>(outs, s'). (concat outs, s')) (run_batches step s cs)"
  by (simp add: run_batches_concat assms)

end

definition cleared :: "bool \<Rightarrow> 'a list \<Rightarrow> 'a list" where
  "cleared stream out = (if stream then [] else out)"

section \<open>filter.rs\<close>

text \<open>\<open>for (d, &select) in data.iter().zip(filter.iter()) { if select > 0 { push(*d) } }\<close>\<close>

fun filter_loop :: "'a list \<Rightarrow> u8 list \<Rightarrow> 'a list \<Rightarrow> 'a list" where
  "filter_loop (d # data) (select # filt) filtered =
     filter_loop data filt (if select > 0 then filtered @ [d] else filtered)"
| "filter_loop _ _ filtered = filtered"

definition filter_execute :: "bool \<Rightarrow> 'a list \<Rightarrow> u8 list \<Rightarrow> 'a list \<Rightarrow> 'a list" where
  "filter_execute stream data filt out = filter_loop data filt (cleared stream out)"

definition nullable_filter_execute ::
    "bool \<Rightarrow> 'a list \<Rightarrow> u8 list \<Rightarrow> u8 list \<Rightarrow> 'a list \<Rightarrow> 'a list res" where
  "nullable_filter_execute stream data filt present out =
     rfoldM (\<lambda>filtered i.
         rbind (index filt i) (\<lambda>f.
           if f > 0 \<and> bv_is_set present i then rbind (index data i) (\<lambda>d. Inr (filtered @ [d]))
           else Inr filtered))
       (cleared stream out) [0..<length data]"

section \<open>select.rs\<close>

definition select_execute :: "bool \<Rightarrow> 'a list \<Rightarrow> nat list \<Rightarrow> 'a list \<Rightarrow> 'a list res" where
  "select_execute stream data indices out =
     rfoldM (\<lambda>out i. rbind (index data i) (\<lambda>d. Inr (out @ [d]))) (cleared stream out) indices"

definition select_nullable_execute ::
    "bool \<Rightarrow> 'a list \<Rightarrow> u8 list \<Rightarrow> nat list \<Rightarrow> 'a list \<times> u8 list \<Rightarrow> ('a list \<times> u8 list) res" where
  "select_nullable_execute stream data present indices out =
     rfoldM (\<lambda>(data_out, present_out) (i, ix).
         rbind (index data ix) (\<lambda>d.
           Inr (data_out @ [d], if bv_is_set present ix then bv_set present_out i else present_out)))
       (cleared stream (fst out), cleared stream (snd out)) (enumerate 0 indices)"

section \<open>delta_decode.rs\<close>

text \<open>
  The loop carries \<open>previous\<close>; the operator keeps it between batches. Elements are given as the
  \<open>i64\<close> of \<open>to_i64().unwrap()\<close>.
\<close>

fun delta_decode_loop :: "i64 \<Rightarrow> i64 list \<Rightarrow> i64 list \<Rightarrow> i64 list \<times> i64" where
  "delta_decode_loop previous [] decoded = (decoded, previous)"
| "delta_decode_loop previous (e # encoded) decoded =
     (let current = wrap_i64 (e + previous) in delta_decode_loop current encoded (decoded @ [current]))"

definition delta_decode_execute :: "bool \<Rightarrow> i64 \<Rightarrow> i64 list \<Rightarrow> i64 list \<Rightarrow> i64 list \<times> i64" where
  "delta_decode_execute streaming previous encoded decoded =
     delta_decode_loop previous encoded (cleared streaming decoded)"

section \<open>dict_lookup.rs\<close>

definition dict_lookup_execute ::
    "bool \<Rightarrow> nat list \<Rightarrow> u64 list \<Rightarrow> u8 list \<Rightarrow> rstr list \<Rightarrow> rstr list res" where
  "dict_lookup_execute stream indices dict_indices dict_data out =
     rfoldM (\<lambda>out i.
         rbind (index dict_indices i) (\<lambda>offset_len.
         rbind (entry_slice dict_data offset_len) (\<lambda>string. Inr (out @ [string]))))
       (cleared stream out) indices"

text \<open>The search for a string constant: its first index, \<open>-1\<close> where it does not occur.\<close>

fun inverse_dict_loop :: "nat \<Rightarrow> u64 list \<Rightarrow> u8 list \<Rightarrow> rstr \<Rightarrow> i64 res" where
  "inverse_dict_loop i [] dict_data constant = Inr (- 1)"
| "inverse_dict_loop i (offset_len # rest) dict_data constant =
     rbind (entry_slice dict_data offset_len) (\<lambda>s.
       if s = constant then Inr (int i) else inverse_dict_loop (Suc i) rest dict_data constant)"

definition inverse_dict_lookup_execute :: "u64 list \<Rightarrow> u8 list \<Rightarrow> rstr \<Rightarrow> i64 res" where
  "inverse_dict_lookup_execute dict_indices dict_data constant =
     inverse_dict_loop 0 dict_indices dict_data constant"

section \<open>map_operator.rs and functions.rs\<close>

fun map_loop :: "('a \<Rightarrow> 'b) \<Rightarrow> 'a list \<Rightarrow> 'b list \<Rightarrow> 'b list" where
  "map_loop f [] out = out"
| "map_loop f (i # input) out = map_loop f input (out @ [f i])"

definition map_execute :: "('a \<Rightarrow> 'b) \<Rightarrow> bool \<Rightarrow> 'a list \<Rightarrow> 'b list \<Rightarrow> 'b list" where
  "map_execute f stream input out = map_loop f input (cleared stream out)"

definition boolean_not_apply :: "u8 \<Rightarrow> u8" where
  "boolean_not_apply boolean = boolean XOR 1"

definition length_apply :: "rstr \<Rightarrow> i64" where
  "length_apply s = int (length s)"

section \<open>bool_op.rs\<close>

text \<open>The left operand is overwritten in place, as far as the right one reaches.\<close>

fun boolean_or_evaluate :: "u8 list \<Rightarrow> u8 list \<Rightarrow> u8 list" where
  "boolean_or_evaluate (l # lhs) (r # rhs) = (l OR r) # boolean_or_evaluate lhs rhs"
| "boolean_or_evaluate lhs _ = lhs"

fun boolean_and_evaluate :: "u8 list \<Rightarrow> u8 list \<Rightarrow> u8 list" where
  "boolean_and_evaluate (l # lhs) (r # rhs) = (l AND r) # boolean_and_evaluate lhs rhs"
| "boolean_and_evaluate lhs _ = lhs"

section \<open>combine_null_maps.rs and is_null.rs\<close>

definition combine_null_maps_init :: "nat \<Rightarrow> u8 list" where
  "combine_null_maps_init batch_size = replicate (batch_size div 8 + 1) 0"

fun combine_null_maps_execute :: "u8 list \<Rightarrow> u8 list \<Rightarrow> u8 list \<Rightarrow> u8 list" where
  "combine_null_maps_execute (l # lhs) (r # rhs) (out # output) =
     (l AND r) # combine_null_maps_execute lhs rhs output"
| "combine_null_maps_execute _ _ output = output"

definition is_null_execute :: "bool \<Rightarrow> nat \<Rightarrow> u8 list \<Rightarrow> u8 list \<Rightarrow> u8 list" where
  "is_null_execute stream len present out =
     foldl (\<lambda>out i. if bv_is_set present i then out @ [0] else out @ [1])
       (cleared stream out) [0..<len]"

definition is_not_null_execute :: "bool \<Rightarrow> nat \<Rightarrow> u8 list \<Rightarrow> u8 list \<Rightarrow> u8 list" where
  "is_not_null_execute stream len present out =
     foldl (\<lambda>out i. if bv_is_set present i then out @ [1] else out @ [0])
       (cleared stream out) [0..<len]"

definition make_nullable_init :: "nat \<Rightarrow> u8 list" where
  "make_nullable_init batch_size = replicate (batch_size div 8 + 1) 255"

section \<open>Results of the loops\<close>

lemma filter_loop_eq: "filter_loop data filt out = out @ map fst (filter (\<lambda>(d, s). s > 0) (zip data filt))"
  by (induction data filt out rule: filter_loop.induct) auto

lemma rfoldM_push_cond:
  "(\<And>out x. x \<in> set xs \<Longrightarrow> f out x = Inr (if P x then out @ [g x] else out)) \<Longrightarrow>
   rfoldM f out xs = Inr (out @ map g (filter P xs))"
  by (induction xs arbitrary: out) auto

lemma foldl_push_map: "foldl (\<lambda>out i. out @ [g i]) out xs = out @ map g xs"
  by (induction xs arbitrary: out) auto

lemma map_loop_eq: "map_loop f input out = out @ map f input"
  by (induction input arbitrary: out) auto

lemma select_execute_eq:
  "(\<forall>i \<in> set indices. i < length data) \<Longrightarrow>
   select_execute stream data indices out = Inr (cleared stream out @ map (\<lambda>i. data ! i) indices)"
  unfolding select_execute_def rfoldM_push_rmapM
  by (subst rmapM_Inr_map [where g = "\<lambda>i. data ! i"]) (auto simp: index_def)

lemma nullable_filter_execute_eq:
  assumes "length data \<le> length filt"
  shows "nullable_filter_execute stream data filt present out =
    Inr (cleared stream out @
         map (\<lambda>i. data ! i) (filter (\<lambda>i. filt ! i > 0 \<and> bv_is_set present i) [0..<length data]))"
  unfolding nullable_filter_execute_def
  by (rule rfoldM_push_cond) (use assms in \<open>auto simp: index_def\<close>)

lemma delta_decode_loop_out:
  "delta_decode_loop p es out = (out @ fst (delta_decode_loop p es []), snd (delta_decode_loop p es []))"
proof (induction es arbitrary: p out)
  case (Cons e es)
  let ?c = "wrap_i64 (e + p)"
  have "delta_decode_loop ?c es (out @ [?c])
      = (out @ [?c] @ fst (delta_decode_loop ?c es []), snd (delta_decode_loop ?c es []))"
    using Cons [of ?c "out @ [?c]"] by simp
  moreover have "delta_decode_loop ?c es [?c]
      = ([?c] @ fst (delta_decode_loop ?c es []), snd (delta_decode_loop ?c es []))"
    by (rule Cons)
  ultimately show ?case by (simp add: Let_def)
qed simp

lemma delta_decode_loop_append:
  "delta_decode_loop p (xs @ ys) [] =
     (let (o1, p1) = delta_decode_loop p xs []; (o2, p2) = delta_decode_loop p1 ys [] in (o1 @ o2, p2))"
proof (induction xs arbitrary: p)
  case Nil
  show ?case by simp
next
  case (Cons x xs)
  let ?c = "wrap_i64 (x + p)"
  show ?case
    using Cons [of ?c]
    by (simp add: Let_def delta_decode_loop_out [of ?c _ "[?c]"] split: prod.splits)
qed

lemma length_delta_decode_loop: "length (fst (delta_decode_loop p es out)) = length out + length es"
  by (induction es arbitrary: p out) (auto simp: Let_def)

section \<open>Which operators may run in batches\<close>

text \<open>
  Filtering: the batch is the zip of the data and filter batches; the operator has no state.
\<close>

interpretation filter_batches: batch_operator
  "\<lambda>(s :: unit) (b :: ('a \<times> u8) list). Inr (filter_execute True (map fst b) (map snd b) [], s)"
  by unfold_locales
    (simp_all add: filter_execute_def filter_loop_eq cleared_def zip_map_fst_snd)

interpretation map_batches: batch_operator
  "\<lambda>(s :: unit) (b :: 'a list). Inr (map_execute f True b [] :: 'b list, s)" for f
  by unfold_locales (simp_all add: map_execute_def map_loop_eq cleared_def)

interpretation delta_batches: batch_operator
  "\<lambda>(p :: i64) b. Inr (delta_decode_execute True p b [])"
proof unfold_locales
  show "Inr (delta_decode_execute True s [] []) = Inr ([], s)" for s
    by (simp add: delta_decode_execute_def cleared_def)
  show "Inr (delta_decode_execute True s (xs @ ys) []) =
      rbind (Inr (delta_decode_execute True s xs [])) (\<lambda>(out, s').
      rbind (Inr (delta_decode_execute True s' ys [])) (\<lambda>(out', s''). Inr (out @ out', s'')))"
    for s xs ys
    by (simp add: delta_decode_execute_def cleared_def delta_decode_loop_append Let_def
        split: prod.splits)
qed

lemma dict_lookup_execute_rmapM:
  "dict_lookup_execute stream xs di dd out =
     rmap ((@) (cleared stream out)) (rmapM (\<lambda>i. rbind (index di i) (entry_slice dd)) xs)"
proof -
  have "dict_lookup_execute stream xs di dd out =
      rfoldM (\<lambda>out i. rbind (rbind (index di i) (entry_slice dd)) (\<lambda>s. Inr (out @ [s])))
        (cleared stream out) xs"
    by (simp add: dict_lookup_execute_def rbind_assoc)
  then show ?thesis by (simp only: rfoldM_push_rmapM)
qed

lemma dict_lookup_append:
  "dict_lookup_execute True (xs @ ys) di dd [] =
     rbind (dict_lookup_execute True xs di dd []) (\<lambda>o1.
     rbind (dict_lookup_execute True ys di dd []) (\<lambda>o2. Inr (o1 @ o2)))"
  unfolding dict_lookup_execute_rmapM rmapM_append cleared_def
  by (cases "rmapM (\<lambda>i. rbind (index di i) (entry_slice dd)) xs";
      cases "rmapM (\<lambda>i. rbind (index di i) (entry_slice dd)) ys") simp_all

interpretation dict_batches: batch_operator
  "\<lambda>(s :: unit) b. rmap (\<lambda>out. (out, s)) (dict_lookup_execute True b di dd [])" for di dd
proof unfold_locales
  show "rmap (\<lambda>out. (out, s)) (dict_lookup_execute True [] di dd []) = Inr ([], s)" for s :: unit
    by (simp add: dict_lookup_execute_def cleared_def)
  show "rmap (\<lambda>out. (out, s)) (dict_lookup_execute True (xs @ ys) di dd []) =
      rbind (rmap (\<lambda>out. (out, s)) (dict_lookup_execute True xs di dd [])) (\<lambda>(out, s').
      rbind (rmap (\<lambda>out. (out, s')) (dict_lookup_execute True ys di dd [])) (\<lambda>(out', s'').
        Inr (out @ out', s'')))" for s :: unit and xs ys
    by (cases "dict_lookup_execute True xs di dd []"; cases "dict_lookup_execute True ys di dd []")
      (simp_all add: dict_lookup_append)
qed

section \<open>Main results\<close>

text \<open>
  Streaming does not change results. However the input of a delta decoder is cut into batches, the
  outputs of the batches add up to the output of a single run, and the operator ends in the same state.
\<close>

theorem delta_decode_streaming:
  "rmap (\<lambda>(outs, s'). (concat outs, s')) (run_batches (\<lambda>p b. Inr (delta_decode_execute True p b [])) p bs)
     = Inr (delta_decode_execute True p (concat bs) [])"
  by (rule delta_batches.run_batches_concat)

text \<open>
  The same for dictionary lookups, which may fail: the batches together succeed with the output of
  a single run, or fail as it does.
\<close>

theorem dict_lookup_streaming:
  "rmap (\<lambda>(outs, s'). (concat outs, s'))
     (run_batches (\<lambda>(s :: unit) b. rmap (\<lambda>out. (out, s)) (dict_lookup_execute True b di dd [])) () bs)
   = rmap (\<lambda>out. (out, ())) (dict_lookup_execute True (concat bs) di dd [])"
  by (rule dict_batches.run_batches_concat)

end
