(* ===== verification/Columns.thy ===== *)
theory Columns
  imports Codecs Vector_Ops
begin

text \<open>
  Columns and their data sections (src/src/mem_store/column.rs), compression of the first section
  (src/src/mem_store/lz4.rs), and the run of a decoding plan over the sections of a column.

  The \<open>lz4\<close> and \<open>hex\<close> crates are parameters, the fields of \<open>externs\<close>; \<open>lz4_lossless\<close> and \<open>hex_ok\<close> state
  what their documentation promises. The feature flag \<open>enable_lz4\<close> is the first field.
\<close>

record externs =
  enable_lz4 :: bool
  lz4_frame :: "u8 list \<Rightarrow> u8 list"
  lz4_unframe :: "u8 list \<Rightarrow> u8 list"
  hex_decode :: "rstr \<Rightarrow> u8 list option"
  hex_encode :: "u8 list \<Rightarrow> rstr"
  hex_encode_upper :: "u8 list \<Rightarrow> rstr"

definition lz4_lossless :: "externs \<Rightarrow> bool" where
  "lz4_lossless ext \<longleftrightarrow> (\<forall>b. lz4_unframe ext (lz4_frame ext b) = b)"

section \<open>Data sections\<close>

datatype DataSection =
    SecU8 "u8 list"
  | SecU16 "u16 list"
  | SecU32 "u32 list"
  | SecU64 "u64 list"
  | SecI64 "i64 list"
  | SecF64 "f64 list"
  | SecNull nat

fun section_len :: "DataSection \<Rightarrow> nat" where
  "section_len (SecU8 x) = length x"
| "section_len (SecU16 x) = length x"
| "section_len (SecU32 x) = length x"
| "section_len (SecU64 x) = length x"
| "section_len (SecI64 x) = length x"
| "section_len (SecF64 x) = length x"
| "section_len (SecNull n) = n"

fun section_encoding_type :: "DataSection \<Rightarrow> EncodingType" where
  "section_encoding_type (SecU8 _) = EU8"
| "section_encoding_type (SecU16 _) = EU16"
| "section_encoding_type (SecU32 _) = EU32"
| "section_encoding_type (SecU64 _) = EU64"
| "section_encoding_type (SecI64 _) = EI64"
| "section_encoding_type (SecF64 _) = EF64"
| "section_encoding_type (SecNull _) = ENull"

section \<open>lz4.rs\<close>

text \<open>
  The slice of elements is reinterpreted as bytes: little endian, \<open>size_of T\<close> bytes per element.
  An \<open>i64\<close> is its two's complement pattern.
\<close>

fun le_bytes :: "nat \<Rightarrow> nat \<Rightarrow> u8 list" where
  "le_bytes 0 n = []"
| "le_bytes (Suc k) n = of_nat n # le_bytes k (n div 256)"

fun le_value :: "u8 list \<Rightarrow> nat" where
  "le_value [] = 0"
| "le_value (b # bs) = unat b + 256 * le_value bs"

definition lz4_encode :: "externs \<Rightarrow> nat \<Rightarrow> nat list \<Rightarrow> u8 list" where
  "lz4_encode ext sz data = lz4_frame ext (concat (map (le_bytes sz) data))"

text \<open>
  \<open>decode\<close> fills the destination slice, as far as the stream reaches, and returns the number of
  elements read; the loop around \<open>read\<close> only collects blocks. Elements past the end of the stream
  keep the zeros the callers put there.
\<close>

fun chunks :: "nat \<Rightarrow> nat \<Rightarrow> u8 list \<Rightarrow> nat list" where
  "chunks sz 0 bs = []"
| "chunks sz (Suc n) bs = le_value (take sz bs) # chunks sz n (drop sz bs)"

definition lz4_decode :: "externs \<Rightarrow> nat \<Rightarrow> nat \<Rightarrow> u8 list \<Rightarrow> (nat list \<times> nat) res" where
  "lz4_decode ext sz dst_len src =
     (let bytes = take (sz * dst_len) (lz4_unframe ext src) in
      if length bytes mod sz = 0
      then Inr (chunks sz dst_len bytes, length bytes div sz)
      else Inl Panicked)"

definition i64_pattern :: "i64 \<Rightarrow> nat" where
  "i64_pattern x = nat (x mod 2 ^ 64)"

definition i64_of_pattern :: "nat \<Rightarrow> i64" where
  "i64_of_pattern n = wrap_i64 (int n)"

definition worth_it :: "nat \<Rightarrow> nat \<Rightarrow> u8 list \<Rightarrow> bool" where
  "worth_it len sz encoded \<longleftrightarrow> length encoded * 100 < len * sz * 90"

definition section_lz4_encode :: "externs \<Rightarrow> DataSection \<Rightarrow> DataSection \<times> bool" where
  "section_lz4_encode ext d =
     (case d of
        SecU8 x \<Rightarrow> let e = lz4_encode ext 1 (map unat x) in (SecU8 e, worth_it (length x) 1 e)
      | SecU16 x \<Rightarrow> let e = lz4_encode ext 2 (map unat x) in (SecU8 e, worth_it (length x) 2 e)
      | SecU32 x \<Rightarrow> let e = lz4_encode ext 4 (map unat x) in (SecU8 e, worth_it (length x) 4 e)
      | SecU64 x \<Rightarrow> let e = lz4_encode ext 8 (map unat x) in (SecU8 e, worth_it (length x) 8 e)
      | SecI64 x \<Rightarrow> let e = lz4_encode ext 8 (map i64_pattern x) in (SecU8 e, worth_it (length x) 8 e)
      | SecF64 x \<Rightarrow> let e = lz4_encode ext 8 (map unat x) in (SecU8 e, worth_it (length x) 8 e)
      | SecNull n \<Rightarrow> (SecNull n, False))"

definition section_lz4_decode :: "externs \<Rightarrow> DataSection \<Rightarrow> EncodingType \<Rightarrow> nat \<Rightarrow> DataSection res" where
  "section_lz4_decode ext d decoded_type len =
     (case d of
        SecU8 encoded \<Rightarrow>
          (case decoded_type of
             EU8 \<Rightarrow> rmap (\<lambda>(x, _). SecU8 (map of_nat x)) (lz4_decode ext 1 len encoded)
           | EU16 \<Rightarrow> rmap (\<lambda>(x, _). SecU16 (map of_nat x)) (lz4_decode ext 2 len encoded)
           | EU32 \<Rightarrow> rmap (\<lambda>(x, _). SecU32 (map of_nat x)) (lz4_decode ext 4 len encoded)
           | EU64 \<Rightarrow> rmap (\<lambda>(x, _). SecU64 (map of_nat x)) (lz4_decode ext 8 len encoded)
           | EI64 \<Rightarrow> rmap (\<lambda>(x, _). SecI64 (map i64_of_pattern x)) (lz4_decode ext 8 len encoded)
           | _ \<Rightarrow> Inl Panicked)
      | _ \<Rightarrow> Inl Panicked)"

section \<open>Column\<close>

record Column =
  col_name :: string
  col_len :: nat
  col_range :: "(i64 \<times> i64) option"
  col_codec :: Codec
  col_data :: "DataSection list"

definition column_new ::
    "string \<Rightarrow> nat \<Rightarrow> (i64 \<times> i64) option \<Rightarrow> CodecOp list \<Rightarrow> DataSection list \<Rightarrow> Column res" where
  "column_new name len rng ops data =
     rbind (if ops = []
            then rbind (index data 0) (\<lambda>d. rmap codec_identity (cast_to_basic (section_encoding_type d)))
            else codec_new ops (map section_encoding_type data)) (\<lambda>codec.
       Inr \<lparr>col_name = name, col_len = len, col_range = rng,
            col_codec = set_column_name codec name, col_data = data\<rparr>)"

definition column_null :: "string \<Rightarrow> nat \<Rightarrow> Column" where
  "column_null name len =
     \<lparr>col_name = name, col_len = len, col_range = None, col_codec = codec_identity BNull,
      col_data = [SecNull len]\<rparr>"

definition column_lz4_encode :: "externs \<Rightarrow> Column \<Rightarrow> Column res" where
  "column_lz4_encode ext c =
     (if enable_lz4 ext
      then rbind (index (col_data c) 0) (\<lambda>d0.
           let (encoded, worth) = section_lz4_encode ext d0 in
           if worth
           then rbind (with_lz4 (col_codec c) (section_len d0)) (\<lambda>codec.
                  Inr (c\<lparr>col_codec := codec, col_data := (col_data c)[0 := encoded]\<rparr>))
           else Inr c)
      else Inr c)"

definition column_lz4_decode :: "externs \<Rightarrow> Column \<Rightarrow> Column res" where
  "column_lz4_decode ext c =
     (case c_ops (col_codec c) of
        LZ4 decoded_type _ # _ \<Rightarrow>
          rbind (without_lz4 (col_codec c)) (\<lambda>codec.
          rbind (index (col_data c) 0) (\<lambda>d0.
          rbind (section_lz4_decode ext d0 decoded_type (col_len c)) (\<lambda>decoded.
            Inr (c\<lparr>col_codec := codec, col_data := (col_data c)[0 := decoded]\<rparr>))))
      | _ \<Rightarrow> Inr c)"

definition basic_type :: "Column \<Rightarrow> BasicType" where
  "basic_type c = c_decoded_type (col_codec c)"

definition full_type :: "Column \<Rightarrow> Type" where
  "full_type c = type_new (basic_type c) (Some (col_codec c))"

definition section_encoding_type_at :: "Column \<Rightarrow> nat \<Rightarrow> EncodingType res" where
  "section_encoding_type_at c i = rmap section_encoding_type (index (col_data c) i)"

section \<open>Buffers of a decoding plan\<close>

datatype vec =
    VU8 "u8 list" | VU16 "u16 list" | VU32 "u32 list" | VU64 "u64 list"
  | VI64 "i64 list" | VF64 "f64 list" | VStr "rstr list" | VNull nat

text \<open>A nullable buffer is a data vector with a present bit map beside it.\<close>

datatype buf = Plain vec | Nulls vec "u8 list"

fun section_vec :: "DataSection \<Rightarrow> vec" where
  "section_vec (SecU8 x) = VU8 x"
| "section_vec (SecU16 x) = VU16 x"
| "section_vec (SecU32 x) = VU32 x"
| "section_vec (SecU64 x) = VU64 x"
| "section_vec (SecI64 x) = VI64 x"
| "section_vec (SecF64 x) = VF64 x"
| "section_vec (SecNull n) = VNull n"

fun vec_tag :: "vec \<Rightarrow> EncodingType" where
  "vec_tag (VU8 _) = EU8"
| "vec_tag (VU16 _) = EU16"
| "vec_tag (VU32 _) = EU32"
| "vec_tag (VU64 _) = EU64"
| "vec_tag (VI64 _) = EI64"
| "vec_tag (VF64 _) = EF64"
| "vec_tag (VStr _) = EStr"
| "vec_tag (VNull _) = ENull"

fun buf_has_tag :: "buf \<Rightarrow> EncodingType \<Rightarrow> bool" where
  "buf_has_tag (Plain v) t \<longleftrightarrow> vec_tag v = t"
| "buf_has_tag (Nulls v _) t \<longleftrightarrow> nullable (vec_tag v) = Inr t"

abbreviation unsupported :: "string \<Rightarrow> 'a res" where
  "unsupported what \<equiv> Inl (Fail (FatalError what))"

text \<open>\<open>operator::nullable\<close> (vector_operator.rs) exists for three element types only.\<close>

fun assemble_nullable :: "buf \<Rightarrow> buf \<Rightarrow> buf res" where
  "assemble_nullable (Plain (VU8 x)) (Plain (VU8 present)) = Inr (Nulls (VU8 x) present)"
| "assemble_nullable (Plain (VI64 x)) (Plain (VU8 present)) = Inr (Nulls (VI64 x) present)"
| "assemble_nullable (Plain (VStr x)) (Plain (VU8 present)) = Inr (Nulls (VStr x) present)"
| "assemble_nullable _ _ = unsupported ''nullable not implemented''"

text \<open>
  \<open>propagate_nullability\<close> (planner.rs) rewrites an operation on nullable input into the operation
  on the data vector, with the null map of the input beside the result.
\<close>

fun on_data :: "(vec \<Rightarrow> vec res) \<Rightarrow> buf \<Rightarrow> buf res" where
  "on_data f (Plain v) = rmap Plain (f v)"
| "on_data f (Nulls v present) = rmap (\<lambda>w. Nulls w present) (f v)"

text \<open>\<open>lhs.to_i64().unwrap() + rhs\<close> for the types of \<open>IntegerNoU64\<close>.\<close>

definition addition_perform :: "i64 \<Rightarrow> i64 \<Rightarrow> i64" where
  "addition_perform lhs rhs = wrap_i64 (lhs + rhs)"

fun vec_addition :: "i64 \<Rightarrow> vec \<Rightarrow> vec res" where
  "vec_addition y (VU8 x) = Inr (VI64 (map (\<lambda>l. addition_perform (uint l) y) x))"
| "vec_addition y (VU16 x) = Inr (VI64 (map (\<lambda>l. addition_perform (uint l) y) x))"
| "vec_addition y (VU32 x) = Inr (VI64 (map (\<lambda>l. addition_perform (uint l) y) x))"
| "vec_addition y (VI64 x) = Inr (VI64 (map (\<lambda>l. addition_perform l y) x))"
| "vec_addition y _ = unsupported ''addition''"

text \<open>\<open>Cast<i64>\<close> (type_conversion.rs).\<close>

fun vec_cast_i64 :: "vec \<Rightarrow> vec res" where
  "vec_cast_i64 (VU8 x) = Inr (VI64 (map uint x))"
| "vec_cast_i64 (VU16 x) = Inr (VI64 (map uint x))"
| "vec_cast_i64 (VU32 x) = Inr (VI64 (map uint x))"
| "vec_cast_i64 (VU64 x) = Inr (VI64 (map (\<lambda>l. wrap_i64 (uint l)) x))"
| "vec_cast_i64 (VI64 x) = Inr (VI64 x)"
| "vec_cast_i64 _ = unsupported ''type_conversion''"

definition u64_to_i64 :: "u64 \<Rightarrow> i64 res" where
  "u64_to_i64 l = (if uint l \<le> i64_MAX then Inr (uint l) else Inl Panicked)"

fun vec_to_i64 :: "vec \<Rightarrow> i64 list res" where
  "vec_to_i64 (VU8 x) = Inr (map uint x)"
| "vec_to_i64 (VU16 x) = Inr (map uint x)"
| "vec_to_i64 (VU32 x) = Inr (map uint x)"
| "vec_to_i64 (VU64 x) = rmapM u64_to_i64 x"
| "vec_to_i64 (VI64 x) = Inr x"
| "vec_to_i64 _ = unsupported ''delta_decode''"

fun buf_delta_decode :: "buf \<Rightarrow> buf res" where
  "buf_delta_decode (Plain v) =
     rmap (\<lambda>x. Plain (VI64 (fst (delta_decode_execute False 0 x [])))) (vec_to_i64 v)"
| "buf_delta_decode (Nulls _ _) = unsupported ''delta_decode''"

text \<open>\<open>i.cast_usize()\<close> of the index types; a negative \<open>i64\<close> becomes an index far out of range.\<close>

fun vec_indices :: "vec \<Rightarrow> nat list res" where
  "vec_indices (VU8 x) = Inr (map unat x)"
| "vec_indices (VU16 x) = Inr (map unat x)"
| "vec_indices (VU32 x) = Inr (map unat x)"
| "vec_indices (VU64 x) = Inr (map unat x)"
| "vec_indices (VI64 x) = Inr (map i64_pattern x)"
| "vec_indices _ = unsupported ''dict_lookup''"

definition vec_dict_lookup :: "u64 list \<Rightarrow> u8 list \<Rightarrow> vec \<Rightarrow> vec res" where
  "vec_dict_lookup offset_len backing_store v =
     rbind (vec_indices v) (\<lambda>is. rmap VStr (dict_lookup_execute False is offset_len backing_store []))"

fun as_u8 :: "buf \<Rightarrow> u8 list res" where
  "as_u8 (Plain (VU8 x)) = Inr x"
| "as_u8 _ = unsupported ''u8''"

fun as_u64 :: "buf \<Rightarrow> u64 list res" where
  "as_u64 (Plain (VU64 x)) = Inr x"
| "as_u64 _ = unsupported ''u64''"

text \<open>
  \<open>LZ4Decode\<close> (lz4_decode.rs) run at once: the output vector has \<open>decoded_len\<close> elements and is cut
  to what was read. The operator exists for the integer types and only with \<open>enable_lz4\<close>.
\<close>

definition lz4_decode_operator :: "externs \<Rightarrow> nat \<Rightarrow> nat \<Rightarrow> u8 list \<Rightarrow> nat list res" where
  "lz4_decode_operator ext sz decoded_len encoded =
     rmap (\<lambda>(decoded, len). take len decoded) (lz4_decode ext sz decoded_len encoded)"

fun vec_lz4_decode :: "externs \<Rightarrow> EncodingType \<Rightarrow> nat \<Rightarrow> u8 list \<Rightarrow> vec res" where
  "vec_lz4_decode ext t n encoded =
     (if \<not> enable_lz4 ext then Inl Panicked
      else case t of
        EU8 \<Rightarrow> rmap (\<lambda>x. VU8 (map of_nat x)) (lz4_decode_operator ext 1 n encoded)
      | EU16 \<Rightarrow> rmap (\<lambda>x. VU16 (map of_nat x)) (lz4_decode_operator ext 2 n encoded)
      | EU32 \<Rightarrow> rmap (\<lambda>x. VU32 (map of_nat x)) (lz4_decode_operator ext 4 n encoded)
      | EU64 \<Rightarrow> rmap (\<lambda>x. VU64 (map of_nat x)) (lz4_decode_operator ext 8 n encoded)
      | EI64 \<Rightarrow> rmap (\<lambda>x. VI64 (map i64_of_pattern x)) (lz4_decode_operator ext 8 n encoded)
      | _ \<Rightarrow> unsupported ''lz4_decode'')"

text \<open>\<open>UnpackStrings\<close> with room for the whole column; not finishing would be a missing result.\<close>

definition vec_unpack_strings :: "nat \<Rightarrow> u8 list \<Rightarrow> vec res" where
  "vec_unpack_strings batch_size packed =
     (case unpack_strings_execute False (unpack_strings_init batch_size packed) of
        Some r \<Rightarrow> rmap (\<lambda>s. VStr (us_decoded s)) r
      | None \<Rightarrow> Inl Panicked)"

section \<open>unhexpack_strings.rs\<close>

record unhexpack_state =
  uh_decoded :: "rstr list"
  uh_capacity :: nat
  uh_store_len :: nat
  uh_iterator :: pb_iter
  uh_has_more :: bool

definition unhexpack_init :: "nat \<Rightarrow> u8 list \<Rightarrow> unhexpack_state" where
  "unhexpack_init batch_size packed =
     \<lparr>uh_decoded = [], uh_capacity = batch_size, uh_store_len = 0,
      uh_iterator = pb_from_slice packed, uh_has_more = True\<rparr>"

fun unhexpack_loop ::
    "externs \<Rightarrow> bool \<Rightarrow> nat \<Rightarrow> nat \<Rightarrow> unhexpack_state \<Rightarrow> unhexpack_state res option" where
  "unhexpack_loop ext upper total_bytes 0 s = None"
| "unhexpack_loop ext upper total_bytes (Suc n) s =
     (case pb_next (uh_iterator s) of
        Inl e \<Rightarrow> Some (Inl e)
      | Inr (None, it) \<Rightarrow> Some (Inr (s\<lparr>uh_iterator := it, uh_has_more := pb_has_more it\<rparr>))
      | Inr (Some elem, it) \<Rightarrow>
          (let string = (if upper then hex_encode_upper ext elem else hex_encode ext elem);
               decoded = uh_decoded s @ [string];
               cap = capacity_after_push (uh_capacity s) (length (uh_decoded s));
               store = uh_store_len s + length string;
               s' = s\<lparr>uh_decoded := decoded, uh_capacity := cap, uh_store_len := store,
                      uh_iterator := it, uh_has_more := pb_has_more it\<rparr>
           in if total_bytes < store then Some (Inl Panicked)
              else if cap = length decoded then Some (Inr s')
              else unhexpack_loop ext upper total_bytes n s'))"

definition unhexpack_execute ::
    "externs \<Rightarrow> bool \<Rightarrow> nat \<Rightarrow> bool \<Rightarrow> unhexpack_state \<Rightarrow> unhexpack_state res option" where
  "unhexpack_execute ext upper total_bytes streaming s =
     unhexpack_loop ext upper total_bytes (Suc (length (pb_data (uh_iterator s))))
       (s\<lparr>uh_decoded := cleared streaming (uh_decoded s)\<rparr>)"

definition vec_unhexpack :: "externs \<Rightarrow> nat \<Rightarrow> bool \<Rightarrow> nat \<Rightarrow> u8 list \<Rightarrow> vec res" where
  "vec_unhexpack ext batch_size upper total_bytes packed =
     (case unhexpack_execute ext upper total_bytes False (unhexpack_init batch_size packed) of
        Some r \<Rightarrow> rmap (\<lambda>s. VStr (uh_decoded s)) r
      | None \<Rightarrow> Inl Panicked)"

section \<open>Running a decoding plan\<close>

text \<open>The operators that \<open>prepare\<close> (query_plan.rs) selects for the plans of \<open>decode\<close>.\<close>

primrec eval_plan :: "externs \<Rightarrow> Column \<Rightarrow> buf res dplan \<Rightarrow> buf res" where
  "eval_plan ext col (Input r) = r"
| "eval_plan ext col (ColumnSection name i) =
     rmap (\<lambda>d. Plain (section_vec d)) (index (col_data col) i)"
| "eval_plan ext col (AssembleNullable data present) =
     rbind (eval_plan ext col data) (\<lambda>d.
     rbind (eval_plan ext col present) (\<lambda>p. assemble_nullable d p))"
| "eval_plan ext col (PAdd lhs x) = rbind (eval_plan ext col lhs) (on_data (vec_addition x))"
| "eval_plan ext col (DeltaDecode p) = rbind (eval_plan ext col p) buf_delta_decode"
| "eval_plan ext col (Cast p t) = rbind (eval_plan ext col p) (on_data vec_cast_i64)"
| "eval_plan ext col (PDictLookup is dict_indices dict_data) =
     rbind (eval_plan ext col is) (\<lambda>b.
     rbind (eval_plan ext col dict_indices) (\<lambda>di.
     rbind (eval_plan ext col dict_data) (\<lambda>dd.
     rbind (as_u64 di) (\<lambda>di. rbind (as_u8 dd) (\<lambda>dd. on_data (vec_dict_lookup di dd) b)))))"
| "eval_plan ext col (LZ4Decode p n t) =
     rbind (eval_plan ext col p) (\<lambda>b. rbind (as_u8 b) (\<lambda>x. rmap Plain (vec_lz4_decode ext t n x)))"
| "eval_plan ext col (PUnpackStrings p) =
     rbind (eval_plan ext col p) (\<lambda>b.
     rbind (as_u8 b) (\<lambda>x. rmap Plain (vec_unpack_strings (col_len col) x)))"
| "eval_plan ext col (PUnhexpackStrings p upper ttl) =
     rbind (eval_plan ext col p) (\<lambda>b.
     rbind (as_u8 b) (\<lambda>x. rmap Plain (vec_unhexpack ext (col_len col) upper ttl x)))"

text \<open>Reading a column back: decode the plan of its first section and run it.\<close>

definition read_column :: "externs \<Rightarrow> Column \<Rightarrow> buf res" where
  "read_column ext col =
     rbind (encoding_type (col_codec col)) (\<lambda>t.
     rbind (decode (col_codec col) (ColumnSection (col_name col) 0, t)) (\<lambda>(p, _).
       eval_plan ext col p))"

section \<open>The stack machine on buffers\<close>

text \<open>
  What a codec means, without plans: each operation replaces buffers on a stack of buffers.
\<close>

fun exec_step :: "externs \<Rightarrow> Column \<Rightarrow> buf list \<Rightarrow> CodecOp \<Rightarrow> buf list res" where
  "exec_step ext col (present # d # rest) Nullable =
     rmap (\<lambda>b. b # rest) (assemble_nullable d present)"
| "exec_step ext col (b # rest) (Add _ x) = rmap (\<lambda>b. b # rest) (on_data (vec_addition x) b)"
| "exec_step ext col (b # rest) (Delta _) = rmap (\<lambda>b. b # rest) (buf_delta_decode b)"
| "exec_step ext col (b # rest) (ToI64 _) = rmap (\<lambda>b. b # rest) (on_data vec_cast_i64 b)"
| "exec_step ext col stack (PushDataSection i) =
     rmap (\<lambda>d. Plain (section_vec d) # stack) (index (col_data col) i)"
| "exec_step ext col (dd # di # b # rest) (DictLookup _) =
     rbind (as_u64 di) (\<lambda>di. rbind (as_u8 dd) (\<lambda>dd.
       rmap (\<lambda>b. b # rest) (on_data (vec_dict_lookup di dd) b)))"
| "exec_step ext col (b # rest) (LZ4 t n) =
     rbind (as_u8 b) (\<lambda>x. rmap (\<lambda>v. Plain v # rest) (vec_lz4_decode ext t n x))"
| "exec_step ext col (b # rest) UnpackStrings =
     rbind (as_u8 b) (\<lambda>x. rmap (\<lambda>v. Plain v # rest) (vec_unpack_strings (col_len col) x))"
| "exec_step ext col (b # rest) (UnhexpackStrings upper ttl) =
     rbind (as_u8 b) (\<lambda>x. rmap (\<lambda>v. Plain v # rest) (vec_unhexpack ext (col_len col) upper ttl x))"
| "exec_step ext col _ _ = Inl Panicked"

definition exec_codec :: "externs \<Rightarrow> Column \<Rightarrow> CodecOp list \<Rightarrow> DataSection \<Rightarrow> buf res" where
  "exec_codec ext col ops d0 =
     rbind (rfoldM (exec_step ext col) [Plain (section_vec d0)] ops) (\<lambda>stack.
       case stack of [b] \<Rightarrow> Inr b | _ \<Rightarrow> Inl Panicked)"

subsection \<open>Tags of results\<close>

lemma as_u8_iff: "as_u8 b = Inr x \<longleftrightarrow> b = Plain (VU8 x)"
  by (cases b rule: as_u8.cases) auto

lemma as_u64_iff: "as_u64 b = Inr x \<longleftrightarrow> b = Plain (VU64 x)"
  by (cases b rule: as_u64.cases) auto

lemma vec_addition_tag: "vec_addition y v = Inr w \<Longrightarrow> vec_tag w = EI64"
  by (cases v) auto

lemma vec_cast_tag: "vec_cast_i64 v = Inr w \<Longrightarrow> vec_tag w = EI64"
  by (cases v) auto

lemma vec_dict_lookup_tag: "vec_dict_lookup di dd v = Inr w \<Longrightarrow> vec_tag w = EStr"
  by (auto simp: vec_dict_lookup_def rmap_Inr_iff)

lemma buf_delta_decode_tag: "buf_delta_decode b = Inr c \<Longrightarrow> buf_has_tag c EI64"
  by (cases b) (auto simp: rmap_Inr_iff)

lemma vec_lz4_decode_tag: "vec_lz4_decode ext t n x = Inr w \<Longrightarrow> vec_tag w = t"
  by (auto simp: rmap_Inr_iff split: if_splits EncodingType.splits)

lemma vec_unpack_strings_tag: "vec_unpack_strings n x = Inr w \<Longrightarrow> vec_tag w = EStr"
  by (auto simp: vec_unpack_strings_def rmap_Inr_iff split: option.splits)

lemma vec_unhexpack_tag: "vec_unhexpack ext n u t x = Inr w \<Longrightarrow> vec_tag w = EStr"
  by (auto simp: vec_unhexpack_def rmap_Inr_iff split: option.splits)

lemma section_vec_tag [simp]: "vec_tag (section_vec d) = section_encoding_type d"
  by (cases d) auto

lemma nullable_vec_tag: "nullable (vec_tag v) = Inr t \<Longrightarrow> is_nullable t"
  by (cases v) (auto simp: is_nullable_def)

lemma not_nullable_vec_tag [simp]: "\<not> is_nullable (vec_tag v)"
  by (cases v) (auto simp: is_nullable_def)

lemma on_data_i64_tag:
  assumes "on_data f b = Inr c" and "\<And>v w. f v = Inr w \<Longrightarrow> vec_tag w = EI64" and "buf_has_tag b t"
  shows "buf_has_tag c (i64_like t)"
proof (cases b)
  case (Plain v)
  with assms have "\<not> is_nullable t" by auto
  with Plain assms show ?thesis by (auto simp: rmap_Inr_iff i64_like_def)
next
  case (Nulls v p)
  with assms have "is_nullable t" by (auto dest: nullable_vec_tag)
  with Nulls assms show ?thesis by (auto simp: rmap_Inr_iff i64_like_def)
qed

lemma on_data_str_tag:
  assumes "on_data f b = Inr c" and "\<And>v w. f v = Inr w \<Longrightarrow> vec_tag w = EStr" and "buf_has_tag b t"
  shows "buf_has_tag c (str_like t)"
proof (cases b)
  case (Plain v)
  with assms have "\<not> is_nullable t" by auto
  with Plain assms show ?thesis by (auto simp: rmap_Inr_iff str_like_def)
next
  case (Nulls v p)
  with assms have "is_nullable t" by (auto dest: nullable_vec_tag)
  with Nulls assms show ?thesis by (auto simp: rmap_Inr_iff str_like_def)
qed

lemma assemble_nullable_cases:
  assumes "assemble_nullable d present = Inr b"
  obtains x p where "present = Plain (VU8 p)" "d = Plain x" "b = Nulls x p"
    "\<exists>t. nullable (vec_tag x) = Inr t"
  using assms by (cases "(d, present)" rule: assemble_nullable.cases) auto

subsection \<open>Plans implement the stack machine\<close>

definition denotes :: "externs \<Rightarrow> Column \<Rightarrow> buf res tplan \<Rightarrow> buf \<Rightarrow> bool" where
  "denotes ext col p b \<longleftrightarrow> eval_plan ext col (fst p) = Inr b \<and> buf_has_tag b (snd p)"

lemma denotes_expect_u8: "denotes ext col p (Plain (VU8 x)) \<Longrightarrow> expect EU8 p = Inr (fst p)"
  by (auto simp: denotes_def expect_def)

lemma denotes_expect_u64: "denotes ext col p (Plain (VU64 x)) \<Longrightarrow> expect EU64 p = Inr (fst p)"
  by (auto simp: denotes_def expect_def)

definition col_typed :: "Column \<Rightarrow> bool" where
  "col_typed col \<longleftrightarrow> c_section_types (col_codec col) = map section_encoding_type (col_data col)
     \<and> col_data col \<noteq> []"

lemma index_map: "index (map f xs) i = rmap f (index xs i)"
  by (simp add: index_def)

lemma list_all2_Cons2_E:
  assumes "list_all2 P xs (y # ys)"
  obtains x xs' where "xs = x # xs'" "P x y" "list_all2 P xs' ys"
  using assms by (auto simp: list_all2_Cons2)

lemma exec_step_simulated:
  assumes exec: "exec_step ext col bs op = Inr bs'" and rel: "list_all2 (denotes ext col) ps bs"
    and typed: "col_typed col"
  shows "\<exists>ps'. decode_step (col_codec col) ps op = Inr ps' \<and> list_all2 (denotes ext col) ps' bs'"
proof (cases "(ext, col, bs, op)" rule: exec_step.cases)
  case (1 _ _ present d rest)
  with rel obtain p q ps' where ps: "ps = p # q # ps'" and p: "denotes ext col p present"
    and q: "denotes ext col q d" and r: "list_all2 (denotes ext col) ps' rest"
    by (auto elim!: list_all2_Cons2_E)
  from exec 1 obtain b where b: "assemble_nullable d present = Inr b" and bs': "bs' = b # rest"
    by (auto simp: rmap_Inr_iff)
  obtain x pr t where "present = Plain (VU8 pr)" "d = Plain x" "b = Nulls x pr"
    "nullable (vec_tag x) = Inr t" using assemble_nullable_cases [OF b] by metis
  with p q b bs' r 1 ps show ?thesis
    using denotes_expect_u8 [of ext col p pr] by (auto simp: denotes_def)
next
  case (2 _ _ b rest t x)
  with rel obtain p ps' where "ps = p # ps'" "denotes ext col p b" "list_all2 (denotes ext col) ps' rest"
    by (auto elim!: list_all2_Cons2_E)
  with 2 exec show ?thesis
    by (auto simp: rmap_Inr_iff denotes_def intro: on_data_i64_tag [OF _ vec_addition_tag [of x]])
next
  case (3 _ _ b rest t)
  with rel obtain p ps' where "ps = p # ps'" "denotes ext col p b" "list_all2 (denotes ext col) ps' rest"
    by (auto elim!: list_all2_Cons2_E)
  with 3 exec show ?thesis
    by (auto simp: rmap_Inr_iff denotes_def intro: buf_delta_decode_tag)
next
  case (4 _ _ b rest t)
  with rel obtain p ps' where "ps = p # ps'" "denotes ext col p b" "list_all2 (denotes ext col) ps' rest"
    by (auto elim!: list_all2_Cons2_E)
  with 4 exec show ?thesis
    by (auto simp: rmap_Inr_iff denotes_def intro: on_data_i64_tag [OF _ vec_cast_tag])
next
  case (5 _ _ stack i)
  with exec rel typed show ?thesis
    by (auto simp: rmap_Inr_iff denotes_def col_typed_def index_map)
next
  case (6 _ _ dd di b rest t)
  with rel obtain p q r ps' where ps: "ps = p # q # r # ps'" and p: "denotes ext col p dd"
    "denotes ext col q di" "denotes ext col r b" "list_all2 (denotes ext col) ps' rest"
    by (auto elim!: list_all2_Cons2_E)
  from exec 6 obtain x y c where x: "dd = Plain (VU8 x)" "di = Plain (VU64 y)"
    "on_data (vec_dict_lookup y x) b = Inr c" "bs' = c # rest"
    by (auto simp: rmap_Inr_iff as_u8_iff as_u64_iff)
  have "buf_has_tag c (str_like (snd r))"
    using x p by (intro on_data_str_tag [OF x(3)]) (auto simp: denotes_def intro: vec_dict_lookup_tag)
  with x p ps 6 show ?thesis
    using denotes_expect_u8 [of ext col p x] denotes_expect_u64 [of ext col q y]
    by (auto simp: denotes_def)
next
  case (7 _ _ b rest t n)
  with rel obtain p ps' where "ps = p # ps'" "denotes ext col p b" "list_all2 (denotes ext col) ps' rest"
    by (auto elim!: list_all2_Cons2_E)
  with 7 exec show ?thesis
    using denotes_expect_u8 [of ext col p]
    by (auto simp: rmap_Inr_iff denotes_def as_u8_iff simp del: vec_lz4_decode.simps
        intro: vec_lz4_decode_tag)
next
  case (8 _ _ b rest)
  with rel obtain p ps' where "ps = p # ps'" "denotes ext col p b" "list_all2 (denotes ext col) ps' rest"
    by (auto elim!: list_all2_Cons2_E)
  with 8 exec show ?thesis
    using denotes_expect_u8 [of ext col p]
    by (auto simp: rmap_Inr_iff denotes_def as_u8_iff intro: vec_unpack_strings_tag)
next
  case (9 _ _ b rest u t)
  with rel obtain p ps' where "ps = p # ps'" "denotes ext col p b" "list_all2 (denotes ext col) ps' rest"
    by (auto elim!: list_all2_Cons2_E)
  with 9 exec show ?thesis
    using denotes_expect_u8 [of ext col p]
    by (auto simp: rmap_Inr_iff denotes_def as_u8_iff intro: vec_unhexpack_tag)
qed (use exec in auto)

lemma exec_simulated:
  assumes "rfoldM (exec_step ext col) bs ops = Inr bs'" and "list_all2 (denotes ext col) ps bs"
    and "col_typed col"
  shows "\<exists>ps'. rfoldM (decode_step (col_codec col)) ps ops = Inr ps' \<and> list_all2 (denotes ext col) ps' bs'"
  using assms
proof (induction ops arbitrary: bs ps)
  case (Cons op ops)
  then obtain b1 where b1: "exec_step ext col bs op = Inr b1" "rfoldM (exec_step ext col) b1 ops = Inr bs'"
    by auto
  from exec_step_simulated [OF b1(1) Cons.prems(2,3)] obtain p1 where
    "decode_step (col_codec col) ps op = Inr p1" "list_all2 (denotes ext col) p1 b1" by blast
  with Cons.IH [OF b1(2)] Cons.prems(3) show ?case by auto
qed auto

lemma exec_codec_Inr_iff:
  "exec_codec ext col ops d = Inr b \<longleftrightarrow>
   rfoldM (exec_step ext col) [Plain (section_vec d)] ops = Inr [b]"
  by (cases "rfoldM (exec_step ext col) [Plain (section_vec d)] ops")
    (auto simp: exec_codec_def split: list.splits)

theorem read_column_exec:
  assumes "col_typed col" and "exec_codec ext col (c_ops (col_codec col)) (hd (col_data col)) = Inr b"
  shows "read_column ext col = Inr b"
proof -
  let ?p = "(ColumnSection (col_name col) 0, section_encoding_type (hd (col_data col)))"
  obtain d ds where ds: "col_data col = d # ds" using assms(1) by (cases "col_data col") (auto simp: col_typed_def)
  have "denotes ext col ?p (Plain (section_vec d))"
    using ds by (simp add: denotes_def index_def)
  then have "list_all2 (denotes ext col) [?p] [Plain (section_vec d)]" by simp
  from exec_simulated [OF _ this assms(1), of "c_ops (col_codec col)" "[b]"] assms(2) ds
  obtain ps' where "rfoldM (decode_step (col_codec col)) [?p] (c_ops (col_codec col)) = Inr ps'"
    "list_all2 (denotes ext col) ps' [b]" by (auto simp: exec_codec_Inr_iff)
  then obtain q where q: "decode (col_codec col) ?p = Inr q" "denotes ext col q b"
    by (auto simp: decode_def decode_ops_Inr_iff list_all2_Cons2)
  moreover have "encoding_type (col_codec col) = Inr (section_encoding_type d)"
    using assms(1) ds by (simp add: encoding_type_def col_typed_def index_def)
  ultimately show ?thesis using ds by (cases q) (auto simp: read_column_def denotes_def)
qed

section \<open>Compression is transparent\<close>

lemma le_value_le_bytes: "le_value (le_bytes k n) = n mod 256 ^ k"
proof (induction k arbitrary: n)
  case (Suc k)
  have "unat (of_nat n :: u8) = n mod 256" by (simp add: unsigned_of_nat take_bit_eq_mod)
  then show ?case using Suc [of "n div 256"] by (simp add: mod_mult2_eq)
qed simp

lemma length_le_bytes [simp]: "length (le_bytes k n) = k"
  by (induction k arbitrary: n) auto

lemma length_concat_le_bytes [simp]: "length (concat (map (le_bytes k) xs)) = k * length xs"
  by (induction xs) auto

lemma chunks_concat: "chunks k (length xs) (concat (map (le_bytes k) xs)) = map (\<lambda>n. n mod 256 ^ k) xs"
  by (induction xs) (auto simp: le_value_le_bytes)

lemma length_chunks [simp]: "length (chunks k n bs) = n"
  by (induction n arbitrary: bs) auto

lemma lz4_decode_encode:
  assumes "lz4_lossless ext" and "0 < k"
  shows "lz4_decode ext k (length xs) (lz4_encode ext k xs) = Inr (map (\<lambda>n. n mod 256 ^ k) xs, length xs)"
  using assms by (simp add: lz4_decode_def lz4_encode_def lz4_lossless_def chunks_concat)

lemma lz4_operator_roundtrip:
  assumes "lz4_lossless ext" and "0 < k"
  shows "lz4_decode_operator ext k (length xs) (lz4_encode ext k xs) = Inr (map (\<lambda>n. n mod 256 ^ k) xs)"
  using lz4_decode_encode [OF assms, of xs] by (simp add: lz4_decode_operator_def)

lemma of_nat_unat_mod:
  fixes x :: "'a::len word"
  assumes "256 ^ k = (2::nat) ^ LENGTH('a)"
  shows "of_nat (unat x mod 256 ^ k) = x"
proof -
  have "unat x mod 256 ^ k = unat x" by (rule mod_less) (metis assms unsigned_less)
  then show ?thesis by simp
qed

lemma i64_pattern_roundtrip: "in_i64 x \<Longrightarrow> i64_of_pattern (i64_pattern x mod 256 ^ 8) = x"
proof -
  assume x: "in_i64 x"
  have "i64_pattern x mod 256 ^ 8 = i64_pattern x"
    by (rule mod_less) (simp add: i64_pattern_def nat_less_iff)
  moreover have "wrap_i64 (x mod 2 ^ 64) = wrap_i64 x"
    by (rule wrap_i64_cong) simp
  ultimately show ?thesis using x by (simp add: i64_of_pattern_def i64_pattern_def)
qed

fun lz4_readable :: "DataSection \<Rightarrow> bool" where
  "lz4_readable (SecF64 _) = False"
| "lz4_readable (SecI64 x) = (\<forall>v \<in> set x. in_i64 v)"
| "lz4_readable _ = True"

lemma section_lz4_roundtrip:
  assumes ll: "lz4_lossless ext" and en: "enable_lz4 ext" and ok: "lz4_readable d"
    and enc: "section_lz4_encode ext d = (e, True)"
  shows "\<exists>x. e = SecU8 x \<and>
    vec_lz4_decode ext (section_encoding_type d) (section_len d) x = Inr (section_vec d)"
proof -
  have rt: "lz4_decode_operator ext k (length y) (lz4_encode ext k (map f y))
      = Inr (map (\<lambda>a. f a mod 256 ^ k) y)" if "0 < k" for k and y :: "'b list" and f
    using lz4_operator_roundtrip [OF ll that, of "map f y"] by (simp add: comp_def)
  show ?thesis
  proof (cases d)
    case (SecU8 y)
    then show ?thesis using enc en rt [of 1 y unat]
      by (auto simp: section_lz4_encode_def Let_def comp_def of_nat_unat_mod [of 1, simplified])
  next
    case (SecU16 y)
    then show ?thesis using enc en rt [of 2 y unat]
      by (auto simp: section_lz4_encode_def Let_def comp_def of_nat_unat_mod [of 2, simplified])
  next
    case (SecU32 y)
    then show ?thesis using enc en rt [of 4 y unat]
      by (auto simp: section_lz4_encode_def Let_def comp_def of_nat_unat_mod [of 4, simplified])
  next
    case (SecU64 y)
    then show ?thesis using enc en rt [of 8 y unat]
      by (auto simp: section_lz4_encode_def Let_def comp_def of_nat_unat_mod [of 8, simplified])
  next
    case (SecI64 y)
    have "map (\<lambda>a. i64_of_pattern (i64_pattern a mod 256 ^ 8)) y = y"
      using ok SecI64 by (intro map_idI) (simp only: lz4_readable.simps i64_pattern_roundtrip)
    then show ?thesis using enc en SecI64 rt [of 8 y i64_pattern]
      by (auto simp: section_lz4_encode_def Let_def comp_def)
  qed (use ok enc in \<open>auto simp: section_lz4_encode_def\<close>)
qed

section \<open>Columns that are built and compressed\<close>

definition known_ops :: "CodecOp list \<Rightarrow> bool" where
  "known_ops ops \<longleftrightarrow> Unknown \<notin> set ops \<and> PushDataSection 0 \<notin> set ops"

lemma arg_count_known: "op \<noteq> Unknown \<Longrightarrow> \<exists>n. arg_count op = Inr n"
  by (cases op) auto

lemma codec_pop_total: "Unknown \<notin> set ops \<Longrightarrow> \<exists>ops'. codec_pop k ops = Inr ops' \<and> set ops' \<subseteq> set ops"
proof (induction k ops rule: codec_pop.induct)
  case (3 k op ops)
  then obtain n where n: "arg_count op = Inr n" using arg_count_known [of op] by auto
  with 3 obtain ops' where "codec_pop (n + k) ops = Inr ops'" "set ops' \<subseteq> set ops" by auto
  with n show ?case by auto
qed auto

lemma has_property_total:
  assumes p: "\<And>op. op \<noteq> Unknown \<Longrightarrow> \<exists>b. p op = Inr b" and "Unknown \<notin> set ops"
  shows "\<exists>b. has_property ops p = Inr b"
proof -
  have "\<exists>b. has_property_loop p os = Inr b" if "Unknown \<notin> set os" for os
    using that p
  proof (induction p os rule: has_property_loop.induct)
    case (2 p op ops)
    then obtain b n ops' where "p op = Inr b" "arg_count op = Inr n"
      "codec_pop (n - 1) ops = Inr ops'" "set ops' \<subseteq> set ops"
      using arg_count_known [of op] codec_pop_total [of ops] by (metis list.set_intros)
    with 2 show ?case by (cases b) fastforce+
  qed auto
  with assms(2) show ?thesis by (simp add: has_property_def)
qed

lemma codec_new_total:
  assumes "Unknown \<notin> set ops" and "output_type ops sts = Inr t"
  shows "\<exists>c. codec_new ops sts = Inr c \<and> c_ops c = ops \<and> c_section_types c = sts \<and> c_decoded_type c = t"
proof -
  have "\<exists>b. op_is_summation_preserving op = Inr b" if "op \<noteq> Unknown" for op
    using that by (cases op) auto
  moreover have "\<exists>b. op_is_order_preserving op = Inr b" if "op \<noteq> Unknown" for op
    using that by (cases op) auto
  moreover have "\<exists>b. op_is_elementwise_decodable op = Inr b" if "op \<noteq> Unknown" for op
    using that by (cases op) auto
  ultimately obtain sp ord fw where "has_property ops op_is_summation_preserving = Inr sp"
    "has_property ops op_is_order_preserving = Inr ord"
    "has_property ops op_is_elementwise_decodable = Inr fw"
    using has_property_total [OF _ assms(1)] by metis
  with assms(2) show ?thesis by (simp add: codec_new_def)
qed

lemma output_step_below:
  assumes "output_step (t # sts) ts op = Inr ts'" and "op \<noteq> PushDataSection 0"
  shows "output_step (u # sts) (ts @ junk) op = Inr (ts' @ junk)"
proof (cases op)
  case (PushDataSection i)
  with assms obtain j where "i = Suc j" by (cases i) auto
  with PushDataSection assms show ?thesis by (auto simp: rmap_Inr_iff index_def split: if_splits)
qed (use assms in \<open>auto simp: rmap_Inr_iff split: list.splits\<close>)

lemma output_fold_below:
  assumes "rfoldM (output_step (t # sts)) ts ops = Inr ts'" and "PushDataSection 0 \<notin> set ops"
  shows "rfoldM (output_step (u # sts)) (ts @ junk) ops = Inr (ts' @ junk)"
  using assms by (induction ops arbitrary: ts) (auto dest: output_step_below)

lemma output_type_lz4:
  assumes "output_type ops (t # sts) = Inr b" and "PushDataSection 0 \<notin> set ops"
  shows "output_type (LZ4 t n # ops) (EU8 # sts) = Inr b"
proof -
  from assms(1) obtain ts where ts: "rfoldM (output_step (t # sts)) [t] ops = Inr ts"
    "(case ts of t # _ \<Rightarrow> cast_to_basic t | [] \<Rightarrow> Inl Panicked) = Inr b"
    by (auto simp: output_type_def index_def)
  with output_fold_below [OF ts(1) assms(2), of EU8 "[EU8]"] show ?thesis
    by (auto simp: output_type_def index_def split: list.splits)
qed

lemma exec_step_cong:
  assumes "col_len c = col_len c'" and "col_data c = d # ds" and "col_data c' = d' # ds"
    and "op \<noteq> PushDataSection 0"
  shows "exec_step ext c s op = exec_step ext c' s op"
proof (cases "(ext, c, s, op)" rule: exec_step.cases)
  case (5 _ _ stack i)
  with assms obtain j where "i = Suc j" by (cases i) auto
  with 5 assms show ?thesis by (simp add: index_def)
qed (use assms(1) in auto)

lemma exec_fold_cong:
  assumes "col_len c = col_len c'" and "col_data c = d # ds" and "col_data c' = d' # ds"
    and "PushDataSection 0 \<notin> set ops"
  shows "rfoldM (exec_step ext c) s ops = rfoldM (exec_step ext c') s ops"
  using assms(4)
proof (induction ops arbitrary: s)
  case (Cons op ops)
  then have "exec_step ext c s op = exec_step ext c' s op"
    by (intro exec_step_cong [OF assms(1-3)]) auto
  with Cons show ?case by (cases "exec_step ext c' s op") auto
qed simp

lemma codec_identity_fields [simp]:
  "c_ops (codec_identity t) = []" "c_section_types (codec_identity t) = [to_encoded t]"
  by (simp_all add: codec_identity_def)

lemma set_column_name_fields [simp]:
  "c_ops (set_column_name c n) = c_ops c" "c_section_types (set_column_name c n) = c_section_types c"
  "c_column_name (set_column_name c n) = n"
  by (simp_all add: set_column_name_def)

lemma column_new_total:
  assumes "known_ops ops" and "output_type ops (map section_encoding_type data) = Inr t"
    and "data \<noteq> []" and "ops = [] \<Longrightarrow> length data = 1"
  shows "\<exists>c. column_new name len rng ops data = Inr c \<and> col_typed c \<and> c_ops (col_codec c) = ops \<and>
    col_data c = data \<and> col_len c = len \<and> col_name c = name \<and> col_range c = rng"
proof (cases "ops = []")
  case True
  with assms(3,4) obtain d where d: "data = [d]" by (cases data) auto
  with assms(2) True have "cast_to_basic (section_encoding_type d) = Inr t"
    by (simp add: output_type_def index_def)
  with d True show ?thesis
    using cast_to_basic_to_encoded [of "section_encoding_type d" t]
    by (simp add: column_new_def index_def col_typed_def)
next
  case False
  with codec_new_total [OF _ assms(2)] assms(1,3) show ?thesis
    by (fastforce simp: column_new_def col_typed_def known_ops_def)
qed

text \<open>
  The pattern of every column writer: build the column, then offer its first section to the
  compressor. Reading gives what the operations give on the uncompressed sections.
\<close>

lemma written_column_reads:
  assumes ll: "lz4_lossless ext" and ops: "known_ops ops"
    and t: "output_type ops (map section_encoding_type (d0 # ds)) = Inr t"
    and ok: "enable_lz4 ext \<Longrightarrow> lz4_readable d0" and nil: "ops = [] \<Longrightarrow> ds = []"
    and exec: "\<And>c. col_len c = len \<Longrightarrow> col_data c = d0 # ds \<Longrightarrow> exec_codec ext c ops d0 = Inr b"
  shows "\<exists>c. rbind (column_new name len rng ops (d0 # ds)) (column_lz4_encode ext) = Inr c \<and>
    read_column ext c = Inr b \<and> col_len c = len \<and> col_name c = name \<and> col_range c = rng"
proof -
  obtain c where c: "column_new name len rng ops (d0 # ds) = Inr c" "col_typed c"
    "c_ops (col_codec c) = ops" "col_data c = d0 # ds" "col_len c = len" "col_name c = name"
    "col_range c = rng"
    using column_new_total [OF ops t] nil by fastforce
  have read: "read_column ext c = Inr b" using c exec by (intro read_column_exec) auto
  obtain e worth where e: "section_lz4_encode ext d0 = (e, worth)" by fastforce
  show ?thesis
  proof (cases "enable_lz4 ext \<and> worth")
    case False
    with c e read show ?thesis by (auto simp: column_lz4_encode_def index_def)
  next
    case True
    let ?t0 = "section_encoding_type d0" and ?n = "section_len d0"
    from True e have "section_lz4_encode ext d0 = (e, True)" by simp
    with True section_lz4_roundtrip [OF ll _ ok] obtain x where x: "e = SecU8 x"
      "vec_lz4_decode ext ?t0 ?n x = Inr (section_vec d0)" by blast
    have lz: "output_type (LZ4 ?t0 ?n # ops) (EU8 # map section_encoding_type ds) = Inr t"
      using output_type_lz4 t ops by (auto simp: known_ops_def)
    obtain k where k: "codec_new (LZ4 ?t0 ?n # ops) (EU8 # map section_encoding_type ds) = Inr k"
      "c_ops k = LZ4 ?t0 ?n # ops" "c_section_types k = EU8 # map section_encoding_type ds"
      using codec_new_total [OF _ lz] ops by (auto simp: known_ops_def)
    define c' where "c' = c\<lparr>col_codec := set_column_name k (c_column_name (col_codec c)),
        col_data := e # ds\<rparr>"
    have enc: "column_lz4_encode ext c = Inr c'"
      using True c k e by (simp add: column_lz4_encode_def index_def with_lz4_def col_typed_def c'_def)
    have "rfoldM (exec_step ext c') [Plain (section_vec e)] (LZ4 ?t0 ?n # ops)
        = rfoldM (exec_step ext c') [Plain (section_vec d0)] ops"
      using x by simp
    also have "\<dots> = rfoldM (exec_step ext c) [Plain (section_vec d0)] ops"
      by (rule exec_fold_cong) (use c ops in \<open>auto simp: c'_def known_ops_def\<close>)
    also have "\<dots> = Inr [b]" using exec c by (simp add: exec_codec_Inr_iff)
    finally have "exec_codec ext c' (LZ4 ?t0 ?n # ops) e = Inr b" by (simp add: exec_codec_Inr_iff)
    moreover have "col_typed c'" using k x by (simp add: col_typed_def c'_def)
    ultimately have "read_column ext c' = Inr b" using k by (intro read_column_exec) (auto simp: c'_def)
    with enc c show ?thesis by (simp add: c'_def)
  qed
qed

section \<open>Main results\<close>

text \<open>
  C14. The query plan that \<open>Codec::decode\<close> builds for a column means what the codec means: whenever the
  codec, run as a program of a stack machine over the data sections of the column, leaves one
  vector, building and evaluating the plan gives that vector.
\<close>

theorem decode_plan_refines_codec:
  assumes "c_section_types (col_codec col) = map section_encoding_type (col_data col)" and "col_data col \<noteq> []"
    and "exec_codec ext col (c_ops (col_codec col)) (hd (col_data col)) = Inr b"
  shows "read_column ext col = Inr b"
  by (rule read_column_exec) (use assms in \<open>simp_all add: col_typed_def\<close>)

text \<open>Three bytes with an offset of 100 and deltas.\<close>

definition delta_column :: Column where
  "delta_column = \<lparr>col_name = ''d'', col_len = 3, col_range = Some (101, 106),
     col_codec = \<lparr>c_ops = [ToI64 EU8, Delta EI64, Add EI64 100], c_column_name = ''d'', c_section_types = [EU8],
       c_decoded_type = BInteger, c_is_summation_preserving = False, c_is_order_preserving = False,
       c_is_fixed_width = False\<rparr>,
     col_data = [SecU8 [1, 2, 3]]\<rparr>"

theorem decode_plan_refines_codec_witness:
  "\<exists>ext. read_column ext delta_column = Inr (Plain (VI64 [101, 103, 106]))"
proof -
  have "read_column ext delta_column = Inr (Plain (VI64 [101, 103, 106]))" for ext
    by (rule decode_plan_refines_codec)
      (simp_all add: delta_column_def exec_codec_def delta_decode_execute_def cleared_def Let_def
        addition_perform_def i64_bounds)
  then show ?thesis by blast
qed

end
