(* ===== verification/Column_Builders.thy ===== *)
theory Column_Builders
  imports Columns
begin

text \<open>
  The writers of columns: integers.rs, floats.rs, strings.rs and the builders of column_builder.rs
  (src/src/mem_store). The lemmas show that reading a written column gives the values back.
\<close>

section \<open>Integer columns\<close>

text \<open>The in-place delta encoding of \<open>values[1..]\<close> with its running minimum and maximum.\<close>

fun delta_encode_loop :: "i64 \<Rightarrow> i64 \<Rightarrow> i64 \<Rightarrow> i64 list \<Rightarrow> i64 list \<times> i64 \<times> i64" where
  "delta_encode_loop previous mn mx [] = ([], mn, mx)"
| "delta_encode_loop previous mn mx (cur # values) =
     (let d = wrap_i64 (cur - previous);
          mx' = (if mx < d then d else mx);
          mn' = (if mn > d then d else mn);
          (ds, mn'', mx'') = delta_encode_loop cur mn' mx' values
      in (d # ds, mn'', mx''))"

definition delta_encode_values :: "bool \<Rightarrow> i64 list \<Rightarrow> i64 \<Rightarrow> i64 \<Rightarrow> i64 list \<times> i64 \<times> i64" where
  "delta_encode_values delta_encode values mn mx =
     (if delta_encode
      then (case values of
              [] \<Rightarrow> (values, mn, mx)
            | v # vs \<Rightarrow> let (ds, mn', mx') = delta_encode_loop v v v vs in (v # ds, mn', mx'))
      else (values, mn, mx))"

definition value_interval :: "i64 \<Rightarrow> i64 \<Rightarrow> u64" where
  "value_interval mn mx =
     (if mn < 0 \<and> mx > 0 then of_int mx + of_int (wrap_i64 (- mn)) else of_int (wrap_i64 (mx - mn)))"

text \<open>\<open>IntegerColumn::encode\<close>; \<open>T::from\<close> fails outside the range of \<open>T\<close>.\<close>

definition encode_value :: "i64 \<Rightarrow> i64 \<Rightarrow> 'w::len word res" where
  "encode_value offset v =
     (let d = wrap_i64 (v - offset) in
      if 0 \<le> d \<and> d < 2 ^ LENGTH('w) then Inr (of_int d) else Inl Panicked)"

definition encode_values :: "i64 list \<Rightarrow> i64 \<Rightarrow> 'w::len word list res" where
  "encode_values values offset = rmapM (encode_value offset) values"

definition int_codec :: "EncodingType \<Rightarrow> bool \<Rightarrow> bool \<Rightarrow> i64 \<Rightarrow> CodecOp list" where
  "int_codec t has_nulls delta_encode offset =
     (if has_nulls
      then (case (offset = 0, delta_encode) of
              (True, True) \<Rightarrow> [Delta t, PushDataSection 1, Nullable]
            | (True, False) \<Rightarrow> [PushDataSection 1, Nullable, ToI64 t]
            | (False, True) \<Rightarrow> [Add t offset, Delta EI64, PushDataSection 1, Nullable]
            | (False, False) \<Rightarrow> [PushDataSection 1, Nullable, Add t offset])
      else (case (offset = 0, delta_encode) of
              (True, True) \<Rightarrow> [Delta t]
            | (True, False) \<Rightarrow> [ToI64 t]
            | (False, True) \<Rightarrow> [Add t offset, Delta EI64]
            | (False, False) \<Rightarrow> [Add t offset]))"

fun present_sections :: "u8 list option \<Rightarrow> DataSection list" where
  "present_sections None = []"
| "present_sections (Some present) = [SecU8 present]"

definition create_col ::
    "('w::len word list \<Rightarrow> DataSection) \<Rightarrow> string \<Rightarrow> i64 list \<Rightarrow> i64 \<Rightarrow> i64 \<Rightarrow> i64 \<Rightarrow> bool \<Rightarrow>
     u8 list option \<Rightarrow> EncodingType \<Rightarrow> Column res" where
  "create_col into name values offset mn mx delta_encode null_map t =
     rbind (encode_values values offset) (\<lambda>vals.
       column_new name (length vals) (Some (wrap_i64 (mn - offset), wrap_i64 (mx - offset)))
         (int_codec t (null_map \<noteq> None) delta_encode offset) (into vals # present_sections null_map))"

definition i64_codec :: "bool \<Rightarrow> bool \<Rightarrow> CodecOp list" where
  "i64_codec has_nulls delta_encode =
     (if delta_encode then [Delta EI64] else []) @
     (if has_nulls then [PushDataSection 1, Nullable] else [])"

definition integer_column_new_boxed ::
    "externs \<Rightarrow> string \<Rightarrow> i64 list \<Rightarrow> i64 \<Rightarrow> i64 \<Rightarrow> bool \<Rightarrow> u8 list option \<Rightarrow> Column res" where
  "integer_column_new_boxed ext name values0 min0 max0 delta_encode null =
     (let (values, mn, mx) = delta_encode_values delta_encode values0 min0 max0;
          interval = value_interval mn mx
      in rbind
        (if mn \<ge> 0 \<and> mx \<le> 255 then create_col SecU8 name values 0 min0 max0 delta_encode null EU8
         else if interval \<le> 255 then create_col SecU8 name values mn min0 max0 delta_encode null EU8
         else if mn \<ge> 0 \<and> mx \<le> 65535 then create_col SecU16 name values 0 min0 max0 delta_encode null EU16
         else if interval \<le> 65535 then create_col SecU16 name values mn min0 max0 delta_encode null EU16
         else if mn \<ge> 0 \<and> mx \<le> 4294967295 then create_col SecU32 name values 0 min0 max0 delta_encode null EU32
         else if interval \<le> 4294967295 then create_col SecU32 name values mn min0 max0 delta_encode null EU32
         else column_new name (length values) (Some (min0, max0))
                (i64_codec (null \<noteq> None) delta_encode) (SecI64 values # present_sections null))
        (column_lz4_encode ext))"

section \<open>Float columns\<close>

definition float_column_new_boxed :: "externs \<Rightarrow> string \<Rightarrow> f64 list \<Rightarrow> u8 list option \<Rightarrow> Column res" where
  "float_column_new_boxed ext name values null =
     rbind (column_new name (length values) None
              (if null \<noteq> None then [PushDataSection 1, Nullable] else [])
              (SecF64 values # present_sections null))
       (column_lz4_encode ext)"

section \<open>String columns\<close>

definition dict_codec :: "EncodingType \<Rightarrow> CodecOp list" where
  "dict_codec index_type = [PushDataSection 1, PushDataSection 2, DictLookup index_type]"

definition string_pack_codec :: "CodecOp list" where
  "string_pack_codec = [UnpackStrings]"

text \<open>
  The pass over the strings that fills \<open>unique_values\<close>: \<open>Inl\<close> where it stops to pack the strings
  one after the other, \<open>Inr\<close> with the set otherwise.
\<close>

fun unique_pass :: "nat \<Rightarrow> rstr list \<Rightarrow> rstr list \<Rightarrow> unit + rstr list" where
  "unique_pass len unique [] = Inr unique"
| "unique_pass len unique (s # strings) =
     (let unique' = List.insert s unique in
      if length unique' = len div 2 then Inl () else unique_pass len unique' strings)"

definition hex_decode_all :: "externs \<Rightarrow> rstr list \<Rightarrow> u8 list list res" where
  "hex_decode_all ext strings = rmapM (\<lambda>s. unwrap (hex_decode ext s)) strings"

definition packed_codec_data ::
    "externs \<Rightarrow> rstr list \<Rightarrow> nat \<Rightarrow> bool \<Rightarrow> bool \<Rightarrow> nat \<Rightarrow> (CodecOp list \<times> u8 list) res" where
  "packed_codec_data ext strings len lhex uhex total_bytes =
     (if (lhex \<or> uhex) \<and> total_bytes div len > 5
      then rmap (\<lambda>bs. ([UnhexpackStrings uhex total_bytes], packed_bytes_from_iterator bs))
             (hex_decode_all ext strings)
      else Inr (string_pack_codec, packed_from_iterator strings))"

definition build_dictionary :: "rstr list \<Rightarrow> rstr \<Rightarrow> nat option" where
  "build_dictionary mapping = foldl (\<lambda>m (i, s). m(s \<mapsto> i)) Map.empty (enumerate 0 mapping)"

definition dictionary_indices :: "rstr list \<Rightarrow> rstr list \<Rightarrow> 'w::len word list res" where
  "dictionary_indices mapping strings =
     rmapM (\<lambda>s. rmap of_nat (unwrap (build_dictionary mapping s))) strings"

definition dict_sections ::
    "('w::len word list \<Rightarrow> DataSection) \<Rightarrow> EncodingType \<Rightarrow> indexed_packed_strings \<Rightarrow> rstr list \<Rightarrow>
     (CodecOp list \<times> DataSection list) res" where
  "dict_sections into t packed_mapping strings =
     rbind (ips_iter packed_mapping) (\<lambda>mapping.
     rbind (dictionary_indices mapping strings) (\<lambda>is.
       let (offsets, store) = ips_into_parts packed_mapping in
       Inr (dict_codec t, [into is, SecU64 offsets, SecU8 store])))"

definition fast_build_string_column ::
    "externs \<Rightarrow> string \<Rightarrow> rstr list \<Rightarrow> nat \<Rightarrow> bool \<Rightarrow> bool \<Rightarrow> nat \<Rightarrow> u8 list option \<Rightarrow> Column res" where
  "fast_build_string_column ext name strings len lhex uhex total_bytes present =
     (case unique_pass len [] strings of
        Inl _ \<Rightarrow>
          rbind (packed_codec_data ext strings len lhex uhex total_bytes) (\<lambda>(codec, data).
          rbind (case present of
                   Some p \<Rightarrow> column_new name len None (codec @ [PushDataSection 1, Nullable])
                               [SecU8 data, SecU8 p]
                 | None \<Rightarrow> column_new name len None codec [SecU8 data])
            (column_lz4_encode ext))
      | Inr unique \<Rightarrow>
          (let dict_size = length unique;
               packed_mapping = ips_from_list (sort unique) in
           rbind (if dict_size \<le> 255 then dict_sections SecU8 EU8 packed_mapping strings
                  else if dict_size \<le> 65535 then dict_sections SecU16 EU16 packed_mapping strings
                  else dict_sections SecU32 EU32 packed_mapping strings) (\<lambda>(codec, sections).
           rbind (case present of
                    Some p \<Rightarrow> column_new name len (Some (0, int dict_size))
                                ([PushDataSection 3, Nullable] @ codec) (sections @ [SecU8 p])
                  | None \<Rightarrow> column_new name len (Some (0, int dict_size)) codec sections)
             (column_lz4_encode ext))))"

section \<open>Builders\<close>

text \<open>Hex digits, as bytes: '0' to '9' are 48 to 57, 'a' is 97 and 'A' is 65.\<close>

definition is_lowercase_hex :: "rstr \<Rightarrow> bool" where
  "is_lowercase_hex s \<longleftrightarrow> even (length s) \<and> (\<forall>c \<in> set s. (48 \<le> c \<and> c \<le> 57) \<or> (97 \<le> c \<and> c \<le> 102))"

definition is_uppercase_hex :: "rstr \<Rightarrow> bool" where
  "is_uppercase_hex s \<longleftrightarrow> even (length s) \<and> (\<forall>c \<in> set s. (48 \<le> c \<and> c \<le> 57) \<or> (65 \<le> c \<and> c \<le> 70))"

text \<open>What the \<open>hex\<close> crate promises: decoding a string of hex digits and encoding again is the identity.\<close>

definition hex_ok :: "externs \<Rightarrow> bool" where
  "hex_ok ext \<longleftrightarrow>
     (\<forall>s. is_lowercase_hex s \<longrightarrow> (\<exists>b. hex_decode ext s = Some b \<and> hex_encode ext b = s)) \<and>
     (\<forall>s. is_uppercase_hex s \<longrightarrow> (\<exists>b. hex_decode ext s = Some b \<and> hex_encode_upper ext b = s))"

record StringColBuilder =
  sb_values :: indexed_packed_strings
  sb_lhex :: bool
  sb_uhex :: bool
  sb_string_bytes :: nat

definition string_builder_default :: StringColBuilder where
  "string_builder_default =
     \<lparr>sb_values = ips_default, sb_lhex = True, sb_uhex = True, sb_string_bytes = 0\<rparr>"

definition string_builder_push :: "StringColBuilder \<Rightarrow> rstr \<Rightarrow> StringColBuilder" where
  "string_builder_push b elem =
     b\<lparr>sb_lhex := sb_lhex b \<and> is_lowercase_hex elem,
       sb_uhex := sb_uhex b \<and> is_uppercase_hex elem,
       sb_string_bytes := sb_string_bytes b + length elem,
       sb_values := ips_push (sb_values b) elem\<rparr>"

definition string_builder_finalize ::
    "externs \<Rightarrow> StringColBuilder \<Rightarrow> string \<Rightarrow> u8 list option \<Rightarrow> Column res" where
  "string_builder_finalize ext b name present =
     rbind (ips_iter (sb_values b)) (\<lambda>strings.
       fast_build_string_column ext name strings (ips_len (sb_values b)) (sb_lhex b) (sb_uhex b)
         (sb_string_bytes b) present)"

record IntColBuilder =
  ib_data :: "i64 list"
  ib_min :: i64
  ib_max :: i64
  ib_increasing :: nat
  ib_allow_delta_encode :: bool
  ib_last :: i64

definition int_builder_default :: IntColBuilder where
  "int_builder_default =
     \<lparr>ib_data = [], ib_min = i64_MAX, ib_max = i64_MIN, ib_increasing = 0,
      ib_allow_delta_encode = True, ib_last = i64_MIN\<rparr>"

definition int_builder_push :: "IntColBuilder \<Rightarrow> i64 option \<Rightarrow> IntColBuilder" where
  "int_builder_push b x =
     (let elem = (case x of Some v \<Rightarrow> v | None \<Rightarrow> 0) in
      b\<lparr>ib_min := min elem (ib_min b),
        ib_max := max elem (ib_max b),
        ib_increasing := (if elem > ib_last b then ib_increasing b + 1 else ib_increasing b),
        ib_allow_delta_encode :=
          (if \<not> elem > ib_last b \<and> checked_i64 (elem - ib_last b) = None then False
           else ib_allow_delta_encode b),
        ib_last := elem,
        ib_data := ib_data b @ [elem]\<rparr>)"

definition int_builder_finalize ::
    "externs \<Rightarrow> IntColBuilder \<Rightarrow> string \<Rightarrow> u8 list option \<Rightarrow> Column res" where
  "int_builder_finalize ext b name present =
     (let delta_encode = ib_allow_delta_encode b \<and>
            (ib_increasing b * 10 > length (ib_data b) * 9 \<and> enable_lz4 ext)
      in integer_column_new_boxed ext name (ib_data b) (ib_min b) (ib_max b) delta_encode present)"

definition float_builder_push :: "f64 list \<Rightarrow> f64 option \<Rightarrow> f64 list" where
  "float_builder_push data x = data @ [case x of Some v \<Rightarrow> v | None \<Rightarrow> 0]"

definition float_builder_finalize :: "externs \<Rightarrow> f64 list \<Rightarrow> string \<Rightarrow> u8 list option \<Rightarrow> Column res" where
  "float_builder_finalize ext data name present = float_column_new_boxed ext name data present"

section \<open>Deltas\<close>

lemma delta_roundtrip_loop:
  assumes "delta_encode_loop p mn mx vs = (ds, mn', mx')" and "\<forall>v \<in> set vs. in_i64 v"
  shows "fst (delta_decode_loop p ds out) = out @ vs"
  using assms
  by (induction p mn mx vs arbitrary: ds mn' mx' out rule: delta_encode_loop.induct)
    (auto simp: Let_def split: prod.splits)

lemma delta_roundtrip:
  assumes "delta_encode_values True vs mn mx = (ds, mn', mx')" and "\<forall>v \<in> set vs. in_i64 v"
  shows "fst (delta_decode_execute False 0 ds []) = vs"
proof (cases vs)
  case Nil
  with assms show ?thesis by (simp add: delta_encode_values_def delta_decode_execute_def cleared_def)
next
  case (Cons v ws)
  with assms obtain es where es: "delta_encode_loop v v v ws = (es, mn', mx')" "ds = v # es"
    by (auto simp: delta_encode_values_def Let_def split: prod.splits)
  from delta_roundtrip_loop [OF es(1), of "[v]"] assms(2) Cons es(2) show ?thesis
    by (simp add: delta_decode_execute_def cleared_def Let_def)
qed

lemma delta_encode_loop_bounds:
  assumes "delta_encode_loop p mn mx vs = (ds, mn', mx')" and "in_i64 mn" and "in_i64 mx"
  shows "mn' \<le> mn \<and> mx \<le> mx' \<and> in_i64 mn' \<and> in_i64 mx' \<and>
    (\<forall>d \<in> set ds. in_i64 d \<and> mn' \<le> d \<and> d \<le> mx') \<and> length ds = length vs"
  using assms
proof (induction p mn mx vs arbitrary: ds mn' mx' rule: delta_encode_loop.induct)
  case (2 p mn mx c vs)
  let ?d = "wrap_i64 (c - p)"
  let ?mx = "if mx < ?d then ?d else mx" and ?mn = "if mn > ?d then ?d else mn"
  obtain es where es: "delta_encode_loop c ?mn ?mx vs = (es, mn', mx')" "ds = ?d # es"
    using 2(2) by (auto simp: Let_def split: prod.splits)
  have "mn' \<le> ?mn \<and> ?mx \<le> mx' \<and> in_i64 mn' \<and> in_i64 mx' \<and>
      (\<forall>d \<in> set es. in_i64 d \<and> mn' \<le> d \<and> d \<le> mx') \<and> length es = length vs"
    by (rule "2.IH" [OF refl refl refl es(1)]) (use 2(3,4) in auto)
  with es(2) show ?case by (auto split: if_splits)
qed auto

lemma delta_encode_values_bounds:
  assumes "delta_encode_values de vs mn mx = (ds, mn', mx')" and "in_i64 mn" and "in_i64 mx"
    and "\<forall>v \<in> set vs. in_i64 v \<and> mn \<le> v \<and> v \<le> mx"
  shows "in_i64 mn' \<and> in_i64 mx' \<and> (\<forall>d \<in> set ds. in_i64 d \<and> mn' \<le> d \<and> d \<le> mx') \<and> length ds = length vs"
proof (cases "de \<and> vs \<noteq> []")
  case False
  with assms show ?thesis by (auto simp: delta_encode_values_def split: list.splits if_splits)
next
  case True
  then obtain v ws where vs: "vs = v # ws" by (cases vs) auto
  with assms True obtain es where es: "delta_encode_loop v v v ws = (es, mn', mx')" "ds = v # es"
    by (auto simp: delta_encode_values_def Let_def split: prod.splits)
  from delta_encode_loop_bounds [OF es(1)] assms(4) vs have
    "mn' \<le> v \<and> v \<le> mx' \<and> in_i64 mn' \<and> in_i64 mx' \<and>
     (\<forall>d \<in> set es. in_i64 d \<and> mn' \<le> d \<and> d \<le> mx') \<and> length es = length ws" by simp
  with es vs assms(4) show ?thesis by auto
qed

lemma uint_of_int_u64: "uint (of_int x :: u64) = x mod 2 ^ 64"
  by (simp add: unsigned_of_int take_bit_eq_mod)

lemma value_interval_eq:
  assumes "in_i64 mn" "in_i64 mx" "mn \<le> mx"
  shows "uint (value_interval mn mx) = mx - mn"
proof (cases "mn < 0 \<and> mx > 0")
  case True
  have "uint (value_interval mn mx) = (mx + wrap_i64 (- mn)) mod 2 ^ 64"
    using True uint_of_int_u64 [of "mx + wrap_i64 (- mn)"] by (simp add: value_interval_def)
  also have "\<dots> = (mx + - mn) mod 2 ^ 64" by (metis mod_add_right_eq wrap_i64_mod)
  also have "\<dots> = mx - mn" using assms True by (simp add: i64_bounds)
  finally show ?thesis .
next
  case False
  then have "uint (value_interval mn mx) = (mx - mn) mod 2 ^ 64"
    using uint_of_int_u64 [of "wrap_i64 (mx - mn)"] wrap_i64_mod [of "mx - mn"]
    by (auto simp: value_interval_def)
  also have "\<dots> = mx - mn" using assms by (simp add: i64_bounds)
  finally show ?thesis .
qed

section \<open>Codecs of integer columns\<close>

fun with_present :: "u8 list option \<Rightarrow> vec \<Rightarrow> buf" where
  "with_present None v = Plain v"
| "with_present (Some present) v = Nulls v present"

lemma known_int_codec: "known_ops (int_codec t n de off)"
  by (cases "off = 0"; cases de) (auto simp: int_codec_def known_ops_def)

lemma int_codec_not_Nil: "int_codec t n de off \<noteq> []"
  by (cases "off = 0"; cases de) (auto simp: int_codec_def)

lemma output_type_int_codec:
  assumes "t \<in> {EU8, EU16, EU32}"
  shows "\<exists>b. output_type (int_codec t (null \<noteq> None) de off)
    (t # map section_encoding_type (present_sections null)) = Inr b"
  using assms
  by (cases "off = 0"; cases de; cases null)
    (auto simp: int_codec_def output_type_def index_def i64_like_def is_nullable_def)

lemma output_type_i64_codec:
  "\<exists>b. output_type (i64_codec (null \<noteq> None) de)
    (EI64 # map section_encoding_type (present_sections null)) = Inr b"
  by (cases de; cases null)
    (auto simp: i64_codec_def output_type_def index_def i64_like_def is_nullable_def)

section \<open>Sections of narrow integers\<close>

text \<open>
  What the writers need of a vector of narrow integers: the operators read its elements as numbers,
  and a compressed section of that type can be read.
\<close>

locale narrow_section =
  fixes into :: "'w::len word list \<Rightarrow> DataSection" and t :: EncodingType
  assumes tag: "section_encoding_type (into ws) = t"
    and narrow: "t \<in> {EU8, EU16, EU32}"
    and readable: "lz4_readable (into ws)"
    and add: "vec_addition y (section_vec (into ws)) = Inr (VI64 (map (\<lambda>w. addition_perform (uint w) y) ws))"
    and cast: "vec_cast_i64 (section_vec (into ws)) = Inr (VI64 (map uint ws))"
    and to_i64: "vec_to_i64 (section_vec (into ws)) = Inr (map uint ws)"
    and idx: "vec_indices (section_vec (into ws)) = Inr (map unat ws)"
begin

lemma encode_values_uint:
  assumes "\<forall>v \<in> set vs. 0 \<le> v - o' \<and> v - o' < 2 ^ LENGTH('w) \<and> in_i64 (v - o')"
  shows "\<exists>ws :: 'w word list. encode_values vs o' = Inr ws \<and> map uint ws = map (\<lambda>v. v - o') vs"
proof -
  have "encode_values vs o' = Inr (map (\<lambda>v. of_int (v - o') :: 'w word) vs)"
    unfolding encode_values_def using assms by (intro rmapM_Inr_map) (simp add: encode_value_def)
  moreover have "uint (of_int d :: 'w word) = d" if "0 \<le> d" "d < 2 ^ LENGTH('w)" for d
    using that by (simp add: unsigned_of_int take_bit_int_eq_self)
  then have "map uint (map (\<lambda>v. of_int (v - o') :: 'w word) vs) = map (\<lambda>v. v - o') vs"
    using assms by (simp del: of_int_diff)
  ultimately show ?thesis by blast
qed

text \<open>
  A null map can be attached to the data as it is only for some types; after the deltas are undone
  it is attached to \<open>i64\<close> data.
\<close>

lemma narrow_int_col_reads:
  assumes ll: "lz4_lossless ext"
    and vs: "\<forall>v \<in> set vs. in_i64 v \<and> 0 \<le> v - o' \<and> v - o' < 2 ^ LENGTH('w) \<and> in_i64 (v - o')"
    and orig: "orig = (if de then fst (delta_decode_execute False 0 vs []) else vs)"
    and null: "null = None \<or> de \<or> (\<forall>ws p. assemble_nullable (Plain (section_vec (into ws))) (Plain (VU8 p))
        = Inr (Nulls (section_vec (into ws)) p))"
  shows "\<exists>c. rbind (create_col into name vs o' mn mx de null t) (column_lz4_encode ext) = Inr c \<and>
    read_column ext c = Inr (with_present null (VI64 orig)) \<and> col_len c = length vs \<and> col_name c = name"
proof -
  obtain ws :: "'w word list" where ws: "encode_values vs o' = Inr ws" "map uint ws = map (\<lambda>v. v - o') vs"
    using encode_values_uint vs by blast
  have len: "length ws = length vs" using ws(2) by (metis length_map)
  have sum: "map (\<lambda>w. addition_perform (uint w) o') ws = vs"
  proof -
    have "map (\<lambda>w. addition_perform (uint w) o') ws = map (\<lambda>u. addition_perform u o') (map uint ws)"
      by simp
    also have "\<dots> = vs" using vs by (auto simp: ws(2) addition_perform_def comp_def intro: map_idI)
    finally show ?thesis .
  qed
  have zero: "map uint ws = vs" if "o' = 0" using ws(2) that by simp
  have exec: "exec_codec ext c (int_codec t (null \<noteq> None) de o') (into ws) = Inr (with_present null (VI64 orig))"
    if "col_data c = into ws # present_sections null" for c
    using zero orig null that
    by (cases "o' = 0"; cases de; cases null)
      (auto simp: int_codec_def exec_codec_def add cast to_i64 sum index_def)
  obtain b where b: "output_type (int_codec t (null \<noteq> None) de o')
      (map section_encoding_type (into ws # present_sections null)) = Inr b"
    using output_type_int_codec [OF narrow] tag by fastforce
  have "\<exists>c. rbind (column_new name (length ws) (Some (wrap_i64 (mn - o'), wrap_i64 (mx - o')))
      (int_codec t (null \<noteq> None) de o') (into ws # present_sections null)) (column_lz4_encode ext) = Inr c \<and>
    read_column ext c = Inr (with_present null (VI64 orig)) \<and> col_len c = length ws \<and> col_name c = name
      \<and> col_range c = Some (wrap_i64 (mn - o'), wrap_i64 (mx - o'))"
    by (rule written_column_reads [OF ll known_int_codec b])
      (use exec in \<open>simp_all add: readable int_codec_not_Nil\<close>)
  with ws len show ?thesis by (auto simp: create_col_def)
qed

end

interpretation u8_section: narrow_section SecU8 EU8
  by unfold_locales (auto simp: is_nullable_def)

interpretation u16_section: narrow_section SecU16 EU16
  by unfold_locales (auto simp: is_nullable_def)

interpretation u32_section: narrow_section SecU32 EU32
  by unfold_locales (auto simp: is_nullable_def)

section \<open>Integer columns read back\<close>

definition fits :: "i64 \<Rightarrow> i64 \<Rightarrow> i64 \<Rightarrow> bool" where
  "fits bound mn mx \<longleftrightarrow> (0 \<le> mn \<and> mx \<le> bound) \<or> uint (value_interval mn mx) \<le> bound"

text \<open>The encodings a null map can be attached to: one byte per value, or eight.\<close>

definition nulls_supported :: "i64 \<Rightarrow> i64 \<Rightarrow> bool" where
  "nulls_supported mn mx \<longleftrightarrow>
     fits 255 mn mx \<or> \<not> (fits 65535 mn mx \<or> fits 4294967295 mn mx)"

lemma in_width:
  assumes "v \<in> set vs" and "\<forall>v \<in> set vs. in_i64 v \<and> mn \<le> v \<and> v \<le> mx" and "in_i64 mn" and "in_i64 mx"
  shows "uint (value_interval mn mx) \<le> bound \<Longrightarrow> 0 \<le> v - mn \<and> v - mn \<le> bound"
    and "0 \<le> mn \<Longrightarrow> mx \<le> bound \<Longrightarrow> 0 \<le> v - 0 \<and> v - 0 \<le> bound"
  using assms value_interval_eq [of mn mx] by fastforce+

lemma small_in_i64: "0 \<le> x \<Longrightarrow> x \<le> 4294967295 \<Longrightarrow> in_i64 x"
  by (simp add: i64_bounds)

lemma i64_col_reads:
  assumes ll: "lz4_lossless ext" and vs: "\<forall>v \<in> set vs. in_i64 v"
    and orig: "orig = (if de then fst (delta_decode_execute False 0 vs []) else vs)"
  shows "\<exists>c. rbind (column_new name (length vs) rng (i64_codec (null \<noteq> None) de)
      (SecI64 vs # present_sections null)) (column_lz4_encode ext) = Inr c \<and>
    read_column ext c = Inr (with_present null (VI64 orig)) \<and> col_len c = length vs \<and> col_name c = name"
proof -
  obtain b where b: "output_type (i64_codec (null \<noteq> None) de)
      (map section_encoding_type (SecI64 vs # present_sections null)) = Inr b"
    using output_type_i64_codec by fastforce
  have known: "known_ops (i64_codec n de)" for n by (auto simp: i64_codec_def known_ops_def)
  have exec: "exec_codec ext c (i64_codec (null \<noteq> None) de) (SecI64 vs) = Inr (with_present null (VI64 orig))"
    if "col_data c = SecI64 vs # present_sections null" for c
    using orig that by (cases de; cases null) (auto simp: i64_codec_def exec_codec_def index_def)
  have "\<exists>c. rbind (column_new name (length vs) rng (i64_codec (null \<noteq> None) de)
      (SecI64 vs # present_sections null)) (column_lz4_encode ext) = Inr c \<and>
    read_column ext c = Inr (with_present null (VI64 orig)) \<and> col_len c = length vs \<and> col_name c = name \<and>
    col_range c = rng"
    by (rule written_column_reads [OF ll known b])
      (use exec vs in \<open>auto simp: i64_codec_def split: if_splits\<close>)
  then show ?thesis by blast
qed

lemma integer_column_reads:
  assumes ll: "lz4_lossless ext" and mn: "in_i64 min0" and mx: "in_i64 max0"
    and vs: "\<forall>v \<in> set values. in_i64 v \<and> min0 \<le> v \<and> v \<le> max0"
    and null: "null = None \<or> de \<or> nulls_supported min0 max0"
  shows "\<exists>c. integer_column_new_boxed ext name values min0 max0 de null = Inr c \<and>
    read_column ext c = Inr (with_present null (VI64 values)) \<and> col_len c = length values \<and> col_name c = name"
proof -
  obtain ds mn' mx' where ds: "delta_encode_values de values min0 max0 = (ds, mn', mx')"
    using prod_cases3 by blast
  from delta_encode_values_bounds [OF ds mn mx vs] have
    b: "in_i64 mn'" "in_i64 mx'" "\<forall>d \<in> set ds. in_i64 d \<and> mn' \<le> d \<and> d \<le> mx'" "length ds = length values"
    by auto
  have orig: "values = (if de then fst (delta_decode_execute False 0 ds []) else ds)"
    using delta_roundtrip [of "values" min0 max0 ds mn' mx'] ds vs
    by (auto simp: delta_encode_values_def split: if_splits)
  have null': "null = None \<or> de \<or> nulls_supported mn' mx'"
    using null ds by (cases de) (auto simp: delta_encode_values_def)
  note w = in_width [OF _ b(3,1,2)]
  have off: "\<forall>d \<in> set ds. in_i64 d \<and> 0 \<le> d - mn' \<and> d - mn' < bound + 1 \<and> in_i64 (d - mn')"
    if "uint (value_interval mn' mx') \<le> bound" "bound \<le> 4294967295" for bound
  proof
    fix d assume d: "d \<in> set ds"
    with w(1) [OF d that(1)] b(3) that(2) small_in_i64 [of "d - mn'"]
    show "in_i64 d \<and> 0 \<le> d - mn' \<and> d - mn' < bound + 1 \<and> in_i64 (d - mn')" by auto
  qed
  have zero: "\<forall>d \<in> set ds. in_i64 d \<and> 0 \<le> d - 0 \<and> d - 0 < bound + 1 \<and> in_i64 (d - 0)"
    if "0 \<le> mn'" "mx' \<le> bound" for bound
  proof
    fix d assume d: "d \<in> set ds"
    with w(2) [OF d that] b(3)
    show "in_i64 d \<and> 0 \<le> d - 0 \<and> d - 0 < bound + 1 \<and> in_i64 (d - 0)" by auto
  qed
  note r8 = u8_section.narrow_int_col_reads [OF ll _ orig, where null = null and name = name and mn = min0 and mx = max0]
  note r16 = u16_section.narrow_int_col_reads [OF ll _ orig, where null = null and name = name and mn = min0 and mx = max0]
  note r32 = u32_section.narrow_int_col_reads [OF ll _ orig, where null = null and name = name and mn = min0 and mx = max0]
  have le: "value_interval mn' mx' \<le> of_int k \<longleftrightarrow> uint (value_interval mn' mx') \<le> k"
    if "k = 255 \<or> k = 65535 \<or> k = 4294967295" for k
    using that by (auto simp: word_le_def)
  let ?goal = "\<lambda>e. \<exists>c. rbind e (column_lz4_encode ext) = Inr c \<and>
    read_column ext c = Inr (with_present null (VI64 values)) \<and> col_len c = length values \<and> col_name c = name"
  have g8z: "?goal (create_col SecU8 name ds 0 min0 max0 de null EU8)" if "0 \<le> mn'" "mx' \<le> 255"
    using r8 [of 0] zero [OF that] b(4) by simp
  have g8: "?goal (create_col SecU8 name ds mn' min0 max0 de null EU8)"
    if "uint (value_interval mn' mx') \<le> 255"
    using r8 [of mn'] off [OF that] b(4) by simp
  have g16z: "?goal (create_col SecU16 name ds 0 min0 max0 de null EU16)"
    if "0 \<le> mn'" "mx' \<le> 65535" "null = None \<or> de"
    using r16 [of 0] zero [OF that(1,2)] b(4) that(3) by auto
  have g16: "?goal (create_col SecU16 name ds mn' min0 max0 de null EU16)"
    if "uint (value_interval mn' mx') \<le> 65535" "null = None \<or> de"
    using r16 [of mn'] off [OF that(1)] b(4) that(2) by auto
  have g32z: "?goal (create_col SecU32 name ds 0 min0 max0 de null EU32)"
    if "0 \<le> mn'" "mx' \<le> 4294967295" "null = None \<or> de"
    using r32 [of 0] zero [OF that(1,2)] b(4) that(3) by auto
  have g32: "?goal (create_col SecU32 name ds mn' min0 max0 de null EU32)"
    if "uint (value_interval mn' mx') \<le> 4294967295" "null = None \<or> de"
    using r32 [of mn'] off [OF that(1)] b(4) that(2) by auto
  have g64: "?goal (column_new name (length ds) (Some (min0, max0)) (i64_codec (null \<noteq> None) de)
      (SecI64 ds # present_sections null))"
    using i64_col_reads [OF ll _ orig] b(3,4) by simp
  have wide: "null = None \<or> de" if "\<not> fits 255 mn' mx'" "fits 65535 mn' mx' \<or> fits 4294967295 mn' mx'"
    using null' that by (auto simp: nulls_supported_def)
  show ?thesis
    unfolding integer_column_new_boxed_def ds Let_def prod.case
    using g8z g8 g16z g16 g32z g32 g64 wide le [of 255] le [of 65535] le [of 4294967295]
    by (simp only: fits_def of_int_numeral) auto
qed


text \<open>
  A nullable column whose values need two or four bytes is written, but cannot be read: attaching
  the null map is not implemented for these types.
\<close>

lemma nullable_wide_column_unreadable:
  assumes "\<not> enable_lz4 ext" and "in_i64 mn" and "in_i64 mx"
    and vs: "\<forall>v \<in> set vs. in_i64 v \<and> mn \<le> v \<and> v \<le> mx"
    and "\<not> fits 255 mn mx" and "fits 65535 mn mx"
  shows "\<exists>c. integer_column_new_boxed ext name vs mn mx False (Some present) = Inr c \<and>
    read_column ext c = Inl (Fail (FatalError ''nullable not implemented''))"
proof -
  define off where "off = (if 0 \<le> mn \<and> mx \<le> 65535 then 0 else mn)"
  have "\<forall>v \<in> set vs. 0 \<le> v - off \<and> v - off < 65536 \<and> in_i64 (v - off)"
  proof
    fix v assume v: "v \<in> set vs"
    show "0 \<le> v - off \<and> v - off < 65536 \<and> in_i64 (v - off)"
      using in_width [OF v vs assms(2,3), of 65535] assms(6) small_in_i64 [of "v - off"]
      by (auto simp: off_def fits_def)
  qed
  then obtain ws :: "u16 list" where ws: "encode_values vs off = Inr ws"
    using u16_section.encode_values_uint [of vs off] by auto
  have sel: "integer_column_new_boxed ext name vs mn mx False (Some present) =
      rbind (create_col SecU16 name vs off mn mx False (Some present) EU16) (column_lz4_encode ext)"
    using assms(5,6)
    by (auto simp: integer_column_new_boxed_def delta_encode_values_def fits_def off_def word_le_def)
  have "\<exists>b. output_type (int_codec EU16 True False off) [EU16, EU8] = Inr b"
    using output_type_int_codec [of EU16 "Some present" False off] by simp
  then obtain k where k: "codec_new (int_codec EU16 True False off) [EU16, EU8] = Inr k"
    "c_ops k = int_codec EU16 True False off" "c_section_types k = [EU16, EU8]"
    using codec_new_total known_int_codec [of EU16 True False off] by (meson known_ops_def)
  define c where "c = \<lparr>col_name = name, col_len = length ws,
      col_range = Some (wrap_i64 (mn - off), wrap_i64 (mx - off)),
      col_codec = set_column_name k name, col_data = [SecU16 ws, SecU8 present]\<rparr>"
  have "integer_column_new_boxed ext name vs mn mx False (Some present) = Inr c"
    using sel ws k assms(1)
    by (simp add: create_col_def column_new_def int_codec_not_Nil column_lz4_encode_def c_def)
  moreover have "read_column ext c = Inl (Fail (FatalError ''nullable not implemented''))"
    using k
    by (cases "off = 0")
      (simp_all add: read_column_def c_def encoding_type_def index_def decode_def decode_ops_def
        int_codec_def expect_def)
  ultimately show ?thesis by blast
qed

section \<open>Builders of integer and float columns\<close>

definition present_or_zero :: "i64 option \<Rightarrow> i64" where
  "present_or_zero x = (case x of Some v \<Rightarrow> v | None \<Rightarrow> 0)"

definition int_builder_of :: "i64 option list \<Rightarrow> IntColBuilder" where
  "int_builder_of xs = foldl int_builder_push int_builder_default xs"

lemma int_builder_state:
  assumes "\<forall>v \<in> set (map present_or_zero xs). in_i64 v"
  shows "ib_data (int_builder_of xs) = map present_or_zero xs \<and>
    in_i64 (ib_min (int_builder_of xs)) \<and> in_i64 (ib_max (int_builder_of xs)) \<and>
    (\<forall>v \<in> set (map present_or_zero xs). ib_min (int_builder_of xs) \<le> v \<and> v \<le> ib_max (int_builder_of xs))"
  using assms
proof (induction xs rule: rev_induct)
  case Nil
  show ?case by (simp add: int_builder_of_def int_builder_default_def i64_bounds)
next
  case (snoc x xs)
  then show ?case
    by (auto simp: int_builder_of_def int_builder_push_def Let_def present_or_zero_def [symmetric]
        min_def max_def)
qed

text \<open>Float columns hold the bit patterns as they are.\<close>

lemma float_column_reads:
  assumes "\<not> enable_lz4 ext"
  shows "\<exists>c. float_column_new_boxed ext name values None = Inr c \<and>
    read_column ext c = Inr (Plain (VF64 values))"
  using assms
  by (auto simp: float_column_new_boxed_def column_new_def column_lz4_encode_def index_def
      read_column_def encoding_type_def decode_def)

lemma nullable_float_column_panics:
  "float_column_new_boxed ext name values (Some present) = Inl Panicked"
  by (simp add: float_column_new_boxed_def column_new_def codec_new_def output_type_def index_def)

section \<open>String columns read back\<close>

lemma unique_pass_set:
  "unique_pass len unique strings = Inr u \<Longrightarrow> set u = set unique \<union> set strings"
  by (induction len unique strings rule: unique_pass.induct) (auto simp: Let_def split: if_splits)

lemma unique_pass_distinct:
  "unique_pass len unique strings = Inr u \<Longrightarrow> distinct unique \<Longrightarrow> distinct u"
  by (induction len unique strings rule: unique_pass.induct) (auto simp: Let_def split: if_splits)

lemma unpack_packed:
  "vec_unpack_strings (length ss) (packed_from_iterator ss) = Inr (VStr ss)"
proof -
  let ?s = "unpack_strings_init (length ss) (packed_from_iterator ss)"
  have "length ss < Suc (length (concat (map element_bytes ss)))"
    using length_concat_elements [of ss] by simp
  then have "\<exists>s'. unpack_strings_loop (Suc (length (concat (map element_bytes ss)))) ?s = Some (Inr s') \<and>
      us_decoded s' = us_decoded ?s @ ss"
    by (rule unpack_strings_loop_all [where pre = "[]"])
      (simp_all add: unpack_strings_init_def sp_from_slice_def packed_from_iterator_eq)
  then show ?thesis
    by (auto simp: vec_unpack_strings_def unpack_strings_execute_def unpack_strings_init_def
        sp_from_slice_def packed_from_iterator_eq)
qed

lemma unhexpack_loop_all:
  assumes "length bs < n" and "uh_iterator s = \<lparr>pb_data = pre @ concat (map element_bytes bs),
      pb_curr_index = length pre\<rparr>"
    and "length (uh_decoded s) + length bs \<le> uh_capacity s"
    and enc: "enc = (if upper then hex_encode_upper ext else hex_encode ext)"
    and "uh_store_len s + length (concat (map enc bs)) \<le> tot"
  shows "\<exists>s'. unhexpack_loop ext upper tot n s = Some (Inr s') \<and> uh_decoded s' = uh_decoded s @ map enc bs"
  using assms(1-3,5)
proof (induction bs arbitrary: n s pre)
  case Nil
  then obtain m where "n = Suc m" by (cases n) auto
  with Nil show ?case using bytes_reader.nxt_end [of pre] by simp
next
  case (Cons x bs)
  then obtain m where m: "n = Suc m" "length bs < m" by (cases n) auto
  define it where "it = \<lparr>pb_data = (pre @ element_bytes x) @ concat (map element_bytes bs),
      pb_curr_index = length (pre @ element_bytes x)\<rparr>"
  define s1 where "s1 = s\<lparr>uh_decoded := uh_decoded s @ [enc x],
      uh_store_len := uh_store_len s + length (enc x), uh_iterator := it, uh_has_more := pb_has_more it\<rparr>"
  have nxt: "pb_next (uh_iterator s) = Inr (Some x, it)"
    using Cons.prems bytes_reader.nxt_element [of pre x "concat (map element_bytes bs)"]
    by (simp add: it_def)
  have cap: "capacity_after_push (uh_capacity s) (length (uh_decoded s)) = uh_capacity s"
    using Cons.prems by (simp add: capacity_after_push_def)
  have step: "unhexpack_loop ext upper tot n s =
      (if uh_capacity s = length (uh_decoded s @ [enc x]) then Some (Inr s1)
       else unhexpack_loop ext upper tot m s1)"
    using m nxt cap Cons.prems enc by (auto simp: s1_def Let_def)
  show ?case
  proof (cases "uh_capacity s = length (uh_decoded s @ [enc x])")
    case True
    with Cons.prems have "bs = []" by simp
    with True step show ?thesis by (simp add: s1_def)
  next
    case False
    have "\<exists>s'. unhexpack_loop ext upper tot m s1 = Some (Inr s') \<and> uh_decoded s' = uh_decoded s1 @ map enc bs"
      by (rule Cons.IH [where pre = "pre @ element_bytes x"])
        (use Cons.prems m in \<open>simp_all add: s1_def it_def\<close>)
    with False step show ?thesis by (simp add: s1_def)
  qed
qed

lemma unhexpack_packed:
  assumes "hex_ok ext" and "if upper then \<forall>s \<in> set ss. is_uppercase_hex s else \<forall>s \<in> set ss. is_lowercase_hex s"
  shows "\<exists>bs. hex_decode_all ext ss = Inr bs \<and>
    vec_unhexpack ext (length ss) upper (length (concat ss)) (packed_bytes_from_iterator bs) = Inr (VStr ss)"
proof -
  let ?enc = "if upper then hex_encode_upper ext else hex_encode ext"
  have dec: "\<exists>b. hex_decode ext s = Some b \<and> ?enc b = s" if "s \<in> set ss" for s
    using assms that by (auto simp: hex_ok_def split: if_splits)
  define bs where "bs = map (\<lambda>s. the (hex_decode ext s)) ss"
  have all: "hex_decode_all ext ss = Inr bs"
    unfolding hex_decode_all_def bs_def using dec by (intro rmapM_Inr_map) fastforce
  have enc: "map ?enc bs = ss"
    unfolding bs_def map_map using dec by (intro map_idI) fastforce
  let ?s = "unhexpack_init (length ss) (packed_bytes_from_iterator bs)"
  have len: "length bs = length ss" by (simp add: bs_def)
  have "length bs < Suc (length (concat (map element_bytes bs)))"
    using length_concat_elements [of bs] by simp
  then have "\<exists>s'. unhexpack_loop ext upper (length (concat ss)) (Suc (length (concat (map element_bytes bs)))) ?s
      = Some (Inr s') \<and> uh_decoded s' = uh_decoded ?s @ map ?enc bs"
    by (rule unhexpack_loop_all [where pre = "[]" and enc = ?enc])
      (use enc len in \<open>simp_all add: unhexpack_init_def pb_from_slice_def packed_bytes_from_iterator_eq\<close>)
  then have "vec_unhexpack ext (length ss) upper (length (concat ss)) (packed_bytes_from_iterator bs) = Inr (VStr ss)"
    by (auto simp: vec_unhexpack_def unhexpack_execute_def unhexpack_init_def cleared_def
        pb_from_slice_def packed_bytes_from_iterator_eq enc)
  with all show ?thesis by blast
qed

lemma build_dictionary_snoc:
  "build_dictionary (xs @ [x]) = (build_dictionary xs)(x \<mapsto> length xs)"
  by (simp add: build_dictionary_def enumerate_append_eq)

lemma build_dictionary_nth:
  "distinct mapping \<Longrightarrow> s \<in> set mapping \<Longrightarrow>
   \<exists>i < length mapping. build_dictionary mapping s = Some i \<and> mapping ! i = s"
proof (induction mapping rule: rev_induct)
  case (snoc x xs)
  show ?case
  proof (cases "s = x")
    case True
    then show ?thesis by (intro exI [of _ "length xs"]) (simp add: build_dictionary_snoc)
  next
    case False
    with snoc obtain i where "i < length xs" "build_dictionary xs s = Some i" "xs ! i = s" by auto
    with False show ?thesis
      by (intro exI [of _ i]) (simp add: build_dictionary_snoc nth_append)
  qed
qed simp

context narrow_section
begin

lemma dictionary_reads:
  assumes h: "ips_holds p mapping" and d: "distinct mapping" and sub: "set strings \<subseteq> set mapping"
    and small: "length mapping \<le> 2 ^ LENGTH('w)"
  shows "\<exists>ws :: 'w word list. dict_sections into t p strings =
      Inr (dict_codec t, [into ws, SecU64 (ips_data p), SecU8 (ips_backing_store p)]) \<and>
    vec_dict_lookup (ips_data p) (ips_backing_store p) (section_vec (into ws)) = Inr (VStr strings)"
proof -
  define f where "f s = the (build_dictionary mapping s)" for s
  have f: "build_dictionary mapping s = Some (f s) \<and> f s < length mapping \<and> mapping ! f s = s"
    if "s \<in> set strings" for s
  proof -
    from sub that have "s \<in> set mapping" by blast
    from build_dictionary_nth [OF d this] show ?thesis by (auto simp: f_def)
  qed
  define ws where "ws = map (\<lambda>s. of_nat (f s) :: 'w word) strings"
  have "dictionary_indices mapping strings = Inr ws"
    unfolding dictionary_indices_def ws_def using f by (intro rmapM_Inr_map) simp
  then have sec: "dict_sections into t p strings =
      Inr (dict_codec t, [into ws, SecU64 (ips_data p), SecU8 (ips_backing_store p)])"
    using ips_holds_iter [OF h] by (simp add: dict_sections_def ips_into_parts_def)
  have "map unat ws = map f strings"
    using f small unfolding ws_def by (auto intro!: unat_of_nat_small dest: less_le_trans)
  moreover have "rmapM (\<lambda>i. rbind (index (ips_data p) i) (entry_slice (ips_backing_store p))) (map f strings)
      = Inr (map (\<lambda>s. s) strings)"
    unfolding rmapM_map
    by (rule rmapM_Inr_map) (use f h ips_holds_length [OF h] in \<open>auto simp: index_def ips_holds_nth\<close>)
  ultimately have "vec_dict_lookup (ips_data p) (ips_backing_store p) (section_vec (into ws)) = Inr (VStr strings)"
    by (simp add: vec_dict_lookup_def idx dict_lookup_execute_rmapM cleared_def)
  with sec show ?thesis by blast
qed

lemma dictionary_column_reads:
  assumes ll: "lz4_lossless ext" and h: "ips_holds p mapping" and d: "distinct mapping"
    and sub: "set strings \<subseteq> set mapping" and small: "length mapping \<le> 2 ^ LENGTH('w)"
  shows "\<exists>c. rbind (dict_sections into t p strings) (\<lambda>(codec, sections).
      rbind (column_new name len rng codec sections) (column_lz4_encode ext)) = Inr c \<and>
    read_column ext c = Inr (Plain (VStr strings)) \<and> col_len c = len \<and> col_name c = name"
proof -
  obtain ws :: "'w word list" where ws: "dict_sections into t p strings =
      Inr (dict_codec t, [into ws, SecU64 (ips_data p), SecU8 (ips_backing_store p)])"
    "vec_dict_lookup (ips_data p) (ips_backing_store p) (section_vec (into ws)) = Inr (VStr strings)"
    using dictionary_reads [OF h d sub small] by blast
  have "\<exists>c. rbind (column_new name len rng (dict_codec t)
      (into ws # [SecU64 (ips_data p), SecU8 (ips_backing_store p)])) (column_lz4_encode ext) = Inr c \<and>
    read_column ext c = Inr (Plain (VStr strings)) \<and> col_len c = len \<and> col_name c = name \<and> col_range c = rng"
    by (rule written_column_reads [OF ll, where t = BString])
      (use narrow ws(2) in \<open>auto simp: dict_codec_def known_ops_def output_type_def index_def tag readable
        str_like_def is_nullable_def exec_codec_def\<close>)
  with ws(1) show ?thesis by auto
qed

end

lemma length_concat_le:
  "length (concat (map f xs)) = sum_list (map (\<lambda>x. length (f x)) xs)"
  by (simp add: length_concat comp_def)

text \<open>
  The limits of a dictionary: each string is shorter than 16 MB, they take less than one terabyte,
  and there are at most \<open>2^32\<close> of them.
\<close>

definition dict_limits :: "rstr list \<Rightarrow> bool" where
  "dict_limits u \<longleftrightarrow> length u \<le> 2 ^ 32 \<and> sum_list (map length u) < 2 ^ 40 \<and> (\<forall>s \<in> set u. length s < 2 ^ 24)"

lemma packed_column_reads:
  assumes ll: "lz4_lossless ext" and hx: "hex_ok ext" and len: "len = length ss"
    and tot: "total_bytes = length (concat ss)"
    and l: "lhex \<Longrightarrow> \<forall>s \<in> set ss. is_lowercase_hex s" and u: "uhex \<Longrightarrow> \<forall>s \<in> set ss. is_uppercase_hex s"
  shows "\<exists>c. rbind (packed_codec_data ext ss len lhex uhex total_bytes) (\<lambda>(codec, data).
      rbind (column_new name len rng codec [SecU8 data]) (column_lz4_encode ext)) = Inr c \<and>
    read_column ext c = Inr (Plain (VStr ss)) \<and> col_len c = len \<and> col_name c = name"
proof (cases "(lhex \<or> uhex) \<and> total_bytes div len > 5")
  case True
  have "if uhex then \<forall>s \<in> set ss. is_uppercase_hex s else \<forall>s \<in> set ss. is_lowercase_hex s"
    using True l u by auto
  from unhexpack_packed [OF hx this] obtain bs where bs: "hex_decode_all ext ss = Inr bs"
    "vec_unhexpack ext len uhex total_bytes (packed_bytes_from_iterator bs) = Inr (VStr ss)"
    using len tot by auto
  have "\<exists>c. rbind (column_new name len rng [UnhexpackStrings uhex total_bytes]
      (SecU8 (packed_bytes_from_iterator bs) # [])) (column_lz4_encode ext) = Inr c \<and>
    read_column ext c = Inr (Plain (VStr ss)) \<and> col_len c = len \<and> col_name c = name \<and> col_range c = rng"
    by (rule written_column_reads [OF ll, where t = BString])
      (use bs(2) in \<open>auto simp: known_ops_def output_type_def index_def exec_codec_def\<close>)
  with True bs(1) show ?thesis by (auto simp: packed_codec_data_def)
next
  case False
  have "\<exists>c. rbind (column_new name len rng string_pack_codec
      (SecU8 (packed_from_iterator ss) # [])) (column_lz4_encode ext) = Inr c \<and>
    read_column ext c = Inr (Plain (VStr ss)) \<and> col_len c = len \<and> col_name c = name \<and> col_range c = rng"
    by (rule written_column_reads [OF ll, where t = BString])
      (use unpack_packed [of ss] len in
        \<open>auto simp: string_pack_codec_def known_ops_def output_type_def index_def exec_codec_def\<close>)
  with False show ?thesis by (auto simp: packed_codec_data_def)
qed

lemma string_column_reads:
  assumes ll: "lz4_lossless ext" and hx: "hex_ok ext" and len: "len = length ss"
    and tot: "total_bytes = length (concat ss)"
    and l: "lhex \<Longrightarrow> \<forall>s \<in> set ss. is_lowercase_hex s" and u: "uhex \<Longrightarrow> \<forall>s \<in> set ss. is_uppercase_hex s"
    and lim: "\<And>u. unique_pass len [] ss = Inr u \<Longrightarrow> dict_limits u"
  shows "\<exists>c. fast_build_string_column ext name ss len lhex uhex total_bytes None = Inr c \<and>
    read_column ext c = Inr (Plain (VStr ss)) \<and> col_len c = len \<and> col_name c = name"
proof (cases "unique_pass len [] ss")
  case (Inl a)
  with packed_column_reads [OF ll hx len tot l u] show ?thesis
    by (simp add: fast_build_string_column_def split_def)
next
  case (Inr u)
  let ?m = "sort u"
  have "length (concat ?m) = sum_list (map length u)"
    by (metis length_concat mset_map mset_sort sum_mset_sum_list)
  then have h: "ips_holds (ips_from_list ?m) ?m"
    using lim [OF Inr] by (intro ips_holds_from_list) (auto simp: dict_limits_def)
  have d: "distinct ?m" using unique_pass_distinct [OF Inr] by simp
  have sub: "set ss \<subseteq> set ?m" using unique_pass_set [OF Inr] by simp
  have big: "length ?m \<le> 2 ^ 32" using lim [OF Inr] by (simp add: dict_limits_def)
  show ?thesis
    using u8_section.dictionary_column_reads [OF ll h d sub, of name len "Some (0, int (length u))"]
      u16_section.dictionary_column_reads [OF ll h d sub, of name len "Some (0, int (length u))"]
      u32_section.dictionary_column_reads [OF ll h d sub, of name len "Some (0, int (length u))"]
      Inr big
    by (simp add: fast_build_string_column_def Let_def split_def)
qed

definition string_builder_of :: "rstr list \<Rightarrow> StringColBuilder" where
  "string_builder_of ss = foldl string_builder_push string_builder_default ss"

lemma string_builder_state:
  "sb_values (string_builder_of ss) = ips_from_list ss \<and>
   (sb_lhex (string_builder_of ss) \<longleftrightarrow> (\<forall>s \<in> set ss. is_lowercase_hex s)) \<and>
   (sb_uhex (string_builder_of ss) \<longleftrightarrow> (\<forall>s \<in> set ss. is_uppercase_hex s)) \<and>
   sb_string_bytes (string_builder_of ss) = length (concat ss)"
proof (induction ss rule: rev_induct)
  case Nil
  show ?case by (simp add: string_builder_of_def string_builder_default_def ips_from_list_def)
next
  case (snoc s ss)
  then show ?case
    by (auto simp: string_builder_of_def string_builder_push_def ips_from_list_def)
qed

text \<open>The distinct strings of a column are within the limits if all its strings are.\<close>

lemma sum_list_subset_le:
  fixes f :: "'a \<Rightarrow> nat"
  assumes "distinct u" and "set u \<subseteq> set xs"
  shows "sum_list (map f u) \<le> sum_list (map f xs)"
proof -
  have "sum_list (map f u) = sum f (set u)" using assms(1) by (simp add: sum_list_distinct_conv_sum_set)
  also have "\<dots> \<le> sum f (set xs)" using assms(2) by (intro sum_mono2) auto
  also have "\<dots> = sum_list (map f (remdups xs))" by (simp add: sum_list_distinct_conv_sum_set)
  also have "\<dots> \<le> sum_list (map f xs)"
  proof (induction xs)
    case (Cons x xs)
    then show ?case by simp
  qed simp
  finally show ?thesis .
qed

lemma unique_limits:
  assumes u: "unique_pass (length ss) [] ss = Inr u"
    and "length (concat ss) < 2 ^ 40" and "\<forall>s \<in> set ss. length s < 2 ^ 24" and "length ss \<le> 2 ^ 32"
  shows "dict_limits u"
proof -
  have set: "set u = set ss" using unique_pass_set [OF u] by simp
  have d: "distinct u" using unique_pass_distinct [OF u] by simp
  have "length u = card (set ss)" using d set distinct_card by metis
  then have "length u \<le> length ss" by (simp add: card_length)
  moreover have "sum_list (map length u) \<le> sum_list (map length ss)"
    by (rule sum_list_subset_le) (use d set in auto)
  ultimately show ?thesis using assms(2-4) set by (auto simp: dict_limits_def length_concat)
qed

section \<open>Looking up constants in a dictionary\<close>

text \<open>
  A dictionary column stores indices into a sorted dictionary without duplicates. Comparing
  indices is comparing strings, and the index of a constant is found by searching the dictionary.
\<close>

lemma inverse_dict_loop_finds:
  assumes "rmapM (entry_slice store) offs = Inr ss"
  shows "\<exists>r. inverse_dict_loop i offs store s = Inr r \<and>
    (if s \<in> set ss then \<exists>k < length ss. r = int (i + k) \<and> ss ! k = s else r = - 1)"
  using assms
proof (induction offs arbitrary: ss i)
  case (Cons off offs)
  then obtain x xs where x: "entry_slice store off = Inr x" "rmapM (entry_slice store) offs = Inr xs" "ss = x # xs"
    by auto
  show ?case
  proof (cases "x = s")
    case True
    with x show ?thesis by (auto intro: exI [of _ 0])
  next
    case False
    from Cons.IH [OF x(2), of "Suc i"] obtain r where r: "inverse_dict_loop (Suc i) offs store s = Inr r"
      "if s \<in> set xs then \<exists>k < length xs. r = int (Suc i + k) \<and> xs ! k = s else r = - 1" by blast
    show ?thesis
    proof (cases "s \<in> set xs")
      case True
      with r obtain k where "k < length xs" "r = int (Suc i + k)" "xs ! k = s" by auto
      then have "Suc k < length ss \<and> r = int (i + Suc k) \<and> ss ! Suc k = s" using x by simp
      with x False True r show ?thesis by auto
    qed (use x False r in auto)
  qed
qed auto

lemma inverse_dict_lookup_code:
  assumes h: "ips_holds p mapping" and d: "distinct mapping" and i: "i < length mapping"
  shows "\<exists>r. inverse_dict_lookup_execute (ips_data p) (ips_backing_store p) s = Inr r \<and>
    (r = int i \<longleftrightarrow> mapping ! i = s)"
proof -
  have "rmapM (entry_slice (ips_backing_store p)) (ips_data p) = Inr mapping"
    using ips_holds_iter [OF h] by (simp add: ips_iter_def)
  from inverse_dict_loop_finds [OF this, of 0 s] obtain r where
    r: "inverse_dict_loop 0 (ips_data p) (ips_backing_store p) s = Inr r"
    "if s \<in> set mapping then \<exists>k < length mapping. r = int (0 + k) \<and> mapping ! k = s else r = - 1" by blast
  moreover have "r = int i \<longleftrightarrow> mapping ! i = s"
    using r(2) i d by (auto simp: nth_eq_iff_index_eq split: if_splits)
  ultimately show ?thesis by (auto simp: inverse_dict_lookup_execute_def)
qed

lemma dictionary_order:
  assumes "distinct u" "i < length u" "j < length u"
  shows "sort u ! i < sort u ! j \<longleftrightarrow> i < j"
proof -
  have s: "sorted_wrt (<) (sort u)" using assms(1) by (simp add: strict_sorted_iff)
  show ?thesis
    using sorted_wrt_nth_less [OF s, of i j] sorted_wrt_nth_less [OF s, of j i] assms
    by (metis length_sort less_asym' linorder_neqE_nat order_less_irrefl)
qed

section \<open>Built columns read back\<close>

lemma int_builder_reads:
  assumes "lz4_lossless ext" and "\<forall>v \<in> set (map present_or_zero xs). in_i64 v"
    and "present = None \<or> nulls_supported (ib_min (int_builder_of xs)) (ib_max (int_builder_of xs))"
  shows "\<exists>c. int_builder_finalize ext (int_builder_of xs) name present = Inr c \<and>
    read_column ext c = Inr (with_present present (VI64 (map present_or_zero xs))) \<and>
    col_len c = length xs \<and> col_name c = name"
proof -
  note st = int_builder_state [OF assms(2)]
  have "\<forall>v \<in> set (ib_data (int_builder_of xs)). in_i64 v \<and> ib_min (int_builder_of xs) \<le> v \<and>
      v \<le> ib_max (int_builder_of xs)"
    using st assms(2) by auto
  moreover have "length (ib_data (int_builder_of xs)) = length xs" using st by simp
  ultimately show ?thesis
    unfolding int_builder_finalize_def Let_def
    using st integer_column_reads [OF assms(1) _ _ _ , where null = present and name = name] assms(3) by metis
qed

lemma string_builder_reads:
  assumes "lz4_lossless ext" and "hex_ok ext"
    and "length (concat ss) < 2 ^ 40" and "\<forall>s \<in> set ss. length s < 2 ^ 24" and "length ss \<le> 2 ^ 32"
  shows "\<exists>c. string_builder_finalize ext (string_builder_of ss) name None = Inr c \<and>
    read_column ext c = Inr (Plain (VStr ss)) \<and> col_len c = length ss \<and> col_name c = name"
proof -
  note st = string_builder_state [of ss]
  have h: "ips_holds (ips_from_list ss) ss" using assms(3,4) by (rule ips_holds_from_list)
  have "dict_limits u" if u: "unique_pass (length ss) [] ss = Inr u" for u
    using unique_limits [OF u] assms(3-5) by blast
  then have "\<exists>c. fast_build_string_column ext name ss (length ss) (sb_lhex (string_builder_of ss))
      (sb_uhex (string_builder_of ss)) (sb_string_bytes (string_builder_of ss)) None = Inr c \<and>
    read_column ext c = Inr (Plain (VStr ss)) \<and> col_len c = length ss \<and> col_name c = name"
    by (intro string_column_reads) (use assms(1,2) st in auto)
  then show ?thesis
    using h st ips_holds_iter [OF h] ips_holds_length [OF h]
    by (simp add: string_builder_finalize_def ips_len_def)
qed

section \<open>Main results\<close>



text \<open>
  C40. A nullable integer column whose values need two bytes is written without complaint, but reading
  it fails: \<open>operator::nullable\<close> knows one and eight byte vectors only.
\<close>

theorem nullable_two_byte_column_unreadable:
  assumes "\<not> enable_lz4 ext" and "in_i64 mn" and "in_i64 mx"
    and "\<forall>v \<in> set vs. in_i64 v \<and> mn \<le> v \<and> v \<le> mx"
    and "\<not> fits 255 mn mx" and "fits 65535 mn mx"
  shows "\<exists>c. integer_column_new_boxed ext name vs mn mx False (Some present) = Inr c \<and>
    read_column ext c = Inl (Fail (FatalError ''nullable not implemented''))"
  using assms by (rule nullable_wide_column_unreadable)

theorem nullable_two_byte_column_unreadable_witness:
  "\<exists>ext c. integer_column_new_boxed ext ''n'' [0, 1000] 0 1000 False (Some [1]) = Inr c \<and>
    read_column ext c = Inl (Fail (FatalError ''nullable not implemented''))"
proof -
  let ?ext = "\<lparr>enable_lz4 = False, lz4_frame = (\<lambda>b. b), lz4_unframe = (\<lambda>b. b),
      hex_decode = Some, hex_encode = (\<lambda>b. b), hex_encode_upper = (\<lambda>b. b)\<rparr> :: externs"
  have "\<exists>c. integer_column_new_boxed ?ext ''n'' [0, 1000] 0 1000 False (Some [1]) = Inr c \<and>
      read_column ?ext c = Inl (Fail (FatalError ''nullable not implemented''))"
    by (rule nullable_two_byte_column_unreadable)
      (simp_all add: fits_def value_interval_def i64_bounds)
  then show ?thesis by blast
qed

text \<open>
  A float column with a null map cannot be built at all: the codec of the column asks for the
  nullable type of \<open>F64\<close>, which \<open>EncodingType::nullable\<close> does not know.
\<close>

theorem nullable_float_column_fails:
  "float_column_new_boxed ext name values (Some present) = Inl Panicked"
  by (rule nullable_float_column_panics)

end
