(* ===== verification/Ingestion.thy ===== *)
theory Ingestion
  imports Column_Builders
begin

text \<open>
  Ingestion of rows: the values of src/src/ingest/raw_val.rs, the columns of mixed type of
  src/src/mem_store/raw_col.rs that collect them, and the buffer of src/src/ingest/buffer.rs that
  keeps the columns of one table at equal length until they are turned into a partition.

  A \<open>HashMap\<close> argument is an association list with distinct keys, in the order its iterator takes.
  How floats are converted from integers and printed is a parameter: the rest of the development
  carries a float as its bit pattern.
\<close>

section \<open>Raw values\<close>

datatype RawVal = RawInt i64 | RawFloat f64 | RawStr rstr | RawNull

fun raw_get_type :: "RawVal \<Rightarrow> BasicType" where
  "raw_get_type (RawInt _) = BInteger"
| "raw_get_type (RawStr _) = BString"
| "raw_get_type RawNull = BNull"
| "raw_get_type (RawFloat _) = BFloat"

record float_ops =
  i64_as_f64 :: "i64 \<Rightarrow> f64"
  f64_to_string :: "f64 \<Rightarrow> rstr"

text \<open>\<open>i64::to_string\<close>: decimal digits (48 is '0', 45 is '-').\<close>

fun nat_digits :: "nat \<Rightarrow> rstr" where
  "nat_digits n = (if n < 10 then [of_nat (48 + n)] else nat_digits (n div 10) @ [of_nat (48 + n mod 10)])"

declare nat_digits.simps [simp del]

definition i64_to_string :: "i64 \<Rightarrow> rstr" where
  "i64_to_string i = (if i < 0 then 45 # nat_digits (nat (- i)) else nat_digits (nat i))"

section \<open>Column types\<close>

record ColType =
  contains_string :: bool
  contains_int :: bool
  contains_float :: bool
  contains_null :: bool

definition coltype_new :: "bool \<Rightarrow> bool \<Rightarrow> bool \<Rightarrow> bool \<Rightarrow> ColType" where
  "coltype_new s i f n = \<lparr>contains_string = s, contains_int = i, contains_float = f, contains_null = n\<rparr>"

definition coltype_string :: ColType where "coltype_string = coltype_new True False False False"
definition coltype_int :: ColType where "coltype_int = coltype_new False True False False"
definition coltype_float :: ColType where "coltype_float = coltype_new False False True False"
definition coltype_null :: ColType where "coltype_null = coltype_new False False False True"
definition coltype_nothing :: ColType where "coltype_nothing = coltype_new False False False False"

fun coltype_determine :: "RawVal \<Rightarrow> ColType" where
  "coltype_determine RawNull = coltype_null"
| "coltype_determine (RawStr _) = coltype_string"
| "coltype_determine (RawInt _) = coltype_int"
| "coltype_determine (RawFloat _) = coltype_float"

definition coltype_bitor :: "ColType \<Rightarrow> ColType \<Rightarrow> ColType" where
  "coltype_bitor a b =
     \<lparr>contains_string = contains_string a \<or> contains_string b,
      contains_int = contains_int a \<or> contains_int b,
      contains_float = contains_float a \<or> contains_float b,
      contains_null = contains_null a \<or> contains_null b\<rparr>"

lemmas coltype_defs = coltype_new_def coltype_string_def coltype_int_def coltype_float_def
  coltype_null_def coltype_nothing_def coltype_bitor_def

section \<open>Columns of mixed type\<close>

record MixedCol =
  mc_types :: ColType
  mc_data :: "RawVal list"

definition mixed_default :: MixedCol where
  "mixed_default = \<lparr>mc_types = coltype_nothing, mc_data = []\<rparr>"

definition mixed_push :: "MixedCol \<Rightarrow> RawVal \<Rightarrow> MixedCol" where
  "mixed_push c elem =
     c\<lparr>mc_types := coltype_bitor (mc_types c) (coltype_determine elem), mc_data := mc_data c @ [elem]\<rparr>"

definition mixed_push_ints :: "MixedCol \<Rightarrow> i64 list \<Rightarrow> MixedCol" where
  "mixed_push_ints c ints =
     c\<lparr>mc_types := coltype_bitor (mc_types c) coltype_int, mc_data := mc_data c @ map RawInt ints\<rparr>"

definition mixed_push_floats :: "MixedCol \<Rightarrow> f64 list \<Rightarrow> MixedCol" where
  "mixed_push_floats c floats =
     c\<lparr>mc_types := coltype_bitor (mc_types c) coltype_float, mc_data := mc_data c @ map RawFloat floats\<rparr>"

definition mixed_push_strings :: "MixedCol \<Rightarrow> rstr list \<Rightarrow> MixedCol" where
  "mixed_push_strings c strs =
     c\<lparr>mc_types := coltype_bitor (mc_types c) coltype_string, mc_data := mc_data c @ map RawStr strs\<rparr>"

definition mixed_push_nulls :: "MixedCol \<Rightarrow> nat \<Rightarrow> MixedCol" where
  "mixed_push_nulls c cnt =
     c\<lparr>mc_types := coltype_bitor (mc_types c) coltype_null, mc_data := mc_data c @ replicate cnt RawNull\<rparr>"

definition mixed_with_nulls :: "nat \<Rightarrow> MixedCol" where
  "mixed_with_nulls cnt = mixed_push_nulls mixed_default cnt"

definition mixed_len :: "MixedCol \<Rightarrow> nat" where
  "mixed_len c = length (mc_data c)"

text \<open>The bodies of the three loops of \<open>finalize\<close>: what is pushed into the builder for a value.\<close>

fun string_elem :: "float_ops \<Rightarrow> RawVal \<Rightarrow> rstr" where
  "string_elem fo (RawStr s) = s"
| "string_elem fo (RawInt i) = i64_to_string i"
| "string_elem fo RawNull = []"
| "string_elem fo (RawFloat f) = f64_to_string fo f"

fun float_elem :: "float_ops \<Rightarrow> RawVal \<Rightarrow> f64 option res" where
  "float_elem fo (RawStr _) = Inl Panicked"
| "float_elem fo (RawInt i) = Inr (Some (i64_as_f64 fo i))"
| "float_elem fo RawNull = Inr None"
| "float_elem fo (RawFloat f) = Inr (Some f)"

fun int_elem :: "RawVal \<Rightarrow> i64 option res" where
  "int_elem (RawStr _) = Inl Panicked"
| "int_elem (RawInt i) = Inr (Some i)"
| "int_elem RawNull = Inr None"
| "int_elem (RawFloat _) = Inl Panicked"

definition mixed_finalize :: "externs \<Rightarrow> float_ops \<Rightarrow> MixedCol \<Rightarrow> string \<Rightarrow> Column res" where
  "mixed_finalize ext fo c name =
     (if contains_string (mc_types c)
      then string_builder_finalize ext
             (foldl (\<lambda>b v. string_builder_push b (string_elem fo v)) string_builder_default (mc_data c)) name None
      else if contains_float (mc_types c)
      then rbind (rfoldM (\<lambda>b v. rmap (float_builder_push b) (float_elem fo v)) [] (mc_data c)) (\<lambda>b.
             float_builder_finalize ext b name None)
      else if contains_int (mc_types c)
      then rbind (rfoldM (\<lambda>b v. rmap (int_builder_push b) (int_elem v)) int_builder_default (mc_data c)) (\<lambda>b.
             int_builder_finalize ext b name None)
      else Inr (column_null name (length (mc_data c))))"

section \<open>The buffer of a table\<close>

datatype InputColumn =
    InputInt "i64 list"
  | InputFloat "f64 list"
  | InputStr "rstr list"
  | InputNull nat

record Buffer =
  bf_buffer :: "string \<rightharpoonup> MixedCol"
  bf_length :: nat

definition buffer_default :: Buffer where
  "buffer_default = \<lparr>bf_buffer = Map.empty, bf_length = 0\<rparr>"

text \<open>\<open>entry(name).or_insert_with(|| MixedCol::with_nulls(len))\<close> followed by an update in place.\<close>

definition entry_update ::
    "(string \<rightharpoonup> MixedCol) \<Rightarrow> string \<Rightarrow> nat \<Rightarrow> (MixedCol \<Rightarrow> MixedCol) \<Rightarrow> (string \<rightharpoonup> MixedCol)" where
  "entry_update m name len f =
     m(name \<mapsto> f (case m name of Some c \<Rightarrow> c | None \<Rightarrow> mixed_with_nulls len))"

definition extend_col :: "nat \<Rightarrow> MixedCol \<Rightarrow> MixedCol" where
  "extend_col target_length c =
     (if mixed_len c < target_length then mixed_push_nulls c (target_length - mixed_len c) else c)"

definition extend_to_largest :: "Buffer \<Rightarrow> Buffer" where
  "extend_to_largest b =
     b\<lparr>bf_buffer := (\<lambda>name. map_option (extend_col (bf_length b)) (bf_buffer b name))\<rparr>"

definition buffer_push_row :: "Buffer \<Rightarrow> (string \<times> RawVal) list \<Rightarrow> Buffer" where
  "buffer_push_row b row =
     extend_to_largest
       (b\<lparr>bf_buffer := foldl (\<lambda>m (name, v). entry_update m name (bf_length b) (\<lambda>c. mixed_push c v))
             (bf_buffer b) row,
          bf_length := bf_length b + 1\<rparr>)"

fun push_input :: "MixedCol \<Rightarrow> InputColumn \<Rightarrow> MixedCol" where
  "push_input c (InputInt vec) = mixed_push_ints c vec"
| "push_input c (InputStr vec) = mixed_push_strings c vec"
| "push_input c (InputFloat vec) = mixed_push_floats c vec"
| "push_input c (InputNull n) = mixed_push_nulls c n"

text \<open>The loop shared by the two column-wise operations: push a column and take the longest.\<close>

definition push_cols ::
    "nat \<Rightarrow> (MixedCol \<Rightarrow> 'c \<Rightarrow> MixedCol) \<Rightarrow> (string \<rightharpoonup> MixedCol) \<times> nat \<Rightarrow> (string \<times> 'c) list \<Rightarrow>
     (string \<rightharpoonup> MixedCol) \<times> nat" where
  "push_cols len push = foldl (\<lambda>(m, new_length) (name, input).
     let m' = entry_update m name len (\<lambda>c. push c input)
     in (m', max new_length (mixed_len (the (m' name)))))"

definition buffer_push_typed_cols :: "Buffer \<Rightarrow> (string \<times> InputColumn) list \<Rightarrow> Buffer" where
  "buffer_push_typed_cols b columns =
     (let (m, new_length) = push_cols (bf_length b) push_input (bf_buffer b, 0) columns
      in extend_to_largest (b\<lparr>bf_buffer := m, bf_length := new_length\<rparr>))"

definition buffer_push_untyped_cols :: "Buffer \<Rightarrow> (string \<times> RawVal list) list \<Rightarrow> Buffer" where
  "buffer_push_untyped_cols b columns =
     (let (m, new_length) = push_cols (bf_length b) (foldl mixed_push) (bf_buffer b, 0) columns
      in extend_to_largest (b\<lparr>bf_buffer := m, bf_length := new_length\<rparr>))"

section \<open>Types cover the data\<close>

definition covers :: "ColType \<Rightarrow> RawVal \<Rightarrow> bool" where
  "covers t v \<longleftrightarrow> coltype_bitor t (coltype_determine v) = t"

definition mixed_ok :: "MixedCol \<Rightarrow> bool" where
  "mixed_ok c \<longleftrightarrow> (\<forall>v \<in> set (mc_data c). covers (mc_types c) v)"

lemma coltype_bitor_assoc: "coltype_bitor (coltype_bitor a b) c = coltype_bitor a (coltype_bitor b c)"
  by (simp add: coltype_bitor_def disj_assoc)

lemma coltype_bitor_commute: "coltype_bitor a b = coltype_bitor b a"
  by (simp add: coltype_bitor_def disj_commute)

lemma coltype_bitor_idem [simp]: "coltype_bitor a a = a"
  by (simp add: coltype_bitor_def)

lemma covers_bitor: "covers t v \<Longrightarrow> covers (coltype_bitor t u) v"
  unfolding covers_def by (metis coltype_bitor_assoc coltype_bitor_commute)

lemma covers_own: "covers (coltype_bitor t (coltype_determine v)) v"
  unfolding covers_def by (simp add: coltype_bitor_assoc)

lemmas mixed_push_defs = mixed_push_def mixed_push_ints_def mixed_push_floats_def mixed_push_strings_def
  mixed_push_nulls_def

lemma mixed_ok_default [simp]: "mixed_ok mixed_default"
  by (simp add: mixed_ok_def mixed_default_def)

lemma mixed_ok_push [simp]: "mixed_ok c \<Longrightarrow> mixed_ok (mixed_push c v)"
  by (auto simp: mixed_ok_def mixed_push_def covers_own intro: covers_bitor)

lemma mixed_ok_push_nulls [simp]: "mixed_ok c \<Longrightarrow> mixed_ok (mixed_push_nulls c n)"
  using covers_own [of "mc_types c" RawNull]
  by (auto simp: mixed_ok_def mixed_push_nulls_def intro: covers_bitor)

lemma mixed_ok_push_input [simp]: "mixed_ok c \<Longrightarrow> mixed_ok (push_input c input)"
  using covers_own [of "mc_types c" "RawInt i" for i] covers_own [of "mc_types c" "RawStr s" for s]
    covers_own [of "mc_types c" "RawFloat f" for f] covers_own [of "mc_types c" RawNull]
  by (cases input) (auto simp: mixed_ok_def mixed_push_defs covers_bitor)

lemma mixed_ok_foldl_push [simp]: "mixed_ok c \<Longrightarrow> mixed_ok (foldl mixed_push c vs)"
  by (induction vs arbitrary: c) auto

lemma mixed_ok_with_nulls [simp]: "mixed_ok (mixed_with_nulls n)"
  by (simp add: mixed_with_nulls_def)

section \<open>Equal length\<close>

text \<open>
  The invariant of the buffer: every column is as long as the buffer and knows the types of its
  values. The contents of a column that is not there yet are nulls.
\<close>

definition buffer_ok :: "Buffer \<Rightarrow> bool" where
  "buffer_ok b \<longleftrightarrow> (\<forall>name c. bf_buffer b name = Some c \<longrightarrow> mixed_ok c \<and> mixed_len c = bf_length b)"

definition column_values :: "Buffer \<Rightarrow> string \<Rightarrow> RawVal list" where
  "column_values b name =
     (case bf_buffer b name of Some c \<Rightarrow> mc_data c | None \<Rightarrow> replicate (bf_length b) RawNull)"

definition padded :: "nat \<Rightarrow> RawVal list \<Rightarrow> RawVal list" where
  "padded n vs = vs @ replicate (n - length vs) RawNull"

lemma buffer_ok_default: "buffer_ok buffer_default"
  by (simp add: buffer_ok_def buffer_default_def)

lemma column_values_default [simp]: "column_values buffer_default name = []"
  by (simp add: column_values_def buffer_default_def)

lemma length_column_values: "buffer_ok b \<Longrightarrow> length (column_values b name) = bf_length b"
  by (auto simp: buffer_ok_def column_values_def mixed_len_def split: option.split)

lemma extend_col_data: "mixed_len c \<le> n \<Longrightarrow> mc_data (extend_col n c) = padded n (mc_data c)"
  by (simp add: extend_col_def mixed_push_nulls_def padded_def mixed_len_def)

lemma extend_col_ok: "mixed_ok c \<Longrightarrow> mixed_ok (extend_col n c)"
  by (simp add: extend_col_def)

lemma length_padded: "length vs \<le> n \<Longrightarrow> length (padded n vs) = n"
  by (simp add: padded_def)

lemma extend_to_largest_spec:
  assumes "\<And>name c. bf_buffer b name = Some c \<Longrightarrow> mixed_ok c \<and> mixed_len c \<le> bf_length b"
  shows "buffer_ok (extend_to_largest b)" and "bf_length (extend_to_largest b) = bf_length b"
    and "column_values (extend_to_largest b) name =
      (case bf_buffer b name of Some c \<Rightarrow> padded (bf_length b) (mc_data c)
       | None \<Rightarrow> replicate (bf_length b) RawNull)"
proof -
  have "mixed_ok (extend_col (bf_length b) c) \<and> mixed_len (extend_col (bf_length b) c) = bf_length b"
    if "bf_buffer b n = Some c" for n c
    using assms [OF that] by (simp add: extend_col_ok extend_col_data mixed_len_def length_padded)
  then show "buffer_ok (extend_to_largest b)" by (auto simp: extend_to_largest_def buffer_ok_def)
  show "bf_length (extend_to_largest b) = bf_length b" by (simp add: extend_to_largest_def)
  show "column_values (extend_to_largest b) name =
      (case bf_buffer b name of Some c \<Rightarrow> padded (bf_length b) (mc_data c)
       | None \<Rightarrow> replicate (bf_length b) RawNull)"
    using assms by (auto simp: column_values_def extend_to_largest_def extend_col_data split: option.split)
qed

definition longest :: "('c \<Rightarrow> RawVal list) \<Rightarrow> (string \<times> 'c) list \<Rightarrow> nat" where
  "longest vals cols = foldl max 0 (map (\<lambda>(name, x). length (vals x)) cols)"

text \<open>
  What the operations rely on: pushing appends the values of its input and keeps the types right.
\<close>

locale column_push =
  fixes push :: "MixedCol \<Rightarrow> 'c \<Rightarrow> MixedCol" and vals :: "'c \<Rightarrow> RawVal list"
  assumes push_ok: "mixed_ok c \<Longrightarrow> mixed_ok (push c x)"
    and push_data: "mc_data (push c x) = mc_data c @ vals x"
begin

lemma foldl_entry_other:
  "name \<notin> fst ` set cols \<Longrightarrow>
   foldl (\<lambda>m (name, x). entry_update m name len (\<lambda>c. push c x)) m cols name = m name"
  by (induction cols arbitrary: m) (auto simp: entry_update_def)

lemma foldl_entry:
  "distinct (map fst cols) \<Longrightarrow>
   foldl (\<lambda>m (name, x). entry_update m name len (\<lambda>c. push c x)) m cols name =
     (case map_of cols name of
        None \<Rightarrow> m name
      | Some x \<Rightarrow> Some (push (case m name of Some c \<Rightarrow> c | None \<Rightarrow> mixed_with_nulls len) x))"
proof (induction cols arbitrary: m)
  case (Cons nx cols)
  obtain n x where nx: "nx = (n, x)" by (cases nx)
  show ?case
  proof (cases "name = n")
    case True
    with Cons.prems nx have "name \<notin> fst ` set cols" by auto
    with True nx show ?thesis by (simp add: foldl_entry_other) (simp add: entry_update_def)
  next
    case False
    have "entry_update m n len (\<lambda>c. push c x) name = m name" using False by (simp add: entry_update_def)
    with Cons nx False show ?thesis by (simp split: option.split)
  qed
qed simp

text \<open>
  Pushing columns with distinct names into a buffer of equal length: the new length is the longest
  of the pushed columns, and each column gets the values pushed for it.
\<close>

lemma push_cols_fst:
  "fst (push_cols len push (m, n) cols) = foldl (\<lambda>m (name, x). entry_update m name len (\<lambda>c. push c x)) m cols"
  by (induction cols arbitrary: m n) (auto simp: push_cols_def Let_def)

lemma entry_base:
  assumes "buffer_ok b"
  shows "mixed_ok (case bf_buffer b name of Some c \<Rightarrow> c | None \<Rightarrow> mixed_with_nulls (bf_length b))"
    and "mc_data (case bf_buffer b name of Some c \<Rightarrow> c | None \<Rightarrow> mixed_with_nulls (bf_length b)) = column_values b name"
proof -
  show "mixed_ok (case bf_buffer b name of Some c \<Rightarrow> c | None \<Rightarrow> mixed_with_nulls (bf_length b))"
    using assms by (auto simp: buffer_ok_def split: option.split)
  show "mc_data (case bf_buffer b name of Some c \<Rightarrow> c | None \<Rightarrow> mixed_with_nulls (bf_length b)) = column_values b name"
    by (simp add: column_values_def mixed_with_nulls_def mixed_push_nulls_def mixed_default_def split: option.split)
qed

lemma pushed_column:
  assumes b: "buffer_ok b" and "distinct (map fst cols)"
    and m: "m = foldl (\<lambda>m (name, x). entry_update m name (bf_length b) (\<lambda>c. push c x)) (bf_buffer b) cols"
  shows "m name = Some c \<Longrightarrow> mixed_ok c \<and> mc_data c = column_values b name @
      (case map_of cols name of Some x \<Rightarrow> vals x | None \<Rightarrow> [])"
    and "m name = None \<Longrightarrow> bf_buffer b name = None \<and> map_of cols name = None"
  using entry_base [OF b, of name] b unfolding m foldl_entry [OF assms(2)]
  by (auto simp: push_ok push_data buffer_ok_def column_values_def split: option.splits)

lemma foldl_max_le: "foldl max n xs \<le> k \<longleftrightarrow> n \<le> k \<and> (\<forall>x \<in> set xs. x \<le> (k :: nat))"
  by (induction xs arbitrary: n) auto

lemma length_vals_longest: "map_of cols name = Some x \<Longrightarrow> length (vals x) \<le> longest vals cols"
  using foldl_max_le [of 0 "map (\<lambda>(name, x). length (vals x)) cols" "longest vals cols"]
  by (auto simp: longest_def dest!: map_of_SomeD)

lemma push_cols_snd:
  assumes "distinct (map fst cols)"
    and "\<And>name. name \<in> fst ` set cols \<Longrightarrow>
      mixed_len (case m name of Some c \<Rightarrow> c | None \<Rightarrow> mixed_with_nulls len) = k"
  shows "snd (push_cols len push (m, n) cols) = foldl max n (map (\<lambda>(name, x). k + length (vals x)) cols)"
  using assms
proof (induction cols arbitrary: m n)
  case (Cons nx cols)
  obtain name x where nx: "nx = (name, x)" by (cases nx)
  let ?m = "entry_update m name len (\<lambda>c. push c x)"
  have len: "mixed_len (the (?m name)) = k + length (vals x)"
    using Cons.prems(2) [of name] nx by (simp add: entry_update_def mixed_len_def push_data)
  have "snd (push_cols len push (?m, max n (k + length (vals x))) cols) =
      foldl max (max n (k + length (vals x))) (map (\<lambda>(name, x). k + length (vals x)) cols)"
  proof (rule Cons.IH)
    show "distinct (map fst cols)" using Cons.prems(1) by simp
    fix other assume "other \<in> fst ` set cols"
    with Cons.prems nx have "other \<noteq> name" "other \<in> fst ` set (nx # cols)" by auto
    then show "mixed_len (case ?m other of Some c \<Rightarrow> c | None \<Rightarrow> mixed_with_nulls len) = k"
      using Cons.prems(2) [of other] by (simp add: entry_update_def)
  qed
  with nx len show ?case by (simp add: push_cols_def Let_def)
qed (simp add: push_cols_def)

lemma foldl_max_shift: "foldl max (k + n) (map ((+) k) xs) = k + foldl max n (xs :: nat list)"
  by (induction xs arbitrary: n) (simp_all add: max_add_distrib_right flip: max_add_distrib_right)

lemma push_cols_length:
  assumes b: "buffer_ok b" and "distinct (map fst cols)" and "cols \<noteq> []"
  shows "snd (push_cols (bf_length b) push (bf_buffer b, 0) cols) = bf_length b + longest vals cols"
proof -
  have "mixed_len (case bf_buffer b name of Some c \<Rightarrow> c | None \<Rightarrow> mixed_with_nulls (bf_length b)) = bf_length b" for name
    using entry_base(2) [OF b, of name] length_column_values [OF b] by (simp add: mixed_len_def)
  from push_cols_snd [OF assms(2) this, where n = 0]
  have "snd (push_cols (bf_length b) push (bf_buffer b, 0) cols) =
      foldl max 0 (map ((+) (bf_length b)) (map (\<lambda>(name, x). length (vals x)) cols))"
    by (simp add: comp_def split_def)
  also have "\<dots> = foldl max (bf_length b + 0) (map ((+) (bf_length b)) (map (\<lambda>(name, x). length (vals x)) cols))"
    using assms(3) by (cases cols) auto
  finally show ?thesis by (simp only: foldl_max_shift longest_def)
qed

lemma push_cols_spec:
  assumes b: "buffer_ok b" and d: "distinct (map fst cols)" and "cols \<noteq> []"
    and r: "push_cols (bf_length b) push (bf_buffer b, 0) cols = (m, n)"
  defines "b' \<equiv> extend_to_largest (b\<lparr>bf_buffer := m, bf_length := n\<rparr>)"
  shows "buffer_ok b'" and "bf_length b' = bf_length b + longest vals cols"
    and "column_values b' name = column_values b name @
      padded (longest vals cols) (case map_of cols name of Some x \<Rightarrow> vals x | None \<Rightarrow> [])"
proof -
  have n: "n = bf_length b + longest vals cols" using push_cols_length [OF b d assms(3)] r by simp
  have m: "m = foldl (\<lambda>m (name, x). entry_update m name (bf_length b) (\<lambda>c. push c x)) (bf_buffer b) cols"
    using push_cols_fst [of "bf_length b" "bf_buffer b" 0 cols] r by simp
  let ?b = "b\<lparr>bf_buffer := m, bf_length := n\<rparr>"
  have cols: "mixed_ok c \<and> mc_data c = column_values b k @ (case map_of cols k of Some x \<Rightarrow> vals x | None \<Rightarrow> []) \<and>
      mixed_len c \<le> n" if "m k = Some c" for k c
    using pushed_column(1) [OF b d m that] length_column_values [OF b, of k] length_vals_longest [of cols k]
    by (auto simp: mixed_len_def n split: option.splits)
  then have "mixed_ok c \<and> mixed_len c \<le> bf_length ?b" if "bf_buffer ?b k = Some c" for k c using that by simp
  note e = extend_to_largest_spec [of ?b, OF this, folded b'_def]
  show "buffer_ok b'" by (rule e(1))
  show "bf_length b' = bf_length b + longest vals cols" using e(2) n by simp
  show "column_values b' name = column_values b name @
      padded (longest vals cols) (case map_of cols name of Some x \<Rightarrow> vals x | None \<Rightarrow> [])"
  proof (cases "m name")
    case None
    with pushed_column(2) [OF b d m] e(3) [where name = name] show ?thesis
      by (simp add: column_values_def padded_def n replicate_add)
  next
    case (Some c)
    with cols [OF Some] e(3) [where name = name] length_column_values [OF b, of name] show ?thesis
      by (simp add: padded_def n)
  qed
qed

end

interpretation row_push: column_push mixed_push "\<lambda>v. [v]"
  by unfold_locales (simp, simp add: mixed_push_def)

fun input_vals :: "InputColumn \<Rightarrow> RawVal list" where
  "input_vals (InputInt vec) = map RawInt vec"
| "input_vals (InputFloat vec) = map RawFloat vec"
| "input_vals (InputStr vec) = map RawStr vec"
| "input_vals (InputNull n) = replicate n RawNull"

interpretation typed_push: column_push push_input input_vals
proof unfold_locales
  show "mc_data (push_input c x) = mc_data c @ input_vals x" for c x
    by (cases x) (simp_all add: mixed_push_defs)
qed simp

interpretation untyped_push: column_push "foldl mixed_push" "\<lambda>vs. vs"
proof unfold_locales
  show "mc_data (foldl mixed_push c vs) = mc_data c @ vs" for c vs
    by (induction vs arbitrary: c) (simp_all add: mixed_push_def)
qed simp

section \<open>Finalizing a column\<close>

lemma rfoldM_push:
  assumes "\<And>v. v \<in> set vs \<Longrightarrow> elem v = Inr (g v)"
  shows "rfoldM (\<lambda>b v. rmap (push b) (elem v)) b vs = Inr (foldl push b (map g vs))"
  using assms by (induction vs arbitrary: b) auto

fun int_val :: "RawVal \<Rightarrow> i64 option" where
  "int_val (RawInt i) = Some i"
| "int_val _ = None"

fun float_val :: "float_ops \<Rightarrow> RawVal \<Rightarrow> f64" where
  "float_val fo (RawInt i) = i64_as_f64 fo i"
| "float_val fo (RawFloat f) = f"
| "float_val fo _ = 0"

lemma covers_cases:
  "covers t (RawStr s) \<Longrightarrow> contains_string t" "covers t (RawFloat f) \<Longrightarrow> contains_float t"
  "covers t (RawInt i) \<Longrightarrow> contains_int t"
  by (cases t, auto simp: covers_def coltype_defs)+

text \<open>What reading the finalized column gives.\<close>

definition mixed_values :: "float_ops \<Rightarrow> MixedCol \<Rightarrow> buf" where
  "mixed_values fo c =
     Plain (if contains_string (mc_types c) then VStr (map (string_elem fo) (mc_data c))
       else if contains_float (mc_types c) then VF64 (map (float_val fo) (mc_data c))
       else if contains_int (mc_types c) then VI64 (map (\<lambda>v. present_or_zero (int_val v)) (mc_data c))
       else VNull (length (mc_data c)))"

lemma finalize_int:
  assumes "mixed_ok c" and "\<not> contains_string (mc_types c)" and "\<not> contains_float (mc_types c)"
  shows "rfoldM (\<lambda>b v. rmap (int_builder_push b) (int_elem v)) int_builder_default (mc_data c) =
    Inr (int_builder_of (map int_val (mc_data c)))"
  unfolding int_builder_of_def
proof (rule rfoldM_push)
  fix v assume "v \<in> set (mc_data c)"
  with assms(1) have "covers (mc_types c) v" by (simp add: mixed_ok_def)
  with assms(2,3) show "int_elem v = Inr (int_val v)" by (cases v) (auto dest: covers_cases)
qed

lemma finalize_float:
  assumes "mixed_ok c" and "\<not> contains_string (mc_types c)"
  shows "rfoldM (\<lambda>b v. rmap (float_builder_push b) (float_elem fo v)) [] (mc_data c) =
    Inr (map (float_val fo) (mc_data c))"
proof -
  let ?g = "\<lambda>v. projr (float_elem fo v)"
  have "float_elem fo v = Inr (?g v)" if "v \<in> set (mc_data c)" for v
  proof -
    from that assms(1) have "covers (mc_types c) v" by (simp add: mixed_ok_def)
    with assms(2) show ?thesis by (cases v) (auto dest: covers_cases)
  qed
  then have "rfoldM (\<lambda>b v. rmap (float_builder_push b) (float_elem fo v)) [] (mc_data c) =
      Inr (foldl float_builder_push [] (map ?g (mc_data c)))" by (rule rfoldM_push)
  moreover have "foldl float_builder_push out (map ?g vs) = out @ map (float_val fo) vs"
    if "\<forall>v \<in> set vs. \<not> (\<exists>s. v = RawStr s)" for out vs
    using that
  proof (induction vs arbitrary: out)
    case (Cons v vs)
    then show ?case by (cases v) (auto simp: float_builder_push_def)
  qed simp
  moreover have "\<forall>v \<in> set (mc_data c). \<not> (\<exists>s. v = RawStr s)"
    using assms covers_cases(1) by (auto simp: mixed_ok_def)
  ultimately show ?thesis by simp
qed

lemma null_column_reads: "read_column ext (column_null name n) = Inr (Plain (VNull n))"
  by (simp add: read_column_def column_null_def codec_identity_def encoding_type_def decode_def decode_ops_def index_def)

lemma foldl_map_push: "foldl (\<lambda>b v. push b (f v)) b vs = foldl push b (map f vs)"
  by (induction vs arbitrary: b) auto

lemma mixed_finalize_reads:
  assumes ok: "mixed_ok c" and lz: "lz4_lossless ext" and hx: "hex_ok ext"
    and ints: "\<forall>v \<in> set (mc_data c). in_i64 (present_or_zero (int_val v))"
    and floats: "contains_string (mc_types c) \<or> \<not> contains_float (mc_types c) \<or> \<not> enable_lz4 ext"
    and strs: "contains_string (mc_types c) \<longrightarrow>
      length (concat (map (string_elem fo) (mc_data c))) < 2 ^ 40 \<and>
      (\<forall>v \<in> set (mc_data c). length (string_elem fo v) < 2 ^ 24) \<and> mixed_len c \<le> 2 ^ 32"
  shows "\<exists>col. mixed_finalize ext fo c name = Inr col \<and> read_column ext col = Inr (mixed_values fo c)"
proof -
  consider (str) "contains_string (mc_types c)" | (float) "\<not> contains_string (mc_types c)" "contains_float (mc_types c)"
    | (int) "\<not> contains_string (mc_types c)" "\<not> contains_float (mc_types c)" "contains_int (mc_types c)"
    | (none) "\<not> contains_string (mc_types c)" "\<not> contains_float (mc_types c)" "\<not> contains_int (mc_types c)" by blast
  then show ?thesis
  proof cases
    case str
    have "\<exists>col. string_builder_finalize ext (string_builder_of (map (string_elem fo) (mc_data c))) name None = Inr col \<and>
        read_column ext col = Inr (Plain (VStr (map (string_elem fo) (mc_data c)))) \<and>
        col_len col = length (map (string_elem fo) (mc_data c)) \<and> col_name col = name"
      by (rule string_builder_reads [OF lz hx]) (use strs str in \<open>auto simp: mixed_len_def\<close>)
    with str show ?thesis
      by (auto simp: mixed_finalize_def mixed_values_def string_builder_of_def foldl_map_push)
  next
    case float
    with floats float_column_reads [of ext name "map (float_val fo) (mc_data c)"] show ?thesis
      by (auto simp: mixed_finalize_def mixed_values_def finalize_float [OF ok float(1)] float_builder_finalize_def)
  next
    case int
    have "\<forall>v \<in> set (map present_or_zero (map int_val (mc_data c))). in_i64 v" using ints by auto
    from int_builder_reads [OF lz this, of None name] int show ?thesis
      by (auto simp: mixed_finalize_def mixed_values_def finalize_int [OF ok int(1,2)] comp_def)
  next
    case none
    then show ?thesis by (simp add: mixed_finalize_def mixed_values_def null_column_reads)
  qed
qed

section \<open>Main results\<close>

lemma push_row_spec:
  assumes b: "buffer_ok b" and d: "distinct (map fst row)"
  shows "buffer_ok (buffer_push_row b row)" and "bf_length (buffer_push_row b row) = bf_length b + 1"
    and "column_values (buffer_push_row b row) name =
      column_values b name @ [case map_of row name of Some v \<Rightarrow> v | None \<Rightarrow> RawNull]"
proof -
  let ?m = "foldl (\<lambda>m (name, v). entry_update m name (bf_length b) (\<lambda>c. mixed_push c v)) (bf_buffer b) row"
  let ?b = "b\<lparr>bf_buffer := ?m, bf_length := bf_length b + 1\<rparr>"
  note pushed = row_push.pushed_column [OF b d refl]
  have "mixed_ok c \<and> mixed_len c \<le> bf_length ?b" if "bf_buffer ?b k = Some c" for k c
    using pushed(1) [of k c] that length_column_values [OF b, of k]
    by (auto simp: mixed_len_def split: option.splits)
  note e = extend_to_largest_spec [of ?b, OF this]
  show "buffer_ok (buffer_push_row b row)" using e(1) by (simp add: buffer_push_row_def)
  show "bf_length (buffer_push_row b row) = bf_length b + 1" using e(2) by (simp add: buffer_push_row_def)
  show "column_values (buffer_push_row b row) name =
      column_values b name @ [case map_of row name of Some v \<Rightarrow> v | None \<Rightarrow> RawNull]"
  proof (cases "?m name")
    case None
    with pushed(2) [OF None] e(3) [where name = name] show ?thesis
      by (simp add: buffer_push_row_def column_values_def replicate_append_same)
  next
    case (Some c)
    with pushed(1) [OF Some] e(3) [where name = name] length_column_values [OF b, of name] show ?thesis
      by (auto simp: buffer_push_row_def padded_def split: option.splits)
  qed
qed

text \<open>
  C36. The buffer of a table keeps all its columns at equal length. Pushing a row appends the value the
  row has for a column, and a null for every column the row does not mention, also for columns that
  appear for the first time: their earlier rows are nulls.
\<close>

theorem push_row_correct:
  assumes "buffer_ok b" and "distinct (map fst row)"
  shows "buffer_ok (buffer_push_row b row) \<and> bf_length (buffer_push_row b row) = bf_length b + 1 \<and>
    (\<forall>name. column_values (buffer_push_row b row) name =
       column_values b name @ [case map_of row name of Some v \<Rightarrow> v | None \<Rightarrow> RawNull])"
  using push_row_spec [OF assms] by simp

theorem push_row_correct_witness:
  "buffer_ok (buffer_push_row buffer_default [(''a'', RawInt 1)]) \<and>
   column_values (buffer_push_row buffer_default [(''a'', RawInt 1)]) ''a'' = [RawInt 1] \<and>
   column_values (buffer_push_row buffer_default [(''a'', RawInt 1)]) ''b'' = [RawNull]"
  using push_row_correct [OF buffer_ok_default, of "[(''a'', RawInt 1)]"]
  by simp

text \<open>
  Pushing whole columns of different lengths (given as raw values) extends every column of the
  buffer by the longest of them, filling up with nulls, and keeps the columns at equal length.
\<close>

theorem push_untyped_cols_correct:
  assumes "buffer_ok b" and "distinct (map fst cols)" and "cols \<noteq> []"
  shows "buffer_ok (buffer_push_untyped_cols b cols) \<and>
    bf_length (buffer_push_untyped_cols b cols) = bf_length b + longest (\<lambda>vs. vs) cols \<and>
    (\<forall>name. column_values (buffer_push_untyped_cols b cols) name = column_values b name @
       padded (longest (\<lambda>vs. vs) cols) (case map_of cols name of Some vs \<Rightarrow> vs | None \<Rightarrow> []))"
proof -
  obtain m n where r: "push_cols (bf_length b) (foldl mixed_push) (bf_buffer b, 0) cols = (m, n)" by fastforce
  show ?thesis
    using untyped_push.push_cols_spec [OF assms r] by (simp add: buffer_push_untyped_cols_def r)
qed

theorem push_untyped_cols_correct_witness:
  "column_values (buffer_push_untyped_cols buffer_default [(''a'', [RawInt 1]), (''b'', [RawNull, RawInt 2])]) ''a''
     = [RawInt 1, RawNull]"
  using push_untyped_cols_correct [OF buffer_ok_default, of "[(''a'', [RawInt 1]), (''b'', [RawNull, RawInt 2])]"]
  by (simp add: longest_def padded_def)

text \<open>
  Pushing no columns at all truncates the buffer: its length becomes zero while its columns keep
  their rows, and the columns are no longer as long as the buffer.
\<close>

theorem push_no_columns_breaks_buffer:
  assumes "buffer_ok b" and "0 < bf_length b" and "bf_buffer b name = Some c"
  shows "bf_length (buffer_push_typed_cols b []) = 0 \<and>
    bf_buffer (buffer_push_typed_cols b []) name = Some c \<and> \<not> buffer_ok (buffer_push_typed_cols b [])"
proof -
  have "mixed_len c = bf_length b" using assms(1,3) by (simp add: buffer_ok_def)
  with assms(2) have "0 < mixed_len c" by simp
  with assms(3) show ?thesis
    by (auto simp: buffer_push_typed_cols_def push_cols_def extend_to_largest_def extend_col_def buffer_ok_def)
qed

theorem push_no_columns_breaks_buffer_witness:
  "\<not> buffer_ok (buffer_push_typed_cols (buffer_push_row buffer_default [(''a'', RawInt 1)]) [])"
proof -
  let ?b = "buffer_push_row buffer_default [(''a'', RawInt 1)]"
  have "buffer_ok ?b" by (rule push_row_spec(1) [OF buffer_ok_default]) simp
  moreover have "0 < bf_length ?b" using push_row_spec(2) [OF buffer_ok_default, of "[(''a'', RawInt 1)]"] by simp
  moreover have "\<exists>c. bf_buffer ?b ''a'' = Some c"
    by (simp add: buffer_push_row_def extend_to_largest_def entry_update_def)
  ultimately show ?thesis using push_no_columns_breaks_buffer by blast
qed



end
