(* ===== verification/Merging.thy ===== *)
theory Merging
  imports Bit_Vectors
begin

text \<open>
  Merging of sorted columns (src/src/engine/operators): comparator.rs, merge.rs, merge_keep.rs,
  merge_deduplicate.rs, merge_drop.rs and merge_aggregate.rs. These operators combine the results of
  two partitions: one column is merged by its order and the operations taken are recorded, the other
  columns replay them.

  The loops index two vectors with \<open>i\<close> and \<open>j\<close>, which only ever grow by one; the model passes the
  suffixes from \<open>i\<close> and \<open>j\<close> on instead. A limit is passed as what is left of it.
\<close>

section \<open>comparator.rs\<close>

record 'a Comparator =
  cmp :: "'a \<Rightarrow> 'a \<Rightarrow> bool"
  cmp_eq :: "'a \<Rightarrow> 'a \<Rightarrow> bool"
  is_less_than :: bool

text \<open>
  \<open>CmpLessThan\<close> is the same code for all element types except for \<open>is_less_than\<close>, which is false
  for \<open>u64\<close> and for floats.
\<close>

definition CmpLessThan :: "'a::linorder Comparator" where
  "CmpLessThan = \<lparr>cmp = (\<lambda>left right. left < right), cmp_eq = (\<lambda>left right. left \<le> right), is_less_than = True\<rparr>"

definition CmpLessThan_u64 :: "u64 Comparator" where
  "CmpLessThan_u64 =
     \<lparr>cmp = (\<lambda>left right. left < right), cmp_eq = (\<lambda>left right. left \<le> right), is_less_than = False\<rparr>"

definition CmpGreaterThan :: "'a::linorder Comparator" where
  "CmpGreaterThan = \<lparr>cmp = (\<lambda>left right. left > right), cmp_eq = (\<lambda>left right. left \<ge> right), is_less_than = False\<rparr>"

locale comparator =
  fixes c :: "'a Comparator"
  assumes cmp_not_eq: "cmp c x y \<longleftrightarrow> \<not> cmp_eq c y x"
    and cmp_eq_total: "cmp_eq c x y \<or> cmp_eq c y x"
    and cmp_eq_trans: "cmp_eq c x y \<Longrightarrow> cmp_eq c y z \<Longrightarrow> cmp_eq c x z"
    and cmp_eq_antisym: "cmp_eq c x y \<Longrightarrow> cmp_eq c y x \<Longrightarrow> x = y"
begin

lemma cmp_eq_refl: "cmp_eq c x x"
  using cmp_eq_total by blast

lemma cmp_imp_eq: "cmp c x y \<Longrightarrow> cmp_eq c x y"
  using cmp_not_eq cmp_eq_total by blast

text \<open>A list sorted by a comparator is determined by its elements.\<close>

lemma sorted_unique:
  "sorted_wrt (cmp_eq c) xs \<Longrightarrow> sorted_wrt (cmp_eq c) ys \<Longrightarrow> mset xs = mset ys \<Longrightarrow> xs = ys"
proof (induction xs arbitrary: ys)
  case (Cons x xs)
  then obtain y zs where ys: "ys = y # zs" by (cases ys) auto
  from Cons.prems ys have "x \<in> set (y # zs)" "y \<in> set (x # xs)" by (metis mset_eq_setD list.set_intros(1))+
  with Cons.prems ys have "x = y" using cmp_eq_antisym by auto
  with Cons ys show ?case by auto
qed simp

end

interpretation less_than: comparator "CmpLessThan :: 'a::linorder Comparator"
  by unfold_locales (auto simp: CmpLessThan_def)

interpretation less_than_u64: comparator CmpLessThan_u64
  by unfold_locales (auto simp: CmpLessThan_u64_def)

interpretation greater_than: comparator "CmpGreaterThan :: 'a::linorder Comparator"
  by unfold_locales (auto simp: CmpGreaterThan_def)

section \<open>merge.rs\<close>

text \<open>The merged vector and the vector of operations grow together; here they are paired.\<close>

fun merge_loop :: "('a \<Rightarrow> 'a \<Rightarrow> bool) \<Rightarrow> 'a list \<Rightarrow> 'a list \<Rightarrow> nat \<Rightarrow> ('a \<times> u8) list" where
  "merge_loop lt (l # ls) (r # rs) (Suc k) =
     (if lt l r then (l, 1) # merge_loop lt ls (r # rs) k
      else (r, 0) # merge_loop lt (l # ls) rs k)"
| "merge_loop lt ls rs k = map (\<lambda>x. (x, 1)) (take k ls) @ map (\<lambda>x. (x, 0)) (take k rs)"

definition merge :: "'a Comparator \<Rightarrow> 'a list \<Rightarrow> 'a list \<Rightarrow> nat \<Rightarrow> 'a list \<times> u8 list" where
  "merge c left right limit =
     (let r = merge_loop (cmp c) left right limit in (map fst r, map snd r))"

section \<open>merge_keep.rs\<close>

fun merge_keep :: "u8 list \<Rightarrow> 'a list \<Rightarrow> 'a list \<Rightarrow> 'a list res" where
  "merge_keep [] left right = Inr []"
| "merge_keep (take_left # ops) left right =
     (if take_left = 1
      then (case left of l # ls \<Rightarrow> rmap ((#) l) (merge_keep ops ls right) | [] \<Rightarrow> Inl Panicked)
      else (case right of r # rs \<Rightarrow> rmap ((#) r) (merge_keep ops left rs) | [] \<Rightarrow> Inl Panicked))"

fun merge_keep_nullable_loop ::
    "u8 list \<Rightarrow> nat \<Rightarrow> nat \<Rightarrow> 'a list \<Rightarrow> 'a list \<Rightarrow> u8 list \<Rightarrow> u8 list \<Rightarrow> 'a list \<Rightarrow> u8 list \<Rightarrow>
     ('a list \<times> u8 list) res" where
  "merge_keep_nullable_loop [] i j left right lp rp result present = Inr (result, present)"
| "merge_keep_nullable_loop (take_left # ops) i j left right lp rp result present =
     (if take_left = 1
      then rbind (index left i) (\<lambda>x.
             merge_keep_nullable_loop ops (i + 1) j left right lp rp (result @ [x])
               (if bv_is_set lp i then bv_set present (i + j) else present))
      else rbind (index right j) (\<lambda>x.
             merge_keep_nullable_loop ops i (j + 1) left right lp rp (result @ [x])
               (if bv_is_set rp j then bv_set present (i + j) else present)))"

definition merge_keep_nullable ::
    "u8 list \<Rightarrow> 'a list \<Rightarrow> 'a list \<Rightarrow> u8 list \<Rightarrow> u8 list \<Rightarrow> ('a list \<times> u8 list) res" where
  "merge_keep_nullable ops left right left_present right_present =
     merge_keep_nullable_loop ops 0 0 left right left_present right_present [] []"

section \<open>merge_deduplicate.rs\<close>

datatype MergeOp = TakeLeft | TakeRight | MergeRight

text \<open>\<open>lst\<close> is \<open>result.last()\<close>. The last equation is the code after the loop.\<close>

fun dedup_loop :: "'a::linorder option \<Rightarrow> 'a list \<Rightarrow> 'a list \<Rightarrow> 'a list \<times> MergeOp list" where
  "dedup_loop lst (l # ls) (r # rs) =
     (if lst = Some r then
        (let (res, ops) = dedup_loop lst (l # ls) rs in (res, MergeRight # ops))
      else if l \<le> r then
        (let (res, ops) = dedup_loop (Some l) ls (r # rs) in (l # res, TakeLeft # ops))
      else
        (let (res, ops) = dedup_loop (Some r) (l # ls) rs in (r # res, TakeRight # ops)))"
| "dedup_loop lst ls rs =
     (let lst' = (if ls = [] then lst else Some (last ls)) in
      if rs \<noteq> [] \<and> lst' = Some (hd rs)
      then (ls @ tl rs,
            replicate (length ls) TakeLeft @ MergeRight # replicate (length (tl rs)) TakeRight)
      else (ls @ rs, replicate (length ls) TakeLeft @ replicate (length rs) TakeRight))"

definition merge_deduplicate :: "'a::linorder list \<Rightarrow> 'a list \<Rightarrow> 'a list \<times> MergeOp list" where
  "merge_deduplicate left right = dedup_loop None left right"

section \<open>merge_drop.rs\<close>

fun merge_drop :: "MergeOp list \<Rightarrow> 'a list \<Rightarrow> 'a list \<Rightarrow> 'a list res" where
  "merge_drop [] left right = Inr []"
| "merge_drop (TakeLeft # ops) left right =
     (case left of l # ls \<Rightarrow> rmap ((#) l) (merge_drop ops ls right) | [] \<Rightarrow> Inl Panicked)"
| "merge_drop (TakeRight # ops) left right =
     (case right of r # rs \<Rightarrow> rmap ((#) r) (merge_drop ops left rs) | [] \<Rightarrow> Inl Panicked)"
| "merge_drop (MergeRight # ops) left right = merge_drop ops left (tl right)"

section \<open>merge_aggregate.rs\<close>

datatype Aggregator = SumI64 | SumF64 | Count | MaxI64 | MaxF64 | MinI64 | MinF64

fun combine_i64 :: "Aggregator \<Rightarrow> i64 \<Rightarrow> i64 \<Rightarrow> i64 res" where
  "combine_i64 SumI64 a b =
     (case checked_i64 (a + b) of Some s \<Rightarrow> Inr s | None \<Rightarrow> Inl (Fail Overflow))"
| "combine_i64 Count a b = Inr (wrap_i64 (a + b))"
| "combine_i64 MaxI64 a b = Inr (max a b)"
| "combine_i64 MinI64 a b = Inr (min a b)"
| "combine_i64 _ a b = Inl (Fail (FatalError ''Unsupported aggregator for i64''))"

text \<open>The result vector is held back to front, so that \<open>result[last]\<close> is its head.\<close>

fun merge_aggregate_loop ::
    "('v \<Rightarrow> 'v \<Rightarrow> 'v res) \<Rightarrow> MergeOp list \<Rightarrow> 'v list \<Rightarrow> 'v list \<Rightarrow> 'v list \<Rightarrow> 'v list res" where
  "merge_aggregate_loop combine [] left right result = Inr (rev result)"
| "merge_aggregate_loop combine (TakeLeft # ops) left right result =
     (case left of l # ls \<Rightarrow> merge_aggregate_loop combine ops ls right (l # result) | [] \<Rightarrow> Inl Panicked)"
| "merge_aggregate_loop combine (TakeRight # ops) left right result =
     (case right of r # rs \<Rightarrow> merge_aggregate_loop combine ops left rs (r # result) | [] \<Rightarrow> Inl Panicked)"
| "merge_aggregate_loop combine (MergeRight # ops) left right result =
     (case (result, right) of
        (a # result', r # rs) \<Rightarrow>
          rbind (combine a r) (\<lambda>x. merge_aggregate_loop combine ops left rs (x # result'))
      | _ \<Rightarrow> Inl Panicked)"

definition merge_aggregate :: "MergeOp list \<Rightarrow> i64 list \<Rightarrow> i64 list \<Rightarrow> Aggregator \<Rightarrow> i64 list res" where
  "merge_aggregate ops left right aggregator =
     merge_aggregate_loop (combine_i64 aggregator) ops left right []"

section \<open>Merging two sorted columns\<close>

lemma merge_loop_take: "merge_loop lt ls rs k = take k (merge_loop lt ls rs (length ls + length rs))"
proof (induction lt ls rs k rule: merge_loop.induct)
  case (1 lt l ls r rs k)
  then show ?case by simp
qed (auto simp: take_map)

text \<open>Without a limit the whole input is merged.\<close>

lemma merge_loop_mset:
  "mset (map fst (merge_loop lt ls rs (length ls + length rs))) = mset ls + mset rs"
proof (induction lt ls rs "length ls + length rs" rule: merge_loop.induct)
  case (1 lt l ls r rs k)
  then show ?case by simp
qed (auto simp: comp_def)

lemma merge_loop_natural:
  "merge_loop lt (map f ls) (map f rs) k =
   map (\<lambda>(x, op). (f x, op)) (merge_loop (\<lambda>x y. lt (f x) (f y)) ls rs k)"
proof (induction "\<lambda>x y. lt (f x) (f y)" ls rs k rule: merge_loop.induct)
  case (1 l ls r rs k)
  then show ?case by simp
qed (auto simp: take_map)

text \<open>Replaying the recorded operations on the inputs gives the merged vector again.\<close>

lemma merge_keep_replay:
  "merge_keep (map snd (merge_loop lt ls rs k)) ls rs = Inr (map fst (merge_loop lt ls rs k))"
proof (induction lt ls rs k rule: merge_loop.induct [case_names "1" left_done right_done stop])
  case (1 lt l ls r rs k)
  then show ?case by simp
next
  have left: "merge_keep (replicate (length ys) 1) (ys @ zs) rs = Inr ys" for ys zs and rs :: "'a list"
    by (induction ys) auto
  have right: "merge_keep (replicate (length ys) 0) ls (ys @ zs) = Inr ys" for ys zs and ls :: "'a list"
    by (induction ys) auto
  have l: "merge_keep (map (\<lambda>_. 1) (take k ls)) ls rs = Inr (take k ls)" for k and ls rs :: "'a list"
    using left [of "take k ls" "drop k ls" rs] by (simp add: map_replicate_const)
  have r: "merge_keep (map (\<lambda>_. 0) (take k rs)) ls rs = Inr (take k rs)" for k and ls rs :: "'a list"
    using right [of "take k rs" ls "drop k rs"] by (simp add: map_replicate_const)
  {
    case (left_done lt rs k)
    then show ?case using r [of k rs "[]"] by (simp add: comp_def)
  next
    case (right_done lt ls k)
    then show ?case using l [of k ls "[]"] by (simp add: comp_def)
  next
    case (stop lt ls rs)
    then show ?case by simp
  }
qed

lemma merge_loop_set:
  "set (map fst (merge_loop lt ls rs (length ls + length rs))) = set ls \<union> set rs"
  using merge_loop_mset [of lt ls rs] by (metis set_mset_mset set_mset_union)

text \<open>Merging by a test that decides a total, transitive relation keeps it sorted.\<close>

lemma merge_loop_sorted_rel:
  assumes "\<And>x y. lt x y \<Longrightarrow> le x y" and "\<And>x y. \<not> lt x y \<Longrightarrow> le y x"
    and tr: "\<And>x y z. le x y \<Longrightarrow> le y z \<Longrightarrow> le x z"
    and "sorted_wrt le ls" and "sorted_wrt le rs"
  shows "sorted_wrt le (map fst (merge_loop lt ls rs (length ls + length rs)))"
  using assms(4,5,1,2)
proof (induction lt ls rs "length ls + length rs" rule: merge_loop.induct)
  case (1 lt l ls r rs k)
  let ?m = "\<lambda>ls rs. map fst (merge_loop lt ls rs (length ls + length rs))"
  show ?case
  proof (cases "lt l r")
    case True
    then have lr: "le l r" by (rule 1(6))
    have "\<forall>x \<in> set (?m ls (r # rs)). le l x"
      using 1(4,5) lr tr [OF lr] unfolding merge_loop_set by auto
    moreover have "sorted_wrt le (?m ls (r # rs))"
      using 1(1) [OF True _ _ 1(5-7)] 1(3,4) by simp
    ultimately show ?thesis using True by simp
  next
    case False
    then have rl: "le r l" by (rule 1(7))
    have "\<forall>x \<in> set (?m (l # ls) rs). le r x"
      using 1(4,5) rl tr [OF rl] unfolding merge_loop_set by auto
    moreover have "sorted_wrt le (?m (l # ls) rs)"
      using 1(2) [OF False _ 1(4) _ 1(6,7)] 1(3,5) by simp
    ultimately show ?thesis using False by simp
  qed
qed (auto simp: comp_def)

context comparator
begin

lemma merge_loop_sorted:
  assumes "sorted_wrt (cmp_eq c) ls" and "sorted_wrt (cmp_eq c) rs"
  shows "sorted_wrt (cmp_eq c) (map fst (merge_loop (cmp c) ls rs (length ls + length rs)))"
proof (rule merge_loop_sorted_rel [OF _ _ _ assms])
  show "cmp_eq c x z" if "cmp_eq c x y" "cmp_eq c y z" for x y z using that by (rule cmp_eq_trans)
  show "cmp_eq c x y" if "cmp c x y" for x y using that by (rule cmp_imp_eq)
  show "cmp_eq c y x" if "\<not> cmp c x y" for x y using that cmp_not_eq [of x y] by simp
qed

end

section \<open>Replaying recorded operations\<close>

definition replays :: "('a \<times> u8) list \<Rightarrow> 'a list \<Rightarrow> 'a list \<Rightarrow> bool" where
  "replays out L R \<longleftrightarrow> merge_keep (map snd out) L R = Inr (map fst out)"

lemma merge_keep_map: "merge_keep ops (map f L) (map f R) = rmap (map f) (merge_keep ops L R)"
proof (induction ops L R rule: merge_keep.induct)
  case (2 op ops left right)
  show ?case
  proof (cases "op = 1")
    case True
    with 2 show ?thesis
      by (cases left) (auto, cases "merge_keep ops (tl left) right", auto)
  next
    case False
    with 2 show ?thesis
      by (cases right) (auto, cases "merge_keep ops left (tl right)", auto)
  qed
qed simp

lemma merge_keep_take:
  "merge_keep ops L R = Inr xs \<Longrightarrow> merge_keep (take k ops) L R = Inr (take k xs)"
proof (induction ops L R arbitrary: xs k rule: merge_keep.induct)
  case (2 op ops left right)
  then show ?case
    by (cases k; cases left; cases right) (auto simp: rmap_Inr_iff split: if_splits)
qed simp

lemma merge_keep_append:
  assumes "merge_keep ops L R = Inr xs" and "length (filter (\<lambda>op. op = 1) ops) = length L"
    and "length (filter (\<lambda>op. op \<noteq> 1) ops) = length R"
  shows "merge_keep (ops @ ops') (L @ L') (R @ R') = rmap ((@) xs) (merge_keep ops' L' R')"
  using assms
proof (induction ops L R arbitrary: xs rule: merge_keep.induct)
  case (1 left right)
  then show ?case by (cases "merge_keep ops' L' R'") auto
next
  case (2 op ops left right)
  show ?case
  proof (cases "op = 1")
    case True
    with 2(3-5) obtain l ls ys where "left = l # ls" "merge_keep ops ls right = Inr ys" "xs = l # ys"
      by (cases left) (auto simp: rmap_Inr_iff)
    with 2 True show ?thesis by (cases "merge_keep ops' L' R'") auto
  next
    case False
    with 2(3-5) obtain r rs ys where "right = r # rs" "merge_keep ops left rs = Inr ys" "xs = r # ys"
      by (cases right) (auto simp: rmap_Inr_iff)
    with 2 False show ?thesis by (cases "merge_keep ops' L' R'") auto
  qed
qed

lemma merge_loop_counts:
  "length (filter (\<lambda>op. op = 1) (map snd (merge_loop lt ls rs (length ls + length rs)))) = length ls"
  "length (filter (\<lambda>op. op \<noteq> 1) (map snd (merge_loop lt ls rs (length ls + length rs)))) = length rs"
  by (induction lt ls rs "length ls + length rs" rule: merge_loop.induct) (auto simp: comp_def)

section \<open>Deduplicating merges\<close>

lemma dedup_loop_keys:
  assumes "dedup_loop lst ls rs = (ks, ops)" and "sorted_wrt (<) ls" and "sorted_wrt (<) rs"
    and "\<And>m. lst = Some m \<Longrightarrow> (\<forall>x \<in> set ls. m < x) \<and> (\<forall>x \<in> set rs. m \<le> x)"
  shows "set ks = set ls \<union> set rs - set_option lst \<and> sorted_wrt (<) ks"
  using assms
proof (induction lst ls rs arbitrary: ks ops rule: dedup_loop.induct [case_names "1" left_done right_done])
  case (1 lst l ls r rs)
  consider (merge) "lst = Some r" | (left) "lst \<noteq> Some r" "l \<le> r" | (right) "lst \<noteq> Some r" "r < l"
    by fastforce
  then show ?case
  proof cases
    case merge
    with 1(4) obtain ops' where e: "dedup_loop lst (l # ls) rs = (ks, ops')"
      by (auto split: prod.splits)
    have "set ks = set (l # ls) \<union> set rs - set_option lst \<and> sorted_wrt (<) ks"
      by (rule "1.IH"(1) [OF merge e]) (use 1(5-7) merge in auto)
    with merge show ?thesis by auto
  next
    case left
    with 1(4) obtain ks' ops' where e: "dedup_loop (Some l) ls (r # rs) = (ks', ops')" "ks = l # ks'"
      by (auto split: prod.splits)
    have ih: "set ks' = set ls \<union> set (r # rs) - set_option (Some l) \<and> sorted_wrt (<) ks'"
      by (rule "1.IH"(2) [OF left e(1)]) (use 1(5-7) left in auto)
    have "lst = Some m \<Longrightarrow> m \<notin> set (r # rs)" for m
      using 1(5-7) left by auto
    with ih e(2) 1(5-7) left show ?thesis by auto
  next
    case right
    then have nl: "\<not> l \<le> r" by simp
    from right nl 1(4) obtain ks' ops' where e: "dedup_loop (Some r) (l # ls) rs = (ks', ops')" "ks = r # ks'"
      by (auto split: prod.splits)
    have ih: "set ks' = set (l # ls) \<union> set rs - set_option (Some r) \<and> sorted_wrt (<) ks'"
      by (rule "1.IH"(3) [OF right(1) nl e(1)]) (use 1(5-7) right in auto)
    have "lst = Some m \<Longrightarrow> m \<notin> set (r # rs)" for m
      using 1(5-7) right by auto
    with ih e(2) 1(5-7) right show ?thesis by auto
  qed
next
  case (left_done lst rs)
  then show ?case by (cases rs) (fastforce split: if_splits)+
next
  case (right_done lst l ls)
  then show ?case by auto
qed

text \<open>What the merged row for a key carries: the left value, the right one, or both combined.\<close>

fun combine_opt :: "('v \<Rightarrow> 'v \<Rightarrow> 'v res) \<Rightarrow> 'v option \<Rightarrow> 'v option \<Rightarrow> 'v res" where
  "combine_opt combine (Some a) (Some b) = combine a b"
| "combine_opt combine (Some a) None = Inr a"
| "combine_opt combine None (Some b) = Inr b"
| "combine_opt combine None None = Inl Panicked"

fun pending :: "('v \<Rightarrow> 'v \<Rightarrow> 'v res) \<Rightarrow> 'k option \<Rightarrow> ('k \<rightharpoonup> 'v) \<Rightarrow> 'v list \<Rightarrow> 'v list res" where
  "pending combine None R result = Inr result"
| "pending combine (Some m) R [] = Inr []"
| "pending combine (Some m) R (a # result) =
     rbind (combine_opt combine (Some a) (R m)) (\<lambda>x. Inr (x # result))"

lemma aggregate_replicate_left:
  "merge_aggregate_loop f (replicate (length vs) TakeLeft @ ops) (vs @ ls) rs result =
   merge_aggregate_loop f ops ls rs (rev vs @ result)"
  by (induction vs arbitrary: result) auto

lemma aggregate_replicate_right:
  "merge_aggregate_loop f (replicate (length vs) TakeRight) ls (vs @ rs) result = Inr (rev result @ vs)"
  by (induction vs arbitrary: result) auto

lemma rmapM_map_of:
  assumes "distinct (map fst xs)"
  shows "rmapM (\<lambda>k. combine_opt f (map_of xs k) None) (map fst xs) = Inr (map snd xs)"
    and "rmapM (\<lambda>k. combine_opt f None (map_of xs k)) (map fst xs) = Inr (map snd xs)"
proof -
  have "rmapM (\<lambda>x. combine_opt f (map_of xs (fst x)) None) xs = Inr (map snd xs)"
    by (rule rmapM_Inr_map) (use assms in auto)
  then show "rmapM (\<lambda>k. combine_opt f (map_of xs k) None) (map fst xs) = Inr (map snd xs)"
    by (simp add: rmapM_map)
  have "rmapM (\<lambda>x. combine_opt f None (map_of xs (fst x))) xs = Inr (map snd xs)"
    by (rule rmapM_Inr_map) (use assms in auto)
  then show "rmapM (\<lambda>k. combine_opt f None (map_of xs k)) (map fst xs) = Inr (map snd xs)"
    by (simp add: rmapM_map)
qed


lemma map_fst_Cons_E:
  assumes "k # ks = map fst xs"
  obtains v ys where "xs = (k, v) # ys" "ks = map fst ys"
  using assms by (cases xs) auto

text \<open>Nothing is pending when the right side starts behind the last key.\<close>

lemma pending_none:
  fixes R :: "('k::linorder \<times> 'v) list"
  assumes "sorted_wrt (<) (map fst R)" and "R \<noteq> [] \<Longrightarrow> lst \<noteq> Some (fst (hd R))"
    and "\<And>m. lst = Some m \<Longrightarrow> (\<forall>x \<in> set (map fst R). m \<le> x) \<and> result \<noteq> []"
  shows "pending f lst (map_of R) result = Inr result"
proof (cases lst)
  case (Some m)
  with assms obtain a result' where "result = a # result'" by (cases result) auto
  moreover have "m \<notin> fst ` set R"
  proof (cases R)
    case (Cons x xs)
    with assms(2,3) Some have "m \<noteq> fst x" "m \<le> fst x" by auto
    then have "m < fst x" by simp
    with Cons assms(1) show ?thesis by auto
  qed simp
  ultimately show ?thesis using Some by (simp add: map_of_eq_None_iff [THEN iffD2])
qed simp

lemma aggregate_dedup:
  assumes "dedup_loop lst (map fst L) (map fst R) = (ks, ops)"
    and "sorted_wrt (<) (map fst L)" and "sorted_wrt (<) (map fst R)"
    and "\<And>m. lst = Some m \<Longrightarrow> (\<forall>x \<in> set (map fst L). m < x) \<and> (\<forall>x \<in> set (map fst R). m \<le> x) \<and> result \<noteq> []"
  shows "merge_aggregate_loop f ops (map snd L) (map snd R) result =
    rbind (pending f lst (map_of R) result) (\<lambda>res.
      rmap ((@) (rev res)) (rmapM (\<lambda>k. combine_opt f (map_of L k) (map_of R k)) ks))"
  using assms
proof (induction lst "map fst L" "map fst R" arbitrary: L R result ks ops rule: dedup_loop.induct [case_names "1" left_done right_done])
  case (1 lst l ls r rs)
  obtain lv L' where L: "L = (l, lv) # L'" "ls = map fst L'" using 1(4) by (rule map_fst_Cons_E)
  obtain rv R' where R: "R = (r, rv) # R'" "rs = map fst R'" using 1(5) by (rule map_fst_Cons_E)
  let ?F = "\<lambda>L R k. combine_opt f (map_of L k) (map_of R k)"
  consider (merge) "lst = Some r" | (left) "lst \<noteq> Some r" "l \<le> r" | (right) "lst \<noteq> Some r" "r < l"
    by fastforce
  then show ?case
  proof cases
    case merge
    with 1(6) L R obtain ops' where e: "dedup_loop lst (map fst L) (map fst R') = (ks, ops')" "ops = MergeRight # ops'"
      by (auto split: prod.splits)
    from merge 1(9) obtain a result' where res: "result = a # result'" by (cases result) auto
    have notin: "r \<notin> fst ` set R'" using 1(8) R by auto
    have ks: "set ks = set (map fst L) \<union> set (map fst R') - {r}"
      using dedup_loop_keys [OF e(1)] 1(7-9) L R merge by auto
    have F: "rmapM (?F L R') ks = rmapM (?F L R) ks"
      by (rule rmapM_cong) (use ks R in auto)
    have "merge_aggregate_loop f ops' (map snd L) (map snd R') (x # result') =
        rmap ((@) (rev (x # result'))) (rmapM (?F L R') ks)" for x
    proof -
      have none: "map_of R' r = None" using notin by (simp add: map_of_eq_None_iff)
      show ?thesis
        using "1.hyps"(1) [OF merge, of L R' ks ops' "x # result'"] e 1(7-9) L R merge none by auto
    qed
    with e(2) res merge F R L show ?thesis by (cases "f a rv") auto
  next
    case left
    with 1(6) L R obtain ks' ops' where e: "dedup_loop (Some l) (map fst L') (map fst R) = (ks', ops')"
      "ks = l # ks'" "ops = TakeLeft # ops'"
      by (auto split: prod.splits)
    have le: "\<forall>x \<in> set R'. l \<le> fst x" using 1(8) R left by force
    have ks: "set ks' = set (map fst L') \<union> set (map fst R) - {l}"
      using dedup_loop_keys [OF e(1)] 1(7-9) L R left le by auto
    have F: "rmapM (?F L' R) ks' = rmapM (?F L R) ks'"
      by (rule rmapM_cong) (use ks L in auto)
    have pend: "pending f lst (map_of R) result = Inr result"
      using 1(8,9) R left by (intro pending_none) auto
    have "merge_aggregate_loop f ops' (map snd L') (map snd R) (lv # result) =
        rbind (pending f (Some l) (map_of R) (lv # result)) (\<lambda>res. rmap ((@) (rev res)) (rmapM (?F L' R) ks'))"
      using "1.hyps"(2) [OF left, of L' R ks' ops' "lv # result"] e(1) 1(7-9) L R left le by auto
    with pend F e L show ?thesis
      by (cases "combine_opt f (Some lv) (map_of R l)"; cases "rmapM (?F L R) ks'") auto
  next
    case right
    then have nl: "\<not> l \<le> r" by simp
    from right nl 1(6) L R obtain ks' ops' where e: "dedup_loop (Some r) (map fst L) (map fst R') = (ks', ops')"
      "ks = r # ks'" "ops = TakeRight # ops'"
      by (auto split: prod.splits)
    have le: "\<forall>x \<in> set R'. r \<le> fst x" "\<forall>x \<in> set L. r < fst x" using 1(7,8) L R right by force+
    have ks: "set ks' = set (map fst L) \<union> set (map fst R') - {r}"
      using dedup_loop_keys [OF e(1)] 1(7-9) L R right le by auto
    have F: "rmapM (?F L R') ks' = rmapM (?F L R) ks'"
      by (rule rmapM_cong) (use ks R in auto)
    have pend: "pending f lst (map_of R) result = Inr result"
      using 1(8,9) R right by (intro pending_none) auto
    have none: "map_of R' r = None" "map_of L r = None"
      using 1(7,8) L R right by (auto simp: map_of_eq_None_iff)
    have "merge_aggregate_loop f ops' (map snd L) (map snd R') (rv # result) =
        rbind (pending f (Some r) (map_of R') (rv # result)) (\<lambda>res. rmap ((@) (rev res)) (rmapM (?F L R') ks'))"
      using "1.hyps"(3) [OF right(1) nl, of L R' ks' ops' "rv # result"] e(1) 1(7-9) L R right le by auto
    with pend F e R none show ?thesis
      by (cases "rmapM (?F L R) ks'") auto
  qed
next
  case (left_done lst)
  then have L: "L = []" by simp
  show ?case
  proof (cases "\<exists>m. lst = Some m \<and> R \<noteq> [] \<and> m = fst (hd R)")
    case True
    then obtain m rv R' where R: "lst = Some m" "R = (m, rv) # R'" by (cases R) auto
    with left_done L obtain a result' where res: "result = a # result'" by (cases result) auto
    have d: "distinct (map fst R')" "m \<notin> fst ` set R'" using left_done(4) R strict_sorted_iff by auto
    have "rmapM (\<lambda>k. combine_opt f None (map_of R k)) (map fst R') = Inr (map snd R')"
      using rmapM_map_of(2) [OF d(1), of f] d(2) R(2)
      by (subst rmapM_cong [where g = "\<lambda>k. combine_opt f None (map_of R' k)"]) auto
    with left_done(2) L R res show ?thesis
      using aggregate_replicate_right [of f "map snd R'" "[]" "[]"] by (cases "f a rv") auto
  next
    case False
    have d: "distinct (map fst R)" using left_done(4) strict_sorted_iff by blast
    have "pending f lst (map_of R) result = Inr result"
      using left_done(4,5) False by (intro pending_none) auto
    moreover have "ks = map fst R" "ops = replicate (length R) TakeRight"
      using left_done(2) L False by (cases R; auto split: if_splits)+
    ultimately show ?thesis
      using L rmapM_map_of(2) [OF d, of f] aggregate_replicate_right [of f "map snd R" "[]" "[]" result]
      by simp
  qed
next
  case (right_done lst)
  then have R: "R = []" by simp
  have d: "distinct (map fst L)" using right_done.prems(2) strict_sorted_iff by blast
  have "pending f lst (map_of R) result = Inr result"
    using R by (cases lst; cases result) auto
  moreover have "ks = map fst L" "ops = replicate (length L) TakeLeft"
    using right_done.prems(1) R by (cases L; simp)+
  ultimately show ?case
    using R rmapM_map_of(1) [OF d, of f] aggregate_replicate_left [of f "map snd L" "[]" "[]" "[]" result]
    by simp
qed


section \<open>Merging nullable columns\<close>

lemma drop_rows_of:
  "i < length data \<Longrightarrow> drop i (rows_of data present) =
   (if bv_is_set present i then Some (data ! i) else None) # drop (Suc i) (rows_of data present)"
  by (subst Cons_nth_drop_Suc [symmetric]) auto

lemma merge_keep_nullable_rows:
  assumes "length result = i + j" and "\<And>n. i + j \<le> n \<Longrightarrow> \<not> bv_is_set present n"
    and "i \<le> length left" and "j \<le> length right"
  shows "rmap (\<lambda>(res, pres). rows_of res pres)
      (merge_keep_nullable_loop ops i j left right lp rp result present) =
    rmap ((@) (rows_of result present))
      (merge_keep ops (drop i (rows_of left lp)) (drop j (rows_of right rp)))"
  using assms
proof (induction ops arbitrary: i j result present)
  case Nil
  then show ?case by simp
next
  case (Cons op ops)
  show ?case
  proof (cases "op = 1")
    case True
    show ?thesis
    proof (cases "i < length left")
      case False
      with True Cons.prems show ?thesis by (simp add: index_def)
    next
      case len: True
      let ?b = "bv_is_set lp i" and ?x = "left ! i"
      let ?p = "if ?b then bv_set present (i + j) else present"
      have "rmap (\<lambda>(res, pres). rows_of res pres)
          (merge_keep_nullable_loop ops (i + 1) j left right lp rp (result @ [?x]) ?p) =
        rmap ((@) (rows_of (result @ [?x]) ?p))
          (merge_keep ops (drop (i + 1) (rows_of left lp)) (drop j (rows_of right rp)))"
        by (rule Cons.IH) (use Cons.prems len in \<open>auto simp: bv_is_set_bv_set\<close>)
      moreover have "rows_of (result @ [?x]) ?p = rows_of result present @ [if ?b then Some ?x else None]"
        using rows_of_snoc [of result present ?x ?b, unfolded Cons.prems(1), OF Cons.prems(2)] by blast
      ultimately show ?thesis
        using True len
        by (cases "merge_keep ops (drop (Suc i) (rows_of left lp)) (drop j (rows_of right rp))")
          (simp_all add: index_def drop_rows_of)
    qed
  next
    case False
    show ?thesis
    proof (cases "j < length right")
      case False
      with \<open>op \<noteq> 1\<close> Cons.prems show ?thesis by (simp add: index_def)
    next
      case len: True
      let ?b = "bv_is_set rp j" and ?x = "right ! j"
      let ?p = "if ?b then bv_set present (i + j) else present"
      have "rmap (\<lambda>(res, pres). rows_of res pres)
          (merge_keep_nullable_loop ops i (j + 1) left right lp rp (result @ [?x]) ?p) =
        rmap ((@) (rows_of (result @ [?x]) ?p))
          (merge_keep ops (drop i (rows_of left lp)) (drop (j + 1) (rows_of right rp)))"
        by (rule Cons.IH) (use Cons.prems len in \<open>auto simp: bv_is_set_bv_set\<close>)
      moreover have "rows_of (result @ [?x]) ?p = rows_of result present @ [if ?b then Some ?x else None]"
        using rows_of_snoc [of result present ?x ?b, unfolded Cons.prems(1), OF Cons.prems(2)] by blast
      ultimately show ?thesis
        using False len
        by (cases "merge_keep ops (drop i (rows_of left lp)) (drop (Suc j) (rows_of right rp))")
          (simp_all add: index_def drop_rows_of)
    qed
  qed
qed

section \<open>Main results\<close>

text \<open>
  Merging two sorted columns gives the first \<open>limit\<close> elements of the sorted list of all of them,
  and replaying the recorded operations on the two inputs gives the same column.
\<close>

theorem merge_sorted_prefix:
  fixes ls rs :: "'a::linorder list"
  assumes "sorted ls" and "sorted rs"
  shows "fst (merge CmpLessThan ls rs limit) = take limit (sort (ls @ rs)) \<and>
    merge_keep (snd (merge CmpLessThan ls rs limit)) ls rs = Inr (fst (merge CmpLessThan ls rs limit))"
proof -
  let ?m = "merge_loop (cmp CmpLessThan) ls rs (length ls + length rs)"
  have le: "cmp_eq CmpLessThan = ((\<le>) :: 'a \<Rightarrow> 'a \<Rightarrow> bool)" by (simp add: CmpLessThan_def)
  have "sorted (map fst ?m)" using less_than.merge_loop_sorted [of ls rs] assms unfolding le by simp
  moreover have "mset (map fst ?m) = mset (ls @ rs)" using merge_loop_mset by simp
  ultimately have "map fst ?m = sort (ls @ rs)" by (metis properties_for_sort)
  then have "fst (merge CmpLessThan ls rs limit) = take limit (sort (ls @ rs))"
    using merge_loop_take [of "cmp CmpLessThan" ls rs limit] by (metis fst_conv merge_def take_map)
  then show ?thesis
    using merge_keep_replay [of "cmp CmpLessThan" ls rs limit] by (simp add: merge_def Let_def)
qed

theorem merge_sorted_prefix_witness:
  "fst (merge CmpLessThan [1, 4, 4] [2, 4, 9 :: int] 4) = [1, 2, 4, 4] \<and>
    merge_keep (snd (merge CmpLessThan [1, 4, 4] [2, 4, 9 :: int] 4)) [1, 4, 4] [2, 4, 9 :: int] = Inr [1, 2, 4, 4]"
  using merge_sorted_prefix [of "[1, 4, 4]" "[2, 4, 9 :: int]" 4] by simp

text \<open>
  Aggregates of one group-by column. Merging two strictly increasing key columns gives the sorted
  list of all keys, and merging the aggregate columns by the recorded operations combines the values
  of keys in both inputs and keeps the others; it fails with \<open>Overflow\<close> exactly when the sum of some
  key does not fit an \<open>i64\<close>.
\<close>

theorem merge_aggregate_sums:
  fixes L R :: "('k::linorder \<times> i64) list"
  assumes "sorted_wrt (<) (map fst L)" and "sorted_wrt (<) (map fst R)"
  shows "fst (merge_deduplicate (map fst L) (map fst R)) = sorted_list_of_set (fst ` set L \<union> fst ` set R) \<and>
    merge_aggregate (snd (merge_deduplicate (map fst L) (map fst R))) (map snd L) (map snd R) SumI64 =
      rmapM (\<lambda>k. combine_opt (combine_i64 SumI64) (map_of L k) (map_of R k))
        (sorted_list_of_set (fst ` set L \<union> fst ` set R))"
proof -
  obtain ks ops where d: "dedup_loop None (map fst L) (map fst R) = (ks, ops)" by fastforce
  have "set ks = fst ` set L \<union> fst ` set R \<and> sorted_wrt (<) ks"
    using dedup_loop_keys [OF d assms] by simp
  then have ks: "sorted_list_of_set (fst ` set L \<union> fst ` set R) = ks"
    by (metis sorted_list_of_set.idem_if_sorted_distinct strict_sorted_iff)
  have "merge_aggregate_loop (combine_i64 SumI64) ops (map snd L) (map snd R) [] =
      rmapM (\<lambda>k. combine_opt (combine_i64 SumI64) (map_of L k) (map_of R k)) ks"
    using aggregate_dedup [OF d assms, of "[]" "combine_i64 SumI64"] by (simp add: rmap_def)
  with ks d show ?thesis by (simp add: merge_deduplicate_def merge_aggregate_def)
qed

theorem merge_aggregate_sums_witness:
  "fst (merge_deduplicate [1, 4] [4, 7 :: int]) = [1, 4, 7] \<and>
    merge_aggregate (snd (merge_deduplicate [1, 4] [4, 7 :: int])) [10, 20] [5, 6] SumI64 = Inr [10, 25, 6]"
  using merge_aggregate_sums [of "[(1 :: int, 10), (4, 20)]" "[(4, 5), (7, 6)]"]
  by (simp add: checked_i64_def i64_bounds insert_commute)

text \<open>
  Merging nullable columns by recorded operations moves every value together with its null flag:
  the rows of the result are what the operations pick from the rows of the inputs.
\<close>

theorem merge_keep_nullable_correct:
  "rmap (\<lambda>(res, pres). rows_of res pres) (merge_keep_nullable ops left right lp rp) =
    merge_keep ops (rows_of left lp) (rows_of right rp)"
proof -
  have "rmap ((@) []) r = r" for r :: "'b list res" by (cases r) auto
  then show ?thesis
    using merge_keep_nullable_rows [of "[]" 0 0 "[]" left right ops lp rp]
    by (simp add: merge_keep_nullable_def rows_of_def bv_is_set_def)
qed

end
