(* ===== verification/Queries.thy ===== *)
theory Queries
  imports Ingestion Merging
begin

text \<open>
  Queries before they are planned: the expressions of src/src/syntax/expression.rs and the
  normal form of src/src/engine/planning/query.rs, which splits a query into a main phase that
  groups and aggregates and a final pass over its result.

  What a query means is stated over an arbitrary interpretation of constants, functions and
  aggregators (the record \<open>sem\<close>), each of which may fail.
\<close>

section \<open>expression.rs and limit.rs\<close>

datatype Func2Type =
    Equals | NotEquals | LT | LTE | GT | GTE | And | Or | Add | Subtract | Multiply | Divide
  | Modulo | RegexMatch | Like | NotLike

datatype Func1Type = Negate | ToYear | Not | IsNull | IsNotNull | Length

datatype Expr =
    ColName string
  | Const RawVal
  | Func1 Func1Type Expr
  | Func2 Func2Type Expr Expr
  | Aggregate Aggregator Expr

fun add_colnames :: "Expr \<Rightarrow> string set \<Rightarrow> string set" where
  "add_colnames (ColName name) result = insert name result"
| "add_colnames (Func2 _ expr1 expr2) result = add_colnames expr2 (add_colnames expr1 result)"
| "add_colnames (Func1 _ expr) result = add_colnames expr result"
| "add_colnames (Aggregate _ expr) result = add_colnames expr result"
| "add_colnames (Const _) result = result"

record LimitClause =
  lc_limit :: nat
  lc_offset :: nat

section \<open>Queries and their normal form\<close>

record ColumnInfo =
  ci_expr :: Expr
  ci_name :: "string option"

record NormalFormQuery =
  nf_projection :: "ColumnInfo list"
  nf_filter :: Expr
  nf_aggregate :: "(Aggregator \<times> ColumnInfo) list"
  nf_order_by :: "(Expr \<times> bool) list"
  nf_limit :: LimitClause

record Query =
  q_select :: "ColumnInfo list"
  q_table :: string
  q_filter :: Expr
  q_order_by :: "(Expr \<times> bool) list"
  q_limit :: LimitClause

text \<open>Decimal digits, as \<open>format!\<close> prints a \<open>usize\<close>, and the two kinds of generated names.\<close>

fun show_nat :: "nat \<Rightarrow> string" where
  "show_nat n = (if n < 10 then [char_of (48 + n)] else show_nat (n div 10) @ [char_of (48 + n mod 10)])"

declare show_nat.simps [simp del]

definition cs_name :: "nat \<Rightarrow> string" where "cs_name i = ''_cs'' @ show_nat i"
definition ca_name :: "nat \<Rightarrow> string" where "ca_name i = ''_ca'' @ show_nat i"

fun ensure_no_aggregates :: "Expr \<Rightarrow> unit res" where
  "ensure_no_aggregates (Aggregate _ _) = Inl (Fail (TypeError ''Nested aggregates found.''))"
| "ensure_no_aggregates (Func1 _ expr) = ensure_no_aggregates expr"
| "ensure_no_aggregates (Func2 _ expr1 expr2) =
     rbind (ensure_no_aggregates expr1) (\<lambda>_. ensure_no_aggregates expr2)"
| "ensure_no_aggregates (Const _) = Inr ()"
| "ensure_no_aggregates (ColName _) = Inr ()"

text \<open>The names collected so far are passed along and returned.\<close>

fun extract_aggregators ::
    "Expr \<Rightarrow> string list \<Rightarrow> string option \<Rightarrow> (Expr \<times> (Aggregator \<times> ColumnInfo) list \<times> string list) res" where
  "extract_aggregators (Aggregate aggregator expr) column_names alias =
     (let column_name = ca_name (length column_names) in
      rbind (ensure_no_aggregates expr) (\<lambda>_.
        Inr (ColName column_name, [(aggregator, \<lparr>ci_expr = expr, ci_name = alias\<rparr>)],
             column_names @ [column_name])))"
| "extract_aggregators (Func1 t expr) column_names alias =
     rbind (extract_aggregators expr column_names alias) (\<lambda>(expr', aggregates, names).
       Inr (Func1 t expr', aggregates, names))"
| "extract_aggregators (Func2 t expr1 expr2) column_names alias =
     rbind (extract_aggregators expr1 column_names alias) (\<lambda>(expr1', aggregates1, names1).
     rbind (extract_aggregators expr2 names1 alias) (\<lambda>(expr2', aggregates2, names2).
       Inr (Func2 t expr1' expr2', aggregates1 @ aggregates2, names2)))"
| "extract_aggregators (Const v) column_names alias = Inr (Const v, [], column_names)"
| "extract_aggregators (ColName c) column_names alias = Inr (ColName c, [], column_names)"

text \<open>The vectors that \<open>normalize\<close> fills.\<close>

record norm_state =
  ns_select :: "ColumnInfo list"
  ns_aggregate :: "(Aggregator \<times> ColumnInfo) list"
  ns_aggregate_colnames :: "string list"
  ns_select_colnames :: "string list"

text \<open>
  The body that the loops over the selected columns and over the order-by columns share: it gives
  the expression that the final pass evaluates in place of \<open>expr\<close>.
\<close>

definition norm_column :: "Expr \<Rightarrow> string option \<Rightarrow> norm_state \<Rightarrow> (Expr \<times> norm_state) res" where
  "norm_column expr name st =
     rbind (extract_aggregators expr (ns_aggregate_colnames st) name) (\<lambda>(full_expr, aggregates, names).
       if aggregates = [] then
         let column_name = cs_name (length (ns_select_colnames st)) in
         Inr (ColName column_name,
              st\<lparr>ns_select_colnames := ns_select_colnames st @ [column_name],
                 ns_select := ns_select st @ [\<lparr>ci_expr = full_expr, ci_name = name\<rparr>],
                 ns_aggregate_colnames := names\<rparr>)
       else
         Inr (full_expr, st\<lparr>ns_aggregate := ns_aggregate st @ aggregates, ns_aggregate_colnames := names\<rparr>))"

fun norm_select :: "ColumnInfo list \<Rightarrow> norm_state \<Rightarrow> (ColumnInfo list \<times> norm_state) res" where
  "norm_select [] st = Inr ([], st)"
| "norm_select (col_info # select) st =
     rbind (norm_column (ci_expr col_info) (ci_name col_info) st) (\<lambda>(e, st').
     rbind (norm_select select st') (\<lambda>(final_projection, st'').
       Inr (\<lparr>ci_expr = e, ci_name = ci_name col_info\<rparr> # final_projection, st'')))"

fun norm_order_by :: "(Expr \<times> bool) list \<Rightarrow> norm_state \<Rightarrow> ((Expr \<times> bool) list \<times> norm_state) res" where
  "norm_order_by [] st = Inr ([], st)"
| "norm_order_by ((expr, desc) # order_by) st =
     rbind (norm_column expr None st) (\<lambda>(e, st').
     rbind (norm_order_by order_by st') (\<lambda>(final_order_by, st'').
       Inr ((e, desc) # final_order_by, st'')))"

definition is_ColName :: "Expr \<Rightarrow> bool" where
  "is_ColName e = (case e of ColName _ \<Rightarrow> True | _ \<Rightarrow> False)"

definition u64_max_limit :: LimitClause where
  "u64_max_limit = \<lparr>lc_limit = 2 ^ 64 - 1, lc_offset = 0\<rparr>"

definition norm_init :: norm_state where
  "norm_init = \<lparr>ns_select = [], ns_aggregate = [], ns_aggregate_colnames = [], ns_select_colnames = []\<rparr>"

definition normalize :: "Query \<Rightarrow> (NormalFormQuery \<times> NormalFormQuery option) res" where
  "normalize q =
     rbind (norm_select (q_select q) norm_init) (\<lambda>(final_projection, st).
       let require_final_pass = (ns_aggregate st \<noteq> [] \<and> q_order_by q \<noteq> []) \<or>
             (\<exists>col_info \<in> set final_projection. \<not> is_ColName (ci_expr col_info)) in
       if require_final_pass then
         rbind (norm_order_by (q_order_by q) st) (\<lambda>(final_order_by, st').
           Inr (\<lparr>nf_projection = ns_select st', nf_filter = q_filter q, nf_aggregate = ns_aggregate st',
                 nf_order_by = [], nf_limit = u64_max_limit\<rparr>,
                Some \<lparr>nf_projection = final_projection, nf_filter = Const (RawInt 1), nf_aggregate = [],
                 nf_order_by = final_order_by, nf_limit = q_limit q\<rparr>))
       else
         Inr (\<lparr>nf_projection = ns_select st, nf_filter = q_filter q, nf_aggregate = ns_aggregate st,
               nf_order_by = q_order_by q, nf_limit = q_limit q\<rparr>, None))"

fun extract_display_colname :: "string option \<Rightarrow> string res" where
  "extract_display_colname (Some alias) = Inr alias"
| "extract_display_colname None = Inl (Fail (FatalError ''No human readable expression found''))"

text \<open>The error is unwrapped inside the iterators, so a missing name is a panic.\<close>

definition result_column_names :: "NormalFormQuery \<Rightarrow> string list res" where
  "result_column_names nf =
     rmapM (\<lambda>name. case extract_display_colname name of Inl _ \<Rightarrow> Inl Panicked | Inr n \<Rightarrow> Inr n)
       (map ci_name (nf_projection nf) @ map (ci_name \<circ> snd) (nf_aggregate nf))"

definition is_select_star :: "Query \<Rightarrow> bool" where
  "is_select_star q =
     (if length (q_select q) = 1
      then (case ci_expr (q_select q ! 0) of ColName colname \<Rightarrow> colname = ''*'' | _ \<Rightarrow> False)
      else False)"

definition find_referenced_cols :: "Query \<Rightarrow> string set" where
  "find_referenced_cols q =
     add_colnames (q_filter q)
       (foldl (\<lambda>colnames e. add_colnames (fst e) colnames)
         (foldl (\<lambda>colnames col_info. add_colnames (ci_expr col_info) colnames) {} (q_select q))
         (q_order_by q))"

section \<open>What expressions mean\<close>

record 'v sem =
  s_null :: 'v
  s_const :: "RawVal \<Rightarrow> 'v"
  s_func1 :: "Func1Type \<Rightarrow> 'v \<Rightarrow> 'v res"
  s_func2 :: "Func2Type \<Rightarrow> 'v \<Rightarrow> 'v \<Rightarrow> 'v res"
  s_agg :: "Aggregator \<Rightarrow> 'v list \<Rightarrow> 'v res"

type_synonym 'v row = "string \<Rightarrow> 'v"

text \<open>The value on one row; an aggregate has none.\<close>

fun scalar :: "('v, 'z) sem_scheme \<Rightarrow> 'v row \<Rightarrow> Expr \<Rightarrow> 'v res" where
  "scalar s row (ColName c) = Inr (row c)"
| "scalar s row (Const v) = Inr (s_const s v)"
| "scalar s row (Func1 t e) = rbind (scalar s row e) (s_func1 s t)"
| "scalar s row (Func2 t e1 e2) = rbind (scalar s row e1) (\<lambda>x. rbind (scalar s row e2) (s_func2 s t x))"
| "scalar s row (Aggregate a e) = Inl (Fail (TypeError ''Nested aggregates found.''))"

definition aggregated :: "('v, 'z) sem_scheme \<Rightarrow> 'v row list \<Rightarrow> Aggregator \<Rightarrow> Expr \<Rightarrow> 'v res" where
  "aggregated s rows a e = rbind (rmapM (\<lambda>row. scalar s row e) rows) (s_agg s a)"

text \<open>
  The value on a group of rows that share the columns of \<open>key\<close>: columns outside of aggregates are
  those of the key.
\<close>

fun grouped :: "('v, 'z) sem_scheme \<Rightarrow> 'v row list \<Rightarrow> 'v row \<Rightarrow> Expr \<Rightarrow> 'v res" where
  "grouped s rows key (ColName c) = Inr (key c)"
| "grouped s rows key (Const v) = Inr (s_const s v)"
| "grouped s rows key (Func1 t e) = rbind (grouped s rows key e) (s_func1 s t)"
| "grouped s rows key (Func2 t e1 e2) =
     rbind (grouped s rows key e1) (\<lambda>x. rbind (grouped s rows key e2) (s_func2 s t x))"
| "grouped s rows key (Aggregate a e) = aggregated s rows a e"

fun no_aggregates :: "Expr \<Rightarrow> bool" where
  "no_aggregates (Aggregate _ _) \<longleftrightarrow> False"
| "no_aggregates (Func1 _ e) \<longleftrightarrow> no_aggregates e"
| "no_aggregates (Func2 _ e1 e2) \<longleftrightarrow> no_aggregates e1 \<and> no_aggregates e2"
| "no_aggregates _ \<longleftrightarrow> True"

text \<open>All columns are inside of aggregates.\<close>

fun columns_aggregated :: "Expr \<Rightarrow> bool" where
  "columns_aggregated (ColName _) \<longleftrightarrow> False"
| "columns_aggregated (Func1 _ e) \<longleftrightarrow> columns_aggregated e"
| "columns_aggregated (Func2 _ e1 e2) \<longleftrightarrow> columns_aggregated e1 \<and> columns_aggregated e2"
| "columns_aggregated _ \<longleftrightarrow> True"

definition well_grouped :: "Expr \<Rightarrow> bool" where
  "well_grouped e \<longleftrightarrow> no_aggregates e \<or> columns_aggregated e"

lemma grouped_scalar: "no_aggregates e \<Longrightarrow> grouped s rows key e = scalar s key e"
  by (induction e) auto

lemma ensure_no_aggregates_iff: "ensure_no_aggregates e = Inr u \<longleftrightarrow> no_aggregates e"
  by (induction e) auto

lemma ensure_no_aggregates_error:
  "ensure_no_aggregates e = Inl f \<Longrightarrow> f = Fail (TypeError ''Nested aggregates found.'')"
  by (induction e) (auto simp: rbind_Inl_iff)

text \<open>
  The main phase of a group: the values of the projected columns and of the aggregates.
\<close>

definition phase_values ::
    "('v, 'z) sem_scheme \<Rightarrow> 'v row list \<Rightarrow> 'v row \<Rightarrow> NormalFormQuery \<Rightarrow> ('v list \<times> 'v list) res" where
  "phase_values s rows key nf =
     rbind (rmapM (\<lambda>c. scalar s key (ci_expr c)) (nf_projection nf)) (\<lambda>ps.
     rbind (rmapM (\<lambda>(a, c). aggregated s rows a (ci_expr c)) (nf_aggregate nf)) (\<lambda>as. Inr (ps, as)))"

text \<open>
  The row that the final pass reads: the projected columns and the aggregates under their numbers,
  and null for any other column.
\<close>

definition final_row :: "('v, 'z) sem_scheme \<Rightarrow> 'v list \<Rightarrow> 'v list \<Rightarrow> 'v row" where
  "final_row s ps as c =
     (case map_of (zip (map cs_name [0..<length ps]) ps @ zip (map ca_name [0..<length as]) as) c of
        Some v \<Rightarrow> v | None \<Rightarrow> s_null s)"

section \<open>Generated names\<close>

definition read_nat :: "string \<Rightarrow> nat" where
  "read_nat = foldl (\<lambda>n c. 10 * n + (of_char c - 48)) 0"

lemma read_show_nat: "read_nat (show_nat n) = n"
proof (induction n rule: show_nat.induct)
  case (1 n)
  then show ?case
    by (subst show_nat.simps) (auto simp: read_nat_def)
qed

lemma show_nat_inj [simp]: "show_nat m = show_nat n \<longleftrightarrow> m = n"
  by (metis read_show_nat)

lemma generated_names [simp]:
  "cs_name i = cs_name j \<longleftrightarrow> i = j" "ca_name i = ca_name j \<longleftrightarrow> i = j"
  "cs_name i \<noteq> ca_name j" "ca_name j \<noteq> cs_name i"
  by (simp_all add: cs_name_def ca_name_def)

lemma generated_names_disjoint [simp]: "cs_name i \<notin> ca_name ` A" "ca_name i \<notin> cs_name ` A"
  by auto

lemma map_of_numbered:
  assumes "inj name" and "i < length vs"
  shows "map_of (zip (map name [0..<length vs]) vs) (name i) = Some (vs ! i)"
proof -
  have "distinct (map name [0..<length vs])" using assms(1) by (simp add: distinct_map inj_on_def inj_def)
  then show ?thesis
    using assms map_of_zip_nth [of "map name [0..<length vs]" vs i] by simp
qed

lemma map_of_zip_other: "c \<notin> set names \<Longrightarrow> map_of (zip names vs) c = None"
  by (auto simp: map_of_eq_None_iff dest: set_zip_leftD)

lemma final_row_select: "i < length ps \<Longrightarrow> final_row s ps as (cs_name i) = ps ! i"
  using map_of_zip_other [of "cs_name i" "map ca_name [0..<length as]" as]
  by (auto simp: final_row_def map_add_def map_of_numbered inj_def split: option.splits)

lemma final_row_aggregate: "i < length as \<Longrightarrow> final_row s ps as (ca_name i) = as ! i"
  by (simp add: final_row_def map_add_def map_of_numbered map_of_zip_other inj_def)

section \<open>Extracting aggregates\<close>

lemma extract_aggregators_spec:
  assumes "extract_aggregators e names alias = Inr (e', aggs, names')"
  shows "names' = names @ map ca_name [length names..<length names + length aggs]"
    and "no_aggregates e'" and "\<forall>(a, c) \<in> set aggs. no_aggregates (ci_expr c)"
    and "aggs = [] \<longleftrightarrow> no_aggregates e" and "no_aggregates e \<Longrightarrow> e' = e"
proof -
  have "names' = names @ map ca_name [length names..<length names + length aggs] \<and> no_aggregates e' \<and>
    (\<forall>(a, c) \<in> set aggs. no_aggregates (ci_expr c)) \<and> (aggs = [] \<longleftrightarrow> no_aggregates e) \<and> (no_aggregates e \<longrightarrow> e' = e)"
    using assms
  proof (induction e arbitrary: names e' aggs names')
    case (Func1 t e)
    then obtain e1 where "extract_aggregators e names alias = Inr (e1, aggs, names')" "e' = Func1 t e1" by auto
    with Func1.IH [OF this(1)] show ?case by simp
  next
    case (Func2 t e1 e2)
    then obtain f1 aggs1 names1 f2 aggs2 where
      r: "extract_aggregators e1 names alias = Inr (f1, aggs1, names1)"
        "extract_aggregators e2 names1 alias = Inr (f2, aggs2, names')" "e' = Func2 t f1 f2" "aggs = aggs1 @ aggs2"
      by auto
    let ?n = "length names"
    have "map ca_name [?n..<?n + length aggs] =
        map ca_name [?n..<?n + length aggs1] @ map ca_name [?n + length aggs1..<?n + length aggs1 + length aggs2]"
      using r(4) upt_add_eq_append [of ?n "?n + length aggs1" "length aggs2"] by (simp add: add.assoc)
    with Func2.IH(1) [OF r(1)] Func2.IH(2) [OF r(2)] r(3,4) show ?case by auto
  qed (auto simp: ensure_no_aggregates_iff Let_def)
  then show "names' = names @ map ca_name [length names..<length names + length aggs]"
    "no_aggregates e'" "\<forall>(a, c) \<in> set aggs. no_aggregates (ci_expr c)"
    "aggs = [] \<longleftrightarrow> no_aggregates e" "no_aggregates e \<Longrightarrow> e' = e" by blast+
qed

text \<open>
  An expression whose columns are all aggregated means the same after extraction, on a row that has
  the extracted aggregates under their names.
\<close>

lemma extract_aggregators_sound:
  assumes "extract_aggregators e names alias = Inr (e', aggs, names')" and "columns_aggregated e"
    and "\<forall>j < length aggs. aggregated s rows (fst (aggs ! j)) (ci_expr (snd (aggs ! j))) = Inr (row (ca_name (length names + j)))"
  shows "scalar s row e' = grouped s rows key e"
  using assms
proof (induction e arbitrary: names e' aggs names')
  case (Func2 t e1 e2)
  then obtain f1 aggs1 names1 f2 aggs2 where
    r: "extract_aggregators e1 names alias = Inr (f1, aggs1, names1)"
      "extract_aggregators e2 names1 alias = Inr (f2, aggs2, names')" "e' = Func2 t f1 f2" "aggs = aggs1 @ aggs2"
    by auto
  have n1: "length names1 = length names + length aggs1" using extract_aggregators_spec(1) [OF r(1)] by simp
  have v: "aggregated s rows (fst (aggs ! j)) (ci_expr (snd (aggs ! j))) = Inr (row (ca_name (length names + j)))"
    if "j < length aggs1 + length aggs2" for j
    using Func2.prems(3) r(4) that by simp
  have "aggregated s rows (fst (aggs1 ! j)) (ci_expr (snd (aggs1 ! j))) = Inr (row (ca_name (length names + j)))"
    if "j < length aggs1" for j using v [of j] that r(4) by (simp add: nth_append)
  then have 1: "scalar s row f1 = grouped s rows key e1" using Func2.IH(1) [OF r(1)] Func2.prems(2) by simp
  have "aggregated s rows (fst (aggs2 ! j)) (ci_expr (snd (aggs2 ! j))) = Inr (row (ca_name (length names1 + j)))"
    if "j < length aggs2" for j
    using v [of "length aggs1 + j"] that r(4) n1 by (simp add: nth_append add.assoc)
  then have 2: "scalar s row f2 = grouped s rows key e2" using Func2.IH(2) [OF r(2)] Func2.prems(2) by simp
  show ?case using 1 2 r(3) by simp
qed (auto simp: Let_def)

section \<open>Normalization\<close>

text \<open>The vectors of names count the columns, and extending the vectors keeps earlier entries.\<close>

definition norm_ok :: "norm_state \<Rightarrow> bool" where
  "norm_ok st \<longleftrightarrow> length (ns_select_colnames st) = length (ns_select st) \<and>
     length (ns_aggregate_colnames st) = length (ns_aggregate st) \<and>
     (\<forall>c \<in> set (ns_select st). no_aggregates (ci_expr c)) \<and>
     (\<forall>(a, c) \<in> set (ns_aggregate st). no_aggregates (ci_expr c))"

definition valued :: "('v, 'z) sem_scheme \<Rightarrow> 'v row list \<Rightarrow> 'v row \<Rightarrow> 'v list \<Rightarrow> 'v list \<Rightarrow> norm_state \<Rightarrow> bool" where
  "valued s rows key ps as st \<longleftrightarrow> length (ns_select st) \<le> length ps \<and> length (ns_aggregate st) \<le> length as \<and>
     (\<forall>i < length (ns_select st). scalar s key (ci_expr (ns_select st ! i)) = Inr (ps ! i)) \<and>
     (\<forall>i < length (ns_aggregate st).
        aggregated s rows (fst (ns_aggregate st ! i)) (ci_expr (snd (ns_aggregate st ! i))) = Inr (as ! i))"

lemma norm_ok_init: "norm_ok norm_init"
  by (simp add: norm_ok_def norm_init_def)

lemma norm_column_ok:
  assumes "norm_column e name st = Inr (e', st')" and "norm_ok st"
  shows "norm_ok st'" and "no_aggregates e'" and "no_aggregates e \<Longrightarrow> ns_aggregate st' = ns_aggregate st"
    and "valued s rows key ps as st' \<Longrightarrow> valued s rows key ps as st"
proof -
  obtain f aggs names where r: "extract_aggregators e (ns_aggregate_colnames st) name = Inr (f, aggs, names)"
    using assms(1) by (auto simp: norm_column_def)
  note x = extract_aggregators_spec [OF r]
  show "norm_ok st'" "no_aggregates e'" "no_aggregates e \<Longrightarrow> ns_aggregate st' = ns_aggregate st"
    using assms r x by (auto simp: norm_column_def norm_ok_def Let_def split: if_splits)
  show "valued s rows key ps as st' \<Longrightarrow> valued s rows key ps as st"
    using assms r by (auto simp: norm_column_def valued_def Let_def nth_append split: if_splits)
qed

lemma norm_column_sound:
  assumes "norm_column e name st = Inr (e', st')" and "norm_ok st" and "well_grouped e"
    and "valued s rows key ps as st'"
  shows "scalar s (final_row s ps as) e' = grouped s rows key e"
proof -
  obtain f aggs names where r: "extract_aggregators e (ns_aggregate_colnames st) name = Inr (f, aggs, names)"
    using assms(1) by (auto simp: norm_column_def)
  note x = extract_aggregators_spec [OF r]
  show ?thesis
  proof (cases "no_aggregates e")
    case True
    with assms(1,2) r x show ?thesis
      using assms(4) by (auto simp: norm_column_def norm_ok_def valued_def Let_def final_row_select grouped_scalar nth_append)
  next
    case False
    then have e': "e' = f" "ns_aggregate st' = ns_aggregate st @ aggs" using assms(1) r x(4) by (auto simp: norm_column_def)
    let ?n = "length (ns_aggregate_colnames st)"
    have n: "?n = length (ns_aggregate st)" using assms(2) by (simp add: norm_ok_def)
    have "aggregated s rows (fst (aggs ! j)) (ci_expr (snd (aggs ! j))) = Inr (final_row s ps as (ca_name (?n + j)))"
      if j: "j < length aggs" for j
    proof -
      have "?n + j < length (ns_aggregate st')" using j e'(2) n by simp
      then have "aggregated s rows (fst (ns_aggregate st' ! (?n + j))) (ci_expr (snd (ns_aggregate st' ! (?n + j))))
          = Inr (as ! (?n + j))" "?n + j < length as"
        using assms(4) by (auto simp: valued_def)
      then show ?thesis using e'(2) n by (simp add: final_row_aggregate)
    qed
    moreover have "columns_aggregated e" using assms(3) False by (simp add: well_grouped_def)
    ultimately show ?thesis using extract_aggregators_sound [OF r] e'(1) by blast
  qed
qed

text \<open>Both loops, by induction over the columns.\<close>

lemma norm_select_ok:
  assumes "norm_select select st = Inr (final, st')" and "norm_ok st"
  shows "norm_ok st' \<and> (\<forall>c \<in> set final. no_aggregates (ci_expr c)) \<and> map ci_name final = map ci_name select \<and>
    (valued s rows key ps as st' \<longrightarrow> valued s rows key ps as st \<and>
      ((\<forall>c \<in> set select. well_grouped (ci_expr c)) \<longrightarrow>
       map (\<lambda>c. scalar s (final_row s ps as) (ci_expr c)) final = map (\<lambda>c. grouped s rows key (ci_expr c)) select))"
  using assms
proof (induction select arbitrary: st final)
  case (Cons c select)
  then obtain e' st1 final' where r: "norm_column (ci_expr c) (ci_name c) st = Inr (e', st1)"
    "norm_select select st1 = Inr (final', st')" "final = \<lparr>ci_expr = e', ci_name = ci_name c\<rparr> # final'"
    by auto
  note ok = norm_column_ok [OF r(1) Cons.prems(2)]
  from Cons.IH [OF r(2) ok(1)] r(3) ok(2) ok(4) [of s rows key ps as] norm_column_sound [OF r(1) Cons.prems(2), of s rows key ps as]
  show ?case by auto
qed simp

lemma norm_order_by_ok:
  assumes "norm_order_by order st = Inr (final, st')" and "norm_ok st"
  shows "norm_ok st' \<and> (\<forall>(e, d) \<in> set final. no_aggregates e) \<and> map snd final = map snd order \<and>
    (valued s rows key ps as st' \<longrightarrow> valued s rows key ps as st \<and>
      ((\<forall>(e, d) \<in> set order. well_grouped e) \<longrightarrow>
       map (\<lambda>(e, d). scalar s (final_row s ps as) e) final = map (\<lambda>(e, d). grouped s rows key e) order))"
  using assms
proof (induction order arbitrary: st final)
  case (Cons ed order)
  obtain e d where ed: "ed = (e, d)" by (cases ed)
  with Cons obtain e' st1 final' where r: "norm_column e None st = Inr (e', st1)"
    "norm_order_by order st1 = Inr (final', st')" "final = (e', d) # final'"
    by auto
  note ok = norm_column_ok [OF r(1) Cons.prems(2)]
  from Cons.IH [OF r(2) ok(1)] r(3) ed ok(2) ok(4) [of s rows key ps as] norm_column_sound [OF r(1) Cons.prems(2), of s rows key ps as]
  show ?case by auto
qed simp

lemma rmapM_nth_iff: "rmapM f xs = Inr ys \<longleftrightarrow> length ys = length xs \<and> (\<forall>i < length xs. f (xs ! i) = Inr (ys ! i))"
proof (induction xs arbitrary: ys)
  case (Cons x xs)
  show ?case
    by (cases ys) (auto simp: Cons.IH All_less_Suc2)
qed auto

lemma phase_values_valued:
  assumes "phase_values s rows key nf = Inr (ps, as)" and "nf_projection nf = ns_select st" and "nf_aggregate nf = ns_aggregate st"
  shows "valued s rows key ps as st"
  using assms by (auto simp: phase_values_def valued_def rmapM_nth_iff case_prod_unfold)

text \<open>Without a final pass every selected column is either plain or an aggregate as a whole.\<close>

lemma extract_ColName:
  assumes "extract_aggregators e names alias = Inr (e', aggs, names')" and "is_ColName e'" and "\<not> no_aggregates e"
  shows "\<exists>a x. e = Aggregate a x \<and> aggs = [(a, \<lparr>ci_expr = x, ci_name = alias\<rparr>)]"
  using assms by (cases e) (auto simp: is_ColName_def Let_def)

lemma norm_select_ColName:
  assumes "norm_select select st = Inr (final, st')" and "\<forall>c \<in> set final. is_ColName (ci_expr c)"
  shows "map ci_expr (ns_select st') = map ci_expr (ns_select st) @ filter no_aggregates (map ci_expr select) \<and>
    map (\<lambda>(a, c). Aggregate a (ci_expr c)) (ns_aggregate st') =
      map (\<lambda>(a, c). Aggregate a (ci_expr c)) (ns_aggregate st) @ filter (\<lambda>e. \<not> no_aggregates e) (map ci_expr select)"
  using assms
proof (induction select arbitrary: st final)
  case (Cons c select)
  then obtain e' st1 final' where r: "norm_column (ci_expr c) (ci_name c) st = Inr (e', st1)"
    "norm_select select st1 = Inr (final', st')" "final = \<lparr>ci_expr = e', ci_name = ci_name c\<rparr> # final'"
    by auto
  obtain f aggs names where x: "extract_aggregators (ci_expr c) (ns_aggregate_colnames st) (ci_name c) = Inr (f, aggs, names)"
    using r(1) by (auto simp: norm_column_def)
  note ih = Cons.IH [OF r(2)]
  show ?case
  proof (cases "no_aggregates (ci_expr c)")
    case True
    then show ?thesis
      using ih r(1,3) Cons.prems(2) x extract_aggregators_spec [OF x] by (auto simp: norm_column_def Let_def)
  next
    case False
    then have e': "e' = f" using r(1) x extract_aggregators_spec(4) [OF x] by (auto simp: norm_column_def)
    then have "is_ColName f" using Cons.prems(2) r(3) by simp
    then show ?thesis
      using ih r(1,3) Cons.prems(2) x extract_ColName [OF x _ False] False by (auto simp: norm_column_def Let_def)
  qed
qed simp

lemma plain_values:
  assumes "rmapM (\<lambda>c. scalar s key (ci_expr c)) cs = Inr ps" and "\<forall>c \<in> set cs. no_aggregates (ci_expr c)"
  shows "map (grouped s rows key) (map ci_expr cs) = map Inr ps"
  using assms by (auto simp: rmapM_nth_iff grouped_scalar intro!: nth_equalityI)

lemma aggregate_values:
  assumes "rmapM (\<lambda>(a, c). aggregated s rows a (ci_expr c)) cs = Inr as"
  shows "map (grouped s rows key) (map (\<lambda>(a, c). Aggregate a (ci_expr c)) cs) = map Inr as"
  using assms by (auto simp: rmapM_nth_iff case_prod_unfold intro!: nth_equalityI)

section \<open>Nested aggregates\<close>

fun nested_aggregates :: "Expr \<Rightarrow> bool" where
  "nested_aggregates (Aggregate _ e) \<longleftrightarrow> \<not> no_aggregates e"
| "nested_aggregates (Func1 _ e) \<longleftrightarrow> nested_aggregates e"
| "nested_aggregates (Func2 _ e1 e2) \<longleftrightarrow> nested_aggregates e1 \<or> nested_aggregates e2"
| "nested_aggregates _ \<longleftrightarrow> False"

definition nested_error :: failure where
  "nested_error = Fail (TypeError ''Nested aggregates found.'')"

lemma ensure_no_aggregates_cases:
  "ensure_no_aggregates e = (if no_aggregates e then Inr () else Inl nested_error)"
  by (induction e) (auto simp: nested_error_def)

lemma extract_aggregators_result:
  "if nested_aggregates e then extract_aggregators e names alias = Inl nested_error
   else \<exists>r. extract_aggregators e names alias = Inr r"
proof (induction e arbitrary: names)
  case (Func1 t e)
  show ?case
  proof (cases "nested_aggregates e")
    case False
    then obtain f aggs names1 where "extract_aggregators e names alias = Inr (f, aggs, names1)"
      using Func1.IH [of names] by auto
    with False show ?thesis by simp
  qed (use Func1.IH [of names] in simp)
next
  case (Func2 t e1 e2)
  show ?case
  proof (cases "nested_aggregates e1")
    case True
    then show ?thesis using Func2.IH(1) [of names] by simp
  next
    case False
    then obtain f aggs names1 where 1: "extract_aggregators e1 names alias = Inr (f, aggs, names1)"
      using Func2.IH(1) [of names] by auto
    show ?thesis using Func2.IH(2) [of names1] False 1 by (cases "nested_aggregates e2") auto
  qed
qed (auto simp: ensure_no_aggregates_cases Let_def)

lemma norm_column_result:
  "if nested_aggregates e then norm_column e name st = Inl nested_error else \<exists>r. norm_column e name st = Inr r"
proof (cases "nested_aggregates e")
  case False
  then obtain f aggs names where "extract_aggregators e (ns_aggregate_colnames st) name = Inr (f, aggs, names)"
    using extract_aggregators_result [of e "ns_aggregate_colnames st" name] by auto
  with False show ?thesis by (cases "aggs = []") (simp_all add: norm_column_def Let_def)
qed (use extract_aggregators_result [of e "ns_aggregate_colnames st" name] in \<open>simp add: norm_column_def\<close>)

lemma norm_select_result:
  "if \<exists>c \<in> set select. nested_aggregates (ci_expr c) then norm_select select st = Inl nested_error
   else \<exists>r. norm_select select st = Inr r"
proof (induction select arbitrary: st)
  case (Cons c select)
  show ?case
  proof (cases "nested_aggregates (ci_expr c)")
    case True
    then show ?thesis using norm_column_result [of "ci_expr c" "ci_name c" st] by simp
  next
    case False
    then obtain e' st' where 1: "norm_column (ci_expr c) (ci_name c) st = Inr (e', st')"
      using norm_column_result [of "ci_expr c" "ci_name c" st] by auto
    show ?thesis using Cons.IH [of st'] False 1 by (auto split: if_splits)
  qed
qed simp

lemma norm_order_by_result:
  "if \<exists>(e, d) \<in> set order. nested_aggregates e then norm_order_by order st = Inl nested_error
   else \<exists>r. norm_order_by order st = Inr r"
proof (induction order arbitrary: st)
  case (Cons ed order)
  obtain e d where ed: "ed = (e, d)" by (cases ed)
  show ?case
  proof (cases "nested_aggregates e")
    case True
    then show ?thesis using norm_column_result [of e None st] ed by simp
  next
    case False
    then obtain e' st' where 1: "norm_column e None st = Inr (e', st')"
      using norm_column_result [of e None st] by auto
    show ?thesis using Cons.IH [of st'] False 1 ed by (auto split: if_splits)
  qed
qed simp

section \<open>Referenced columns\<close>

definition colnames :: "Expr \<Rightarrow> string set" where
  "colnames e = add_colnames e {}"

lemma add_colnames_union: "add_colnames e X = add_colnames e {} \<union> X"
proof (induction e arbitrary: X)
  case (Func2 t e1 e2)
  show ?case
    using Func2.IH(1) [of X] Func2.IH(2) [of "add_colnames e1 X"] Func2.IH(2) [of "add_colnames e1 {}"] by auto
next
  case (ColName c)
  show ?case by auto
next
  case (Func1 t e)
  show ?case using Func1.IH [of X] by simp
next
  case (Aggregate a e)
  show ?case using Aggregate.IH [of X] by simp
qed simp

lemma colnames_simps [simp]:
  "colnames (ColName c) = {c}" "colnames (Const v) = {}" "colnames (Func1 t e) = colnames e"
  "colnames (Func2 t2 e1 e2) = colnames e1 \<union> colnames e2" "colnames (Aggregate a e) = colnames e"
  using add_colnames_union [of e2 "add_colnames e1 {}"] by (auto simp: colnames_def)

lemma foldl_add_colnames:
  "foldl (\<lambda>X x. add_colnames (f x) X) X xs = X \<union> \<Union> ((colnames \<circ> f) ` set xs)"
proof (induction xs arbitrary: X)
  case (Cons x xs)
  show ?case using add_colnames_union [of "f x" X] by (auto simp: Cons.IH colnames_def)
qed simp

lemma find_referenced_cols_eq:
  "find_referenced_cols q = colnames (q_filter q) \<union> \<Union> (colnames ` ci_expr ` set (q_select q)) \<union>
     \<Union> (colnames ` fst ` set (q_order_by q))"
  unfolding find_referenced_cols_def foldl_add_colnames
  by (subst add_colnames_union) (auto simp: colnames_def)

lemma scalar_agree: "(\<forall>c \<in> colnames e. row c = row' c) \<Longrightarrow> scalar s row e = scalar s row' e"
proof (induction e)
  case (Func2 t e1 e2)
  then show ?case by (simp add: ball_Un)
qed auto

lemma aggregated_agree:
  assumes "list_all2 (\<lambda>row row'. \<forall>c \<in> colnames e. row c = row' c) rows rows'"
  shows "aggregated s rows a e = aggregated s rows' a e"
proof -
  have "rmapM (\<lambda>row. scalar s row e) rows = rmapM (\<lambda>row. scalar s row e) rows'"
    using assms
  proof (induction rows rows' rule: list_all2_induct)
    case (Cons row rows row' rows')
    then show ?case using scalar_agree [of e row row' s] by simp
  qed simp
  then show ?thesis by (simp add: aggregated_def)
qed

text \<open>The columns that the state of \<open>normalize\<close> refers to.\<close>

definition phase_cols :: "ColumnInfo list \<Rightarrow> (Aggregator \<times> ColumnInfo) list \<Rightarrow> string set" where
  "phase_cols select aggs = (\<Union>c \<in> set select. colnames (ci_expr c)) \<union> (\<Union>(a, c) \<in> set aggs. colnames (ci_expr c))"

abbreviation norm_cols :: "norm_state \<Rightarrow> string set" where
  "norm_cols st \<equiv> phase_cols (ns_select st) (ns_aggregate st)"

lemma phase_cols_simps [simp]:
  "phase_cols [] [] = {}" "phase_cols (select @ [c]) aggs = phase_cols select aggs \<union> colnames (ci_expr c)"
  "phase_cols select (aggs @ aggs') = phase_cols select aggs \<union> phase_cols [] aggs'"
  by (auto simp: phase_cols_def)

lemma extract_aggregators_cols:
  "extract_aggregators e names alias = Inr (e', aggs, names') \<Longrightarrow> phase_cols [] aggs \<subseteq> colnames e"
proof (induction e arbitrary: names e' aggs names')
  case (Func2 t e1 e2)
  then obtain f1 aggs1 names1 f2 aggs2 where
    r: "extract_aggregators e1 names alias = Inr (f1, aggs1, names1)"
      "extract_aggregators e2 names1 alias = Inr (f2, aggs2, names')" "aggs = aggs1 @ aggs2"
    by auto
  from Func2.IH(1) [OF r(1)] Func2.IH(2) [OF r(2)] r(3) show ?case by auto
next
  case (Func1 t e)
  then obtain e1 where r: "extract_aggregators e names alias = Inr (e1, aggs, names')" by auto
  from Func1.IH [OF r] show ?case by simp
qed (auto simp: Let_def phase_cols_def)

lemma norm_column_cols:
  assumes "norm_column e name st = Inr (e', st')"
  shows "norm_cols st' \<subseteq> norm_cols st \<union> colnames e"
proof -
  obtain f aggs names where r: "extract_aggregators e (ns_aggregate_colnames st) name = Inr (f, aggs, names)"
    using assms by (auto simp: norm_column_def)
  have "aggs = [] \<Longrightarrow> f = e" using extract_aggregators_spec(4,5) [OF r] by blast
  with assms r extract_aggregators_cols [OF r] show ?thesis
    by (auto simp: norm_column_def Let_def split: if_splits)
qed

lemma norm_select_cols:
  "norm_select select st = Inr (final, st') \<Longrightarrow> norm_cols st' \<subseteq> norm_cols st \<union> \<Union> (colnames ` ci_expr ` set select)"
proof (induction select arbitrary: st final)
  case (Cons c select)
  then obtain e' st1 final' where r: "norm_column (ci_expr c) (ci_name c) st = Inr (e', st1)"
    "norm_select select st1 = Inr (final', st')" by auto
  from Cons.IH [OF r(2)] norm_column_cols [OF r(1)] show ?case by auto
qed simp

lemma norm_order_by_cols:
  "norm_order_by order st = Inr (final, st') \<Longrightarrow> norm_cols st' \<subseteq> norm_cols st \<union> \<Union> (colnames ` fst ` set order)"
proof (induction order arbitrary: st final)
  case (Cons ed order)
  obtain e d where ed: "ed = (e, d)" by (cases ed)
  with Cons.prems obtain e' st1 final' where r: "norm_column e None st = Inr (e', st1)"
    "norm_order_by order st1 = Inr (final', st')" by auto
  from Cons.IH [OF r(2)] norm_column_cols [OF r(1)] ed show ?case by auto
qed simp

lemma normalize_cases:
  assumes "normalize q = Inr (main, final)"
  obtains (one_pass) final_projection st where "norm_select (q_select q) norm_init = Inr (final_projection, st)"
      "\<forall>c \<in> set final_projection. is_ColName (ci_expr c)" "ns_aggregate st = [] \<or> q_order_by q = []" "final = None"
      "main = \<lparr>nf_projection = ns_select st, nf_filter = q_filter q, nf_aggregate = ns_aggregate st,
               nf_order_by = q_order_by q, nf_limit = q_limit q\<rparr>"
  | (two_passes) final_projection st final_order_by st' where
      "norm_select (q_select q) norm_init = Inr (final_projection, st)"
      "norm_order_by (q_order_by q) st = Inr (final_order_by, st')"
      "main = \<lparr>nf_projection = ns_select st', nf_filter = q_filter q, nf_aggregate = ns_aggregate st',
                 nf_order_by = [], nf_limit = u64_max_limit\<rparr>"
      "final = Some \<lparr>nf_projection = final_projection, nf_filter = Const (RawInt 1), nf_aggregate = [],
                 nf_order_by = final_order_by, nf_limit = q_limit q\<rparr>"
  using assms by (auto simp: normalize_def Let_def split: if_splits)

section \<open>Main results\<close>

text \<open>A small interpretation over integers, with overflow as error, and a query with a final pass.\<close>

definition int_sem :: "int sem" where
  "int_sem = \<lparr>s_null = 0, s_const = (\<lambda>v. case v of RawInt i \<Rightarrow> i | _ \<Rightarrow> 0),
     s_func1 = (\<lambda>t x. Inr (- x)),
     s_func2 = (\<lambda>t x y. if in_i64 (x + y) then Inr (x + y) else Inl (Fail Overflow)),
     s_agg = (\<lambda>a vs. if a = Count then Inr (int (length vs)) else Inr (sum_list vs))\<rparr>"

definition sum_query :: Query where
  "sum_query = \<lparr>q_select = [\<lparr>ci_expr = ColName ''a'', ci_name = Some ''a''\<rparr>,
      \<lparr>ci_expr = Func2 Add (Aggregate SumI64 (ColName ''b'')) (Const (RawInt 1)), ci_name = Some ''s''\<rparr>],
    q_table = ''t'', q_filter = Const (RawInt 1),
    q_order_by = [(Aggregate Count (ColName ''b''), True)],
    q_limit = \<lparr>lc_limit = 10, lc_offset = 0\<rparr>\<rparr>"

definition sum_main :: NormalFormQuery where
  "sum_main = \<lparr>nf_projection = [\<lparr>ci_expr = ColName ''a'', ci_name = Some ''a''\<rparr>], nf_filter = Const (RawInt 1),
     nf_aggregate = [(SumI64, \<lparr>ci_expr = ColName ''b'', ci_name = Some ''s''\<rparr>),
                     (Count, \<lparr>ci_expr = ColName ''b'', ci_name = None\<rparr>)],
     nf_order_by = [], nf_limit = u64_max_limit\<rparr>"

definition sum_final :: NormalFormQuery where
  "sum_final = \<lparr>nf_projection = [\<lparr>ci_expr = ColName (cs_name 0), ci_name = Some ''a''\<rparr>,
      \<lparr>ci_expr = Func2 Add (ColName (ca_name 0)) (Const (RawInt 1)), ci_name = Some ''s''\<rparr>],
     nf_filter = Const (RawInt 1), nf_aggregate = [], nf_order_by = [(ColName (ca_name 1), True)],
     nf_limit = \<lparr>lc_limit = 10, lc_offset = 0\<rparr>\<rparr>"

lemma normalize_sum_query: "normalize sum_query = Inr (sum_main, Some sum_final)"
  by (simp add: normalize_def sum_query_def sum_main_def sum_final_def norm_init_def norm_column_def
      is_ColName_def Let_def del: rbind_Inr_iff)

definition sum_rows :: "int row list" where
  "sum_rows = [\<lambda>c. if c = ''a'' then 7 else 20, \<lambda>c. if c = ''a'' then 7 else 22]"

text \<open>
  C8. Normalizing a query keeps its meaning. For every group of rows, evaluating the final pass on the
  row made of the columns and aggregates of the main phase gives, column by column, the values of the
  selected expressions and of the order-by expressions on the group, errors included. Without a final
  pass the columns of the main phase are the selected expressions themselves: those without aggregates
  first, then the aggregates. This holds for queries in which no selected expression mixes an
  aggregate with a column outside of it.
\<close>

theorem normalize_correct:
  assumes "normalize q = Inr (main, final)" and "phase_values s rows key main = Inr (ps, as)"
    and "\<forall>c \<in> set (q_select q). well_grouped (ci_expr c)" and "\<forall>(e, d) \<in> set (q_order_by q). well_grouped e"
  shows "case final of
      Some f \<Rightarrow>
        map (\<lambda>c. scalar s (final_row s ps as) (ci_expr c)) (nf_projection f) =
          map (\<lambda>c. grouped s rows key (ci_expr c)) (q_select q) \<and>
        map (\<lambda>(e, d). (scalar s (final_row s ps as) e, d)) (nf_order_by f) =
          map (\<lambda>(e, d). (grouped s rows key e, d)) (q_order_by q)
    | None \<Rightarrow>
        map Inr (ps @ as) = map (grouped s rows key)
          (filter no_aggregates (map ci_expr (q_select q)) @ filter (\<lambda>e. \<not> no_aggregates e) (map ci_expr (q_select q)))"
  using assms(1)
proof (cases rule: normalize_cases)
  case (one_pass final_projection st)
  note ok = norm_select_ok [OF one_pass(1) norm_ok_init, of s rows key ps as]
  have v: "rmapM (\<lambda>c. scalar s key (ci_expr c)) (ns_select st) = Inr ps"
    "rmapM (\<lambda>(a, c). aggregated s rows a (ci_expr c)) (ns_aggregate st) = Inr as"
    using assms(2) one_pass(5) by (auto simp: phase_values_def)
  have n: "\<forall>c \<in> set (ns_select st). no_aggregates (ci_expr c)" using ok by (simp add: norm_ok_def)
  show ?thesis
    using plain_values [OF v(1) n, of rows] aggregate_values [OF v(2), of key]
      norm_select_ColName [OF one_pass(1,2)] one_pass(4) by (simp add: norm_init_def)
next
  case (two_passes final_projection st final_order_by st')
  have v: "valued s rows key ps as st'" using phase_values_valued [OF assms(2)] two_passes(3) by simp
  note sel = norm_select_ok [OF two_passes(1) norm_ok_init, of s rows key ps as]
  note ord = norm_order_by_ok [OF two_passes(2), of s rows key ps as]
  have o1: "map (\<lambda>(e, d). scalar s (final_row s ps as) e) final_order_by = map (\<lambda>(e, d). grouped s rows key e) (q_order_by q)"
    "map snd final_order_by = map snd (q_order_by q)" and v': "valued s rows key ps as st"
    using ord sel v assms(4) by auto
  have "map (\<lambda>(e, d). (scalar s (final_row s ps as) e, d)) final_order_by =
      zip (map (\<lambda>(e, d). scalar s (final_row s ps as) e) final_order_by) (map snd final_order_by)"
    by (simp add: zip_map_map case_prod_unfold map_zip_map zip_same_conv_map)
  moreover have "map (\<lambda>(e, d). (grouped s rows key e, d)) (q_order_by q) =
      zip (map (\<lambda>(e, d). grouped s rows key e) (q_order_by q)) (map snd (q_order_by q))"
    by (simp add: zip_map_map case_prod_unfold map_zip_map zip_same_conv_map)
  ultimately show ?thesis using o1 sel v' assms(3) two_passes(4) by simp
qed

theorem normalize_correct_witness:
  "map (\<lambda>c. scalar int_sem (final_row int_sem [7] [42, 2]) (ci_expr c)) (nf_projection sum_final) = [Inr 7, Inr 43] \<and>
   map (\<lambda>(e, d). (scalar int_sem (final_row int_sem [7] [42, 2]) e, d)) (nf_order_by sum_final) = [(Inr 2, True)]"
proof -
  have "phase_values int_sem sum_rows (hd sum_rows) sum_main = Inr ([7], [42, 2])"
    by (simp add: phase_values_def sum_main_def sum_rows_def aggregated_def int_sem_def del: rbind_Inr_iff)
  moreover have "\<forall>c \<in> set (q_select sum_query). well_grouped (ci_expr c)" "\<forall>(e, d) \<in> set (q_order_by sum_query). well_grouped e"
    by (simp_all add: sum_query_def well_grouped_def)
  ultimately show ?thesis
    using normalize_correct [OF normalize_sum_query, of int_sem sum_rows "hd sum_rows" "[7]" "[42, 2]"]
    by (simp add: sum_query_def sum_rows_def aggregated_def int_sem_def i64_bounds)
qed



text \<open>
  The order-by expressions of a query without a final pass are kept as they are, aggregates included:
  sorting plain columns by an aggregate is not recognized here.
\<close>

lemma order_by_keeps_aggregates:
  "normalize \<lparr>q_select = [\<lparr>ci_expr = ColName ''a'', ci_name = Some ''a''\<rparr>], q_table = ''t'', q_filter = Const (RawInt 1),
     q_order_by = [(Aggregate Count (ColName ''b''), True)], q_limit = lim\<rparr> =
   Inr (\<lparr>nf_projection = [\<lparr>ci_expr = ColName ''a'', ci_name = Some ''a''\<rparr>], nf_filter = Const (RawInt 1),
     nf_aggregate = [], nf_order_by = [(Aggregate Count (ColName ''b''), True)], nf_limit = lim\<rparr>, None)"
  by (simp add: normalize_def norm_init_def norm_column_def is_ColName_def Let_def del: rbind_Inr_iff)

text \<open>
  An expression that mixes an aggregate with a column is not well grouped: the final pass looks for
  the column among its own and reads a null.
\<close>

lemma mixed_expression_reads_null:
  assumes "\<And>i. c \<noteq> cs_name i" and "\<And>i. c \<noteq> ca_name i"
    and "extract_aggregators (Func2 t (ColName c) (Aggregate a e)) [] alias = Inr (e', aggs, names)"
  shows "e' = Func2 t (ColName c) (ColName (ca_name 0)) \<and> scalar s (final_row s ps as) (ColName c) = Inr (s_null s)"
proof -
  have "c \<notin> set (map cs_name [0..<length ps])" "c \<notin> set (map ca_name [0..<length as])" using assms(1,2) by auto
  then have "final_row s ps as c = s_null s" by (simp add: final_row_def map_add_def map_of_zip_other)
  with assms(3) show ?thesis by (auto simp: Let_def)
qed



text \<open>
  Normalizing never panics and fails only for nested aggregates. A nested aggregate among the
  selected expressions is always reported, and a query without nested aggregates has a normal form.
\<close>

theorem normalize_errors:
  "(\<forall>f. normalize q = Inl f \<longrightarrow> f = Fail (TypeError ''Nested aggregates found.'')) \<and>
   ((\<exists>c \<in> set (q_select q). nested_aggregates (ci_expr c)) \<longrightarrow> (\<exists>f. normalize q = Inl f)) \<and>
   (\<not> (\<exists>c \<in> set (q_select q). nested_aggregates (ci_expr c)) \<and> \<not> (\<exists>(e, d) \<in> set (q_order_by q). nested_aggregates e)
     \<longrightarrow> (\<exists>main final. normalize q = Inr (main, final)))"
proof (cases "\<exists>c \<in> set (q_select q). nested_aggregates (ci_expr c)")
  case True
  then have "normalize q = Inl nested_error"
    using norm_select_result [of "q_select q" norm_init] by (simp add: normalize_def)
  with True show ?thesis by (simp add: nested_error_def)
next
  case False
  then obtain fp st where 1: "norm_select (q_select q) norm_init = Inr (fp, st)"
    using norm_select_result [of "q_select q" norm_init] by auto
  show ?thesis
  proof (cases "\<exists>(e, d) \<in> set (q_order_by q). nested_aggregates e")
    case True
    then have "norm_order_by (q_order_by q) st = Inl nested_error"
      using norm_order_by_result [of "q_order_by q" st] by simp
    with 1 True False show ?thesis by (auto simp: normalize_def nested_error_def Let_def)
  next
    case f2: False
    then obtain fo st' where 2: "norm_order_by (q_order_by q) st = Inr (fo, st')"
      using norm_order_by_result [of "q_order_by q" st] by auto
    have "\<exists>main final. normalize q = Inr (main, final)"
      using 1 2 by (simp add: normalize_def Let_def)
    then show ?thesis using False by auto
  qed
qed

theorem normalize_errors_witness:
  "(\<exists>f. normalize (sum_query\<lparr>q_select := [\<lparr>ci_expr = Aggregate Count (Aggregate Count (ColName ''a'')), ci_name = None\<rparr>]\<rparr>)
      = Inl f) \<and> (\<exists>main final. normalize sum_query = Inr (main, final))"
  using normalize_errors [of "sum_query\<lparr>q_select := [\<lparr>ci_expr = Aggregate Count (Aggregate Count (ColName ''a'')), ci_name = None\<rparr>]\<rparr>"]
    normalize_errors [of sum_query] by (simp add: sum_query_def)

end
