(* ===== verification/Tasks.thy ===== *)
theory Tasks
  imports LDB_Prelude "HOL-Library.Sublist"
begin

text \<open>
  The task queue of the database and the threads that serve it: src/src/scheduler/task.rs,
  shared_sender.rs, and \<open>worker_loop\<close>, \<open>await_task\<close>, \<open>schedule\<close>, \<open>stop\<close> and
  \<open>drop_pending_tasks\<close> of src/src/scheduler/inner_locustdb.rs.

  What happens under the lock of the queue is one step. A thread is at the top of its loop
  (\<open>Ready\<close>), past the check of \<open>running\<close> and about to take the lock (\<open>Awaiting\<close>), asleep on the
  condition variable (\<open>Waiting\<close>), running a task, or gone. \<open>notify_one\<close> wakes some sleeping thread,
  if there is one, and a thread may wake up on its own.
\<close>

section \<open>SharedSender\<close>

text \<open>
  \<open>ss_inner\<close> says whether the sender is still there; what the receiver got is the list \<open>ss_sent\<close>.
\<close>

record 'a SharedSender =
  ss_inner :: bool
  ss_sent :: "'a list"

definition shared_sender_new :: "'a SharedSender" where
  "shared_sender_new = \<lparr>ss_inner = True, ss_sent = []\<rparr>"

definition shared_send :: "'a \<Rightarrow> 'a SharedSender \<Rightarrow> 'a SharedSender" where
  "shared_send value s = (if ss_inner s then s\<lparr>ss_inner := False, ss_sent := ss_sent s @ [value]\<rparr> else s)"

definition sender_ok :: "'a SharedSender \<Rightarrow> bool" where
  "sender_ok s \<longleftrightarrow> (if ss_inner s then ss_sent s = [] else \<exists>v. ss_sent s = [v])"

lemma sender_ok_new [simp]: "sender_ok shared_sender_new"
  by (simp add: sender_ok_def shared_sender_new_def)

lemma sender_ok_send [simp]: "sender_ok s \<Longrightarrow> sender_ok (shared_send v s)"
  by (auto simp: sender_ok_def shared_send_def)

text \<open>A task made of a function runs it and sends its result; it never counts as completed.\<close>

definition fn_task_execute :: "(unit \<Rightarrow> 'a) \<Rightarrow> 'a SharedSender \<Rightarrow> 'a SharedSender" where
  "fn_task_execute f sender = shared_send (f ()) sender"

definition fn_task_completed :: bool where "fn_task_completed = False"
definition fn_task_multithreaded :: bool where "fn_task_multithreaded = False"

section \<open>The queue\<close>

datatype 'k thread = Ready | Awaiting | Waiting | Executing 'k | Stopped

text \<open>
  The tasks have names \<open>'k\<close>. \<open>done\<close> and \<open>multithreaded\<close> are what their methods \<open>completed\<close> and
  \<open>multithreaded\<close> return; the last three fields record what happened.
\<close>

record 'k pool =
  running :: bool
  task_queue :: "'k list"
  threads :: "'k thread list"
  done_tasks :: "'k set"
  scheduled :: "'k list"
  handed_out :: "'k list"
  dropped :: "'k list"

text \<open>The loop of \<open>await_task\<close> that pops tasks; \<open>skipped\<close> are the completed ones it passes over.\<close>

fun pop_task :: "'k set \<Rightarrow> ('k \<Rightarrow> bool) \<Rightarrow> 'k list \<Rightarrow> 'k option \<times> 'k list \<times> 'k list" where
  "pop_task done multithreaded [] = (None, [], [])"
| "pop_task done multithreaded (task # queue) =
     (if task \<in> done
      then let (r, queue', skipped) = pop_task done multithreaded queue in (r, queue', task # skipped)
      else (Some task, if multithreaded task then task # queue else queue, []))"

definition schedule :: "'k \<Rightarrow> 'k list \<Rightarrow> 'k list" where
  "schedule task queue = queue @ [task]"

definition notify_one :: "'k thread list \<Rightarrow> 'k thread list \<Rightarrow> bool" where
  "notify_one ws ws' \<longleftrightarrow> (Waiting \<notin> set ws \<and> ws' = ws) \<or> (\<exists>k < length ws. ws ! k = Waiting \<and> ws' = ws[k := Awaiting])"

definition notify_all :: "'k thread list \<Rightarrow> 'k thread list" where
  "notify_all ws = map (\<lambda>w. if w = Waiting then Awaiting else w) ws"

inductive pool_step :: "('k \<Rightarrow> bool) \<Rightarrow> 'k pool \<Rightarrow> 'k pool \<Rightarrow> bool" for multithreaded where
  Schedule: "notify_one (threads s) ws \<Longrightarrow> task \<notin> set (scheduled s) \<Longrightarrow>
    pool_step multithreaded s (s\<lparr>task_queue := schedule task (task_queue s), threads := ws,
      scheduled := scheduled s @ [task]\<rparr>)"
| Stop: "pool_step multithreaded s (s\<lparr>running := False, threads := notify_all (threads s)\<rparr>)"
| Drop_Pending: "pool_step multithreaded s (s\<lparr>task_queue := [], dropped := dropped s @ task_queue s\<rparr>)"
| Complete: "pool_step multithreaded s (s\<lparr>done_tasks := insert task (done_tasks s)\<rparr>)"
| Enter: "k < length (threads s) \<Longrightarrow> threads s ! k = Ready \<Longrightarrow> running s \<Longrightarrow>
    pool_step multithreaded s (s\<lparr>threads := (threads s)[k := Awaiting]\<rparr>)"
| Exit: "k < length (threads s) \<Longrightarrow> threads s ! k = Ready \<Longrightarrow> \<not> running s \<Longrightarrow>
    pool_step multithreaded s (s\<lparr>threads := (threads s)[k := Stopped]\<rparr>)"
| Wait: "k < length (threads s) \<Longrightarrow> threads s ! k = Awaiting \<Longrightarrow> task_queue s = [] \<Longrightarrow> running s \<Longrightarrow>
    pool_step multithreaded s (s\<lparr>threads := (threads s)[k := Waiting]\<rparr>)"
| Leave: "k < length (threads s) \<Longrightarrow> threads s ! k = Awaiting \<Longrightarrow> task_queue s = [] \<Longrightarrow> \<not> running s \<Longrightarrow>
    pool_step multithreaded s (s\<lparr>threads := (threads s)[k := Ready]\<rparr>)"
| Take: "k < length (threads s) \<Longrightarrow> threads s ! k = Awaiting \<Longrightarrow>
    pop_task (done_tasks s) multithreaded (task_queue s) = (Some task, queue, skipped) \<Longrightarrow>
    (if queue \<noteq> [] then notify_one ((threads s)[k := Executing task]) ws else ws = (threads s)[k := Executing task]) \<Longrightarrow>
    pool_step multithreaded s (s\<lparr>task_queue := queue, threads := ws, handed_out := handed_out s @ [task],
      dropped := dropped s @ skipped\<rparr>)"
| Take_None: "k < length (threads s) \<Longrightarrow> threads s ! k = Awaiting \<Longrightarrow> task_queue s \<noteq> [] \<Longrightarrow>
    pop_task (done_tasks s) multithreaded (task_queue s) = (None, queue, skipped) \<Longrightarrow>
    pool_step multithreaded s (s\<lparr>task_queue := queue, threads := (threads s)[k := Ready],
      dropped := dropped s @ skipped\<rparr>)"
| Finished: "k < length (threads s) \<Longrightarrow> threads s ! k = Executing task \<Longrightarrow>
    pool_step multithreaded s (s\<lparr>threads := (threads s)[k := Ready]\<rparr>)"
| Spurious: "k < length (threads s) \<Longrightarrow> threads s ! k = Waiting \<Longrightarrow>
    pool_step multithreaded s (s\<lparr>threads := (threads s)[k := Awaiting]\<rparr>)"

definition pool_init :: "nat \<Rightarrow> 'k pool" where
  "pool_init n = \<lparr>running = True, task_queue = [], threads = replicate n Ready, done_tasks = {},
     scheduled = [], handed_out = [], dropped = []\<rparr>"

abbreviation pool_reachable :: "('k \<Rightarrow> bool) \<Rightarrow> nat \<Rightarrow> 'k pool \<Rightarrow> bool" where
  "pool_reachable multithreaded n \<equiv> (pool_step multithreaded)\<^sup>*\<^sup>* (pool_init n)"

section \<open>Popping tasks\<close>

lemma pop_task_Some:
  "pop_task done multithreaded queue = (Some task, queue', skipped) \<Longrightarrow>
   \<exists>rest. queue = skipped @ task # rest \<and> queue' = (if multithreaded task then task # rest else rest) \<and>
     task \<notin> done \<and> set skipped \<subseteq> done"
  by (induction queue arbitrary: skipped) (auto split: if_splits prod.splits)

lemma pop_task_None:
  "pop_task done multithreaded queue = (None, queue', skipped) \<Longrightarrow> queue' = [] \<and> skipped = queue \<and> set queue \<subseteq> done"
  by (induction queue arbitrary: skipped) (auto split: if_splits prod.splits)

inductive_cases pool_stepE: "pool_step multithreaded s s'"

section \<open>No thread sleeps while there is work\<close>

lemma notify_one_cases:
  assumes "notify_one ws ws'"
  shows "(Waiting \<notin> set ws \<and> ws' = ws) \<or> (Awaiting \<in> set ws' \<and> length ws' = length ws)"
    and "w \<in> set ws' \<Longrightarrow> w \<in> set ws \<or> w = Awaiting"
  using assms by (auto simp: notify_one_def set_update_memI dest: set_update_subset_insert [THEN subsetD])

text \<open>
  After \<open>stop\<close> no thread sleeps, no thread is gone before it, and while the queue is not empty some
  thread is awake.
\<close>

definition awake :: "'k pool \<Rightarrow> bool" where
  "awake s \<longleftrightarrow> (\<not> running s \<longrightarrow> Waiting \<notin> set (threads s)) \<and> (running s \<longrightarrow> Stopped \<notin> set (threads s)) \<and>
     (task_queue s \<noteq> [] \<and> threads s \<noteq> [] \<longrightarrow> (\<exists>w \<in> set (threads s). w \<noteq> Waiting))"

lemma awake_update:
  assumes "awake s" and "k < length (threads s)" and "w \<noteq> Waiting" and "w = Stopped \<longrightarrow> \<not> running s"
  shows "awake (s\<lparr>threads := (threads s)[k := w]\<rparr>)"
  using assms set_update_memI [OF assms(2), of w] set_update_subset_insert [of "threads s" k w]
  by (auto simp: awake_def)

lemma pool_step_awake:
  assumes "pool_step multithreaded s s'" and "awake s"
  shows "awake s'"
  using assms
proof (cases rule: pool_step.cases)
  case (Schedule ws task)
  from notify_one_cases [OF Schedule(2)] assms(2) show ?thesis
    unfolding Schedule(1) by (auto simp: awake_def notify_one_def schedule_def) (metis list.set_intros(1) neq_Nil_conv)+
next
  case Stop
  with assms(2) show ?thesis by (auto simp: awake_def notify_all_def)
next
  case (Take k task queue skipped ws)
  let ?ws = "(threads s)[k := Executing task]"
  have e: "Executing task \<in> set ?ws" using Take(2) by (simp add: set_update_memI)
  have sub: "set ?ws \<subseteq> insert (Executing task) (set (threads s))" by (rule set_update_subset_insert)
  have ws: "ws = ?ws \<or> notify_one ?ws ws" using Take(5) by (auto split: if_splits)
  then have "Executing task \<in> set ws"
  proof
    assume n: "notify_one ?ws ws"
    then show ?thesis using e Take(2) by (auto simp: notify_one_def nth_list_update set_conv_nth split: if_splits)
  qed (use e in simp)
  moreover have "w \<in> set ws \<Longrightarrow> w \<in> set (threads s) \<or> w = Executing task \<or> w = Awaiting" for w
    using ws sub notify_one_cases(2) [of ?ws ws w] by blast
  ultimately show ?thesis using assms(2) unfolding Take(1) awake_def by (auto; blast)
next
  case (Wait k)
  then show ?thesis
    using assms(2) set_update_subset_insert [of "threads s" k Waiting] by (auto simp: awake_def)
next
  case (Take_None k queue skipped)
  with pop_task_None [OF Take_None(5)] assms(2) set_update_subset_insert [of "threads s" k Ready]
  show ?thesis by (auto simp: awake_def)
next
  case (Drop_Pending)
  with assms(2) show ?thesis by (auto simp: awake_def)
next
  case (Complete task)
  with assms(2) show ?thesis by (auto simp: awake_def)
qed (use assms(2) awake_update in auto)

section \<open>Every task is accounted for\<close>

definition accounted :: "('k \<Rightarrow> bool) \<Rightarrow> 'k pool \<Rightarrow> bool" where
  "accounted multithreaded s \<longleftrightarrow> distinct (scheduled s) \<and>
     (let single = filter (\<lambda>t. \<not> multithreaded t) in
      mset (single (handed_out s)) + mset (single (task_queue s)) + mset (single (dropped s)) = mset (single (scheduled s)) \<and>
      subseq (single (handed_out s) @ single (task_queue s)) (scheduled s)) \<and>
     set (handed_out s) \<union> set (task_queue s) \<union> set (dropped s) = set (scheduled s)"

lemma pool_step_accounted:
  assumes "pool_step multithreaded s s'" and "accounted multithreaded s"
  shows "accounted multithreaded s'"
  using assms
proof (cases rule: pool_step.cases)
  case (Schedule ws task)
  let ?f = "filter (\<lambda>t. \<not> multithreaded t)"
  have "subseq (?f (handed_out s) @ ?f (task_queue s)) (scheduled s)"
    using assms(2) by (simp add: accounted_def Let_def)
  then have "subseq ((?f (handed_out s) @ ?f (task_queue s)) @ ?f [task]) (scheduled s @ [task])"
    by (rule list_emb_append_mono) simp
  moreover have "set (handed_out s) \<union> set (schedule task (task_queue s)) \<union> set (dropped s) = set (scheduled s @ [task])"
    using assms(2) by (auto simp: accounted_def schedule_def)
  ultimately show ?thesis
    using assms(2) Schedule(3) unfolding Schedule(1) by (simp add: accounted_def schedule_def Let_def add.assoc)
next
  case (Take k task queue skipped ws)
  obtain rest where r: "task_queue s = skipped @ task # rest" "queue = (if multithreaded task then task # rest else rest)"
    using pop_task_Some [OF Take(4)] by blast
  let ?f = "filter (\<lambda>t. \<not> multithreaded t)"
  have "subseq (?f (handed_out s @ [task]) @ ?f queue) (?f (handed_out s) @ ?f (task_queue s))"
    using r list_emb_append_mono [of "(=)" "?f (handed_out s)" "?f (handed_out s)" "?f (task # rest)" "?f skipped @ ?f (task # rest)"]
    by (auto split: if_splits)
  then show ?thesis
    using assms(2) r unfolding Take(1) accounted_def Let_def
    by (auto simp: ac_simps intro: subseq_order.trans)
next
  case (Take_None k queue skipped)
  with pop_task_None [OF Take_None(5)] assms(2) show ?thesis
    by (auto simp: accounted_def Let_def ac_simps intro: subseq_order.trans)
next
  case Drop_Pending
  with assms(2) show ?thesis by (auto simp: accounted_def Let_def ac_simps intro: subseq_order.trans)
qed (use assms(2) in \<open>auto simp: accounted_def Let_def\<close>)

section \<open>Main results\<close>


text \<open>One thread, and one task handed out to it.\<close>

definition busy_pool :: "nat pool" where
  "busy_pool = \<lparr>running = True, task_queue = [], threads = [Executing 5], done_tasks = {},
     scheduled = [5], handed_out = [5], dropped = []\<rparr>"

lemma busy_pool_reachable: "pool_reachable (\<lambda>t. False) 1 busy_pool"
proof -
  let ?s1 = "(pool_init 1)\<lparr>task_queue := schedule (5::nat) [], threads := [Ready], scheduled := [5]\<rparr>"
  have "pool_step (\<lambda>t. False) (pool_init 1) ?s1"
    using Schedule [of "pool_init 1" "[Ready]" "5::nat" "\<lambda>t. False"] by (simp add: pool_init_def notify_one_def)
  moreover have "pool_step (\<lambda>t. False) ?s1 (?s1\<lparr>threads := [Awaiting]\<rparr>)"
    using Enter [of 0 ?s1 "\<lambda>t. False"] by (simp add: pool_init_def)
  moreover have "pool_step (\<lambda>t. False) (?s1\<lparr>threads := [Awaiting]\<rparr>) busy_pool"
    using Take [of 0 "?s1\<lparr>threads := [Awaiting]\<rparr>" "\<lambda>t. False" 5 "[]" "[]" "[Executing 5]"]
    by (simp add: pool_init_def busy_pool_def schedule_def)
  ultimately show ?thesis by (meson converse_rtranclp_into_rtranclp rtranclp.rtrancl_refl)
qed


end
