(* ===== verification/Storage.thy ===== *)
theory Storage
  imports Ingestion "HOL-Library.Char_ord"
begin

text \<open>
  Where columns live: the handles and partitions of src/src/mem_store/partition.rs, tables with their
  partitions and buffer (table.rs), the least-recently-used list that decides what is evicted
  (lru.rs), and the part of src/src/scheduler/inner_locustdb.rs that stores, restores and evicts.

  The objects are shared and changed in place under locks; here every operation takes the objects it
  changes and returns them. The \<open>LruCache\<close> of the \<open>lru\<close> crate is a parameter, a record of its
  operations, with its documented behaviour as hypothesis. How many bytes a column or a buffer
  occupies depends on the capacities of vectors and is a parameter too. Partition ids, \<open>u64\<close> in the
  sources, are natural numbers. The order in which a \<open>HashMap\<close> is iterated is a parameter \<open>order\<close>.
\<close>

type_synonym PartitionID = nat
type_synonym ColumnKey = "PartitionID \<times> string"

definition u64_MAX :: nat where "u64_MAX = 2 ^ 64 - 1"

section \<open>lru.rs\<close>

record 'l lru_ops =
  cache_get :: "ColumnKey \<Rightarrow> 'l \<Rightarrow> 'l"
  cache_put :: "ColumnKey \<Rightarrow> 'l \<Rightarrow> 'l"
  cache_pop :: "ColumnKey \<Rightarrow> 'l \<Rightarrow> 'l"
  cache_pop_lru :: "'l \<Rightarrow> (ColumnKey \<times> 'l) option"
  cache_keys :: "'l \<Rightarrow> ColumnKey list"

text \<open>
  The documented behaviour of an unbounded \<open>LruCache\<close>: its keys from the least to the most recently
  used one, without duplicates.
\<close>

definition lru_laws :: "'l lru_ops \<Rightarrow> bool" where
  "lru_laws ops \<longleftrightarrow>
     (\<forall>l. distinct (cache_keys ops l)) \<and>
     (\<forall>k l. cache_keys ops (cache_put ops k l) = filter ((\<noteq>) k) (cache_keys ops l) @ [k]) \<and>
     (\<forall>k l. cache_keys ops (cache_get ops k l) =
        (if k \<in> set (cache_keys ops l) then filter ((\<noteq>) k) (cache_keys ops l) @ [k] else cache_keys ops l)) \<and>
     (\<forall>k l. cache_keys ops (cache_pop ops k l) = filter ((\<noteq>) k) (cache_keys ops l)) \<and>
     (\<forall>l. cache_keys ops l = [] \<longrightarrow> cache_pop_lru ops l = None) \<and>
     (\<forall>l k ks. cache_keys ops l = k # ks \<longrightarrow>
        (\<exists>l'. cache_pop_lru ops l = Some (k, l') \<and> cache_keys ops l' = ks))"

definition lru_touch :: "'l lru_ops \<Rightarrow> ColumnKey \<Rightarrow> 'l \<Rightarrow> 'l" where
  "lru_touch ops column l = cache_get ops column l"

definition lru_put :: "'l lru_ops \<Rightarrow> ColumnKey \<Rightarrow> 'l \<Rightarrow> 'l" where
  "lru_put ops column l = cache_put ops column l"

definition lru_remove :: "'l lru_ops \<Rightarrow> ColumnKey \<Rightarrow> 'l \<Rightarrow> 'l" where
  "lru_remove ops column l = cache_pop ops column l"

definition lru_evict :: "'l lru_ops \<Rightarrow> 'l \<Rightarrow> (ColumnKey \<times> 'l) option" where
  "lru_evict ops l = cache_pop_lru ops l"

section \<open>ColumnHandle\<close>

record ColumnHandle =
  h_key :: ColumnKey
  h_size_bytes :: nat
  h_resident :: bool
  h_load_scheduled :: bool
  h_col :: "Column option"

definition handle_resident :: "(Column \<Rightarrow> nat) \<Rightarrow> PartitionID \<Rightarrow> Column \<Rightarrow> ColumnHandle" where
  "handle_resident heap pid col =
     \<lparr>h_key = (pid, col_name col), h_size_bytes = heap col, h_resident = True,
      h_load_scheduled = False, h_col = Some col\<rparr>"

definition handle_non_resident :: "PartitionID \<Rightarrow> string \<Rightarrow> nat \<Rightarrow> ColumnHandle" where
  "handle_non_resident pid name size_bytes =
     \<lparr>h_key = (pid, name), h_size_bytes = size_bytes, h_resident = False,
      h_load_scheduled = False, h_col = None\<rparr>"

definition handle_name :: "ColumnHandle \<Rightarrow> string" where
  "handle_name h = snd (h_key h)"

definition handle_heap_size :: "ColumnHandle \<Rightarrow> nat" where
  "handle_heap_size h = (if h_resident h then h_size_bytes h else 0)"

section \<open>Partition\<close>

record Partition =
  p_id :: PartitionID
  p_len :: nat
  p_cols :: "ColumnHandle list"

definition partition_new ::
    "(Column \<Rightarrow> nat) \<Rightarrow> PartitionID \<Rightarrow> Column list \<Rightarrow> (Partition \<times> ColumnKey list) res" where
  "partition_new heap pid cols =
     rbind (index cols 0) (\<lambda>c0.
       Inr (\<lparr>p_id = pid, p_len = col_len c0, p_cols = map (handle_resident heap pid) cols\<rparr>,
            map (\<lambda>c. (pid, col_name c)) cols))"

record ColumnMetadata =
  cm_name :: string
  cm_size_bytes :: nat

record PartitionMetadata =
  pm_id :: PartitionID
  pm_tablename :: string
  pm_len :: nat
  pm_columns :: "ColumnMetadata list"

definition partition_nonresident :: "PartitionID \<Rightarrow> nat \<Rightarrow> ColumnMetadata list \<Rightarrow> Partition" where
  "partition_nonresident pid len cols =
     \<lparr>p_id = pid, p_len = len,
      p_cols = map (\<lambda>c. handle_non_resident pid (cm_name c) (cm_size_bytes c)) cols\<rparr>"

definition partition_from_buffer ::
    "externs \<Rightarrow> float_ops \<Rightarrow> (Column \<Rightarrow> nat) \<Rightarrow> ((string \<rightharpoonup> MixedCol) \<Rightarrow> string list) \<Rightarrow> PartitionID \<Rightarrow> Buffer \<Rightarrow>
     (Partition \<times> ColumnKey list) res" where
  "partition_from_buffer ext fo heap order pid b =
     rbind (rmapM (\<lambda>name. rbind (unwrap (bf_buffer b name)) (\<lambda>raw_col. mixed_finalize ext fo raw_col name))
              (order (bf_buffer b)))
       (partition_new heap pid)"

definition col_names :: "Partition \<Rightarrow> string list" where
  "col_names p = map handle_name (p_cols p)"

definition non_residents :: "Partition \<Rightarrow> string set \<Rightarrow> string set" where
  "non_residents p cols = handle_name ` set (filter (\<lambda>h. \<not> h_resident h \<and> handle_name h \<in> cols) (p_cols p))"

definition nonresidents_match :: "Partition \<Rightarrow> string set \<Rightarrow> string set \<Rightarrow> bool" where
  "nonresidents_match p nonresidents eligible \<longleftrightarrow>
     (\<forall>h \<in> set (p_cols p).
        if h_resident h then handle_name h \<notin> nonresidents
        else \<not> (handle_name h \<in> eligible \<and> handle_name h \<notin> nonresidents))"

definition promise_load :: "Partition \<Rightarrow> string set \<Rightarrow> Partition \<times> nat" where
  "promise_load p cols =
     (p\<lparr>p_cols := map (\<lambda>h. if handle_name h \<in> cols then h\<lparr>h_load_scheduled := True\<rparr> else h) (p_cols p)\<rparr>,
      sum_list (map h_size_bytes (filter (\<lambda>h. handle_name h \<in> cols) (p_cols p))))"

fun restore_handles :: "'l lru_ops \<Rightarrow> Column \<Rightarrow> ColumnHandle list \<Rightarrow> 'l \<Rightarrow> ColumnHandle list \<times> 'l" where
  "restore_handles ops col [] l = ([], l)"
| "restore_handles ops col (h # hs) l =
     (if handle_name h = col_name col
      then let l' = (if h_col h = None then lru_put ops (h_key h) l else l);
               (hs', l'') = restore_handles ops col hs l'
           in (h\<lparr>h_col := Some col, h_resident := True, h_load_scheduled := False\<rparr> # hs', l'')
      else let (hs', l') = restore_handles ops col hs l in (h # hs', l'))"

definition partition_restore :: "'l lru_ops \<Rightarrow> Column \<Rightarrow> Partition \<Rightarrow> 'l \<Rightarrow> Partition \<times> 'l" where
  "partition_restore ops col p l =
     (let (hs, l') = restore_handles ops col (p_cols p) l in (p\<lparr>p_cols := hs\<rparr>, l'))"

fun evict_handles :: "'l lru_ops \<Rightarrow> string \<Rightarrow> ColumnHandle list \<Rightarrow> 'l \<Rightarrow> nat \<times> ColumnHandle list \<times> 'l" where
  "evict_handles ops name [] l = (0, [], l)"
| "evict_handles ops name (h # hs) l =
     (if handle_name h = name
      then (handle_heap_size h, h\<lparr>h_resident := False, h_col := None\<rparr> # hs, lru_remove ops (h_key h) l)
      else let (n, hs', l') = evict_handles ops name hs l in (n, h # hs', l'))"

definition partition_evict :: "'l lru_ops \<Rightarrow> string \<Rightarrow> Partition \<Rightarrow> 'l \<Rightarrow> nat \<times> Partition \<times> 'l" where
  "partition_evict ops name p l =
     (let (n, hs, l') = evict_handles ops name (p_cols p) l in (n, p\<lparr>p_cols := hs\<rparr>, l'))"

definition col_heap :: "(Column \<Rightarrow> nat) \<Rightarrow> ColumnHandle \<Rightarrow> nat" where
  "col_heap heap h = (case h_col h of Some x \<Rightarrow> heap x | None \<Rightarrow> 0)"

definition heap_size_per_column :: "(Column \<Rightarrow> nat) \<Rightarrow> Partition \<Rightarrow> (string \<times> nat) list" where
  "heap_size_per_column heap p = map (\<lambda>h. (handle_name h, col_heap heap h)) (p_cols p)"

definition partition_heap_size :: "(Column \<Rightarrow> nat) \<Rightarrow> Partition \<Rightarrow> nat" where
  "partition_heap_size heap p = sum_list (map (col_heap heap) (p_cols p))"

section \<open>Table\<close>

record Table =
  t_name :: string
  t_batch_size :: nat
  t_partitions :: "PartitionID \<rightharpoonup> Partition"
  t_buffer :: Buffer

definition batch_size_override :: "nat \<Rightarrow> string \<Rightarrow> nat" where
  "batch_size_override batch_size tablename =
     (if tablename = ''_meta_tables'' then 1
      else if tablename = ''_meta_queries'' then 10
      else batch_size)"

definition table_new :: "nat \<Rightarrow> string \<Rightarrow> Table" where
  "table_new batch_size name =
     \<lparr>t_name = name, t_batch_size = batch_size_override batch_size name,
      t_partitions = Map.empty, t_buffer = buffer_default\<rparr>"

definition insert_nonresident_partition :: "PartitionMetadata \<Rightarrow> Table \<Rightarrow> Table" where
  "insert_nonresident_partition md t =
     t\<lparr>t_partitions := (t_partitions t)(pm_id md \<mapsto> partition_nonresident (pm_id md) (pm_len md) (pm_columns md))\<rparr>"

definition load_table_metadata :: "nat \<Rightarrow> PartitionMetadata list \<Rightarrow> (string \<rightharpoonup> Table)" where
  "load_table_metadata batch_size metadata =
     foldl (\<lambda>tables md.
       tables(pm_tablename md \<mapsto> insert_nonresident_partition md
         (case tables (pm_tablename md) of Some t \<Rightarrow> t | None \<Rightarrow> table_new batch_size (pm_tablename md))))
       Map.empty metadata"

definition table_restore :: "'l lru_ops \<Rightarrow> PartitionID \<Rightarrow> Column \<Rightarrow> Table \<Rightarrow> 'l \<Rightarrow> (Table \<times> 'l) res" where
  "table_restore ops pid col t l =
     rbind (unwrap (t_partitions t pid)) (\<lambda>p.
       let (p', l') = partition_restore ops col p l
       in Inr (t\<lparr>t_partitions := (t_partitions t)(pid \<mapsto> p')\<rparr>, l'))"

definition table_evict :: "'l lru_ops \<Rightarrow> ColumnKey \<Rightarrow> Table \<Rightarrow> 'l \<Rightarrow> nat \<times> Table \<times> 'l" where
  "table_evict ops key t l =
     (case t_partitions t (fst key) of
        None \<Rightarrow> (0, t, l)
      | Some p \<Rightarrow>
          let (n, p', l') = partition_evict ops (snd key) p l
          in (n, t\<lparr>t_partitions := (t_partitions t)(fst key \<mapsto> p')\<rparr>, l'))"

definition load_partition :: "Partition \<Rightarrow> Table \<Rightarrow> Table" where
  "load_partition p t = t\<lparr>t_partitions := (t_partitions t)(p_id p \<mapsto> p)\<rparr>"

text \<open>What building partitions depends on besides the table.\<close>

record env =
  e_ext :: externs
  e_floats :: float_ops
  e_heap :: "Column \<Rightarrow> nat"
  e_buffer_heap :: "Buffer \<Rightarrow> nat"
  e_order :: "(string \<rightharpoonup> MixedCol) \<Rightarrow> string list"

definition table_batch :: "env \<Rightarrow> 'l lru_ops \<Rightarrow> Table \<Rightarrow> 'l \<Rightarrow> (Table \<times> 'l) res" where
  "table_batch e ops t l =
     rbind (partition_from_buffer (e_ext e) (e_floats e) (e_heap e) (e_order e) 0 (t_buffer t)) (\<lambda>(p, keys).
       let pid = card (dom (t_partitions t)) in
       Inr (t\<lparr>t_buffer := buffer_default, t_partitions := (t_partitions t)(pid \<mapsto> p\<lparr>p_id := pid\<rparr>)\<rparr>,
            foldl (\<lambda>l key. lru_put ops key l) l keys))"

definition batch_if_needed :: "env \<Rightarrow> 'l lru_ops \<Rightarrow> Table \<Rightarrow> 'l \<Rightarrow> (Table \<times> 'l) res" where
  "batch_if_needed e ops t l =
     (if bf_length (t_buffer t) < t_batch_size t then Inr (t, l) else table_batch e ops t l)"

definition table_ingest :: "env \<Rightarrow> 'l lru_ops \<Rightarrow> (string \<times> RawVal) list \<Rightarrow> Table \<Rightarrow> 'l \<Rightarrow> (Table \<times> 'l) res" where
  "table_ingest e ops row t l =
     batch_if_needed e ops (t\<lparr>t_buffer := buffer_push_row (t_buffer t) row\<rparr>) l"

definition ingest_homogeneous :: "(string \<times> InputColumn) list \<Rightarrow> Table \<Rightarrow> Table" where
  "ingest_homogeneous columns t = t\<lparr>t_buffer := buffer_push_typed_cols (t_buffer t) columns\<rparr>"

definition ingest_heterogeneous ::
    "env \<Rightarrow> 'l lru_ops \<Rightarrow> (string \<times> RawVal list) list \<Rightarrow> Table \<Rightarrow> 'l \<Rightarrow> (Table \<times> 'l) res" where
  "ingest_heterogeneous e ops columns t l =
     batch_if_needed e ops (t\<lparr>t_buffer := buffer_push_untyped_cols (t_buffer t) columns\<rparr>) l"

text \<open>\<open>ids\<close> are the keys of the partitions in iteration order.\<close>

definition table_snapshot :: "env \<Rightarrow> PartitionID list \<Rightarrow> Table \<Rightarrow> Partition list res" where
  "table_snapshot e ids t =
     (let ps = map (\<lambda>i. the (t_partitions t i)) ids in
      if bf_length (t_buffer t) > 0
      then rmap (\<lambda>(p, _). ps @ [p])
             (partition_from_buffer (e_ext e) (e_floats e) (e_heap e) (e_order e) u64_MAX (t_buffer t))
      else Inr ps)"

definition table_heap_size :: "env \<Rightarrow> Table \<Rightarrow> nat" where
  "table_heap_size e t =
     (\<Sum>i \<in> dom (t_partitions t). partition_heap_size (e_heap e) (the (t_partitions t i))) + e_buffer_heap e (t_buffer t)"

definition max_partition_id :: "Table \<Rightarrow> PartitionID" where
  "max_partition_id t = (if dom (t_partitions t) = {} then 0 else Max (dom (t_partitions t)))"

section \<open>Eviction\<close>

text \<open>\<open>mem_usage_bytes -= n\<close> on a \<open>usize\<close>, which wraps in a release build.\<close>

definition usize_sub :: "nat \<Rightarrow> nat \<Rightarrow> nat" where
  "usize_sub a b = (if b \<le> a then a - b else a + 2 ^ 64 - b)"

fun evict_tables :: "'l lru_ops \<Rightarrow> ColumnKey \<Rightarrow> nat \<Rightarrow> Table list \<Rightarrow> 'l \<Rightarrow> nat \<times> Table list \<times> 'l" where
  "evict_tables ops victim mem [] l = (mem, [], l)"
| "evict_tables ops victim mem (t # ts) l =
     (let (n, t', l') = table_evict ops victim t l;
          (mem', ts', l'') = evict_tables ops victim (usize_sub mem n) ts l'
      in (mem', t' # ts', l''))"

text \<open>The loop of \<open>enforce_mem_limit\<close> over the tables in iteration order; it may not end.\<close>

partial_function (option) evict_loop ::
    "'l lru_ops \<Rightarrow> nat \<Rightarrow> nat \<Rightarrow> Table list \<Rightarrow> 'l \<Rightarrow> (nat \<times> Table list \<times> 'l) option" where
  "evict_loop ops limit mem ts l =
     (if mem > limit
      then (case lru_evict ops l of
              Some (victim, l') \<Rightarrow>
                let (mem', ts', l'') = evict_tables ops victim mem ts l' in evict_loop ops limit mem' ts' l''
            | None \<Rightarrow> Some (mem, ts, l))
      else Some (mem, ts, l))"

definition enforce_mem_limit ::
    "env \<Rightarrow> 'l lru_ops \<Rightarrow> nat \<Rightarrow> Table list \<Rightarrow> 'l \<Rightarrow> (nat \<times> Table list \<times> 'l) option" where
  "enforce_mem_limit e ops limit ts l = evict_loop ops limit (sum_list (map (table_heap_size e) ts)) ts l"

section \<open>Consistent handles\<close>

text \<open>
  A handle is consistent when its flag says whether the column is there and its size is that of the
  column. The keys of a partition name the partition, and no two columns share a name.
\<close>

definition handle_ok :: "(Column \<Rightarrow> nat) \<Rightarrow> ColumnHandle \<Rightarrow> bool" where
  "handle_ok heap h \<longleftrightarrow> (h_resident h \<longleftrightarrow> h_col h \<noteq> None) \<and> (\<forall>c. h_col h = Some c \<longrightarrow> h_size_bytes h = heap c)"

definition partition_ok :: "(Column \<Rightarrow> nat) \<Rightarrow> PartitionID \<Rightarrow> Partition \<Rightarrow> bool" where
  "partition_ok heap i p \<longleftrightarrow> p_id p = i \<and> distinct (col_names p) \<and>
     (\<forall>h \<in> set (p_cols p). handle_ok heap h \<and> fst (h_key h) = i)"

definition table_ok :: "env \<Rightarrow> Table \<Rightarrow> bool" where
  "table_ok e t \<longleftrightarrow> finite (dom (t_partitions t)) \<and>
     (\<forall>i p. t_partitions t i = Some p \<longrightarrow> partition_ok (e_heap e) i p)"

definition partition_residents :: "Partition \<Rightarrow> ColumnKey set" where
  "partition_residents p = h_key ` set (filter h_resident (p_cols p))"

definition resident_keys :: "Table \<Rightarrow> ColumnKey set" where
  "resident_keys t = \<Union> (partition_residents ` ran (t_partitions t))"

lemma handle_heap_eq: "handle_ok heap h \<Longrightarrow> handle_heap_size h = col_heap heap h"
  by (cases "h_col h") (auto simp: handle_ok_def handle_heap_size_def col_heap_def)

definition evicted :: "string \<Rightarrow> ColumnHandle \<Rightarrow> ColumnHandle" where
  "evicted name h = (if handle_name h = name then h\<lparr>h_resident := False, h_col := None\<rparr> else h)"

lemma evicted_simps [simp]:
  "h_key (evicted name h) = h_key h" "handle_name (evicted name h) = handle_name h"
  "h_resident (evicted name h) \<longleftrightarrow> h_resident h \<and> handle_name h \<noteq> name"
  "col_heap heap (evicted name h) = (if handle_name h = name then 0 else col_heap heap h)"
  by (auto simp: evicted_def handle_name_def col_heap_def)

lemma evicted_ok: "handle_ok heap h \<Longrightarrow> handle_ok heap (evicted name h)"
  by (auto simp: handle_ok_def evicted_def)

lemma map_evicted_other: "name \<notin> handle_name ` set hs \<Longrightarrow> map (evicted name) hs = hs"
  by (induction hs) (auto simp: evicted_def)

text \<open>Evicting gives the bytes it freed, empties exactly the named handle and drops its key.\<close>

lemma evict_handles_spec:
  assumes "distinct (map handle_name hs)" and "\<forall>h \<in> set hs. handle_ok heap h"
    and "evict_handles ops name hs l = (n, hs', l')"
  shows "hs' = map (evicted name) hs \<and> sum_list (map (col_heap heap) hs) = n + sum_list (map (col_heap heap) hs') \<and>
    l' = (case find (\<lambda>h. handle_name h = name) hs of Some h \<Rightarrow> lru_remove ops (h_key h) l | None \<Rightarrow> l)"
  using assms
proof (induction hs arbitrary: n hs' l')
  case (Cons h hs)
  show ?case
  proof (cases "handle_name h = name")
    case True
    with Cons.prems have r: "n = handle_heap_size h" "hs' = h\<lparr>h_resident := False, h_col := None\<rparr> # hs"
      "l' = lru_remove ops (h_key h) l" by auto
    have "name \<notin> handle_name ` set hs" using Cons.prems(1) True by auto
    then have "hs' = map (evicted name) (h # hs)" using True r by (simp add: map_evicted_other evicted_def)
    then show ?thesis using True r Cons.prems(2) by (simp add: handle_heap_eq [of heap])
  next
    case False
    then obtain hs'' where e: "evict_handles ops name hs l = (n, hs'', l')" "hs' = h # hs''"
      using Cons.prems(3) by (auto split: prod.splits)
    with Cons.IH [OF _ _ e(1)] Cons.prems(1,2) False show ?thesis by (simp add: evicted_def)
  qed
qed simp

definition partition_evicted :: "string \<Rightarrow> Partition \<Rightarrow> Partition" where
  "partition_evicted name p = p\<lparr>p_cols := map (evicted name) (p_cols p)\<rparr>"

lemma partition_evict_spec:
  assumes "partition_ok heap i p" and "partition_evict ops name p l = (n, p', l')"
  shows "p' = partition_evicted name p \<and> partition_heap_size heap p = n + partition_heap_size heap p' \<and>
    (l' = l \<or> l' = lru_remove ops (i, name) l)"
proof -
  obtain hs where e: "evict_handles ops name (p_cols p) l = (n, hs, l')" "p' = p\<lparr>p_cols := hs\<rparr>"
    using assms(2) by (auto simp: partition_evict_def split: prod.splits)
  have ok: "distinct (map handle_name (p_cols p))" "\<forall>h \<in> set (p_cols p). handle_ok heap h"
    using assms(1) by (simp_all add: partition_ok_def col_names_def)
  note r = evict_handles_spec [OF ok e(1)]
  have "h_key h = (i, name)" if "find (\<lambda>h. handle_name h = name) (p_cols p) = Some h" for h
    using that assms(1) unfolding find_Some_iff
    by (auto simp: partition_ok_def handle_name_def intro: prod_eqI)
  with r e(2) show ?thesis
    by (auto simp: partition_evicted_def partition_heap_size_def split: option.splits)
qed

lemma partition_evicted_ok: "partition_ok heap i p \<Longrightarrow> partition_ok heap i (partition_evicted name p)"
  by (auto simp: partition_ok_def partition_evicted_def col_names_def comp_def evicted_ok)

lemma partition_evicted_residents:
  assumes "partition_ok heap i p"
  shows "partition_residents (partition_evicted name p) = partition_residents p - {(i, name)}"
proof -
  have "h_key h = (i, handle_name h)" if "h \<in> set (p_cols p)" for h
    using that assms by (auto simp: partition_ok_def handle_name_def intro: prod_eqI)
  then show ?thesis
    by (force simp: partition_residents_def partition_evicted_def)
qed

section \<open>Eviction keeps tables consistent\<close>

lemma sum_dom_update:
  assumes "finite (dom m)" and "m i = Some p"
  shows "(\<Sum>j \<in> dom m. f (the ((m(i \<mapsto> q)) j))) + f p = (\<Sum>j \<in> dom m. f (the (m j))) + (f q :: nat)"
proof -
  have i: "i \<in> dom m" using assms(2) by auto
  have same: "(\<Sum>j \<in> dom m - {i}. f (the ((m(i \<mapsto> q)) j))) = (\<Sum>j \<in> dom m - {i}. f (the (m j)))"
    by (rule sum.cong) auto
  show ?thesis
    using sum.remove [OF assms(1) i, of "\<lambda>j. f (the ((m(i \<mapsto> q)) j))"]
      sum.remove [OF assms(1) i, of "\<lambda>j. f (the (m j))"] same assms(2) by simp
qed

lemma resident_keys_iff:
  assumes "table_ok e t"
  shows "key \<in> resident_keys t \<longleftrightarrow> (\<exists>p. t_partitions t (fst key) = Some p \<and> key \<in> partition_residents p)"
proof
  assume "key \<in> resident_keys t"
  then obtain i p h where h: "t_partitions t i = Some p" "h \<in> set (p_cols p)" "h_key h = key" "h_resident h"
    by (auto simp: resident_keys_def partition_residents_def ran_def)
  with assms have "fst key = i" by (auto simp: table_ok_def partition_ok_def)
  with h show "\<exists>p. t_partitions t (fst key) = Some p \<and> key \<in> partition_residents p"
    by (auto simp: partition_residents_def)
qed (auto simp: resident_keys_def ran_def)

lemma table_ok_update:
  assumes "table_ok e t" and "partition_ok (e_heap e) i p"
  shows "table_ok e (t\<lparr>t_partitions := (t_partitions t)(i \<mapsto> p)\<rparr>)"
  using assms by (auto simp: table_ok_def)

lemma table_evict_spec:
  assumes t: "table_ok e t" and r: "table_evict ops key t l = (n, t', l')"
  shows "table_ok e t'" and "table_heap_size e t = n + table_heap_size e t'"
    and "resident_keys t' = resident_keys t - {key}" and "l' = l \<or> l' = lru_remove ops key l"
proof -
  have "table_ok e t' \<and> table_heap_size e t = n + table_heap_size e t' \<and>
    resident_keys t' = resident_keys t - {key} \<and> (l' = l \<or> l' = lru_remove ops key l)"
  proof (cases "t_partitions t (fst key)")
    case None
    then have "key \<notin> resident_keys t" using resident_keys_iff [OF t] by simp
    with r t None show ?thesis by (auto simp: table_evict_def)
  next
    case (Some p)
    obtain p' where e: "partition_evict ops (snd key) p l = (n, p', l')"
      "t' = t\<lparr>t_partitions := (t_partitions t)(fst key \<mapsto> p')\<rparr>"
      using r Some by (auto simp: table_evict_def split: prod.splits)
    have p: "partition_ok (e_heap e) (fst key) p" using t Some by (simp add: table_ok_def)
    note s = partition_evict_spec [OF p e(1)]
    have fin: "finite (dom (t_partitions t))" using t by (simp add: table_ok_def)
    have dom: "dom (t_partitions t') = dom (t_partitions t)" using e(2) Some by auto
    have "partition_heap_size (e_heap e) p = n + partition_heap_size (e_heap e) p'" using s by simp
    then have size: "table_heap_size e t = n + table_heap_size e t'"
      using sum_dom_update [OF fin Some, of "partition_heap_size (e_heap e)" p'] e(2) dom
      by (simp add: table_heap_size_def)
    have ok: "table_ok e t'"
      unfolding e(2) using t s partition_evicted_ok [OF p] by (intro table_ok_update) auto
    have "k \<in> resident_keys t' \<longleftrightarrow> k \<in> resident_keys t - {key}" for k
      using s partition_evicted_residents [OF p, of "snd key"] Some e(2)
      unfolding Diff_iff resident_keys_iff [OF t] resident_keys_iff [OF ok] by auto
    with size ok s show ?thesis by auto
  qed
  then show "table_ok e t'" "table_heap_size e t = n + table_heap_size e t'"
    "resident_keys t' = resident_keys t - {key}" "l' = l \<or> l' = lru_remove ops key l" by auto
qed

lemma lru_remove_keys:
  "lru_laws ops \<Longrightarrow> cache_keys ops (lru_remove ops k l) = filter ((\<noteq>) k) (cache_keys ops l)"
  unfolding lru_laws_def lru_remove_def by blast

lemma lru_evict_keys:
  assumes "lru_laws ops"
  shows "cache_keys ops l = [] \<Longrightarrow> lru_evict ops l = None"
    and "cache_keys ops l = k # ks \<Longrightarrow> \<exists>l'. lru_evict ops l = Some (k, l') \<and> cache_keys ops l' = ks \<and> k \<notin> set ks"
proof -
  show "cache_keys ops l = [] \<Longrightarrow> lru_evict ops l = None"
    using assms unfolding lru_laws_def lru_evict_def by blast
  assume k: "cache_keys ops l = k # ks"
  then obtain l' where "cache_pop_lru ops l = Some (k, l')" "cache_keys ops l' = ks"
    using assms unfolding lru_laws_def by blast
  moreover have "distinct (cache_keys ops l)" using assms unfolding lru_laws_def by blast
  ultimately show "\<exists>l'. lru_evict ops l = Some (k, l') \<and> cache_keys ops l' = ks \<and> k \<notin> set ks"
    using k by (auto simp: lru_evict_def)
qed

lemma lru_put_keys:
  "lru_laws ops \<Longrightarrow> set (cache_keys ops (lru_put ops k l)) = insert k (set (cache_keys ops l))"
proof -
  assume "lru_laws ops"
  then have "cache_keys ops (cache_put ops k l) = filter ((\<noteq>) k) (cache_keys ops l) @ [k]"
    unfolding lru_laws_def by blast
  then show ?thesis by (auto simp: lru_put_def)
qed

lemma evict_tables_spec:
  assumes "lru_laws ops" and "\<forall>t \<in> set ts. table_ok e t" and "victim \<notin> set (cache_keys ops l)"
    and "evict_tables ops victim (rest + sum_list (map (table_heap_size e) ts)) ts l = (mem', ts', l')"
  shows "(\<forall>t \<in> set ts'. table_ok e t) \<and> mem' = rest + sum_list (map (table_heap_size e) ts') \<and>
    (\<Union> (resident_keys ` set ts')) = (\<Union> (resident_keys ` set ts)) - {victim} \<and>
    cache_keys ops l' = cache_keys ops l"
  using assms(2-4)
proof (induction ts arbitrary: rest l mem' ts' l')
  case (Cons t ts)
  obtain n t1 l1 where e: "table_evict ops victim t l = (n, t1, l1)" by (metis prod_cases3)
  note s = table_evict_spec [OF _ e, of e]
  have tok: "table_ok e t" using Cons.prems(1) by simp
  have sub: "usize_sub (rest + sum_list (map (table_heap_size e) (t # ts))) n =
      (rest + table_heap_size e t1) + sum_list (map (table_heap_size e) ts)"
    using s(2) [OF tok] by (simp add: usize_sub_def)
  obtain ts1 where r: "evict_tables ops victim ((rest + table_heap_size e t1) + sum_list (map (table_heap_size e) ts)) ts l1
      = (mem', ts1, l')" "ts' = t1 # ts1"
    using Cons.prems(3) e sub by (auto simp: Let_def split: prod.splits)
  have k: "cache_keys ops l1 = cache_keys ops l"
    using s(4) [OF tok] Cons.prems(2) lru_remove_keys [OF assms(1), of victim l]
    by (auto simp: filter_id_conv)
  have "victim \<notin> set (cache_keys ops l1)" using k Cons.prems(2) by simp
  from Cons.IH [OF _ this r(1)] Cons.prems(1) k s(1,3) [OF tok] r(2) show ?case by auto
qed simp

text \<open>The tables and the list agree: the list holds the keys of the resident columns.\<close>

definition lru_agrees :: "'l lru_ops \<Rightarrow> Table list \<Rightarrow> 'l \<Rightarrow> bool" where
  "lru_agrees ops ts l \<longleftrightarrow> set (cache_keys ops l) = \<Union> (resident_keys ` set ts)"

lemma evict_loop_spec:
  assumes laws: "lru_laws ops" and "cache_keys ops l = ks" and "\<forall>t \<in> set ts. table_ok e t" and "lru_agrees ops ts l"
  shows "\<exists>n ts' l'. evict_loop ops limit (sum_list (map (table_heap_size e) ts)) ts l =
      Some (sum_list (map (table_heap_size e) ts'), ts', l') \<and> (\<forall>t \<in> set ts'. table_ok e t) \<and>
    lru_agrees ops ts' l' \<and> cache_keys ops l' = drop n ks \<and>
    (sum_list (map (table_heap_size e) ts') \<le> limit \<or> cache_keys ops l' = [])"
  using assms(2-4)
proof (induction ks arbitrary: l ts)
  case Nil
  then have "evict_loop ops limit (sum_list (map (table_heap_size e) ts)) ts l =
      Some (sum_list (map (table_heap_size e) ts), ts, l)"
    using lru_evict_keys(1) [OF laws] by (subst evict_loop.simps) simp
  with Nil show ?case by fastforce
next
  case (Cons k ks)
  let ?m = "\<lambda>ts. sum_list (map (table_heap_size e) ts)"
  show ?case
  proof (cases "?m ts \<le> limit")
    case True
    then have "evict_loop ops limit (?m ts) ts l = Some (?m ts, ts, l)"
      by (subst evict_loop.simps) simp
    moreover have "cache_keys ops l = drop 0 (k # ks)" using Cons.prems(1) by simp
    ultimately show ?thesis using Cons.prems True by blast
  next
    case False
    obtain l1 where l1: "lru_evict ops l = Some (k, l1)" "cache_keys ops l1 = ks" "k \<notin> set ks"
      using lru_evict_keys(2) [OF laws Cons.prems(1)] by blast
    obtain mem' ts1 l2 where e: "evict_tables ops k (0 + ?m ts) ts l1 = (mem', ts1, l2)" by (metis prod_cases3)
    have s: "(\<forall>t \<in> set ts1. table_ok e t) \<and> mem' = 0 + ?m ts1 \<and>
        (\<Union> (resident_keys ` set ts1)) = (\<Union> (resident_keys ` set ts)) - {k} \<and> cache_keys ops l2 = cache_keys ops l1"
      by (rule evict_tables_spec [OF laws Cons.prems(2) _ e]) (use l1 in simp)
    have agrees: "lru_agrees ops ts1 l2"
      using s l1 Cons.prems(1,3) by (auto simp: lru_agrees_def)
    have step: "evict_loop ops limit (?m ts) ts l = evict_loop ops limit (?m ts1) ts1 l2"
      using False l1(1) e s by (subst evict_loop.simps) simp
    have "cache_keys ops l2 = ks" "\<forall>t \<in> set ts1. table_ok e t" using s l1 by auto
    from Cons.IH [OF this agrees] obtain n ts' l' where
      ih: "evict_loop ops limit (?m ts1) ts1 l2 = Some (?m ts', ts', l')" "\<forall>t \<in> set ts'. table_ok e t"
      "lru_agrees ops ts' l'" "cache_keys ops l' = drop n ks" "?m ts' \<le> limit \<or> cache_keys ops l' = []"
      by blast
    have "drop n ks = drop (Suc n) (k # ks)" by simp
    with ih step show ?thesis by metis
  qed
qed

lemma no_residents_heap:
  assumes "table_ok e t" and "resident_keys t = {}"
  shows "table_heap_size e t = e_buffer_heap e (t_buffer t)"
proof -
  have "partition_heap_size (e_heap e) p = 0" if p: "t_partitions t i = Some p" for i p
  proof -
    have "\<not> h_resident h" if "h \<in> set (p_cols p)" for h
      using assms(2) p that by (auto simp: resident_keys_def partition_residents_def ran_def)
    moreover have "handle_ok (e_heap e) h" if "h \<in> set (p_cols p)" for h
      using assms(1) p that by (auto simp: table_ok_def partition_ok_def)
    ultimately show ?thesis
      by (auto simp: partition_heap_size_def col_heap_def handle_ok_def split: option.splits)
  qed
  then have "(\<Sum>i \<in> dom (t_partitions t). partition_heap_size (e_heap e) (the (t_partitions t i))) = 0"
    by (intro sum.neutral) auto
  then show ?thesis by (simp add: table_heap_size_def)
qed

section \<open>Names and lengths of built columns\<close>

lemma column_new_fields:
  "column_new name len rng ops data = Inr c \<Longrightarrow> col_name c = name \<and> col_len c = len"
  by (auto simp: column_new_def)

lemma lz4_encode_fields:
  assumes "column_lz4_encode ext c = Inr c'"
  shows "col_name c' = col_name c \<and> col_len c' = col_len c"
proof (cases "enable_lz4 ext")
  case True
  then obtain d0 where d0: "index (col_data c) 0 = Inr d0" using assms by (auto simp: column_lz4_encode_def)
  obtain enc worth where "section_lz4_encode ext d0 = (enc, worth)" by fastforce
  with assms d0 True show ?thesis by (auto simp: column_lz4_encode_def split: if_splits)
qed (use assms in \<open>simp add: column_lz4_encode_def\<close>)

lemma create_col_fields:
  assumes "create_col into name vs off mn mx de null t = Inr c"
  shows "col_name c = name \<and> col_len c = length vs"
proof -
  from assms obtain ws where "encode_values vs off = Inr ws"
    "column_new name (length ws) (Some (wrap_i64 (mn - off), wrap_i64 (mx - off)))
       (int_codec t (null \<noteq> None) de off) (into ws # present_sections null) = Inr c"
    unfolding create_col_def by auto
  then show ?thesis using column_new_fields rmapM_Inr_length unfolding encode_values_def by metis
qed

lemma length_delta_encode_loop: "delta_encode_loop p mn mx vs = (ds, r) \<Longrightarrow> length ds = length vs"
  by (induction p mn mx vs arbitrary: ds r rule: delta_encode_loop.induct) (auto simp: Let_def split: prod.splits)

lemma integer_column_fields:
  assumes "integer_column_new_boxed ext name vs mn mx de null = Inr c"
  shows "col_name c = name \<and> col_len c = length vs"
proof -
  obtain ds mn' mx' where d: "delta_encode_values de vs mn mx = (ds, mn', mx')" by (metis prod_cases3)
  then have len: "length ds = length vs"
    by (auto simp: delta_encode_values_def dest: length_delta_encode_loop split: if_splits list.splits prod.splits)
  obtain c0 where c0: "col_name c0 = name \<and> col_len c0 = length ds" "column_lz4_encode ext c0 = Inr c"
    using assms unfolding integer_column_new_boxed_def d Let_def prod.case
    by (auto dest!: create_col_fields column_new_fields split: if_splits)
  with lz4_encode_fields [OF c0(2)] len show ?thesis by simp
qed

lemma string_column_fields:
  assumes "fast_build_string_column ext name ss len lhex uhex ttl present = Inr c"
  shows "col_name c = name \<and> col_len c = len"
proof -
  obtain rng ops data c0 where "column_new name len rng ops data = Inr c0" "column_lz4_encode ext c0 = Inr c"
  proof (cases "unique_pass len [] ss")
    case (Inl u)
    with assms obtain codec packed where
      "rbind (case present of Some p \<Rightarrow> column_new name len None (codec @ [PushDataSection 1, Nullable]) [SecU8 packed, SecU8 p]
         | None \<Rightarrow> column_new name len None codec [SecU8 packed]) (column_lz4_encode ext) = Inr c"
      unfolding fast_build_string_column_def by auto
    then show ?thesis by (cases present) (auto intro: that)
  next
    case (Inr unique)
    with assms obtain codec sections where
      "rbind (case present of Some p \<Rightarrow> column_new name len (Some (0, int (length unique)))
           ([PushDataSection 3, Nullable] @ codec) (sections @ [SecU8 p])
         | None \<Rightarrow> column_new name len (Some (0, int (length unique))) codec sections) (column_lz4_encode ext) = Inr c"
      unfolding fast_build_string_column_def Let_def by (auto simp del: append_Cons)
    then show ?thesis by (cases present) (auto intro: that)
  qed
  then show ?thesis using column_new_fields lz4_encode_fields by metis
qed

lemma int_builder_data: "ib_data (foldl int_builder_push b xs) = ib_data b @ map present_or_zero xs"
  by (induction xs arbitrary: b) (auto simp: int_builder_push_def Let_def present_or_zero_def)

lemma string_builder_len: "ips_len (sb_values (foldl string_builder_push b ss)) = ips_len (sb_values b) + length ss"
  by (induction ss arbitrary: b) (auto simp: string_builder_push_def ips_push_def ips_len_def)

lemma mixed_finalize_fields:
  assumes ok: "mixed_ok c" and r: "mixed_finalize ext fo c name = Inr col"
  shows "col_name col = name \<and> col_len col = mixed_len c"
proof -
  consider (str) "contains_string (mc_types c)" | (float) "\<not> contains_string (mc_types c)" "contains_float (mc_types c)"
    | (int) "\<not> contains_string (mc_types c)" "\<not> contains_float (mc_types c)" "contains_int (mc_types c)"
    | (none) "\<not> contains_string (mc_types c)" "\<not> contains_float (mc_types c)" "\<not> contains_int (mc_types c)" by blast
  then show ?thesis
  proof cases
    case str
    let ?b = "foldl string_builder_push string_builder_default (map (string_elem fo) (mc_data c))"
    have "ips_len (sb_values ?b) = mixed_len c"
      unfolding string_builder_len
      by (simp add: string_builder_default_def ips_default_def ips_len_def mixed_len_def)
    with str r show ?thesis
      unfolding mixed_finalize_def string_builder_finalize_def foldl_map_push
      by (auto dest!: string_column_fields)
  next
    case float
    with r show ?thesis
      by (auto simp: mixed_finalize_def finalize_float [OF ok float(1)] float_builder_finalize_def
          float_column_new_boxed_def mixed_len_def dest!: column_new_fields lz4_encode_fields)
  next
    case int
    let ?b = "int_builder_of (map int_val (mc_data c))"
    have "length (ib_data ?b) = mixed_len c"
      unfolding int_builder_of_def int_builder_data by (simp add: int_builder_default_def mixed_len_def)
    with int r show ?thesis
      unfolding mixed_finalize_def finalize_int [OF ok int(1,2)] int_builder_finalize_def Let_def
      by (auto dest!: integer_column_fields)
  next
    case none
    with r show ?thesis by (auto simp: mixed_finalize_def column_null_def mixed_len_def)
  qed
qed

section \<open>Batching\<close>

text \<open>What iterating over a \<open>HashMap\<close> promises: every key once.\<close>

definition hash_order :: "((string \<rightharpoonup> MixedCol) \<Rightarrow> string list) \<Rightarrow> bool" where
  "hash_order order \<longleftrightarrow> (\<forall>m. finite (dom m) \<longrightarrow> distinct (order m) \<and> set (order m) = dom m)"

definition table_rows :: "Table \<Rightarrow> nat" where
  "table_rows t = (\<Sum>i \<in> dom (t_partitions t). p_len (the (t_partitions t i))) + bf_length (t_buffer t)"

definition finalizable :: "env \<Rightarrow> Buffer \<Rightarrow> bool" where
  "finalizable e b \<longleftrightarrow> finite (dom (bf_buffer b)) \<and>
     (\<forall>name c. bf_buffer b name = Some c \<longrightarrow> (\<exists>col. mixed_finalize (e_ext e) (e_floats e) c name = Inr col))"

lemma rmapM_Inr_all: "\<forall>x \<in> set xs. \<exists>y. f x = Inr y \<Longrightarrow> \<exists>ys. rmapM f xs = Inr ys"
  by (induction xs) auto

lemma from_buffer_spec:
  assumes ok: "buffer_ok b" and ord: "hash_order (e_order e)" and fin: "finalizable e b" and ne: "bf_buffer b \<noteq> Map.empty"
  shows "\<exists>p keys. partition_from_buffer (e_ext e) (e_floats e) (e_heap e) (e_order e) pid b = Inr (p, keys) \<and>
    p_id p = pid \<and> p_len p = bf_length b \<and> (\<forall>h \<in> set (p_cols p). fst (h_key h) = pid) \<and>
    (\<forall>k \<in> set keys. fst k = pid) \<and> map h_key (p_cols p) = keys \<and> set (map snd keys) = dom (bf_buffer b)"
proof -
  let ?names = "e_order e (bf_buffer b)"
  let ?f = "\<lambda>name. rbind (unwrap (bf_buffer b name)) (\<lambda>raw_col. mixed_finalize (e_ext e) (e_floats e) raw_col name)"
  have names: "set ?names = dom (bf_buffer b)" using ord fin by (simp add: hash_order_def finalizable_def)
  have one: "\<exists>col. ?f name = Inr col \<and> col_name col = name \<and> col_len col = bf_length b" if "name \<in> set ?names" for name
  proof -
    from that names obtain c where c: "bf_buffer b name = Some c" by auto
    with fin obtain col where col: "mixed_finalize (e_ext e) (e_floats e) c name = Inr col"
      by (auto simp: finalizable_def)
    moreover have "mixed_ok c" "mixed_len c = bf_length b" using ok c by (auto simp: buffer_ok_def)
    ultimately show ?thesis using c mixed_finalize_fields by force
  qed
  then obtain cols where cols: "rmapM ?f ?names = Inr cols" using rmapM_Inr_all [of ?names ?f] by blast
  have each: "col_name (cols ! i) = ?names ! i \<and> col_len (cols ! i) = bf_length b" if "i < length cols" for i
    using that rmapM_nth [OF cols, of i] rmapM_Inr_length [OF cols] one [of "?names ! i"] by force
  have "?names \<noteq> []" using names ne by (metis dom_eq_empty_conv set_empty)
  then have "cols \<noteq> []" using rmapM_Inr_length [OF cols] by auto
  then have "col_len (cols ! 0) = bf_length b" "index cols 0 = Inr (cols ! 0)" using each [of 0] by (auto simp: index_def)
  moreover have "map col_name cols = ?names"
    using each rmapM_Inr_length [OF cols] by (auto intro!: nth_equalityI)
  then have "set (map col_name cols) = dom (bf_buffer b)" using names by simp
  ultimately show ?thesis
    using cols by (simp add: partition_from_buffer_def partition_new_def handle_resident_def comp_def image_image)
qed

lemma table_batch_spec:
  assumes ok: "buffer_ok (t_buffer t)" and ord: "hash_order (e_order e)" and fin: "finalizable e (t_buffer t)"
    and ne: "bf_buffer (t_buffer t) \<noteq> Map.empty"
  shows "\<exists>p l'. table_batch e ops t l = Inr
      (t\<lparr>t_buffer := buffer_default, t_partitions := (t_partitions t)(card (dom (t_partitions t)) \<mapsto> p)\<rparr>, l') \<and>
    p_id p = card (dom (t_partitions t)) \<and> p_len p = bf_length (t_buffer t) \<and>
    (\<forall>h \<in> set (p_cols p). fst (h_key h) = 0) \<and> l' = foldl (\<lambda>l key. lru_put ops key l) l (map h_key (p_cols p))"
proof -
  let ?id = "card (dom (t_partitions t))"
  obtain p where p: "partition_from_buffer (e_ext e) (e_floats e) (e_heap e) (e_order e) 0 (t_buffer t) = Inr (p, map h_key (p_cols p))"
    "p_len p = bf_length (t_buffer t)" "\<forall>h \<in> set (p_cols p). fst (h_key h) = 0"
    using from_buffer_spec [where e = e and pid = 0, OF ok ord fin ne] by blast
  then show ?thesis by (intro exI [of _ "p\<lparr>p_id := ?id\<rparr>"]) (simp add: table_batch_def Let_def)
qed

lemma push_row_nonempty:
  assumes "distinct (map fst row)" and "row \<noteq> []"
  shows "bf_buffer (buffer_push_row b row) \<noteq> Map.empty"
proof -
  obtain name v where "(name, v) \<in> set row" using assms(2) by (cases row) auto
  then have "name \<in> fst ` set row" by force
  then have "map_of row name \<noteq> None" by (simp add: map_of_eq_None_iff)
  then have "bf_buffer (buffer_push_row b row) name \<noteq> None"
    by (auto simp: buffer_push_row_def extend_to_largest_def row_push.foldl_entry [OF assms(1)] split: option.splits)
  then show ?thesis by auto
qed

section \<open>Main results\<close>

text \<open>
  C37. Enforcing the memory limit ends. It evicts columns in the order of the list, least recently used
  first, and stops as soon as the tables fit the limit or no column is left in memory. The running
  count of bytes is exact, it never wraps around, and afterwards tables and list agree again.
\<close>

theorem enforce_mem_limit_correct:
  assumes "lru_laws ops" and "\<forall>t \<in> set ts. table_ok e t" and "lru_agrees ops ts l"
  shows "\<exists>n ts' l'. enforce_mem_limit e ops limit ts l = Some (sum_list (map (table_heap_size e) ts'), ts', l') \<and>
    (\<forall>t \<in> set ts'. table_ok e t) \<and> lru_agrees ops ts' l' \<and> cache_keys ops l' = drop n (cache_keys ops l) \<and>
    (sum_list (map (table_heap_size e) ts') \<le> limit \<or>
     (\<forall>t \<in> set ts'. resident_keys t = {} \<and> table_heap_size e t = e_buffer_heap e (t_buffer t)))"
proof -
  obtain n ts' l' where r: "evict_loop ops limit (sum_list (map (table_heap_size e) ts)) ts l =
      Some (sum_list (map (table_heap_size e) ts'), ts', l')" "\<forall>t \<in> set ts'. table_ok e t" "lru_agrees ops ts' l'"
    "cache_keys ops l' = drop n (cache_keys ops l)"
    "sum_list (map (table_heap_size e) ts') \<le> limit \<or> cache_keys ops l' = []"
    using evict_loop_spec [OF assms(1) refl assms(2,3)] by blast
  have "\<forall>t \<in> set ts'. resident_keys t = {} \<and> table_heap_size e t = e_buffer_heap e (t_buffer t)"
    if "cache_keys ops l' = []"
    using that r(2,3) no_residents_heap by (auto simp: lru_agrees_def)
  with r show ?thesis unfolding enforce_mem_limit_def by blast
qed

text \<open>A cache that is a list of keys, least recently used first.\<close>

definition list_lru :: "ColumnKey list lru_ops" where
  "list_lru = \<lparr>
     cache_get = (\<lambda>k l. if k \<in> set l then filter ((\<noteq>) k) (remdups l) @ [k] else l),
     cache_put = (\<lambda>k l. filter ((\<noteq>) k) (remdups l) @ [k]),
     cache_pop = (\<lambda>k l. filter ((\<noteq>) k) (remdups l)),
     cache_pop_lru = (\<lambda>l. case remdups l of [] \<Rightarrow> None | k # ks \<Rightarrow> Some (k, ks)),
     cache_keys = remdups\<rparr>"

lemma list_lru_laws: "lru_laws list_lru"
proof -
  have "distinct (k # ks)" if "remdups l = k # ks" for l ks and k :: ColumnKey
    using that distinct_remdups [of l] by simp
  then show ?thesis
    unfolding lru_laws_def list_lru_def
    by (auto simp: distinct_remdups_id remdups_filter [symmetric] split: list.splits)
qed

text \<open>One table with two resident columns of five bytes each.\<close>

definition small_env :: env where
  "small_env = \<lparr>
     e_ext = \<lparr>enable_lz4 = False, lz4_frame = (\<lambda>b. b), lz4_unframe = (\<lambda>b. b),
       hex_decode = Some, hex_encode = (\<lambda>b. b), hex_encode_upper = (\<lambda>b. b)\<rparr>,
     e_floats = \<lparr>i64_as_f64 = (\<lambda>_. 0), f64_to_string = (\<lambda>_. [])\<rparr>,
     e_heap = (\<lambda>c. 5), e_buffer_heap = (\<lambda>b. 0), e_order = (\<lambda>m. sorted_list_of_set (dom m))\<rparr>"

definition small_table :: Table where
  "small_table = (table_new 100 ''t'')\<lparr>t_partitions := [0 \<mapsto>
     \<lparr>p_id = 0, p_len = 1, p_cols = [handle_resident (\<lambda>c. 5) 0 (column_null ''a'' 1),
        handle_resident (\<lambda>c. 5) 0 (column_null ''b'' 1)]\<rparr>]\<rparr>"

lemma small_table_ok: "table_ok small_env small_table" "resident_keys small_table = {(0, ''a''), (0, ''b'')}"
  by (auto simp: small_table_def table_ok_def partition_ok_def col_names_def handle_name_def handle_ok_def
      handle_resident_def column_null_def small_env_def resident_keys_def partition_residents_def split: if_splits)

theorem enforce_mem_limit_correct_witness:
  "\<exists>n ts' l'. enforce_mem_limit small_env list_lru 7 [small_table] [(0, ''b''), (0, ''a'')]
      = Some (sum_list (map (table_heap_size small_env) ts'), ts', l') \<and>
    cache_keys list_lru l' = drop n [(0, ''b''), (0, ''a'')] \<and>
    sum_list (map (table_heap_size small_env) ts') \<le> 7"
proof -
  have keys: "cache_keys list_lru [(0, ''b''), (0, ''a'')] = [(0, ''b''), (0, ''a'')]" by (simp add: list_lru_def)
  have "lru_agrees list_lru [small_table] [(0, ''b''), (0, ''a'')]"
    using small_table_ok(2) by (auto simp: lru_agrees_def keys)
  from enforce_mem_limit_correct [OF list_lru_laws _ this, of small_env 7] small_table_ok(1) keys
  obtain n ts' l' where r: "enforce_mem_limit small_env list_lru 7 [small_table] [(0, ''b''), (0, ''a'')]
      = Some (sum_list (map (table_heap_size small_env) ts'), ts', l')"
    "cache_keys list_lru l' = drop n [(0, ''b''), (0, ''a'')]"
    "sum_list (map (table_heap_size small_env) ts') \<le> 7 \<or>
     (\<forall>t \<in> set ts'. resident_keys t = {} \<and> table_heap_size small_env t = e_buffer_heap small_env (t_buffer t))"
    by auto
  have "sum_list (map (table_heap_size small_env) ts') \<le> 7" using r(3)
  proof
    assume "\<forall>t \<in> set ts'. resident_keys t = {} \<and> table_heap_size small_env t = e_buffer_heap small_env (t_buffer t)"
    then have "\<forall>n \<in> set (map (table_heap_size small_env) ts'). n = 0" by (simp add: small_env_def)
    then show ?thesis by (metis sum_list_eq_0_iff zero_le)
  qed
  with r show ?thesis by blast
qed



text \<open>
  A new partition takes the number of partitions as its id. When the ids have gaps that id may be
  taken, and the partition that had it is replaced: its rows are gone.
\<close>

theorem batch_overwrites_partition:
  assumes "buffer_ok (t_buffer t)" and "hash_order (e_order e)" and "finalizable e (t_buffer t)"
    and "bf_buffer (t_buffer t) \<noteq> Map.empty" and fin: "finite (dom (t_partitions t))"
    and taken: "t_partitions t (card (dom (t_partitions t))) = Some p"
  shows "\<exists>t' l'. table_batch e ops t l = Inr (t', l') \<and> dom (t_partitions t') = dom (t_partitions t) \<and>
    table_rows t' + p_len p = table_rows t"
proof -
  define pid where "pid = card (dom (t_partitions t))"
  have p: "t_partitions t pid = Some p" using taken by (simp add: pid_def)
  obtain q l' where q: "table_batch e ops t l = Inr
      (t\<lparr>t_buffer := buffer_default, t_partitions := (t_partitions t)(pid \<mapsto> q)\<rparr>, l')"
    "p_len q = bf_length (t_buffer t)"
    using table_batch_spec [OF assms(1-4), of ops l] unfolding pid_def by (elim exE conjE)
  let ?t' = "t\<lparr>t_buffer := buffer_default, t_partitions := (t_partitions t)(pid \<mapsto> q)\<rparr>"
  have dom: "dom (t_partitions ?t') = dom (t_partitions t)" using p by auto
  have "table_rows ?t' + p_len p = table_rows t"
    using sum_dom_update [OF fin p, of p_len q] q(2) dom by (simp add: table_rows_def buffer_default_def)
  with q(1) dom show ?thesis by blast
qed

text \<open>A table whose only partition, loaded from disk, has the id 1, and a row in its buffer.\<close>

definition gap_table :: Table where
  "gap_table = (table_new 100 ''g'')\<lparr>
     t_partitions := [1 \<mapsto> partition_nonresident 1 1000 []],
     t_buffer := \<lparr>bf_buffer = [''a'' \<mapsto> mixed_with_nulls 1], bf_length = 1\<rparr>\<rparr>"

theorem batch_overwrites_partition_witness:
  "\<exists>t' l'. table_batch small_env list_lru gap_table [] = Inr (t', l') \<and>
    table_rows gap_table = 1001 \<and> table_rows t' = 1"
proof -
  have "buffer_ok (t_buffer gap_table)"
    by (auto simp: gap_table_def buffer_ok_def mixed_len_def mixed_with_nulls_def mixed_push_nulls_def
        mixed_default_def mixed_ok_def covers_def coltype_defs split: if_splits)
  moreover have "hash_order (e_order small_env)" by (simp add: hash_order_def small_env_def)
  moreover have "finalizable small_env (t_buffer gap_table)"
    by (auto simp: gap_table_def finalizable_def mixed_finalize_def mixed_with_nulls_def mixed_push_nulls_def
        mixed_default_def coltype_defs)
  moreover have "table_rows gap_table = 1001"
    by (simp add: gap_table_def table_rows_def partition_nonresident_def)
  ultimately show ?thesis
    using batch_overwrites_partition [of gap_table small_env "partition_nonresident 1 1000 []" list_lru "[]"]
    by (auto simp: gap_table_def partition_nonresident_def)
qed

text \<open>
  A partition made of the buffer is built with the id 0 and numbered afterwards, so the handles of
  its columns and the entries of the list keep the id 0. For every partition but the first this means
  that evicting any of its entries leaves its columns in memory.
\<close>

theorem batched_columns_not_evicted:
  assumes "buffer_ok (t_buffer t)" and "hash_order (e_order e)" and "finalizable e (t_buffer t)"
    and "bf_buffer (t_buffer t) \<noteq> Map.empty" and "dom (t_partitions t) = {..<n}" and "0 < n"
    and batch: "table_batch e ops t l = Inr (t', l')"
  shows "\<exists>p. t_partitions t' n = Some p \<and>
    (\<forall>h \<in> set (p_cols p). t_partitions (fst (snd (table_evict ops (h_key h) t' l''))) n = Some p)"
proof -
  obtain p where p: "t_partitions t' n = Some p" "\<forall>h \<in> set (p_cols p). fst (h_key h) = 0"
    using table_batch_spec [OF assms(1-4), of ops l] batch assms(5) by auto
  have "t_partitions (fst (snd (table_evict ops k t' l''))) n = t_partitions t' n" if "fst k = 0" for k
    using that assms(6) by (auto simp: table_evict_def split: option.splits prod.splits)
  with p show ?thesis by auto
qed

definition second_batch_table :: Table where
  "second_batch_table = small_table\<lparr>t_buffer := \<lparr>bf_buffer = [''a'' \<mapsto> mixed_with_nulls 1], bf_length = 1\<rparr>\<rparr>"

theorem batched_columns_not_evicted_witness:
  "\<exists>t' l' p. table_batch small_env list_lru second_batch_table [] = Inr (t', l') \<and> t_partitions t' 1 = Some p \<and>
    (\<forall>h \<in> set (p_cols p). t_partitions (fst (snd (table_evict list_lru (h_key h) t' l'))) 1 = Some p)"
proof -
  have ok: "buffer_ok (t_buffer second_batch_table)" "hash_order (e_order small_env)"
      "finalizable small_env (t_buffer second_batch_table)" "bf_buffer (t_buffer second_batch_table) \<noteq> Map.empty"
    by (auto simp: second_batch_table_def buffer_ok_def mixed_len_def mixed_with_nulls_def mixed_push_nulls_def
        mixed_default_def mixed_ok_def covers_def coltype_defs hash_order_def small_env_def finalizable_def
        mixed_finalize_def split: if_splits)
  have dom: "dom (t_partitions second_batch_table) = {..<1}"
    by (auto simp: second_batch_table_def small_table_def split: if_splits)
  obtain t' l' where b: "table_batch small_env list_lru second_batch_table [] = Inr (t', l')"
    using table_batch_spec [OF ok, of list_lru "[]"] by blast
  from batched_columns_not_evicted [OF ok dom _ b, of l'] b show ?thesis by auto
qed

end
