(* ===== verification/Partitioned_Merging.thy ===== *)
theory Partitioned_Merging
  imports Merging
begin

text \<open>
  Merging by several columns (src/src/engine/operators): partition.rs splits two sorted columns into
  groups of equal values, subpartition.rs refines the groups by a further column, and
  merge_partitioned.rs and merge_deduplicate_partitioned.rs merge the last column inside each group.

  A \<open>Premerge\<close> counts the elements of a group on either side. The counters are \<open>u32\<close> in the
  source; columns of more than \<open>2^32\<close> rows are outside of the model.
\<close>

record Premerge =
  pm_left :: nat
  pm_right :: nat

definition run_length :: "'a \<Rightarrow> 'a list \<Rightarrow> nat" where
  "run_length elem xs = length (takeWhile (\<lambda>x. x = elem) xs)"

lemma run_length_pos [simp]: "0 < run_length x (x # xs)"
  by (simp add: run_length_def)

lemma run_length_le: "run_length x xs \<le> length xs"
  by (simp add: run_length_def length_takeWhile_le)

section \<open>partition.rs\<close>

text \<open>The two loops over what remains on one side.\<close>

function partition_rest :: "(nat \<Rightarrow> Premerge) \<Rightarrow> nat \<Rightarrow> nat \<Rightarrow> 'a list \<Rightarrow> Premerge list \<times> nat" where
  "partition_rest mk limit min_elems [] = ([], min_elems)"
| "partition_rest mk limit min_elems (x # xs) =
     (if min_elems < limit
      then let n = run_length x (x # xs);
               (ps, m) = partition_rest mk limit (min_elems + n) (drop n (x # xs))
           in (mk n # ps, m)
      else ([], min_elems))"
  by pat_completeness auto
termination
  by (relation "measure (\<lambda>(_, _, _, xs). length xs)") auto

function partition_loop :: "('a \<Rightarrow> 'a \<Rightarrow> bool) \<Rightarrow> nat \<Rightarrow> nat \<Rightarrow> 'a list \<Rightarrow> 'a list \<Rightarrow> Premerge list" where
  "partition_loop le limit min_elems left right =
     (if left \<noteq> [] \<and> right \<noteq> [] \<and> min_elems < limit
      then let elem = (if le (hd left) (hd right) then hd left else hd right);
               pl = run_length elem left; pr = run_length elem right
           in \<lparr>pm_left = pl, pm_right = pr\<rparr> #
              partition_loop le limit (min_elems + max pl pr) (drop pl left) (drop pr right)
      else let (ps, m) = partition_rest (\<lambda>n. \<lparr>pm_left = n, pm_right = 0\<rparr>) limit min_elems left;
               (qs, _) = partition_rest (\<lambda>n. \<lparr>pm_left = 0, pm_right = n\<rparr>) limit m right
           in ps @ qs)"
  by pat_completeness auto
termination
proof (relation "measure (\<lambda>(_, _, _, ls, rs). length ls + length rs)", goal_cases)
  case (2 le limit min_elems left right elem pl pr)
  have "0 < pl \<or> 0 < pr" using 2 by (cases left; cases right) auto
  moreover have "pl \<le> length left" "pr \<le> length right" using 2 by (auto simp: run_length_le)
  ultimately show ?case by auto
qed simp

declare partition_loop.simps [simp del]

definition partition_merge :: "'a Comparator \<Rightarrow> 'a list \<Rightarrow> 'a list \<Rightarrow> nat \<Rightarrow> Premerge list" where
  "partition_merge c left right limit =
     partition_loop (cmp_eq c) (min limit (2 ^ 32 - 1)) 0 left right"

section \<open>subpartition.rs\<close>

text \<open>
  Inside a group of \<open>a\<close> elements on the left and \<open>b\<close> on the right. Reading past the end of a
  column is a panic.
\<close>

fun sub_elem :: "('a \<Rightarrow> 'a \<Rightarrow> bool) \<Rightarrow> nat \<Rightarrow> nat \<Rightarrow> 'a list \<Rightarrow> 'a list \<Rightarrow> 'a res" where
  "sub_elem le a b left right =
     (if a > 0
      then (if b = 0 then index left 0
            else rbind (index left 0) (\<lambda>l. rbind (index right 0) (\<lambda>r. Inr (if le l r then l else r))))
      else index right 0)"

text \<open>\<open>while i < i_max && elem == left[i]\<close>: the number of elements, or a panic.\<close>

fun count_run :: "nat \<Rightarrow> 'a \<Rightarrow> 'a list \<Rightarrow> nat res" where
  "count_run 0 elem xs = Inr 0"
| "count_run (Suc n) elem [] = Inl Panicked"
| "count_run (Suc n) elem (x # xs) = (if elem = x then rmap Suc (count_run n elem xs) else Inr 0)"

lemma count_run_le: "count_run n elem xs = Inr k \<Longrightarrow> k \<le> n"
  by (induction n elem xs arbitrary: k rule: count_run.induct) (auto simp: rmap_Inr_iff split: if_splits)

lemma sub_elem_progress:
  assumes "sub_elem le a b left right = Inr e" and "count_run a e left = Inr pl"
    and "count_run b e right = Inr pr" and "0 < a + b"
  shows "0 < pl + pr"
proof -
  have "a = 0 \<or> (\<exists>n. a = Suc n)" "b = 0 \<or> (\<exists>n. b = Suc n)" by (metis not0_implies_Suc)+
  with assms show ?thesis
    by (cases left; cases right)
      (auto simp: index_def rmap_Inr_iff split: if_splits)
qed

function subpartition_group ::
    "('a \<Rightarrow> 'a \<Rightarrow> bool) \<Rightarrow> nat \<Rightarrow> nat \<Rightarrow> 'a list \<Rightarrow> 'a list \<Rightarrow> (Premerge list \<times> 'a list \<times> 'a list) res" where
  "subpartition_group le a b left right =
     (if a + b = 0 then Inr ([], left, right)
      else rbind (sub_elem le a b left right) (\<lambda>e.
           rbind (count_run a e left) (\<lambda>pl.
           rbind (count_run b e right) (\<lambda>pr.
           rbind (subpartition_group le (a - pl) (b - pr) (drop pl left) (drop pr right)) (\<lambda>(ps, ls, rs).
             Inr (\<lparr>pm_left = pl, pm_right = pr\<rparr> # ps, ls, rs))))))"
  by pat_completeness auto
termination
proof (relation "measure (\<lambda>(_, a, b, _, _). a + b)", goal_cases)
  case (2 le a b left right e pl pr)
  then show ?case
    using sub_elem_progress [of le a b left right e pl pr] count_run_le [of a e left pl]
      count_run_le [of b e right pr] by auto
qed simp

declare subpartition_group.simps [simp del]

fun subpartition_loop ::
    "('a \<Rightarrow> 'a \<Rightarrow> bool) \<Rightarrow> Premerge list \<Rightarrow> 'a list \<Rightarrow> 'a list \<Rightarrow> Premerge list res" where
  "subpartition_loop le [] left right = Inr []"
| "subpartition_loop le (g # gs) left right =
     rbind (subpartition_group le (pm_left g) (pm_right g) left right) (\<lambda>(ps, ls, rs).
     rbind (subpartition_loop le gs ls rs) (\<lambda>qs. Inr (ps @ qs)))"

definition subpartition :: "'a Comparator \<Rightarrow> Premerge list \<Rightarrow> 'a list \<Rightarrow> 'a list \<Rightarrow> Premerge list res" where
  "subpartition c partitioning left right = subpartition_loop (cmp_eq c) partitioning left right"

section \<open>merge_partitioned.rs\<close>

text \<open>
  \<open>cnt\<close> is \<open>i + j\<close>. The loop makes \<open>group.left + group.right\<close> rounds, one per element, and leaves
  all loops as soon as \<open>i + j = limit\<close>; the flag in the result says so.
\<close>

function merge_group ::
    "('a \<Rightarrow> 'a \<Rightarrow> bool) \<Rightarrow> nat \<Rightarrow> nat \<Rightarrow> nat \<Rightarrow> nat \<Rightarrow> 'a list \<Rightarrow> 'a list \<Rightarrow>
     (('a \<times> u8) list \<times> bool \<times> 'a list \<times> 'a list) res" where
  "merge_group le limit cnt a b left right =
     (if a + b = 0 then Inr ([], False, left, right)
      else rbind (if b = 0 then Inr True
                  else if a > 0 then rbind (index left 0) (\<lambda>l. rbind (index right 0) (\<lambda>r. Inr (le l r)))
                  else Inr False) (\<lambda>take_left.
           rbind (index (if take_left then left else right) 0) (\<lambda>x.
           let step = (x, if take_left then 1 else 0);
               left' = (if take_left then tl left else left);
               right' = (if take_left then right else tl right)
           in if cnt + 1 = limit then Inr ([step], True, left', right')
              else rmap (\<lambda>(rest, r). (step # rest, r))
                     (merge_group le limit (cnt + 1) (if take_left then a - 1 else a)
                        (if take_left then b else b - 1) left' right'))))"
  by pat_completeness auto
termination
  by (relation "measure (\<lambda>(_, _, _, a, b, _, _). a + b)") (auto split: if_splits)

declare merge_group.simps [simp del]

fun merge_partitioned_loop ::
    "('a \<Rightarrow> 'a \<Rightarrow> bool) \<Rightarrow> nat \<Rightarrow> nat \<Rightarrow> Premerge list \<Rightarrow> 'a list \<Rightarrow> 'a list \<Rightarrow> ('a \<times> u8) list res" where
  "merge_partitioned_loop le limit cnt [] left right = Inr []"
| "merge_partitioned_loop le limit cnt (g # gs) left right =
     rbind (merge_group le limit cnt (pm_left g) (pm_right g) left right) (\<lambda>(out, stop, ls, rs).
       if stop then Inr out
       else rmap ((@) out) (merge_partitioned_loop le limit (cnt + pm_left g + pm_right g) gs ls rs))"

definition merge_partitioned ::
    "'a Comparator \<Rightarrow> Premerge list \<Rightarrow> 'a list \<Rightarrow> 'a list \<Rightarrow> nat \<Rightarrow> ('a list \<times> u8 list) res" where
  "merge_partitioned c partitioning left right limit =
     rmap (\<lambda>r. (map fst r, map snd r)) (merge_partitioned_loop (cmp_eq c) limit 0 partitioning left right)"

section \<open>merge_deduplicate_partitioned.rs\<close>

function dedup_group ::
    "'a::linorder option \<Rightarrow> nat \<Rightarrow> nat \<Rightarrow> 'a list \<Rightarrow> 'a list \<Rightarrow>
     ('a list \<times> MergeOp list \<times> 'a list \<times> 'a list) res" where
  "dedup_group lst a b left right =
     (if a + b = 0 then Inr ([], [], left, right)
      else rbind (if b > 0 then rmap (\<lambda>r. lst = Some r) (index right 0) else Inr False) (\<lambda>same.
        if same then rmap (\<lambda>(res, ops, r). (res, MergeRight # ops, r)) (dedup_group lst a (b - 1) left (tl right))
        else rbind (if a > 0 then if b = 0 then Inr True
                                  else rbind (index left 0) (\<lambda>l. rbind (index right 0) (\<lambda>r. Inr (l \<le> r)))
                    else Inr False) (\<lambda>take_left.
             if take_left
             then rbind (index left 0) (\<lambda>l. rmap (\<lambda>(res, ops, r). (l # res, TakeLeft # ops, r))
                    (dedup_group (Some l) (a - 1) b (tl left) right))
             else rbind (index right 0) (\<lambda>x. rmap (\<lambda>(res, ops, r). (x # res, TakeRight # ops, r))
                    (dedup_group (Some x) a (b - 1) left (tl right))))))"
  by pat_completeness auto
termination
  by (relation "measure (\<lambda>(_, a, b, _, _). a + b)") (auto simp: rmap_Inr_iff split: if_splits)

declare dedup_group.simps [simp del]

fun merge_deduplicate_partitioned ::
    "Premerge list \<Rightarrow> 'a::linorder list \<Rightarrow> 'a list \<Rightarrow> ('a list \<times> MergeOp list) res" where
  "merge_deduplicate_partitioned [] left right = Inr ([], [])"
| "merge_deduplicate_partitioned (g # gs) left right =
     rbind (dedup_group None (pm_left g) (pm_right g) left right) (\<lambda>(res, ops, ls, rs).
     rbind (merge_deduplicate_partitioned gs ls rs) (\<lambda>(res', ops'). Inr (res @ res', ops @ ops')))"

section \<open>What a partitioning promises\<close>

text \<open>
  A partitioning is a list of groups; each takes a prefix of either side on which all elements
  agree, and everything behind it comes strictly later in the order.
\<close>

fun grouped :: "('a \<Rightarrow> 'a \<Rightarrow> bool) \<Rightarrow> Premerge list \<Rightarrow> 'a list \<Rightarrow> 'a list \<Rightarrow> bool" where
  "grouped lt [] ls rs \<longleftrightarrow> True"
| "grouped lt (g # gs) ls rs \<longleftrightarrow>
     pm_left g \<le> length ls \<and> pm_right g \<le> length rs \<and>
     (\<exists>e. (\<forall>x \<in> set (take (pm_left g) ls) \<union> set (take (pm_right g) rs). x = e) \<and>
          (\<forall>y \<in> set (drop (pm_left g) ls) \<union> set (drop (pm_right g) rs). lt e y)) \<and>
     grouped lt gs (drop (pm_left g) ls) (drop (pm_right g) rs)"

definition covered :: "Premerge list \<Rightarrow> nat \<times> nat" where
  "covered gs = (sum_list (map pm_left gs), sum_list (map pm_right gs))"

lemma covered_Nil [simp]: "covered [] = (0, 0)"
  by (simp add: covered_def)

lemma covered_Cons [simp]:
  "covered (g # gs) = (pm_left g + fst (covered gs), pm_right g + snd (covered gs))"
  by (simp add: covered_def)

lemma covered_append [simp]:
  "covered (gs @ hs) = (fst (covered gs) + fst (covered hs), snd (covered gs) + snd (covered hs))"
  by (simp add: covered_def)

context comparator
begin

lemma run_split:
  assumes "sorted_wrt (cmp_eq c) xs" and "\<And>x. x \<in> set xs \<Longrightarrow> cmp_eq c e x"
  shows "(\<forall>x \<in> set (take (run_length e xs) xs). x = e) \<and> (\<forall>y \<in> set (drop (run_length e xs) xs). cmp c e y)"
proof -
  let ?t = "takeWhile (\<lambda>x. x = e) xs" and ?d = "dropWhile (\<lambda>x. x = e) xs"
  have td: "take (run_length e xs) xs = ?t" "drop (run_length e xs) xs = ?d"
    unfolding run_length_def by (rule takeWhile_eq_take [symmetric], rule dropWhile_eq_drop [symmetric])
  have "cmp c e y" if "y \<in> set ?d" for y
  proof -
    from that have "?d \<noteq> []" by force
    then obtain z zs where z: "?d = z # zs" by (meson neq_Nil_conv)
    then have "z \<noteq> e" using hd_dropWhile [of "\<lambda>x. x = e" xs] by simp
    moreover have "z \<in> set xs" using z set_dropWhileD [of z "\<lambda>x. x = e" xs] by simp
    ultimately have ez: "cmp c e z" using assms(2) [of z] cmp_eq_antisym [of e z] cmp_not_eq [of e z] by auto
    have "sorted_wrt (cmp_eq c) ?d" using assms(1) by (simp add: sorted_wrt_dropWhile)
    then have zy: "cmp_eq c z y" using that z cmp_eq_refl by auto
    show ?thesis using ez cmp_eq_trans [OF zy, of e] by (simp add: cmp_not_eq) blast
  qed
  then show ?thesis unfolding td by (auto dest: set_takeWhileD)
qed

lemma run_split_hd:
  assumes "sorted_wrt (cmp_eq c) (x # xs)"
  shows "(\<forall>y \<in> set (take (run_length x (x # xs)) (x # xs)). y = x) \<and>
    (\<forall>y \<in> set (drop (run_length x (x # xs)) (x # xs)). cmp c x y)"
  using run_split [OF assms, of x] assms cmp_eq_refl by auto

lemma partition_rest_left:
  assumes "partition_rest (\<lambda>n. \<lparr>pm_left = n, pm_right = 0\<rparr>) limit me ls = (ps, m)"
    and "sorted_wrt (cmp_eq c) ls"
  shows "grouped (cmp c) ps ls [] \<and> snd (covered ps) = 0 \<and> m = me + fst (covered ps) \<and>
    (fst (covered ps) = length ls \<or> limit \<le> m)"
  using assms
proof (induction "\<lambda>n. \<lparr>pm_left = n, pm_right = 0\<rparr>" limit me ls arbitrary: ps m rule: partition_rest.induct)
  case (2 limit me x xs)
  show ?case
  proof (cases "me < limit")
    case True
    let ?n = "run_length x (x # xs)"
    obtain ps' where ps': "partition_rest (\<lambda>n. \<lparr>pm_left = n, pm_right = 0\<rparr>) limit (me + ?n) (drop ?n (x # xs)) = (ps', m)"
      "ps = \<lparr>pm_left = ?n, pm_right = 0\<rparr> # ps'"
      using 2(2) True by (auto simp: Let_def split: prod.splits)
    have "sorted_wrt (cmp_eq c) (drop ?n (x # xs))" using 2(3) sorted_wrt_drop by blast
    from "2.hyps" [OF True refl ps'(1) this] have ih: "grouped (cmp c) ps' (drop ?n (x # xs)) [] \<and>
      snd (covered ps') = 0 \<and> m = me + ?n + fst (covered ps') \<and>
      (fst (covered ps') = length (drop ?n (x # xs)) \<or> limit \<le> m)" .
    with ps'(2) run_split_hd [OF 2(3)] run_length_le [of x "x # xs"] show ?thesis by auto
  qed (use 2 in auto)
qed auto

lemma partition_rest_right:
  assumes "partition_rest (\<lambda>n. \<lparr>pm_left = 0, pm_right = n\<rparr>) limit me rs = (ps, m)"
    and "sorted_wrt (cmp_eq c) rs"
  shows "grouped (cmp c) ps [] rs \<and> fst (covered ps) = 0 \<and> m = me + snd (covered ps) \<and>
    (snd (covered ps) = length rs \<or> limit \<le> m)"
  using assms
proof (induction "\<lambda>n. \<lparr>pm_left = 0, pm_right = n\<rparr>" limit me rs arbitrary: ps m rule: partition_rest.induct)
  case (2 limit me x xs)
  show ?case
  proof (cases "me < limit")
    case True
    let ?n = "run_length x (x # xs)"
    obtain ps' where ps': "partition_rest (\<lambda>n. \<lparr>pm_left = 0, pm_right = n\<rparr>) limit (me + ?n) (drop ?n (x # xs)) = (ps', m)"
      "ps = \<lparr>pm_left = 0, pm_right = ?n\<rparr> # ps'"
      using 2(2) True by (auto simp: Let_def split: prod.splits)
    have "sorted_wrt (cmp_eq c) (drop ?n (x # xs))" using 2(3) sorted_wrt_drop by blast
    from "2.hyps" [OF True refl ps'(1) this] have ih: "grouped (cmp c) ps' [] (drop ?n (x # xs)) \<and>
      fst (covered ps') = 0 \<and> m = me + ?n + snd (covered ps') \<and>
      (snd (covered ps') = length (drop ?n (x # xs)) \<or> limit \<le> m)" .
    with ps'(2) run_split_hd [OF 2(3)] run_length_le [of x "x # xs"] show ?thesis by auto
  qed (use 2 in auto)
qed auto

lemma grouped_least:
  assumes "sorted_wrt (cmp_eq c) (l # ls)" and "sorted_wrt (cmp_eq c) (r # rs)"
    and "e = (if cmp_eq c l r then l else r)"
    and x: "x \<in> set (l # ls) \<union> set (r # rs)"
  shows "cmp_eq c e x"
proof -
  have el: "cmp_eq c e l" and er: "cmp_eq c e r"
    using assms(3) cmp_eq_total [of l r] cmp_eq_refl by (auto split: if_splits)
  from x assms(1,2) consider "x = l" | "x = r" | "cmp_eq c l x" | "cmp_eq c r x" by auto
  then show ?thesis
    using el er cmp_eq_trans [OF el] cmp_eq_trans [OF er] by cases auto
qed

lemma partition_loop_spec:
  assumes "sorted_wrt (cmp_eq c) ls" and "sorted_wrt (cmp_eq c) rs"
    and "gs = partition_loop (cmp_eq c) limit me ls rs"
  shows "grouped (cmp c) gs ls rs \<and>
    (covered gs = (length ls, length rs) \<or> limit \<le> me + (fst (covered gs) + snd (covered gs)))"
  using assms
proof (induction "cmp_eq c" limit me ls rs arbitrary: gs rule: partition_loop.induct)
  case (1 limit me ls rs)
  show ?case
  proof (cases "ls \<noteq> [] \<and> rs \<noteq> [] \<and> me < limit")
    case True
    define e where "e = (if cmp_eq c (hd ls) (hd rs) then hd ls else hd rs)"
    define pl where "pl = run_length e ls"
    define pr where "pr = run_length e rs"
    define gs' where "gs' = partition_loop (cmp_eq c) limit (me + max pl pr) (drop pl ls) (drop pr rs)"
    have gs: "gs = \<lparr>pm_left = pl, pm_right = pr\<rparr> # gs'"
      using 1(4) True by (subst (asm) partition_loop.simps) (simp add: Let_def e_def pl_def pr_def gs'_def)
    have ih: "grouped (cmp c) gs' (drop pl ls) (drop pr rs) \<and>
      (covered gs' = (length (drop pl ls), length (drop pr rs)) \<or>
       limit \<le> me + max pl pr + (fst (covered gs') + snd (covered gs')))"
      by (rule "1.hyps" [OF True e_def pl_def pr_def]) (use 1(2,3) in \<open>auto simp: gs'_def sorted_wrt_drop\<close>)
    obtain l ls' r rs' where "ls = l # ls'" "rs = r # rs'" using True by (cases ls; cases rs) auto
    then have least: "cmp_eq c e x" if "x \<in> set ls \<union> set rs" for x
      using that 1(2,3) by (intro grouped_least [of l ls' r rs' e x]) (simp_all add: e_def)
    have "(\<forall>x \<in> set (take pl ls). x = e) \<and> (\<forall>y \<in> set (drop pl ls). cmp c e y)"
      unfolding pl_def by (rule run_split [OF 1(2)]) (use least in blast)
    moreover have "(\<forall>x \<in> set (take pr rs). x = e) \<and> (\<forall>y \<in> set (drop pr rs). cmp c e y)"
      unfolding pr_def by (rule run_split [OF 1(3)]) (use least in blast)
    moreover have "pl \<le> length ls" "pr \<le> length rs" by (simp_all add: pl_def pr_def run_length_le)
    ultimately show ?thesis using ih gs by auto
  next
    case False
    obtain ps m where ps: "partition_rest (\<lambda>n. \<lparr>pm_left = n, pm_right = 0\<rparr>) limit me ls = (ps, m)" by fastforce
    obtain qs k where qs: "partition_rest (\<lambda>n. \<lparr>pm_left = 0, pm_right = n\<rparr>) limit m rs = (qs, k)" by fastforce
    have gs: "gs = ps @ qs"
      using 1(4) False ps qs by (subst (asm) partition_loop.simps) (auto simp: Let_def split: prod.splits)
    note l = partition_rest_left [OF ps 1(2)] and r = partition_rest_right [OF qs 1(3)]
    consider "ls = []" | "rs = []" | "limit \<le> me" using False by fastforce
    then show ?thesis
    proof cases
      case 1
      then have "ps = []" "m = me" using ps by auto
      with 1 gs r show ?thesis by (auto simp: prod_eq_iff)
    next
      case 2
      then have "qs = []" using qs by auto
      with 2 gs l show ?thesis by (auto simp: prod_eq_iff)
    next
      case 3
      then have "ps = []" "m = me" using ps by (cases ls; auto)+
      then have "qs = []" using 3 qs by (cases rs) auto
      with \<open>ps = []\<close> gs 3 show ?thesis by auto
    qed
  qed
qed

end


section \<open>Merging the last column inside the groups\<close>

definition takes_left :: "('a \<Rightarrow> 'a \<Rightarrow> bool) \<Rightarrow> nat \<Rightarrow> nat \<Rightarrow> 'a list \<Rightarrow> 'a list \<Rightarrow> bool" where
  "takes_left le a b ls rs \<longleftrightarrow> b = 0 \<or> (0 < a \<and> le (hd ls) (hd rs))"

lemma merge_loop_left:
  assumes "takes_left le a b ls rs" "0 < a + b" "a \<le> length ls" "b \<le> length rs"
  shows "0 < a \<and> ls \<noteq> [] \<and> merge_loop le (take a ls) (take b rs) (a + b) =
    (hd ls, 1) # merge_loop le (take (a - 1) (tl ls)) (take b rs) (a - 1 + b)"
proof -
  have "0 < a" using assms(1,2) by (auto simp: takes_left_def)
  moreover from this obtain l ls' where "ls = l # ls'" using assms(3) by (cases ls) auto
  ultimately show ?thesis
    using assms by (cases a; cases b; cases rs) (auto simp: takes_left_def)
qed

lemma merge_loop_right:
  assumes "\<not> takes_left le a b ls rs" "a \<le> length ls" "b \<le> length rs"
  shows "0 < b \<and> rs \<noteq> [] \<and> merge_loop le (take a ls) (take b rs) (a + b) =
    (hd rs, 0) # merge_loop le (take a ls) (take (b - 1) (tl rs)) (a + (b - 1))"
proof -
  have "0 < b" using assms(1) by (auto simp: takes_left_def)
  moreover from this obtain r rs' where "rs = r # rs'" using assms(3) by (cases rs) auto
  ultimately show ?thesis
    using assms by (cases a; cases b; cases ls) (auto simp: takes_left_def)
qed

lemma merge_group_step:
  fixes le :: "'a \<Rightarrow> 'a \<Rightarrow> bool"
  assumes "0 < a + b" "a \<le> length ls" "b \<le> length rs"
  defines "t \<equiv> takes_left le a b ls rs"
  shows "merge_group le limit cnt a b ls rs =
    (let step = (hd (if t then ls else rs), if t then 1 else 0);
         left' = (if t then tl ls else ls); right' = (if t then rs else tl rs)
     in if cnt + 1 = limit then Inr ([step], True, left', right')
        else rmap (\<lambda>(rest, r). (step # rest, r))
               (merge_group le limit (cnt + 1) (if t then a - 1 else a) (if t then b else b - 1) left' right'))"
proof -
  have idx: "index (if t then ls else rs) 0 = Inr (hd (if t then ls else rs))"
    using merge_loop_left [of le a b ls rs] merge_loop_right [of le a b ls rs] assms
    by (auto simp: index_def hd_conv_nth)
  have sel: "(if b = 0 then Inr True
      else if a > 0 then rbind (index ls 0) (\<lambda>l. rbind (index rs 0) (\<lambda>r. Inr (le l r))) else Inr False) = Inr t"
    using assms by (cases ls; cases rs) (auto simp: index_def takes_left_def)
  have ne: "(a + b = 0) = False" using assms(1) by simp
  show ?thesis
    by (subst merge_group.simps) (simp only: ne sel idx rbind.simps Let_def if_False)
qed

lemma merge_group_out:
  fixes le :: "'a \<Rightarrow> 'a \<Rightarrow> bool"
  assumes "a \<le> length ls" and "b \<le> length rs"
  defines "m \<equiv> merge_loop le (take a ls) (take b rs) (a + b)"
  shows "if cnt < limit \<and> limit \<le> cnt + (a + b)
    then \<exists>r. merge_group le limit cnt a b ls rs = Inr (take (limit - cnt) m, True, r)
    else merge_group le limit cnt a b ls rs = Inr (m, False, drop a ls, drop b rs)"
  using assms(1,2) unfolding m_def
proof (induction "a + b" arbitrary: a b cnt ls rs)
  case 0
  then show ?case by (subst merge_group.simps) auto
next
  case (Suc n)
  let ?t = "takes_left le a b ls rs"
  define a' b' ls' rs' where "a' = (if ?t then a - 1 else a)" and "b' = (if ?t then b else b - 1)"
    and "ls' = (if ?t then tl ls else ls)" and "rs' = (if ?t then rs else tl rs)"
  define x where "x = (hd (if ?t then ls else rs), if ?t then 1 else 0 :: u8)"
  have pos: "0 < a + b" using Suc(2) by linarith
  note L = merge_loop_left [of le, OF _ pos Suc.prems] and R = merge_loop_right [of le, OF _ Suc.prems]
  have ab0: "?t \<Longrightarrow> 0 < a" "\<not> ?t \<Longrightarrow> 0 < b" using L R by blast+
  then have n: "n = a' + b'" using Suc(2) by (cases ?t) (auto simp: a'_def b'_def)
  have len: "a' \<le> length ls'" "b' \<le> length rs'"
    using Suc.prems by (auto simp: a'_def b'_def ls'_def rs'_def)
  have m: "merge_loop le (take a ls) (take b rs) (a + b) = x # merge_loop le (take a' ls') (take b' rs') (a' + b')"
    using L R by (auto simp: a'_def b'_def ls'_def rs'_def x_def)
  have dr: "drop a ls = drop a' ls'" "drop b rs = drop b' rs'"
    using ab0 by (auto simp: a'_def b'_def ls'_def rs'_def drop_Suc [symmetric])
  have step: "merge_group le limit cnt a b ls rs =
      (if cnt + 1 = limit then Inr ([x], True, ls', rs')
       else rmap (\<lambda>(rest, r). (x # rest, r)) (merge_group le limit (cnt + 1) a' b' ls' rs'))"
    unfolding merge_group_step [OF pos Suc.prems] Let_def a'_def b'_def ls'_def rs'_def x_def ..
  have ih: "if cnt + 1 < limit \<and> limit \<le> cnt + 1 + (a' + b')
    then \<exists>r. merge_group le limit (cnt + 1) a' b' ls' rs' =
        Inr (take (limit - (cnt + 1)) (merge_loop le (take a' ls') (take b' rs') (a' + b')), True, r)
    else merge_group le limit (cnt + 1) a' b' ls' rs' =
        Inr (merge_loop le (take a' ls') (take b' rs') (a' + b'), False, drop a' ls', drop b' rs')"
    by (rule Suc.hyps(1) [OF n len])
  have ab: "a + b = Suc (a' + b')" using Suc(2) n by simp
  consider "cnt + 1 = limit" | "cnt + 1 < limit" "limit \<le> cnt + (a + b)"
    | "cnt + 1 \<noteq> limit" "\<not> (cnt < limit \<and> limit \<le> cnt + (a + b))" by linarith
  then show ?case
  proof cases
    case 1
    then show ?thesis using step m ab by auto
  next
    case 2
    then have "limit - cnt = Suc (limit - (cnt + 1))" by simp
    with 2 ih step m ab show ?thesis by auto
  next
    case 3
    then have "\<not> (cnt + 1 < limit \<and> limit \<le> cnt + 1 + (a' + b'))" using ab by auto
    then have "merge_group le limit (cnt + 1) a' b' ls' rs' =
        Inr (merge_loop le (take a' ls') (take b' rs') (a' + b'), False, drop a' ls', drop b' rs')"
      using ih by argo
    with 3 step m dr show ?thesis by simp
  qed
qed

section \<open>Sorting by two columns\<close>

text \<open>
  Rows with a first sort key \<open>f\<close> and a second one \<open>g\<close>. The merge of the groups, followed by a merge
  of whatever the partitioning left out.
\<close>

definition row_le :: "'a Comparator \<Rightarrow> 'b Comparator \<Rightarrow> ('r \<Rightarrow> 'a) \<Rightarrow> ('r \<Rightarrow> 'b) \<Rightarrow> 'r \<Rightarrow> 'r \<Rightarrow> bool" where
  "row_le c d f g x y \<longleftrightarrow> cmp c (f x) (f y) \<or> (f x = f y \<and> cmp_eq d (g x) (g y))"

fun grouped_merge ::
    "('r \<Rightarrow> 'r \<Rightarrow> bool) \<Rightarrow> ('r \<Rightarrow> 'r \<Rightarrow> bool) \<Rightarrow> Premerge list \<Rightarrow> 'r list \<Rightarrow> 'r list \<Rightarrow> ('r \<times> u8) list" where
  "grouped_merge le rest [] L R = merge_loop rest L R (length L + length R)"
| "grouped_merge le rest (g # gs) L R =
     merge_loop le (take (pm_left g) L) (take (pm_right g) R) (pm_left g + pm_right g) @
     grouped_merge le rest gs (drop (pm_left g) L) (drop (pm_right g) R)"

lemma merge_loop_length [simp]: "length (merge_loop lt ls rs (length ls + length rs)) = length ls + length rs"
  using merge_loop_mset [of lt ls rs] by (metis length_map size_mset size_union)

lemma merge_loop_take_take:
  assumes "a \<le> length L" "b \<le> length R"
  shows "length (merge_loop lt (take a L) (take b R) (a + b)) = a + b"
    and "mset (map fst (merge_loop lt (take a L) (take b R) (a + b))) = mset (take a L) + mset (take b R)"
    and "replays (merge_loop lt (take a L) (take b R) (a + b)) (take a L) (take b R)"
    and "length (filter (\<lambda>op. op = 1) (map snd (merge_loop lt (take a L) (take b R) (a + b)))) = a"
    and "length (filter (\<lambda>op. op \<noteq> 1) (map snd (merge_loop lt (take a L) (take b R) (a + b)))) = b"
  using assms merge_loop_length [of lt "take a L" "take b R"] merge_loop_mset [of lt "take a L" "take b R"]
    merge_loop_counts [of lt "take a L" "take b R"] merge_keep_replay [of lt "take a L" "take b R"]
  by (simp_all add: replays_def min_absorb2)

lemma grouped_merge_rows:
  assumes "grouped lt gs (map f L) (map f R)"
  shows "mset (map fst (grouped_merge le rest gs L R)) = mset L + mset R \<and>
    replays (grouped_merge le rest gs L R) L R \<and> fst (covered gs) \<le> length L \<and> snd (covered gs) \<le> length R"
  using assms
proof (induction gs arbitrary: L R)
  case Nil
  show ?case
    using merge_loop_mset [of rest L R] by (simp add: merge_keep_replay replays_def)
next
  case (Cons g gs)
  let ?a = "pm_left g" and ?b = "pm_right g"
  let ?m = "merge_loop le (take ?a L) (take ?b R) (?a + ?b)"
  let ?n = "grouped_merge le rest gs (drop ?a L) (drop ?b R)"
  have len: "?a \<le> length L" "?b \<le> length R" using Cons.prems by auto
  have ih: "mset (map fst ?n) = mset (drop ?a L) + mset (drop ?b R) \<and> replays ?n (drop ?a L) (drop ?b R) \<and>
      fst (covered gs) \<le> length (drop ?a L) \<and> snd (covered gs) \<le> length (drop ?b R)"
    by (rule Cons.IH) (use Cons.prems in \<open>simp add: drop_map\<close>)
  note m = merge_loop_take_take [OF len, of le]
  have "merge_keep (map snd ?m @ map snd ?n) (take ?a L @ drop ?a L) (take ?b R @ drop ?b R) =
      rmap ((@) (map fst ?m)) (merge_keep (map snd ?n) (drop ?a L) (drop ?b R))"
    by (rule merge_keep_append) (use m len in \<open>auto simp: replays_def\<close>)
  then have "replays (grouped_merge le rest (g # gs) L R) L R" using ih by (simp add: replays_def)
  moreover have "mset L = mset (take ?a L) + mset (drop ?a L)" "mset R = mset (take ?b R) + mset (drop ?b R)"
    by (metis append_take_drop_id mset_append)+
  ultimately show ?case using ih m(2) len by (auto simp: ac_simps)
qed

text \<open>The operator returns the merge of the groups, cut off at the limit.\<close>

lemma merge_partitioned_loop_out:
  assumes "grouped lt gs (map f L) (map f R)" and "cnt < limit"
  shows "merge_partitioned_loop le limit cnt gs (map h L) (map h R) =
    Inr (map (\<lambda>(x, op). (h x, op))
      (take (limit - cnt) (take (fst (covered gs) + snd (covered gs))
        (grouped_merge (\<lambda>x y. le (h x) (h y)) rest gs L R))))"
  using assms
proof (induction gs arbitrary: L R cnt)
  case Nil
  then show ?case by simp
next
  case (Cons g gs)
  let ?a = "pm_left g" and ?b = "pm_right g" and ?le = "\<lambda>x y. le (h x) (h y)"
  let ?m = "merge_loop ?le (take ?a L) (take ?b R) (?a + ?b)"
  let ?h = "\<lambda>(x, op). (h x, op)"
  have len: "?a \<le> length L" "?b \<le> length R" using Cons.prems by auto
  have hm: "merge_loop le (take ?a (map h L)) (take ?b (map h R)) (?a + ?b) = map ?h ?m"
    using merge_loop_natural [of le h "take ?a L" "take ?b R"] by (simp add: take_map)
  have lm: "length ?m = ?a + ?b" by (rule merge_loop_take_take [OF len])
  have out: "if cnt < limit \<and> limit \<le> cnt + (?a + ?b)
    then \<exists>r. merge_group le limit cnt ?a ?b (map h L) (map h R) = Inr (take (limit - cnt) (map ?h ?m), True, r)
    else merge_group le limit cnt ?a ?b (map h L) (map h R) =
      Inr (map ?h ?m, False, drop ?a (map h L), drop ?b (map h R))"
    using merge_group_out [of ?a "map h L" ?b "map h R" cnt limit le] len unfolding hm by simp
  show ?case
  proof (cases "limit \<le> cnt + (?a + ?b)")
    case True
    then obtain r where "merge_group le limit cnt ?a ?b (map h L) (map h R) = Inr (take (limit - cnt) (map ?h ?m), True, r)"
      using out Cons.prems(2) by auto
    with True lm show ?thesis by (cases r) (simp add: take_map min_def)
  next
    case False
    then have lim: "limit - cnt - (?a + ?b) = limit - (cnt + ?a + ?b)" "cnt + ?a + ?b < limit" by auto
    have ih: "merge_partitioned_loop le limit (cnt + ?a + ?b) gs (map h (drop ?a L)) (map h (drop ?b R)) =
      Inr (map ?h (take (limit - (cnt + ?a + ?b)) (take (fst (covered gs) + snd (covered gs))
        (grouped_merge ?le rest gs (drop ?a L) (drop ?b R)))))"
      by (rule Cons.IH) (use Cons.prems lim in \<open>auto simp: drop_map\<close>)
    have "fst (covered (g # gs)) + snd (covered (g # gs)) - (?a + ?b) = fst (covered gs) + snd (covered gs)"
      by simp
    with False out ih lim lm show ?thesis
      by (simp add: drop_map take_map)
  qed
qed

locale two_columns = fst_col: comparator c + snd_col: comparator d
  for c :: "'a Comparator" and d :: "'b Comparator"
begin

lemma row_le_total: "\<not> row_le c d f g x y \<Longrightarrow> row_le c d f g y x"
  using fst_col.cmp_not_eq [of "f x" "f y"] fst_col.cmp_not_eq [of "f y" "f x"]
    fst_col.cmp_eq_antisym [of "f x" "f y"] snd_col.cmp_eq_total [of "g x" "g y"]
  by (auto simp: row_le_def)

lemma row_le_trans: "row_le c d f g x y \<Longrightarrow> row_le c d f g y z \<Longrightarrow> row_le c d f g x z"
  using fst_col.cmp_eq_trans [of "f z" "f y" "f x"] fst_col.cmp_eq_trans [of "f y" "f z" "f x"]
    fst_col.cmp_eq_trans [of "f z" "f x" "f y"]
    fst_col.cmp_not_eq [of "f x" "f y"] fst_col.cmp_not_eq [of "f y" "f z"] fst_col.cmp_not_eq [of "f x" "f z"]
    fst_col.cmp_eq_total [of "f x" "f y"] fst_col.cmp_eq_total [of "f y" "f z"]
    snd_col.cmp_eq_trans [of "g x" "g y" "g z"]
  by (auto simp: row_le_def)

lemma row_le_same: "f x = f y \<Longrightarrow> row_le c d f g x y \<longleftrightarrow> cmp_eq d (g x) (g y)"
  using fst_col.cmp_not_eq [of "f x" "f x"] fst_col.cmp_eq_refl by (simp add: row_le_def)

lemma sorted_rows_fst:
  "sorted_wrt (row_le c d f g) L \<Longrightarrow> sorted_wrt (cmp_eq c) (map f L)"
  by (induction L) (auto simp: row_le_def fst_col.cmp_imp_eq fst_col.cmp_eq_refl)

lemma grouped_merge_sorted:
  assumes "grouped (cmp c) gs (map f L) (map f R)"
    and "sorted_wrt (row_le c d f g) L" and "sorted_wrt (row_le c d f g) R"
  shows "sorted_wrt (row_le c d f g)
    (map fst (grouped_merge (\<lambda>x y. cmp_eq d (g x) (g y)) (row_le c d f g) gs L R))"
  using assms
proof (induction gs arbitrary: L R)
  case Nil
  show ?case
    unfolding grouped_merge.simps
    by (rule merge_loop_sorted_rel) (use Nil row_le_total in \<open>auto intro: row_le_trans\<close>)
next
  case (Cons p gs)
  let ?a = "pm_left p" and ?b = "pm_right p" and ?le = "row_le c d f g"
  let ?cm = "\<lambda>x y. cmp_eq d (g x) (g y)"
  let ?m = "map fst (merge_loop ?cm (take ?a L) (take ?b R) (?a + ?b))"
  let ?n = "map fst (grouped_merge ?cm ?le gs (drop ?a L) (drop ?b R))"
  from Cons.prems(1) obtain e where len: "?a \<le> length L" "?b \<le> length R"
    and same: "\<forall>x \<in> set (take ?a L) \<union> set (take ?b R). f x = e"
    and later: "\<forall>y \<in> set (drop ?a L) \<union> set (drop ?b R). cmp c e (f y)"
    and gs: "grouped (cmp c) gs (map f (drop ?a L)) (map f (drop ?b R))"
    by (auto simp: take_map drop_map ball_Un)
  have sm: "set ?m = set (take ?a L) \<union> set (take ?b R)"
    using merge_loop_set [of ?cm "take ?a L" "take ?b R"] len by (simp add: min_absorb2)
  have sn: "set ?n = set (drop ?a L) \<union> set (drop ?b R)"
    using grouped_merge_rows [OF gs, of ?cm ?le] by (metis set_mset_mset set_mset_union)
  have st: "sorted_wrt ?cm xs" if "sorted_wrt ?le xs" "\<forall>x \<in> set xs. f x = e" for xs
    using that by (induction xs) (auto simp: row_le_same)
  have "sorted_wrt ?cm (map fst (merge_loop ?cm (take ?a L) (take ?b R) (length (take ?a L) + length (take ?b R))))"
  proof (rule merge_loop_sorted_rel)
    show "?cm y x" if "\<not> ?cm x y" for x y using that snd_col.cmp_eq_total by blast
    show "?cm x z" if "?cm x y" "?cm y z" for x y z using that by (rule snd_col.cmp_eq_trans)
  qed (use st Cons.prems same in \<open>auto simp: sorted_wrt_take\<close>)
  then have "sorted_wrt ?cm ?m" using len by (simp add: min_absorb2)
  moreover have "sorted_wrt ?le xs" if "sorted_wrt ?cm xs" "\<forall>x \<in> set xs. f x = e" for xs
    using that by (induction xs) (auto simp: row_le_same)
  ultimately have "sorted_wrt ?le ?m" using sm same by blast
  moreover have "sorted_wrt ?le ?n"
    using Cons.IH [OF gs] Cons.prems(2,3) sorted_wrt_drop by blast
  moreover have "\<forall>x \<in> set ?m. \<forall>y \<in> set ?n. ?le x y"
    unfolding sm sn using same later by (auto simp: row_le_def)
  ultimately show ?case by (simp add: sorted_wrt_append)
qed

text \<open>
  Partitioning by the first column and merging the second one inside the groups is the merge of
  the rows by both columns, cut off at the limit; the operations it records replay it on any column.
\<close>

lemma merge_by_two_columns:
  assumes L: "sorted_wrt (row_le c d f g) L" and R: "sorted_wrt (row_le c d f g) R"
    and limit: "0 < limit" and small: "length L + length R < 2 ^ 32"
  shows "\<exists>full ops. mset full = mset L + mset R \<and> sorted_wrt (row_le c d f g) full \<and>
    merge_partitioned d (partition_merge c (map f L) (map f R) limit) (map g L) (map g R) limit
      = Inr (map g (take limit full), ops) \<and>
    merge_keep ops L R = Inr (take limit full)"
proof -
  let ?gs = "partition_merge c (map f L) (map f R) limit"
  let ?out = "grouped_merge (\<lambda>x y. cmp_eq d (g x) (g y)) (row_le c d f g) ?gs L R"
  let ?n = "fst (covered ?gs) + snd (covered ?gs)"
  have spec: "grouped (cmp c) ?gs (map f L) (map f R) \<and>
      (covered ?gs = (length (map f L), length (map f R)) \<or> min limit (2 ^ 32 - 1) \<le> 0 + ?n)"
    unfolding partition_merge_def
    by (rule fst_col.partition_loop_spec) (use L R sorted_rows_fst in auto)
  note rows = grouped_merge_rows [OF spec [THEN conjunct1], of "\<lambda>x y. cmp_eq d (g x) (g y)" "row_le c d f g"]
  have len: "length ?out = length L + length R"
    using rows by (metis length_map size_mset size_union)
  have cut: "take limit (take ?n ?out) = take limit ?out"
    using spec len small rows by (auto simp: min_def split: if_splits)
  have out: "merge_partitioned_loop (cmp_eq d) limit 0 ?gs (map g L) (map g R) =
      Inr (map (\<lambda>(x, op). (g x, op)) (take limit ?out))"
    using merge_partitioned_loop_out [OF spec [THEN conjunct1] limit, of "cmp_eq d" g "row_le c d f g"] cut by simp
  have "merge_partitioned d ?gs (map g L) (map g R) limit =
      Inr (map g (take limit (map fst ?out)), map snd (take limit ?out))"
    by (simp add: merge_partitioned_def out take_map comp_def split_def)
  moreover have "merge_keep (map snd (take limit ?out)) L R = Inr (take limit (map fst ?out))"
    using merge_keep_take [of "map snd ?out" L R "map fst ?out" limit] rows by (simp add: replays_def take_map)
  ultimately show ?thesis
    using rows grouped_merge_sorted [OF spec [THEN conjunct1] L R] by blast
qed

end

interpretation asc_asc: two_columns
  "CmpLessThan :: 'a::linorder Comparator" "CmpLessThan :: 'b::linorder Comparator" ..

interpretation asc_desc: two_columns
  "CmpLessThan :: 'a::linorder Comparator" "CmpGreaterThan :: 'b::linorder Comparator" ..

interpretation desc_asc: two_columns
  "CmpGreaterThan :: 'a::linorder Comparator" "CmpLessThan :: 'b::linorder Comparator" ..

interpretation desc_desc: two_columns
  "CmpGreaterThan :: 'a::linorder Comparator" "CmpGreaterThan :: 'b::linorder Comparator" ..

section \<open>Grouping by two columns\<close>

lemma dedup_loop_right_only:
  assumes "sorted_wrt (<) (r # rs)" and "\<And>m. lst = Some m \<Longrightarrow> m \<le> r"
  shows "dedup_loop lst [] (r # rs) =
    (if lst = Some r then (fst (dedup_loop lst [] rs), MergeRight # snd (dedup_loop lst [] rs))
     else (r # fst (dedup_loop (Some r) [] rs), TakeRight # snd (dedup_loop (Some r) [] rs)))"
  using assms by (cases rs) (auto simp: Let_def)

lemma dedup_group_out:
  assumes "a \<le> length ls" and "b \<le> length rs"
    and "sorted_wrt (<) (take a ls)" and "sorted_wrt (<) (take b rs)"
    and "\<And>m. lst = Some m \<Longrightarrow> (\<forall>x \<in> set (take a ls). m < x) \<and> (\<forall>x \<in> set (take b rs). m \<le> x)"
  shows "dedup_group lst a b ls rs =
    Inr (fst (dedup_loop lst (take a ls) (take b rs)), snd (dedup_loop lst (take a ls) (take b rs)),
         drop a ls, drop b rs)"
  using assms
proof (induction "a + b" arbitrary: a b ls rs lst)
  case 0
  then show ?case by (subst dedup_group.simps) simp
next
  case (Suc n)
  show ?case
  proof (cases "b = 0")
    case True
    then obtain a' l ls' where a: "a = Suc a'" "ls = l # ls'" using Suc(2,3) by (cases a; cases ls) auto
    have "dedup_group (Some l) a' b ls' rs =
      Inr (fst (dedup_loop (Some l) (take a' ls') (take b rs)), snd (dedup_loop (Some l) (take a' ls') (take b rs)),
         drop a' ls', drop b rs)"
      by (rule Suc.hyps(1)) (use Suc(2-) True a in auto)
    moreover have "dedup_loop lst (l # xs) [] = (l # fst (dedup_loop (Some l) xs []), TakeLeft # snd (dedup_loop (Some l) xs []))"
      for xs by (cases xs) auto
    ultimately show ?thesis
      by (subst dedup_group.simps) (use True a in \<open>simp add: index_def\<close>)
  next
    case False
    then obtain b' r rs' where b: "b = Suc b'" "rs = r # rs'" using Suc(4) by (cases b; cases rs) auto
    show ?thesis
    proof (cases "lst = Some r")
      case True
      have ih: "dedup_group lst a b' ls rs' =
        Inr (fst (dedup_loop lst (take a ls) (take b' rs')), snd (dedup_loop lst (take a ls) (take b' rs')),
           drop a ls, drop b' rs')"
        by (rule Suc.hyps(1)) (use Suc(2-) b in auto)
      have "dedup_loop lst (take a ls) (take b rs) =
          (fst (dedup_loop lst (take a ls) (take b' rs')), MergeRight # snd (dedup_loop lst (take a ls) (take b' rs')))"
      proof (cases "take a ls")
        case Nil
        have sr: "sorted_wrt (<) (r # take b' rs')" using Suc(6) b by simp
        show ?thesis
          unfolding Nil using dedup_loop_right_only [OF sr, of lst] True b by (simp del: dedup_loop.simps)
      next
        case (Cons y ys)
        with True b show ?thesis by (simp add: Let_def split_def)
      qed
      with ih True b show ?thesis
        by (subst dedup_group.simps) (simp add: index_def)
    next
      case ne: False
      show ?thesis
      proof (cases "0 < a \<and> hd ls \<le> r")
        case True
        then obtain a' l ls' where a: "a = Suc a'" "ls = l # ls'" using Suc(3) by (cases a; cases ls) auto
        have ih: "dedup_group (Some l) a' b ls' rs =
          Inr (fst (dedup_loop (Some l) (take a' ls') (take b rs)), snd (dedup_loop (Some l) (take a' ls') (take b rs)),
             drop a' ls', drop b rs)"
          by (rule Suc.hyps(1)) (use Suc(2-) True a b in \<open>auto intro: order.trans\<close>)
        with True a b ne show ?thesis
          by (subst dedup_group.simps) (simp add: index_def split_def Let_def)
      next
        case gt: False
        have ih: "dedup_group (Some r) a b' ls rs' =
          Inr (fst (dedup_loop (Some r) (take a ls) (take b' rs')), snd (dedup_loop (Some r) (take a ls) (take b' rs')),
             drop a ls, drop b' rs')"
        proof (rule Suc.hyps(1))
          fix m assume "Some r = Some m"
          moreover have "\<forall>x \<in> set (take a ls). r < x"
            using gt Suc(3,5) by (cases a; cases ls) (auto intro: less_trans)
          ultimately show "(\<forall>x \<in> set (take a ls). m < x) \<and> (\<forall>x \<in> set (take b' rs'). m \<le> x)"
            using Suc(6) b by auto
        qed (use Suc(2-) b in auto)
        have "dedup_loop lst (take a ls) (take b rs) =
            (r # fst (dedup_loop (Some r) (take a ls) (take b' rs')), TakeRight # snd (dedup_loop (Some r) (take a ls) (take b' rs')))"
        proof (cases "take a ls")
          case Nil
          have sr: "sorted_wrt (<) (r # take b' rs')" using Suc(6) b by simp
          have "\<And>m. lst = Some m \<Longrightarrow> m \<le> r" using Suc(7) b by auto
          with dedup_loop_right_only [OF sr, of lst] b ne show ?thesis
            unfolding Nil by (simp del: dedup_loop.simps)
        next
          case (Cons y ys)
          then have "\<not> y \<le> r" using gt by (cases a; cases ls) auto
          with Cons b ne show ?thesis by (simp add: Let_def split_def)
        qed
        moreover have "(if 0 < a then if b = 0 then Inr True
            else rbind (index ls 0) (\<lambda>l. rbind (index rs 0) (\<lambda>r. Inr (l \<le> r))) else Inr False) = Inr False"
          using gt Suc(3) b by (cases ls) (auto simp: index_def)
        ultimately show ?thesis
          using ih b ne by (subst dedup_group.simps) (simp add: index_def)
      qed
    qed
  qed
qed


text \<open>The operations of a group use up exactly the rows of that group.\<close>

definition consumes :: "MergeOp list \<Rightarrow> nat \<Rightarrow> nat \<Rightarrow> bool" where
  "consumes ops a b \<longleftrightarrow> length (filter (\<lambda>op. op = TakeLeft) ops) = a \<and>
     length (filter (\<lambda>op. op \<noteq> TakeLeft) ops) = b"

lemma dedup_loop_consumes: "consumes (snd (dedup_loop lst ls rs)) (length ls) (length rs)"
proof (induction lst ls rs rule: dedup_loop.induct [case_names "1" left_done right_done])
  case (1 lst l ls r rs)
  then show ?case by (simp add: consumes_def Let_def split_def)
qed (auto simp: consumes_def Let_def)

lemma aggregate_append:
  assumes "consumes ops (length l) (length r)"
  shows "merge_aggregate_loop f (ops @ ops') (l @ l') (r @ r') res =
    rbind (merge_aggregate_loop f ops l r res) (\<lambda>out. merge_aggregate_loop f ops' l' r' (rev out))"
  using assms
proof (induction f ops l r res rule: merge_aggregate_loop.induct)
  case (1 f l r res)
  then show ?case by (simp add: consumes_def)
next
  case (2 f ops l r res)
  then show ?case by (cases l) (auto simp: consumes_def)
next
  case (3 f ops l r res)
  then show ?case by (cases r) (auto simp: consumes_def)
next
  case (4 f ops l r res)
  then obtain y ys where r: "r = y # ys" by (cases r) (auto simp: consumes_def)
  show ?case
  proof (cases res)
    case (Cons x xs)
    with r 4 show ?thesis by (cases "f x y") (auto simp: consumes_def)
  qed (use r in simp)
qed

lemma drop_append:
  assumes "consumes ops (length l) (length r)"
  shows "merge_drop (ops @ ops') (l @ l') (r @ r') =
    rbind (merge_drop ops l r) (\<lambda>out. rmap ((@) out) (merge_drop ops' l' r'))"
  using assms
proof (induction ops l r rule: merge_drop.induct)
  case (1 l r)
  then show ?case by (cases "merge_drop ops' l' r'") (auto simp: consumes_def)
next
  case (2 ops l r)
  then obtain x xs where "l = x # xs" by (cases l) (auto simp: consumes_def)
  with 2 show ?case
    by (cases "merge_drop ops xs r"; cases "merge_drop ops' l' r'") (auto simp: consumes_def)
next
  case (3 ops l r)
  then obtain x xs where "r = x # xs" by (cases r) (auto simp: consumes_def)
  with 3 show ?case
    by (cases "merge_drop ops l xs"; cases "merge_drop ops' l' r'") (auto simp: consumes_def)
next
  case (4 ops l r)
  then obtain x xs where "r = x # xs" by (cases r) (auto simp: consumes_def)
  with 4 show ?case by (auto simp: consumes_def)
qed

lemma drop_constant:
  assumes "dedup_loop lst ls rs = (ks, ops)" and "length L = length ls" and "length R = length rs"
    and "\<forall>x \<in> set L \<union> set R. x = e"
  shows "merge_drop ops L R = Inr (replicate (length ks) e)"
  using assms
proof (induction lst ls rs arbitrary: ks ops L R rule: dedup_loop.induct [case_names "1" left_done right_done])
  case (1 lst l ls r rs)
  obtain x xs y ys where LR: "L = x # xs" "R = y # ys" using 1(5,6) by (cases L; cases R) auto
  consider (m) "lst = Some r" | (l) "lst \<noteq> Some r" "l \<le> r" | (r) "lst \<noteq> Some r" "\<not> l \<le> r" by blast
  then show ?case
  proof cases
    case m
    with 1(4) obtain ops' where "dedup_loop lst (l # ls) rs = (ks, ops')" "ops = MergeRight # ops'"
      by (auto split: prod.splits)
    with "1.IH"(1) [OF m, of ks ops' L ys] 1(5-7) LR show ?thesis by auto
  next
    case l
    with 1(4) obtain ks' ops' where "dedup_loop (Some l) ls (r # rs) = (ks', ops')" "ops = TakeLeft # ops'" "ks = l # ks'"
      by (auto split: prod.splits)
    with "1.IH"(2) [OF l, of ks' ops' xs R] 1(5-7) LR show ?thesis by auto
  next
    case r
    with 1(4) obtain ks' ops' where "dedup_loop (Some r) (l # ls) rs = (ks', ops')" "ops = TakeRight # ops'" "ks = r # ks'"
      by (auto split: prod.splits)
    with "1.IH"(3) [OF r, of ks' ops' L ys] 1(5-7) LR show ?thesis by auto
  qed
next
  case (left_done lst rs)
  have rep: "merge_drop (replicate (length zs) TakeRight) [] zs = Inr zs" for zs :: "'b list"
    by (induction zs) auto
  have const: "zs = replicate (length zs) e" if "\<forall>x \<in> set zs. x = e" for zs :: "'b list"
    using that by (intro replicate_eqI) auto
  have L: "L = []" using left_done by simp
  show ?case
  proof (cases "rs \<noteq> [] \<and> lst = Some (hd rs)")
    case True
    with left_done obtain y ys where R: "R = y # ys" by (cases R) auto
    have "length ks = length ys" "ops = MergeRight # replicate (length ys) TakeRight"
      using True left_done(1-3) L R by (auto simp: Let_def)
    moreover have "ys = replicate (length ys) e" using left_done(4) R by (intro const) simp
    ultimately show ?thesis using rep [of ys] L R by (metis list.sel(3) merge_drop.simps(4))
  next
    case False
    have "length ks = length R" "ops = replicate (length R) TakeRight"
      using False left_done(1-3) by (auto simp: Let_def split: if_splits)
    moreover have "R = replicate (length R) e" using left_done(4) by (intro const) simp
    ultimately show ?thesis using rep [of R] L by metis
  qed
next
  case (right_done lst ls)
  have rep: "merge_drop (replicate (length zs) TakeLeft) zs [] = Inr zs" for zs :: "'b list"
    by (induction zs) auto
  have "R = []" "length ks = length L" "ops = replicate (length L) TakeLeft"
    using right_done(1-3) by (auto simp: Let_def)
  moreover have "L = replicate (length L) e" using right_done(4) by (intro replicate_eqI) auto
  ultimately show ?case using rep [of L] by metis
qed


definition row_key :: "('r \<Rightarrow> 'a) \<Rightarrow> ('r \<Rightarrow> 'b) \<Rightarrow> 'r \<Rightarrow> 'a \<times> 'b" where
  "row_key f g x = (f x, g x)"

definition key_less :: "'a::linorder \<times> 'b::linorder \<Rightarrow> 'a \<times> 'b \<Rightarrow> bool" where
  "key_less k k' \<longleftrightarrow> fst k < fst k' \<or> (fst k = fst k' \<and> snd k < snd k')"

text \<open>The value a column holds for a group-by key.\<close>

definition value_at :: "('r \<Rightarrow> 'k) \<Rightarrow> ('r \<Rightarrow> 'v) \<Rightarrow> 'r list \<Rightarrow> 'k \<rightharpoonup> 'v" where
  "value_at key v rows = map_of (map (\<lambda>x. (key x, v x)) rows)"

lemma value_at_append: "value_at key v (xs @ ys) k =
    (case value_at key v xs k of Some a \<Rightarrow> Some a | None \<Rightarrow> value_at key v ys k)"
  by (simp add: value_at_def map_add_def split: option.split)

lemma value_at_None: "value_at key v rows k = None \<longleftrightarrow> k \<notin> key ` set rows"
  by (force simp: value_at_def map_of_eq_None_iff)

lemma value_at_Pair:
  "\<forall>x \<in> set rows. f x = e \<Longrightarrow> value_at (row_key f g) v rows (e, b) = value_at g v rows b"
  by (induction rows) (auto simp: value_at_def row_key_def)

lemma group_by_two_columns_loop:
  fixes f :: "'r \<Rightarrow> 'a::linorder" and g :: "'r \<Rightarrow> 'b::linorder"
  assumes "grouped (<) gs (map f L) (map f R)" and "covered gs = (length L, length R)"
    and "sorted_wrt key_less (map (row_key f g) L)" and "sorted_wrt key_less (map (row_key f g) R)"
  shows "\<exists>ks ops. merge_deduplicate_partitioned gs (map g L) (map g R) = Inr (map snd ks, ops) \<and>
    merge_drop ops (map f L) (map f R) = Inr (map fst ks) \<and>
    set ks = row_key f g ` (set L \<union> set R) \<and> sorted_wrt key_less ks \<and>
    (\<forall>comb (v :: 'r \<Rightarrow> 'v) res. merge_aggregate_loop comb ops (map v L) (map v R) res =
      rmap ((@) (rev res)) (rmapM (\<lambda>k. combine_opt comb
        (value_at (row_key f g) v L k) (value_at (row_key f g) v R k)) ks))"
  using assms
proof (induction gs arbitrary: L R)
  case Nil
  then show ?case by auto
next
  case (Cons p gs)
  let ?a = "pm_left p" and ?b = "pm_right p" and ?key = "row_key f g"
  let ?L1 = "take ?a L" and ?R1 = "take ?b R" and ?L2 = "drop ?a L" and ?R2 = "drop ?b R"
  from Cons.prems(1) obtain e where len: "?a \<le> length L" "?b \<le> length R"
    and same: "\<forall>x \<in> set ?L1 \<union> set ?R1. f x = e"
    and later: "\<forall>y \<in> set ?L2 \<union> set ?R2. e < f y"
    and gs: "grouped (<) gs (map f ?L2) (map f ?R2)"
    by (auto simp: take_map drop_map ball_Un)
  have gsort: "sorted_wrt (<) (map g xs)" if "sorted_wrt key_less (map ?key xs)" "\<forall>x \<in> set xs. f x = e" for xs
    using that by (induction xs) (auto simp: key_less_def row_key_def)
  have s1: "sorted_wrt (<) (map g ?L1)" "sorted_wrt (<) (map g ?R1)"
    using gsort [of ?L1] gsort [of ?R1] Cons.prems(3,4) same by (auto simp: take_map [symmetric] sorted_wrt_take)
  obtain bs ops1 where d: "dedup_loop None (map g ?L1) (map g ?R1) = (bs, ops1)" by fastforce
  have dg: "dedup_group None ?a ?b (map g L) (map g R) = Inr (bs, ops1, map g ?L2, map g ?R2)"
    using dedup_group_out [of ?a "map g L" ?b "map g R" None] len s1 d by (simp add: take_map drop_map)
  have keys: "set bs = g ` set ?L1 \<union> g ` set ?R1 \<and> sorted_wrt (<) bs"
    using dedup_loop_keys [OF d s1] by simp
  have cons1: "consumes ops1 (length (map h ?L1)) (length (map h ?R1))" for h :: "'r \<Rightarrow> 'c"
    using dedup_loop_consumes [of None "map g ?L1" "map g ?R1"] d by simp
  have c2: "covered gs = (length ?L2, length ?R2)" using Cons.prems(2) by (auto simp: prod_eq_iff)
  have s2: "sorted_wrt key_less (map ?key ?L2)" "sorted_wrt key_less (map ?key ?R2)"
    using Cons.prems(3,4) by (auto simp: drop_map [symmetric] sorted_wrt_drop)
  obtain ks2 ops2 where ih: "merge_deduplicate_partitioned gs (map g ?L2) (map g ?R2) = Inr (map snd ks2, ops2)"
    "merge_drop ops2 (map f ?L2) (map f ?R2) = Inr (map fst ks2)"
    "set ks2 = ?key ` (set ?L2 \<union> set ?R2)" "sorted_wrt key_less ks2"
    "\<forall>comb (v :: 'r \<Rightarrow> 'v) res. merge_aggregate_loop comb ops2 (map v ?L2) (map v ?R2) res =
      rmap ((@) (rev res)) (rmapM (\<lambda>k. combine_opt comb (value_at ?key v ?L2 k) (value_at ?key v ?R2 k)) ks2)"
    using Cons.IH [OF gs c2 s2] by blast
  define ks where "ks = map (Pair e) bs @ ks2"
  have "merge_drop ops1 (map f ?L1) (map f ?R1) = Inr (map fst (map (Pair e) bs))"
    using drop_constant [OF d, of "map f ?L1" "map f ?R1" e] same
    by (simp add: map_replicate_const comp_def ball_Un)
  then have "merge_drop (ops1 @ ops2) (map f ?L1 @ map f ?L2) (map f ?R1 @ map f ?R2) = Inr (map fst ks)"
    unfolding drop_append [OF cons1] by (simp add: ih ks_def)
  then have md: "merge_drop (ops1 @ ops2) (map f L) (map f R) = Inr (map fst ks)"
    by (simp add: map_append [symmetric] del: map_append)
  have dd: "merge_deduplicate_partitioned (p # gs) (map g L) (map g R) = Inr (map snd ks, ops1 @ ops2)"
    using dg ih(1) by (simp add: ks_def comp_def)
  have split: "set L = set ?L1 \<union> set ?L2" "set R = set ?R1 \<union> set ?R2"
    by (metis append_take_drop_id set_append)+
  have k1: "set (map (Pair e) bs) = ?key ` (set ?L1 \<union> set ?R1)"
    using keys same by (force simp: row_key_def)
  have ks: "set ks = ?key ` (set L \<union> set R)"
    unfolding ks_def set_append k1 ih(3) split by auto
  have "sorted_wrt key_less (map (Pair e) bs)"
    using keys by (simp add: sorted_wrt_map key_less_def)
  moreover have "\<forall>k \<in> set ks2. e < fst k" using ih(3) later by (auto simp: row_key_def)
  ultimately have srt: "sorted_wrt key_less ks"
    using ih(4) by (auto simp: ks_def sorted_wrt_append key_less_def)
  have agg: "merge_aggregate_loop comb (ops1 @ ops2) (map v L) (map v R) res =
      rmap ((@) (rev res)) (rmapM (\<lambda>k. combine_opt comb (value_at ?key v L k) (value_at ?key v R k)) ks)"
    for comb and v :: "'r \<Rightarrow> 'v" and res
  proof -
    let ?F = "\<lambda>L R k. combine_opt comb (value_at ?key v L k) (value_at ?key v R k)"
    have app: "value_at ?key v L k = (case value_at ?key v ?L1 k of Some a \<Rightarrow> Some a | None \<Rightarrow> value_at ?key v ?L2 k)"
      "value_at ?key v R k = (case value_at ?key v ?R1 k of Some a \<Rightarrow> Some a | None \<Rightarrow> value_at ?key v ?R2 k)" for k
      using value_at_append [of ?key v ?L1 ?L2 k] value_at_append [of ?key v ?R1 ?R2 k] by simp_all
    have F2: "?F L R k = ?F ?L2 ?R2 k" if "k \<in> set ks2" for k
    proof -
      have "e < fst k" using that ih(3) later by (auto simp: row_key_def)
      then have "value_at ?key v ?L1 k = None" "value_at ?key v ?R1 k = None"
        using same by (auto simp: value_at_None row_key_def)
      then show ?thesis by (simp add: app)
    qed
    have F1: "?F L R (e, b) = combine_opt comb (value_at g v ?L1 b) (value_at g v ?R1 b)" for b
    proof -
      have "value_at ?key v ?L2 (e, b) = None" "value_at ?key v ?R2 (e, b) = None"
        using later by (auto simp: value_at_None row_key_def)
      then show ?thesis
        using value_at_Pair [of ?L1 f e g v b] value_at_Pair [of ?R1 f e g v b] same
        by (simp add: app split: option.split)
    qed
    have "merge_aggregate_loop comb ops1 (map v ?L1) (map v ?R1) res =
        rmap ((@) (rev res)) (rmapM (\<lambda>b. combine_opt comb (value_at g v ?L1 b) (value_at g v ?R1 b)) bs)"
      using aggregate_dedup [of None "map (\<lambda>x. (g x, v x)) ?L1" "map (\<lambda>x. (g x, v x)) ?R1" bs ops1 res comb] d s1
      by (simp add: comp_def value_at_def)
    also have "\<dots> = rmap ((@) (rev res)) (rmapM (?F L R) (map (Pair e) bs))"
      by (simp only: rmapM_map F1)
    finally have one: "merge_aggregate_loop comb ops1 (map v ?L1) (map v ?R1) res =
        rmap ((@) (rev res)) (rmapM (?F L R) (map (Pair e) bs))" .
    have two: "rmapM (?F ?L2 ?R2) ks2 = rmapM (?F L R) ks2" by (rule rmapM_cong) (simp add: F2)
    have "merge_aggregate_loop comb (ops1 @ ops2) (map v ?L1 @ map v ?L2) (map v ?R1 @ map v ?R2) res =
        rmap ((@) (rev res)) (rmapM (?F L R) ks)"
      unfolding aggregate_append [OF cons1] one ih(5) [rule_format] two ks_def rmapM_append
      by (cases "rmapM (?F L R) (map (Pair e) bs)"; cases "rmapM (?F L R) ks2") simp_all
    then show ?thesis by (simp add: map_append [symmetric] del: map_append)
  qed
  show ?case using dd md ks srt agg by blast
qed

section \<open>Main results\<close>

text \<open>
  C30. Sorting by two columns. Partitioning two sorted inputs by the first column (descending) and
  merging the second one (ascending) inside the groups gives the first \<open>limit\<close> rows of a sorted
  arrangement of all rows of both inputs, and the operations it records replay that arrangement on
  whole rows. Rows are of any type, with the sort columns given by \<open>f\<close> and \<open>g\<close>.
\<close>

theorem merge_partitioned_sorts:
  fixes f :: "'r \<Rightarrow> 'a::linorder" and g :: "'r \<Rightarrow> 'b::linorder"
  assumes "sorted_wrt (row_le CmpGreaterThan CmpLessThan f g) L"
    and "sorted_wrt (row_le CmpGreaterThan CmpLessThan f g) R"
    and "0 < limit" and "length L + length R < 2 ^ 32"
  shows "\<exists>full ops. mset full = mset L + mset R \<and> sorted_wrt (row_le CmpGreaterThan CmpLessThan f g) full \<and>
    merge_partitioned CmpLessThan (partition_merge CmpGreaterThan (map f L) (map f R) limit) (map g L) (map g R) limit
      = Inr (map g (take limit full), ops) \<and>
    merge_keep ops L R = Inr (take limit full)"
  using assms by (rule desc_asc.merge_by_two_columns)

theorem merge_partitioned_sorts_witness:
  "\<exists>full ops. mset full = mset [(3, 1), (3, 5), (2, 4)] + mset [(3, 2), (1 :: int, 0 :: int)] \<and>
    sorted_wrt (row_le CmpGreaterThan CmpLessThan fst snd) full \<and>
    merge_partitioned CmpLessThan (partition_merge CmpGreaterThan [3, 3, 2 :: int] [3, 1] 4) [1, 5, 4 :: int] [2, 0] 4
      = Inr (map snd (take 4 full), ops) \<and>
    merge_keep ops [(3, 1), (3, 5), (2, 4)] [(3, 2), (1, 0)] = Inr (take 4 full)"
  using merge_partitioned_sorts [of fst snd "[(3, 1), (3, 5), (2, 4)]" "[(3, 2), (1 :: int, 0 :: int)]" 4]
  by (simp add: row_le_def CmpGreaterThan_def CmpLessThan_def)

end
