(* ===== verification/Batch_Merging.thy ===== *)
theory Batch_Merging
  imports Partitioned_Merging
begin

text \<open>
  The results of two batches are combined into one, src/src/engine/execution/batch_merging.rs, with
  \<open>Scratchpad::collect_aliased\<close> of scratchpad.rs, which turns the buffers of the merge plan into the
  columns of the result.

  All columns have one element type here: \<open>unify_types\<close> casts two columns to the bound of their
  types (\<open>least_upper_bound\<close>) and is the identity on equal types. How two values of an aggregate
  are combined is the parameter \<open>agg\<close>, which is \<open>combine_i64\<close> for integer columns. The buffers of
  the plan are named by the operation that fills them, since the planner caches operations and
  returns the buffer of an equal one.
\<close>

record 'v BatchResult =
  br_columns :: "'v list list"
  br_projection :: "nat list"
  br_aggregations :: "(nat \<times> Aggregator) list"
  br_order_by :: "(nat \<times> bool) list"
  br_level :: nat
  br_batch_count :: nat
  br_show :: bool

definition batch_len :: "'v BatchResult \<Rightarrow> nat" where
  "batch_len b = (case br_columns b of [] \<Rightarrow> 0 | s # _ \<Rightarrow> length s)"

definition validate :: "'v BatchResult \<Rightarrow> unit res" where
  "validate b =
     (if \<not> (\<forall>x \<in> set (br_columns b). length x = batch_len b)
      then Inl (Fail (FatalError ''columns.len''))
      else if \<exists>(i, a) \<in> set (br_aggregations b). i \<ge> length (br_columns b)
      then Inl (Fail (FatalError ''Aggregation exceeds number of columns''))
      else Inr ())"

text \<open>The names are \<open>_cs\<close> and \<open>_ca\<close> with a number; later insertions replace earlier ones.\<close>

datatype col_key = Cs nat | Ca nat

definition into_columns :: "'v BatchResult \<Rightarrow> (col_key \<rightharpoonup> 'v list) res" where
  "into_columns b =
     rbind (rfoldM (\<lambda>cols p. rmap (\<lambda>c. cols(Cs p \<mapsto> c)) (index (br_columns b) p))
              Map.empty (br_projection b)) (\<lambda>cols.
       rfoldM (\<lambda>cols (i, (a, _)). rmap (\<lambda>c. cols(Ca i \<mapsto> c)) (index (br_columns b) a))
         cols (enumerate 0 (br_aggregations b)))"

section \<open>collect_aliased\<close>

text \<open>One pass over a list of buffers: equal buffers share a column of the result.\<close>

fun collect_pass ::
    "('b \<Rightarrow> 'c) \<Rightarrow> 'b list \<Rightarrow> ('b \<rightharpoonup> nat) \<Rightarrow> 'c list \<Rightarrow> nat list \<times> ('b \<rightharpoonup> nat) \<times> 'c list" where
  "collect_pass data [] collected columns = ([], collected, columns)"
| "collect_pass data (i # bufs) collected columns =
     (case collected i of
        Some k \<Rightarrow>
          (let (is, r) = collect_pass data bufs collected columns in (k # is, r))
      | None \<Rightarrow>
          (let (is, r) = collect_pass data bufs (collected(i \<mapsto> length columns)) (columns @ [data i])
           in (length columns # is, r)))"

definition collect_aliased ::
    "('b \<Rightarrow> 'c) \<Rightarrow> 'b list \<Rightarrow> ('b \<times> Aggregator) list \<Rightarrow> ('b \<times> bool) list \<Rightarrow>
     'c list \<times> nat list \<times> (nat \<times> Aggregator) list \<times> (nat \<times> bool) list" where
  "collect_aliased data projections aggregations rankings =
     (let (ps, c1, cols1) = collect_pass data projections Map.empty [];
          (as, c2, cols2) = collect_pass data (map fst aggregations) c1 cols1;
          (rs, c3, cols3) = collect_pass data (map fst rankings) c2 cols2
      in (cols3, ps, zip as (map snd aggregations), zip rs (map snd rankings)))"

section \<open>combine\<close>

datatype merge_buf =
    Merged
  | Kept nat nat
  | Dropped nat nat
  | Aggregated nat nat Aggregator

definition comparator_of :: "bool \<Rightarrow> 'v::linorder Comparator" where
  "comparator_of desc = (if desc then CmpGreaterThan else CmpLessThan)"

text \<open>Both columns of a pair of indices.\<close>

definition columns_at :: "'v list list \<Rightarrow> 'v list list \<Rightarrow> nat \<Rightarrow> nat \<Rightarrow> ('v list \<times> 'v list) res" where
  "columns_at left right i j = rbind (index left i) (\<lambda>l. rbind (index right j) (\<lambda>r. Inr (l, r)))"

definition refine_partitioning ::
    "'v list list \<Rightarrow> 'v::linorder list list \<Rightarrow> Premerge list \<Rightarrow> ((nat \<times> nat) \<times> bool) list \<Rightarrow> Premerge list res" where
  "refine_partitioning left right partitioning cols =
     rfoldM (\<lambda>p ((i, j), desc). rbind (columns_at left right i j) (\<lambda>(l, r).
         subpartition (comparator_of desc) p l r)) partitioning cols"

text \<open>The group-by columns and the merge operations of an aggregation query.\<close>

definition group_by_plan ::
    "'v::linorder list list \<Rightarrow> 'v list list \<Rightarrow> nat list \<Rightarrow> nat list \<Rightarrow> nat \<Rightarrow>
     (merge_buf list \<times> 'v list \<times> MergeOp list) res" where
  "group_by_plan left right lprojection rprojection limit =
     (case lprojection of
        [] \<Rightarrow> Inr ([], [], [TakeLeft, MergeRight])
      | [lp] \<Rightarrow>
          rbind (index rprojection 0) (\<lambda>rp.
          rbind (columns_at left right lp rp) (\<lambda>(l, r).
            let (merged, ops) = merge_deduplicate l r in Inr ([Merged], merged, ops)))
      | lp # _ \<Rightarrow>
          rbind (index rprojection 0) (\<lambda>rp.
          rbind (columns_at left right lp rp) (\<lambda>(l, r).
          let pairs = zip lprojection rprojection; n = length lprojection - 1 in
          rbind (refine_partitioning left right (partition_merge CmpLessThan l r limit)
                   (map (\<lambda>p. (p, False)) (take (n - 1) (tl pairs)))) (\<lambda>partitioning.
          rbind (index pairs n) (\<lambda>(i, j).
          rbind (columns_at left right i j) (\<lambda>(l, r).
          rbind (merge_deduplicate_partitioned partitioning l r) (\<lambda>(merged, ops).
            Inr (map (\<lambda>(i, j). Dropped i j) (take n pairs) @ [Merged], merged, ops))))))))"

text \<open>The contents of a buffer of the merge plan.\<close>

fun agg_buffer ::
    "(Aggregator \<Rightarrow> 'v \<Rightarrow> 'v \<Rightarrow> 'v res) \<Rightarrow> 'v list list \<Rightarrow> 'v list list \<Rightarrow> 'v list \<Rightarrow> MergeOp list \<Rightarrow>
     merge_buf \<Rightarrow> 'v list res" where
  "agg_buffer agg left right merged ops Merged = Inr merged"
| "agg_buffer agg left right merged ops (Dropped i j) =
     rbind (columns_at left right i j) (\<lambda>(l, r). merge_drop ops l r)"
| "agg_buffer agg left right merged ops (Aggregated i j a) =
     rbind (columns_at left right i j) (\<lambda>(l, r). merge_aggregate_loop (agg a) ops l r [])"
| "agg_buffer agg left right merged ops (Kept i j) = Inl Panicked"

fun keep_buffer :: "'v list list \<Rightarrow> 'v list list \<Rightarrow> 'v list \<Rightarrow> u8 list \<Rightarrow> merge_buf \<Rightarrow> 'v list res" where
  "keep_buffer left right merged ops Merged = Inr merged"
| "keep_buffer left right merged ops (Kept i j) =
     rbind (columns_at left right i j) (\<lambda>(l, r). merge_keep ops l r)"
| "keep_buffer left right merged ops _ = Inl Panicked"

text \<open>Running the plan fills every buffer; the first failing operation ends it.\<close>

definition run_plan :: "('b \<Rightarrow> 'c res) \<Rightarrow> 'b list \<Rightarrow> ('b \<Rightarrow> 'c) res" where
  "run_plan content bufs =
     rmap (\<lambda>cs b. the (map_of (zip bufs cs) b)) (rmapM content bufs)"

definition merged_batch :: "'v BatchResult \<Rightarrow> 'v BatchResult \<Rightarrow> 'v BatchResult \<Rightarrow> 'v BatchResult" where
  "merged_batch b1 b2 r =
     r\<lparr>br_level := br_level b1 + 1, br_batch_count := br_batch_count b1 + br_batch_count b2,
       br_show := br_show b1 \<and> br_show b2\<rparr>"

definition combine_aggregates ::
    "(Aggregator \<Rightarrow> 'v \<Rightarrow> 'v \<Rightarrow> 'v res) \<Rightarrow> 'v::linorder BatchResult \<Rightarrow> 'v BatchResult \<Rightarrow> nat \<Rightarrow> 'v BatchResult res" where
  "combine_aggregates agg batch1 batch2 limit =
     (let left = br_columns batch1; right = br_columns batch2 in
      rbind (group_by_plan left right (br_projection batch1) (br_projection batch2) limit)
        (\<lambda>(group_by_cols, merged, ops).
      rbind (rmapM (\<lambda>((ileft, a), (iright, _)).
                 rmap (\<lambda>_. (Aggregated ileft iright a, a)) (columns_at left right ileft iright))
               (zip (br_aggregations batch1) (br_aggregations batch2))) (\<lambda>aggregates.
      rbind (run_plan (agg_buffer agg left right merged ops) (group_by_cols @ map fst aggregates)) (\<lambda>data.
      let (columns, projection, aggregations, _) = collect_aliased data group_by_cols aggregates [];
          result = merged_batch batch1 batch2
            \<lparr>br_columns = columns, br_projection = projection, br_aggregations = aggregations,
             br_order_by = [], br_level = 0, br_batch_count = 0, br_show = False\<rparr>
      in rbind (validate result) (\<lambda>_. Inr result)))))"

text \<open>
  The loop that refines the partitioning runs to \<open>left.len() - 1\<close>, the number of columns, and takes
  both column indices from the left batch, as in the source.
\<close>

definition sort_plan ::
    "'v::linorder list list \<Rightarrow> 'v list list \<Rightarrow> (nat \<times> bool) list \<Rightarrow> (nat \<times> bool) list \<Rightarrow> nat \<Rightarrow>
     ('v list \<times> u8 list) res" where
  "sort_plan left right order1 order2 limit =
     rbind (index order1 0) (\<lambda>(index1, desc).
     rbind (index order2 0) (\<lambda>(index2, _).
     rbind (columns_at left right index1 index2) (\<lambda>(l, r).
       if length order1 = 1 then Inr (merge (comparator_of desc) l r limit)
       else
         rbind (rmapM (index order1) [1..<length left - 1]) (\<lambda>middle.
         rbind (refine_partitioning left right (partition_merge (comparator_of desc) l r limit)
                  (map (\<lambda>(i, d). ((i, i), d)) middle)) (\<lambda>partitioning.
         rbind (columns_at left right (fst (last order1)) (fst (last order2))) (\<lambda>(l, r).
           merge_partitioned (comparator_of (snd (last order1))) partitioning l r limit))))))"

text \<open>The buffers of the result: the merged last order-by column, and the others kept along.\<close>

definition sorted_projection :: "'v BatchResult \<Rightarrow> 'v BatchResult \<Rightarrow> merge_buf list" where
  "sorted_projection batch1 batch2 = map (\<lambda>(ileft, iright).
     if ileft = fst (last (br_order_by batch1)) \<and> iright = fst (last (br_order_by batch2))
     then Merged else Kept ileft iright) (zip (br_projection batch1) (br_projection batch2))"

definition sorted_order_by :: "'v BatchResult \<Rightarrow> 'v BatchResult \<Rightarrow> (merge_buf \<times> bool) list" where
  "sorted_order_by batch1 batch2 =
     map (\<lambda>((ileft, desc), (iright, _)). (Kept ileft iright, desc))
       (zip (butlast (br_order_by batch1)) (br_order_by batch2))
     @ [(Merged, snd (last (br_order_by batch1)))]"

definition combine_sorted :: "'v::linorder BatchResult \<Rightarrow> 'v BatchResult \<Rightarrow> nat \<Rightarrow> 'v BatchResult res" where
  "combine_sorted batch1 batch2 limit =
     (let left = br_columns batch1; right = br_columns batch2;
          projection = sorted_projection batch1 batch2;
          order_by = sorted_order_by batch1 batch2 in
      rbind (sort_plan left right (br_order_by batch1) (br_order_by batch2) limit) (\<lambda>(merged, ops).
      rbind (run_plan (keep_buffer left right merged ops) (projection @ map fst order_by)) (\<lambda>data.
      let (columns, projection, _, order_by) = collect_aliased data projection [] order_by
      in Inr (merged_batch batch1 batch2
            \<lparr>br_columns = columns, br_projection = projection, br_aggregations = [],
             br_order_by = order_by, br_level = 0, br_batch_count = 0, br_show = False\<rparr>))))"

definition append_all :: "'v list \<Rightarrow> 'v list \<Rightarrow> nat \<Rightarrow> 'v list" where
  "append_all col1 col2 cnt = col1 @ take (min (length col2) cnt) col2"

definition combine_selects :: "'v BatchResult \<Rightarrow> 'v BatchResult \<Rightarrow> nat \<Rightarrow> 'v BatchResult res" where
  "combine_selects batch1 batch2 limit =
     (if br_projection batch1 \<noteq> br_projection batch2
      then Inl (Fail (FatalError ''Different projections in select batches''))
      else Inr (merged_batch batch1 batch2
        \<lparr>br_columns = map (\<lambda>(col1, col2).
             append_all col1 col2
               (if length col1 \<ge> limit then 0 else min (length col2) (limit - length col1)))
           (zip (br_columns batch1) (br_columns batch2)),
         br_projection = br_projection batch1, br_aggregations = [], br_order_by = [],
         br_level = 0, br_batch_count = 0, br_show = False\<rparr>))"

definition combine ::
    "(Aggregator \<Rightarrow> 'v \<Rightarrow> 'v \<Rightarrow> 'v res) \<Rightarrow> 'v::linorder BatchResult \<Rightarrow> 'v BatchResult \<Rightarrow> nat \<Rightarrow> 'v BatchResult res" where
  "combine agg batch1 batch2 limit =
     (if length (br_projection batch1) \<noteq> length (br_projection batch2)
      then Inl (Fail (FatalError ''Unequal number of projections''))
      else if length (br_order_by batch1) \<noteq> length (br_order_by batch2)
      then Inl (Fail (FatalError ''Unequal number of order by''))
      else if length (br_aggregations batch1) \<noteq> length (br_aggregations batch2)
      then Inl (Fail (FatalError ''Unequal number of aggregations''))
      else if br_aggregations batch1 \<noteq> [] then combine_aggregates agg batch1 batch2 limit
      else if br_order_by batch1 \<noteq> [] then combine_sorted batch1 batch2 limit
      else combine_selects batch1 batch2 limit)"

section \<open>Aliased columns\<close>

text \<open>Every index returned points at the contents of its buffer, and stays valid.\<close>

definition collected_ok :: "('b \<Rightarrow> 'c) \<Rightarrow> ('b \<rightharpoonup> nat) \<Rightarrow> 'c list \<Rightarrow> bool" where
  "collected_ok data m cols \<longleftrightarrow> (\<forall>b k. m b = Some k \<longrightarrow> k < length cols \<and> cols ! k = data b)"

lemma collect_pass_ok:
  assumes "collect_pass data bufs m cols = (is, m', cols')" and "collected_ok data m cols"
  shows "collected_ok data m' cols' \<and> (\<exists>new. cols' = cols @ new \<and> set new \<subseteq> data ` set bufs) \<and>
    list_all2 (\<lambda>b i. i < length cols' \<and> cols' ! i = data b) bufs is"
  using assms
proof (induction data bufs m cols arbitrary: "is" m' cols' rule: collect_pass.induct)
  case (1 data m cols)
  then show ?case by simp
next
  case (2 data b bufs m cols)
  show ?case
  proof (cases "m b")
    case (Some k)
    then obtain js where js: "collect_pass data bufs m cols = (js, m', cols')" "is = k # js"
      using 2(3) by (auto split: prod.splits)
    have ih: "collected_ok data m' cols' \<and> (\<exists>new. cols' = cols @ new \<and> set new \<subseteq> data ` set bufs) \<and>
        list_all2 (\<lambda>b i. i < length cols' \<and> cols' ! i = data b) bufs js"
      by (rule 2(2) [OF Some js(1) 2(4)])
    have "k < length cols \<and> cols ! k = data b" using 2(4) Some by (simp add: collected_ok_def)
    with ih js show ?thesis by (auto simp: nth_append)
  next
    case None
    then obtain js where js: "collect_pass data bufs (m(b \<mapsto> length cols)) (cols @ [data b]) = (js, m', cols')"
      "is = length cols # js"
      using 2(3) by (auto split: prod.splits)
    have "collected_ok data (m(b \<mapsto> length cols)) (cols @ [data b])"
      using 2(4) by (force simp: collected_ok_def nth_append)
    from 2(1) [OF None js(1) this] obtain new where
      ih: "collected_ok data m' cols'" "cols' = (cols @ [data b]) @ new" "set new \<subseteq> data ` set bufs"
      "list_all2 (\<lambda>b i. i < length cols' \<and> cols' ! i = data b) bufs js" by blast
    then show ?thesis using js by (auto simp: nth_append)
  qed
qed

lemma collect_aliased_ok:
  assumes "collect_aliased data ps as rs = (cols, ps', as', rs')"
  shows "list_all2 (\<lambda>b i. i < length cols \<and> cols ! i = data b) ps ps' \<and>
    list_all2 (\<lambda>b i. fst i < length cols \<and> cols ! fst i = data (fst b) \<and> snd i = snd b) as as' \<and>
    list_all2 (\<lambda>b i. fst i < length cols \<and> cols ! fst i = data (fst b) \<and> snd i = snd b) rs rs' \<and>
    set cols \<subseteq> data ` (set ps \<union> set (map fst as) \<union> set (map fst rs))"
proof -
  obtain is1 m1 c1 where 1: "collect_pass data ps Map.empty [] = (is1, m1, c1)" using prod_cases3 by blast
  obtain is2 m2 c2 where 2: "collect_pass data (map fst as) m1 c1 = (is2, m2, c2)" using prod_cases3 by blast
  obtain is3 m3 c3 where 3: "collect_pass data (map fst rs) m2 c2 = (is3, m3, c3)" using prod_cases3 by blast
  have e: "cols = c3" "ps' = is1" "as' = zip is2 (map snd as)" "rs' = zip is3 (map snd rs)"
    using assms 1 2 3 by (simp_all add: collect_aliased_def Let_def)
  note o1 = collect_pass_ok [OF 1] and o2 = collect_pass_ok [OF 2] and o3 = collect_pass_ok [OF 3]
  have ok1: "collected_ok data Map.empty []" by (simp add: collected_ok_def)
  obtain n2 where n2: "c2 = c1 @ n2" "set n2 \<subseteq> data ` set (map fst as)" using o2 o1 ok1 by blast
  obtain n3 where n3: "c3 = c2 @ n3" "set n3 \<subseteq> data ` set (map fst rs)" using o3 o2 o1 ok1 by blast
  have mono: "list_all2 (\<lambda>b i. i < length (c @ n) \<and> (c @ n) ! i = data b) xs is"
    if "list_all2 (\<lambda>b i. i < length c \<and> c ! i = data b) xs is" for c n xs "is"
    using that by (auto simp: list_all2_conv_all_nth nth_append)
  have l1: "list_all2 (\<lambda>b i. i < length cols \<and> cols ! i = data b) ps ps'"
    using o1 ok1 mono [of c1 ps is1 "n2 @ n3"] e n2 n3 by auto
  have l2: "list_all2 (\<lambda>b i. i < length cols \<and> cols ! i = data b) (map fst as) is2"
    using o2 o1 ok1 mono [of c2 "map fst as" is2 n3] e n3 by auto
  have l3: "list_all2 (\<lambda>b i. i < length cols \<and> cols ! i = data b) (map fst rs) is3"
    using o3 o2 o1 ok1 e by auto
  have zipped: "list_all2 (\<lambda>b i. fst i < length cols \<and> cols ! fst i = data (fst b) \<and> snd i = snd b)
      xs (zip is (map snd xs))"
    if "list_all2 (\<lambda>b i. i < length cols \<and> cols ! i = data b) (map fst xs) is" for xs :: "('b \<times> 'd) list" and "is"
    using that by (auto simp: list_all2_conv_all_nth)
  have "set c1 \<subseteq> data ` set ps" using o1 ok1 by auto
  then have "set cols \<subseteq> data ` (set ps \<union> set (map fst as) \<union> set (map fst rs))"
    unfolding image_Un using e n2 n3 by auto
  with l1 zipped [OF l2] zipped [OF l3] e show ?thesis by simp
qed

lemma run_plan_ok:
  assumes "\<And>b. b \<in> set bufs \<Longrightarrow> content b = Inr (g b)"
  shows "\<exists>data. run_plan content bufs = Inr data \<and> (\<forall>b \<in> set bufs. data b = g b)"
proof -
  have "rmapM content bufs = Inr (map g bufs)" by (rule rmapM_Inr_map) (rule assms)
  moreover have "the (map_of (zip bufs (map g bufs)) b) = g b" if "b \<in> set bufs" for b
    using that by (simp add: map_of_zip_map)
  ultimately show ?thesis by (simp add: run_plan_def)
qed

section \<open>Sorted batches\<close>

text \<open>
  A batch stands for a list of rows: for every row the projected values and the values of the
  order-by columns.
\<close>

definition projected :: "'v list list \<Rightarrow> nat list \<Rightarrow> nat \<Rightarrow> 'v list" where
  "projected cols is k = map (\<lambda>i. cols ! i ! k) is"

definition sorted_rows :: "'v BatchResult \<Rightarrow> ('v list \<times> 'v list) list" where
  "sorted_rows b = map (\<lambda>k. (projected (br_columns b) (br_projection b) k,
       projected (br_columns b) (map fst (br_order_by b)) k)) [0..<batch_len b]"

definition batch_ok :: "'v BatchResult \<Rightarrow> bool" where
  "batch_ok b \<longleftrightarrow> (\<forall>c \<in> set (br_columns b). length c = batch_len b) \<and>
     (\<forall>i \<in> set (br_projection b) \<union> set (map fst (br_order_by b)) \<union> set (map fst (br_aggregations b)).
        i < length (br_columns b))"

text \<open>The order of the rows: by one column, or by two.\<close>

fun order_le :: "bool list \<Rightarrow> 'v::linorder list \<Rightarrow> 'v list \<Rightarrow> bool" where
  "order_le (desc # ds) (x # xs) (y # ys) \<longleftrightarrow>
     cmp (comparator_of desc) x y \<or> (x = y \<and> order_le ds xs ys)"
| "order_le ds xs ys \<longleftrightarrow> True"

text \<open>A row of one of the two batches, and its value in a pair of columns.\<close>

fun row_val :: "'v list list \<Rightarrow> 'v list list \<Rightarrow> nat \<times> nat \<Rightarrow> nat + nat \<Rightarrow> 'v" where
  "row_val left right (i, j) (Inl k) = left ! i ! k"
| "row_val left right (i, j) (Inr k) = right ! j ! k"

definition left_rows :: "'v BatchResult \<Rightarrow> (nat + nat) list" where
  "left_rows b = map Inl [0..<batch_len b]"

definition right_rows :: "'v BatchResult \<Rightarrow> (nat + nat) list" where
  "right_rows b = map Inr [0..<batch_len b]"

lemma map_nth_full: "n = length xs \<Longrightarrow> map ((!) xs) [0..<n] = xs"
  by (simp add: map_nth)

lemma batch_column_length: "batch_ok b \<Longrightarrow> i < length (br_columns b) \<Longrightarrow> length (br_columns b ! i) = batch_len b"
  by (simp add: batch_ok_def)

lemma row_val_columns:
  assumes "batch_ok b1" and "batch_ok b2" and "i < length (br_columns b1)" and "j < length (br_columns b2)"
  shows "map (row_val (br_columns b1) (br_columns b2) (i, j)) (left_rows b1) = br_columns b1 ! i"
    and "map (row_val (br_columns b1) (br_columns b2) (i, j)) (right_rows b2) = br_columns b2 ! j"
  using assms by (simp_all add: left_rows_def right_rows_def comp_def batch_column_length map_nth_full)

lemma columns_at_rows:
  assumes "batch_ok b1" and "batch_ok b2" and "i < length (br_columns b1)" and "j < length (br_columns b2)"
  shows "columns_at (br_columns b1) (br_columns b2) i j =
    Inr (map (row_val (br_columns b1) (br_columns b2) (i, j)) (left_rows b1),
         map (row_val (br_columns b1) (br_columns b2) (i, j)) (right_rows b2))"
  unfolding row_val_columns [OF assms] using assms(3,4) by (simp add: columns_at_def index_def)

lemma comparator_comparator_of: "comparator (comparator_of desc :: 'v::linorder Comparator)"
  by (cases desc) (simp_all add: comparator_of_def less_than.comparator_axioms greater_than.comparator_axioms)

context comparator
begin

lemma cmp_or_eq: "cmp c x y \<or> x = y \<longleftrightarrow> cmp_eq c x y"
  using cmp_not_eq cmp_eq_total cmp_eq_antisym by blast

lemma merge_rows:
  assumes L: "sorted_wrt (\<lambda>x y. cmp_eq c (f x) (f y)) L" and R: "sorted_wrt (\<lambda>x y. cmp_eq c (f x) (f y)) R"
  shows "\<exists>full ops. mset full = mset L + mset R \<and> sorted_wrt (\<lambda>x y. cmp_eq c (f x) (f y)) full \<and>
    merge c (map f L) (map f R) limit = (map f (take limit full), ops) \<and>
    merge_keep ops L R = Inr (take limit full)"
proof -
  let ?lt = "\<lambda>x y. cmp c (f x) (f y)" and ?le = "\<lambda>x y. cmp_eq c (f x) (f y)"
  let ?m = "merge_loop ?lt L R (length L + length R)"
  have cut: "merge_loop ?lt L R limit = take limit ?m" by (rule merge_loop_take)
  have "sorted_wrt ?le (map fst ?m)"
  proof (rule merge_loop_sorted_rel [OF _ _ _ L R])
    show "?le x z" if "?le x y" "?le y z" for x y z using that by (rule cmp_eq_trans)
    show "?le x y" if "?lt x y" for x y using that by (rule cmp_imp_eq)
    show "?le y x" if "\<not> ?lt x y" for x y using that cmp_not_eq [of "f x" "f y"] by simp
  qed
  moreover have "merge c (map f L) (map f R) limit =
      (map f (take limit (map fst ?m)), map snd (merge_loop ?lt L R limit))"
    by (simp add: merge_def merge_loop_natural cut take_map comp_def split_def)
  moreover have "merge_keep (map snd (merge_loop ?lt L R limit)) L R = Inr (take limit (map fst ?m))"
    using merge_keep_replay [of ?lt L R limit] by (simp add: cut take_map)
  ultimately show ?thesis using merge_loop_mset [of ?lt L R] by blast
qed

end

lemma order_le_one: "order_le [d] [x] [y] \<longleftrightarrow> cmp_eq (comparator_of d) x y"
  using comparator.cmp_or_eq [OF comparator_comparator_of, of d x y] by simp

lemma order_le_two: "order_le [d, e] [f x, g x] [f y, g y] \<longleftrightarrow> row_le (comparator_of d) (comparator_of e) f g x y"
  using comparator.cmp_or_eq [OF comparator_comparator_of, of e "g x" "g y"]
  by (auto simp: row_le_def)

text \<open>The rows of a batch in the order of its order-by columns.\<close>

definition in_order :: "'v::linorder BatchResult \<Rightarrow> bool" where
  "in_order b \<longleftrightarrow> sorted_wrt (\<lambda>x y. order_le (map snd (br_order_by b)) (snd x) (snd y)) (sorted_rows b)"

text \<open>The order-by values of a row of either batch.\<close>

definition order_vals :: "'v BatchResult \<Rightarrow> 'v BatchResult \<Rightarrow> nat + nat \<Rightarrow> 'v list" where
  "order_vals b1 b2 x = map (\<lambda>p. row_val (br_columns b1) (br_columns b2) p x)
     (zip (map fst (br_order_by b1)) (map fst (br_order_by b2)))"

definition project_vals :: "'v BatchResult \<Rightarrow> 'v BatchResult \<Rightarrow> nat + nat \<Rightarrow> 'v list" where
  "project_vals b1 b2 x = map (\<lambda>p. row_val (br_columns b1) (br_columns b2) p x)
     (zip (br_projection b1) (br_projection b2))"

lemma row_val_zip:
  assumes "length is = length js"
  shows "map (\<lambda>p. row_val left right p (Inl k)) (zip is js) = projected left is k"
    and "map (\<lambda>p. row_val left right p (Inr k)) (zip is js) = projected right js k"
  using assms by (induction "is" js rule: list_induct2) (auto simp: projected_def)

lemma rows_of_sides:
  assumes "length (br_projection b1) = length (br_projection b2)"
    and "length (br_order_by b1) = length (br_order_by b2)"
  shows "map (\<lambda>x. (project_vals b1 b2 x, order_vals b1 b2 x)) (left_rows b1) = sorted_rows b1"
    and "map (\<lambda>x. (project_vals b1 b2 x, order_vals b1 b2 x)) (right_rows b2) = sorted_rows b2"
  using assms
  by (simp_all add: sorted_rows_def left_rows_def right_rows_def project_vals_def order_vals_def row_val_zip)

lemma in_order_sides:
  assumes "length (br_projection b1) = length (br_projection b2)"
    and "map snd (br_order_by b1) = map snd (br_order_by b2)" and "in_order b1" and "in_order b2"
  shows "sorted_wrt (\<lambda>x y. order_le (map snd (br_order_by b1)) (order_vals b1 b2 x) (order_vals b1 b2 y)) (left_rows b1)"
    and "sorted_wrt (\<lambda>x y. order_le (map snd (br_order_by b1)) (order_vals b1 b2 x) (order_vals b1 b2 y)) (right_rows b2)"
proof -
  have len: "length (br_order_by b1) = length (br_order_by b2)" using assms(2) by (metis length_map)
  note sides = rows_of_sides [OF assms(1) len, symmetric]
  show "sorted_wrt (\<lambda>x y. order_le (map snd (br_order_by b1)) (order_vals b1 b2 x) (order_vals b1 b2 y)) (left_rows b1)"
    using assms(3) unfolding in_order_def sides by (simp add: sorted_wrt_map)
  show "sorted_wrt (\<lambda>x y. order_le (map snd (br_order_by b1)) (order_vals b1 b2 x) (order_vals b1 b2 y)) (right_rows b2)"
    using assms(2,4) unfolding in_order_def sides by (simp add: sorted_wrt_map)
qed

text \<open>
  When merging sorted batches is known to work: one order-by column, or two and no further
  columns. With three columns the loop over the middle order-by columns splits the groups once more
  by the last order-by column, with four or more it runs past the end of the order-by columns.
\<close>

definition sort_supported :: "'v BatchResult \<Rightarrow> 'v BatchResult \<Rightarrow> nat \<Rightarrow> bool" where
  "sort_supported b1 b2 limit \<longleftrightarrow> length (br_order_by b1) = 1 \<or>
     (length (br_order_by b1) = 2 \<and> length (br_columns b1) \<le> 2 \<and> 0 < limit \<and>
      batch_len b1 + batch_len b2 < 2 ^ 32)"

definition last_order_val :: "'v BatchResult \<Rightarrow> 'v BatchResult \<Rightarrow> nat + nat \<Rightarrow> 'v" where
  "last_order_val b1 b2 = row_val (br_columns b1) (br_columns b2)
     (fst (last (br_order_by b1)), fst (last (br_order_by b2)))"

lemma sort_plan_rows:
  fixes b1 b2 :: "'v::linorder BatchResult"
  assumes ok: "batch_ok b1" "batch_ok b2" and order: "map snd (br_order_by b1) = map snd (br_order_by b2)"
    and supported: "sort_supported b1 b2 limit"
    and sorted: "sorted_wrt (\<lambda>x y. order_le (map snd (br_order_by b1)) (order_vals b1 b2 x) (order_vals b1 b2 y)) (left_rows b1)"
      "sorted_wrt (\<lambda>x y. order_le (map snd (br_order_by b1)) (order_vals b1 b2 x) (order_vals b1 b2 y)) (right_rows b2)"
  shows "\<exists>full ops. mset full = mset (left_rows b1) + mset (right_rows b2) \<and>
    sorted_wrt (\<lambda>x y. order_le (map snd (br_order_by b1)) (order_vals b1 b2 x) (order_vals b1 b2 y)) full \<and>
    sort_plan (br_columns b1) (br_columns b2) (br_order_by b1) (br_order_by b2) limit
      = Inr (map (last_order_val b1 b2) (take limit full), ops) \<and>
    merge_keep ops (left_rows b1) (right_rows b2) = Inr (take limit full)"
proof -
  consider (one) i j d where "br_order_by b1 = [(i, d)]" "br_order_by b2 = [(j, d)]"
    | (two) i j d i' j' e where "br_order_by b1 = [(i, d), (i', e)]" "br_order_by b2 = [(j, d), (j', e)]"
      "length (br_columns b1) \<le> 2" "0 < limit" "batch_len b1 + batch_len b2 < 2 ^ 32"
    using supported order unfolding sort_supported_def
    by (fastforce simp: length_Suc_conv numeral_2_eq_2)
  then show ?thesis
  proof cases
    case one
    let ?f = "row_val (br_columns b1) (br_columns b2) (i, j)"
    have ij: "i < length (br_columns b1)" "j < length (br_columns b2)"
      using ok one by (auto simp: batch_ok_def)
    have vals: "order_vals b1 b2 x = [?f x]" for x using one by (simp add: order_vals_def)
    have dirs: "map snd (br_order_by b1) = [d]" using one by simp
    show ?thesis
      using comparator.merge_rows [OF comparator_comparator_of sorted [unfolded dirs vals order_le_one], of limit] one
      unfolding dirs vals order_le_one
      by (auto simp: sort_plan_def index_def columns_at_rows [OF ok ij] last_order_val_def)
  next
    case two
    let ?f = "row_val (br_columns b1) (br_columns b2) (i, j)"
    let ?g = "row_val (br_columns b1) (br_columns b2) (i', j')"
    have cs: "two_columns (comparator_of d :: 'v Comparator) (comparator_of e :: 'v Comparator)"
      by (rule two_columns.intro) (rule comparator_comparator_of)+
    have ij: "i < length (br_columns b1)" "j < length (br_columns b2)"
      "i' < length (br_columns b1)" "j' < length (br_columns b2)"
      using ok two by (auto simp: batch_ok_def)
    have vals: "order_vals b1 b2 x = [?f x, ?g x]" for x using two by (simp add: order_vals_def)
    have dirs: "map snd (br_order_by b1) = [d, e]" using two by simp
    have len: "length (left_rows b1) + length (right_rows b2) < 2 ^ 32"
      using two by (simp add: left_rows_def right_rows_def)
    have middle: "[1..<length (br_columns b1) - 1] = []" using two(3) by simp
    show ?thesis
      using two_columns.merge_by_two_columns [OF cs sorted [unfolded dirs vals order_le_two] two(4) len] two
      unfolding dirs vals order_le_two
      by (auto simp: sort_plan_def index_def columns_at_rows [OF ok ij(1,2)] columns_at_rows [OF ok ij(3,4)]
          last_order_val_def middle refine_partitioning_def)
  qed
qed

lemma kept_rows:
  assumes ok: "batch_ok b1" "batch_ok b2" and ij: "i < length (br_columns b1)" "j < length (br_columns b2)"
    and keep: "merge_keep ops (left_rows b1) (right_rows b2) = Inr rows"
  shows "rbind (columns_at (br_columns b1) (br_columns b2) i j) (\<lambda>(l, r). merge_keep ops l r) =
    Inr (map (row_val (br_columns b1) (br_columns b2) (i, j)) rows)"
  by (simp add: columns_at_rows [OF ok ij] merge_keep_map keep)

text \<open>What a buffer of the plan holds, as a value of a row.\<close>

fun buf_val :: "'v BatchResult \<Rightarrow> 'v BatchResult \<Rightarrow> merge_buf \<Rightarrow> nat + nat \<Rightarrow> 'v" where
  "buf_val b1 b2 (Kept i j) = row_val (br_columns b1) (br_columns b2) (i, j)"
| "buf_val b1 b2 _ = last_order_val b1 b2"

lemma aliased_rows:
  assumes "list_all2 (\<lambda>b i. i < length cols \<and> cols ! i = map (g b) rows) bufs is" and "k < length rows"
  shows "projected cols is k = map (\<lambda>b. g b (rows ! k)) bufs"
  using assms by (auto simp: projected_def list_all2_conv_all_nth intro!: nth_equalityI)

lemma kept_indices:
  assumes "batch_ok b1" and "batch_ok b2"
    and "Kept i j \<in> set (sorted_projection b1 b2 @ map fst (sorted_order_by b1 b2))"
  shows "i < length (br_columns b1)" and "j < length (br_columns b2)"
proof -
  from assms(3) have "(i, j) \<in> set (zip (br_projection b1) (br_projection b2)) \<or>
      (\<exists>d e. ((i, d), (j, e)) \<in> set (zip (butlast (br_order_by b1)) (br_order_by b2)))"
    by (auto simp: sorted_projection_def sorted_order_by_def split: if_splits)
  then have "i \<in> set (br_projection b1) \<union> fst ` set (br_order_by b1) \<and>
      j \<in> set (br_projection b2) \<union> fst ` set (br_order_by b2)"
    by (force dest: set_zip_leftD set_zip_rightD in_set_butlastD)
  then show "i < length (br_columns b1)" and "j < length (br_columns b2)"
    using assms(1,2) by (auto simp: batch_ok_def)
qed

lemma kept_contents:
  assumes ok: "batch_ok b1" "batch_ok b2"
    and keep: "merge_keep ops (left_rows b1) (right_rows b2) = Inr rows"
    and b: "b \<in> set (sorted_projection b1 b2 @ map fst (sorted_order_by b1 b2))"
  shows "keep_buffer (br_columns b1) (br_columns b2) (map (last_order_val b1 b2) rows) ops b =
    Inr (map (buf_val b1 b2 b) rows)"
proof (cases b)
  case (Kept i j)
  note ij = kept_indices [OF ok b [unfolded Kept]]
  show ?thesis unfolding Kept by (simp add: kept_rows [OF ok ij keep])
qed (use b in \<open>auto simp: sorted_projection_def sorted_order_by_def split: if_splits\<close>)

lemma sorted_order_by_snoc:
  assumes "length (br_order_by b1) = length (br_order_by b2)" and "br_order_by b1 \<noteq> []"
  obtains o1 p o2 q where "br_order_by b1 = o1 @ [p]" "br_order_by b2 = o2 @ [q]" "length o1 = length o2"
    "sorted_order_by b1 b2 = map (\<lambda>(x, y). (Kept (fst x) (fst y), snd x)) (zip o1 o2) @ [(Merged, snd p)]"
proof -
  obtain o1 p where o1: "br_order_by b1 = o1 @ [p]" using assms(2) by (metis append_butlast_last_id)
  obtain o2 q where o2: "br_order_by b2 = o2 @ [q]" using assms by (metis append_butlast_last_id length_0_conv)
  have len: "length o1 = length o2" using assms(1) o1 o2 by simp
  have "sorted_order_by b1 b2 = map (\<lambda>(x, y). (Kept (fst x) (fst y), snd x)) (zip o1 o2) @ [(Merged, snd p)]"
    using len by (simp add: sorted_order_by_def o1 o2 zip_append2 split_def)
  with o1 o2 len show ?thesis by (rule that)
qed

lemma buf_vals:
  assumes "length (br_order_by b1) = length (br_order_by b2)" and "br_order_by b1 \<noteq> []"
  shows "map (\<lambda>b. buf_val b1 b2 b x) (sorted_projection b1 b2) = project_vals b1 b2 x"
    and "map (\<lambda>b. buf_val b1 b2 b x) (map fst (sorted_order_by b1 b2)) = order_vals b1 b2 x"
proof -
  show "map (\<lambda>b. buf_val b1 b2 b x) (sorted_projection b1 b2) = project_vals b1 b2 x"
    by (auto simp: sorted_projection_def project_vals_def last_order_val_def)
  obtain o1 p o2 q where o: "br_order_by b1 = o1 @ [p]" "br_order_by b2 = o2 @ [q]" "length o1 = length o2"
    "sorted_order_by b1 b2 = map (\<lambda>(x, y). (Kept (fst x) (fst y), snd x)) (zip o1 o2) @ [(Merged, snd p)]"
    using assms by (rule sorted_order_by_snoc)
  show "map (\<lambda>b. buf_val b1 b2 b x) (map fst (sorted_order_by b1 b2)) = order_vals b1 b2 x"
    using o by (simp add: order_vals_def last_order_val_def zip_map_map split_def)
qed

lemma sorted_order_by_dirs:
  assumes "length (br_order_by b1) = length (br_order_by b2)" and "br_order_by b1 \<noteq> []"
  shows "map snd (sorted_order_by b1 b2) = map snd (br_order_by b1)"
proof -
  obtain o1 p o2 q where o: "br_order_by b1 = o1 @ [p]" "br_order_by b2 = o2 @ [q]" "length o1 = length o2"
    "sorted_order_by b1 b2 = map (\<lambda>(x, y). (Kept (fst x) (fst y), snd x)) (zip o1 o2) @ [(Merged, snd p)]"
    using assms by (rule sorted_order_by_snoc)
  have "map (snd \<circ> (\<lambda>(x, y). (Kept (fst x) (fst y), snd x))) (zip o1 o2) = map snd o1"
    using o(3) by (induction o1 o2 rule: list_induct2) auto
  with o show ?thesis by simp
qed

text \<open>
  The columns of a plan whose buffers hold values of the given rows are a well-formed batch of those rows.
\<close>

lemma collected_rows:
  assumes data: "\<forall>b \<in> set (ps @ map fst os). data b = map (g b) rows"
    and coll: "collect_aliased data ps [] os = (cols, ps', as', os')" and ne: "os \<noteq> []"
  shows "\<forall>c \<in> set cols. length c = length rows" and "cols \<noteq> []" and "as' = []"
    and "\<forall>i \<in> set ps' \<union> set (map fst os'). i < length cols" and "map snd os' = map snd os"
    and "k < length rows \<Longrightarrow> projected cols ps' k = map (\<lambda>b. g b (rows ! k)) ps"
    and "k < length rows \<Longrightarrow> projected cols (map fst os') k = map (\<lambda>b. g b (rows ! k)) (map fst os)"
proof -
  note ok = collect_aliased_ok [OF coll]
  have ps: "list_all2 (\<lambda>b i. i < length cols \<and> cols ! i = map (g b) rows) ps ps'"
    using ok data by (auto simp: list_all2_conv_all_nth)
  have os: "list_all2 (\<lambda>b i. i < length cols \<and> cols ! i = map (g b) rows) (map fst os) (map fst os')"
    using ok data by (auto simp: list_all2_conv_all_nth)
  have "set cols \<subseteq> (\<lambda>b. map (g b) rows) ` set (ps @ map fst os)"
  proof
    fix c assume "c \<in> set cols"
    moreover have "set cols \<subseteq> data ` set (ps @ map fst os)" using ok by simp
    ultimately obtain b where b: "b \<in> set (ps @ map fst os)" "c = data b" by blast
    then show "c \<in> (\<lambda>b. map (g b) rows) ` set (ps @ map fst os)" using data by (metis imageI)
  qed
  then show "\<forall>c \<in> set cols. length c = length rows" by auto
  show "cols \<noteq> []" using os ne by (cases os) (auto simp: list_all2_Cons1)
  show "as' = []" using ok by simp
  have idx: "\<forall>i \<in> set js. i < length cols"
    if "list_all2 (\<lambda>b i. i < length cols \<and> cols ! i = map (g b) rows) bs js" for bs js
    using that by (induction rule: list_all2_induct) auto
  show "\<forall>i \<in> set ps' \<union> set (map fst os'). i < length cols"
    using idx [OF ps] idx [OF os] by auto
  show "map snd os' = map snd os" using ok by (auto simp: list_all2_conv_all_nth intro!: nth_equalityI)
  show "projected cols ps' k = map (\<lambda>b. g b (rows ! k)) ps" if "k < length rows"
    using ps that by (rule aliased_rows)
  show "projected cols (map fst os') k = map (\<lambda>b. g b (rows ! k)) (map fst os)" if "k < length rows"
    using os that by (rule aliased_rows)
qed

lemma combine_sorted_rows:
  fixes b1 b2 :: "'v::linorder BatchResult"
  assumes ok: "batch_ok b1" "batch_ok b2" and proj: "length (br_projection b1) = length (br_projection b2)"
    and order: "map snd (br_order_by b1) = map snd (br_order_by b2)"
    and supported: "sort_supported b1 b2 limit" and sorted: "in_order b1" "in_order b2"
  shows "\<exists>r full. combine_sorted b1 b2 limit = Inr r \<and> batch_ok r \<and>
    map snd (br_order_by r) = map snd (br_order_by b1) \<and> sorted_rows r = take limit full \<and>
    mset full = mset (sorted_rows b1) + mset (sorted_rows b2) \<and>
    sorted_wrt (\<lambda>x y. order_le (map snd (br_order_by b1)) (snd x) (snd y)) full"
proof -
  let ?row = "\<lambda>x. (project_vals b1 b2 x, order_vals b1 b2 x)"
  let ?ps = "sorted_projection b1 b2" and ?os = "sorted_order_by b1 b2"
  have len: "length (br_order_by b1) = length (br_order_by b2)" using order by (metis length_map)
  have ne: "br_order_by b1 \<noteq> []" using supported by (auto simp: sort_supported_def)
  obtain full ops where full: "mset full = mset (left_rows b1) + mset (right_rows b2)"
    "sorted_wrt (\<lambda>x y. order_le (map snd (br_order_by b1)) (order_vals b1 b2 x) (order_vals b1 b2 y)) full"
    "sort_plan (br_columns b1) (br_columns b2) (br_order_by b1) (br_order_by b2) limit =
      Inr (map (last_order_val b1 b2) (take limit full), ops)"
    "merge_keep ops (left_rows b1) (right_rows b2) = Inr (take limit full)"
    using sort_plan_rows [OF ok order supported in_order_sides [OF proj order sorted]] by blast
  let ?rows = "take limit full"
  obtain data where data: "run_plan (keep_buffer (br_columns b1) (br_columns b2)
        (map (last_order_val b1 b2) ?rows) ops) (?ps @ map fst ?os) = Inr data"
      "\<forall>b \<in> set (?ps @ map fst ?os). data b = map (buf_val b1 b2 b) ?rows"
    using run_plan_ok [where g = "\<lambda>b. map (buf_val b1 b2 b) ?rows", OF kept_contents [OF ok full(4)]] by blast
  obtain cols ps as os where coll: "collect_aliased data ?ps [] ?os = (cols, ps, as, os)"
    using prod_cases4 by blast
  have "?os \<noteq> []" by (simp add: sorted_order_by_def)
  note cr = collected_rows [OF data(2) coll this]
  let ?r = "merged_batch b1 b2 \<lparr>br_columns = cols, br_projection = ps, br_aggregations = [],
     br_order_by = os, br_level = 0, br_batch_count = 0, br_show = False\<rparr>"
  have run: "combine_sorted b1 b2 limit = Inr ?r"
    by (simp add: combine_sorted_def Let_def full(3) data(1) coll)
  have blen: "batch_len ?r = length ?rows"
    using cr(1,2) by (cases cols) (auto simp: batch_len_def merged_batch_def)
  have "batch_ok ?r" using cr(1,4) blen by (auto simp: batch_ok_def merged_batch_def)
  moreover have "sorted_rows ?r = map (\<lambda>k. ?row (?rows ! k)) [0..<length ?rows]"
    unfolding sorted_rows_def blen by (simp add: merged_batch_def cr(6,7) buf_vals [OF len ne] del: map_map)
  then have "sorted_rows ?r = take limit (map ?row full)"
    by (simp add: take_map map_nth_full flip: map_map [of ?row "(!) ?rows", unfolded comp_def])
  moreover have "mset (map ?row full) = mset (sorted_rows b1) + mset (sorted_rows b2)"
    using full(1) unfolding rows_of_sides [OF proj len, symmetric] by simp
  moreover have "sorted_wrt (\<lambda>x y. order_le (map snd (br_order_by b1)) (snd x) (snd y)) (map ?row full)"
    using full(2) by (simp add: sorted_wrt_map)
  moreover have "map snd (br_order_by ?r) = map snd (br_order_by b1)"
    using cr(5) sorted_order_by_dirs [OF len ne] by (simp add: merged_batch_def)
  ultimately show ?thesis using run by blast
qed

section \<open>Batches of an aggregation query\<close>

text \<open>The rows of such a batch: the group-by key and the aggregates.\<close>

definition group_rows :: "'v BatchResult \<Rightarrow> ('v list \<times> 'v list) list" where
  "group_rows b = map (\<lambda>k. (projected (br_columns b) (br_projection b) k,
       projected (br_columns b) (map fst (br_aggregations b)) k)) [0..<batch_len b]"

definition group_keys :: "'v BatchResult \<Rightarrow> 'v list list" where
  "group_keys b = map fst (group_rows b)"

text \<open>The value of the \<open>m\<close>-th aggregate for a key, if the batch has the key.\<close>

definition group_value :: "'v BatchResult \<Rightarrow> nat \<Rightarrow> 'v list \<rightharpoonup> 'v" where
  "group_value b m = map_of (map (\<lambda>(k, as). (k, as ! m)) (group_rows b))"

definition grouping_supported :: "'v BatchResult \<Rightarrow> 'v BatchResult \<Rightarrow> nat \<Rightarrow> bool" where
  "grouping_supported b1 b2 limit \<longleftrightarrow>
     (br_projection b1 = [] \<and> batch_len b1 = 1 \<and> batch_len b2 = 1) \<or> length (br_projection b1) = 1 \<or>
     (length (br_projection b1) = 2 \<and> batch_len b1 + batch_len b2 \<le> limit \<and>
      batch_len b1 + batch_len b2 < 2 ^ 32)"

lemma merge_deduplicate_rows:
  fixes f :: "'r \<Rightarrow> 'a::linorder"
  assumes "sorted_wrt (<) (map f L)" and "sorted_wrt (<) (map f R)"
  shows "\<exists>ks ops. merge_deduplicate (map f L) (map f R) = (ks, ops) \<and>
    set ks = f ` (set L \<union> set R) \<and> sorted_wrt (<) ks \<and>
    (\<forall>comb (v :: 'r \<Rightarrow> 'v). merge_aggregate_loop comb ops (map v L) (map v R) [] =
      rmapM (\<lambda>k. combine_opt comb (value_at f v L k) (value_at f v R k)) ks)"
proof -
  obtain ks ops where d: "dedup_loop None (map f L) (map f R) = (ks, ops)" by fastforce
  have "set ks = f ` (set L \<union> set R) \<and> sorted_wrt (<) ks"
    using dedup_loop_keys [OF d assms] by auto
  moreover have "merge_aggregate_loop comb ops (map v L) (map v R) [] =
      rmapM (\<lambda>k. combine_opt comb (value_at f v L k) (value_at f v R k)) ks" for comb and v :: "'r \<Rightarrow> 'v"
  proof -
    let ?p = "\<lambda>x. (f x, v x)"
    have e: "map f xs = map fst (map ?p xs)" "map v xs = map snd (map ?p xs)" for xs by simp_all
    have "merge_aggregate_loop comb ops (map snd (map ?p L)) (map snd (map ?p R)) [] =
        rbind (pending comb None (map_of (map ?p R)) []) (\<lambda>res. rmap ((@) (rev res))
          (rmapM (\<lambda>k. combine_opt comb (map_of (map ?p L) k) (map_of (map ?p R) k)) ks))"
      by (rule aggregate_dedup) (use d assms e in auto)
    then show ?thesis by (simp add: value_at_def comp_def rmap_def)
  qed
  ultimately show ?thesis using d by (auto simp: merge_deduplicate_def)
qed

lemma value_at_inj:
  assumes "inj h"
  shows "value_at (\<lambda>x. h (f x)) v rows (h k) = value_at f v rows k"
  using assms by (induction rows) (auto simp: value_at_def inj_eq)

lemma group_by_two_columns:
  fixes f :: "'r \<Rightarrow> 'a::linorder" and g :: "'r \<Rightarrow> 'b::linorder"
  assumes L: "sorted_wrt key_less (map (row_key f g) L)" and R: "sorted_wrt key_less (map (row_key f g) R)"
    and "length L + length R \<le> limit" and "length L + length R < 2 ^ 32"
  shows "\<exists>ks ops. merge_deduplicate_partitioned (partition_merge CmpLessThan (map f L) (map f R) limit)
      (map g L) (map g R) = Inr (map snd ks, ops) \<and>
    merge_drop ops (map f L) (map f R) = Inr (map fst ks) \<and>
    set ks = row_key f g ` (set L \<union> set R) \<and> sorted_wrt key_less ks \<and>
    (\<forall>comb (v :: 'r \<Rightarrow> 'v). merge_aggregate_loop comb ops (map v L) (map v R) [] =
      rmapM (\<lambda>k. combine_opt comb (value_at (row_key f g) v L k) (value_at (row_key f g) v R k)) ks)"
proof -
  let ?gs = "partition_merge CmpLessThan (map f L) (map f R) limit"
  let ?n = "fst (covered ?gs) + snd (covered ?gs)"
  have fs: "sorted_wrt (cmp_eq CmpLessThan) (map f xs)" if "sorted_wrt key_less (map (row_key f g) xs)" for xs
    using that unfolding sorted_wrt_map
    by (rule sorted_wrt_mono_rel [rotated]) (auto simp: key_less_def row_key_def CmpLessThan_def)
  have spec: "grouped (cmp CmpLessThan) ?gs (map f L) (map f R) \<and>
      (covered ?gs = (length (map f L), length (map f R)) \<or> min limit (2 ^ 32 - 1) \<le> 0 + ?n)"
    unfolding partition_merge_def
    by (rule less_than.partition_loop_spec) (use fs L R in auto)
  have le: "fst (covered gs) \<le> length l \<and> snd (covered gs) \<le> length r" if "grouped lt gs l r" for lt gs and l r :: "'a list"
    using that by (induction gs arbitrary: l r) fastforce+
  have "covered ?gs = (length L, length R)"
    using spec le [OF spec [THEN conjunct1]] assms(3,4) by (cases "covered ?gs") (auto simp: min_def split: if_splits)
  moreover have "grouped (<) ?gs (map f L) (map f R)" using spec by (simp add: CmpLessThan_def)
  ultimately obtain ks ops where ks: "merge_deduplicate_partitioned ?gs (map g L) (map g R) = Inr (map snd ks, ops)"
      "merge_drop ops (map f L) (map f R) = Inr (map fst ks)" "set ks = row_key f g ` (set L \<union> set R)"
      "sorted_wrt key_less ks"
    and agg: "\<forall>comb (v :: 'r \<Rightarrow> 'v) res. merge_aggregate_loop comb ops (map v L) (map v R) res =
      rmap ((@) (rev res)) (rmapM (\<lambda>k. combine_opt comb
        (value_at (row_key f g) v L k) (value_at (row_key f g) v R k)) ks)"
    using group_by_two_columns_loop [of ?gs f L R g, OF _ _ L R] by blast
  have "merge_aggregate_loop comb ops (map v L) (map v R) [] =
      rmapM (\<lambda>k. combine_opt comb (value_at (row_key f g) v L k) (value_at (row_key f g) v R k)) ks"
    for comb and v :: "'r \<Rightarrow> 'v"
    using agg [rule_format, of comb v "[]"] by (simp add: rmap_def)
  with ks show ?thesis by blast
qed

text \<open>
  The keys are merged into one strictly increasing list, the group-by buffers hold its columns, and
  the recorded operations aggregate any column by key.
\<close>

lemma less_one: "[a] < [b] \<longleftrightarrow> a < (b :: 'v::linorder)"
  by simp

lemma less_two: "[a, b] < [c, d] \<longleftrightarrow> key_less (a, b) (c, d :: 'v::linorder)"
  by (auto simp: key_less_def)

definition grouping_plan ::
    "'v::linorder BatchResult \<Rightarrow> 'v BatchResult \<Rightarrow> (Aggregator \<Rightarrow> 'v \<Rightarrow> 'v \<Rightarrow> 'v res) \<Rightarrow>
     merge_buf list \<Rightarrow> 'v list \<Rightarrow> MergeOp list \<Rightarrow> 'v list list \<Rightarrow> bool" where
  "grouping_plan b1 b2 agg bufs merged ops ks \<longleftrightarrow>
     length bufs = length (br_projection b1) \<and>
     (\<forall>m < length bufs. agg_buffer agg (br_columns b1) (br_columns b2) merged ops (bufs ! m) = Inr (map (\<lambda>k. k ! m) ks)) \<and>
     (\<forall>k \<in> set ks. length k = length bufs) \<and>
     set ks = project_vals b1 b2 ` (set (left_rows b1) \<union> set (right_rows b2)) \<and> sorted_wrt (<) ks \<and>
     (\<forall>comb v. merge_aggregate_loop comb ops (map v (left_rows b1)) (map v (right_rows b2)) [] =
       (rmapM (\<lambda>k. combine_opt comb (value_at (project_vals b1 b2) v (left_rows b1) k)
          (value_at (project_vals b1 b2) v (right_rows b2) k)) ks :: 'v list res))"

lemma grouping_plan_none:
  assumes "br_projection b1 = []" and "batch_len b1 = 1" and "batch_len b2 = 1"
  shows "grouping_plan b1 b2 agg [] [] [TakeLeft, MergeRight] [[]]"
proof -
  have rows: "left_rows b1 = [Inl 0]" "right_rows b2 = [Inr 0]" using assms by (simp_all add: left_rows_def right_rows_def)
  have vals: "project_vals b1 b2 = (\<lambda>x. [])" using assms by (simp add: project_vals_def fun_eq_iff)
  have "merge_aggregate_loop comb [TakeLeft, MergeRight] [a] [b] [] =
      (rmap (\<lambda>x. [x]) (comb a b) :: 'a list res)" for comb a b
    by (cases "comb a b") (auto simp: rmap_def)
  then show ?thesis
    using assms(1) by (simp add: grouping_plan_def rows vals value_at_def rmap_def)
qed

lemma grouping_plan_one:
  fixes b1 b2 :: "'v::linorder BatchResult"
  assumes ok: "batch_ok b1" "batch_ok b2" and one: "br_projection b1 = [i]" "br_projection b2 = [j]"
    and L: "sorted_wrt (<) (map (project_vals b1 b2) (left_rows b1))"
    and R: "sorted_wrt (<) (map (project_vals b1 b2) (right_rows b2))"
  shows "\<exists>bufs merged ops ks.
    group_by_plan (br_columns b1) (br_columns b2) (br_projection b1) (br_projection b2) limit = Inr (bufs, merged, ops) \<and>
    grouping_plan b1 b2 agg bufs merged ops ks"
proof -
  let ?f = "row_val (br_columns b1) (br_columns b2) (i, j)"
  have ij: "i < length (br_columns b1)" "j < length (br_columns b2)" using ok one by (auto simp: batch_ok_def)
  have vals: "project_vals b1 b2 = (\<lambda>x. [?f x])" using one by (simp add: project_vals_def fun_eq_iff)
  have "sorted_wrt (<) (map ?f (left_rows b1))" "sorted_wrt (<) (map ?f (right_rows b2))"
    using L R unfolding vals sorted_wrt_map less_one by simp_all
  from merge_deduplicate_rows [OF this] obtain ks ops where
    ks: "merge_deduplicate (map ?f (left_rows b1)) (map ?f (right_rows b2)) = (ks, ops)"
      "set ks = ?f ` (set (left_rows b1) \<union> set (right_rows b2))" "sorted_wrt (<) ks"
    and agg: "\<And>comb v. merge_aggregate_loop comb ops (map v (left_rows b1)) (map v (right_rows b2)) [] =
        (rmapM (\<lambda>k. combine_opt comb (value_at ?f v (left_rows b1) k) (value_at ?f v (right_rows b2) k)) ks :: 'v list res)"
    by blast
  have plan: "group_by_plan (br_columns b1) (br_columns b2) (br_projection b1) (br_projection b2) limit =
      Inr ([Merged], ks, ops)"
    using one by (simp add: group_by_plan_def index_def columns_at_rows [OF ok ij] ks(1))
  have at: "value_at (\<lambda>x. [?f x]) v rows [k] = value_at ?f v rows k" for v :: "nat + nat \<Rightarrow> 'v" and rows k
    by (rule value_at_inj [where h = "\<lambda>a. [a]"]) (simp add: inj_def)
  have keys: "set (map (\<lambda>a. [a]) ks) = (\<lambda>x. [?f x]) ` (set (left_rows b1) \<union> set (right_rows b2))"
    using ks(2) by auto
  have "grouping_plan b1 b2 agg [Merged] ks ops (map (\<lambda>a. [a]) ks)"
    unfolding grouping_plan_def vals
    using one ks(3) agg keys by (simp add: sorted_wrt_map rmapM_map at comp_def)
  with plan show ?thesis by blast
qed

lemma grouping_plan_two:
  fixes b1 b2 :: "'v::linorder BatchResult"
  assumes ok: "batch_ok b1" "batch_ok b2" and two: "br_projection b1 = [i, i']" "br_projection b2 = [j, j']"
    and small: "batch_len b1 + batch_len b2 \<le> limit" "batch_len b1 + batch_len b2 < 2 ^ 32"
    and L: "sorted_wrt (<) (map (project_vals b1 b2) (left_rows b1))"
    and R: "sorted_wrt (<) (map (project_vals b1 b2) (right_rows b2))"
  shows "\<exists>bufs merged ops ks.
    group_by_plan (br_columns b1) (br_columns b2) (br_projection b1) (br_projection b2) limit = Inr (bufs, merged, ops) \<and>
    grouping_plan b1 b2 agg bufs merged ops ks"
proof -
  let ?f = "row_val (br_columns b1) (br_columns b2) (i, j)"
  let ?g = "row_val (br_columns b1) (br_columns b2) (i', j')"
  have ij: "i < length (br_columns b1)" "j < length (br_columns b2)"
    "i' < length (br_columns b1)" "j' < length (br_columns b2)" using ok two by (auto simp: batch_ok_def)
  have vals: "project_vals b1 b2 = (\<lambda>x. [?f x, ?g x])" using two by (simp add: project_vals_def fun_eq_iff)
  have "sorted_wrt key_less (map (row_key ?f ?g) (left_rows b1))" "sorted_wrt key_less (map (row_key ?f ?g) (right_rows b2))"
    using L R unfolding vals sorted_wrt_map less_two row_key_def by simp_all
  moreover have "length (left_rows b1) + length (right_rows b2) \<le> limit"
    "length (left_rows b1) + length (right_rows b2) < 2 ^ 32"
    using small by (simp_all add: left_rows_def right_rows_def)
  ultimately obtain ks ops where
    ks: "merge_deduplicate_partitioned (partition_merge CmpLessThan (map ?f (left_rows b1)) (map ?f (right_rows b2)) limit)
        (map ?g (left_rows b1)) (map ?g (right_rows b2)) = Inr (map snd ks, ops)"
      "merge_drop ops (map ?f (left_rows b1)) (map ?f (right_rows b2)) = Inr (map fst ks)"
      "set ks = row_key ?f ?g ` (set (left_rows b1) \<union> set (right_rows b2))" "sorted_wrt key_less ks"
    and agg: "\<And>comb v. merge_aggregate_loop comb ops (map v (left_rows b1)) (map v (right_rows b2)) [] =
        (rmapM (\<lambda>k. combine_opt comb (value_at (row_key ?f ?g) v (left_rows b1) k)
          (value_at (row_key ?f ?g) v (right_rows b2) k)) ks :: 'v list res)"
    using group_by_two_columns [of ?f ?g] by blast
  have plan: "group_by_plan (br_columns b1) (br_columns b2) (br_projection b1) (br_projection b2) limit =
      Inr ([Dropped i j, Merged], map snd ks, ops)"
    using two by (simp add: group_by_plan_def index_def columns_at_rows [OF ok ij(1,2)]
        columns_at_rows [OF ok ij(3,4)] refine_partitioning_def ks(1))
  let ?h = "\<lambda>p. [fst p, snd p]"
  have at: "value_at (\<lambda>x. [?f x, ?g x]) v rows (?h k) = value_at (row_key ?f ?g) v rows k"
    for v :: "nat + nat \<Rightarrow> 'v" and rows k
    using value_at_inj [of ?h "row_key ?f ?g" v rows k] by (auto simp: inj_def row_key_def)
  have keys: "set (map ?h ks) = (\<lambda>x. [?f x, ?g x]) ` (set (left_rows b1) \<union> set (right_rows b2))"
    using ks(3) by (auto simp: row_key_def image_iff)
  have "sorted_wrt (<) (map ?h ks)" using ks(4) unfolding sorted_wrt_map
    by (rule sorted_wrt_mono_rel [rotated]) (auto simp: key_less_def)
  moreover have "agg_buffer agg (br_columns b1) (br_columns b2) (map snd ks) ops ([Dropped i j, Merged] ! m) =
      Inr (map (\<lambda>k. k ! m) (map ?h ks))" if "m < 2" for m
    using that ks(2) by (auto simp: less_Suc_eq numeral_2_eq_2 columns_at_rows [OF ok ij(1,2)] split_def comp_def)
  ultimately have "grouping_plan b1 b2 agg [Dropped i j, Merged] (map snd ks) ops (map ?h ks)"
    unfolding grouping_plan_def vals keys
    using two agg by (simp add: rmapM_map at comp_def split_def numeral_2_eq_2)
  with plan show ?thesis by blast
qed

lemma group_by_plan_rows:
  fixes b1 b2 :: "'v::linorder BatchResult"
  assumes ok: "batch_ok b1" "batch_ok b2" and len: "length (br_projection b1) = length (br_projection b2)"
    and supported: "grouping_supported b1 b2 limit"
    and L: "sorted_wrt (<) (map (project_vals b1 b2) (left_rows b1))"
    and R: "sorted_wrt (<) (map (project_vals b1 b2) (right_rows b2))"
  shows "\<exists>bufs merged ops ks.
    group_by_plan (br_columns b1) (br_columns b2) (br_projection b1) (br_projection b2) limit = Inr (bufs, merged, ops) \<and>
    grouping_plan b1 b2 agg bufs merged ops ks"
proof -
  consider (none) "br_projection b1 = []" "batch_len b1 = 1" "batch_len b2 = 1"
    | (one) "length (br_projection b1) = Suc 0"
    | (two) "length (br_projection b1) = Suc (Suc 0)"
      "batch_len b1 + batch_len b2 \<le> limit" "batch_len b1 + batch_len b2 < 2 ^ 32"
    using supported unfolding grouping_supported_def by auto
  then show ?thesis
  proof cases
    case none
    then have "group_by_plan (br_columns b1) (br_columns b2) (br_projection b1) (br_projection b2) limit =
        Inr ([], [], [TakeLeft, MergeRight])" by (simp add: group_by_plan_def)
    with grouping_plan_none [OF none] show ?thesis by blast
  next
    case one
    with len obtain i j where "br_projection b1 = [i]" "br_projection b2 = [j]"
      by (metis length_0_conv length_Suc_conv)
    then show ?thesis by (rule grouping_plan_one [OF ok _ _ L R])
  next
    case two
    obtain i i' where i: "br_projection b1 = [i, i']" using two(1) by (auto simp: length_Suc_conv)
    obtain j j' where j: "br_projection b2 = [j, j']" using two(1) len by (auto simp: length_Suc_conv)
    show ?thesis by (rule grouping_plan_two [OF ok i j two(2,3) L R])
  qed
qed

lemma rmapM_failed:
  assumes "\<not> (\<forall>x \<in> set xs. \<exists>y. f x = Inr y)"
  shows "\<exists>x \<in> set xs. \<exists>e. f x = Inl e \<and> rmapM f xs = Inl e"
  using assms
proof (induction xs)
  case (Cons x xs)
  then show ?case by (cases "f x") auto
qed simp

definition agg_pairs :: "'v BatchResult \<Rightarrow> 'v BatchResult \<Rightarrow> (nat \<times> nat) list" where
  "agg_pairs b1 b2 = zip (map fst (br_aggregations b1)) (map fst (br_aggregations b2))"

definition agg_bufs :: "'v BatchResult \<Rightarrow> 'v BatchResult \<Rightarrow> (merge_buf \<times> Aggregator) list" where
  "agg_bufs b1 b2 = map (\<lambda>((i, a), (j, _)). (Aggregated i j a, a)) (zip (br_aggregations b1) (br_aggregations b2))"

lemma agg_bufs_nth:
  assumes "map snd (br_aggregations b1) = map snd (br_aggregations b2)" and "m < length (br_aggregations b1)"
  shows "agg_bufs b1 b2 ! m = (Aggregated (fst (agg_pairs b1 b2 ! m)) (snd (agg_pairs b1 b2 ! m))
    (snd (br_aggregations b1 ! m)), snd (br_aggregations b1 ! m))"
proof -
  have "length (br_aggregations b1) = length (br_aggregations b2)" using assms(1) by (metis length_map)
  with assms(2) show ?thesis by (simp add: agg_bufs_def agg_pairs_def split_def)
qed

lemma group_value_sides:
  fixes b1 b2 :: "'v BatchResult"
  assumes "length (br_projection b1) = length (br_projection b2)"
    and "length (br_aggregations b1) = length (br_aggregations b2)" and "m < length (br_aggregations b1)"
  shows "group_value b1 m = value_at (project_vals b1 b2)
      (row_val (br_columns b1) (br_columns b2) (agg_pairs b1 b2 ! m)) (left_rows b1)"
    and "group_value b2 m = value_at (project_vals b1 b2)
      (row_val (br_columns b1) (br_columns b2) (agg_pairs b1 b2 ! m)) (right_rows b2)"
  using assms
  by (simp_all add: group_value_def group_rows_def value_at_def left_rows_def right_rows_def comp_def
      project_vals_def row_val_zip agg_pairs_def) (simp_all add: projected_def)

lemma aggregated_contents:
  fixes b1 b2 :: "'v::linorder BatchResult"
  assumes ok: "batch_ok b1" "batch_ok b2" and plan: "grouping_plan b1 b2 agg bufs merged ops ks"
    and len: "length (br_projection b1) = length (br_projection b2)"
    and aggs: "map snd (br_aggregations b1) = map snd (br_aggregations b2)" and m: "m < length (br_aggregations b1)"
  shows "agg_buffer agg (br_columns b1) (br_columns b2) merged ops (fst (agg_bufs b1 b2 ! m)) =
    rmapM (\<lambda>k. combine_opt (agg (snd (br_aggregations b1 ! m))) (group_value b1 m k) (group_value b2 m k)) ks"
proof -
  have l: "length (br_aggregations b1) = length (br_aggregations b2)" using aggs by (metis length_map)
  obtain i j where ij: "agg_pairs b1 b2 ! m = (i, j)" by fastforce
  have "i = fst (br_aggregations b1 ! m)" "j = fst (br_aggregations b2 ! m)"
    using ij l m by (simp_all add: agg_pairs_def)
  then have "i < length (br_columns b1)" "j < length (br_columns b2)"
    using ok m l by (auto simp: batch_ok_def)
  note cols = columns_at_rows [OF ok this]
  show ?thesis
    using plan unfolding grouping_plan_def group_value_sides [OF len l m] agg_bufs_nth [OF aggs m] ij
    by (simp add: cols)
qed

lemma combine_aggregates_plan:
  fixes b1 b2 :: "'v::linorder BatchResult"
  assumes ok: "batch_ok b1" "batch_ok b2" and aggs: "map snd (br_aggregations b1) = map snd (br_aggregations b2)"
  shows "rmapM (\<lambda>((ileft, a), (iright, _)).
      rmap (\<lambda>_. (Aggregated ileft iright a, a)) (columns_at (br_columns b1) (br_columns b2) ileft iright))
    (zip (br_aggregations b1) (br_aggregations b2)) = Inr (agg_bufs b1 b2)"
proof -
  have "i < length (br_columns b1) \<and> j < length (br_columns b2)"
    if "((i, a), (j, a')) \<in> set (zip (br_aggregations b1) (br_aggregations b2))" for i a j a'
  proof -
    from that have "i \<in> fst ` set (br_aggregations b1)" "j \<in> fst ` set (br_aggregations b2)"
      by (force dest: set_zip_leftD set_zip_rightD)+
    then show ?thesis using ok by (auto simp: batch_ok_def)
  qed
  then show ?thesis unfolding agg_bufs_def
    by (intro rmapM_Inr_map) (force simp: columns_at_def index_def)
qed

lemma collected_groups:
  fixes r :: "'v BatchResult"
  assumes keys: "\<And>m. m < length bufs \<Longrightarrow> data (bufs ! m) = map (\<lambda>k. k ! m) ks"
    and width: "\<forall>k \<in> set ks. length k = length bufs"
    and vals: "\<And>m. m < length as \<Longrightarrow> data (fst (as ! m)) = col m \<and> length (col m) = length ks"
    and coll: "collect_aliased data bufs as [] = (cols, ps', as', os')" and ne: "as \<noteq> []"
    and r: "br_columns r = cols" "br_projection r = ps'" "br_aggregations r = as'" "br_order_by r = []"
  shows "batch_ok r" and "validate r = Inr ()" and "group_keys r = ks" and "map snd as' = map snd as"
    and "m < length as \<Longrightarrow> map (\<lambda>row. snd row ! m) (group_rows r) = col m"
proof -
  note ok = collect_aliased_ok [OF coll]
  have lens: "length ps' = length bufs" "length as' = length as"
    using ok by (auto dest: list_all2_lengthD)
  have ps: "ps' ! m < length cols \<and> cols ! (ps' ! m) = map (\<lambda>k. k ! m) ks" if "m < length bufs" for m
    using ok that keys by (auto simp: list_all2_conv_all_nth)
  have as: "fst (as' ! m) < length cols \<and> cols ! fst (as' ! m) = col m \<and> length (col m) = length ks \<and>
      snd (as' ! m) = snd (as ! m)" if "m < length as" for m
    using ok that vals by (auto simp: list_all2_conv_all_nth)
  have "length (data b) = length ks" if "b \<in> set (bufs @ map fst as)" for b
    using that keys vals by (auto simp: in_set_conv_nth) (metis fst_conv)
  moreover have "set cols \<subseteq> data ` set (bufs @ map fst as)" using ok by simp
  ultimately have same: "\<forall>c \<in> set cols. length c = length ks" by blast
  have "0 < length as" using ne by simp
  then have "cols \<noteq> []" using as [of 0] by auto
  then have blen: "batch_len r = length ks" using same r by (cases cols) (auto simp: batch_len_def)
  have ix: "i < length cols" if "i \<in> set ps' \<union> set (map fst as')" for i
    using that ps as lens by (auto simp: in_set_conv_nth) (metis fst_conv)
  show "batch_ok r" using same ix r blen by (auto simp: batch_ok_def)
  have "fst x < length cols" if "x \<in> set as'" for x using that ix [of "fst x"] by auto
  then have "\<not> (\<exists>(i, a) \<in> set as'. length cols \<le> i)" by fastforce
  then show "validate r = Inr ()" using same blen r by (simp add: validate_def)
  show "map snd as' = map snd as" using as lens by (auto intro!: nth_equalityI)
  have "projected cols ps' k = ks ! k" if "k < length ks" for k
    using that ps width lens by (auto simp: projected_def intro!: nth_equalityI)
  then show "group_keys r = ks"
    using r blen by (auto simp: group_keys_def group_rows_def intro!: nth_equalityI)
  show "map (\<lambda>row. snd row ! m) (group_rows r) = col m" if "m < length as"
    using that as [OF that] r blen lens by (auto simp: group_rows_def projected_def intro!: nth_equalityI)
qed

text \<open>
  Combining the batches of an aggregation query: the keys are the sorted union of the keys, every
  aggregate is combined from the values the two batches have for the key, and the only failures
  are those of combining two values.
\<close>

definition merged_keys :: "'v::linorder BatchResult \<Rightarrow> 'v BatchResult \<Rightarrow> 'v list list" where
  "merged_keys b1 b2 = sorted_list_of_set (set (group_keys b1) \<union> set (group_keys b2))"

definition merged_values ::
    "(Aggregator \<Rightarrow> 'v \<Rightarrow> 'v \<Rightarrow> 'v res) \<Rightarrow> 'v::linorder BatchResult \<Rightarrow> 'v BatchResult \<Rightarrow> nat \<Rightarrow> 'v list res" where
  "merged_values agg b1 b2 m =
     rmapM (\<lambda>k. combine_opt (agg (snd (br_aggregations b1 ! m))) (group_value b1 m k) (group_value b2 m k))
       (merged_keys b1 b2)"

lemma combine_aggregates_rows:
  fixes b1 b2 :: "'v::linorder BatchResult"
  assumes ok: "batch_ok b1" "batch_ok b2" and len: "length (br_projection b1) = length (br_projection b2)"
    and aggs: "map snd (br_aggregations b1) = map snd (br_aggregations b2)" "br_aggregations b1 \<noteq> []"
    and supported: "grouping_supported b1 b2 limit"
    and sorted: "sorted_wrt (<) (group_keys b1)" "sorted_wrt (<) (group_keys b2)"
  shows "(\<exists>r. combine_aggregates agg b1 b2 limit = Inr r \<and> batch_ok r \<and>
      map snd (br_aggregations r) = map snd (br_aggregations b1) \<and> group_keys r = merged_keys b1 b2 \<and>
      (\<forall>m < length (br_aggregations b1). merged_values agg b1 b2 m = Inr (map (\<lambda>row. snd row ! m) (group_rows r)))) \<or>
    (\<exists>m < length (br_aggregations b1). \<exists>e. merged_values agg b1 b2 m = Inl e \<and> combine_aggregates agg b1 b2 limit = Inl e)"
proof -
  have l: "length (br_aggregations b1) = length (br_aggregations b2)" using aggs(1) by (metis length_map)
  have sides: "map (project_vals b1 b2) (left_rows b1) = group_keys b1"
    "map (project_vals b1 b2) (right_rows b2) = group_keys b2"
    using len by (simp_all add: group_keys_def group_rows_def left_rows_def right_rows_def project_vals_def row_val_zip comp_def)
  obtain bufs merged ops ks' where
    plan: "group_by_plan (br_columns b1) (br_columns b2) (br_projection b1) (br_projection b2) limit = Inr (bufs, merged, ops)"
    and g: "grouping_plan b1 b2 agg bufs merged ops ks'"
    using group_by_plan_rows [OF ok len supported] sorted unfolding sides by blast
  have "set ks' = set (group_keys b1) \<union> set (group_keys b2)" "sorted_wrt (<) ks'"
    using g unfolding grouping_plan_def sides [symmetric] by (simp_all add: image_Un)
  then have ks': "ks' = merged_keys b1 b2" unfolding merged_keys_def
    by (metis finite_set finite_Un sorted_list_of_set_unique strict_sorted_equal sorted_list_of_set.strict_sorted_key_list_of_set set_sorted_list_of_set)
  note vals = aggregated_contents [OF ok g len aggs(1), unfolded ks', folded merged_values_def]
  let ?content = "agg_buffer agg (br_columns b1) (br_columns b2) merged ops"
  let ?bufs = "bufs @ map fst (agg_bufs b1 b2)"
  have keys: "?content (bufs ! m) = Inr (map (\<lambda>k. k ! m) (merged_keys b1 b2))" if "m < length bufs" for m
    using g that ks' by (simp add: grouping_plan_def)
  have width: "\<forall>k \<in> set (merged_keys b1 b2). length k = length bufs" using g ks' by (simp add: grouping_plan_def)
  have na: "length (agg_bufs b1 b2) = length (br_aggregations b1)" using l by (simp add: agg_bufs_def)
  have dirs: "map snd (agg_bufs b1 b2) = map snd (br_aggregations b1)"
    using l by (auto simp: agg_bufs_def split_def intro!: nth_equalityI)
  have unfold: "combine_aggregates agg b1 b2 limit = rbind (run_plan ?content ?bufs) (\<lambda>data.
      let (columns, projection, aggregations, _) = collect_aliased data bufs (agg_bufs b1 b2) [];
          result = merged_batch b1 b2
            \<lparr>br_columns = columns, br_projection = projection, br_aggregations = aggregations,
             br_order_by = [], br_level = 0, br_batch_count = 0, br_show = False\<rparr>
      in rbind (validate result) (\<lambda>_. Inr result))"
    by (simp add: combine_aggregates_def plan combine_aggregates_plan [OF ok aggs(1)])
  show ?thesis
  proof (cases "\<forall>b \<in> set ?bufs. \<exists>y. ?content b = Inr y")
    case True
    then obtain gdata where gdata: "\<forall>b \<in> set ?bufs. ?content b = Inr (gdata b)" by metis
    then obtain data where data: "run_plan ?content ?bufs = Inr data" "\<forall>b \<in> set ?bufs. data b = gdata b"
      using run_plan_ok [of ?bufs ?content gdata] by blast
    obtain cols ps as os where coll: "collect_aliased data bufs (agg_bufs b1 b2) [] = (cols, ps, as, os)"
      using prod_cases4 by blast
    let ?r = "merged_batch b1 b2 \<lparr>br_columns = cols, br_projection = ps, br_aggregations = as,
       br_order_by = [], br_level = 0, br_batch_count = 0, br_show = False\<rparr>"
    have k: "data (bufs ! m) = map (\<lambda>k. k ! m) (merged_keys b1 b2)" if "m < length bufs" for m
      using keys [OF that] gdata data(2) that by (metis Inr_inject UnCI nth_mem set_append)
    have v: "merged_values agg b1 b2 m = Inr (data (fst (agg_bufs b1 b2 ! m)))" if "m < length (br_aggregations b1)" for m
    proof -
      have "fst (agg_bufs b1 b2 ! m) \<in> set ?bufs" using that na by simp
      then show ?thesis using vals [OF that] gdata data(2) by metis
    qed
    have v': "data (fst (agg_bufs b1 b2 ! m)) = data (fst (agg_bufs b1 b2 ! m)) \<and>
        length (data (fst (agg_bufs b1 b2 ! m))) = length (merged_keys b1 b2)" if "m < length (agg_bufs b1 b2)" for m
      using v [of m] that na by (auto simp: merged_values_def dest: rmapM_Inr_length)
    have ne: "agg_bufs b1 b2 \<noteq> []" using aggs(2) na by auto
    note c = collected_groups [of bufs data, OF k width v' coll ne, of ?r]
    have "combine_aggregates agg b1 b2 limit = Inr ?r"
      using c(2) by (simp add: unfold data(1) coll merged_batch_def)
    moreover have "map snd as = map snd (br_aggregations b1)"
      using c(4) l dirs by (simp add: merged_batch_def)
    moreover have "batch_ok ?r" "group_keys ?r = merged_keys b1 b2"
      using c(1,3) by (simp_all add: merged_batch_def)
    moreover have "\<forall>m < length (br_aggregations b1). merged_values agg b1 b2 m = Inr (map (\<lambda>row. snd row ! m) (group_rows ?r))"
      using c(5) v na by (simp add: merged_batch_def)
    moreover have "br_aggregations ?r = as" by (simp add: merged_batch_def)
    ultimately show ?thesis by metis
  next
    case False
    from rmapM_failed [OF this] obtain b e where
      b: "b \<in> set ?bufs" "?content b = Inl e" "rmapM ?content ?bufs = Inl e" by (elim bexE exE conjE)
    have "b \<notin> set bufs" using b(2) keys by (auto simp: in_set_conv_nth)
    then have "b \<in> set (map fst (agg_bufs b1 b2))" using b(1) by auto
    then obtain m where m: "m < length (br_aggregations b1)" "b = fst (agg_bufs b1 b2 ! m)"
      unfolding in_set_conv_nth using na by auto
    then have "merged_values agg b1 b2 m = Inl e" using vals [OF m(1)] b(2) by simp
    moreover have "combine_aggregates agg b1 b2 limit = Inl e"
      by (simp add: unfold run_plan_def b(3))
    ultimately show ?thesis using m(1) by blast
  qed
qed

section \<open>Batches of a select\<close>

text \<open>The rows of the second batch follow those of the first, up to the limit.\<close>

lemma combine_selects_rows:
  assumes "br_projection b1 = br_projection b2" and "batch_len b1 \<le> limit"
    and "batch_ok b1" "batch_ok b2" and "length (br_columns b1) = length (br_columns b2)"
  shows "combine_selects b1 b2 limit = Inr (merged_batch b1 b2
    \<lparr>br_columns = map (\<lambda>(c1, c2). take limit (c1 @ c2)) (zip (br_columns b1) (br_columns b2)),
     br_projection = br_projection b1, br_aggregations = [], br_order_by = [],
     br_level = 0, br_batch_count = 0, br_show = False\<rparr>)"
proof -
  have "append_all c1 c2 (if length c1 \<ge> limit then 0 else min (length c2) (limit - length c1)) = take limit (c1 @ c2)"
    if "(c1, c2) \<in> set (zip (br_columns b1) (br_columns b2))" for c1 c2
  proof -
    have "length c1 = batch_len b1" using that assms(3) by (auto simp: batch_ok_def dest: set_zip_leftD)
    with assms(2) show ?thesis by (auto simp: append_all_def min_def)
  qed
  then show ?thesis using assms(1) by (auto simp: combine_selects_def intro!: arg_cong [where f = "merged_batch b1 b2"])
qed

end
