(* ===== verification/Query_Tasks.thy ===== *)
theory Query_Tasks
  imports Queries Tasks Storage Batch_Merging
begin

text \<open>
  The task that answers a query, src/src/engine/execution/query_task.rs. Any number of threads run it
  at the same time: each claims partitions one by one, evaluates the main phase on them, merges its
  results level by level, and hands what it has to the shared state. The thread that completes the
  state combines everything, applies the final pass and sends the answer.

  Planning and running the two phases on the columns of one partition is a parameter (\<open>task_ops\<close>):
  it gives the result of a partition, or fails. Every step between two accesses to shared state is
  one transition; what happens under the lock of the state is one transition too. A panic under the
  lock poisons it. The running time in the statistics is left out.
\<close>

section \<open>Tasks and their state\<close>

record QueryTask =
  qt_main_phase :: NormalFormQuery
  qt_final_pass :: "NormalFormQuery option"
  qt_partitions :: "Partition list"
  qt_referenced_cols :: "string set"
  qt_output_colnames :: "string list"

record 'v QueryOutput =
  qo_colnames :: "string list"
  qo_rows :: "'v list list"
  qo_query_plans :: "string \<rightharpoonup> nat"
  qo_rows_scanned :: nat

record 'v task_ops =
  run_phase :: "NormalFormQuery \<Rightarrow> nat \<Rightarrow> ('v BatchResult \<times> string option) res"
  run_aggregate_phase :: "NormalFormQuery \<Rightarrow> nat \<Rightarrow> ('v BatchResult \<times> string option) res"
  run_final :: "NormalFormQuery \<Rightarrow> (col_key \<rightharpoonup> 'v list) \<Rightarrow> 'v BatchResult res"
  cols_len :: "nat \<Rightarrow> nat"
  agg_op :: "Aggregator \<Rightarrow> 'v \<Rightarrow> 'v \<Rightarrow> 'v res"

record 'v QueryState =
  completed_batches :: nat
  partial_results :: "'v BatchResult list"
  explains :: "string list"
  rows_scanned :: nat
  rows_collected :: nat
  batch_index :: nat
  completed :: bool
  poisoned :: bool
  sender :: "(QueryError + 'v QueryOutput) SharedSender"

section \<open>Creating a task\<close>

definition find_all_cols :: "Partition list \<Rightarrow> string set" where
  "find_all_cols source = (\<Union>p \<in> set source. set (col_names p))"

definition select_all :: "(string set \<Rightarrow> string list) \<Rightarrow> Partition list \<Rightarrow> Query \<Rightarrow> Query" where
  "select_all order source q =
     (if is_select_star q
      then q\<lparr>q_select := map (\<lambda>name. \<lparr>ci_expr = ColName name, ci_name = Some name\<rparr>) (order (find_all_cols source))\<rparr>
      else q)"

definition task_completed :: "QueryTask \<Rightarrow> 'v QueryState \<Rightarrow> bool" where
  "task_completed t s \<longleftrightarrow> completed s \<or> batch_index s \<ge> length (qt_partitions t)"

definition state_init :: "'v QueryState" where
  "state_init = \<lparr>completed_batches = 0, partial_results = [], explains = [], rows_scanned = 0, rows_collected = 0,
     batch_index = 0, completed = False, poisoned = False, sender = shared_sender_new\<rparr>"

definition query_task_new ::
    "(string set \<Rightarrow> string list) \<Rightarrow> Query \<Rightarrow> Partition list \<Rightarrow> (QueryTask \<times> 'v QueryState) res" where
  "query_task_new order query source =
     (let q = select_all order source query in
      rbind (normalize q) (\<lambda>(main_phase, final_pass).
      rbind (case final_pass of
               Some f \<Rightarrow> result_column_names f
             | None \<Rightarrow> result_column_names main_phase) (\<lambda>output_colnames.
      let task = \<lparr>qt_main_phase = main_phase, qt_final_pass = final_pass, qt_partitions = source,
                  qt_referenced_cols = find_referenced_cols q, qt_output_colnames = output_colnames\<rparr>
      in if task_completed task (state_init :: 'v QueryState)
         then Inr (task, state_init\<lparr>sender := shared_send (Inr \<lparr>qo_colnames = output_colnames, qo_rows = [],
                qo_query_plans = Map.empty, qo_rows_scanned = 0\<rparr>) shared_sender_new\<rparr>)
         else Inr (task, state_init))))"

section \<open>Limits and output\<close>

definition usize_add :: "nat \<Rightarrow> nat \<Rightarrow> nat" where
  "usize_add a b = (a + b) mod 2 ^ 64"

definition combined_limit :: "QueryTask \<Rightarrow> nat" where
  "combined_limit t = usize_add (lc_limit (nf_limit (qt_main_phase t))) (lc_offset (nf_limit (qt_main_phase t)))"

definition sufficient_rows :: "QueryTask \<Rightarrow> nat \<Rightarrow> bool" where
  "sufficient_rows t collected \<longleftrightarrow>
     (nf_aggregate (qt_main_phase t) = [] \<and> nf_order_by (qt_main_phase t) = []) \<and> combined_limit t < collected"

definition next_partition :: "QueryTask \<Rightarrow> 'v QueryState \<Rightarrow> 'v QueryState \<times> nat option" where
  "next_partition t s =
     (s\<lparr>batch_index := batch_index s + 1\<rparr>,
      if batch_index s < length (qt_partitions t) then Some (batch_index s) else None)"

definition plan_counts :: "string list \<Rightarrow> (string \<rightharpoonup> nat)" where
  "plan_counts = foldl (\<lambda>m plan. m(plan \<mapsto> (case m plan of Some n \<Rightarrow> n | None \<Rightarrow> 0) + 1)) Map.empty"

text \<open>One row of the output: projected columns, then aggregates.\<close>

definition output_row :: "'v BatchResult \<Rightarrow> nat \<Rightarrow> 'v list res" where
  "output_row full i =
     rmapM (\<lambda>j. rbind (index (br_columns full) j) (\<lambda>c. index c i))
       (br_projection full @ map fst (br_aggregations full))"

definition convert_to_output_format ::
    "QueryTask \<Rightarrow> 'v BatchResult \<Rightarrow> nat \<Rightarrow> string list \<Rightarrow> 'v QueryOutput res" where
  "convert_to_output_format t full scanned plans =
     (let lo = (case qt_final_pass t of Some f \<Rightarrow> nf_limit f | None \<Rightarrow> nf_limit (qt_main_phase t));
          offset = lc_offset lo;
          cnt = min (lc_limit lo) (usize_sub (batch_len full) offset) in
      rmap (\<lambda>rows. \<lparr>qo_colnames = qt_output_colnames t, qo_rows = rows, qo_query_plans = plan_counts plans,
                    qo_rows_scanned = scanned\<rparr>)
        (rmapM (output_row full) [offset..<usize_add cnt offset]))"

section \<open>Combining\<close>

text \<open>
  The inner loop of \<open>run\<close> over the stack of results, its top first: results of the same level are
  combined. \<open>combine_results\<close> combines from the bottom of the stack.
\<close>

fun merge_levels ::
    "(Aggregator \<Rightarrow> 'v \<Rightarrow> 'v \<Rightarrow> 'v res) \<Rightarrow> nat \<Rightarrow> 'v::linorder BatchResult list \<Rightarrow> 'v BatchResult \<Rightarrow> 'v BatchResult list res" where
  "merge_levels agg limit [] batch_result = Inr [batch_result]"
| "merge_levels agg limit (br # batch_results) batch_result =
     (if br_level br = br_level batch_result
      then rbind (combine agg br batch_result limit) (merge_levels agg limit batch_results)
      else Inr (batch_result # br # batch_results))"

definition combine_results ::
    "(Aggregator \<Rightarrow> 'v \<Rightarrow> 'v \<Rightarrow> 'v res) \<Rightarrow> nat \<Rightarrow> 'v::linorder BatchResult list \<Rightarrow> 'v BatchResult option res" where
  "combine_results agg limit batch_results =
     rfoldM (\<lambda>full_result batch_result.
        case full_result of
          Some partial \<Rightarrow> rmap Some (combine agg partial batch_result limit)
        | None \<Rightarrow> Inr (Some batch_result)) None batch_results"

definition fail_with_no_lock :: "QueryTask \<Rightarrow> QueryError \<Rightarrow> 'v QueryState \<Rightarrow> 'v QueryState" where
  "fail_with_no_lock t error s =
     s\<lparr>completed := True, batch_index := length (qt_partitions t), sender := shared_send (Inl error) (sender s)\<rparr>"

text \<open>The answer made of the combined result; an error of the final pass is unwrapped.\<close>

definition final_output :: "QueryTask \<Rightarrow> 'v task_ops \<Rightarrow> 'v BatchResult \<Rightarrow> nat \<Rightarrow> string list \<Rightarrow> 'v QueryOutput res" where
  "final_output t ops full scanned plans =
     (case qt_final_pass t of
        None \<Rightarrow> convert_to_output_format t full scanned plans
      | Some f \<Rightarrow>
          rbind (into_columns full) (\<lambda>cols.
          case run_final ops f cols of
            Inl _ \<Rightarrow> Inl Panicked
          | Inr r \<Rightarrow> convert_to_output_format t r scanned plans))"

section \<open>Threads\<close>

datatype phase = Claim | Process nat | Check | Finish | Failed QueryError | Done | Crashed

record 'v worker =
  w_phase :: phase
  w_rows_scanned :: nat
  w_rows_collected :: nat
  w_batch_results :: "'v BatchResult list"
  w_explains :: "string list"

definition worker_init :: "'v worker" where
  "worker_init = \<lparr>w_phase = Claim, w_rows_scanned = 0, w_rows_collected = 0, w_batch_results = [], w_explains = []\<rparr>"

definition push_result ::
    "QueryTask \<Rightarrow> 'v::linorder task_ops \<Rightarrow> 'v BatchResult \<Rightarrow> 'v worker \<Rightarrow> 'v QueryState \<Rightarrow> 'v QueryState \<times> phase" where
  "push_result t ops result w s =
     (if poisoned s then (s, Crashed)
      else if completed s then (s, Done)
      else
        let s1 = s\<lparr>completed_batches := completed_batches s + br_batch_count result,
                   explains := explains s @ w_explains w,
                   rows_scanned := rows_scanned s + w_rows_scanned w,
                   rows_collected := rows_collected s + w_rows_collected w,
                   partial_results := partial_results s @ [result]\<rparr> in
        if completed_batches s1 = length (qt_partitions t) \<or> sufficient_rows t (rows_collected s1) then
          let s2 = s1\<lparr>partial_results := []\<rparr> in
          case combine_results (agg_op ops) (combined_limit t) (partial_results s1) of
            Inl (Fail error) \<Rightarrow> (fail_with_no_lock t error s2, Done)
          | Inl Panicked \<Rightarrow> (s2\<lparr>poisoned := True\<rparr>, Crashed)
          | Inr None \<Rightarrow> (s2\<lparr>poisoned := True\<rparr>, Crashed)
          | Inr (Some full_result) \<Rightarrow>
              (case final_output t ops full_result (rows_scanned s2) (explains s2) of
                 Inl _ \<Rightarrow> (s2\<lparr>poisoned := True\<rparr>, Crashed)
               | Inr final_result \<Rightarrow>
                   (s2\<lparr>sender := shared_send (Inr final_result) (sender s2), completed := True\<rparr>, Done))
        else (s1, Done))"

definition fail_with :: "QueryTask \<Rightarrow> QueryError \<Rightarrow> 'v QueryState \<Rightarrow> 'v QueryState \<times> phase" where
  "fail_with t error s =
     (if poisoned s then (s, Crashed)
      else if completed s then (s, Done)
      else (fail_with_no_lock t error s, Done))"

text \<open>The main phase on the claimed partition, and merging its result into the stack.\<close>

definition run_batch :: "QueryTask \<Rightarrow> 'v task_ops \<Rightarrow> nat \<Rightarrow> ('v BatchResult \<times> string option) res" where
  "run_batch t ops i =
     (if nf_aggregate (qt_main_phase t) = [] then run_phase ops (qt_main_phase t) i
      else run_aggregate_phase ops (qt_main_phase t) i)"

definition process :: "QueryTask \<Rightarrow> 'v::linorder task_ops \<Rightarrow> nat \<Rightarrow> 'v worker \<Rightarrow> 'v worker" where
  "process t ops i w =
     (let w1 = w\<lparr>w_rows_scanned := w_rows_scanned w + cols_len ops i\<rparr> in
      case run_batch t ops i of
        Inl (Fail error) \<Rightarrow> w1\<lparr>w_phase := Failed error\<rparr>
      | Inl Panicked \<Rightarrow> w1\<lparr>w_phase := Crashed\<rparr>
      | Inr (batch_result, explain) \<Rightarrow>
          let w2 = w1\<lparr>w_rows_collected := w_rows_collected w + batch_len batch_result,
                      w_explains := w_explains w @ (case explain of Some e \<Rightarrow> [e] | None \<Rightarrow> [])\<rparr> in
          case merge_levels (agg_op ops) (combined_limit t) (w_batch_results w) batch_result of
            Inl (Fail error) \<Rightarrow> w2\<lparr>w_phase := Failed error\<rparr>
          | Inl Panicked \<Rightarrow> w2\<lparr>w_phase := Crashed\<rparr>
          | Inr stack \<Rightarrow> w2\<lparr>w_batch_results := stack, w_phase := Check\<rparr>)"

definition finish :: "QueryTask \<Rightarrow> 'v::linorder task_ops \<Rightarrow> 'v worker \<Rightarrow> 'v QueryState \<Rightarrow> 'v QueryState \<times> phase" where
  "finish t ops w s =
     (case combine_results (agg_op ops) (combined_limit t) (rev (w_batch_results w)) of
        Inr (Some result) \<Rightarrow> push_result t ops result w s
      | Inl (Fail error) \<Rightarrow> fail_with t error s
      | Inl Panicked \<Rightarrow> (s, Crashed)
      | Inr None \<Rightarrow> (s, Done))"

text \<open>One step of a thread inside \<open>run\<close>.\<close>

definition worker_step ::
    "QueryTask \<Rightarrow> 'v::linorder task_ops \<Rightarrow> 'v QueryState \<Rightarrow> 'v worker \<Rightarrow> 'v QueryState \<times> 'v worker" where
  "worker_step t ops s w =
     (case w_phase w of
        Claim \<Rightarrow>
          (case next_partition t s of
             (s', Some i) \<Rightarrow> (s', w\<lparr>w_phase := Process i\<rparr>)
           | (s', None) \<Rightarrow> (s', w\<lparr>w_phase := Finish\<rparr>))
      | Process i \<Rightarrow> (s, process t ops i w)
      | Check \<Rightarrow>
          (s, w\<lparr>w_phase := (if completed s then Done else if sufficient_rows t (w_rows_collected w) then Finish else Claim)\<rparr>)
      | Finish \<Rightarrow> (let (s', p) = finish t ops w s in (s', w\<lparr>w_phase := p, w_batch_results := []\<rparr>))
      | Failed error \<Rightarrow> (let (s', p) = fail_with t error s in (s', w\<lparr>w_phase := p, w_batch_results := []\<rparr>))
      | Done \<Rightarrow> (s, w)
      | Crashed \<Rightarrow> (s, w))"

definition ended :: "'v worker \<Rightarrow> bool" where
  "ended w \<longleftrightarrow> w_phase w = Done \<or> w_phase w = Crashed"

text \<open>
  Threads of the pool start running the task while it is not completed, and all running threads take
  their steps in any order.
\<close>

inductive task_step ::
    "QueryTask \<Rightarrow> 'v::linorder task_ops \<Rightarrow> 'v QueryState \<times> 'v worker list \<Rightarrow> 'v QueryState \<times> 'v worker list \<Rightarrow> bool"
  for t ops where
  Start: "\<not> task_completed t s \<Longrightarrow> task_step t ops (s, ws) (s, ws @ [worker_init])"
| Step: "k < length ws \<Longrightarrow> \<not> ended (ws ! k) \<Longrightarrow> worker_step t ops s (ws ! k) = (s', w') \<Longrightarrow>
    task_step t ops (s, ws) (s', ws[k := w'])"

abbreviation task_reachable ::
    "QueryTask \<Rightarrow> 'v::linorder task_ops \<Rightarrow> 'v QueryState \<Rightarrow> 'v worker list \<Rightarrow> bool" where
  "task_reachable t ops s ws \<equiv> (task_step t ops)\<^sup>*\<^sup>* (state_init, []) (s, ws)"

section \<open>Which partitions a result stands for\<close>

text \<open>
  \<open>combined t ops b M\<close>: the result \<open>b\<close> was combined, in some order, from the results of the
  partitions in \<open>M\<close>.
\<close>

inductive combined :: "QueryTask \<Rightarrow> 'v::linorder task_ops \<Rightarrow> 'v BatchResult \<Rightarrow> nat multiset \<Rightarrow> bool" for t ops where
  Leaf: "i < length (qt_partitions t) \<Longrightarrow> run_batch t ops i = Inr (b, e) \<Longrightarrow> combined t ops b {#i#}"
| Node: "combined t ops a M \<Longrightarrow> combined t ops b N \<Longrightarrow> combine (agg_op ops) a b (combined_limit t) = Inr c \<Longrightarrow>
    combined t ops c (M + N)"

text \<open>What a phase returns stands for one partition.\<close>

definition unit_batches :: "QueryTask \<Rightarrow> 'v task_ops \<Rightarrow> bool" where
  "unit_batches t ops \<longleftrightarrow> (\<forall>i b e. run_batch t ops i = Inr (b, e) \<longrightarrow> br_batch_count b = 1)"

definition rows_of :: "QueryTask \<Rightarrow> 'v task_ops \<Rightarrow> nat multiset \<Rightarrow> nat" where
  "rows_of t ops M = (\<Sum>i \<in># M. case run_batch t ops i of Inr (b, _) \<Rightarrow> batch_len b | Inl _ \<Rightarrow> 0)"

lemma rows_of_simps [simp]: "rows_of t ops {#} = 0" "rows_of t ops (M + N) = rows_of t ops M + rows_of t ops N"
  by (simp_all add: rows_of_def)

lemma combine_batch_count:
  "combine agg a b limit = Inr c \<Longrightarrow> br_batch_count c = br_batch_count a + br_batch_count b"
  by (auto simp: combine_def combine_aggregates_def combine_sorted_def combine_selects_def merged_batch_def Let_def
      case_prod_unfold split: if_splits)

lemma combined_count: "combined t ops b M \<Longrightarrow> unit_batches t ops \<Longrightarrow> br_batch_count b = size M"
  by (induction rule: combined.induct) (auto simp: unit_batches_def combine_batch_count)

lemma merge_levels_combined:
  assumes "merge_levels (agg_op ops) (combined_limit t) stack b = Inr stack'"
    and "list_all2 (combined t ops) stack Ms" and "combined t ops b M"
  shows "\<exists>Ms'. list_all2 (combined t ops) stack' Ms' \<and> sum_list Ms' = sum_list Ms + M \<and> stack' \<noteq> []"
  using assms
proof (induction stack arbitrary: b Ms M)
  case Nil
  then have "list_all2 (combined t ops) stack' [M] \<and> sum_list [M] = sum_list Ms + M \<and> stack' \<noteq> []" by auto
  then show ?case by blast
next
  case (Cons br stack)
  obtain N Ns where Ms: "Ms = N # Ns" "combined t ops br N" "list_all2 (combined t ops) stack Ns"
    using Cons.prems(2) by (auto simp: list_all2_Cons1)
  show ?case
  proof (cases "br_level br = br_level b")
    case True
    then obtain c where c: "combine (agg_op ops) br b (combined_limit t) = Inr c"
      "merge_levels (agg_op ops) (combined_limit t) stack c = Inr stack'"
      using Cons.prems(1) by auto
    from Cons.IH [OF c(2) Ms(3) Node [OF Ms(2) Cons.prems(3) c(1)]] Ms(1) show ?thesis by (simp add: ac_simps)
  next
    case False
    then have "list_all2 (combined t ops) stack' (M # N # Ns) \<and> sum_list (M # N # Ns) = sum_list Ms + M \<and> stack' \<noteq> []"
      using Cons.prems Ms by auto
    then show ?thesis by blast
  qed
qed

lemma combine_results_combined:
  assumes "combine_results (agg_op ops) (combined_limit t) bs = Inr r" and "list_all2 (combined t ops) bs Ms"
  shows "case r of None \<Rightarrow> bs = [] | Some b \<Rightarrow> bs \<noteq> [] \<and> combined t ops b (sum_list Ms)"
proof -
  let ?f = "\<lambda>full_result batch_result.
     case full_result of
       Some partial \<Rightarrow> rmap Some (combine (agg_op ops) partial batch_result (combined_limit t))
     | None \<Rightarrow> Inr (Some batch_result)"
  have step: "\<exists>b. r' = Some b \<and> combined t ops b (M + sum_list Ns)"
    if "rfoldM ?f (Some a) bs' = Inr r'" "combined t ops a M" "list_all2 (combined t ops) bs' Ns" for a bs' r' M Ns
    using that
  proof (induction bs' arbitrary: a M Ns)
    case (Cons b bs')
    obtain N Ns' where N: "Ns = N # Ns'" "combined t ops b N" "list_all2 (combined t ops) bs' Ns'"
      using Cons.prems(3) by (auto simp: list_all2_Cons1)
    obtain c where c: "combine (agg_op ops) a b (combined_limit t) = Inr c" "rfoldM ?f (Some c) bs' = Inr r'"
      using Cons.prems(1) by (auto simp: rmap_Inr_iff)
    from Cons.IH [OF c(2) Node [OF Cons.prems(2) N(2) c(1)] N(3)] N(1) show ?case by (simp add: ac_simps)
  qed auto
  show ?thesis
  proof (cases bs)
    case (Cons b bs')
    then obtain N Ns where N: "Ms = N # Ns" "combined t ops b N" "list_all2 (combined t ops) bs' Ns"
      using assms(2) by (auto simp: list_all2_Cons1)
    from step [of b bs' r, OF _ N(2,3)] assms(1) Cons N(1) show ?thesis
      by (auto simp: combine_results_def)
  qed (use assms in \<open>simp add: combine_results_def\<close>)
qed

section \<open>No result is lost\<close>

fun in_process :: "phase \<Rightarrow> nat multiset" where
  "in_process (Process i) = {#i#}"
| "in_process _ = {#}"

fun lossy :: "phase \<Rightarrow> bool" where
  "lossy (Failed _) = True"
| "lossy Crashed = True"
| "lossy _ = False"

text \<open>The partitions a thread is responsible for.\<close>

definition holds :: "QueryTask \<Rightarrow> 'v::linorder task_ops \<Rightarrow> 'v worker \<Rightarrow> nat multiset \<Rightarrow> bool" where
  "holds t ops w M \<longleftrightarrow> (\<exists>Ms. list_all2 (combined t ops) (w_batch_results w) Ms \<and> M = sum_list Ms + in_process (w_phase w) \<and>
     (lossy (w_phase w) \<or> w_phase w = Done \<or> w_rows_collected w = rows_of t ops (sum_list Ms)) \<and>
     set_mset (in_process (w_phase w)) \<subseteq> {..<length (qt_partitions t)})"

definition claimed :: "QueryTask \<Rightarrow> 'v QueryState \<Rightarrow> nat multiset" where
  "claimed t s = mset [0..<min (batch_index s) (length (qt_partitions t))]"

definition tracked :: "QueryTask \<Rightarrow> 'v::linorder task_ops \<Rightarrow> 'v QueryState \<Rightarrow> 'v worker list \<Rightarrow> bool" where
  "tracked t ops s ws \<longleftrightarrow> (\<exists>Ps Ws. list_all2 (combined t ops) (partial_results s) Ps \<and> list_all2 (holds t ops) ws Ws \<and>
     completed_batches s = size (sum_list Ps) \<and> rows_collected s = rows_of t ops (sum_list Ps) \<and>
     sum_list Ps + sum_list Ws \<subseteq># claimed t s \<and>
     ((\<forall>w \<in> set ws. \<not> lossy (w_phase w)) \<longrightarrow> sum_list Ps + sum_list Ws = claimed t s))"

definition worker_ok :: "QueryTask \<Rightarrow> 'v QueryState \<Rightarrow> 'v worker \<Rightarrow> bool" where
  "worker_ok t s w \<longleftrightarrow>
     (case w_phase w of
        Done \<Rightarrow> length (qt_partitions t) \<le> batch_index s \<and> w_batch_results w = []
      | Finish \<Rightarrow> length (qt_partitions t) \<le> batch_index s \<or>
          (sufficient_rows t (w_rows_collected w) \<and> w_batch_results w \<noteq> [])
      | Check \<Rightarrow> w_batch_results w \<noteq> []
      | _ \<Rightarrow> True)"

text \<open>What an answer is made of.\<close>

definition answer_of :: "QueryTask \<Rightarrow> 'v::linorder task_ops \<Rightarrow> 'v QueryOutput \<Rightarrow> bool" where
  "answer_of t ops out \<longleftrightarrow> (\<exists>full M scanned plans. combined t ops full M \<and> M \<subseteq># mset [0..<length (qt_partitions t)] \<and>
     final_output t ops full scanned plans = Inr out \<and>
     (M = mset [0..<length (qt_partitions t)] \<or> sufficient_rows t (rows_of t ops M)))"

definition task_inv :: "QueryTask \<Rightarrow> 'v::linorder task_ops \<Rightarrow> 'v QueryState \<Rightarrow> 'v worker list \<Rightarrow> bool" where
  "task_inv t ops s ws \<longleftrightarrow> sender_ok (sender s) \<and> (ss_inner (sender s) \<longleftrightarrow> \<not> completed s) \<and>
     (ws \<noteq> [] \<longrightarrow> 0 < length (qt_partitions t)) \<and> (poisoned s \<longrightarrow> (\<exists>w \<in> set ws. w_phase w = Crashed)) \<and>
     (\<not> completed s \<and> \<not> poisoned s \<longrightarrow> tracked t ops s ws \<and> (\<forall>w \<in> set ws. worker_ok t s w) \<and>
        (completed_batches s = length (qt_partitions t) \<longrightarrow> length (qt_partitions t) = 0)) \<and>
     (\<forall>out. ss_sent (sender s) = [Inr out] \<longrightarrow> answer_of t ops out)"

lemma sum_list_update_add:
  fixes xs :: "'a multiset list"
  shows "k < length xs \<Longrightarrow> \<exists>X. sum_list xs = xs ! k + X \<and> (\<forall>x. sum_list (xs[k := x]) = x + X)"
proof (induction xs arbitrary: k)
  case (Cons y ys)
  show ?case
  proof (cases k)
    case (Suc j)
    then obtain X where "sum_list ys = ys ! j + X" "\<forall>x. sum_list (ys[j := x]) = x + X" using Cons by force
    with Suc have "sum_list (y # ys) = (y # ys) ! k + (y + X) \<and> (\<forall>x. sum_list ((y # ys)[k := x]) = x + (y + X))"
      by (simp add: ac_simps)
    then show ?thesis by blast
  qed auto
qed simp

text \<open>
  The step of one thread as seen by the accounting: what it held, what it holds afterwards, and what
  moved to the shared state.
\<close>

lemma tracked_step:
  assumes "tracked t ops s ws" and "k < length ws"
    and "\<And>Ps M. list_all2 (combined t ops) (partial_results s) Ps \<Longrightarrow> holds t ops (ws ! k) M \<Longrightarrow>
      completed_batches s = size (sum_list Ps) \<Longrightarrow> rows_collected s = rows_of t ops (sum_list Ps) \<Longrightarrow>
      \<exists>Ps' M'. list_all2 (combined t ops) (partial_results s') Ps' \<and> holds t ops w' M' \<and>
        completed_batches s' = size (sum_list Ps') \<and> rows_collected s' = rows_of t ops (sum_list Ps') \<and>
        sum_list Ps' + M' + claimed t s \<subseteq># sum_list Ps + M + claimed t s' \<and>
        (\<not> lossy (w_phase w') \<longrightarrow> \<not> lossy (w_phase (ws ! k)) \<and> sum_list Ps' + M' + claimed t s = sum_list Ps + M + claimed t s')"
  shows "tracked t ops s' (ws[k := w'])"
proof -
  obtain Ps Ws where P: "list_all2 (combined t ops) (partial_results s) Ps" "list_all2 (holds t ops) ws Ws"
    "completed_batches s = size (sum_list Ps)" "rows_collected s = rows_of t ops (sum_list Ps)"
    "sum_list Ps + sum_list Ws \<subseteq># claimed t s"
    "(\<forall>w \<in> set ws. \<not> lossy (w_phase w)) \<longrightarrow> sum_list Ps + sum_list Ws = claimed t s"
    using assms(1) unfolding tracked_def by (elim exE conjE)
  have k: "k < length Ws" using assms(2) P(2) by (simp add: list_all2_lengthD)
  obtain X where X: "sum_list Ws = Ws ! k + X" "\<And>x. sum_list (Ws[k := x]) = x + X"
    using sum_list_update_add [OF k] by blast
  have "holds t ops (ws ! k) (Ws ! k)" using P(2) assms(2) by (simp add: list_all2_nthD)
  from assms(3) [OF P(1) this P(3,4)] obtain Ps' M' where
    N: "list_all2 (combined t ops) (partial_results s') Ps'" "holds t ops w' M'"
      "completed_batches s' = size (sum_list Ps')" "rows_collected s' = rows_of t ops (sum_list Ps')"
      "sum_list Ps' + M' + claimed t s \<subseteq># sum_list Ps + Ws ! k + claimed t s'"
      "\<not> lossy (w_phase w') \<longrightarrow> \<not> lossy (w_phase (ws ! k)) \<and> sum_list Ps' + M' + claimed t s = sum_list Ps + Ws ! k + claimed t s'"
    by (elim exE conjE)
  have "list_all2 (holds t ops) (ws[k := w']) (Ws[k := M'])" using P(2) N(2) by (rule list_all2_update_cong)
  moreover have "sum_list Ps' + sum_list (Ws[k := M']) \<subseteq># claimed t s'"
  proof -
    have "sum_list Ps' + M' + X + claimed t s \<subseteq># sum_list Ps + Ws ! k + X + claimed t s'"
      using N(5) by (simp add: ac_simps)
    also have "\<dots> \<subseteq># claimed t s + claimed t s'" using P(5) X(1) by (simp add: add.assoc)
    finally show ?thesis using X(2) by (simp add: ac_simps)
  qed
  moreover have "sum_list Ps' + sum_list (Ws[k := M']) = claimed t s'"
    if n: "\<forall>w \<in> set (ws[k := w']). \<not> lossy (w_phase w)"
  proof -
    have w': "\<not> lossy (w_phase w')" using n assms(2) by (simp add: set_update_memI)
    have "\<not> lossy (w_phase (ws ! j))" if "j < length ws" for j
      using n that w' N(6) by (cases "j = k") (auto dest: bspec [OF _ nth_mem [of j "ws[k := w']"]])
    then have "sum_list Ps + sum_list Ws = claimed t s" using P(6) by (auto simp: in_set_conv_nth)
    then have c: "sum_list Ps + Ws ! k + X = claimed t s" using X(1) by (simp add: add.assoc)
    have "sum_list Ps' + M' + X + claimed t s = (sum_list Ps' + M' + claimed t s) + X" by (simp add: ac_simps)
    also have "\<dots> = (sum_list Ps + Ws ! k + claimed t s') + X" using N(6) w' by simp
    also have "\<dots> = (sum_list Ps + Ws ! k + X) + claimed t s'" by (simp add: ac_simps)
    finally have "sum_list Ps' + M' + X = claimed t s'" unfolding c by (simp add: add.assoc)
    then show ?thesis using X(2) by (simp add: ac_simps)
  qed
  ultimately show ?thesis unfolding tracked_def using N(1,3,4) by blast
qed

section \<open>Every step keeps the accounts\<close>

lemma holds_init: "holds t ops worker_init {#}"
  by (simp add: holds_def worker_init_def)

lemma tracked_start: "tracked t ops s ws \<Longrightarrow> tracked t ops s (ws @ [worker_init])"
proof -
  assume "tracked t ops s ws"
  then obtain Ps Ws where P: "list_all2 (combined t ops) (partial_results s) Ps" "list_all2 (holds t ops) ws Ws"
    "completed_batches s = size (sum_list Ps)" "rows_collected s = rows_of t ops (sum_list Ps)"
    "sum_list Ps + sum_list Ws \<subseteq># claimed t s"
    "(\<forall>w \<in> set ws. \<not> lossy (w_phase w)) \<longrightarrow> sum_list Ps + sum_list Ws = claimed t s"
    unfolding tracked_def by (elim exE conjE)
  have "list_all2 (holds t ops) (ws @ [worker_init]) (Ws @ [{#}])" using P(2) by (simp add: list_all2_appendI holds_init)
  with P show ?thesis unfolding tracked_def by (intro exI [of _ Ps] exI [of _ "Ws @ [{#}]"]) simp
qed

lemma claimed_next: "claimed t (s\<lparr>batch_index := batch_index s + 1\<rparr>) =
    (if batch_index s < length (qt_partitions t) then claimed t s + {#batch_index s#} else claimed t s)"
  by (auto simp: claimed_def min_def simp del: mset_upt)

lemma tracked_claim:
  assumes "tracked t ops s ws" and "k < length ws" and "w_phase (ws ! k) = Claim"
    and "worker_step t ops s (ws ! k) = (s', w')"
  shows "tracked t ops s' (ws[k := w'])"
proof (rule tracked_step [OF assms(1,2)])
  fix Ps M
  assume P: "list_all2 (combined t ops) (partial_results s) Ps" "completed_batches s = size (sum_list Ps)"
    "rows_collected s = rows_of t ops (sum_list Ps)" and h: "holds t ops (ws ! k) M"
  have s': "s' = s\<lparr>batch_index := batch_index s + 1\<rparr>"
    "w' = (ws ! k)\<lparr>w_phase := if batch_index s < length (qt_partitions t) then Process (batch_index s) else Finish\<rparr>"
    using assms(3,4) by (auto simp: worker_step_def next_partition_def split: if_splits)
  let ?M = "if batch_index s < length (qt_partitions t) then M + {#batch_index s#} else M"
  have "holds t ops w' ?M" using h assms(3) unfolding s'(2) holds_def by auto
  moreover have "sum_list Ps + ?M + claimed t s = sum_list Ps + M + claimed t s'"
    unfolding s'(1) claimed_next by auto
  moreover have "\<not> lossy (w_phase (ws ! k))" using assms(3) by simp
  ultimately show "\<exists>Ps' M'. list_all2 (combined t ops) (partial_results s') Ps' \<and> holds t ops w' M' \<and>
      completed_batches s' = size (sum_list Ps') \<and> rows_collected s' = rows_of t ops (sum_list Ps') \<and>
      sum_list Ps' + M' + claimed t s \<subseteq># sum_list Ps + M + claimed t s' \<and>
      (\<not> lossy (w_phase w') \<longrightarrow> \<not> lossy (w_phase (ws ! k)) \<and> sum_list Ps' + M' + claimed t s = sum_list Ps + M + claimed t s')"
    using P s'(1) by (intro exI [of _ Ps] exI [of _ ?M]) simp
qed

text \<open>Steps that leave the shared state alone.\<close>

lemma tracked_local:
  assumes "tracked t ops s ws" and "k < length ws"
    and "\<And>M. holds t ops (ws ! k) M \<Longrightarrow> \<exists>M'. holds t ops w' M' \<and> M' \<subseteq># M \<and>
      (\<not> lossy (w_phase w') \<longrightarrow> \<not> lossy (w_phase (ws ! k)) \<and> M' = M)"
  shows "tracked t ops s (ws[k := w'])"
proof (rule tracked_step [OF assms(1,2)])
  fix Ps M
  assume P: "list_all2 (combined t ops) (partial_results s) Ps" "completed_batches s = size (sum_list Ps)"
    "rows_collected s = rows_of t ops (sum_list Ps)" and h: "holds t ops (ws ! k) M"
  obtain M' where M': "holds t ops w' M'" "M' \<subseteq># M" "\<not> lossy (w_phase w') \<longrightarrow> \<not> lossy (w_phase (ws ! k)) \<and> M' = M"
    using assms(3) [OF h] by blast
  with P show "\<exists>Ps' M'. list_all2 (combined t ops) (partial_results s) Ps' \<and> holds t ops w' M' \<and>
      completed_batches s = size (sum_list Ps') \<and> rows_collected s = rows_of t ops (sum_list Ps') \<and>
      sum_list Ps' + M' + claimed t s \<subseteq># sum_list Ps + M + claimed t s \<and>
      (\<not> lossy (w_phase w') \<longrightarrow> \<not> lossy (w_phase (ws ! k)) \<and> sum_list Ps' + M' + claimed t s = sum_list Ps + M + claimed t s)"
    by (intro exI [of _ Ps] exI [of _ M']) simp
qed

lemma process_holds:
  assumes "holds t ops w M" and "w_phase w = Process i" and "w' = process t ops i w"
  shows "\<exists>M'. holds t ops w' M' \<and> M' \<subseteq># M \<and> (\<not> lossy (w_phase w') \<longrightarrow> \<not> lossy (w_phase w) \<and> M' = M)"
    and "\<not> lossy (w_phase w') \<Longrightarrow> w_phase w' = Check \<and> w_batch_results w' \<noteq> []"
proof -
  obtain Ms where Ms: "list_all2 (combined t ops) (w_batch_results w) Ms" "M = sum_list Ms + {#i#}"
    "w_rows_collected w = rows_of t ops (sum_list Ms)" "i < length (qt_partitions t)"
    using assms(1,2) by (auto simp: holds_def)
  have lost: "holds t ops w' (sum_list Ms)" if "lossy (w_phase w')" "w_batch_results w' = w_batch_results w"
    using that Ms(1) by (cases "w_phase w'") (auto simp: holds_def)
  have "(\<exists>M'. holds t ops w' M' \<and> M' \<subseteq># M \<and> (\<not> lossy (w_phase w') \<longrightarrow> \<not> lossy (w_phase w) \<and> M' = M)) \<and>
    (\<not> lossy (w_phase w') \<longrightarrow> w_phase w' = Check \<and> w_batch_results w' \<noteq> [])"
  proof (cases "lossy (w_phase w')")
    case True
    have "w_batch_results w' = w_batch_results w"
      using True unfolding assms(3) process_def
      by (auto simp: Let_def split: sum.splits failure.splits prod.splits)
    with lost [OF True] True Ms(2) show ?thesis by auto
  next
    case False
    then obtain b e stack where r: "run_batch t ops i = Inr (b, e)"
      "merge_levels (agg_op ops) (combined_limit t) (w_batch_results w) b = Inr stack"
      "w_phase w' = Check" "w_batch_results w' = stack" "w_rows_collected w' = w_rows_collected w + batch_len b"
      unfolding assms(3) process_def
      by (auto simp: Let_def split: sum.splits failure.splits prod.splits)
    obtain Ms' where Ms': "list_all2 (combined t ops) stack Ms'" "sum_list Ms' = sum_list Ms + {#i#}" "stack \<noteq> []"
      using merge_levels_combined [OF r(2) Ms(1) Leaf [OF Ms(4) r(1)]] by blast
    have "w_rows_collected w' = rows_of t ops (sum_list Ms')"
      using r(1,5) Ms(3) Ms'(2) by (simp add: rows_of_def)
    with Ms' r(3,4) have "holds t ops w' M" by (auto simp: holds_def Ms(2))
    with assms(2) r(3,4) Ms'(3) show ?thesis by auto
  qed
  then show "\<exists>M'. holds t ops w' M' \<and> M' \<subseteq># M \<and> (\<not> lossy (w_phase w') \<longrightarrow> \<not> lossy (w_phase w) \<and> M' = M)"
    "\<not> lossy (w_phase w') \<Longrightarrow> w_phase w' = Check \<and> w_batch_results w' \<noteq> []" by blast+
qed

text \<open>Handing a result to the shared state.\<close>

lemma tracked_push:
  assumes "tracked t ops s ws" and "k < length ws" and "unit_batches t ops" and "w_phase (ws ! k) = Finish"
    and "combine_results (agg_op ops) (combined_limit t) (rev (w_batch_results (ws ! k))) = Inr (Some result)"
    and "s1 = s\<lparr>completed_batches := completed_batches s + br_batch_count result, explains := ex, rows_scanned := sc,
      rows_collected := rows_collected s + w_rows_collected (ws ! k), partial_results := partial_results s @ [result]\<rparr>"
    and "w' = (ws ! k)\<lparr>w_phase := Done, w_batch_results := []\<rparr>"
  shows "tracked t ops s1 (ws[k := w'])"
proof (rule tracked_step [OF assms(1,2)])
  fix Ps M
  assume P: "list_all2 (combined t ops) (partial_results s) Ps" "completed_batches s = size (sum_list Ps)"
    "rows_collected s = rows_of t ops (sum_list Ps)" and h: "holds t ops (ws ! k) M"
  obtain Ms where Ms: "list_all2 (combined t ops) (w_batch_results (ws ! k)) Ms" "M = sum_list Ms"
    "w_rows_collected (ws ! k) = rows_of t ops (sum_list Ms)"
    using h assms(4) by (auto simp: holds_def)
  have "list_all2 (combined t ops) (rev (w_batch_results (ws ! k))) (rev Ms)" using Ms(1) by simp
  from combine_results_combined [OF assms(5) this] have c: "combined t ops result M" using Ms(2) by simp
  have "list_all2 (combined t ops) (partial_results s1) (Ps @ [M])" using P(1) c assms(6) by (simp add: list_all2_appendI)
  moreover have "holds t ops w' {#}" by (simp add: assms(7) holds_def)
  moreover have "completed_batches s1 = size (sum_list (Ps @ [M]))"
    using assms(6) P(2) combined_count [OF c assms(3)] by simp
  moreover have "rows_collected s1 = rows_of t ops (sum_list (Ps @ [M]))" using assms(6) P(3) Ms(2,3) by simp
  moreover have "claimed t s1 = claimed t s" using assms(6) by (simp add: claimed_def)
  ultimately show "\<exists>Ps' M'. list_all2 (combined t ops) (partial_results s1) Ps' \<and> holds t ops w' M' \<and>
      completed_batches s1 = size (sum_list Ps') \<and> rows_collected s1 = rows_of t ops (sum_list Ps') \<and>
      sum_list Ps' + M' + claimed t s \<subseteq># sum_list Ps + M + claimed t s1 \<and>
      (\<not> lossy (w_phase w') \<longrightarrow> \<not> lossy (w_phase (ws ! k)) \<and> sum_list Ps' + M' + claimed t s = sum_list Ps + M + claimed t s1)"
    using assms(4) by (intro exI [of _ "Ps @ [M]"] exI [of _ "{#}"]) simp
qed

lemma claimed_subset: "claimed t s \<subseteq># mset [0..<length (qt_partitions t)]"
proof -
  have "[0..<length (qt_partitions t)] =
      [0..<min (batch_index s) (length (qt_partitions t))] @ [min (batch_index s) (length (qt_partitions t))..<length (qt_partitions t)]"
    by (metis le_add_diff_inverse min.cobounded2 upt_add_eq_append zero_le)
  then show ?thesis unfolding claimed_def by (metis mset_append mset_subset_eq_add_left)
qed

text \<open>The answer of the thread that completes the state.\<close>

lemma tracked_answer:
  assumes "tracked t ops s1 ws"
    and "completed_batches s1 = length (qt_partitions t) \<or> sufficient_rows t (rows_collected s1)"
    and "combine_results (agg_op ops) (combined_limit t) (partial_results s1) = Inr (Some full)"
    and "final_output t ops full sc pl = Inr out"
  shows "answer_of t ops out"
proof -
  obtain Ps Ws where P: "list_all2 (combined t ops) (partial_results s1) Ps"
    "completed_batches s1 = size (sum_list Ps)" "rows_collected s1 = rows_of t ops (sum_list Ps)"
    "sum_list Ps + sum_list Ws \<subseteq># claimed t s1"
    using assms(1) unfolding tracked_def by (elim exE conjE)
  let ?all = "mset [0..<length (qt_partitions t)]"
  have c: "combined t ops full (sum_list Ps)" using combine_results_combined [OF assms(3) P(1)] by simp
  have sub: "sum_list Ps \<subseteq># ?all"
    using P(4) claimed_subset by (meson mset_subset_eq_add_left subset_mset.order_trans)
  have "sum_list Ps = ?all \<or> sufficient_rows t (rows_of t ops (sum_list Ps))"
    using assms(2)
  proof
    assume "completed_batches s1 = length (qt_partitions t)"
    then have "size (sum_list Ps) = size ?all" using P(2) by simp
    with sub show ?thesis by (metis mset_subset_size nat_neq_iff subset_mset.le_neq_trans)
  qed (use P(3) in simp)
  with c sub assms(4) show ?thesis unfolding answer_of_def by blast
qed

section \<open>The invariant\<close>

lemma worker_ok_mono: "worker_ok t s w \<Longrightarrow> batch_index s \<le> batch_index s' \<Longrightarrow> worker_ok t s' w"
  by (auto simp: worker_ok_def split: phase.splits)

lemma crashed_stays:
  assumes "\<exists>w \<in> set ws. w_phase w = Crashed" and "\<not> ended (ws ! k)" and "k < length ws"
  shows "\<exists>w \<in> set (ws[k := w']). w_phase w = Crashed"
proof -
  obtain j where j: "j < length ws" "w_phase (ws ! j) = Crashed" using assms(1) by (auto simp: in_set_conv_nth)
  then have "j \<noteq> k" using assms(2) by (auto simp: ended_def)
  with j show ?thesis by (metis length_list_update nth_list_update_neq nth_mem)
qed

lemma inv_quiet:
  assumes inv: "task_inv t ops s ws" and k: "k < length ws" "\<not> ended (ws ! k)"
    and same: "sender s' = sender s" "completed s' = completed s" "poisoned s' = poisoned s" "batch_index s \<le> batch_index s'"
    and live: "\<not> completed s \<Longrightarrow> \<not> poisoned s \<Longrightarrow> tracked t ops s ws \<Longrightarrow> worker_ok t s (ws ! k) \<Longrightarrow>
      tracked t ops s' (ws[k := w']) \<and> worker_ok t s' w' \<and>
      (completed_batches s' = length (qt_partitions t) \<longrightarrow> completed_batches s = length (qt_partitions t))"
  shows "task_inv t ops s' (ws[k := w'])"
proof -
  have "\<forall>w \<in> set (ws[k := w']). worker_ok t s' w" if "\<forall>w \<in> set ws. worker_ok t s w" "worker_ok t s' w'"
    using that worker_ok_mono [OF _ same(4)] set_update_subset_insert [of ws k w'] by auto
  moreover have "poisoned s \<longrightarrow> (\<exists>w \<in> set (ws[k := w']). w_phase w = Crashed)"
    using inv crashed_stays [OF _ k(2,1)] by (auto simp: task_inv_def)
  moreover have "tracked t ops s' (ws[k := w']) \<and> worker_ok t s' w' \<and> (\<forall>w \<in> set ws. worker_ok t s w) \<and>
      (completed_batches s' = length (qt_partitions t) \<longrightarrow> length (qt_partitions t) = 0)"
    if "\<not> completed s" "\<not> poisoned s"
    using inv live [OF that] that nth_mem [OF k(1)] by (simp add: task_inv_def)
  moreover have "ws[k := w'] \<noteq> []" "0 < length (qt_partitions t)" using k(1) inv by (auto simp: task_inv_def)
  ultimately show ?thesis using inv unfolding task_inv_def same by simp
qed

lemma inv_completed:
  assumes inv: "task_inv t ops s ws" and k: "k < length ws" "\<not> ended (ws ! k)" and "\<not> poisoned s'" "completed s'"
    and "\<not> completed s" and "sender s' = shared_send m (sender s)" and "\<And>out. m = Inr out \<Longrightarrow> answer_of t ops out"
  shows "task_inv t ops s' (ws[k := w'])"
proof -
  have "ss_inner (sender s)" "ss_sent (sender s) = []"
    using inv assms(6) by (auto simp: task_inv_def sender_ok_def split: if_splits)
  then have "ss_inner (sender s') = False" "ss_sent (sender s') = [m]" using assms(7) by (auto simp: shared_send_def)
  then show ?thesis using inv k assms(4-8) by (auto simp: task_inv_def sender_ok_def)
qed

lemma inv_poisoned:
  assumes inv: "task_inv t ops s ws" and k: "k < length ws" and "sender s' = sender s" "completed s' = completed s"
    and "poisoned s'" and "w_phase w' = Crashed"
  shows "task_inv t ops s' (ws[k := w'])"
proof -
  have "w' \<in> set (ws[k := w'])" using k by (rule set_update_memI)
  then have "\<exists>w \<in> set (ws[k := w']). w_phase w = Crashed" using assms(6) by blast
  with inv assms(3-5) k show ?thesis by (auto simp: task_inv_def)
qed

lemma inv_fail_with:
  assumes inv: "task_inv t ops s ws" and k: "k < length ws" "\<not> ended (ws ! k)"
    and "fail_with t error s = (s', p)" and "w_phase w' = p"
  shows "task_inv t ops s' (ws[k := w'])"
proof (cases "poisoned s")
  case True
  then show ?thesis using assms(4,5) inv_poisoned [OF inv k(1), of s' w'] by (simp add: fail_with_def)
next
  case np: False
  show ?thesis
  proof (cases "completed s")
    case True
    then have "s' = s" using np assms(4) by (simp add: fail_with_def)
    then show ?thesis using True by (intro inv_quiet [OF inv k]) auto
  next
    case False
    then have "s' = fail_with_no_lock t error s" using np assms(4) by (simp add: fail_with_def)
    then show ?thesis
      using False np by (intro inv_completed [OF inv k, where m = "Inl error"]) (auto simp: fail_with_no_lock_def)
  qed
qed

lemma sufficient_mono: "sufficient_rows t n \<Longrightarrow> n \<le> m \<Longrightarrow> sufficient_rows t m"
  by (simp add: sufficient_rows_def)

lemma inv_push_result:
  assumes inv: "task_inv t ops s ws" and k: "k < length ws" and unit: "unit_batches t ops"
    and fin: "w_phase (ws ! k) = Finish"
    and r: "combine_results (agg_op ops) (combined_limit t) (rev (w_batch_results (ws ! k))) = Inr (Some result)"
    and p: "push_result t ops result (ws ! k) s = (s', p)"
    and w': "w' = (ws ! k)\<lparr>w_phase := p, w_batch_results := []\<rparr>"
  shows "task_inv t ops s' (ws[k := w'])"
proof -
  have ne: "\<not> ended (ws ! k)" using fin by (simp add: ended_def)
  define s1 where "s1 = s\<lparr>completed_batches := completed_batches s + br_batch_count result,
      explains := explains s @ w_explains (ws ! k), rows_scanned := rows_scanned s + w_rows_scanned (ws ! k),
      rows_collected := rows_collected s + w_rows_collected (ws ! k), partial_results := partial_results s @ [result]\<rparr>"
  define go where "go \<longleftrightarrow> completed_batches s1 = length (qt_partitions t) \<or> sufficient_rows t (rows_collected s1)"
  consider "poisoned s" | "\<not> poisoned s" "completed s" | "\<not> poisoned s" "\<not> completed s" "\<not> go" | "\<not> poisoned s" "\<not> completed s" go
    by blast
  then show ?thesis
  proof cases
    case 1
    then show ?thesis using p w' inv_poisoned [OF inv k, of s' w'] by (simp add: push_result_def)
  next
    case 2
    then have "s' = s" using p by (simp add: push_result_def)
    then show ?thesis using 2 by (intro inv_quiet [OF inv k ne]) auto
  next
    case 3
    then have s': "s' = s1" "p = Done" using p by (auto simp: push_result_def s1_def [symmetric] go_def Let_def)
    have tr: "tracked t ops s1 (ws[k := w'])" if "tracked t ops s ws"
      using tracked_push [OF that k unit fin r s1_def] w' s'(2) by simp
    have "worker_ok t s1 w'" if "worker_ok t s (ws ! k)"
      using that fin 3(3) w' s'(2) sufficient_mono [of t "w_rows_collected (ws ! k)" "rows_collected s1"]
      by (auto simp: worker_ok_def go_def s1_def)
    then show ?thesis
      using tr 3 unfolding s'(1) by (intro inv_quiet [OF inv k ne]) (auto simp: s1_def go_def)
  next
    case 4
    then have tr: "tracked t ops s ws" using inv by (simp add: task_inv_def)
    have tr1: "tracked t ops s1 (ws[k := (ws ! k)\<lparr>w_phase := Done, w_batch_results := []\<rparr>])"
      by (rule tracked_push [OF tr k unit fin r s1_def refl])
    define s2 where "s2 = s1\<lparr>partial_results := []\<rparr>"
    have p': "(case combine_results (agg_op ops) (combined_limit t) (partial_results s1) of
            Inl (Fail error) \<Rightarrow> (fail_with_no_lock t error s2, Done)
          | Inl Panicked \<Rightarrow> (s2\<lparr>poisoned := True\<rparr>, Crashed)
          | Inr None \<Rightarrow> (s2\<lparr>poisoned := True\<rparr>, Crashed)
          | Inr (Some full_result) \<Rightarrow>
              (case final_output t ops full_result (rows_scanned s2) (explains s2) of
                 Inl _ \<Rightarrow> (s2\<lparr>poisoned := True\<rparr>, Crashed)
               | Inr final_result \<Rightarrow>
                   (s2\<lparr>sender := shared_send (Inr final_result) (sender s2), completed := True\<rparr>, Done))) = (s', p)"
      using p 4 unfolding push_result_def Let_def s1_def [symmetric] s2_def [symmetric] go_def by simp
    have bad: "task_inv t ops s' (ws[k := w'])" if "s' = s2\<lparr>poisoned := True\<rparr>" "p = Crashed"
      using that w' inv_poisoned [OF inv k, of s' w'] by (simp add: s2_def s1_def)
    show ?thesis
    proof (cases "combine_results (agg_op ops) (combined_limit t) (partial_results s1)")
      case (Inl f)
      show ?thesis
      proof (cases f)
        case (Fail error)
        then have "s' = fail_with_no_lock t error s2" using p' Inl by simp
        then show ?thesis
          using 4 by (intro inv_completed [OF inv k ne, where m = "Inl error"]) (auto simp: fail_with_no_lock_def s2_def s1_def)
      qed (use p' Inl bad in simp)
    next
      case (Inr full_opt)
      show ?thesis
      proof (cases full_opt)
        case (Some full)
        show ?thesis
        proof (cases "final_output t ops full (rows_scanned s2) (explains s2)")
          case out: (Inr out)
          have "answer_of t ops out"
            using tracked_answer [OF tr1 _ _ out] 4(3) Inr Some by (simp add: go_def)
          moreover have "s' = s2\<lparr>sender := shared_send (Inr out) (sender s2), completed := True\<rparr>"
            using p' Inr Some out by simp
          ultimately show ?thesis
            using 4 by (intro inv_completed [OF inv k ne, where m = "Inr out"]) (auto simp: s2_def s1_def)
        qed (use p' Inr Some bad in simp)
      qed (use p' Inr bad in simp)
    qed
  qed
qed

lemma inv_worker_step:
  assumes inv: "task_inv t ops s ws" and k: "k < length ws" "\<not> ended (ws ! k)" and unit: "unit_batches t ops"
    and step: "worker_step t ops s (ws ! k) = (s', w')"
  shows "task_inv t ops s' (ws[k := w'])"
proof (cases "w_phase (ws ! k)")
  case Claim
  have s': "s' = s\<lparr>batch_index := batch_index s + 1\<rparr>"
    "w' = (ws ! k)\<lparr>w_phase := if batch_index s < length (qt_partitions t) then Process (batch_index s) else Finish\<rparr>"
    using Claim step by (auto simp: worker_step_def next_partition_def split: if_splits)
  show ?thesis
  proof (rule inv_quiet [OF inv k])
    assume "tracked t ops s ws"
    then have "tracked t ops s' (ws[k := w'])" using tracked_claim [OF _ k(1) Claim step] by blast
    then show "tracked t ops s' (ws[k := w']) \<and> worker_ok t s' w' \<and>
        (completed_batches s' = length (qt_partitions t) \<longrightarrow> completed_batches s = length (qt_partitions t))"
      using s' by (auto simp: worker_ok_def)
  qed (simp_all add: s')
next
  case (Process i)
  have s': "s' = s" "w' = process t ops i (ws ! k)" using Process step by (auto simp: worker_step_def)
  show ?thesis unfolding s'(1)
  proof (rule inv_quiet [OF inv k])
    assume tr: "tracked t ops s ws"
    then have "tracked t ops s (ws[k := w'])"
      using tracked_local [OF tr k(1), of w'] process_holds(1) [OF _ Process s'(2)] by blast
    moreover obtain M where "holds t ops (ws ! k) M"
      using tr k(1) by (auto simp: tracked_def dest: list_all2_nthD)
    then have "\<not> lossy (w_phase w') \<Longrightarrow> w_phase w' = Check \<and> w_batch_results w' \<noteq> []"
      using process_holds(2) [OF _ Process s'(2)] by blast
    then have "worker_ok t s w'" by (cases "w_phase w'") (auto simp: worker_ok_def)
    ultimately show "tracked t ops s (ws[k := w']) \<and> worker_ok t s w' \<and>
        (completed_batches s = length (qt_partitions t) \<longrightarrow> completed_batches s = length (qt_partitions t))" by simp
  qed simp_all
next
  case Check
  have s': "s' = s" "w' = (ws ! k)\<lparr>w_phase := if completed s then Done
      else if sufficient_rows t (w_rows_collected (ws ! k)) then Finish else Claim\<rparr>"
    using Check step by (auto simp: worker_step_def)
  show ?thesis unfolding s'(1)
  proof (rule inv_quiet [OF inv k])
    assume "\<not> completed s" and tr: "tracked t ops s ws" and ok: "worker_ok t s (ws ! k)"
    then have w': "w_phase w' = (if sufficient_rows t (w_rows_collected (ws ! k)) then Finish else Claim)"
      "w_batch_results w' = w_batch_results (ws ! k)" "w_rows_collected w' = w_rows_collected (ws ! k)"
      using s'(2) by auto
    then have "holds t ops w' M" if "holds t ops (ws ! k) M" for M using that Check by (auto simp: holds_def)
    then have "tracked t ops s (ws[k := w'])"
      using tracked_local [OF tr k(1), of w'] w'(1) Check by auto
    then show "tracked t ops s (ws[k := w']) \<and> worker_ok t s w' \<and>
        (completed_batches s = length (qt_partitions t) \<longrightarrow> completed_batches s = length (qt_partitions t))"
      using ok Check w' by (auto simp: worker_ok_def)
  qed simp_all
next
  case Finish
  obtain p where p: "finish t ops (ws ! k) s = (s', p)" "w' = (ws ! k)\<lparr>w_phase := p, w_batch_results := []\<rparr>"
    using Finish step by (auto simp: worker_step_def split: prod.splits)
  show ?thesis
  proof (cases "combine_results (agg_op ops) (combined_limit t) (rev (w_batch_results (ws ! k)))")
    case (Inl f)
    show ?thesis
    proof (cases f)
      case (Fail error)
      then show ?thesis using inv_fail_with [OF inv k, of error s' p w'] p Inl by (simp add: finish_def)
    next
      case Panicked
      then have s': "s' = s" "w_phase w' = Crashed" "w_batch_results w' = []" using p Inl by (auto simp: finish_def)
      show ?thesis unfolding s'(1)
      proof (rule inv_quiet [OF inv k])
        assume tr: "tracked t ops s ws"
        have "holds t ops w' {#}" using s' by (simp add: holds_def)
        then have "tracked t ops s (ws[k := w'])"
          using s'(2) by (intro tracked_local [OF tr k(1)] exI [of _ "{#}"]) simp
        then show "tracked t ops s (ws[k := w']) \<and> worker_ok t s w' \<and>
            (completed_batches s = length (qt_partitions t) \<longrightarrow> completed_batches s = length (qt_partitions t))"
          using s'(2) by (simp add: worker_ok_def)
      qed simp_all
    qed
  next
    case (Inr r)
    show ?thesis
    proof (cases r)
      case (Some result)
      then have "push_result t ops result (ws ! k) s = (s', p)" using p(1) Inr by (simp add: finish_def)
      then show ?thesis using inv_push_result [OF inv k(1) unit Finish, of result s' p w'] Inr Some p(2) by simp
    next
      case None
      then have s': "s' = s" "p = Done" using p(1) Inr by (auto simp: finish_def)
      show ?thesis unfolding s'(1)
      proof (rule inv_quiet [OF inv k])
        assume tr: "tracked t ops s ws" and ok: "worker_ok t s (ws ! k)"
        obtain M where "holds t ops (ws ! k) M" using tr k(1) by (auto simp: tracked_def dest: list_all2_nthD)
        then obtain Ms where "list_all2 (combined t ops) (rev (w_batch_results (ws ! k))) (rev Ms)"
          by (auto simp: holds_def)
        from combine_results_combined [OF Inr this] None have e: "w_batch_results (ws ! k) = []" by simp
        have "holds t ops w' M" if "holds t ops (ws ! k) M" for M
          using that Finish e p(2) s'(2) by (auto simp: holds_def)
        then have "tracked t ops s (ws[k := w'])"
          using tracked_local [OF tr k(1), of w'] p(2) s'(2) Finish by auto
        then show "tracked t ops s (ws[k := w']) \<and> worker_ok t s w' \<and>
            (completed_batches s = length (qt_partitions t) \<longrightarrow> completed_batches s = length (qt_partitions t))"
          using ok Finish e p(2) s'(2) by (simp add: worker_ok_def)
      qed simp_all
    qed
  qed
next
  case (Failed error)
  then show ?thesis
    using step inv_fail_with [OF inv k, of error s' _ w'] by (auto simp: worker_step_def split: prod.splits)
qed (use k in \<open>auto simp: ended_def\<close>)

lemma inv_reachable:
  assumes "task_reachable t ops s ws" and unit: "unit_batches t ops"
  shows "task_inv t ops s ws"
  using assms(1)
proof (induction rule: rtranclp_induct2)
  case refl
  have "tracked t ops state_init []"
    unfolding tracked_def by (intro exI [of _ "[]"]) (simp add: state_init_def claimed_def)
  then show ?case by (simp add: task_inv_def state_init_def shared_sender_new_def sender_ok_def)
next
  case (step s ws s' ws')
  from step(2) show ?case
  proof (cases rule: task_step.cases)
    case Start
    with step(3) tracked_start [of t ops s ws] show ?thesis
      by (auto simp: task_inv_def task_completed_def worker_ok_def worker_init_def)
  next
    case (Step k w')
    with step(3) inv_worker_step [OF step(3) _ _ unit] show ?thesis by simp
  qed
qed

text \<open>Every step of a thread decreases a measure.\<close>

fun phase_rank :: "phase \<Rightarrow> nat" where
  "phase_rank (Process _) = 5"
| "phase_rank Check = 4"
| "phase_rank Claim = 3"
| "phase_rank Finish = 2"
| "phase_rank (Failed _) = 1"
| "phase_rank _ = 0"

definition task_measure :: "QueryTask \<Rightarrow> 'v QueryState \<Rightarrow> 'v worker list \<Rightarrow> nat" where
  "task_measure t s ws = 3 * (length (qt_partitions t) - batch_index s) + sum_list (map (phase_rank \<circ> w_phase) ws)"

lemma finish_ends: "finish t ops w s = (s', p) \<Longrightarrow> phase_rank p = 0 \<and> batch_index s' \<ge> min (batch_index s) (length (qt_partitions t))"
  by (auto simp: finish_def push_result_def fail_with_def fail_with_no_lock_def Let_def
      split: sum.splits failure.splits option.splits if_splits)

lemma fail_with_ends: "fail_with t error s = (s', p) \<Longrightarrow> phase_rank p = 0 \<and> batch_index s' \<ge> min (batch_index s) (length (qt_partitions t))"
  by (auto simp: fail_with_def fail_with_no_lock_def split: if_splits)

lemma process_rank: "phase_rank (w_phase (process t ops i w)) \<le> 4"
  by (auto simp: process_def Let_def split: sum.splits failure.splits prod.splits)

lemma worker_step_decreases:
  assumes "worker_step t ops s w = (s', w')" and "\<not> ended w"
  shows "3 * (length (qt_partitions t) - batch_index s') + phase_rank (w_phase w') <
    3 * (length (qt_partitions t) - batch_index s) + phase_rank (w_phase w)"
proof (cases "w_phase w")
  case Claim
  then show ?thesis
    using assms(1) by (auto simp: worker_step_def next_partition_def split: if_splits)
next
  case (Process i)
  then show ?thesis using assms(1) process_rank [of t ops i w] by (auto simp: worker_step_def)
next
  case Finish
  then show ?thesis using assms(1) finish_ends [of t ops w s] by (auto simp: worker_step_def split: prod.splits)
next
  case (Failed error)
  then show ?thesis using assms(1) fail_with_ends [of t error s] by (auto simp: worker_step_def split: prod.splits)
qed (use assms in \<open>auto simp: worker_step_def ended_def split: if_splits\<close>)

lemma sum_list_update_nat:
  "k < length xs \<Longrightarrow> sum_list (xs[k := (x::nat)]) + xs ! k = sum_list xs + x"
  by (induction xs arbitrary: k) (auto split: nat.splits)

lemma task_measure_decreases:
  assumes "k < length ws" and "\<not> ended (ws ! k)" and "worker_step t ops s (ws ! k) = (s', w')"
  shows "task_measure t s' (ws[k := w']) < task_measure t s ws"
  using worker_step_decreases [OF assms(3,2)] assms(1)
    sum_list_update_nat [of k "map (phase_rank \<circ> w_phase) ws" "phase_rank (w_phase w')"]
  by (simp add: task_measure_def map_update)

section \<open>Rows of the output\<close>

definition output_rows :: "'v BatchResult \<Rightarrow> 'v list list" where
  "output_rows full = map (projected (br_columns full) (br_projection full @ map fst (br_aggregations full))) [0..<batch_len full]"

lemma output_row_ok:
  assumes "batch_ok full" and "i < batch_len full"
  shows "output_row full i = Inr (projected (br_columns full) (br_projection full @ map fst (br_aggregations full)) i)"
  unfolding output_row_def projected_def
proof (rule rmapM_Inr_map)
  fix j
  assume "j \<in> set (br_projection full @ map fst (br_aggregations full))"
  then have "j < length (br_columns full)" using assms(1) by (auto simp: batch_ok_def)
  then show "rbind (index (br_columns full) j) (\<lambda>c. index c i) = Inr (br_columns full ! j ! i)"
    using assms by (simp add: index_def batch_column_length)
qed

lemma output_row_beyond:
  assumes "batch_ok full" and "batch_len full \<le> i" and "br_projection full \<noteq> []"
  shows "output_row full i = Inl Panicked"
proof -
  obtain j js where j: "br_projection full = j # js" using assms(3) by (cases "br_projection full") auto
  then have "j < length (br_columns full)" using assms(1) by (simp add: batch_ok_def)
  then show ?thesis using assms j by (simp add: output_row_def index_def batch_column_length)
qed

definition output_limit :: "QueryTask \<Rightarrow> LimitClause" where
  "output_limit t = (case qt_final_pass t of Some f \<Rightarrow> nf_limit f | None \<Rightarrow> nf_limit (qt_main_phase t))"

lemma convert_ok:
  assumes "batch_ok full" and "lc_offset (output_limit t) \<le> batch_len full" and "batch_len full < 2 ^ 64"
  shows "convert_to_output_format t full scanned plans = Inr \<lparr>qo_colnames = qt_output_colnames t,
    qo_rows = take (lc_limit (output_limit t)) (drop (lc_offset (output_limit t)) (output_rows full)),
    qo_query_plans = plan_counts plans, qo_rows_scanned = scanned\<rparr>"
proof -
  let ?o = "lc_offset (output_limit t)" and ?l = "lc_limit (output_limit t)"
  let ?row = "projected (br_columns full) (br_projection full @ map fst (br_aggregations full))"
  have "min ?l (batch_len full - ?o) + ?o < 2 ^ 64" using assms(2,3) by linarith
  then have n: "usize_add (min ?l (usize_sub (batch_len full) ?o)) ?o = min ?l (batch_len full - ?o) + ?o"
    using assms(2) by (simp add: usize_add_def usize_sub_def)
  have "rmapM (output_row full) [?o..<min ?l (batch_len full - ?o) + ?o] = Inr (map ?row [?o..<min ?l (batch_len full - ?o) + ?o])"
    using assms(1,2) by (intro rmapM_Inr_map output_row_ok) auto
  moreover have "map ?row [?o..<min ?l (batch_len full - ?o) + ?o] = take ?l (drop ?o (output_rows full))"
    unfolding output_rows_def drop_map take_map using assms(2) by (simp add: drop_upt take_upt min_def add.commute)
  ultimately show ?thesis
    unfolding convert_to_output_format_def output_limit_def [symmetric] Let_def n by simp
qed

lemma convert_beyond:
  assumes "batch_ok full" and "batch_len full < lc_offset (output_limit t)" and "0 < lc_limit (output_limit t)"
    and "lc_limit (output_limit t) + lc_offset (output_limit t) < 2 ^ 64" and "br_projection full \<noteq> []"
  shows "convert_to_output_format t full scanned plans = Inl Panicked"
proof -
  let ?o = "lc_offset (output_limit t)" and ?l = "lc_limit (output_limit t)"
  have "min ?l (usize_sub (batch_len full) ?o) = ?l" using assms(2,4) by (simp add: usize_sub_def)
  then have n: "usize_add (min ?l (usize_sub (batch_len full) ?o)) ?o = ?l + ?o" using assms(4) by (simp add: usize_add_def)
  have "[?o..<?l + ?o] = ?o # [Suc ?o..<?l + ?o]" using assms(3) by (simp add: upt_conv_Cons)
  then have "rmapM (output_row full) [?o..<?l + ?o] = Inl Panicked"
    using output_row_beyond [OF assms(1) _ assms(5), of ?o] assms(2) by simp
  then show ?thesis unfolding convert_to_output_format_def output_limit_def [symmetric] Let_def n by simp
qed

section \<open>Main results\<close>

text \<open>
  One thread on its own, and a task over two partitions: \<open>SELECT a ORDER BY a LIMIT 2 OFFSET 1\<close>.
\<close>

fun solo :: "QueryTask \<Rightarrow> 'v::linorder task_ops \<Rightarrow> nat \<Rightarrow> 'v QueryState \<times> 'v worker" where
  "solo t ops 0 = (state_init, worker_init)"
| "solo t ops (Suc n) =
     (let (s, w) = solo t ops n in if w_phase w = Done \<or> w_phase w = Crashed then (s, w) else worker_step t ops s w)"

lemma solo_reachable:
  assumes "qt_partitions t \<noteq> []"
  shows "task_reachable t ops (fst (solo t ops n)) [snd (solo t ops n)]"
proof (induction n)
  case 0
  have "task_step t ops (state_init, []) (state_init, [] @ [worker_init])"
    using assms by (intro Start) (simp add: task_completed_def state_init_def)
  then show ?case by simp
next
  case (Suc n)
  obtain s w where sw: "solo t ops n = (s, w)" by fastforce
  show ?case
  proof (cases "ended w")
    case True
    with Suc sw show ?thesis by (simp add: ended_def)
  next
    case False
    obtain s' w' where st: "worker_step t ops s w = (s', w')" by fastforce
    have "task_step t ops (s, [w]) (s', [w][0 := w'])" using False st by (intro Step) simp_all
    then have "task_step t ops (s, [w]) (s', [w'])" by simp
    moreover have "solo t ops (Suc n) = (s', w')" using sw st False by (simp add: ended_def)
    ultimately show ?thesis using Suc sw by (simp add: rtranclp.rtrancl_into_rtrancl)
  qed
qed

definition order_batch :: "int list \<Rightarrow> int BatchResult" where
  "order_batch vs = \<lparr>br_columns = [vs], br_projection = [0], br_aggregations = [], br_order_by = [(0, False)],
     br_level = 0, br_batch_count = 1, br_show = False\<rparr>"

definition order_task :: QueryTask where
  "order_task = \<lparr>qt_main_phase = \<lparr>nf_projection = [\<lparr>ci_expr = ColName ''a'', ci_name = Some ''a''\<rparr>],
       nf_filter = Const (RawInt 1), nf_aggregate = [], nf_order_by = [(ColName ''a'', False)],
       nf_limit = \<lparr>lc_limit = 2, lc_offset = 1\<rparr>\<rparr>,
     qt_final_pass = None, qt_partitions = [partition_nonresident 0 2 [], partition_nonresident 1 1 []],
     qt_referenced_cols = {''a''}, qt_output_colnames = [''a'']\<rparr>"

definition order_ops :: "int task_ops" where
  "order_ops = \<lparr>run_phase = (\<lambda>q i. Inr (order_batch (if i = 0 then [1, 4] else [2]), None)),
     run_aggregate_phase = (\<lambda>q i. Inl Panicked), run_final = (\<lambda>q cols. Inl Panicked),
     cols_len = (\<lambda>i. if i = 0 then 2 else 1), agg_op = combine_i64\<rparr>"

lemma order_ops_unit: "unit_batches order_task order_ops"
  by (auto simp: unit_batches_def run_batch_def order_task_def order_ops_def order_batch_def)

definition order_fuel :: nat where "order_fuel = Suc (Suc (Suc (Suc (Suc (Suc (Suc (Suc 0)))))))"

definition order_end :: "int QueryState \<times> int worker" where
  "order_end = solo order_task order_ops order_fuel"

lemma order_limits: "combined_limit order_task = 3" "length (qt_partitions order_task) = 2" "\<not> sufficient_rows order_task n"
  "nf_aggregate (qt_main_phase order_task) = []" "qt_final_pass order_task = None" "qt_output_colnames order_task = [''a'']"
  "output_limit order_task = \<lparr>lc_limit = 2, lc_offset = 1\<rparr>"
  by (simp_all add: order_task_def combined_limit_def usize_add_def sufficient_rows_def output_limit_def)

lemma order_combine:
  "combine combine_i64 (order_batch [1, 4]) (order_batch [2]) 3 =
   Inr ((order_batch [1, 2, 4])\<lparr>br_level := 1, br_batch_count := 2\<rparr>)"
  by code_simp

lemma order_batch_simps: "br_level (order_batch vs) = 0" "br_batch_count (order_batch vs) = 1" "batch_len (order_batch vs) = length vs"
  by (simp_all add: order_batch_def batch_len_def)

lemma order_output:
  "final_output order_task order_ops ((order_batch [1, 2, 4])\<lparr>br_level := 1, br_batch_count := 2\<rparr>) scanned plans =
   Inr \<lparr>qo_colnames = [''a''], qo_rows = [[2], [4]], qo_query_plans = plan_counts plans, qo_rows_scanned = scanned\<rparr>"
  (is "final_output _ _ ?full _ _ = _")
proof -
  have "batch_ok ?full" "batch_len ?full = 3" "output_rows ?full = [[1], [2], [4]]"
    by (simp_all add: batch_ok_def order_batch_def batch_len_def output_rows_def projected_def)
  then show ?thesis using convert_ok [of ?full order_task scanned plans] by (simp add: final_output_def order_limits)
qed

lemma order_reachable: "task_reachable order_task order_ops (fst order_end) [snd order_end]"
  unfolding order_end_def by (rule solo_reachable) (simp add: order_task_def)

lemma order_solo:
  "w_phase (snd order_end) = Done \<and> map (map_sum (\<lambda>e. e) qo_rows) (ss_sent (sender (fst order_end))) = [Inr [[2], [4]]]"
  by (simp add: order_end_def order_fuel_def Let_def worker_step_def next_partition_def process_def finish_def push_result_def
      combine_results_def order_limits run_batch_def order_ops_def [THEN arg_cong [where f = run_phase]]
      order_ops_def [THEN arg_cong [where f = agg_op]] state_init_def worker_init_def order_combine order_batch_simps
      order_output [simplified]
      shared_send_def shared_sender_new_def)

text \<open>What the threads that run a task do, without threads that join them.\<close>

definition thread_step ::
    "QueryTask \<Rightarrow> 'v::linorder task_ops \<Rightarrow> 'v QueryState \<times> 'v worker list \<Rightarrow> 'v QueryState \<times> 'v worker list \<Rightarrow> bool" where
  "thread_step t ops c c' \<longleftrightarrow> (\<exists>k w' s'. k < length (snd c) \<and> \<not> ended (snd c ! k) \<and>
     worker_step t ops (fst c) (snd c ! k) = (s', w') \<and> c' = (s', (snd c)[k := w']))"

text \<open>
  C15. For every number of threads and every interleaving of their steps, a query is answered at most
  once, and an answer that is not an error is made of the result of every partition, each of them
  exactly once, combined in some order. The one exception are queries that neither sort nor aggregate:
  there the results may be of some of the partitions, if these have more rows than the limit.
\<close>

theorem query_task_answer:
  fixes t :: QueryTask
  assumes "task_reachable t ops s ws" and "unit_batches t ops"
  shows "length (ss_sent (sender s)) \<le> 1 \<and>
    (\<forall>out. Inr out \<in> set (ss_sent (sender s)) \<longrightarrow>
      (\<exists>full M scanned plans. combined t ops full M \<and> M \<subseteq># mset [0..<length (qt_partitions t)] \<and>
         final_output t ops full scanned plans = Inr out \<and>
         (M = mset [0..<length (qt_partitions t)] \<or>
          nf_aggregate (qt_main_phase t) = [] \<and> nf_order_by (qt_main_phase t) = [] \<and> combined_limit t < rows_of t ops M)))"
proof -
  have inv: "task_inv t ops s ws" using assms by (rule inv_reachable)
  then have one: "ss_sent (sender s) = [] \<or> (\<exists>m. ss_sent (sender s) = [m])"
    by (auto simp: task_inv_def sender_ok_def split: if_splits)
  have "answer_of t ops out" if "Inr out \<in> set (ss_sent (sender s))" for out
    using inv one that by (auto simp: task_inv_def)
  with one show ?thesis by (fastforce simp: answer_of_def sufficient_rows_def)
qed

theorem query_task_answer_witness:
  "\<exists>out full scanned plans. ss_sent (sender (fst order_end)) = [Inr out] \<and> qo_rows out = [[2], [4]] \<and>
    combined order_task order_ops full {#0, 1#} \<and> final_output order_task order_ops full scanned plans = Inr out"
proof -
  obtain out where out: "ss_sent (sender (fst order_end)) = [Inr out]" "qo_rows out = [[2], [4]]"
    using order_solo by (auto simp: map_eq_Cons_conv) (metis map_sum.simps(1,2) old.sum.exhaust sum.inject(2) sum.distinct(1))
  have n: "length (qt_partitions order_task) = 2" "nf_order_by (qt_main_phase order_task) \<noteq> []" by (simp_all add: order_task_def)
  have all: "mset [0..<2] = {#0, 1 :: nat#}" by (simp add: numeral_2_eq_2 del: mset_upt)
  from query_task_answer [OF order_reachable order_ops_unit] out(1) n all obtain full scanned plans where
    "combined order_task order_ops full {#0, 1#}" "final_output order_task order_ops full scanned plans = Inr out"
    by (auto simp del: mset_upt)
  with out show ?thesis by blast
qed

text \<open>
  C7. A query that was started is answered: when all threads that ran it have returned, exactly one
  answer has been sent, be it rows or an error. No interleaving loses the last result or leaves the
  answer to a thread that has already gone.
\<close>

theorem query_task_answered:
  assumes "task_reachable t ops s ws" and "unit_batches t ops" and "ws \<noteq> []" and "\<forall>w \<in> set ws. w_phase w = Done"
  shows "completed s \<and> (\<exists>m. ss_sent (sender s) = [m])"
proof -
  have inv: "task_inv t ops s ws" using assms(1,2) by (rule inv_reachable)
  have "completed s"
  proof (rule ccontr)
    assume nc: "\<not> completed s"
    have np: "\<not> poisoned s" using inv assms(4) by (auto simp: task_inv_def)
    from inv nc np have tr: "tracked t ops s ws" and ok: "\<forall>w \<in> set ws. worker_ok t s w"
      and cb: "completed_batches s = length (qt_partitions t) \<longrightarrow> length (qt_partitions t) = 0"
      and pos: "0 < length (qt_partitions t)" using assms(3) by (auto simp: task_inv_def)
    have d: "length (qt_partitions t) \<le> batch_index s" "\<forall>w \<in> set ws. w_batch_results w = []"
      using ok assms(3,4) by (auto simp: worker_ok_def neq_Nil_conv)
    obtain Ps Ws where P: "list_all2 (holds t ops) ws Ws" "completed_batches s = size (sum_list Ps)"
      "sum_list Ps + sum_list Ws = claimed t s"
    proof -
      have "\<forall>w \<in> set ws. \<not> lossy (w_phase w)" using assms(4) by simp
      with tr show ?thesis using that unfolding tracked_def by (elim exE conjE) simp
    qed
    have "sum_list Ws = {#}"
    proof -
      have "M = {#}" if m: "M \<in> set Ws" for M
      proof -
        obtain j where j: "j < length ws" "M = Ws ! j"
          using m list_all2_lengthD [OF P(1)] by (auto simp: in_set_conv_nth)
        then have "holds t ops (ws ! j) M" using P(1) by (simp add: list_all2_nthD)
        moreover have "w_batch_results (ws ! j) = []" "w_phase (ws ! j) = Done"
          using d(2) assms(4) nth_mem [OF j(1)] by blast+
        ultimately show ?thesis by (simp add: holds_def)
      qed
      then show ?thesis by (induction Ws) auto
    qed
    then have "completed_batches s = length (qt_partitions t)"
      using P(2,3) d(1) by (simp add: claimed_def min_def)
    with cb pos show False by simp
  qed
  with inv show ?thesis by (auto simp: task_inv_def sender_ok_def split: if_splits)
qed

theorem query_task_answered_witness:
  "completed (fst order_end) \<and> (\<exists>m. ss_sent (sender (fst order_end)) = [m])"
proof -
  show ?thesis using query_task_answered [OF order_reachable order_ops_unit] order_solo by simp
qed

text \<open>
  C16. Running a task ends. The steps that a set of threads can take is bounded by three times the
  number of partitions not yet claimed plus five for every thread, whatever the order of the steps,
  and as long as a thread has not returned it has a next step.
\<close>

theorem query_task_terminates:
  assumes "(thread_step t ops ^^ n) (s, ws) (s', ws')"
  shows "n \<le> 3 * (length (qt_partitions t) - batch_index s) + 5 * length ws \<and>
    ((\<exists>w \<in> set ws'. \<not> ended w) \<longleftrightarrow> (\<exists>c. thread_step t ops (s', ws') c))"
proof -
  have "n + task_measure t s' ws' \<le> task_measure t s ws" using assms
  proof (induction n arbitrary: s' ws')
    case (Suc n)
    then obtain s1 ws1 where r: "(thread_step t ops ^^ n) (s, ws) (s1, ws1)" "thread_step t ops (s1, ws1) (s', ws')"
      by (auto elim!: relcomppE)
    have "task_measure t s' ws' < task_measure t s1 ws1"
      using r(2) task_measure_decreases [of _ ws1 t ops s1] by (auto simp: thread_step_def)
    with Suc.IH [OF r(1)] show ?case by linarith
  qed simp
  moreover have "task_measure t s ws \<le> 3 * (length (qt_partitions t) - batch_index s) + 5 * length ws"
  proof -
    have "phase_rank p \<le> 5" for p by (cases p) auto
    then have "sum_list (map (phase_rank \<circ> w_phase) ws) \<le> 5 * length ws"
      by (induction ws) (auto intro: add_mono)
    then show ?thesis by (simp add: task_measure_def)
  qed
  moreover have "(\<exists>w \<in> set ws'. \<not> ended w) \<longleftrightarrow> (\<exists>c. thread_step t ops (s', ws') c)"
  proof
    assume "\<exists>w \<in> set ws'. \<not> ended w"
    then obtain k where k: "k < length ws'" "\<not> ended (ws' ! k)" by (auto simp: in_set_conv_nth)
    obtain s2 w2 where "worker_step t ops s' (ws' ! k) = (s2, w2)" by fastforce
    with k have "thread_step t ops (s', ws') (s2, ws'[k := w2])" unfolding thread_step_def by auto
    then show "\<exists>c. thread_step t ops (s', ws') c" by blast
  qed (auto simp: thread_step_def)
  ultimately show ?thesis by simp
qed

theorem query_task_terminates_witness:
  "1 \<le> 3 * (length (qt_partitions order_task) - batch_index (state_init :: int QueryState)) + 5 * length [worker_init :: int worker] \<and>
   (\<exists>c. thread_step order_task order_ops (state_init, [worker_init]) c)"
proof -
  have "(thread_step order_task order_ops ^^ 1) (state_init, [worker_init])
      (fst (worker_step order_task order_ops state_init worker_init), [snd (worker_step order_task order_ops state_init worker_init)])"
    unfolding relpowp_1 by (simp add: thread_step_def ended_def) (simp add: worker_init_def)
  from query_task_terminates [OF this] have 1: "1 \<le> 3 * (length (qt_partitions order_task) - batch_index (state_init :: int QueryState)) +
      5 * length [worker_init :: int worker]" by blast
  have "\<exists>w \<in> set [worker_init :: int worker]. \<not> ended w" by (simp add: ended_def worker_init_def)
  moreover have "(thread_step order_task order_ops ^^ 0) (state_init, [worker_init]) (state_init, [worker_init])" by simp
  ultimately have "\<exists>c. thread_step order_task order_ops (state_init, [worker_init]) c"
    using query_task_terminates [of 0 order_task order_ops state_init "[worker_init]" state_init "[worker_init]"] by blast
  with 1 show ?thesis by blast
qed

text \<open>
  The output has the rows of the result from the offset on, up to the limit; when the offset is past
  the last row and the limit is positive, counting the rows wraps around and building the output
  panics, so the query gets no answer.
\<close>

theorem output_rows_correct:
  assumes "batch_ok full" and "batch_len full < 2 ^ 64"
  shows "(lc_offset (output_limit t) \<le> batch_len full \<longrightarrow>
      (\<exists>out. convert_to_output_format t full scanned plans = Inr out \<and>
        qo_rows out = take (lc_limit (output_limit t)) (drop (lc_offset (output_limit t)) (output_rows full)) \<and>
        qo_colnames out = qt_output_colnames t)) \<and>
    (batch_len full < lc_offset (output_limit t) \<and> 0 < lc_limit (output_limit t) \<and> br_projection full \<noteq> [] \<and>
      lc_limit (output_limit t) + lc_offset (output_limit t) < 2 ^ 64 \<longrightarrow>
      convert_to_output_format t full scanned plans = Inl Panicked)"
  using convert_ok [OF assms(1) _ assms(2)] convert_beyond [OF assms(1)] by auto

theorem output_rows_correct_witness:
  "(\<exists>out. convert_to_output_format order_task (order_batch [1, 2, 4]) 3 [] = Inr out \<and> qo_rows out = [[2], [4]]) \<and>
   convert_to_output_format order_task (order_batch []) 0 [] = Inl Panicked"
proof -
  have "batch_ok (order_batch vs)" "batch_len (order_batch vs) = length vs" "br_projection (order_batch vs) \<noteq> []" for vs
    by (simp_all add: batch_ok_def order_batch_def batch_len_def)
  moreover have "output_limit order_task = \<lparr>lc_limit = 2, lc_offset = 1\<rparr>" by (simp add: output_limit_def order_task_def)
  moreover have "output_rows (order_batch [1, 2, 4]) = [[1], [2], [4]]"
    by (simp add: output_rows_def order_batch_def batch_len_def projected_def)
  ultimately show ?thesis
    using output_rows_correct [of "order_batch [1, 2, 4]" order_task 3 "[]"]
      output_rows_correct [of "order_batch []" order_task 0 "[]"] by auto
qed

end
