(* ===== verification/Query_Results.thy ===== *)
theory Query_Results
  imports Query_Tasks
begin

text \<open>
  From the results of the partitions to the answer of a sorted query: combining the results in any
  order gives the first rows of one sorted arrangement of the rows of all partitions, because cutting
  every intermediate result at the limit loses no row that belongs to the first ones.
\<close>

section \<open>Sorted arrangements\<close>

text \<open>A preorder in which any two elements are related.\<close>

locale total_preorder =
  fixes le :: "'a \<Rightarrow> 'a \<Rightarrow> bool"
  assumes le_trans: "le x y \<Longrightarrow> le y z \<Longrightarrow> le x z" and le_total: "le x y \<or> le y x"
begin

lemma exists_sorted: "\<exists>ys. mset ys = mset xs \<and> sorted_wrt le ys"
proof (induction xs)
  case (Cons x xs)
  then obtain ys where ys: "mset ys = mset xs" "sorted_wrt le ys" by blast
  let ?zs = "filter (\<lambda>y. \<not> le x y) ys @ x # filter (le x) ys"
  have "mset ?zs = mset (x # xs)" using ys(1) by (simp add: multiset_partition [of "mset xs" "\<lambda>y. le x y", symmetric] ac_simps)
  moreover have "sorted_wrt le ?zs"
    using ys(2) le_total le_trans by (auto simp: sorted_wrt_append sorted_wrt_filter) blast+
  ultimately show ?case by blast
qed simp

text \<open>What is above as many elements as the limit is above the first elements.\<close>

lemma take_le:
  assumes "sorted_wrt le F" and "mset r \<subseteq># mset F" and "L \<le> length r" and "\<forall>z \<in> set r. le z h"
    and "x \<in> set (take L F)"
  shows "le x h"
proof (rule ccontr)
  assume n: "\<not> le x h"
  obtain i where i: "i < L" "i < length F" "x = F ! i" using assms(5) by (auto simp: in_set_conv_nth)
  let ?P = "\<lambda>z. \<not> le x z"
  have "le x z" if "z \<in> set (drop i F)" for z
  proof -
    obtain j where "j < length (drop i F)" "z = drop i F ! j" using \<open>z \<in> set (drop i F)\<close> by (metis in_set_conv_nth)
    then have j: "i + j < length F" "z = F ! (i + j)" by simp_all
    show ?thesis
    proof (cases j)
      case 0
      then show ?thesis using j i le_total [of x x] by simp
    next
      case (Suc m)
      then show ?thesis using sorted_wrt_nth_less [OF assms(1), of i "i + j"] j i by simp
    qed
  qed
  then have "filter ?P (drop i F) = []" by (simp add: filter_empty_conv)
  then have "length (filter ?P F) \<le> i"
    using length_filter_le [of ?P "take i F"] i(2) by (metis append_Nil2 append_take_drop_id filter_append length_take min.absorb4)
  moreover have "\<forall>z \<in> set r. ?P z" using assms(4) n le_trans by blast
  then have "filter_mset ?P (mset r) = mset r" by (simp add: filter_mset_eq_conv)
  then have "mset r \<subseteq># mset (filter ?P F)" using assms(2) by (metis mset_filter multiset_filter_mono)
  then have "length r \<le> length (filter ?P F)" by (metis size_mset size_mset_mono)
  ultimately show False using assms(3) i(1) by simp
qed

text \<open>Merging what was kept of two arrangements is merging the arrangements, up to the limit.\<close>

lemma merge_kept:
  assumes 1: "sorted_wrt le (r1 @ rest1)" "rest1 = [] \<or> L \<le> length r1"
    and 2: "sorted_wrt le (r2 @ rest2)" "rest2 = [] \<or> L \<le> length r2"
    and F: "sorted_wrt le F" "mset F = mset r1 + mset r2"
  shows "\<exists>G. sorted_wrt le G \<and> mset G = mset (r1 @ rest1) + mset (r2 @ rest2) \<and> take L G = take L F"
proof (cases "rest1 = [] \<and> rest2 = []")
  case True
  with F show ?thesis by auto
next
  case False
  obtain H where H: "mset H = mset (drop L F @ rest1 @ rest2)" "sorted_wrt le H" using exists_sorted by blast
  have long: "L \<le> length F"
    using False 1(2) 2(2) arg_cong [OF F(2), of size] by auto
  have cut: "sorted_wrt le (take L F)" "\<forall>x \<in> set (take L F). \<forall>y \<in> set (drop L F). le x y"
    using F(1) append_take_drop_id [of L F] by (metis sorted_wrt_append)+
  have "le x h" if x: "x \<in> set (take L F)" and h: "h \<in> set H" for x h
  proof -
    have "h \<in> set (drop L F) \<or> h \<in> set rest1 \<or> h \<in> set rest2"
      using h mset_eq_setD [OF H(1)] by auto
    then show ?thesis
    proof (elim disjE)
      assume "h \<in> set rest1"
      then show ?thesis
        using take_le [OF F(1), of r1 L h x] x 1 F(2) by (auto simp: sorted_wrt_append)
    next
      assume "h \<in> set rest2"
      then show ?thesis
        using take_le [OF F(1), of r2 L h x] x 2 F(2) by (auto simp: sorted_wrt_append)
    qed (use x cut(2) in blast)
  qed
  then have "sorted_wrt le (take L F @ H)" using cut(1) H(2) by (simp add: sorted_wrt_append)
  moreover have "mset (take L F @ H) = mset (r1 @ rest1) + mset (r2 @ rest2)"
  proof -
    have "mset (take L F) + mset (drop L F) = mset r1 + mset r2" using F(2) by (metis append_take_drop_id mset_append)
    then show ?thesis using H(1) by (simp add: ac_simps)
  qed
  moreover have "take L (take L F @ H) = take L F" using long by simp
  ultimately show ?thesis by blast
qed

end

section \<open>Results of a query with one order-by column\<close>

type_synonym 'v out_row = "'v list \<times> 'v list"

definition key_le :: "bool \<Rightarrow> 'v::linorder out_row \<Rightarrow> 'v out_row \<Rightarrow> bool" where
  "key_le desc x y \<longleftrightarrow> cmp_eq (comparator_of desc) (hd (snd x)) (hd (snd y))"

interpretation row_order: total_preorder "key_le desc" for desc
proof
  fix x y z :: "'v::linorder out_row"
  note c = comparator_comparator_of [of desc]
  show "key_le desc x y \<Longrightarrow> key_le desc y z \<Longrightarrow> key_le desc x z"
    unfolding key_le_def by (rule comparator.cmp_eq_trans [OF c])
  show "key_le desc x y \<or> key_le desc y x"
    unfolding key_le_def by (rule comparator.cmp_eq_total [OF c])
qed

definition sorted_batch :: "bool \<Rightarrow> nat \<Rightarrow> 'v::linorder BatchResult \<Rightarrow> bool" where
  "sorted_batch desc width b \<longleftrightarrow> batch_ok b \<and> br_aggregations b = [] \<and> map snd (br_order_by b) = [desc] \<and>
     length (br_projection b) = width \<and> in_order b"

lemma sorted_batch_keys:
  assumes "map snd (br_order_by b) = [desc]" and "x \<in> set (sorted_rows b)"
  shows "\<exists>k. snd x = [k]"
proof -
  have "length (br_order_by b) = 1" using assms(1) by (metis length_map length_Cons list.size(3) One_nat_def)
  then show ?thesis using assms(2) by (auto simp: sorted_rows_def projected_def length_Suc_conv)
qed

lemma sorted_wrt_cong_on:
  "(\<And>x y. x \<in> set xs \<Longrightarrow> y \<in> set xs \<Longrightarrow> P x y \<longleftrightarrow> Q x y) \<Longrightarrow> sorted_wrt P xs \<longleftrightarrow> sorted_wrt Q xs"
  by (induction xs) auto

lemma sorted_key_le:
  assumes "\<forall>x \<in> set rows. \<exists>k. snd x = [k]"
  shows "sorted_wrt (\<lambda>x y. order_le [desc] (snd x) (snd y)) rows \<longleftrightarrow> sorted_wrt (key_le desc) rows"
proof (rule sorted_wrt_cong_on)
  fix x y
  assume "x \<in> set rows" "y \<in> set rows"
  then obtain k l where "snd x = [k]" "snd y = [l]" using assms by blast
  then show "order_le [desc] (snd x) (snd y) \<longleftrightarrow> key_le desc x y"
    using order_le_one [of desc k l] by (simp add: key_le_def del: order_le.simps)
qed

text \<open>The fields of a combined result besides its rows.\<close>

lemma collect_pass_length: "length (fst (collect_pass data bufs m cols)) = length bufs"
  by (induction bufs arbitrary: m cols) (auto simp: Let_def case_prod_unfold split: option.splits)

lemma combine_sorted_fields:
  assumes "combine_sorted b1 b2 limit = Inr r" and "length (br_projection b1) = length (br_projection b2)"
  shows "br_aggregations r = [] \<and> length (br_projection r) = length (br_projection b1)"
  using assms
  by (auto simp: combine_sorted_def merged_batch_def collect_aliased_def sorted_projection_def collect_pass_length
      Let_def case_prod_unfold)

text \<open>
  The rows of a result that stands for the partitions \<open>M\<close>: all of them in order, or the first
  \<open>combined_limit\<close> ones.
\<close>

definition cut_of :: "nat \<Rightarrow> 'a list \<Rightarrow> 'a list \<Rightarrow> bool" where
  "cut_of L full rows \<longleftrightarrow> (\<exists>rest. full = rows @ rest \<and> (rest = [] \<or> length rows = L))"

lemma cut_of_take: "cut_of L full (take L full)"
  unfolding cut_of_def by (rule exI [of _ "drop L full"]) (auto simp: min_def)

lemma combine_sorted_cut:
  fixes a b :: "'v::linorder BatchResult"
  assumes a: "sorted_batch desc width a" and b: "sorted_batch desc width b" and c: "combine agg a b L = Inr c"
    and fa: "sorted_wrt (key_le desc) fa" "cut_of L fa (sorted_rows a)"
    and fb: "sorted_wrt (key_le desc) fb" "cut_of L fb (sorted_rows b)"
  shows "sorted_batch desc width c \<and> (\<exists>full. mset full = mset fa + mset fb \<and> sorted_wrt (key_le desc) full \<and> cut_of L full (sorted_rows c))"
proof -
  have len: "length (br_order_by a) = 1" "length (br_order_by b) = 1"
    using a b unfolding sorted_batch_def by (metis length_map length_Cons list.size(3) One_nat_def)+
  have "combine agg a b L = combine_sorted a b L" using a b len by (auto simp: combine_def sorted_batch_def)
  then have cs: "combine_sorted a b L = Inr c" using c by simp
  obtain F where F: "batch_ok c" "map snd (br_order_by c) = [desc]" "sorted_rows c = take L F"
    "mset F = mset (sorted_rows a) + mset (sorted_rows b)"
    "sorted_wrt (\<lambda>x y. order_le [desc] (snd x) (snd y)) F"
    using combine_sorted_rows [of a b L] a b cs len by (auto simp: sorted_batch_def sort_supported_def)
  have keys: "\<forall>x \<in> set F. \<exists>k. snd x = [k]"
    using mset_eq_setD [of F "sorted_rows a @ sorted_rows b"] F(4) sorted_batch_keys [of a desc] sorted_batch_keys [of b desc] a b
    by (auto simp: sorted_batch_def)
  then have sF: "sorted_wrt (key_le desc) F" using F(5) sorted_key_le [OF keys] by simp
  obtain ra rb where r: "fa = sorted_rows a @ ra" "ra = [] \<or> L \<le> length (sorted_rows a)"
    "fb = sorted_rows b @ rb" "rb = [] \<or> L \<le> length (sorted_rows b)"
    using fa(2) fb(2) by (auto simp: cut_of_def)
  obtain G where G: "sorted_wrt (key_le desc) G" "mset G = mset fa + mset fb" "take L G = take L F"
    using row_order.merge_kept [of desc "sorted_rows a" ra L "sorted_rows b" rb F] fa(1) fb(1) r sF F(4) by blast
  have "in_order c"
    unfolding in_order_def F(2,3) using F(5) by (rule sorted_wrt_take)
  then have "sorted_batch desc width c"
    using F(1,2) combine_sorted_fields [OF cs] a b by (simp add: sorted_batch_def)
  moreover have "cut_of L G (sorted_rows c)" unfolding F(3) G(3) [symmetric] by (rule cut_of_take)
  ultimately show ?thesis using G by blast
qed

definition sorted_phase :: "QueryTask \<Rightarrow> 'v::linorder task_ops \<Rightarrow> bool \<Rightarrow> nat \<Rightarrow> bool" where
  "sorted_phase t ops desc width \<longleftrightarrow> (\<forall>i b e. run_batch t ops i = Inr (b, e) \<longrightarrow> sorted_batch desc width b \<and> br_batch_count b = 1)"

text \<open>
  A batch may hold only the first rows of its partition: \<open>all\<close> gives the rows of every partition, and
  the batch is a cut of a sorted arrangement of them.
\<close>

definition cut_phase :: "QueryTask \<Rightarrow> 'v::linorder task_ops \<Rightarrow> bool \<Rightarrow> nat \<Rightarrow> (nat \<Rightarrow> 'v out_row multiset) \<Rightarrow> bool" where
  "cut_phase t ops desc width all \<longleftrightarrow> (\<forall>i < length (qt_partitions t). \<forall>b e. run_batch t ops i = Inr (b, e) \<longrightarrow>
     sorted_batch desc width b \<and> (\<forall>x \<in># all i. \<exists>k. snd x = [k]) \<and>
     (\<exists>f. mset f = all i \<and> sorted_wrt (key_le desc) f \<and> cut_of (combined_limit t) f (sorted_rows b)))"

lemma combined_cut_rows:
  assumes "combined t ops b M" and "cut_phase t ops desc width all"
  shows "sorted_batch desc width b \<and> (\<forall>i \<in># M. \<forall>x \<in># all i. \<exists>k. snd x = [k]) \<and>
    (\<exists>full. mset full = (\<Sum>i \<in># M. all i) \<and> sorted_wrt (key_le desc) full \<and>
       cut_of (combined_limit t) full (sorted_rows b))"
  using assms(1)
proof (induction rule: combined.induct)
  case (Leaf i b e)
  then show ?case using assms(2) unfolding cut_phase_def by simp
next
  case (Node a M b N c)
  then obtain fa fb where f: "mset fa = (\<Sum>i \<in># M. all i)" "sorted_wrt (key_le desc) fa"
      "cut_of (combined_limit t) fa (sorted_rows a)"
    "mset fb = (\<Sum>i \<in># N. all i)" "sorted_wrt (key_le desc) fb" "cut_of (combined_limit t) fb (sorted_rows b)"
    by blast
  from combine_sorted_cut [OF conjunct1 [OF Node.IH(1)] conjunct1 [OF Node.IH(2)] Node.hyps(3) f(2,3,5,6)] f(1,4) Node.IH
  show ?case by auto
qed

definition batch_rows :: "QueryTask \<Rightarrow> 'v::linorder task_ops \<Rightarrow> nat \<Rightarrow> 'v out_row multiset" where
  "batch_rows t ops i = (case run_batch t ops i of Inr (b, _) \<Rightarrow> mset (sorted_rows b) | Inl _ \<Rightarrow> {#})"

definition partition_rows :: "QueryTask \<Rightarrow> 'v::linorder task_ops \<Rightarrow> nat multiset \<Rightarrow> 'v out_row multiset" where
  "partition_rows t ops M = (\<Sum>i \<in># M. batch_rows t ops i)"

lemma sorted_phase_cut: "sorted_phase t ops desc width \<Longrightarrow> cut_phase t ops desc width (batch_rows t ops)"
  unfolding cut_phase_def
proof (intro allI impI)
  fix i b e assume phase: "sorted_phase t ops desc width" and run: "run_batch t ops i = Inr (b, e)"
  then have b: "sorted_batch desc width b" by (auto simp: sorted_phase_def)
  then have d: "map snd (br_order_by b) = [desc]" by (simp add: sorted_batch_def)
  then have keys: "\<forall>x \<in> set (sorted_rows b). \<exists>k. snd x = [k]" by (intro ballI sorted_batch_keys)
  then have "sorted_wrt (key_le desc) (sorted_rows b)"
    using b d sorted_key_le [of "sorted_rows b" desc] by (simp add: sorted_batch_def in_order_def del: order_le.simps)
  moreover have "cut_of (combined_limit t) (sorted_rows b) (sorted_rows b)" by (simp add: cut_of_def)
  ultimately show "sorted_batch desc width b \<and> (\<forall>x \<in># batch_rows t ops i. \<exists>k. snd x = [k]) \<and>
     (\<exists>f. mset f = batch_rows t ops i \<and> sorted_wrt (key_le desc) f \<and> cut_of (combined_limit t) f (sorted_rows b))"
    using b keys run by (auto simp: batch_rows_def)
qed

lemma sorted_batch_output: "sorted_batch desc width b \<Longrightarrow> output_rows b = map fst (sorted_rows b) \<and> batch_len b = length (sorted_rows b)"
  by (simp add: sorted_batch_def output_rows_def sorted_rows_def)

lemma cut_of_window:
  assumes "cut_of (l + n) full rows"
  shows "take l (drop n full) = take l (drop n rows)"
  using assms by (auto simp: cut_of_def)

lemma convert_window:
  assumes b: "sorted_batch desc width b" and "0 < width" and cut: "cut_of (lc_limit lo + lc_offset lo) full (sorted_rows b)"
    and lo: "output_limit t = lo" "lc_limit lo + lc_offset lo < 2 ^ 64" and "length (sorted_rows b) < 2 ^ 64"
    and out: "convert_to_output_format t b scanned plans = Inr out"
  shows "qo_rows out = map fst (take (lc_limit lo) (drop (lc_offset lo) full))"
proof -
  have ok: "batch_ok b" "br_projection b \<noteq> []" using b assms(2) by (auto simp: sorted_batch_def)
  note rows = sorted_batch_output [OF b]
  show ?thesis
  proof (cases "lc_offset lo \<le> batch_len b")
    case True
    then have "qo_rows out = take (lc_limit lo) (drop (lc_offset lo) (output_rows b))"
      using out convert_ok [OF ok(1), of t] lo(1) assms(6) rows by auto
    then show ?thesis using rows cut_of_window [OF cut] by (simp add: take_map drop_map)
  next
    case False
    then have "lc_limit lo = 0" using out convert_beyond [OF ok(1), of t scanned plans] ok(2) lo by fastforce
    then show ?thesis
      using out lo unfolding convert_to_output_format_def output_limit_def [symmetric] Let_def
      by (auto simp: usize_add_def)
  qed
qed

lemma answer_window:
  fixes ops :: "'v::linorder task_ops"
  assumes "task_reachable t ops s ws" and unit: "unit_batches t ops" and phase: "cut_phase t ops desc width all" and "0 < width"
    and "qt_final_pass t = None" and "nf_order_by (qt_main_phase t) \<noteq> []"
    and "lc_limit (nf_limit (qt_main_phase t)) + lc_offset (nf_limit (qt_main_phase t)) < 2 ^ 64"
    and "size (\<Sum>i \<in># mset [0..<length (qt_partitions t)]. all i) < 2 ^ 64"
    and "Inr out \<in> set (ss_sent (sender s))"
  shows "\<exists>full. mset full = (\<Sum>i \<in># mset [0..<length (qt_partitions t)]. all i) \<and>
    sorted_wrt (\<lambda>x y. order_le [desc] (snd x) (snd y)) full \<and>
    qo_rows out = map fst (take (lc_limit (nf_limit (qt_main_phase t))) (drop (lc_offset (nf_limit (qt_main_phase t))) full))"
proof -
  let ?lo = "nf_limit (qt_main_phase t)" and ?all = "mset [0..<length (qt_partitions t)]"
  have "answer_of t ops out"
    using inv_reachable [OF assms(1) unit] assms(9) by (auto simp: task_inv_def sender_ok_def split: if_splits)
  then obtain b scanned plans where b: "combined t ops b ?all" "final_output t ops b scanned plans = Inr out"
    using assms(6) by (auto simp: answer_of_def sufficient_rows_def)
  have cl: "combined_limit t = lc_limit ?lo + lc_offset ?lo" using assms(7) by (simp add: combined_limit_def usize_add_def)
  obtain full where full: "mset full = (\<Sum>i \<in># ?all. all i)" "sorted_wrt (key_le desc) full"
    "cut_of (lc_limit ?lo + lc_offset ?lo) full (sorted_rows b)" and sb: "sorted_batch desc width b"
    and keys: "\<forall>i \<in># ?all. \<forall>x \<in># all i. \<exists>k. snd x = [k]"
    using combined_cut_rows [OF b(1) phase] unfolding cl by blast
  have "\<exists>k. snd x = [k]" if "x \<in> set full" for x
  proof -
    have "x \<in># (\<Sum>i \<in># ?all. all i)" using that full(1) by (metis set_mset_mset)
    then show ?thesis using keys by (auto simp: in_Union_mset_iff)
  qed
  then have "sorted_wrt (\<lambda>x y. order_le [desc] (snd x) (snd y)) full" using sorted_key_le full(2) by blast
  moreover have "length (sorted_rows b) \<le> length full" using full(3) by (auto simp: cut_of_def)
  then have "length (sorted_rows b) < 2 ^ 64" using assms(8) full(1) by (metis order.strict_trans1 size_mset)
  then have "qo_rows out = map fst (take (lc_limit ?lo) (drop (lc_offset ?lo) full))"
    using convert_window [OF sb assms(4) full(3) _ assms(7), of t scanned plans out] b(2) assms(5)
    by (simp add: final_output_def output_limit_def)
  ultimately show ?thesis using full(1) by blast
qed

section \<open>Main results\<close>

text \<open>
  C5. The answer to a sorted query. Take a query without aggregates that sorts by one column, and a
  main phase that gives a well-formed sorted result for every partition it succeeds on. Then for any
  number of threads and any interleaving of their steps, the rows of an answer are a window, given by
  offset and limit, of one sorted arrangement of the rows of all partitions: cutting intermediate
  results at the limit, combining them in any order and merging by level changes nothing.
\<close>

theorem sorted_query_answer:
  fixes ops :: "'v::linorder task_ops"
  assumes "task_reachable t ops s ws" and phase: "sorted_phase t ops desc width" and "0 < width"
    and "qt_final_pass t = None" and "nf_order_by (qt_main_phase t) \<noteq> []"
    and "lc_limit (nf_limit (qt_main_phase t)) + lc_offset (nf_limit (qt_main_phase t)) < 2 ^ 64"
    and "size (partition_rows t ops (mset [0..<length (qt_partitions t)])) < 2 ^ 64"
    and "Inr out \<in> set (ss_sent (sender s))"
  shows "\<exists>full. mset full = partition_rows t ops (mset [0..<length (qt_partitions t)]) \<and>
    sorted_wrt (\<lambda>x y. order_le [desc] (snd x) (snd y)) full \<and>
    qo_rows out = map fst (take (lc_limit (nf_limit (qt_main_phase t))) (drop (lc_offset (nf_limit (qt_main_phase t))) full))"
proof -
  have "unit_batches t ops" using phase by (auto simp: unit_batches_def sorted_phase_def)
  from answer_window [OF assms(1) this sorted_phase_cut [OF phase] assms(3-6) _ assms(8)] assms(7)
  show ?thesis by (simp add: partition_rows_def)
qed

theorem sorted_query_answer_witness:
  "\<exists>out (full :: int out_row list). ss_sent (sender (fst order_end)) = [Inr out] \<and> qo_rows out = [[2], [4]] \<and>
    mset full = {#([1], [1]), ([4], [4]), ([2], [2])#} \<and> qo_rows out = map fst (take 2 (drop 1 full))"
proof -
  obtain out where out: "ss_sent (sender (fst order_end)) = [Inr out]" "qo_rows out = [[2], [4]]"
    using order_solo by (auto simp: map_eq_Cons_conv) (metis map_sum.simps(1,2) old.sum.exhaust sum.inject(2) sum.distinct(1))
  have rows: "sorted_rows (order_batch vs) = map (\<lambda>v. ([v], [v])) vs" for vs
    by (rule nth_equalityI) (simp_all add: sorted_rows_def order_batch_def batch_len_def projected_def)
  have "sorted_batch False 1 (order_batch vs)" if "sorted vs" for vs
  proof -
    have "sorted_wrt (\<lambda>x y. order_le [False] [x] [y]) vs"
      using that unfolding order_le_one by (simp add: comparator_of_def CmpLessThan_def)
    then show ?thesis
      unfolding sorted_batch_def in_order_def rows sorted_wrt_map
      by (simp add: batch_ok_def order_batch_def batch_len_def del: order_le.simps)
  qed
  then have phase: "sorted_phase order_task order_ops False 1"
    by (auto simp: sorted_phase_def run_batch_def order_ops_def order_limits order_batch_simps)
  have all: "mset [0..<2] = {#0, 1 :: nat#}" by (simp add: numeral_2_eq_2 del: mset_upt)
  have parts: "partition_rows order_task order_ops {#0, 1#} = {#([1], [1]), ([4], [4]), ([2], [2])#}"
    by (simp add: partition_rows_def batch_rows_def run_batch_def order_ops_def order_limits rows)
  have lim: "nf_limit (qt_main_phase order_task) = \<lparr>lc_limit = 2, lc_offset = 1\<rparr>" "nf_order_by (qt_main_phase order_task) \<noteq> []"
    by (simp_all add: order_task_def)
  show ?thesis
    using sorted_query_answer [OF order_reachable phase, of out] out lim(2)
    unfolding lim(1) order_limits all parts by auto
qed

end
