(* ===== verification/Expr_Ops.thy ===== *)
theory Expr_Ops
  imports Columns "HOL-Library.Signed_Division"
begin

text \<open>
  The operators that expressions run on: comparisons (comparison_operators.rs), checked and unchecked
  arithmetic (numeric_operators.rs), the loops over two vectors or a vector and a constant
  (binary_operator.rs), and the functions of vector_operator.rs that pick the instance for the types
  of the operands. The rewriting of operations on nullable buffers (planner.rs,
  \<open>propagate_nullability\<close>) is at the end, as functions of the operand values.
\<close>

section \<open>comparison_operators.rs\<close>

text \<open>
  The element types of \<open>IntegerNoU64\<close>, and the pair of a common type that \<open>Widen\<close> makes of two
  elements.
\<close>

datatype prim = PU8 u8 | PU16 u16 | PU32 u32 | PI64 i64

datatype joined = JU8 u8 u8 | JU16 u16 u16 | JU32 u32 u32 | JI64 i64 i64

fun widen :: "prim \<Rightarrow> prim \<Rightarrow> joined" where
  "widen (PU8 t) (PU8 u) = JU8 t u"
| "widen (PU16 t) (PU16 u) = JU16 t u"
| "widen (PU32 t) (PU32 u) = JU32 t u"
| "widen (PI64 t) (PI64 u) = JI64 t u"
| "widen (PU8 t) (PU16 u) = JU16 (ucast t) u"
| "widen (PU8 t) (PU32 u) = JU32 (ucast t) u"
| "widen (PU8 t) (PI64 u) = JI64 (uint t) u"
| "widen (PU16 t) (PU8 u) = JU16 t (ucast u)"
| "widen (PU16 t) (PU32 u) = JU32 (ucast t) u"
| "widen (PU16 t) (PI64 u) = JI64 (uint t) u"
| "widen (PU32 t) (PU8 u) = JU32 t (ucast u)"
| "widen (PU32 t) (PU16 u) = JU32 t (ucast u)"
| "widen (PU32 t) (PI64 u) = JI64 (uint t) u"
| "widen (PI64 t) (PU8 u) = JI64 t (uint u)"
| "widen (PI64 t) (PU16 u) = JI64 t (uint u)"
| "widen (PI64 t) (PU32 u) = JI64 t (uint u)"

datatype comparison = CmpLT | CmpLTE | CmpEq | CmpNeq

fun cmp_perform :: "comparison \<Rightarrow> 'a::linorder \<Rightarrow> 'a \<Rightarrow> u8" where
  "cmp_perform CmpLT l r = of_bool (l < r)"
| "cmp_perform CmpLTE l r = of_bool (l \<le> r)"
| "cmp_perform CmpEq l r = of_bool (l = r)"
| "cmp_perform CmpNeq l r = of_bool (l \<noteq> r)"

fun joined_perform :: "comparison \<Rightarrow> joined \<Rightarrow> u8" where
  "joined_perform c (JU8 t u) = cmp_perform c t u"
| "joined_perform c (JU16 t u) = cmp_perform c t u"
| "joined_perform c (JU32 t u) = cmp_perform c t u"
| "joined_perform c (JI64 t u) = cmp_perform c t u"

definition prim_perform :: "comparison \<Rightarrow> prim \<Rightarrow> prim \<Rightarrow> u8" where
  "prim_perform c t u = joined_perform c (widen t u)"

section \<open>numeric_operators.rs\<close>

text \<open>\<open>to_i64().unwrap()\<close> never fails for these types.\<close>

fun to_i64 :: "prim \<Rightarrow> i64" where
  "to_i64 (PU8 x) = uint x"
| "to_i64 (PU16 x) = uint x"
| "to_i64 (PU32 x) = uint x"
| "to_i64 (PI64 x) = x"

datatype arith = Addition | Subtraction | Multiplication | Division | ModuloOp

text \<open>Division and remainder of \<open>i64\<close> round towards zero; they panic for a zero divisor and on overflow.\<close>

definition i64_div :: "i64 \<Rightarrow> i64 \<Rightarrow> i64 res" where
  "i64_div l r = (if r = 0 \<or> l = i64_MIN \<and> r = - 1 then Inl Panicked else Inr (l sdiv r))"

definition i64_rem :: "i64 \<Rightarrow> i64 \<Rightarrow> i64 res" where
  "i64_rem l r = (if r = 0 \<or> l = i64_MIN \<and> r = - 1 then Inl Panicked else Inr (l smod r))"

fun perform :: "arith \<Rightarrow> i64 \<Rightarrow> i64 \<Rightarrow> i64 res" where
  "perform Addition l r = Inr (wrap_i64 (l + r))"
| "perform Subtraction l r = Inr (wrap_i64 (l - r))"
| "perform Multiplication l r = Inr (wrap_i64 (l * r))"
| "perform Division l r = i64_div l r"
| "perform ModuloOp l r = i64_rem l r"

fun perform_checked :: "arith \<Rightarrow> i64 \<Rightarrow> i64 \<Rightarrow> (i64 \<times> bool) res" where
  "perform_checked Addition l r = Inr (overflowing_i64 (l + r))"
| "perform_checked Subtraction l r = Inr (overflowing_i64 (l - r))"
| "perform_checked Multiplication l r = Inr (overflowing_i64 (l * r))"
| "perform_checked Division l r =
     (if r = 0 then Inr (1, True) else rmap (\<lambda>q. (q, False)) (i64_div l r))"
| "perform_checked ModuloOp l r =
     (if r = 0 then Inr (1, True) else rmap (\<lambda>q. (q, False)) (i64_rem l r))"

section \<open>binary_operator.rs\<close>

text \<open>
  The loops push one result per pair of elements. \<open>BinaryOperator\<close> pairs two vectors with \<open>zip\<close>,
  \<open>BinaryVSOperator\<close> pairs every element with the constant on the right, \<open>BinarySVOperator\<close> with
  the constant on the left.
\<close>

definition binary_execute :: "('a \<Rightarrow> 'b \<Rightarrow> 'c res) \<Rightarrow> bool \<Rightarrow> 'a list \<Rightarrow> 'b list \<Rightarrow> 'c list \<Rightarrow> 'c list res" where
  "binary_execute f stream lhs rhs output =
     rfoldM (\<lambda>output (l, r). rbind (f l r) (\<lambda>x. Inr (output @ [x]))) (cleared stream output) (zip lhs rhs)"

definition binary_vs_execute :: "('a \<Rightarrow> 'b \<Rightarrow> 'c res) \<Rightarrow> bool \<Rightarrow> 'a list \<Rightarrow> 'b \<Rightarrow> 'c list \<Rightarrow> 'c list res" where
  "binary_vs_execute f stream lhs rhs output =
     rfoldM (\<lambda>output l. rbind (f l rhs) (\<lambda>x. Inr (output @ [x]))) (cleared stream output) lhs"

definition binary_sv_execute :: "('a \<Rightarrow> 'b \<Rightarrow> 'c res) \<Rightarrow> bool \<Rightarrow> 'a \<Rightarrow> 'b list \<Rightarrow> 'c list \<Rightarrow> 'c list res" where
  "binary_sv_execute f stream lhs rhs output =
     rfoldM (\<lambda>output r. rbind (f lhs r) (\<lambda>x. Inr (output @ [x]))) (cleared stream output) rhs"

text \<open>The checked loops carry \<open>any_overflow\<close> and fail at the end, after the last element.\<close>

definition check_step :: "(i64 list \<times> bool) \<Rightarrow> (i64 \<times> bool) res \<Rightarrow> (i64 list \<times> bool) res" where
  "check_step s r =
     rbind r (\<lambda>(result, overflow). Inr (fst s @ [result], snd s \<or> overflow))"

definition overflow_result :: "i64 list \<times> bool \<Rightarrow> i64 list res" where
  "overflow_result s = (if snd s then Inl (Fail Overflow) else Inr (fst s))"

definition checked_binary_execute ::
    "('a \<Rightarrow> 'b \<Rightarrow> (i64 \<times> bool) res) \<Rightarrow> bool \<Rightarrow> 'a list \<Rightarrow> 'b list \<Rightarrow> i64 list \<Rightarrow> i64 list res" where
  "checked_binary_execute f stream lhs rhs output =
     rbind (rfoldM (\<lambda>s (l, r). check_step s (f l r)) (cleared stream output, False) (zip lhs rhs))
       overflow_result"

definition checked_binary_vs_execute ::
    "('a \<Rightarrow> 'b \<Rightarrow> (i64 \<times> bool) res) \<Rightarrow> bool \<Rightarrow> 'a list \<Rightarrow> 'b \<Rightarrow> i64 list \<Rightarrow> i64 list res" where
  "checked_binary_vs_execute f stream lhs rhs output =
     rbind (rfoldM (\<lambda>s l. check_step s (f l rhs)) (cleared stream output, False) lhs) overflow_result"

definition checked_binary_sv_execute ::
    "('a \<Rightarrow> 'b \<Rightarrow> (i64 \<times> bool) res) \<Rightarrow> bool \<Rightarrow> 'a \<Rightarrow> 'b list \<Rightarrow> i64 list \<Rightarrow> i64 list res" where
  "checked_binary_sv_execute f stream lhs rhs output =
     rbind (rfoldM (\<lambda>s r. check_step s (f lhs r)) (cleared stream output, False) rhs) overflow_result"

text \<open>In the nullable loops an overflow counts only where the null map has the row.\<close>

definition nullable_check_step ::
    "u8 list \<Rightarrow> (i64 list \<times> bool) \<Rightarrow> nat \<Rightarrow> (i64 \<times> bool) res \<Rightarrow> (i64 list \<times> bool) res" where
  "nullable_check_step present s i r =
     rbind r (\<lambda>(result, overflow).
       Inr (fst s @ [result], snd s \<or> overflow \<and> bv_is_set present i))"

definition nullable_checked_binary_execute ::
    "('a \<Rightarrow> 'b \<Rightarrow> (i64 \<times> bool) res) \<Rightarrow> bool \<Rightarrow> 'a list \<Rightarrow> 'b list \<Rightarrow> u8 list \<Rightarrow> i64 list \<Rightarrow> i64 list res" where
  "nullable_checked_binary_execute f stream lhs rhs present output =
     rbind (rfoldM (\<lambda>s (i, l, r). nullable_check_step present s i (f l r)) (cleared stream output, False)
              (enumerate 0 (zip lhs rhs))) overflow_result"

definition nullable_checked_binary_vs_execute ::
    "('a \<Rightarrow> 'b \<Rightarrow> (i64 \<times> bool) res) \<Rightarrow> bool \<Rightarrow> 'a list \<Rightarrow> 'b \<Rightarrow> u8 list \<Rightarrow> i64 list \<Rightarrow> i64 list res" where
  "nullable_checked_binary_vs_execute f stream lhs rhs present output =
     rbind (rfoldM (\<lambda>s (i, l). nullable_check_step present s i (f l rhs)) (cleared stream output, False)
              (enumerate 0 lhs)) overflow_result"

definition nullable_checked_binary_sv_execute ::
    "('a \<Rightarrow> 'b \<Rightarrow> (i64 \<times> bool) res) \<Rightarrow> bool \<Rightarrow> 'a \<Rightarrow> 'b list \<Rightarrow> u8 list \<Rightarrow> i64 list \<Rightarrow> i64 list res" where
  "nullable_checked_binary_sv_execute f stream lhs rhs present output =
     rbind (rfoldM (\<lambda>s (i, r). nullable_check_step present s i (f lhs r)) (cleared stream output, False)
              (enumerate 0 rhs)) overflow_result"

section \<open>vector_operator.rs: choosing an operator\<close>

text \<open>An operand with its null map forgotten: a vector or one of the two kinds of constants.\<close>

datatype operand = OVec vec | OScalarI64 i64 | OScalarStr rstr

fun prims :: "vec \<Rightarrow> prim list option" where
  "prims (VU8 x) = Some (map PU8 x)"
| "prims (VU16 x) = Some (map PU16 x)"
| "prims (VU32 x) = Some (map PU32 x)"
| "prims (VI64 x) = Some (map PI64 x)"
| "prims _ = None"

text \<open>\<open>less_than\<close> and \<open>less_than_equals\<close>.\<close>

definition pure2 :: "('a \<Rightarrow> 'b \<Rightarrow> 'c) \<Rightarrow> 'a \<Rightarrow> 'b \<Rightarrow> 'c res" where
  "pure2 f l r = Inr (f l r)"

definition order_operator :: "comparison \<Rightarrow> operand \<Rightarrow> operand \<Rightarrow> u8 list res" where
  "order_operator c lhs rhs =
     (case (lhs, rhs) of
        (OVec (VStr l), OScalarStr r) \<Rightarrow> binary_vs_execute (pure2 (cmp_perform c)) False l r []
      | (OScalarStr l, OVec (VStr r)) \<Rightarrow> binary_sv_execute (pure2 (cmp_perform c)) False l r []
      | (OVec (VStr l), OVec (VStr r)) \<Rightarrow> binary_execute (pure2 (cmp_perform c)) False l r []
      | (OVec l, OScalarI64 r) \<Rightarrow>
          (case prims l of
             Some l \<Rightarrow> binary_vs_execute (pure2 (prim_perform c)) False l (PI64 r) []
           | None \<Rightarrow> unsupported ''comparison'')
      | (OScalarI64 l, OVec r) \<Rightarrow>
          (case prims r of
             Some r \<Rightarrow> binary_sv_execute (pure2 (prim_perform c)) False (PI64 l) r []
           | None \<Rightarrow> unsupported ''comparison'')
      | (OVec l, OVec r) \<Rightarrow>
          (case (prims l, prims r) of
             (Some l, Some r) \<Rightarrow> binary_execute (pure2 (prim_perform c)) False l r []
           | _ \<Rightarrow> unsupported ''comparison'')
      | _ \<Rightarrow> unsupported ''comparison'')"

text \<open>\<open>equals\<close> and \<open>not_equals\<close> exchange the operands when the constant is on the left.\<close>

definition equality_operator :: "comparison \<Rightarrow> operand \<Rightarrow> operand \<Rightarrow> u8 list res" where
  "equality_operator c lhs rhs =
     (case (lhs, rhs) of
        (OVec (VStr l), OScalarStr r) \<Rightarrow> binary_vs_execute (pure2 (cmp_perform c)) False l r []
      | (OScalarStr l, OVec (VStr r)) \<Rightarrow> binary_vs_execute (pure2 (cmp_perform c)) False r l []
      | (OVec (VStr l), OVec (VStr r)) \<Rightarrow> binary_execute (pure2 (cmp_perform c)) False l r []
      | (OVec l, OScalarI64 r) \<Rightarrow>
          (case prims l of
             Some l \<Rightarrow> binary_vs_execute (pure2 (prim_perform c)) False l (PI64 r) []
           | None \<Rightarrow> unsupported ''comparison'')
      | (OScalarI64 l, OVec r) \<Rightarrow>
          (case prims r of
             Some r \<Rightarrow> binary_vs_execute (pure2 (prim_perform c)) False r (PI64 l) []
           | None \<Rightarrow> unsupported ''comparison'')
      | (OVec l, OVec r) \<Rightarrow>
          (case (prims l, prims r) of
             (Some l, Some r) \<Rightarrow> binary_execute (pure2 (prim_perform c)) False l r []
           | _ \<Rightarrow> unsupported ''comparison'')
      | _ \<Rightarrow> unsupported ''comparison'')"

definition less_than :: "operand \<Rightarrow> operand \<Rightarrow> u8 list res" where
  "less_than = order_operator CmpLT"

definition less_than_equals :: "operand \<Rightarrow> operand \<Rightarrow> u8 list res" where
  "less_than_equals = order_operator CmpLTE"

definition equals :: "operand \<Rightarrow> operand \<Rightarrow> u8 list res" where
  "equals = equality_operator CmpEq"

definition not_equals :: "operand \<Rightarrow> operand \<Rightarrow> u8 list res" where
  "not_equals = equality_operator CmpNeq"

text \<open>
  Arithmetic. \<open>vs\<close>, \<open>sv\<close> and \<open>vv\<close> are the three loops; addition and multiplication exchange the
  operands when the constant is on the left, the others use the loop for a constant on the left.
\<close>

definition arith_operator ::
    "(prim list \<Rightarrow> prim \<Rightarrow> 'c res) \<Rightarrow> (prim \<Rightarrow> prim list \<Rightarrow> 'c res) \<Rightarrow> (prim list \<Rightarrow> prim list \<Rightarrow> 'c res) \<Rightarrow>
     operand \<Rightarrow> operand \<Rightarrow> 'c res" where
  "arith_operator vs sv vv lhs rhs =
     (case (lhs, rhs) of
        (OScalarI64 l, OVec r) \<Rightarrow>
          (case prims r of Some r \<Rightarrow> sv (PI64 l) r | None \<Rightarrow> unsupported ''arithmetic'')
      | (OVec l, OScalarI64 r) \<Rightarrow>
          (case prims l of Some l \<Rightarrow> vs l (PI64 r) | None \<Rightarrow> unsupported ''arithmetic'')
      | (OVec l, OVec r) \<Rightarrow>
          (case (prims l, prims r) of
             (Some l, Some r) \<Rightarrow> vv l r | _ \<Rightarrow> unsupported ''arithmetic'')
      | _ \<Rightarrow> unsupported ''arithmetic'')"

definition prim_op :: "(i64 \<Rightarrow> i64 \<Rightarrow> 'c) \<Rightarrow> prim \<Rightarrow> prim \<Rightarrow> 'c" where
  "prim_op f l r = f (to_i64 l) (to_i64 r)"

definition unchecked_commutative :: "arith \<Rightarrow> operand \<Rightarrow> operand \<Rightarrow> i64 list res" where
  "unchecked_commutative a =
     (let f = prim_op (perform a) in
      arith_operator (\<lambda>l r. binary_vs_execute f False l r []) (\<lambda>l r. binary_vs_execute f False r l [])
        (\<lambda>l r. binary_execute f False l r []))"

definition unchecked_ordered :: "arith \<Rightarrow> operand \<Rightarrow> operand \<Rightarrow> i64 list res" where
  "unchecked_ordered a =
     (let f = prim_op (perform a) in
      arith_operator (\<lambda>l r. binary_vs_execute f False l r []) (\<lambda>l r. binary_sv_execute f False l r [])
        (\<lambda>l r. binary_execute f False l r []))"

definition checked_commutative :: "arith \<Rightarrow> operand \<Rightarrow> operand \<Rightarrow> i64 list res" where
  "checked_commutative a =
     (let f = prim_op (perform_checked a) in
      arith_operator (\<lambda>l r. checked_binary_vs_execute f False l r [])
        (\<lambda>l r. checked_binary_vs_execute f False r l [])
        (\<lambda>l r. checked_binary_execute f False l r []))"

definition checked_ordered :: "arith \<Rightarrow> operand \<Rightarrow> operand \<Rightarrow> i64 list res" where
  "checked_ordered a =
     (let f = prim_op (perform_checked a) in
      arith_operator (\<lambda>l r. checked_binary_vs_execute f False l r [])
        (\<lambda>l r. checked_binary_sv_execute f False l r [])
        (\<lambda>l r. checked_binary_execute f False l r []))"

definition nullable_checked_commutative :: "arith \<Rightarrow> u8 list \<Rightarrow> operand \<Rightarrow> operand \<Rightarrow> i64 list res" where
  "nullable_checked_commutative a present =
     (let f = prim_op (perform_checked a) in
      arith_operator (\<lambda>l r. nullable_checked_binary_vs_execute f False l r present [])
        (\<lambda>l r. nullable_checked_binary_vs_execute f False r l present [])
        (\<lambda>l r. nullable_checked_binary_execute f False l r present []))"

definition nullable_checked_ordered :: "arith \<Rightarrow> u8 list \<Rightarrow> operand \<Rightarrow> operand \<Rightarrow> i64 list res" where
  "nullable_checked_ordered a present =
     (let f = prim_op (perform_checked a) in
      arith_operator (\<lambda>l r. nullable_checked_binary_vs_execute f False l r present [])
        (\<lambda>l r. nullable_checked_binary_sv_execute f False l r present [])
        (\<lambda>l r. nullable_checked_binary_execute f False l r present []))"

definition addition :: "operand \<Rightarrow> operand \<Rightarrow> i64 list res" where
  "addition = unchecked_commutative Addition"

definition subtraction :: "operand \<Rightarrow> operand \<Rightarrow> i64 list res" where
  "subtraction = unchecked_ordered Subtraction"

definition division :: "operand \<Rightarrow> operand \<Rightarrow> i64 list res" where
  "division = unchecked_ordered Division"

definition modulo_operator :: "operand \<Rightarrow> operand \<Rightarrow> i64 list res" where
  "modulo_operator = unchecked_ordered ModuloOp"

definition checked_addition :: "operand \<Rightarrow> operand \<Rightarrow> i64 list res" where
  "checked_addition = checked_commutative Addition"

definition checked_subtraction :: "operand \<Rightarrow> operand \<Rightarrow> i64 list res" where
  "checked_subtraction = checked_ordered Subtraction"

definition checked_multiplication :: "operand \<Rightarrow> operand \<Rightarrow> i64 list res" where
  "checked_multiplication = checked_commutative Multiplication"

definition checked_division :: "operand \<Rightarrow> operand \<Rightarrow> i64 list res" where
  "checked_division = checked_ordered Division"

definition checked_modulo :: "operand \<Rightarrow> operand \<Rightarrow> i64 list res" where
  "checked_modulo = checked_ordered ModuloOp"

definition nullable_checked_addition :: "u8 list \<Rightarrow> operand \<Rightarrow> operand \<Rightarrow> i64 list res" where
  "nullable_checked_addition = nullable_checked_commutative Addition"

definition nullable_checked_subtraction :: "u8 list \<Rightarrow> operand \<Rightarrow> operand \<Rightarrow> i64 list res" where
  "nullable_checked_subtraction = nullable_checked_ordered Subtraction"

definition nullable_checked_multiplication :: "u8 list \<Rightarrow> operand \<Rightarrow> operand \<Rightarrow> i64 list res" where
  "nullable_checked_multiplication = nullable_checked_commutative Multiplication"

definition nullable_checked_division :: "u8 list \<Rightarrow> operand \<Rightarrow> operand \<Rightarrow> i64 list res" where
  "nullable_checked_division = nullable_checked_ordered Division"

definition nullable_checked_modulo :: "u8 list \<Rightarrow> operand \<Rightarrow> operand \<Rightarrow> i64 list res" where
  "nullable_checked_modulo = nullable_checked_ordered ModuloOp"

section \<open>planner.rs: operations on nullable buffers\<close>

text \<open>The value of an operation: a buffer, a constant, row numbers, or optional strings.\<close>

datatype "value" =
    VBuf buf | VScalarI64 i64 | VScalarStr rstr | VUSize "nat list" | VOptStr "rstr option list"

fun forget_nullability :: "value \<Rightarrow> operand res" where
  "forget_nullability (VBuf (Plain v)) = Inr (OVec v)"
| "forget_nullability (VBuf (Nulls v _)) = Inr (OVec v)"
| "forget_nullability (VScalarI64 x) = Inr (OScalarI64 x)"
| "forget_nullability (VScalarStr s) = Inr (OScalarStr s)"
| "forget_nullability (VUSize _) = unsupported ''usize operand''"
| "forget_nullability (VOptStr _) = unsupported ''optional string operand''"

fun null_map_of :: "value \<Rightarrow> u8 list option" where
  "null_map_of (VBuf (Nulls _ present)) = Some present"
| "null_map_of _ = None"

text \<open>
  \<open>combine_nulls2\<close>: the null map of the result, \<open>None\<close> when neither operand has one. The map that
  \<open>CombineNullMaps\<close> fills is allocated for \<open>batch_size\<close> rows.
\<close>

definition combine_nulls2 :: "nat \<Rightarrow> value \<Rightarrow> value \<Rightarrow> u8 list option" where
  "combine_nulls2 batch_size lhs rhs =
     (case (null_map_of lhs, null_map_of rhs) of
        (Some l, Some r) \<Rightarrow> Some (combine_null_maps_execute l r (combine_null_maps_init batch_size))
      | (Some l, None) \<Rightarrow> Some l
      | (None, r) \<Rightarrow> r)"

definition combine_nulls :: "nat \<Rightarrow> value \<Rightarrow> value \<Rightarrow> vec \<Rightarrow> buf" where
  "combine_nulls batch_size lhs rhs data =
     (case combine_nulls2 batch_size lhs rhs of
        Some present \<Rightarrow> Nulls data present
      | None \<Rightarrow> Plain data)"

fun comparison_operator :: "comparison \<Rightarrow> operand \<Rightarrow> operand \<Rightarrow> u8 list res" where
  "comparison_operator CmpLT l r = less_than l r"
| "comparison_operator CmpLTE l r = less_than_equals l r"
| "comparison_operator CmpEq l r = equals l r"
| "comparison_operator CmpNeq l r = not_equals l r"

definition run_comparison :: "comparison \<Rightarrow> nat \<Rightarrow> value \<Rightarrow> value \<Rightarrow> value res" where
  "run_comparison c batch_size lhs rhs =
     rbind (forget_nullability lhs) (\<lambda>l. rbind (forget_nullability rhs) (\<lambda>r.
       rmap (\<lambda>x. VBuf (combine_nulls batch_size lhs rhs (VU8 x))) (comparison_operator c l r)))"

fun checked_operator :: "arith \<Rightarrow> operand \<Rightarrow> operand \<Rightarrow> i64 list res" where
  "checked_operator Addition l r = checked_addition l r"
| "checked_operator Subtraction l r = checked_subtraction l r"
| "checked_operator Multiplication l r = checked_multiplication l r"
| "checked_operator Division l r = checked_division l r"
| "checked_operator ModuloOp l r = checked_modulo l r"

fun nullable_checked_operator :: "arith \<Rightarrow> u8 list \<Rightarrow> operand \<Rightarrow> operand \<Rightarrow> i64 list res" where
  "nullable_checked_operator Addition p l r = nullable_checked_addition p l r"
| "nullable_checked_operator Subtraction p l r = nullable_checked_subtraction p l r"
| "nullable_checked_operator Multiplication p l r = nullable_checked_multiplication p l r"
| "nullable_checked_operator Division p l r = nullable_checked_division p l r"
| "nullable_checked_operator ModuloOp p l r = nullable_checked_modulo p l r"

definition run_checked :: "arith \<Rightarrow> nat \<Rightarrow> value \<Rightarrow> value \<Rightarrow> value res" where
  "run_checked a batch_size lhs rhs =
     rbind (forget_nullability lhs) (\<lambda>l. rbind (forget_nullability rhs) (\<lambda>r.
       case combine_nulls2 batch_size lhs rhs of
         Some present \<Rightarrow>
           rmap (\<lambda>x. VBuf (Nulls (VI64 x) present)) (nullable_checked_operator a present l r)
       | None \<Rightarrow> rmap (\<lambda>x. VBuf (Plain (VI64 x))) (checked_operator a l r)))"

fun operand_u8 :: "operand \<Rightarrow> u8 list res" where
  "operand_u8 (OVec (VU8 x)) = Inr x"
| "operand_u8 _ = Inl (Fail (FatalError ''u8''))"

definition run_boolean :: "(u8 list \<Rightarrow> u8 list \<Rightarrow> u8 list) \<Rightarrow> nat \<Rightarrow> value \<Rightarrow> value \<Rightarrow> value res" where
  "run_boolean evaluate batch_size lhs rhs =
     rbind (forget_nullability lhs) (\<lambda>l. rbind (forget_nullability rhs) (\<lambda>r.
     rbind (operand_u8 l) (\<lambda>x. rbind (operand_u8 r) (\<lambda>y.
       Inr (VBuf (combine_nulls batch_size lhs rhs (VU8 (evaluate x y))))))))"

section \<open>Rows of a value\<close>

text \<open>What a row of a value is, independently of widths, encodings and null maps.\<close>

datatype cell = CInt int | CStr rstr | CFloat f64 | CNull

fun vec_len :: "vec \<Rightarrow> nat" where
  "vec_len (VU8 x) = length x"
| "vec_len (VU16 x) = length x"
| "vec_len (VU32 x) = length x"
| "vec_len (VU64 x) = length x"
| "vec_len (VI64 x) = length x"
| "vec_len (VF64 x) = length x"
| "vec_len (VStr x) = length x"
| "vec_len (VNull n) = n"

fun vec_cell :: "vec \<Rightarrow> nat \<Rightarrow> cell" where
  "vec_cell (VU8 x) i = CInt (uint (x ! i))"
| "vec_cell (VU16 x) i = CInt (uint (x ! i))"
| "vec_cell (VU32 x) i = CInt (uint (x ! i))"
| "vec_cell (VU64 x) i = CInt (uint (x ! i))"
| "vec_cell (VI64 x) i = CInt (x ! i)"
| "vec_cell (VF64 x) i = CFloat (x ! i)"
| "vec_cell (VStr x) i = CStr (x ! i)"
| "vec_cell (VNull _) i = CNull"

fun operand_cell :: "operand \<Rightarrow> nat \<Rightarrow> cell" where
  "operand_cell (OVec v) i = vec_cell v i"
| "operand_cell (OScalarI64 x) i = CInt x"
| "operand_cell (OScalarStr s) i = CStr s"

fun value_cell :: "value \<Rightarrow> nat \<Rightarrow> cell" where
  "value_cell (VBuf (Plain v)) i = vec_cell v i"
| "value_cell (VBuf (Nulls v present)) i = (if bv_is_set present i then vec_cell v i else CNull)"
| "value_cell (VScalarI64 x) i = CInt x"
| "value_cell (VScalarStr s) i = CStr s"
| "value_cell (VUSize x) i = CInt (int (x ! i))"
| "value_cell (VOptStr x) i = (case x ! i of Some s \<Rightarrow> CStr s | None \<Rightarrow> CNull)"

text \<open>The three-valued comparison and the checked arithmetic of single rows.\<close>

fun cell_compare :: "comparison \<Rightarrow> cell \<Rightarrow> cell \<Rightarrow> cell" where
  "cell_compare c (CInt l) (CInt r) = CInt (uint (cmp_perform c l r))"
| "cell_compare c (CStr l) (CStr r) = CInt (uint (cmp_perform c l r))"
| "cell_compare c _ _ = CNull"

fun cell_checked :: "arith \<Rightarrow> cell \<Rightarrow> cell \<Rightarrow> cell res" where
  "cell_checked a (CInt l) (CInt r) =
     rbind (perform_checked a l r) (\<lambda>(x, overflow).
       if overflow then Inl (Fail Overflow) else Inr (CInt x))"
| "cell_checked a _ _ = Inr CNull"

fun vec_kind :: "vec \<Rightarrow> BasicType option" where
  "vec_kind (VStr _) = Some BString"
| "vec_kind v = (if prims v = None then None else Some BInteger)"

fun operand_kind :: "operand \<Rightarrow> BasicType option" where
  "operand_kind (OVec v) = vec_kind v"
| "operand_kind (OScalarI64 _) = Some BInteger"
| "operand_kind (OScalarStr _) = Some BString"

fun operand_fits :: "nat \<Rightarrow> operand \<Rightarrow> bool" where
  "operand_fits n (OVec v) = (vec_len v = n)"
| "operand_fits n _ = True"

fun is_OVec :: "operand \<Rightarrow> bool" where
  "is_OVec (OVec _) = True"
| "is_OVec _ = False"

section \<open>Widening compares values\<close>

lemma uint_ucast_up:
  "LENGTH('a::len) \<le> LENGTH('b::len) \<Longrightarrow> uint (ucast (x :: 'a word) :: 'b word) = uint x"
  by (simp add: unsigned_ucast_eq take_bit_int_eq_self_iff uint_lt2p [THEN order_less_le_trans])

lemma cmp_perform_uint: "cmp_perform c (t :: 'a::len word) u = cmp_perform c (uint t) (uint u)"
  by (cases c) (simp_all add: word_less_def word_le_def word_uint_eq_iff)

lemma prim_perform_value: "prim_perform c t u = cmp_perform c (to_i64 t) (to_i64 u)"
  by (cases t; cases u) (simp_all add: prim_perform_def cmp_perform_uint uint_ucast_up)

lemma cmp_perform_sym: "c = CmpEq \<or> c = CmpNeq \<Longrightarrow> cmp_perform c r l = cmp_perform c l r"
  by (auto simp: eq_commute)

section \<open>Results of the loops\<close>

lemma binary_execute_rmapM:
  "binary_execute f False l r [] = rmapM (\<lambda>(a, b). f a b) (zip l r)"
  "binary_vs_execute f False l b [] = rmapM (\<lambda>a. f a b) l"
  "binary_sv_execute f False a r [] = rmapM (\<lambda>b. f a b) r"
proof -
  have *: "(\<lambda>out (l, r). rbind (f l r) (\<lambda>x. Inr (out @ [x])))
      = (\<lambda>out p. rbind ((\<lambda>(a, b). f a b) p) (\<lambda>x. Inr (out @ [x])))" for f :: "'x \<Rightarrow> 'y \<Rightarrow> 'z res"
    by (intro ext) (simp split: prod.split)
  show "binary_execute f False l r [] = rmapM (\<lambda>(a, b). f a b) (zip l r)"
    unfolding binary_execute_def cleared_def *
    by (simp add: rfoldM_push_rmapM) (cases "rmapM (\<lambda>(a, b). f a b) (zip l r)"; simp)
  show "binary_vs_execute f False l b [] = rmapM (\<lambda>a. f a b) l"
    unfolding binary_vs_execute_def cleared_def
    by (simp add: rfoldM_push_rmapM) (cases "rmapM (\<lambda>a. f a b) l"; simp)
  show "binary_sv_execute f False a r [] = rmapM (\<lambda>b. f a b) r"
    unfolding binary_sv_execute_def cleared_def
    by (simp add: rfoldM_push_rmapM) (cases "rmapM (\<lambda>b. f a b) r"; simp)
qed

lemma rmapM_index: "rmapM f xs = rmapM (\<lambda>i. f (xs ! i)) [0..<length xs]"
proof -
  have "rmapM f xs = rmapM f (map (\<lambda>i. xs ! i) [0..<length xs])" by (simp only: map_nth)
  then show ?thesis by (simp only: rmapM_map)
qed

lemma rmapM_zip:
  "length l = n \<Longrightarrow> length r = n \<Longrightarrow> rmapM (\<lambda>(a, b). f a b) (zip l r) = rmapM (\<lambda>i. f (l ! i) (r ! i)) [0..<n]"
  by (auto simp: rmapM_index [of _ "zip l r"] intro!: rmapM_cong)

text \<open>The three loops as one loop over row numbers.\<close>

lemma binary_execute_rows:
  "length l = n \<Longrightarrow> length r = n \<Longrightarrow> binary_execute f False l r [] = rmapM (\<lambda>i. f (l ! i) (r ! i)) [0..<n]"
  "length l = n \<Longrightarrow> binary_vs_execute f False l b [] = rmapM (\<lambda>i. f (l ! i) b) [0..<n]"
  "length r = n \<Longrightarrow> binary_sv_execute f False a r [] = rmapM (\<lambda>i. f a (r ! i)) [0..<n]"
  unfolding binary_execute_rmapM
  by (simp_all add: rmapM_zip rmapM_index [of _ l] rmapM_index [of _ r])

lemma rmapM_pure2: "rmapM (\<lambda>i. pure2 f (a i) (b i)) is = Inr (map (\<lambda>i. f (a i) (b i)) is)"
  by (induction "is") (simp_all add: pure2_def)

lemma check_step_simps [simp]:
  "check_step (out, b) (Inl e) = Inl e"
  "check_step (out, b) (Inr (x, v)) = Inr (out @ [x], b \<or> v)"
  "nullable_check_step present (out, b) i (Inl e) = Inl e"
  "nullable_check_step present (out, b) i (Inr (x, v)) = Inr (out @ [x], b \<or> v \<and> bv_is_set present i)"
  by (simp_all add: check_step_def nullable_check_step_def)

lemma check_fold:
  "rfoldM (\<lambda>s x. check_step s (g x)) (out, b) xs =
     rmap (\<lambda>ys. (out @ map fst ys, b \<or> (\<exists>y \<in> set ys. snd y))) (rmapM g xs)"
proof (induction xs arbitrary: out b)
  case (Cons x xs)
  show ?case
  proof (cases "g x")
    case (Inr y)
    then show ?thesis
      by (cases y; cases "rmapM g xs") (simp_all add: Cons)
  qed simp
qed simp

lemma nullable_check_fold:
  "rfoldM (\<lambda>s (i, x). nullable_check_step present s i (g x)) (out, b) (enumerate k xs) =
     rmap (\<lambda>ys. (out @ map fst ys, b \<or> (\<exists>z \<in> set (enumerate k ys). snd (snd z) \<and> bv_is_set present (fst z))))
       (rmapM g xs)"
proof (induction xs arbitrary: out b k)
  case (Cons x xs)
  show ?case
  proof (cases "g x")
    case (Inr y)
    then show ?thesis
      by (cases y; cases "rmapM g xs") (simp_all add: Cons)
  qed simp
qed simp

text \<open>The results of a checked loop, given the result of every row.\<close>

definition checked_results :: "(i64 \<times> bool) list \<Rightarrow> i64 list res" where
  "checked_results ys = (if \<exists>y \<in> set ys. snd y then Inl (Fail Overflow) else Inr (map fst ys))"

definition nullable_results :: "u8 list \<Rightarrow> (i64 \<times> bool) list \<Rightarrow> i64 list res" where
  "nullable_results present ys =
     (if \<exists>i < length ys. snd (ys ! i) \<and> bv_is_set present i then Inl (Fail Overflow) else Inr (map fst ys))"

lemma checked_rmapM:
  "rbind (rfoldM (\<lambda>s x. check_step s (g x)) ([], False) xs) overflow_result =
     rbind (rmapM g xs) checked_results"
  by (cases "rmapM g xs") (auto simp: check_fold overflow_result_def checked_results_def)

lemma nullable_checked_rmapM:
  "rbind (rfoldM (\<lambda>s (i, x). nullable_check_step present s i (g x)) ([], False) (enumerate 0 xs))
     overflow_result = rbind (rmapM g xs) (nullable_results present)"
proof (cases "rmapM g xs")
  case (Inr ys)
  have "(\<exists>z \<in> set (enumerate 0 ys). snd (snd z) \<and> bv_is_set present (fst z))
      \<longleftrightarrow> (\<exists>i < length ys. snd (ys ! i) \<and> bv_is_set present i)"
    by (force simp: in_set_enumerate_eq Bex_def)
  with Inr show ?thesis
    by (auto simp: nullable_check_fold overflow_result_def nullable_results_def)
qed (simp add: nullable_check_fold)

lemma checked_execute_rows:
  "length l = n \<Longrightarrow> length r = n \<Longrightarrow> checked_binary_execute f False l r [] =
     rbind (rmapM (\<lambda>i. f (l ! i) (r ! i)) [0..<n]) checked_results"
  "length l = n \<Longrightarrow> checked_binary_vs_execute f False l b [] =
     rbind (rmapM (\<lambda>i. f (l ! i) b) [0..<n]) checked_results"
  "length r = n \<Longrightarrow> checked_binary_sv_execute f False a r [] =
     rbind (rmapM (\<lambda>i. f a (r ! i)) [0..<n]) checked_results"
proof -
  have *: "(\<lambda>s (l, r). check_step s (f l r)) = (\<lambda>s p. check_step s ((\<lambda>(l, r). f l r) p))"
    by (intro ext) (simp split: prod.split)
  show "checked_binary_execute f False l r [] = rbind (rmapM (\<lambda>i. f (l ! i) (r ! i)) [0..<n]) checked_results"
    if "length l = n" "length r = n"
    using that unfolding checked_binary_execute_def cleared_def *
    by (simp add: checked_rmapM rmapM_zip)
qed (auto simp: checked_binary_vs_execute_def checked_binary_sv_execute_def cleared_def checked_rmapM
     rmapM_index [of _ l] rmapM_index [of _ r])

lemma nullable_execute_rows:
  "length l = n \<Longrightarrow> length r = n \<Longrightarrow> nullable_checked_binary_execute f False l r present [] =
     rbind (rmapM (\<lambda>i. f (l ! i) (r ! i)) [0..<n]) (nullable_results present)"
  "length l = n \<Longrightarrow> nullable_checked_binary_vs_execute f False l b present [] =
     rbind (rmapM (\<lambda>i. f (l ! i) b) [0..<n]) (nullable_results present)"
  "length r = n \<Longrightarrow> nullable_checked_binary_sv_execute f False a r present [] =
     rbind (rmapM (\<lambda>i. f a (r ! i)) [0..<n]) (nullable_results present)"
proof -
  have *: "(\<lambda>s (i, l, r). nullable_check_step present s i (f l r))
      = (\<lambda>s (i, p). nullable_check_step present s i ((\<lambda>(l, r). f l r) p))"
    by (intro ext) (simp split: prod.split)
  show "nullable_checked_binary_execute f False l r present [] =
      rbind (rmapM (\<lambda>i. f (l ! i) (r ! i)) [0..<n]) (nullable_results present)"
    if "length l = n" "length r = n"
    using that unfolding nullable_checked_binary_execute_def cleared_def *
    by (simp add: nullable_checked_rmapM rmapM_zip)
qed (auto simp: nullable_checked_binary_vs_execute_def nullable_checked_binary_sv_execute_def cleared_def
     nullable_checked_rmapM rmapM_index [of _ l] rmapM_index [of _ r])

lemmas loop_rows = binary_execute_rows checked_execute_rows nullable_execute_rows

section \<open>The chosen operator works row by row\<close>

lemma prims_rows:
  assumes "prims v = Some ps"
  shows "length ps = vec_len v" and "i < vec_len v \<Longrightarrow> vec_cell v i = CInt (to_i64 (ps ! i))"
  using assms by (cases v; auto)+

lemma vec_kind_Integer: "vec_kind v = Some BInteger \<longleftrightarrow> (\<exists>ps. prims v = Some ps)"
  by (cases v) auto

lemma vec_kind_String: "vec_kind v = Some BString \<longleftrightarrow> (\<exists>x. v = VStr x)"
  by (cases v) auto

fun cell_i64 :: "cell \<Rightarrow> i64" where
  "cell_i64 (CInt x) = x"
| "cell_i64 _ = 0"

fun cell_str :: "cell \<Rightarrow> rstr" where
  "cell_str (CStr s) = s"
| "cell_str _ = []"

lemma order_operator_str:
  assumes "operand_kind l = Some BString" "operand_kind r = Some BString" "is_OVec l \<or> is_OVec r"
    "operand_fits n l" "operand_fits n r"
  shows "order_operator c l r = Inr (map (\<lambda>i. cmp_perform c (cell_str (operand_cell l i)) (cell_str (operand_cell r i))) [0..<n])"
  using assms
  by (cases l; cases r)
     (auto simp: order_operator_def vec_kind_String loop_rows rmapM_pure2)

lemma order_operator_int:
  assumes "operand_kind l = Some BInteger" "operand_kind r = Some BInteger" "is_OVec l \<or> is_OVec r"
    "operand_fits n l" "operand_fits n r"
  shows "order_operator c l r = Inr (map (\<lambda>i. cmp_perform c (cell_i64 (operand_cell l i)) (cell_i64 (operand_cell r i))) [0..<n])"
proof -
  show ?thesis
    using assms
    by (cases l; cases r)
       (auto simp: order_operator_def vec_kind_Integer loop_rows rmapM_pure2 prims_rows prim_perform_value
         split: vec.splits)
qed

lemma equality_operator_eq:
  assumes "c = CmpEq \<or> c = CmpNeq"
  shows "equality_operator c l r = order_operator c l r"
proof -
  have "binary_vs_execute (pure2 (cmp_perform c)) False v s [] = binary_sv_execute (pure2 (cmp_perform c)) False s v []"
    for s :: rstr and v
    by (simp add: binary_execute_rmapM pure2_def cmp_perform_sym [OF assms, of s])
  moreover have "prim_perform c v s = prim_perform c s v" for s v
    using cmp_perform_sym [OF assms, of "to_i64 v" "to_i64 s"] by (simp add: prim_perform_value)
  then have "binary_vs_execute (pure2 (prim_perform c)) False v s [] = binary_sv_execute (pure2 (prim_perform c)) False s v []"
    for s v
    by (simp add: binary_execute_rmapM pure2_def)
  ultimately show ?thesis
    by (simp add: equality_operator_def order_operator_def cong: option.case_cong vec.case_cong operand.case_cong)
qed

lemma comparison_operator_eq: "comparison_operator c l r = order_operator c l r"
  by (cases c)
     (simp_all add: less_than_def less_than_equals_def equals_def not_equals_def equality_operator_eq)

text \<open>All comparisons: one result per row, the comparison of the values of the row.\<close>

lemma comparison_rows:
  assumes "operand_kind l = operand_kind r" "operand_kind l \<in> {Some BInteger, Some BString}"
    "is_OVec l \<or> is_OVec r" "operand_fits n l" "operand_fits n r"
  obtains x where "comparison_operator c l r = Inr x" "length x = n"
    "\<And>i. i < n \<Longrightarrow> cell_compare c (operand_cell l i) (operand_cell r i) = CInt (uint (x ! i))"
proof (cases "operand_kind l = Some BInteger")
  case True
  have int: "\<exists>a. operand_cell v i = CInt a" if "operand_kind v = Some BInteger" "operand_fits n v" "i < n" for v i
    using that by (cases v) (auto simp: vec_kind_Integer prims_rows)
  show thesis
  proof (rule that)
    show "comparison_operator c l r = Inr (map (\<lambda>i. cmp_perform c (cell_i64 (operand_cell l i)) (cell_i64 (operand_cell r i))) [0..<n])"
      using assms True by (simp add: comparison_operator_eq order_operator_int)
    show "cell_compare c (operand_cell l i) (operand_cell r i) =
        CInt (uint (map (\<lambda>i. cmp_perform c (cell_i64 (operand_cell l i)) (cell_i64 (operand_cell r i))) [0..<n] ! i))"
      if "i < n" for i
      using int [of l i] int [of r i] assms True that by auto
  qed simp
next
  case False
  then have k: "operand_kind l = Some BString" "operand_kind r = Some BString" using assms by auto
  have str: "\<exists>a. operand_cell v i = CStr a" if "operand_kind v = Some BString" "operand_fits n v" "i < n" for v i
    using that by (cases v) (auto simp: vec_kind_String)
  show thesis
  proof (rule that)
    show "comparison_operator c l r = Inr (map (\<lambda>i. cmp_perform c (cell_str (operand_cell l i)) (cell_str (operand_cell r i))) [0..<n])"
      using assms k by (simp add: comparison_operator_eq order_operator_str)
    show "cell_compare c (operand_cell l i) (operand_cell r i) =
        CInt (uint (map (\<lambda>i. cmp_perform c (cell_str (operand_cell l i)) (cell_str (operand_cell r i))) [0..<n] ! i))"
      if "i < n" for i
      using str [of l i] str [of r i] assms k that by auto
  qed simp
qed

section \<open>Checked arithmetic row by row\<close>

definition row_checked :: "arith \<Rightarrow> operand \<Rightarrow> operand \<Rightarrow> nat \<Rightarrow> (i64 \<times> bool) res" where
  "row_checked a l r i = perform_checked a (cell_i64 (operand_cell l i)) (cell_i64 (operand_cell r i))"

lemma perform_checked_comm:
  "a = Addition \<or> a = Multiplication \<Longrightarrow> perform_checked a x y = perform_checked a y x"
  by (auto simp: add.commute mult.commute)

lemma checked_operator_rows:
  assumes "operand_kind l = Some BInteger" "operand_kind r = Some BInteger" "is_OVec l \<or> is_OVec r"
    "operand_fits n l" "operand_fits n r"
  shows "checked_operator a l r = rbind (rmapM (row_checked a l r) [0..<n]) checked_results"
    and "nullable_checked_operator a p l r = rbind (rmapM (row_checked a l r) [0..<n]) (nullable_results p)"
proof -
  have ord: "checked_ordered a l r = rbind (rmapM (row_checked a l r) [0..<n]) checked_results"
    "nullable_checked_ordered a p l r = rbind (rmapM (row_checked a l r) [0..<n]) (nullable_results p)" for a
    using assms
    by (cases l; cases r;
        auto simp: checked_ordered_def nullable_checked_ordered_def Let_def arith_operator_def vec_kind_Integer loop_rows prim_op_def row_checked_def
          prims_rows intro!: arg_cong2 [where f = rbind] rmapM_cong)+
  have com: "checked_commutative a = checked_ordered a"
    "nullable_checked_commutative a p = nullable_checked_ordered a p" if "a = Addition \<or> a = Multiplication" for a
  proof -
    have "checked_binary_vs_execute (prim_op (perform_checked a)) False v s [] = checked_binary_sv_execute (prim_op (perform_checked a)) False s v []"
      "nullable_checked_binary_vs_execute (prim_op (perform_checked a)) False v s p [] = nullable_checked_binary_sv_execute (prim_op (perform_checked a)) False s v p []"
      for v s
      using perform_checked_comm [OF that] by (simp_all add: loop_rows [OF refl] prim_op_def)
    then show "checked_commutative a = checked_ordered a" "nullable_checked_commutative a p = nullable_checked_ordered a p"
      by (simp_all add: checked_commutative_def checked_ordered_def nullable_checked_commutative_def nullable_checked_ordered_def)
  qed
  show "checked_operator a l r = rbind (rmapM (row_checked a l r) [0..<n]) checked_results"
    by (cases a) (simp_all add: checked_addition_def checked_subtraction_def checked_multiplication_def
        checked_division_def checked_modulo_def com ord)
  show "nullable_checked_operator a p l r = rbind (rmapM (row_checked a l r) [0..<n]) (nullable_results p)"
    by (cases a) (simp_all add: nullable_checked_addition_def nullable_checked_subtraction_def nullable_checked_multiplication_def
        nullable_checked_division_def nullable_checked_modulo_def com ord)
qed

section \<open>Null maps of results\<close>

lemma nth_combine_null_maps:
  "length (combine_null_maps_execute l r out) = length out"
  "k < length out \<Longrightarrow> combine_null_maps_execute l r out ! k =
     (if k < length l \<and> k < length r then l ! k AND r ! k else out ! k)"
proof (induction l r out arbitrary: k rule: combine_null_maps_execute.induct)
  case (1 l lhs r rhs x xs)
  {
    case 1
    show ?case using "1.IH"(1) by simp
  next
    case (2 k)
    then show ?case using "1.IH"(2) [of "k - 1"] by (cases k) auto
  }
qed auto

lemma combine_null_maps_is_set:
  assumes "i < n"
  shows "bv_is_set (combine_null_maps_execute l r (combine_null_maps_init n)) i \<longleftrightarrow> bv_is_set l i \<and> bv_is_set r i"
proof -
  have "i div 8 < n div 8 + 1" using assms by (simp add: div_le_mono le_imp_less_Suc)
  moreover from this have "replicate (n div 8 + 1) 0 ! (i div 8) = (0 :: u8)" by (rule nth_replicate)
  ultimately show ?thesis
    by (auto simp: bv_is_set_iff nth_combine_null_maps combine_null_maps_init_def bit_and_iff
        simp del: replicate_Suc)
qed

text \<open>Whether a row of a value is present.\<close>

definition row_present :: "value \<Rightarrow> nat \<Rightarrow> bool" where
  "row_present v i = (case null_map_of v of Some present \<Rightarrow> bv_is_set present i | None \<Rightarrow> True)"

lemma combine_nulls2_is_set:
  "i < n \<Longrightarrow> combine_nulls2 n l r = Some present \<Longrightarrow>
   bv_is_set present i \<longleftrightarrow> row_present l i \<and> row_present r i"
  by (auto simp: combine_nulls2_def row_present_def combine_null_maps_is_set split: option.splits)

lemma combine_nulls2_None: "combine_nulls2 n l r = None \<longleftrightarrow> null_map_of l = None \<and> null_map_of r = None"
  by (auto simp: combine_nulls2_def split: option.splits)

lemma value_cell_forget:
  "forget_nullability v = Inr w \<Longrightarrow> value_cell v i = (if row_present v i then operand_cell w i else CNull)"
  by (cases v rule: forget_nullability.cases) (auto simp: row_present_def)

lemma value_cell_combine:
  "i < n \<Longrightarrow> value_cell (VBuf (combine_nulls n l r v)) i =
     (if row_present l i \<and> row_present r i then vec_cell v i else CNull)"
  using combine_nulls2_None [of n l r]
  by (cases "combine_nulls2 n l r")
     (auto simp: combine_nulls_def combine_nulls2_is_set row_present_def)

fun buf_vec :: "buf \<Rightarrow> vec" where
  "buf_vec (Plain v) = v"
| "buf_vec (Nulls v _) = v"

lemma buf_vec_combine [simp]: "buf_vec (combine_nulls n l r v) = v"
  by (simp add: combine_nulls_def split: option.split)

lemma cell_compare_null [simp]: "cell_compare c CNull x = CNull" "cell_compare c x CNull = CNull"
  by (cases x; simp)+

lemma cell_checked_null [simp]: "cell_checked a CNull x = Inr CNull" "cell_checked a x CNull = Inr CNull"
  by (cases x; simp)+

text \<open>
  Two values that an operator accepts side by side: both hold integers (of any width but u64) or
  both hold strings, at most one is a constant, and vectors have one element per row.
\<close>

definition operands_for :: "BasicType \<Rightarrow> nat \<Rightarrow> value \<Rightarrow> value \<Rightarrow> operand \<Rightarrow> operand \<Rightarrow> bool" where
  "operands_for k n lhs rhs l r \<longleftrightarrow>
     forget_nullability lhs = Inr l \<and> forget_nullability rhs = Inr r \<and>
     operand_kind l = Some k \<and> operand_kind r = Some k \<and> (is_OVec l \<or> is_OVec r) \<and>
     operand_fits n l \<and> operand_fits n r"

section \<open>Main results\<close>

text \<open>
  C12. Comparisons. Whatever the widths of the operands, whichever of them is a constant, and whether
  or not they have null maps, a comparison gives for every row the comparison of the two values of
  that row, and null where one of them is null.
\<close>

theorem comparison_rowwise:
  assumes "operands_for k n lhs rhs l r" and "k = BInteger \<or> k = BString"
  shows "\<exists>b. run_comparison c n lhs rhs = Inr (VBuf b) \<and> vec_len (buf_vec b) = n \<and>
    (\<forall>i < n. value_cell (VBuf b) i = cell_compare c (value_cell lhs i) (value_cell rhs i))"
proof -
  from assms have ops: "forget_nullability lhs = Inr l" "forget_nullability rhs = Inr r"
    and k: "operand_kind l = operand_kind r" "operand_kind l \<in> {Some BInteger, Some BString}"
    "is_OVec l \<or> is_OVec r" "operand_fits n l" "operand_fits n r"
    by (auto simp: operands_for_def)
  obtain x where x: "comparison_operator c l r = Inr x" "length x = n"
    "\<And>i. i < n \<Longrightarrow> cell_compare c (operand_cell l i) (operand_cell r i) = CInt (uint (x ! i))"
    using comparison_rows [OF k, of c] by blast
  have "value_cell (VBuf (combine_nulls n lhs rhs (VU8 x))) i = cell_compare c (value_cell lhs i) (value_cell rhs i)"
    if "i < n" for i
    using x(3) [OF that] by (simp add: value_cell_combine that value_cell_forget [OF ops(1)] value_cell_forget [OF ops(2)])
  then show ?thesis using ops x by (simp add: run_comparison_def)
qed

theorem comparison_rowwise_witness:
  "\<exists>b. run_comparison CmpLT 2 (VBuf (Nulls (VU8 [3, 7]) [1])) (VScalarI64 5) = Inr (VBuf b) \<and>
    value_cell (VBuf b) 0 = CInt 1 \<and> value_cell (VBuf b) 1 = CNull"
proof -
  have ops: "operands_for BInteger 2 (VBuf (Nulls (VU8 [3, 7]) [1])) (VScalarI64 5) (OVec (VU8 [3, 7])) (OScalarI64 5)"
    by (simp add: operands_for_def)
  obtain b where b: "run_comparison CmpLT 2 (VBuf (Nulls (VU8 [3, 7]) [1])) (VScalarI64 5) = Inr (VBuf b)"
    and rows: "\<forall>i < 2. value_cell (VBuf b) i =
      cell_compare CmpLT (value_cell (VBuf (Nulls (VU8 [3, 7]) [1])) i) (value_cell (VScalarI64 5) i)"
    using comparison_rowwise [OF ops, of CmpLT] by blast
  have "bv_is_set [1] 0" "\<not> bv_is_set [1] 1" by (simp_all add: bv_is_set_iff bit_1_iff)
  with rows have "value_cell (VBuf b) 0 = CInt 1" "value_cell (VBuf b) 1 = CNull" by simp_all
  with b show ?thesis by blast
qed



text \<open>The least \<open>i64\<close> divided by \<open>-1\<close> is not reported as an overflow: the division itself panics.\<close>

theorem division_overflow_panics:
  "run_checked Division 1 (VBuf (Plain (VI64 [i64_MIN]))) (VScalarI64 (- 1)) = Inl Panicked"
  by (simp add: run_checked_def combine_nulls2_def checked_division_def checked_ordered_def Let_def
      arith_operator_def loop_rows prim_op_def i64_div_def)

end
