(* ===== verification/Top_N.thy ===== *)
theory Top_N
  imports Vector_Ops Merging
begin

text \<open>
  Sorting inside a partition: sorting row numbers by a ranking
  (sort_by.rs), and the operator that keeps the first \<open>n\<close> rows of an order in a binary heap
  (top_n.rs).

  The unstable sort of the standard library leaves the order of equal elements open. It is the
  parameter \<open>usort\<close>, which takes the comparison and the vector; \<open>sorts_unstably\<close> states what the
  documentation promises. Keys are of a linear order: \<open>Ord\<close> of integers and strings.
\<close>

text \<open>The comparator of \<open>u64\<close> and \<open>f64\<close> keys, whose \<open>is_less_than\<close> is \<open>false\<close>, over any linear order.\<close>

definition CmpLessThan_wide :: "'k::linorder Comparator" where
  "CmpLessThan_wide = \<lparr>cmp = (<), cmp_eq = (\<le>), is_less_than = False\<rparr>"

section \<open>sort_by.rs\<close>

type_synonym sorter = "(nat \<Rightarrow> nat \<Rightarrow> bool) \<Rightarrow> nat list \<Rightarrow> nat list"

definition sorts_unstably :: "sorter \<Rightarrow> bool" where
  "sorts_unstably usort \<longleftrightarrow>
     (\<forall>le xs. (\<forall>a b. le a b \<or> le b a) \<and> (\<forall>a b c. le a b \<longrightarrow> le b c \<longrightarrow> le a c) \<longrightarrow>
        mset (usort le xs) = mset xs \<and> sorted_wrt le (usort le xs))"

text \<open>
  The stable sort, as insertion. The comparison reads \<open>ranking\<close> for every element as soon as there
  are two, and panics out of range.
\<close>

fun insert_by :: "(nat \<Rightarrow> nat \<Rightarrow> bool) \<Rightarrow> nat \<Rightarrow> nat list \<Rightarrow> nat list" where
  "insert_by le x [] = [x]"
| "insert_by le x (y # ys) = (if le x y then x # y # ys else y # insert_by le x ys)"

definition stable_sort :: sorter where
  "stable_sort le xs = foldr (insert_by le) xs []"

definition sort_le :: "bool \<Rightarrow> (nat \<Rightarrow> 'k::linorder) \<Rightarrow> nat \<Rightarrow> nat \<Rightarrow> bool" where
  "sort_le descending ranking i j = (if descending then ranking j \<le> ranking i else ranking i \<le> ranking j)"

definition sort_by_execute :: "sorter \<Rightarrow> bool \<Rightarrow> bool \<Rightarrow> 'k::linorder list \<Rightarrow> nat list \<Rightarrow> nat list res" where
  "sort_by_execute usort descending is_stable ranking indices =
     (if length indices < 2 then Inr indices
      else if \<exists>i \<in> set indices. length ranking \<le> i then Inl Panicked
      else Inr ((if is_stable then stable_sort else usort) (sort_le descending (\<lambda>i. ranking ! i)) indices))"

text \<open>With a null map: absent rows come before the present ones, and after them when descending.\<close>

definition sort_le_nullable :: "bool \<Rightarrow> (nat \<Rightarrow> 'k::linorder) \<Rightarrow> u8 list \<Rightarrow> nat \<Rightarrow> nat \<Rightarrow> bool" where
  "sort_le_nullable descending ranking present i j =
     (let le = (\<lambda>i j. if bv_is_set present i \<and> bv_is_set present j then ranking i \<le> ranking j
                      else \<not> bv_is_set present i)
      in if descending then le j i else le i j)"

definition sort_by_nullable_execute ::
    "sorter \<Rightarrow> bool \<Rightarrow> bool \<Rightarrow> 'k::linorder list \<Rightarrow> u8 list \<Rightarrow> nat list \<Rightarrow> nat list res" where
  "sort_by_nullable_execute usort descending is_stable ranking present indices =
     (if length indices < 2 then Inr indices
      else if \<exists>i \<in> set indices. bv_is_set present i \<and> length ranking \<le> i then Inl Panicked
      else Inr ((if is_stable then stable_sort else usort) (sort_le_nullable descending (\<lambda>i. ranking ! i) present) indices))"

section \<open>top_n.rs\<close>

text \<open>The \<open>while\<close> loop moves the hole at \<open>node\<close> down to where \<open>key\<close> belongs.\<close>

function heap_replace ::
    "('k \<Rightarrow> 'k \<Rightarrow> bool) \<Rightarrow> 'k list \<Rightarrow> nat list \<Rightarrow> 'k \<Rightarrow> nat \<Rightarrow> nat \<Rightarrow> 'k list \<times> nat list" where
  "heap_replace before keys values key v node =
     (let left_child = 2 * node + 1; right_child = 2 * node + 2 in
      if left_child < length keys then
        if before key (keys ! left_child) \<and>
           (length keys \<le> right_child \<or> before (keys ! right_child) (keys ! left_child))
        then heap_replace before (keys[node := keys ! left_child]) (values[node := values ! left_child])
               key v left_child
        else if right_child < length keys \<and> before key (keys ! right_child)
        then heap_replace before (keys[node := keys ! right_child]) (values[node := values ! right_child])
               key v right_child
        else (keys[node := key], values[node := v])
      else (keys[node := key], values[node := v]))"
  by pat_completeness auto
termination
  by (relation "measure (\<lambda>(before, keys, values, key, v, node). length keys - node)") auto

declare heap_replace.simps [simp del]

record 'k top_n =
  tn_indices :: "nat list"
  tn_keys :: "'k list"
  tn_last_index :: nat

definition top_n_init :: "'k top_n" where
  "top_n_init = \<lparr>tn_indices = [], tn_keys = [], tn_last_index = 0\<rparr>"

text \<open>The two sorts when the vectors are full: the last row of the order first.\<close>

definition worst_le :: "'k Comparator \<Rightarrow> 'k::linorder \<Rightarrow> 'k \<Rightarrow> bool" where
  "worst_le c a b = (if is_less_than c then b \<le> a else a \<le> b)"

definition top_n_sort :: "sorter \<Rightarrow> 'k::linorder Comparator \<Rightarrow> nat list \<Rightarrow> 'k list \<Rightarrow> nat list \<times> 'k list" where
  "top_n_sort usort c indices keys =
     (usort (\<lambda>i j. worst_le c (keys ! i) (keys ! j)) indices,
      if is_less_than c then rev (sort keys) else sort keys)"

definition replace_step :: "'k Comparator \<Rightarrow> 'k list \<times> nat list \<Rightarrow> nat \<times> 'k \<Rightarrow> ('k list \<times> nat list) res" where
  "replace_step c s p =
     rbind (index (fst s) 0) (\<lambda>root.
       if cmp c (snd p) root then Inr (heap_replace (cmp c) (fst s) (snd s) (snd p) (fst p) 0) else Inr s)"

text \<open>
  One batch. The capacity of both vectors is the \<open>n\<close> they were made with, since they never grow
  past it.
\<close>

definition top_n_execute ::
    "sorter \<Rightarrow> 'k::linorder Comparator \<Rightarrow> nat \<Rightarrow> 'k list \<Rightarrow> 'k top_n \<Rightarrow> 'k top_n res" where
  "top_n_execute usort c n input s =
     rassert (length (tn_indices s) = length (tn_keys s))
       (let (indices, keys, input, last_index) =
          (if length (tn_indices s) < n then
             let count = min (n - length (tn_indices s)) (length input);
                 indices = tn_indices s @ [tn_last_index s ..< tn_last_index s + count];
                 keys = tn_keys s @ take count input;
                 (indices, keys) = (if length indices = n then top_n_sort usort c indices keys else (indices, keys))
             in (indices, keys, drop count input, tn_last_index s + count)
           else (tn_indices s, tn_keys s, input, tn_last_index s))
        in rassert (length indices = n \<or> input = [])
             (rmap (\<lambda>(keys, indices).
                  \<lparr>tn_indices = indices, tn_keys = keys, tn_last_index = last_index + length input\<rparr>)
               (rfoldM (replace_step c) (keys, indices) (enumerate last_index input))))"

definition top_n_finalize :: "sorter \<Rightarrow> 'k::linorder Comparator \<Rightarrow> 'k top_n \<Rightarrow> nat list" where
  "top_n_finalize usort c s =
     map (\<lambda>i. tn_indices s ! i)
       (usort (\<lambda>i j. worst_le c (tn_keys s ! j) (tn_keys s ! i)) [0..<length (tn_keys s)])"

text \<open>The operator over the batches of its input.\<close>

definition top_n_run :: "sorter \<Rightarrow> 'k::linorder Comparator \<Rightarrow> nat \<Rightarrow> 'k list list \<Rightarrow> nat list res" where
  "top_n_run usort c n batches =
     rmap (top_n_finalize usort c) (rfoldM (\<lambda>s b. top_n_execute usort c n b s) top_n_init batches)"

section \<open>Sorting by an order\<close>

lemma mset_insert_by: "mset (insert_by le x ys) = add_mset x (mset ys)"
  by (induction ys) auto

lemma set_insert_by [simp]: "set (insert_by le x ys) = insert x (set ys)"
  by (induction ys) auto

lemma sorted_insert_by:
  assumes sorted: "sorted_wrt le ys" and le_total: "\<And>a b. le a b \<or> le b a"
    and le_trans: "\<And>a b c. le a b \<Longrightarrow> le b c \<Longrightarrow> le a c"
  shows "sorted_wrt le (insert_by le x ys)"
  using sorted
proof (induction ys)
  case (Cons y ys)
  show ?case
  proof (cases "le x y")
    case True
    have "le x z" if "z \<in> set ys" for z
      by (rule le_trans [OF True]) (use Cons.prems that in simp)
    with True Cons.prems show ?thesis by simp
  next
    case False
    then have "le y x" using le_total [of x y] by blast
    with False Cons show ?thesis by simp
  qed
qed simp

lemma stable_sorts: "sorts_unstably stable_sort"
proof -
  have "mset (foldr (insert_by le) xs []) = mset xs" for le xs
    by (induction xs) (simp_all add: mset_insert_by)
  moreover have "sorted_wrt le (foldr (insert_by le) xs [])"
    if "\<forall>a b. le a b \<or> le b a" "\<forall>a b c. le a b \<longrightarrow> le b c \<longrightarrow> le a c" for le xs
    by (induction xs) (use that in \<open>simp_all add: sorted_insert_by\<close>)
  ultimately show ?thesis by (simp add: sorts_unstably_def stable_sort_def)
qed

lemma sorts_unstablyD:
  assumes "sorts_unstably usort" and "\<And>a b. le a b \<or> le b a" and "\<And>a b c. le a b \<Longrightarrow> le b c \<Longrightarrow> le a c"
  shows "mset (usort le xs) = mset xs" and "sorted_wrt le (usort le xs)"
  using assms unfolding sorts_unstably_def by blast+

text \<open>Two lists with the same elements, both sorted by a linear order, are equal.\<close>

lemma sorted_wrt_unique:
  assumes "sorted_wrt le xs" "sorted_wrt le ys" "mset xs = mset ys"
    and anti: "\<And>a b. le a b \<Longrightarrow> le b a \<Longrightarrow> a = b" and refl: "\<And>a. le a a"
  shows "xs = ys"
  using assms(1-3)
proof (induction xs arbitrary: ys)
  case (Cons x xs)
  then obtain y zs where ys: "ys = y # zs" by (cases ys) auto
  have "x \<in> set ys" "y \<in> set (x # xs)"
    using Cons.prems(3) ys by (metis list.set_intros(1) set_mset_mset)+
  with Cons.prems ys have "le x y" "le y x" by (auto simp: refl)
  then have "x = y" by (rule anti)
  with Cons ys show ?case by auto
qed simp

text \<open>The comparison by a ranking is a total preorder, ascending and descending.\<close>

lemma sort_le_total: "sort_le d r a b \<or> sort_le d r b a"
  by (auto simp: sort_le_def)

lemma sort_le_trans: "sort_le d r a b \<Longrightarrow> sort_le d r b c \<Longrightarrow> sort_le d r a c"
  by (auto simp: sort_le_def split: if_splits)

lemma sort_le_nullable_total: "sort_le_nullable d r p a b \<or> sort_le_nullable d r p b a"
  by (auto simp: sort_le_nullable_def Let_def)

lemma sort_le_nullable_trans:
  "sort_le_nullable d r p a b \<Longrightarrow> sort_le_nullable d r p b c \<Longrightarrow> sort_le_nullable d r p a c"
  by (auto simp: sort_le_nullable_def Let_def split: if_splits)

lemma sort_by_execute_sorted:
  assumes "sorts_unstably usort" and "\<forall>i \<in> set indices. i < length ranking"
  obtains js where "sort_by_execute usort d st ranking indices = Inr js" "mset js = mset indices"
    "sorted_wrt (sort_le d (\<lambda>i. ranking ! i)) js"
proof (cases "length indices < 2")
  case True
  then have "sorted_wrt (sort_le d (\<lambda>i. ranking ! i)) indices"
    by (cases indices; cases "tl indices") auto
  with True that show ?thesis by (simp add: sort_by_execute_def)
next
  case False
  have so: "sorts_unstably (if st then stable_sort else usort)" using assms(1) stable_sorts by simp
  show ?thesis
    by (rule that [OF _ sorts_unstablyD(1) [OF so] sorts_unstablyD(2) [OF so]])
       (use False assms(2) in \<open>auto simp: sort_by_execute_def sort_le_total intro: sort_le_trans\<close>)
qed

section \<open>The heap\<close>

text \<open>
  A comparator is lawful when \<open>is_less_than\<close> tells which way it compares; this is what the sorts of
  \<open>top_n\<close> rely on.
\<close>

locale lawful_comparator = comparator c for c :: "'k::linorder Comparator" +
  assumes lawful: "cmp c a b \<longleftrightarrow> (if is_less_than c then a < b else b < a)"
begin

lemma cmp_worst: "cmp c a b \<longleftrightarrow> \<not> worst_le c a b"
  by (auto simp: lawful worst_le_def)

lemma cmp_asym: "cmp c a b \<Longrightarrow> \<not> cmp c b a"
  by (auto simp: lawful split: if_splits)

lemma cmp_neg_trans: "\<not> cmp c a b \<Longrightarrow> \<not> cmp c b d \<Longrightarrow> \<not> cmp c a d"
  by (auto simp: lawful split: if_splits)

lemma cmp_trans_neg: "cmp c a b \<Longrightarrow> \<not> cmp c d b \<Longrightarrow> cmp c a d"
  by (auto simp: lawful split: if_splits)

text \<open>Heap order: no element comes after its parent in the order.\<close>

definition heap :: "'k list \<Rightarrow> bool" where
  "heap keys \<longleftrightarrow> (\<forall>i. 0 < i \<and> i < length keys \<longrightarrow> \<not> cmp c (keys ! ((i - 1) div 2)) (keys ! i))"

definition heap_but :: "nat \<Rightarrow> 'k list \<Rightarrow> bool" where
  "heap_but node keys \<longleftrightarrow>
     (\<forall>i. 0 < i \<and> i < length keys \<and> (i - 1) div 2 \<noteq> node \<longrightarrow> \<not> cmp c (keys ! ((i - 1) div 2)) (keys ! i)) \<and>
     (\<forall>i. 0 < i \<and> i < length keys \<and> (i - 1) div 2 = node \<and> 0 < node \<longrightarrow> \<not> cmp c (keys ! ((node - 1) div 2)) (keys ! i))"

lemma heap_root: "heap keys \<Longrightarrow> i < length keys \<Longrightarrow> \<not> cmp c (keys ! 0) (keys ! i)"
proof (induction i rule: less_induct)
  case (less i)
  show ?case
  proof (cases "i = 0")
    case True
    then show ?thesis using cmp_asym by blast
  next
    case False
    then have "(i - 1) div 2 < i" by auto
    with less have "\<not> cmp c (keys ! 0) (keys ! ((i - 1) div 2))" by simp
    moreover have "\<not> cmp c (keys ! ((i - 1) div 2)) (keys ! i)" using less False by (auto simp: heap_def)
    ultimately show ?thesis by (rule cmp_neg_trans)
  qed
qed

text \<open>Moving a child into the hole keeps the heap order everywhere but at the new hole.\<close>

lemma heap_but_down:
  assumes hb: "heap_but node (keys[node := key])" and child: "0 < ch" "(ch - 1) div 2 = node" "ch < length keys"
    and best: "\<forall>i. 0 < i \<and> i < length keys \<and> (i - 1) div 2 = node \<longrightarrow> \<not> cmp c (keys ! ch) (keys ! i)"
    and lt: "cmp c key (keys ! ch)"
  shows "heap_but ch ((keys[node := keys ! ch])[ch := key])"
proof -
  have nc: "node \<noteq> ch" "node < length keys" using child by auto
  let ?K = "keys[node := key]" and ?L = "(keys[node := keys ! ch])[ch := key]"
  have edge: "\<not> cmp c (?K ! ((i - 1) div 2)) (?K ! i)" if "0 < i" "i < length keys" "(i - 1) div 2 \<noteq> node" for i
    using hb that by (auto simp: heap_but_def)
  have up: "\<not> cmp c (?K ! ((node - 1) div 2)) (?K ! i)" if "0 < i" "i < length keys" "(i - 1) div 2 = node" "0 < node" for i
    using hb that by (auto simp: heap_but_def)
  have "\<not> cmp c (?L ! ((i - 1) div 2)) (?L ! i)" if i: "0 < i" "i < length keys" "(i - 1) div 2 \<noteq> ch" for i
  proof (cases "(i - 1) div 2 = node")
    case True
    show ?thesis
    proof (cases "i = ch")
      case True
      then show ?thesis using child nc cmp_asym [OF lt] by simp
    next
      case False
      moreover have "i \<noteq> node" using True i by auto
      ultimately show ?thesis using True i best nc by simp
    qed
  next
    case False
    note f = False
    have "i \<noteq> ch" using False child by auto
    show ?thesis
    proof (cases "i = node")
      case True
      then have "(node - 1) div 2 \<noteq> node" "(node - 1) div 2 \<noteq> ch" using i child by auto
      then show ?thesis using up [of ch] child i True nc by simp
    next
      case False
      then show ?thesis using edge [of i] i f \<open>i \<noteq> ch\<close> by simp
    qed
  qed
  moreover have "\<not> cmp c (?L ! ((ch - 1) div 2)) (?L ! i)" if i: "0 < i" "i < length keys" "(i - 1) div 2 = ch" for i
  proof -
    have "i \<noteq> ch" "i \<noteq> node" using i child by auto
    then show ?thesis using edge [of i] i nc child by simp
  qed
  ultimately show ?thesis unfolding heap_but_def length_list_update by blast
qed

lemma heap_but_done:
  assumes "heap_but node keys" and "\<forall>i. 0 < i \<and> i < length keys \<and> (i - 1) div 2 = node \<longrightarrow> \<not> cmp c (keys ! node) (keys ! i)"
  shows "heap keys"
  using assms unfolding heap_def heap_but_def by metis

lemma mset_move:
  assumes "node < length ps" "ch < length ps" "node \<noteq> ch"
  shows "mset ((ps[node := ps ! ch])[ch := p]) = mset (ps[node := p])"
proof -
  let ?q = "ps[node := p]"
  have "(ps[node := ps ! ch])[ch := p] = ?q[ch := ?q ! node, node := ?q ! ch]"
    using assms by (simp add: list_update_swap)
  then show ?thesis using mset_swap [of node ?q ch] assms by simp
qed

text \<open>\<open>heap_replace\<close> puts the key with its value into the heap, in place of the root.\<close>

lemma heap_replace_correct:
  assumes "node < length keys" "length vals = length keys" "heap_but node (keys[node := key])"
    and "heap_replace (cmp c) keys vals key v node = (ks, vs)"
  shows "heap ks \<and> length ks = length keys \<and> length vs = length keys \<and>
    mset (zip ks vs) = mset ((zip keys vals)[node := (key, v)])"
  using assms
proof (induction "cmp c" keys vals key v node rule: heap_replace.induct)
  case (1 keys vals key v node)
  let ?l = "2 * node + 1" and ?r = "2 * node + 2"
  have kids: "0 < i \<and> (i - 1) div 2 = node \<longleftrightarrow> i = ?l \<or> i = ?r" for i by auto
  have move: "heap ks \<and> length ks = length keys \<and> length vs = length keys \<and>
      mset (zip ks vs) = mset ((zip keys vals)[node := (key, v)])"
    if ch: "ch < length keys" "ch = ?l \<or> ch = ?r" and lt: "cmp c key (keys ! ch)"
      and best: "\<forall>i. (i = ?l \<or> i = ?r) \<and> i < length keys \<longrightarrow> \<not> cmp c (keys ! ch) (keys ! i)"
      and IH: "heap_but ch ((keys[node := keys ! ch])[ch := key]) \<Longrightarrow> heap ks \<and> length ks = length keys \<and> length vs = length keys \<and>
          mset (zip ks vs) = mset ((zip (keys[node := keys ! ch]) (vals[node := vals ! ch]))[ch := (key, v)])"
    for ch
  proof -
    have c: "0 < ch" "(ch - 1) div 2 = node" using ch kids by auto
    have "heap_but ch ((keys[node := keys ! ch])[ch := key])"
      by (rule heap_but_down [OF "1.prems"(3) c ch(1) _ lt]) (use best kids in blast)
    from IH [OF this] have r: "heap ks" "length ks = length keys" "length vs = length keys"
      "mset (zip ks vs) = mset ((zip (keys[node := keys ! ch]) (vals[node := vals ! ch]))[ch := (key, v)])" by auto
    have "zip (keys[node := keys ! ch]) (vals[node := vals ! ch]) = (zip keys vals)[node := zip keys vals ! ch]"
      using ch "1.prems" by (simp add: update_zip)
    then have "mset (zip ks vs) = mset (((zip keys vals)[node := zip keys vals ! ch])[ch := (key, v)])"
      using r(4) by simp
    also have "\<dots> = mset ((zip keys vals)[node := (key, v)])"
      by (rule mset_move) (use ch "1.prems" c in auto)
    finally show ?thesis using r by simp
  qed
  consider (left) "?l < length keys" "cmp c key (keys ! ?l)" "length keys \<le> ?r \<or> cmp c (keys ! ?r) (keys ! ?l)"
    | (right) "?l < length keys" "\<not> (cmp c key (keys ! ?l) \<and> (length keys \<le> ?r \<or> cmp c (keys ! ?r) (keys ! ?l)))"
        "?r < length keys" "cmp c key (keys ! ?r)"
    | (stop) "heap_replace (cmp c) keys vals key v node = (keys[node := key], vals[node := v])"
        "?l < length keys \<Longrightarrow> \<not> cmp c key (keys ! ?l)" "?r < length keys \<Longrightarrow> \<not> cmp c key (keys ! ?r)"
  proof -
    assume a: "?l < length keys \<Longrightarrow> cmp c key (keys ! ?l) \<Longrightarrow> length keys \<le> ?r \<or> cmp c (keys ! ?r) (keys ! ?l) \<Longrightarrow> thesis"
      and b: "?l < length keys \<Longrightarrow> \<not> (cmp c key (keys ! ?l) \<and> (length keys \<le> ?r \<or> cmp c (keys ! ?r) (keys ! ?l))) \<Longrightarrow>
          ?r < length keys \<Longrightarrow> cmp c key (keys ! ?r) \<Longrightarrow> thesis"
      and e: "heap_replace (cmp c) keys vals key v node = (keys[node := key], vals[node := v]) \<Longrightarrow>
          (?l < length keys \<Longrightarrow> \<not> cmp c key (keys ! ?l)) \<Longrightarrow> (?r < length keys \<Longrightarrow> \<not> cmp c key (keys ! ?r)) \<Longrightarrow> thesis"
    show thesis
    proof (cases "?l < length keys \<and> cmp c key (keys ! ?l) \<and> (length keys \<le> ?r \<or> cmp c (keys ! ?r) (keys ! ?l))")
      case False
      note f = False
      show thesis
      proof (cases "?r < length keys \<and> cmp c key (keys ! ?r)")
        case True
        then show thesis using b f by auto
      next
        case False
        have "\<not> cmp c key (keys ! ?l)" if "?l < length keys"
        proof
          assume k: "cmp c key (keys ! ?l)"
          with f that have "?r < length keys" "\<not> cmp c (keys ! ?r) (keys ! ?l)" by auto
          with cmp_trans_neg [OF k] False show False by blast
        qed
        then show thesis using e False f by (auto simp: heap_replace.simps [of _ keys] Let_def)
      qed
    qed (use a in blast)
  qed
  then show ?case
  proof cases
    case left
    have rec: "heap_replace (cmp c) (keys[node := keys ! ?l]) (vals[node := vals ! ?l]) key v ?l = (ks, vs)"
      using "1.prems"(4) left by (simp add: heap_replace.simps [of _ keys] Let_def)
    show ?thesis
    proof (rule move [OF left(1) _ left(2)])
      show "\<forall>i. (i = ?l \<or> i = ?r) \<and> i < length keys \<longrightarrow> \<not> cmp c (keys ! ?l) (keys ! i)"
        using left cmp_asym by auto
    qed (use "1.hyps"(1) [OF refl refl left(1)] left rec "1.prems" in auto)
  next
    case right
    have rec: "heap_replace (cmp c) (keys[node := keys ! ?r]) (vals[node := vals ! ?r]) key v ?r = (ks, vs)"
      using "1.prems"(4) right by (auto simp: heap_replace.simps [of _ keys] Let_def split: if_splits)
    have "\<not> cmp c (keys ! ?r) (keys ! ?l)"
      using right cmp_trans_neg [of key "keys ! ?r" "keys ! ?l"] cmp_asym by (metis leD)
    show ?thesis
    proof (rule move [OF right(3) _ right(4)])
      show "\<forall>i. (i = ?l \<or> i = ?r) \<and> i < length keys \<longrightarrow> \<not> cmp c (keys ! ?r) (keys ! i)"
        using \<open>\<not> cmp c (keys ! ?r) (keys ! ?l)\<close> cmp_asym by auto
    qed (use "1.hyps"(2) [OF refl refl right(1)] right rec "1.prems" in auto)
  next
    case stop
    have "heap (keys[node := key])"
    proof (rule heap_but_done [OF "1.prems"(3)], intro allI impI)
      fix i assume i: "0 < i \<and> i < length (keys[node := key]) \<and> (i - 1) div 2 = node"
      then have lr: "i = ?l \<or> i = ?r" using kids [of i] by blast
      then have "i \<noteq> node" by auto
      with lr show "\<not> cmp c (keys[node := key] ! node) (keys[node := key] ! i)"
        using stop i "1.prems"(1) by auto
    qed
    with stop "1.prems" show ?thesis by (auto simp: update_zip)
  qed
qed

subsection \<open>The invariant over the batches\<close>

text \<open>
  After the rows \<open>xs\<close>: as long as there are fewer than \<open>n\<close>, all of them in order; then a heap of \<open>n\<close>
  rows such that no other row comes before any of them.
\<close>

definition holds_best :: "nat \<Rightarrow> 'k list \<Rightarrow> 'k list \<Rightarrow> nat list \<Rightarrow> bool" where
  "holds_best n xs keys is \<longleftrightarrow>
     length keys = n \<and> length is = n \<and> heap keys \<and> distinct is \<and>
     (\<forall>p \<in> set (zip keys is). snd p < length xs \<and> fst p = xs ! snd p) \<and>
     (\<forall>i < length xs. i \<notin> set is \<longrightarrow> (\<forall>k \<in> set keys. \<not> cmp c (xs ! i) k))"

lemma heap_but_root:
  assumes "heap keys"
  shows "heap_but 0 (keys[0 := key])"
proof -
  have "keys[0 := key] ! ((i - 1) div 2) = keys ! ((i - 1) div 2)" "keys[0 := key] ! i = keys ! i"
    if "0 < i" "(i - 1) div 2 \<noteq> 0" for i using that by simp_all
  then show ?thesis using assms by (auto simp: heap_but_def heap_def)
qed

lemma zip_mset_parts:
  assumes "mset (zip ks vs) = mset (zip ks' vs')" "length ks = length vs" "length ks' = length vs'"
  shows "mset ks = mset ks'" and "mset vs = mset vs'" and "set (zip ks vs) = set (zip ks' vs')"
  using arg_cong [OF assms(1), of "image_mset fst"] arg_cong [OF assms(1), of "image_mset snd"]
    arg_cong [OF assms(1), of set_mset] assms(2,3)
  by (simp_all add: mset_map [symmetric] del: mset_map)

lemma replace_step_best:
  assumes inv: "holds_best n xs keys is" and n: "0 < n"
  obtains ks vs where "replace_step c (keys, is) (length xs, x) = Inr (ks, vs)" "holds_best n (xs @ [x]) ks vs"
proof -
  note i = inv [unfolded holds_best_def]
  have root: "index keys 0 = Inr (keys ! 0)" "keys ! 0 \<in> set keys" using i n by (auto simp: index_def)
  have old: "snd p < length (xs @ [x]) \<and> fst p = (xs @ [x]) ! snd p" if "p \<in> set (zip keys is)" for p
    using i that by (auto simp: nth_append)
  have in_xs: "j < length xs" if "j \<in> set is" for j
    using i that by (metis in_set_impl_in_set_zip2 snd_conv)
  have after_root: "\<not> cmp c (keys ! 0) k" if "k \<in> set keys" for k
    using i that heap_root by (metis in_set_conv_nth)
  show ?thesis
  proof (cases "cmp c x (keys ! 0)")
    case False
    have "\<not> cmp c x k" if "k \<in> set keys" for k
      using cmp_neg_trans [OF False after_root [OF that]] .
    then have "holds_best n (xs @ [x]) keys is"
      using i old by (auto simp: holds_best_def nth_append less_Suc_eq)
    with False root show ?thesis by (intro that [of keys "is"]) (simp_all add: replace_step_def)
  next
    case True
    obtain ks vs where r: "heap_replace (cmp c) keys is x (length xs) 0 = (ks, vs)" by (cases "heap_replace (cmp c) keys is x (length xs) 0")
    have len: "0 < length keys" "length is = length keys" "heap keys" using i n by auto
    from heap_replace_correct [OF len(1,2) heap_but_root [OF len(3)] r]
    have h: "heap ks" "length ks = length keys" "length vs = length keys"
      and "mset (zip ks vs) = mset ((zip keys is)[0 := (x, length xs)])" by auto
    then have m: "mset (zip ks vs) = mset (zip (keys[0 := x]) (is[0 := length xs]))"
      by (simp add: update_zip)
    note parts = zip_mset_parts [OF m]
    have ks: "set ks = set (keys[0 := x])" "set vs = set (is[0 := length xs])" "distinct vs = distinct (is[0 := length xs])"
      "set (zip ks vs) = set (zip (keys[0 := x]) (is[0 := length xs]))"
      using parts h len by (auto dest: mset_eq_setD mset_eq_imp_distinct_iff)
    have "length xs \<notin> set is" using in_xs by blast
    then have "distinct vs" using ks(3) i by (simp add: distinct_list_update)
    moreover have "snd p < length (xs @ [x]) \<and> fst p = (xs @ [x]) ! snd p" if "p \<in> set (zip ks vs)" for p
    proof -
      have "p \<in> insert (x, length xs) (set (zip keys is))"
        using that ks(4) set_update_subset_insert [of "zip keys is" 0 "(x, length xs)"] by (auto simp: update_zip)
      with old [of p] show ?thesis by fastforce
    qed
    moreover have "\<not> cmp c ((xs @ [x]) ! j) k" if j: "j < length (xs @ [x])" "j \<notin> set vs" and k: "k \<in> set ks" for j k
    proof -
      have "j \<noteq> length xs" using j ks(2) len by (auto simp: set_update_memI)
      then have jx: "j < length xs" "(xs @ [x]) ! j = xs ! j" using j by (auto simp: nth_append)
      have k': "k = x \<or> k \<in> set keys" using k ks(1) set_update_subset_insert [of keys 0 x] by auto
      have "\<not> cmp c (xs ! j) (keys ! 0)"
      proof (cases "j \<in> set is")
        case True
        then obtain m where m: "m < length is" "is ! m = j" by (metis in_set_conv_nth)
        have "m = 0"
        proof (rule ccontr)
          assume "m \<noteq> 0"
          then have "j \<in> set (is[0 := length xs])" using m by (metis length_list_update nth_list_update_neq nth_mem)
          with j(2) ks(2) show False by simp
        qed
        have "(keys ! m, is ! m) \<in> set (zip keys is)" using m len by (metis length_zip min.idem nth_mem nth_zip)
        then have "keys ! m = xs ! j" using i m by (metis fst_conv snd_conv)
        with \<open>m = 0\<close> show ?thesis using cmp_asym by metis
      next
        case False
        then show ?thesis using i jx root(2) by blast
      qed
      then have "\<not> cmp c (xs ! j) k"
        using k' after_root cmp_neg_trans cmp_trans_neg [OF True] cmp_asym by blast
      with jx show ?thesis by simp
    qed
    ultimately have "holds_best n (xs @ [x]) ks vs" using h i by (simp add: holds_best_def)
    with True root r show ?thesis by (intro that [of ks vs]) (simp_all add: replace_step_def)
  qed
qed

lemma replace_fold_best:
  assumes "holds_best n xs keys is" and "0 < n"
  shows "\<exists>ks vs. rfoldM (replace_step c) (keys, is) (enumerate (length xs) ys) = Inr (ks, vs) \<and> holds_best n (xs @ ys) ks vs"
  using assms(1)
proof (induction ys arbitrary: xs keys "is")
  case (Cons y ys)
  obtain ks vs where s: "replace_step c (keys, is) (length xs, y) = Inr (ks, vs)" "holds_best n (xs @ [y]) ks vs"
    using replace_step_best [OF Cons.prems assms(2)] by blast
  from Cons.IH [OF s(2)] s(1) show ?case by simp
qed simp

lemma worst_le_order:
  "worst_le c a b \<or> worst_le c b a" "worst_le c a b \<Longrightarrow> worst_le c b d \<Longrightarrow> worst_le c a d"
  "worst_le c a b \<Longrightarrow> worst_le c b a \<Longrightarrow> a = b" "worst_le c a a"
  by (auto simp: worst_le_def split: if_splits)

lemma usort_worst:
  fixes r :: "nat \<Rightarrow> 'k"
  assumes so: "sorts_unstably usort"
  shows "mset (usort (\<lambda>i j. worst_le c (r i) (r j)) js) = mset js"
    and "sorted_wrt (\<lambda>i j. worst_le c (r i) (r j)) (usort (\<lambda>i j. worst_le c (r i) (r j)) js)"
    and "mset (usort (\<lambda>i j. worst_le c (r j) (r i)) js) = mset js"
    and "sorted_wrt (\<lambda>i j. worst_le c (r j) (r i)) (usort (\<lambda>i j. worst_le c (r j) (r i)) js)"
proof -
  let ?le = "\<lambda>i j. worst_le c (r i) (r j)" and ?ge = "\<lambda>i j. worst_le c (r j) (r i)"
  have le: "?le a b \<or> ?le b a" "?le a b \<Longrightarrow> ?le b d \<Longrightarrow> ?le a d" for a b d
    by (rule worst_le_order(1), rule worst_le_order(2))
  have ge: "?ge a b \<or> ?ge b a" "?ge a b \<Longrightarrow> ?ge b d \<Longrightarrow> ?ge a d" for a b d
    by (rule worst_le_order(1), rule worst_le_order(2) [of "r d" "r b" "r a"])
  show "mset (usort ?le js) = mset js" "sorted_wrt ?le (usort ?le js)"
    by (rule sorts_unstablyD [where le = ?le, OF so le], assumption+)+
  show "mset (usort ?ge js) = mset js" "sorted_wrt ?ge (usort ?ge js)"
    by (rule sorts_unstablyD [where le = ?ge, OF so ge], assumption+)+
qed

lemma mset_upt_facts:
  assumes "mset js = mset [0..<n]"
  shows "set js = {..<n}" and "distinct js" and "length js = n"
proof -
  show "set js = {..<n}" using mset_eq_setD [OF assms] by (simp only: set_upt atLeast0LessThan)
  show "distinct js" using mset_eq_imp_distinct_iff [OF assms] by (simp only: distinct_upt)
  show "length js = n" using mset_eq_length [OF assms] by (simp only: length_upt diff_zero)
qed

text \<open>When the vectors become full, the two sorts agree and give a heap.\<close>

lemma top_n_sort_best:
  assumes so: "sorts_unstably usort" and s: "top_n_sort usort c [0..<length xs] xs = (is, ks)"
  shows "holds_best (length xs) xs ks is"
proof -
  have "is": "is = usort (\<lambda>i j. worst_le c (xs ! i) (xs ! j)) [0..<length xs]"
    and ks: "ks = (if is_less_than c then rev (sort xs) else sort xs)"
    using s by (auto simp: top_n_sort_def)
  have m: "mset is = mset [0..<length xs]" and so: "sorted_wrt (\<lambda>i j. worst_le c (xs ! i) (xs ! j)) is"
    unfolding "is" by (rule usort_worst [OF so])+
  note set_is = mset_upt_facts(1) [OF m] and dist = mset_upt_facts(2) [OF m] and len = mset_upt_facts(3) [OF m]
  have "mset (map ((!) xs) is) = mset (map ((!) xs) [0..<length xs])" using m by (simp only: mset_map)
  then have mi: "mset ks = mset (map ((!) xs) is)" by (simp only: map_nth) (simp add: ks)
  have wi: "sorted_wrt (worst_le c) (map ((!) xs) is)" using so by (simp add: sorted_wrt_map)
  have wk: "sorted_wrt (worst_le c) ks"
  proof (cases "is_less_than c")
    case True
    then have "worst_le c = (\<ge>)" by (intro ext) (simp add: worst_le_def)
    with True show ?thesis by (simp add: ks sorted_wrt_rev)
  next
    case False
    then have "worst_le c = (\<le>)" by (intro ext) (simp add: worst_le_def)
    with False show ?thesis by (simp add: ks)
  qed
  have keq: "ks = map ((!) xs) is"
    by (rule sorted_wrt_unique [OF wk wi mi worst_le_order(3,4)])
  have "heap ks"
    using sorted_wrt_nth_less [OF wk] by (auto simp: heap_def cmp_worst)
  moreover have "snd p < length xs \<and> fst p = xs ! snd p" if "p \<in> set (zip ks is)" for p
  proof -
    from that obtain j where j: "j < length is" "p = (ks ! j, is ! j)" by (auto simp: in_set_zip)
    have "is ! j \<in> {..<length xs}" using nth_mem [OF j(1)] by (simp only: set_is)
    with j show ?thesis by (simp add: keq)
  qed
  ultimately show ?thesis using dist len set_is keq by (simp add: holds_best_def)
qed

definition tn_inv :: "nat \<Rightarrow> 'k list \<Rightarrow> 'k top_n \<Rightarrow> bool" where
  "tn_inv n xs s \<longleftrightarrow> tn_last_index s = length xs \<and>
     (if length xs < n then tn_indices s = [0..<length xs] \<and> tn_keys s = xs
      else holds_best n xs (tn_keys s) (tn_indices s))"

lemma top_n_execute_inv:
  assumes so: "sorts_unstably usort" and n: "0 < n" and inv: "tn_inv n xs s"
  shows "\<exists>s'. top_n_execute usort c n ys s = Inr s' \<and> tn_inv n (xs @ ys) s'"
proof (cases "length xs < n")
  case False
  then have hb: "holds_best n xs (tn_keys s) (tn_indices s)" "tn_last_index s = length xs"
    using inv by (auto simp: tn_inv_def)
  then have len: "length (tn_indices s) = n" "length (tn_keys s) = n" by (auto simp: holds_best_def)
  obtain ks vs where "rfoldM (replace_step c) (tn_keys s, tn_indices s) (enumerate (length xs) ys) = Inr (ks, vs)"
    "holds_best n (xs @ ys) ks vs" using replace_fold_best [OF hb(1) n] by blast
  then show ?thesis
    using len hb False by (simp add: top_n_execute_def rassert_def tn_inv_def)
next
  case True
  note few = True
  have s: "tn_indices s = [0..<length xs]" "tn_keys s = xs" "tn_last_index s = length xs"
    using inv True by (auto simp: tn_inv_def)
  show ?thesis
  proof (cases "length xs + length ys < n")
    case True
    then have "min (n - length xs) (length ys) = length ys" by simp
    moreover have "[0..<length xs] @ [length xs..<length xs + length ys] = [0..<length xs + length ys]"
      using upt_add_eq_append [of 0 "length xs" "length ys"] by simp
    ultimately show ?thesis using True few s
      by (simp add: top_n_execute_def Let_def rassert_def tn_inv_def)
  next
    case False
    let ?k = "n - length xs"
    let ?x = "xs @ take ?k ys"
    have k: "min ?k (length ys) = ?k" "length ?x = n" using False few by simp_all
    obtain "is" ks where so_eq: "top_n_sort usort c [0..<n] ?x = (is, ks)"
      by (cases "top_n_sort usort c [0..<n] ?x")
    have best: "holds_best n ?x ks is"
      using top_n_sort_best [OF so, of ?x "is" ks] so_eq k(2) by simp
    obtain ks' vs' where r: "rfoldM (replace_step c) (ks, is) (enumerate n (drop ?k ys)) = Inr (ks', vs')"
      "holds_best n (?x @ drop ?k ys) ks' vs'"
      using replace_fold_best [OF best n, of "drop ?k ys"] k(2) by auto
    have idx: "tn_indices s @ [tn_last_index s..<tn_last_index s + ?k] = [0..<n]"
      using few s upt_add_eq_append [of 0 "length xs" ?k] by simp
    have "length is = n" using best by (simp add: holds_best_def)
    then have "top_n_execute usort c n ys s = Inr \<lparr>tn_indices = vs', tn_keys = ks', tn_last_index = length xs + length ys\<rparr>"
      using few s k False so_eq r(1) idx
      by (simp add: top_n_execute_def Let_def rassert_def)
    then show ?thesis using r(2) False by (simp add: tn_inv_def)
  qed
qed

lemma top_n_fold_inv:
  assumes "sorts_unstably usort" "0 < n" "tn_inv n xs s"
  shows "\<exists>s'. rfoldM (\<lambda>s b. top_n_execute usort c n b s) s bs = Inr s' \<and> tn_inv n (xs @ concat bs) s'"
  using assms(3)
proof (induction bs arbitrary: xs s)
  case (Cons b bs)
  obtain s1 where s1: "top_n_execute usort c n b s = Inr s1" "tn_inv n (xs @ b) s1"
    using top_n_execute_inv [OF assms(1,2) Cons.prems] by blast
  with Cons.IH [OF s1(2)] show ?case by simp
qed simp

text \<open>The order the operator is for, and what the final sort makes of the kept rows.\<close>

definition best_sort :: "'k list \<Rightarrow> 'k list" where
  "best_sort xs = (if is_less_than c then sort xs else rev (sort xs))"

lemma best_sort_unique:
  assumes "sorted_wrt (\<lambda>a b. worst_le c b a) ys" "mset ys = mset xs"
  shows "best_sort xs = ys"
proof (rule sorted_wrt_unique [where le = "\<lambda>a b. worst_le c b a"])
  show "sorted_wrt (\<lambda>a b. worst_le c b a) (best_sort xs)"
  proof (cases "is_less_than c")
    case True
    then have "(\<lambda>a b. worst_le c b a) = (\<le>)" by (intro ext) (simp add: worst_le_def)
    with True show ?thesis by (simp add: best_sort_def)
  next
    case False
    then have "(\<lambda>a b. worst_le c b a) = (\<ge>)" by (intro ext) (simp add: worst_le_def)
    with False show ?thesis by (simp add: best_sort_def sorted_wrt_rev)
  qed
qed (use assms worst_le_order in \<open>auto simp: best_sort_def\<close>)

lemma mset_split_indices:
  assumes "distinct is" "set is \<subseteq> {..<length xs}"
  shows "mset xs = mset (map ((!) xs) is) + mset (map ((!) xs) (filter (\<lambda>i. i \<notin> set is) [0..<length xs]))"
proof -
  let ?rest = "filter (\<lambda>i. i \<notin> set is) [0..<length xs]"
  have "mset (is @ ?rest) = mset [0..<length xs]"
    by (rule set_eq_iff_mset_eq_distinct [THEN iffD1]) (use assms in auto)
  then have "mset (map ((!) xs) (is @ ?rest)) = mset (map ((!) xs) [0..<length xs])"
    by (simp only: mset_map)
  then show ?thesis by (simp only: map_nth) simp
qed

lemma top_n_finalize_correct:
  assumes so: "sorts_unstably usort" and inv: "tn_inv n xs s"
  shows "map ((!) xs) (top_n_finalize usort c s) = take n (best_sort xs) \<and>
    distinct (top_n_finalize usort c s) \<and> set (top_n_finalize usort c s) \<subseteq> {..<length xs}"
proof -
  let ?K = "tn_keys s" and ?I = "tn_indices s"
  let ?perm = "usort (\<lambda>i j. worst_le c (?K ! j) (?K ! i)) [0..<length ?K]"
  have m: "mset ?perm = mset [0..<length ?K]" and sp: "sorted_wrt (\<lambda>i j. worst_le c (?K ! j) (?K ! i)) ?perm"
    by (rule usort_worst [OF so])+
  note perm = mset_upt_facts [OF m]
  have out: "top_n_finalize usort c s = map ((!) ?I) ?perm" by (simp add: top_n_finalize_def)
  have sK: "sorted_wrt (\<lambda>a b. worst_le c b a) (map ((!) ?K) ?perm)" using sp by (simp add: sorted_wrt_map)
  have "mset (map ((!) ?K) ?perm) = mset (map ((!) ?K) [0..<length ?K])" using m by (simp only: mset_map)
  then have mK: "mset (map ((!) ?K) ?perm) = mset ?K" by (simp only: map_nth)
  show ?thesis
  proof (cases "length xs < n")
    case True
    then have k: "?K = xs" "?I = [0..<length xs]" using inv by (auto simp: tn_inv_def)
    have "map ((!) ?I) ?perm = ?perm" by (rule map_idI) (use perm k in auto)
    moreover have "best_sort xs = map ((!) xs) ?perm"
      by (rule best_sort_unique) (use sK mK k in auto)
    moreover have "length (best_sort xs) \<le> n" using True by (simp add: best_sort_def)
    ultimately show ?thesis unfolding out using perm k(1) by simp
  next
    case False
    then have hb: "length ?K = n" "length ?I = n" "distinct ?I"
      "\<forall>p \<in> set (zip ?K ?I). snd p < length xs \<and> fst p = xs ! snd p"
      "\<forall>i < length xs. i \<notin> set ?I \<longrightarrow> (\<forall>k \<in> set ?K. \<not> cmp c (xs ! i) k)"
      using inv by (auto simp: tn_inv_def holds_best_def)
    have at: "?I ! j < length xs \<and> ?K ! j = xs ! (?I ! j)" if "j < n" for j
      using hb(4) that hb(1,2) by (metis fst_conv length_zip min.idem nth_mem nth_zip snd_conv)
    have IK: "map ((!) xs) (map ((!) ?I) ?perm) = map ((!) ?K) ?perm"
      using at perm hb by auto
    have subset: "set ?I \<subseteq> {..<length xs}" using at hb(2) by (auto simp: in_set_conv_nth)
    let ?R = "map ((!) xs) (filter (\<lambda>i. i \<notin> set ?I) [0..<length xs])"
    have "map ((!) xs) ?I = ?K" by (rule nth_equalityI) (use at hb in auto)
    then have mx: "mset xs = mset ?K + mset ?R" using mset_split_indices [OF hb(3) subset] by simp
    have best: "best_sort xs = map ((!) ?K) ?perm @ best_sort ?R"
    proof (rule best_sort_unique)
      have "worst_le c r k" if "k \<in> set ?K" "r \<in> set ?R" for k r
        using hb(5) that by (auto simp: cmp_worst)
      moreover have "set (map ((!) ?K) ?perm) = set ?K" using mset_eq_setD [OF mK] by simp
      moreover have "sorted_wrt (\<lambda>a b. worst_le c b a) (best_sort ?R)" "set (best_sort ?R) = set ?R"
      proof -
        show "sorted_wrt (\<lambda>a b. worst_le c b a) (best_sort ?R)"
        proof (cases "is_less_than c")
          case True
          then have "(\<lambda>a b. worst_le c b a) = (\<le>)" by (intro ext) (simp add: worst_le_def)
          with True show ?thesis by (simp add: best_sort_def)
        next
          case False
          then have "(\<lambda>a b. worst_le c b a) = (\<ge>)" by (intro ext) (simp add: worst_le_def)
          with False show ?thesis by (simp add: best_sort_def sorted_wrt_rev)
        qed
      qed (simp add: best_sort_def)
      ultimately show "sorted_wrt (\<lambda>a b. worst_le c b a) (map ((!) ?K) ?perm @ best_sort ?R)"
        using sK by (simp add: sorted_wrt_append)
    qed (use mK mx in \<open>simp add: best_sort_def\<close>)
    moreover have "length ?perm = n" using perm(3) hb(1) by simp
    moreover have "distinct (map ((!) ?I) ?perm)"
      using perm hb by (auto simp: distinct_map inj_on_def nth_eq_iff_index_eq)
    moreover have "set (map ((!) ?I) ?perm) \<subseteq> {..<length xs}" using at perm(1) hb(1) by auto
    ultimately show ?thesis unfolding out IK best by simp
  qed
qed

end

interpretation asc: lawful_comparator "CmpLessThan :: 'k::linorder Comparator"
  by unfold_locales (simp add: CmpLessThan_def)

interpretation desc: lawful_comparator "CmpGreaterThan :: 'k::linorder Comparator"
  by unfold_locales (simp add: CmpGreaterThan_def)

section \<open>Main results\<close>

text \<open>\<open>operator::top_n\<close> picks the comparator.\<close>

definition top_n_comparator :: "bool \<Rightarrow> 'k::linorder Comparator" where
  "top_n_comparator descending = (if descending then CmpGreaterThan else CmpLessThan)"

text \<open>What a sort of the whole column and a cut would give.\<close>

definition sorted_prefix :: "bool \<Rightarrow> nat \<Rightarrow> 'k::linorder list \<Rightarrow> 'k list" where
  "sorted_prefix descending n xs = take n (if descending then rev (sort xs) else sort xs)"

lemma top_n_run_rows:
  assumes "sorts_unstably usort" and "0 < n"
  shows "\<exists>js. top_n_run usort (top_n_comparator descending) n bs = Inr js \<and>
    map (\<lambda>i. concat bs ! i) js = sorted_prefix descending n (concat bs) \<and>
    distinct js \<and> set js \<subseteq> {..<length (concat bs)}"
proof (cases descending)
  case True
  have "desc.tn_inv n [] top_n_init" using assms(2) by (simp add: desc.tn_inv_def top_n_init_def)
  then obtain s where s: "rfoldM (\<lambda>s b. top_n_execute usort CmpGreaterThan n b s) top_n_init bs = Inr s"
    "desc.tn_inv n (concat bs) s" using desc.top_n_fold_inv [OF assms, of "[]" top_n_init bs] by auto
  moreover have "desc.best_sort (concat bs) = rev (sort (concat bs))"
    by (simp add: desc.best_sort_def) (simp add: CmpGreaterThan_def)
  ultimately show ?thesis
    using desc.top_n_finalize_correct [OF assms(1) s(2)] True
    by (simp add: top_n_run_def top_n_comparator_def sorted_prefix_def)
next
  case False
  have "asc.tn_inv n [] top_n_init" using assms(2) by (simp add: asc.tn_inv_def top_n_init_def)
  then obtain s where s: "rfoldM (\<lambda>s b. top_n_execute usort CmpLessThan n b s) top_n_init bs = Inr s"
    "asc.tn_inv n (concat bs) s" using asc.top_n_fold_inv [OF assms, of "[]" top_n_init bs] by auto
  moreover have "asc.best_sort (concat bs) = sort (concat bs)"
    by (simp add: asc.best_sort_def) (simp add: CmpLessThan_def)
  ultimately show ?thesis
    using asc.top_n_finalize_correct [OF assms(1) s(2)] False
    by (simp add: top_n_run_def top_n_comparator_def sorted_prefix_def)
qed

text \<open>
  C4. Top-n equals sort and cut. However the column comes in batches, and whatever the unstable sort
  does with equal keys, the heap ends with distinct row numbers of the column whose keys, in the
  order given, are the first \<open>n\<close> keys of the sorted column.
\<close>

theorem top_n_correct:
  assumes "sorts_unstably usort" and "0 < n"
  shows "\<exists>js. top_n_run usort (top_n_comparator descending) n bs = Inr js \<and>
    map (\<lambda>i. concat bs ! i) js = sorted_prefix descending n (concat bs) \<and>
    distinct js \<and> set js \<subseteq> {..<length (concat bs)}"
  by (rule top_n_run_rows [OF assms])

theorem top_n_correct_witness:
  "\<exists>js. top_n_run stable_sort (top_n_comparator False) 2 [[5, 3], [4, 1 :: int]] = Inr js \<and>
    map (\<lambda>i. [5, 3, 4, 1] ! i) js = [1, 3 :: int]"
  using top_n_correct [OF stable_sorts, of 2 False "[[5, 3], [4, 1 :: int]]"]
  by (auto simp: sorted_prefix_def)

text \<open>
  With a limit of zero the heap has no root to compare with: the first row makes the operator panic.
\<close>

theorem top_n_zero_panics:
  "xs \<noteq> [] \<Longrightarrow> top_n_run usort c 0 [xs] = Inl Panicked"
  by (cases xs)
     (simp_all add: top_n_run_def top_n_execute_def top_n_init_def rassert_def replace_step_def index_def)

text \<open>
  The comparators of \<open>u64\<close> and \<open>f64\<close> say \<open>false\<close> to \<open>is_less_than\<close>, so the heap is built upside
  down: the two smallest of these keys are 1 and 2.
\<close>

theorem top_n_wide_ascending_wrong:
  "top_n_run stable_sort CmpLessThan_wide 2 [[1, 5, 4, 3, 2 :: int]] = Inr [1, 0]"
  by (simp add: top_n_run_def top_n_execute_def top_n_init_def rassert_def replace_step_def index_def
      CmpLessThan_wide_def top_n_sort_def stable_sort_def worst_le_def top_n_finalize_def upt_rec
      numeral_2_eq_2 Let_def)

end
