(* ===== verification/Expr_Compile.thy ===== *)
theory Expr_Compile
  imports Expr_Ops Top_N Queries
begin

text \<open>
  Compiling expressions (src/src/engine/planning/query_plan.rs, \<open>compile_expr\<close> and the table of
  two-argument functions) and running the plans on the columns of a partition.

  A plan is a term: an operation of \<open>QueryPlan\<close> with the plans that fill its input buffers. Buffer
  numbers, and the cache that gives two calls with the same inputs the same buffer, are not
  represented; the operators are run on whole columns (Execution treats the division into batches).
  The decoding plans of Codecs are nested through \<open>Decode\<close>, whose inputs are plans again.

  The crates \<open>regex\<close> and \<open>chrono\<close>, the order of \<open>ordered_float\<close>, the multiplication of floats and
  the unstable sort of the standard library are fields of \<open>plan_externs\<close>.
\<close>

record plan_externs =
  pe_ext :: externs
  pe_sort :: sorter
  regex_valid :: "rstr \<Rightarrow> bool"
  regex_find :: "rstr \<Rightarrow> rstr \<Rightarrow> bool"
  regex_escape :: "rstr \<Rightarrow> rstr"
  regex_replace_all :: "rstr \<Rightarrow> rstr \<Rightarrow> rstr \<Rightarrow> rstr"
  year_of :: "i64 \<Rightarrow> i64 option"
  float_rank :: "f64 \<Rightarrow> int"
  float_mul :: "f64 \<Rightarrow> f64 \<Rightarrow> f64"
  float_of_i64 :: "i64 \<Rightarrow> f64"

section \<open>Plans\<close>

datatype QueryPlan =
    Decode string "QueryPlan dplan"
  | PFilter QueryPlan QueryPlan
  | PNullableFilter QueryPlan QueryPlan
  | PSelect QueryPlan QueryPlan
  | PNullVec nat
  | PScalarI64 i64
  | PScalarStr rstr
  | PInverseDictLookup string "QueryPlan dplan" "QueryPlan dplan" rstr
  | PConstantExpand i64 nat
  | PCompare comparison QueryPlan QueryPlan
  | PChecked arith QueryPlan QueryPlan
  | PMultiplyF64 QueryPlan QueryPlan
  | PAnd QueryPlan QueryPlan
  | POr QueryPlan QueryPlan
  | PNot QueryPlan
  | PToYear QueryPlan
  | PRegex QueryPlan rstr
  | PLength QueryPlan
  | PIsNull QueryPlan
  | PIsNotNull QueryPlan
  | PIndices QueryPlan
  | PSortBy QueryPlan QueryPlan bool bool
  | PTopN QueryPlan nat bool
  | PFuseNulls QueryPlan

text \<open>A typed buffer reference, and what \<open>compile_expr\<close> returns.\<close>

type_synonym tref = "QueryPlan \<times> EncodingType"
type_synonym typed_plan = "tref \<times> Type"

datatype Filter = FNone | FU8 QueryPlan | FNullableU8 QueryPlan | FIndices QueryPlan

definition apply_filter :: "Filter \<Rightarrow> tref \<Rightarrow> tref" where
  "apply_filter f p =
     (case f of
        FU8 s \<Rightarrow> (PFilter (fst p) s, snd p)
      | FNullableU8 s \<Rightarrow> (PNullableFilter (fst p) s, snd p)
      | FIndices s \<Rightarrow> (PSelect (fst p) s, snd p)
      | FNone \<Rightarrow> p)"

text \<open>\<open>codec.decode(plan, planner)\<close> on a plan; decoding with no operation is the plan itself.\<close>

definition wrap_decode :: "string \<Rightarrow> QueryPlan tplan \<Rightarrow> tref" where
  "wrap_decode name p = (case fst p of Input q \<Rightarrow> (q, snd p) | d \<Rightarrow> (Decode name d, snd p))"

definition decode_ref :: "Codec \<Rightarrow> tref \<Rightarrow> tref res" where
  "decode_ref c p = rmap (wrap_decode (c_column_name c)) (decode c (Input (fst p), snd p))"

definition decode_type :: "Type \<Rightarrow> tref \<Rightarrow> tref res" where
  "decode_type t p = (case ty_codec t of Some codec \<Rightarrow> decode_ref codec p | None \<Rightarrow> Inr p)"

text \<open>The tag of an output declared with \<open>null=lhs,rhs\<close>.\<close>

definition null_tag :: "EncodingType \<Rightarrow> tref \<Rightarrow> tref \<Rightarrow> EncodingType res" where
  "null_tag t lhs rhs = (if is_nullable (snd lhs) \<or> is_nullable (snd rhs) then nullable t else Inr t)"

section \<open>The table of two-argument functions\<close>

record Function2 =
  factory :: "tref \<Rightarrow> tref \<Rightarrow> tref res"
  type_lhs :: BasicType
  type_rhs :: BasicType
  type_out :: Type
  encoding_invariance :: bool

definition integer_op :: "(tref \<Rightarrow> tref \<Rightarrow> tref res) \<Rightarrow> Function2" where
  "integer_op f = \<lparr>factory = f, type_lhs = BInteger, type_rhs = BInteger,
     type_out = type_mutable (type_unencoded BInteger), encoding_invariance = False\<rparr>"

definition float_op :: "(tref \<Rightarrow> tref \<Rightarrow> tref res) \<Rightarrow> BasicType \<Rightarrow> BasicType \<Rightarrow> Function2" where
  "float_op f l r = \<lparr>factory = f, type_lhs = l, type_rhs = r,
     type_out = type_mutable (type_unencoded BFloat), encoding_invariance = False\<rparr>"

definition comparison_op :: "(tref \<Rightarrow> tref \<Rightarrow> tref res) \<Rightarrow> BasicType \<Rightarrow> Function2" where
  "comparison_op f t = \<lparr>factory = f, type_lhs = t, type_rhs = t,
     type_out = type_mutable (type_unencoded BBoolean), encoding_invariance = True\<rparr>"

definition checked_plan :: "arith \<Rightarrow> tref \<Rightarrow> tref \<Rightarrow> tref res" where
  "checked_plan a lhs rhs = rmap (Pair (PChecked a (fst lhs) (fst rhs))) (null_tag EI64 lhs rhs)"

definition multiply_plan :: "tref \<Rightarrow> tref \<Rightarrow> tref res" where
  "multiply_plan lhs rhs = rmap (Pair (PMultiplyF64 (fst lhs) (fst rhs))) (null_tag EF64 lhs rhs)"

definition compare_plan :: "comparison \<Rightarrow> tref \<Rightarrow> tref \<Rightarrow> tref res" where
  "compare_plan c lhs rhs = rmap (Pair (PCompare c (fst lhs) (fst rhs))) (null_tag EU8 lhs rhs)"

definition comparison_ops :: "(tref \<Rightarrow> tref \<Rightarrow> tref res) \<Rightarrow> Function2 list" where
  "comparison_ops f = [comparison_op f BInteger, comparison_op f BString]"

fun function2_registry :: "Func2Type \<Rightarrow> Function2 list option" where
  "function2_registry Func2Type.Add = Some [integer_op (checked_plan Addition)]"
| "function2_registry Subtract = Some [integer_op (checked_plan Subtraction)]"
| "function2_registry Multiply =
     Some [integer_op (checked_plan Multiplication), float_op multiply_plan BInteger BFloat,
           float_op multiply_plan BFloat BInteger, float_op multiply_plan BFloat BFloat]"
| "function2_registry Divide = Some [integer_op (checked_plan Division)]"
| "function2_registry Modulo = Some [integer_op (checked_plan ModuloOp)]"
| "function2_registry LT = Some (comparison_ops (compare_plan CmpLT))"
| "function2_registry LTE = Some (comparison_ops (compare_plan CmpLTE))"
| "function2_registry GT = Some (comparison_ops (\<lambda>lhs rhs. compare_plan CmpLT rhs lhs))"
| "function2_registry GTE = Some (comparison_ops (\<lambda>lhs rhs. compare_plan CmpLTE rhs lhs))"
| "function2_registry Equals = Some (comparison_ops (compare_plan CmpEq))"
| "function2_registry NotEquals = Some (comparison_ops (compare_plan CmpNeq))"
| "function2_registry _ = None"

section \<open>compile_expr\<close>

text \<open>\<open>ColName\<close>: the first section, decoded as far as its elements become addressable.\<close>

definition column_ref :: "string \<Rightarrow> Column \<Rightarrow> typed_plan res" where
  "column_ref name c =
     rbind (encoding_type (col_codec c)) (\<lambda>t.
       if c_is_fixed_width (col_codec c)
       then Inr ((Decode name (ColumnSection name 0), t), full_type c)
       else rbind (ensure_fixed_width (col_codec c) (ColumnSection name 0, t)) (\<lambda>(codec, fixed_width).
              Inr (wrap_decode name fixed_width, type_encoded codec)))"

definition compile_colname :: "(string \<rightharpoonup> Column) \<Rightarrow> nat \<Rightarrow> Filter \<Rightarrow> string \<Rightarrow> typed_plan res" where
  "compile_colname columns column_len filt name =
     (case columns name of
        Some c \<Rightarrow> rmap (map_prod (apply_filter filt) id) (column_ref name c)
      | None \<Rightarrow> Inr ((PNullVec column_len, ENull), type_new BNull None))"

text \<open>
  Comparisons of an encoded vector with a constant encode the constant; otherwise both operands are
  decoded. \<open>encode_scalar\<close> is the part that both orders of the operands share.
\<close>

definition encode_scalar :: "Type \<Rightarrow> tref \<Rightarrow> tref res" where
  "encode_scalar t k =
     (if ty_decoded t = BInteger then
        (case (fst k, ty_codec t) of
           (PScalarI64 x, Some codec) \<Rightarrow> rmap (\<lambda>y. (PScalarI64 y, EScalarI64)) (encode_int codec x)
         | _ \<Rightarrow> Inl Panicked)
      else if ty_decoded t = BString then
        (case (fst k, ty_codec t) of
           (PScalarStr s, Some codec) \<Rightarrow>
             rbind (encode_str codec s) (\<lambda>p. case p of InverseDictLookup offset_len backing_store s \<Rightarrow>
               Inr (PInverseDictLookup (c_column_name codec) offset_len backing_store s, EScalarI64))
         | _ \<Rightarrow> Inl (Fail (FatalError ''scalar_str'')))
      else Inl Panicked)"

definition compile_operands :: "Function2 \<Rightarrow> typed_plan \<Rightarrow> typed_plan \<Rightarrow> (tref \<times> tref) res" where
  "compile_operands d l r =
     (if encoding_invariance d \<and> ty_is_scalar (snd l) \<and> type_is_encoded (snd r)
      then rmap (\<lambda>p. (p, fst r)) (encode_scalar (snd r) (fst l))
      else if encoding_invariance d \<and> ty_is_scalar (snd r) \<and> type_is_encoded (snd l)
      then rmap (\<lambda>p. (fst l, p)) (encode_scalar (snd l) (fst r))
      else rbind (decode_type (snd l) (fst l)) (\<lambda>p.
           rbind (decode_type (snd r) (fst r)) (\<lambda>q. Inr (p, q))))"

definition find_declaration :: "Func2Type \<Rightarrow> Type \<Rightarrow> Type \<Rightarrow> Function2 res" where
  "find_declaration f l r =
     (case function2_registry f of
        None \<Rightarrow> Inl (Fail (NotImplemented ''function''))
      | Some declarations \<Rightarrow>
          (case find (\<lambda>p. type_lhs p = basic_non_nullable (ty_decoded l) \<and>
                          type_rhs p = basic_non_nullable (ty_decoded r)) declarations of
             Some declaration \<Rightarrow> Inr declaration
           | None \<Rightarrow> Inl (Fail (TypeError ''Function is not implemented for types''))))"

definition compile_function2 :: "Func2Type \<Rightarrow> typed_plan \<Rightarrow> typed_plan \<Rightarrow> typed_plan res" where
  "compile_function2 f l r =
     rbind (find_declaration f (snd l) (snd r)) (\<lambda>declaration.
     rbind (compile_operands declaration l r) (\<lambda>(p, q).
     rbind (factory declaration p q) (\<lambda>plan. Inr (plan, type_out declaration))))"

definition compile_boolean :: "(QueryPlan \<Rightarrow> QueryPlan \<Rightarrow> QueryPlan) \<Rightarrow> typed_plan \<Rightarrow> typed_plan \<Rightarrow> typed_plan res" where
  "compile_boolean f l r =
     (if ty_decoded (snd l) \<noteq> BBoolean \<or> ty_decoded (snd r) \<noteq> BBoolean
      then Inl (Fail (TypeError ''expected bool''))
      else rmap (\<lambda>t. ((f (fst (fst l)) (fst (fst r)), t), type_bit_vec)) (null_tag EU8 (fst l) (fst r)))"

definition expect_tag :: "EncodingType \<Rightarrow> tref \<Rightarrow> QueryPlan res" where
  "expect_tag t p = (if snd p = t then Inr (fst p) else Inl (Fail (FatalError ''unexpected type'')))"

definition compile_regex :: "rstr \<Rightarrow> typed_plan \<Rightarrow> typed_plan res" where
  "compile_regex pattern e =
     (if ty_decoded (snd e) \<noteq> BString then Inl (Fail (TypeError ''Expected expression of type String''))
      else rbind (decode_type (snd e) (fst e)) (\<lambda>p.
           rbind (expect_tag EStr p) (\<lambda>p.
             Inr ((PRegex p pattern, EU8), type_mutable (type_unencoded BBoolean)))))"

text \<open>The result keeps the decoded type of the argument, whatever the function.\<close>

fun compile_func1 :: "nat \<Rightarrow> Func1Type \<Rightarrow> typed_plan \<Rightarrow> typed_plan res" where
  "compile_func1 column_len ToYear (p, t) =
     rbind (decode_type t p) (\<lambda>decoded.
       if ty_decoded t \<noteq> BInteger then Inl (Fail (TypeError ''expected to_year(integer)''))
       else Inr ((PToYear (fst decoded), i64_like (snd decoded)), type_decoded t))"
| "compile_func1 column_len Func1Type.Length (p, t) =
     rbind (decode_type t p) (\<lambda>decoded.
       if ty_decoded t \<noteq> BString then Inl (Fail (TypeError ''expected length(string)''))
       else rbind (expect_tag EStr decoded) (\<lambda>s. Inr ((PLength s, EI64), type_decoded t)))"
| "compile_func1 column_len Func1Type.Not (p, t) =
     rbind (decode_type t p) (\<lambda>decoded.
       if ty_decoded t \<noteq> BBoolean then Inl (Fail (TypeError ''expected NOT(boolean)''))
       else rbind (expect_tag EU8 decoded) (\<lambda>b. Inr ((PNot b, EU8), type_decoded t)))"
| "compile_func1 column_len IsNull (p, t) =
     Inr (if is_nullable (snd p) then (PIsNull (fst p), EU8) else (PConstantExpand 0 column_len, EU8),
          type_decoded t)"
| "compile_func1 column_len IsNotNull (p, t) =
     Inr (if is_nullable (snd p) then (PIsNotNull (fst p), EU8) else (PConstantExpand 1 column_len, EU8),
          type_decoded t)"
| "compile_func1 column_len Negate (p, t) =
     Inl (Fail (TypeError ''Unary minus not implemented for arbitrary expressions.''))"

definition const_i64 :: "i64 \<Rightarrow> typed_plan" where
  "const_i64 x = ((PScalarI64 x, EScalarI64), type_scalar BInteger)"

definition const_str :: "rstr \<Rightarrow> typed_plan" where
  "const_str s = ((PScalarStr s, EScalarStr), type_scalar BString)"

text \<open>
  The pattern of \<open>LIKE\<close> becomes a regular expression. The methods of the \<open>regex\<close> crate are parameters:
  \<open>regex_replace_all\<close> takes the expression, the text and the replacement. \<open>contains\<close> and \<open>replace\<close> are those of
  the standard library for a pattern that is not empty: occurrences are replaced from left to right
  and do not overlap.
\<close>

definition lit :: "string \<Rightarrow> rstr" where "lit s = map of_char s"

fun str_contains :: "rstr \<Rightarrow> rstr \<Rightarrow> bool" where
  "str_contains pat [] = (pat = [])"
| "str_contains pat (x # xs) = (take (length pat) (x # xs) = pat \<or> str_contains pat xs)"

function str_replace :: "rstr \<Rightarrow> rstr \<Rightarrow> rstr \<Rightarrow> rstr" where
  "str_replace s pat to =
     (if s = [] then []
      else if pat \<noteq> [] \<and> take (length pat) s = pat then to @ str_replace (drop (length pat) s) pat to
      else hd s # str_replace (tl s) pat to)"
  by pat_completeness auto
termination
  by (relation "measure (\<lambda>(s, pat, to). length s)") auto

declare str_replace.simps [simp del]

lemma str_replace_Nil [simp]: "str_replace [] pat to = []"
  by (subst str_replace.simps) simp

lemma str_replace_skip:
  "take (length pat) (x # xs) \<noteq> pat \<Longrightarrow> str_replace (x # xs) pat to = x # str_replace xs pat to"
  by (subst str_replace.simps) simp

lemma str_replace_shrinks:
  assumes "length to < length pat"
  shows "length (str_replace s pat to) \<le> length s \<and> (str_contains pat s \<longrightarrow> length (str_replace s pat to) < length s)"
  using assms
proof (induction s pat to rule: str_replace.induct)
  case (1 s pat to)
  show ?case
  proof (cases "s = [] \<or> take (length pat) s \<noteq> pat")
    case True
    then show ?thesis
      using "1.prems" "1.IH"(2) by (cases s) (auto simp: str_replace_skip)
  next
    case False
    then have "length pat \<le> length s" by (metis length_take min.cobounded1)
    then show ?thesis
      using False "1.prems" "1.IH"(1) by (auto simp: str_replace.simps [of s])
  qed
qed

text \<open>While there are four percent signs in a row, they become two.\<close>

function collapse_percent :: "rstr \<Rightarrow> rstr" where
  "collapse_percent pattern =
     (if str_contains (lit ''%%%%'') pattern
      then collapse_percent (str_replace pattern (lit ''%%%%'') (lit ''%%'')) else pattern)"
  by pat_completeness auto
termination
  by (relation "measure length") (simp_all add: str_replace_shrinks lit_def)

declare collapse_percent.simps [simp del]

lemma collapse_percent_done: "\<not> str_contains (lit ''%%%%'') (collapse_percent pattern)"
  by (induction pattern rule: collapse_percent.induct) (subst collapse_percent.simps, simp)

definition backslash :: rstr where "backslash = [92]"

definition like_regex :: "plan_externs \<Rightarrow> rstr \<Rightarrow> rstr" where
  "like_regex pe pattern =
     (let pattern = regex_escape pe pattern;
          pattern = regex_replace_all pe (lit ''([^'' @ backslash @ backslash @ lit ''])_'') pattern (lit ''$1.'');
          pattern = regex_replace_all pe (backslash @ backslash @ lit ''_'') pattern (lit ''_'');
          pattern = collapse_percent pattern;
          pattern = str_replace pattern (lit ''%%%'') (lit ''(%.*)|(.*%)'');
          pattern = regex_replace_all pe (lit ''([^%])%([^%])'') pattern (lit ''$1.*$2'');
          pattern = regex_replace_all pe (lit ''^%([^%])'') pattern (lit ''.*$1'');
          pattern = regex_replace_all pe (lit ''([^%])%$'') pattern (lit ''$1.*'');
          pattern = regex_replace_all pe (lit ''%%'') pattern (lit ''%'')
      in lit ''^'' @ pattern @ lit ''$'')"

text \<open>
  \<open>NotLike\<close> compiles \<open>NOT (expr LIKE pattern)\<close>, and \<open>-c\<close> the negated constant. The operands of \<open>LIKE\<close>
  and the regular expression are checked before the expression is compiled.
\<close>

definition compile_like :: "plan_externs \<Rightarrow> Expr \<Rightarrow> typed_plan res \<Rightarrow> typed_plan res" where
  "compile_like pe pattern e =
     (case pattern of
        Const (RawStr s) \<Rightarrow> rbind e (compile_regex (like_regex pe s))
      | _ \<Rightarrow> Inl (Fail (TypeError ''Expected string constant as second argument to LIKE'')))"

definition compile_regex_match :: "plan_externs \<Rightarrow> Expr \<Rightarrow> typed_plan res \<Rightarrow> typed_plan res" where
  "compile_regex_match pe pattern e =
     (case pattern of
        Const (RawStr s) \<Rightarrow>
          if regex_valid pe s then rbind e (compile_regex s)
          else Inl (Fail (TypeError ''not a valid regex''))
      | _ \<Rightarrow> Inl (Fail (TypeError ''Expected string constant as second argument to regex'')))"

primrec compile_expr ::
    "plan_externs \<Rightarrow> (string \<rightharpoonup> Column) \<Rightarrow> nat \<Rightarrow> Filter \<Rightarrow> Expr \<Rightarrow> typed_plan res" where
  "compile_expr pe columns column_len filt (ColName name) =
     compile_colname columns column_len filt name"
| "compile_expr pe columns column_len filt (Const v) =
     (case v of
        RawInt i \<Rightarrow> Inr (const_i64 i)
      | RawStr s \<Rightarrow> Inr (const_str s)
      | _ \<Rightarrow> Inl (Fail (NotImplemented ''compile_vec'')))"
| "compile_expr pe columns column_len filt (Func1 f inner) =
     (case (f, inner) of
        (Negate, Const (RawInt i)) \<Rightarrow> Inr (const_i64 (wrap_i64 (- i)))
      | _ \<Rightarrow> rbind (compile_expr pe columns column_len filt inner) (compile_func1 column_len f))"
| "compile_expr pe columns column_len filt (Func2 f lhs rhs) =
     (let l = compile_expr pe columns column_len filt lhs; r = compile_expr pe columns column_len filt rhs in
      case f of
        Func2Type.Or \<Rightarrow> rbind l (\<lambda>l. rbind r (compile_boolean POr l))
      | Func2Type.And \<Rightarrow> rbind l (\<lambda>l. rbind r (compile_boolean PAnd l))
      | Like \<Rightarrow> compile_like pe rhs l
      | NotLike \<Rightarrow> rbind (compile_like pe rhs l) (compile_func1 column_len Func1Type.Not)
      | RegexMatch \<Rightarrow> compile_regex_match pe rhs l
      | _ \<Rightarrow> rbind l (\<lambda>l. rbind r (compile_function2 f l)))"
| "compile_expr pe columns column_len filt (Aggregate a e) =
     Inl (Fail (NotImplemented ''compile_vec''))"

section \<open>Running plans\<close>

text \<open>
  \<open>operator::filter\<close> and \<open>operator::nullable_filter\<close> exist for vectors without null map only,
  \<open>operator::select\<close> also for those with one.
\<close>

fun filter_vec :: "u8 list \<Rightarrow> vec \<Rightarrow> vec res" where
  "filter_vec f (VU8 x) = Inr (VU8 (filter_execute False x f []))"
| "filter_vec f (VU16 x) = Inr (VU16 (filter_execute False x f []))"
| "filter_vec f (VU32 x) = Inr (VU32 (filter_execute False x f []))"
| "filter_vec f (VU64 x) = Inr (VU64 (filter_execute False x f []))"
| "filter_vec f (VI64 x) = Inr (VI64 (filter_execute False x f []))"
| "filter_vec f (VF64 x) = Inr (VF64 (filter_execute False x f []))"
| "filter_vec f (VStr x) = Inr (VStr (filter_execute False x f []))"
| "filter_vec f (VNull n) = unsupported ''filter''"

fun run_filter :: "value \<Rightarrow> value \<Rightarrow> value res" where
  "run_filter (VBuf (Plain v)) (VBuf (Plain (VU8 f))) = rmap (\<lambda>w. VBuf (Plain w)) (filter_vec f v)"
| "run_filter (VUSize x) (VBuf (Plain (VU8 f))) = Inr (VUSize (filter_execute False x f []))"
| "run_filter _ _ = unsupported ''filter''"

fun nullable_filter_vec :: "u8 list \<Rightarrow> u8 list \<Rightarrow> vec \<Rightarrow> vec res" where
  "nullable_filter_vec f p (VU8 x) = rmap VU8 (nullable_filter_execute False x f p [])"
| "nullable_filter_vec f p (VU16 x) = rmap VU16 (nullable_filter_execute False x f p [])"
| "nullable_filter_vec f p (VU32 x) = rmap VU32 (nullable_filter_execute False x f p [])"
| "nullable_filter_vec f p (VU64 x) = rmap VU64 (nullable_filter_execute False x f p [])"
| "nullable_filter_vec f p (VI64 x) = rmap VI64 (nullable_filter_execute False x f p [])"
| "nullable_filter_vec f p (VF64 x) = rmap VF64 (nullable_filter_execute False x f p [])"
| "nullable_filter_vec f p (VStr x) = rmap VStr (nullable_filter_execute False x f p [])"
| "nullable_filter_vec f p (VNull n) = unsupported ''nullable_filter''"

fun run_nullable_filter :: "value \<Rightarrow> value \<Rightarrow> value res" where
  "run_nullable_filter (VBuf (Plain v)) (VBuf (Nulls (VU8 f) p)) =
     rmap (\<lambda>w. VBuf (Plain w)) (nullable_filter_vec f p v)"
| "run_nullable_filter (VUSize x) (VBuf (Nulls (VU8 f) p)) = rmap VUSize (nullable_filter_execute False x f p [])"
| "run_nullable_filter _ _ = unsupported ''nullable_filter''"

fun select_vec :: "nat list \<Rightarrow> vec \<Rightarrow> vec res" where
  "select_vec is (VU8 x) = rmap VU8 (select_execute False x is [])"
| "select_vec is (VU16 x) = rmap VU16 (select_execute False x is [])"
| "select_vec is (VU32 x) = rmap VU32 (select_execute False x is [])"
| "select_vec is (VU64 x) = rmap VU64 (select_execute False x is [])"
| "select_vec is (VI64 x) = rmap VI64 (select_execute False x is [])"
| "select_vec is (VF64 x) = rmap VF64 (select_execute False x is [])"
| "select_vec is (VStr x) = rmap VStr (select_execute False x is [])"
| "select_vec is (VNull n) = unsupported ''select''"

definition select_null :: "('a list \<Rightarrow> vec) \<Rightarrow> nat list \<Rightarrow> 'a list \<Rightarrow> u8 list \<Rightarrow> buf res" where
  "select_null mk is x p = rmap (\<lambda>(y, q). Nulls (mk y) q) (select_nullable_execute False x p is ([], []))"

fun select_nullable_vec :: "nat list \<Rightarrow> u8 list \<Rightarrow> vec \<Rightarrow> buf res" where
  "select_nullable_vec is p (VU8 x) = select_null VU8 is x p"
| "select_nullable_vec is p (VU16 x) = select_null VU16 is x p"
| "select_nullable_vec is p (VU32 x) = select_null VU32 is x p"
| "select_nullable_vec is p (VI64 x) = select_null VI64 is x p"
| "select_nullable_vec is p (VF64 x) = select_null VF64 is x p"
| "select_nullable_vec is p (VStr x) = select_null VStr is x p"
| "select_nullable_vec is p _ = unsupported ''select''"

fun run_select :: "value \<Rightarrow> value \<Rightarrow> value res" where
  "run_select (VBuf (Plain v)) (VUSize is) = rmap (\<lambda>w. VBuf (Plain w)) (select_vec is v)"
| "run_select (VBuf (Nulls v p)) (VUSize is) = rmap VBuf (select_nullable_vec is p v)"
| "run_select (VUSize x) (VUSize is) = rmap VUSize (select_execute False x is [])"
| "run_select _ _ = unsupported ''select''"

text \<open>
  The keys that \<open>Ord\<close> of the element type compares: numbers, the bytes of strings, and the rank that
  \<open>ordered_float\<close> gives a float.
\<close>

fun vec_keys :: "plan_externs \<Rightarrow> vec \<Rightarrow> int list list option" where
  "vec_keys pe (VU8 x) = Some (map (\<lambda>a. [uint a]) x)"
| "vec_keys pe (VU16 x) = Some (map (\<lambda>a. [uint a]) x)"
| "vec_keys pe (VU32 x) = Some (map (\<lambda>a. [uint a]) x)"
| "vec_keys pe (VU64 x) = Some (map (\<lambda>a. [uint a]) x)"
| "vec_keys pe (VI64 x) = Some (map (\<lambda>a. [a]) x)"
| "vec_keys pe (VF64 x) = Some (map (\<lambda>a. [float_rank pe a]) x)"
| "vec_keys pe (VStr x) = Some (map (map uint) x)"
| "vec_keys pe (VNull n) = None"

fun is_wide :: "vec \<Rightarrow> bool" where
  "is_wide (VU64 _) = True"
| "is_wide (VF64 _) = True"
| "is_wide _ = False"

fun run_sort_by :: "plan_externs \<Rightarrow> bool \<Rightarrow> bool \<Rightarrow> value \<Rightarrow> value \<Rightarrow> value res" where
  "run_sort_by pe desc st (VBuf (Plain v)) (VUSize is) =
     (case vec_keys pe v of
        Some keys \<Rightarrow> rmap VUSize (sort_by_execute (pe_sort pe) desc st keys is)
      | None \<Rightarrow> unsupported ''sort_indices'')"
| "run_sort_by pe desc st (VBuf (Nulls v p)) (VUSize is) =
     (case (v, vec_keys pe v) of
        (VU64 _, _) \<Rightarrow> unsupported ''sort_indices''
      | (_, Some keys) \<Rightarrow> rmap VUSize (sort_by_nullable_execute (pe_sort pe) desc st keys p is)
      | _ \<Rightarrow> unsupported ''sort_indices'')"
| "run_sort_by pe desc st _ _ = unsupported ''sort_indices''"

definition run_top_n :: "plan_externs \<Rightarrow> nat \<Rightarrow> bool \<Rightarrow> value \<Rightarrow> value res" where
  "run_top_n pe n desc v =
     (case v of
        VBuf (Plain w) \<Rightarrow>
          (case vec_keys pe w of
             Some keys \<Rightarrow>
               rmap VUSize (top_n_run (pe_sort pe)
                 (if desc then CmpGreaterThan else if is_wide w then CmpLessThan_wide else CmpLessThan) n [keys])
           | None \<Rightarrow> unsupported ''top_n'')
      | _ \<Rightarrow> unsupported ''top_n'')"

text \<open>fuse_nulls.rs, \<open>FuseNullsI64\<close> and \<open>FuseNullsStr\<close>.\<close>

definition fuse_nulls_i64 :: "i64 list \<Rightarrow> u8 list \<Rightarrow> i64 list" where
  "fuse_nulls_i64 input present =
     map (\<lambda>i. if bv_is_set present i then input ! i else i64_MIN) [0..<length input]"

definition fuse_nulls_str :: "rstr list \<Rightarrow> u8 list \<Rightarrow> rstr option list" where
  "fuse_nulls_str input present =
     map (\<lambda>i. if bv_is_set present i then Some (input ! i) else None) [0..<length input]"

fun run_fuse_nulls :: "value \<Rightarrow> value res" where
  "run_fuse_nulls (VBuf (Nulls (VI64 x) p)) = Inr (VBuf (Plain (VI64 (fuse_nulls_i64 x p))))"
| "run_fuse_nulls (VBuf (Nulls (VStr x) p)) = Inr (VOptStr (fuse_nulls_str x p))"
| "run_fuse_nulls _ = unsupported ''fuse_nulls''"

fun value_len :: "value \<Rightarrow> nat res" where
  "value_len (VBuf b) = Inr (vec_len (buf_vec b))"
| "value_len (VUSize x) = Inr (length x)"
| "value_len (VOptStr x) = Inr (length x)"
| "value_len _ = unsupported ''indices''"

fun run_map_str :: "(rstr \<Rightarrow> 'a) \<Rightarrow> ('a list \<Rightarrow> vec) \<Rightarrow> value \<Rightarrow> value res" where
  "run_map_str f mk (VBuf (Plain (VStr x))) = Inr (VBuf (Plain (mk (map_execute f False x []))))"
| "run_map_str f mk _ = unsupported ''str''"

fun run_not :: "value \<Rightarrow> value res" where
  "run_not (VBuf (Plain (VU8 x))) = Inr (VBuf (Plain (VU8 (map_execute boolean_not_apply False x []))))"
| "run_not _ = unsupported ''u8''"

fun run_to_year :: "plan_externs \<Rightarrow> value \<Rightarrow> value res" where
  "run_to_year pe (VBuf (Plain (VI64 x))) =
     rmap (\<lambda>y. VBuf (Plain (VI64 y))) (rmapM (\<lambda>ts. unwrap (year_of pe ts)) x)"
| "run_to_year pe _ = unsupported ''i64''"

text \<open>\<open>IsNull\<close> and \<open>IsNotNull\<close>: the operator is \<open>is_null_execute\<close> or \<open>is_not_null_execute\<close>.\<close>

fun run_null_test :: "(nat \<Rightarrow> u8 list \<Rightarrow> u8 list) \<Rightarrow> value \<Rightarrow> value res" where
  "run_null_test f (VBuf (Nulls v p)) = Inr (VBuf (Plain (VU8 (f (vec_len v) p))))"
| "run_null_test f _ = unsupported ''nullable''"

text \<open>\<open>ConstantExpand\<close> in one batch: \<open>batch_size\<close> copies, cut to \<open>len\<close>.\<close>

definition constant_expand :: "nat \<Rightarrow> i64 \<Rightarrow> nat \<Rightarrow> value" where
  "constant_expand batch_size x len = VBuf (Plain (VU8 (take len (replicate batch_size (of_int x)))))"

fun floats :: "plan_externs \<Rightarrow> vec \<Rightarrow> f64 list option" where
  "floats pe (VF64 x) = Some x"
| "floats pe v = map_option (map (\<lambda>p. float_of_i64 pe (to_i64 p))) (prims v)"

text \<open>\<open>operator::multiplication\<close> with a float output.\<close>

definition run_multiply_f64 :: "plan_externs \<Rightarrow> operand \<Rightarrow> operand \<Rightarrow> f64 list res" where
  "run_multiply_f64 pe l r =
     (let f = (\<lambda>a b. Inr (float_mul pe a b)) in
      case (l, r) of
        (OScalarI64 x, OVec (VF64 y)) \<Rightarrow> binary_sv_execute f False (float_of_i64 pe x) y []
      | (OVec (VF64 x), OScalarI64 y) \<Rightarrow> binary_vs_execute f False x (float_of_i64 pe y) []
      | (OVec v, OVec w) \<Rightarrow>
          (case (floats pe v, floats pe w) of
             (Some x, Some y) \<Rightarrow> if is_wide v \<or> is_wide w then binary_execute f False x y []
                                 else unsupported ''multiplication''
           | _ \<Rightarrow> unsupported ''multiplication'')
      | _ \<Rightarrow> unsupported ''multiplication'')"

definition as_buffer :: "value res \<Rightarrow> buf res" where
  "as_buffer r = rbind r (\<lambda>v. case v of VBuf b \<Rightarrow> Inr b | _ \<Rightarrow> unsupported ''buffer'')"

text \<open>
  The value of a plan over the columns of a partition with \<open>n\<close> rows. The errors of \<open>prepare\<close>, which
  come before anything runs in the source, come here when the operation is reached.
\<close>

primrec eval :: "plan_externs \<Rightarrow> (string \<rightharpoonup> Column) \<Rightarrow> nat \<Rightarrow> QueryPlan \<Rightarrow> value res" where
  "eval pe columns n (Decode name d) =
     (case columns name of
        None \<Rightarrow> Inl Panicked
      | Some c \<Rightarrow> rmap VBuf (eval_plan (pe_ext pe) c (map_dplan as_buffer (map_dplan (eval pe columns n) d))))"
| "eval pe columns n (PFilter p s) =
     rbind (eval pe columns n p) (\<lambda>v. rbind (eval pe columns n s) (\<lambda>f. run_filter v f))"
| "eval pe columns n (PNullableFilter p s) =
     rbind (eval pe columns n p) (\<lambda>v. rbind (eval pe columns n s) (\<lambda>f. run_nullable_filter v f))"
| "eval pe columns n (PSelect p s) =
     rbind (eval pe columns n p) (\<lambda>v. rbind (eval pe columns n s) (\<lambda>is. run_select v is))"
| "eval pe columns n (PNullVec len) = Inr (VBuf (Plain (VNull len)))"
| "eval pe columns n (PScalarI64 x) = Inr (VScalarI64 x)"
| "eval pe columns n (PScalarStr s) = Inr (VScalarStr s)"
| "eval pe columns n (PInverseDictLookup name di dd s) =
     (case columns name of
        None \<Rightarrow> Inl Panicked
      | Some c \<Rightarrow>
          rbind (eval_plan (pe_ext pe) c (map_dplan as_buffer (map_dplan (eval pe columns n) di))) (\<lambda>i.
          rbind (eval_plan (pe_ext pe) c (map_dplan as_buffer (map_dplan (eval pe columns n) dd))) (\<lambda>d.
          rbind (as_u64 i) (\<lambda>i. rbind (as_u8 d) (\<lambda>d.
            rmap VScalarI64 (inverse_dict_lookup_execute i d s))))))"
| "eval pe columns n (PConstantExpand x len) = Inr (constant_expand n x len)"
| "eval pe columns n (PCompare c l r) =
     rbind (eval pe columns n l) (\<lambda>x. rbind (eval pe columns n r) (\<lambda>y. run_comparison c n x y))"
| "eval pe columns n (PChecked a l r) =
     rbind (eval pe columns n l) (\<lambda>x. rbind (eval pe columns n r) (\<lambda>y. run_checked a n x y))"
| "eval pe columns n (PMultiplyF64 l r) =
     rbind (eval pe columns n l) (\<lambda>x. rbind (eval pe columns n r) (\<lambda>y.
     rbind (forget_nullability x) (\<lambda>lhs. rbind (forget_nullability y) (\<lambda>rhs.
       rmap (\<lambda>z. VBuf (combine_nulls n x y (VF64 z))) (run_multiply_f64 pe lhs rhs)))))"
| "eval pe columns n (PAnd l r) =
     rbind (eval pe columns n l) (\<lambda>x. rbind (eval pe columns n r) (\<lambda>y. run_boolean boolean_and_evaluate n x y))"
| "eval pe columns n (POr l r) =
     rbind (eval pe columns n l) (\<lambda>x. rbind (eval pe columns n r) (\<lambda>y. run_boolean boolean_or_evaluate n x y))"
| "eval pe columns n (PNot p) = rbind (eval pe columns n p) run_not"
| "eval pe columns n (PToYear p) = rbind (eval pe columns n p) (run_to_year pe)"
| "eval pe columns n (PRegex p pattern) =
     rassert (regex_valid pe pattern)
       (rbind (eval pe columns n p) (run_map_str (\<lambda>s. of_bool (regex_find pe pattern s)) VU8))"
| "eval pe columns n (PLength p) = rbind (eval pe columns n p) (run_map_str length_apply VI64)"
| "eval pe columns n (PIsNull p) =
     rbind (eval pe columns n p) (run_null_test (\<lambda>len present. is_null_execute False len present []))"
| "eval pe columns n (PIsNotNull p) =
     rbind (eval pe columns n p) (run_null_test (\<lambda>len present. is_not_null_execute False len present []))"
| "eval pe columns n (PIndices p) =
     rbind (eval pe columns n p) (\<lambda>v. rmap (\<lambda>len. VUSize [0..<len]) (value_len v))"
| "eval pe columns n (PSortBy ranking indices desc st) =
     rbind (eval pe columns n ranking) (\<lambda>v. rbind (eval pe columns n indices) (\<lambda>is. run_sort_by pe desc st v is))"
| "eval pe columns n (PTopN ranking k desc) = rbind (eval pe columns n ranking) (run_top_n pe k desc)"
| "eval pe columns n (PFuseNulls p) = rbind (eval pe columns n p) run_fuse_nulls"

end
