(* ===== verification/Expr_Correct.thy ===== *)
theory Expr_Correct
  imports Expr_Compile
begin

text \<open>
  Compiled expressions compute what the expression means row by row. The meaning (\<open>expr_cell\<close>) does
  not mention encodings: it reads the values of the columns at a row, compares and calculates. The
  compiled plan works on encoded vectors, compares codes instead of strings and shifted integers
  instead of integers, and runs on the rows that the filter leaves.
\<close>

section \<open>Decoding plans over any inputs\<close>

text \<open>\<open>decode\<close> treats the inputs of a plan as opaque.\<close>

definition map_ref :: "('p \<Rightarrow> 'q) \<Rightarrow> 'p tplan \<Rightarrow> 'q tplan" where
  "map_ref f p = (map_dplan f (fst p), snd p)"

lemma map_ref_simps [simp]: "fst (map_ref f p) = map_dplan f (fst p)" "snd (map_ref f p) = snd p"
  "map_ref f (d, t) = (map_dplan f d, t)"
  by (simp_all add: map_ref_def)

lemma expect_map_ref: "expect t (map_ref f p) = rmap (map_dplan f) (expect t p)"
  by (simp add: expect_def)

lemma decode_step_natural:
  "decode_step c (map (map_ref f) stack) op = rmap (map (map_ref f)) (decode_step c stack op)"
proof (cases op)
  case Nullable
  show ?thesis
  proof (cases "\<exists>p d rest. stack = p # d # rest")
    case True
    then obtain p d rest where "stack = p # d # rest" by blast
    with Nullable show ?thesis
      by (cases "expect EU8 p"; cases "nullable (snd d)") (simp_all add: expect_map_ref)
  next
    case False
    with Nullable show ?thesis by (auto split: list.splits)
  qed
next
  case (DictLookup t)
  show ?thesis
  proof (cases "\<exists>a b x rest. stack = a # b # x # rest")
    case True
    then obtain a b x rest where "stack = a # b # x # rest" by blast
    with DictLookup show ?thesis
      by (cases "expect EU64 b"; cases "expect EU8 a") (simp_all add: expect_map_ref)
  next
    case False
    with DictLookup show ?thesis by (auto split: list.splits)
  qed
next
  case (PushDataSection i)
  then show ?thesis by (cases "index (c_section_types c) i") auto
next
  case (LZ4 t n)
  show ?thesis
  proof (cases stack)
    case (Cons a rest)
    with LZ4 show ?thesis by (cases "expect EU8 a") (simp_all add: expect_map_ref)
  qed (simp add: LZ4)
next
  case UnpackStrings
  show ?thesis
  proof (cases stack)
    case (Cons a rest)
    with UnpackStrings show ?thesis by (cases "expect EU8 a") (simp_all add: expect_map_ref)
  qed (simp add: UnpackStrings)
next
  case (UnhexpackStrings u n)
  show ?thesis
  proof (cases stack)
    case (Cons a rest)
    with UnhexpackStrings show ?thesis by (cases "expect EU8 a") (simp_all add: expect_map_ref)
  qed (simp add: UnhexpackStrings)
qed (cases stack; simp; fail)+

lemma decode_fold_natural:
  "rfoldM (decode_step c) (map (map_ref f) stack) ops = rmap (map (map_ref f)) (rfoldM (decode_step c) stack ops)"
proof (induction ops arbitrary: stack)
  case (Cons op ops)
  then show ?case by (cases "decode_step c stack op") (simp_all add: decode_step_natural)
qed simp

lemma decode_ops_natural: "decode_ops c ops (map_ref f p) = rmap (map_ref f) (decode_ops c ops p)"
proof -
  have "rfoldM (decode_step c) [map_ref f p] ops = rmap (map (map_ref f)) (rfoldM (decode_step c) [p] ops)"
    using decode_fold_natural [of c f "[p]" ops] by simp
  then show ?thesis
    by (cases "rfoldM (decode_step c) [p] ops") (auto simp: decode_ops_def split: list.splits)
qed

section \<open>Plans for columns\<close>

abbreviation inputs_of :: "plan_externs \<Rightarrow> (string \<rightharpoonup> Column) \<Rightarrow> nat \<Rightarrow> QueryPlan dplan \<Rightarrow> buf res dplan" where
  "inputs_of pe columns n \<equiv> map_dplan (\<lambda>p. as_buffer (eval pe columns n p))"

lemma eval_Decode:
  "eval pe columns n (Decode name d) =
     (case columns name of
        None \<Rightarrow> Inl Panicked
      | Some c \<Rightarrow> rmap VBuf (eval_plan (pe_ext pe) c (inputs_of pe columns n d)))"
  by (simp add: dplan.map_comp comp_def split: option.split)

declare eval.simps(1) [simp del]

lemma wrap_decode_eval:
  assumes "columns name = Some c" and "eval_plan (pe_ext pe) c (inputs_of pe columns n d) = Inr b"
  shows "eval pe columns n (fst (wrap_decode name (d, t))) = Inr (VBuf b)" and "snd (wrap_decode name (d, t)) = t"
proof -
  show "snd (wrap_decode name (d, t)) = t" by (simp add: wrap_decode_def split: dplan.split)
  show "eval pe columns n (fst (wrap_decode name (d, t))) = Inr (VBuf b)"
  proof (cases "\<exists>q. d = Input q")
    case True
    with assms(2) obtain q v where "d = Input q" "eval pe columns n q = Inr v"
      "(case v of VBuf b \<Rightarrow> Inr b | _ \<Rightarrow> unsupported ''buffer'') = Inr b" by (auto simp: as_buffer_def)
    then show ?thesis by (cases v) (simp_all add: wrap_decode_def)
  next
    case False
    then have "fst (wrap_decode name (d, t)) = Decode name d" by (simp add: wrap_decode_def split: dplan.split)
    then show ?thesis using assms by (simp add: eval_Decode)
  qed
qed

text \<open>
  If the operations of a codec turn one buffer into another, then decoding a plan for the first
  buffer gives a plan for the second.
\<close>

lemma decode_ops_eval:
  assumes col: "col_typed col" and c: "c_column_name c = c_column_name (col_codec col)"
      "c_section_types c = c_section_types (col_codec col)"
    and exec: "rfoldM (exec_step (pe_ext pe) col) [b] ops = Inr [b']"
    and start: "eval_plan (pe_ext pe) col (inputs_of pe columns n d) = Inr b" "buf_has_tag b t"
  obtains d' t' where "decode_ops c ops (d, t) = Inr (d', t')"
    "eval_plan (pe_ext pe) col (inputs_of pe columns n d') = Inr b'" "buf_has_tag b' t'"
proof -
  let ?g = "\<lambda>p. as_buffer (eval pe columns n p)"
  have "list_all2 (denotes (pe_ext pe) col) [map_ref ?g (d, t)] [b]"
    using start by (simp add: denotes_def)
  from exec_simulated [OF exec this col] obtain ps' where
    "rfoldM (decode_step (col_codec col)) [map_ref ?g (d, t)] ops = Inr ps'"
    "list_all2 (denotes (pe_ext pe) col) ps' [b']" by blast
  then obtain q where q: "decode_ops (col_codec col) ops (map_ref ?g (d, t)) = Inr q" "denotes (pe_ext pe) col q b'"
    by (auto simp: decode_ops_Inr_iff list_all2_Cons2)
  have "rmap (map_ref ?g) (decode_ops c ops (d, t)) = Inr q"
    using q(1) decode_ops_cong [OF c, of ops "map_ref ?g (d, t)"] decode_ops_natural [of c ops ?g "(d, t)"] by simp
  then obtain r where r: "decode_ops c ops (d, t) = Inr r" "q = map_ref ?g r" by (auto simp: rmap_Inr_iff)
  with q(2) show thesis by (intro that [of "fst r" "snd r"]) (simp_all add: denotes_def)
qed

section \<open>Selecting rows\<close>

fun vec_pick :: "nat list \<Rightarrow> vec \<Rightarrow> vec" where
  "vec_pick js (VU8 x) = VU8 (map ((!) x) js)"
| "vec_pick js (VU16 x) = VU16 (map ((!) x) js)"
| "vec_pick js (VU32 x) = VU32 (map ((!) x) js)"
| "vec_pick js (VU64 x) = VU64 (map ((!) x) js)"
| "vec_pick js (VI64 x) = VI64 (map ((!) x) js)"
| "vec_pick js (VF64 x) = VF64 (map ((!) x) js)"
| "vec_pick js (VStr x) = VStr (map ((!) x) js)"
| "vec_pick js (VNull n) = VNull (length js)"

lemma vec_pick_facts [simp]:
  "vec_len (vec_pick js v) = length js" "vec_tag (vec_pick js v) = vec_tag v"
  "k < length js \<Longrightarrow> vec_cell (vec_pick js v) k = vec_cell v (js ! k)"
  by (cases v; simp)+

lemma vec_pick_all: "vec_len v = n \<Longrightarrow> vec_pick [0..<n] v = v"
proof -
  have "map ((!) x) [0..<length x] = x" for x :: "'a list" by (rule map_nth)
  then show "vec_len v = n \<Longrightarrow> vec_pick [0..<n] v = v" by (cases v) auto
qed

text \<open>The rows that a filter leaves, in order.\<close>

definition filter_selects :: "plan_externs \<Rightarrow> (string \<rightharpoonup> Column) \<Rightarrow> nat \<Rightarrow> Filter \<Rightarrow> nat list \<Rightarrow> bool" where
  "filter_selects pe columns n filt js \<longleftrightarrow>
     (case filt of
        FNone \<Rightarrow> js = [0..<n]
      | FU8 p \<Rightarrow> (\<exists>f. eval pe columns n p = Inr (VBuf (Plain (VU8 f))) \<and> length f = n \<and>
                  js = filter (\<lambda>i. f ! i > 0) [0..<n])
      | FNullableU8 p \<Rightarrow> (\<exists>f present. eval pe columns n p = Inr (VBuf (Nulls (VU8 f) present)) \<and> length f = n \<and>
                  js = filter (\<lambda>i. f ! i > 0 \<and> bv_is_set present i) [0..<n])
      | FIndices p \<Rightarrow> eval pe columns n p = Inr (VUSize js) \<and> (\<forall>j \<in> set js. j < n))"

lemma filter_selects_less: "filter_selects pe columns n filt js \<Longrightarrow> j \<in> set js \<Longrightarrow> j < n"
  by (auto simp: filter_selects_def split: Filter.splits)

lemma filter_execute_pick:
  assumes "length x = n" "length f = n"
  shows "filter_execute False x f [] = map ((!) x) (filter (\<lambda>i. f ! i > 0) [0..<n])"
proof -
  have "zip x f = map (\<lambda>i. (x ! i, f ! i)) [0..<n]"
    by (rule nth_equalityI) (use assms in auto)
  then show ?thesis
    by (simp add: filter_execute_def filter_loop_eq cleared_def filter_map comp_def)
qed

lemma select_execute_pick:
  "\<forall>j \<in> set js. j < length x \<Longrightarrow> select_execute False x js [] = Inr (map ((!) x) js)"
  by (simp add: select_execute_eq cleared_def)

lemma nullable_filter_execute_pick:
  "length x = n \<Longrightarrow> length f = n \<Longrightarrow> nullable_filter_execute False x f present [] =
     Inr (map ((!) x) (filter (\<lambda>i. f ! i > 0 \<and> bv_is_set present i) [0..<n]))"
  by (simp add: nullable_filter_execute_eq cleared_def)

lemma apply_filter_pick:
  assumes sel: "filter_selects pe columns n filt js"
    and p: "eval pe columns n p = Inr (VBuf (Plain v))" and v: "vec_len v = n" "vec_tag v \<noteq> ENull"
  shows "eval pe columns n (fst (apply_filter filt (p, t))) = Inr (VBuf (Plain (vec_pick js v)))"
    and "snd (apply_filter filt (p, t)) = t"
proof -
  show "snd (apply_filter filt (p, t)) = t" by (simp add: apply_filter_def split: Filter.split)
  show "eval pe columns n (fst (apply_filter filt (p, t))) = Inr (VBuf (Plain (vec_pick js v)))"
  proof (cases filt)
    case FNone
    with sel p v show ?thesis by (simp add: apply_filter_def filter_selects_def vec_pick_all)
  next
    case (FU8 s)
    with sel obtain f where f: "eval pe columns n s = Inr (VBuf (Plain (VU8 f)))" "length f = n"
      "js = filter (\<lambda>i. f ! i > 0) [0..<n]" by (auto simp: filter_selects_def)
    have "filter_vec f v = Inr (vec_pick js v)"
      using v f by (cases v) (simp_all add: filter_execute_pick)
    with FU8 f p show ?thesis by (simp add: apply_filter_def)
  next
    case (FNullableU8 s)
    with sel obtain f pr where f: "eval pe columns n s = Inr (VBuf (Nulls (VU8 f) pr))" "length f = n"
      "js = filter (\<lambda>i. f ! i > 0 \<and> bv_is_set pr i) [0..<n]" by (auto simp: filter_selects_def)
    have "nullable_filter_vec f pr v = Inr (vec_pick js v)"
      using v f by (cases v) (simp_all add: nullable_filter_execute_pick)
    with FNullableU8 f p show ?thesis by (simp add: apply_filter_def)
  next
    case (FIndices s)
    with sel have s: "eval pe columns n s = Inr (VUSize js)" "\<forall>j \<in> set js. j < n" by (auto simp: filter_selects_def)
    have "select_vec js v = Inr (vec_pick js v)"
      using v s by (cases v) (simp_all add: select_execute_pick)
    with FIndices s p show ?thesis by (simp add: apply_filter_def)
  qed
qed

section \<open>Element-wise codecs\<close>

text \<open>The sequences of operations that remain of the codecs of the column writers.\<close>

fun fixed_ops :: "CodecOp list \<Rightarrow> bool" where
  "fixed_ops [] = True"
| "fixed_ops [CodecOp.Add _ _] = True"
| "fixed_ops [ToI64 _] = True"
| "fixed_ops [PushDataSection i, PushDataSection j, DictLookup _] = (i = 1 \<and> j = 2)"
| "fixed_ops _ = False"

lemma fixed_ops_cases:
  assumes "fixed_ops ops"
  obtains (identity) "ops = []" | (offset) t x where "ops = [CodecOp.Add t x]" | (cast) t where "ops = [ToI64 t]"
    | (dictionary) t where "ops = [PushDataSection 1, PushDataSection 2, DictLookup t]"
  using assms by (cases ops rule: fixed_ops.cases) auto

lemma rmapM_pick:
  assumes "rmapM f xs = Inr ys" and "\<forall>j \<in> set js. j < length xs"
  shows "rmapM f (map ((!) xs) js) = Inr (map ((!) ys) js)"
proof -
  have "f (xs ! i) = Inr (ys ! i)" if "i < length xs" for i
    using assms(1) that
  proof (induction xs arbitrary: ys i)
    case (Cons x xs)
    then show ?case by (cases i) auto
  qed simp
  then show ?thesis using assms(2) by (simp add: rmapM_map rmapM_Inr_map [where g = "(!) ys"])
qed

lemma vec_addition_pick:
  assumes "vec_addition y v = Inr w" and "\<forall>j \<in> set js. j < vec_len v"
  shows "vec_len w = vec_len v" and "vec_addition y (vec_pick js v) = Inr (vec_pick js w)"
  using assms by (cases v; auto)+

lemma vec_cast_pick:
  assumes "vec_cast_i64 v = Inr w" and "\<forall>j \<in> set js. j < vec_len v"
  shows "vec_len w = vec_len v" and "vec_cast_i64 (vec_pick js v) = Inr (vec_pick js w)"
  using assms by (cases v; auto)+

lemma vec_indices_pick:
  assumes "vec_indices v = Inr is" and "\<forall>j \<in> set js. j < vec_len v"
  shows "length is = vec_len v" and "vec_indices (vec_pick js v) = Inr (map ((!) is) js)"
  using assms by (cases v; auto)+

lemma vec_dict_pick:
  assumes "vec_dict_lookup di dd v = Inr w" and js: "\<forall>j \<in> set js. j < vec_len v"
  shows "vec_len w = vec_len v" and "vec_dict_lookup di dd (vec_pick js v) = Inr (vec_pick js w)"
proof -
  let ?f = "\<lambda>i. rbind (index di i) (entry_slice dd)"
  obtain "is" ss where i: "vec_indices v = Inr is" "rmapM ?f is = Inr ss" "w = VStr ss"
    using assms(1) by (auto simp: vec_dict_lookup_def dict_lookup_execute_rmapM cleared_def rmap_Inr_iff)
  note len = vec_indices_pick(1) [OF i(1) js]
  show "vec_len w = vec_len v" using rmapM_Inr_length [OF i(2)] i(3) len by simp
  have "rmapM ?f (map ((!) is) js) = Inr (map ((!) ss) js)"
    by (rule rmapM_pick [OF i(2)]) (use js len in simp)
  then show "vec_dict_lookup di dd (vec_pick js v) = Inr (vec_pick js w)"
    using vec_indices_pick(2) [OF i(1) js] i(3)
    by (simp add: vec_dict_lookup_def dict_lookup_execute_rmapM cleared_def)
qed

text \<open>Decoding the selected rows is selecting from the decoded rows.\<close>

lemma fixed_exec_pick:
  assumes "fixed_ops ops" and ex: "rfoldM (exec_step ext col) [Plain v] ops = Inr [Plain w]"
    and js: "\<forall>j \<in> set js. j < vec_len v"
  shows "vec_len w = vec_len v \<and> rfoldM (exec_step ext col) [Plain (vec_pick js v)] ops = Inr [Plain (vec_pick js w)]"
  using assms(1)
proof (cases rule: fixed_ops_cases)
  case identity
  with ex show ?thesis by simp
next
  case (offset t x)
  with ex have "vec_addition x v = Inr w" by (auto simp: rmap_Inr_iff)
  with offset js show ?thesis using vec_addition_pick [of x v w js] by simp
next
  case (cast t)
  with ex have "vec_cast_i64 v = Inr w" by (auto simp: rmap_Inr_iff)
  with cast js show ?thesis using vec_cast_pick [of v w js] by simp
next
  case (dictionary t)
  with ex obtain d1 d2 di dd where d: "index (col_data col) 1 = Inr d1" "index (col_data col) 2 = Inr d2"
    "as_u64 (Plain (section_vec d1)) = Inr di" "as_u8 (Plain (section_vec d2)) = Inr dd"
    "vec_dict_lookup di dd v = Inr w" by (auto simp: rmap_Inr_iff)
  show ?thesis using vec_dict_pick [OF d(5) js] d dictionary by simp
qed

section \<open>Columns\<close>

text \<open>
  What the theorem assumes of a column without nulls, and what the writers establish: its codec is
  \<open>pre @ ops\<close>, where \<open>pre\<close> makes the elements addressable and gives the vector \<open>v\<close> of codes, and \<open>ops\<close>
  turns these element by element into the vector \<open>w\<close> of \<open>n\<close> values of type \<open>k\<close>.
\<close>

definition column_holds ::
    "plan_externs \<Rightarrow> string \<Rightarrow> Column \<Rightarrow> nat \<Rightarrow> BasicType \<Rightarrow> CodecOp list \<Rightarrow> vec \<Rightarrow> vec \<Rightarrow> bool" where
  "column_holds pe name c n k ops v w \<longleftrightarrow>
     col_typed c \<and> c_column_name (col_codec c) = name \<and> c_decoded_type (col_codec c) = k \<and>
     vec_kind w = Some k \<and> vec_tag w \<in> {EI64, EStr} \<and>
     vec_len v = n \<and> vec_tag v \<noteq> ENull \<and> fixed_ops ops \<and>
     rfoldM (exec_step (pe_ext pe) c) [Plain v] ops = Inr [Plain w] \<and>
     (\<exists>pre. c_ops (col_codec c) = pre @ ops \<and>
        rfoldM (exec_step (pe_ext pe) c) [Plain (section_vec (hd (col_data c)))] pre = Inr [Plain v] \<and>
        (if c_is_fixed_width (col_codec c) then pre = []
         else ensure_property (c_ops (col_codec c)) op_is_elementwise_decodable = Inr (pre, ops) \<and>
              (ops \<noteq> [] \<longrightarrow> (\<exists>c'. codec_new ops (c_section_types (col_codec c)) = Inr c' \<and> c_decoded_type c' = k))))"

lemma column_ref_eval:
  assumes h: "column_holds pe name c n k ops v w" and col: "columns name = Some c"
  obtains p t codec where "column_ref name c = Inr ((p, vec_tag v), t)" "eval pe columns n p = Inr (VBuf (Plain v))"
    "ty_codec t = Some codec" "ty_decoded t = k" "\<not> ty_is_scalar t" "c_ops codec = ops"
    "c_column_name codec = name" "ops = [] \<or> c_section_types codec = c_section_types (col_codec c)"
proof -
  obtain d ds where ds: "col_data c = d # ds" using h by (cases "col_data c") (auto simp: column_holds_def col_typed_def)
  have enc: "encoding_type (col_codec c) = Inr (section_encoding_type d)"
    using h ds by (simp add: column_holds_def encoding_type_def col_typed_def index_def)
  have name: "c_column_name (col_codec c) = name" and k: "c_decoded_type (col_codec c) = k" and typed: "col_typed c"
    using h by (auto simp: column_holds_def)
  obtain pre where pre: "c_ops (col_codec c) = pre @ ops"
    "rfoldM (exec_step (pe_ext pe) c) [Plain (section_vec d)] pre = Inr [Plain v]"
    "if c_is_fixed_width (col_codec c) then pre = []
         else ensure_property (c_ops (col_codec c)) op_is_elementwise_decodable = Inr (pre, ops) \<and>
              (ops \<noteq> [] \<longrightarrow> (\<exists>c'. codec_new ops (c_section_types (col_codec c)) = Inr c' \<and> c_decoded_type c' = k))"
    using h ds by (auto simp: column_holds_def)
  have start: "eval_plan (pe_ext pe) c (inputs_of pe columns n (ColumnSection name 0)) = Inr (Plain (section_vec d))"
    "buf_has_tag (Plain (section_vec d)) (section_encoding_type d)"
    using ds by (simp_all add: index_def)
  show thesis
  proof (cases "c_is_fixed_width (col_codec c)")
    case True
    then have "pre = []" using pre(3) by simp
    with pre have v: "v = section_vec d" and ops: "c_ops (col_codec c) = ops" by simp_all
    show thesis
      by (rule that [of "Decode name (ColumnSection name 0)" "full_type c" "col_codec c"])
         (use True enc start col ops k name in
          \<open>simp_all add: column_ref_def v eval_Decode full_type_def basic_type_def type_new_def\<close>)
  next
    case False
    obtain codec where codec: "(if ops = [] then Inr (codec_identity k) else codec_new ops (c_section_types (col_codec c))) = Inr codec"
      "c_ops codec = ops" "c_decoded_type codec = k" "ops = [] \<or> c_section_types codec = c_section_types (col_codec c)"
    proof (cases "ops = []")
      case True
      then show thesis by (intro that [of "codec_identity k"]) (simp_all add: codec_identity_def)
    next
      case False
      then show thesis using pre(3) \<open>\<not> c_is_fixed_width (col_codec c)\<close> codec_new_fields that by auto
    qed
    obtain d' t' where dec: "decode_ops (col_codec c) pre (ColumnSection name 0, section_encoding_type d) = Inr (d', t')"
      and ev: "eval_plan (pe_ext pe) c (inputs_of pe columns n d') = Inr (Plain v)" and tag: "buf_has_tag (Plain v) t'"
      using decode_ops_eval [OF typed refl refl pre(2) start] by blast
    have efw: "ensure_fixed_width (col_codec c) (ColumnSection name 0, section_encoding_type d) =
        Inr (set_column_name codec name, (d', t'))"
      using pre(3) False codec(1) dec k name by (cases "ops = []") (auto simp: ensure_fixed_width_def)
    note w = wrap_decode_eval [OF col ev, of t']
    show thesis
      by (rule that [of "fst (wrap_decode name (d', t'))" "type_encoded (set_column_name codec name)" "set_column_name codec name"])
         (use False enc efw w tag codec in \<open>simp_all add: column_ref_def type_encoded_def set_column_name_def prod_eq_iff\<close>)
  qed
qed

text \<open>The plan of a column on the selected rows: its codes, and the plan that decodes them.\<close>

lemma compile_colname_eval:
  assumes h: "column_holds pe name c n k ops v w" and col: "columns name = Some c"
    and sel: "filter_selects pe columns n filt js"
  obtains p t codec q tag where
    "compile_colname columns n filt name = Inr ((p, vec_tag v), t)" "eval pe columns n p = Inr (VBuf (Plain (vec_pick js v)))"
    "ty_codec t = Some codec" "ty_decoded t = k" "\<not> ty_is_scalar t" "c_ops codec = ops" "c_column_name codec = name"
    "decode_type t (p, vec_tag v) = Inr (q, vec_tag w)" "eval pe columns n q = Inr (VBuf (Plain (vec_pick js w)))"
proof -
  obtain p t codec where r: "column_ref name c = Inr ((p, vec_tag v), t)" "eval pe columns n p = Inr (VBuf (Plain v))"
    "ty_codec t = Some codec" "ty_decoded t = k" "\<not> ty_is_scalar t" "c_ops codec = ops"
    "c_column_name codec = name" "ops = [] \<or> c_section_types codec = c_section_types (col_codec c)"
    by (rule column_ref_eval [of pe name c n k ops v w columns, OF h col])
  have f: "vec_len v = n" "vec_tag v \<noteq> ENull" "fixed_ops ops" "col_typed c" "c_column_name (col_codec c) = name"
    "rfoldM (exec_step (pe_ext pe) c) [Plain v] ops = Inr [Plain w]"
    using h by (auto simp: column_holds_def)
  have js: "\<forall>j \<in> set js. j < vec_len v" using filter_selects_less [OF sel] f(1) by blast
  let ?p = "fst (apply_filter filt (p, vec_tag v))"
  note pick = apply_filter_pick [OF sel r(2) f(1,2), of "vec_tag v"]
  have compiled: "compile_colname columns n filt name = Inr ((?p, vec_tag v), t)"
    using r(1) col pick(2) by (simp add: compile_colname_def prod_eq_iff)
  have ex: "rfoldM (exec_step (pe_ext pe) c) [Plain (vec_pick js v)] ops = Inr [Plain (vec_pick js w)]"
    using fixed_exec_pick [OF f(3,6) js] by blast
  have inp: "eval_plan (pe_ext pe) c (inputs_of pe columns n (Input ?p)) = Inr (Plain (vec_pick js v))"
    "buf_has_tag (Plain (vec_pick js v)) (vec_tag v)"
    using pick(1) by (simp_all add: as_buffer_def)
  show thesis
  proof (cases "ops = []")
    case True
    then have "vec_pick js w = vec_pick js v" "w = v" using ex f(6) by auto
    moreover have "decode_type t (?p, vec_tag v) = Inr (?p, vec_tag v)"
      using r(3,6) True by (simp add: decode_type_def decode_ref_def decode_def wrap_decode_def)
    ultimately show thesis using that [OF compiled pick(1) r(3-7)] pick(1) by simp
  next
    case False
    then have st: "c_section_types codec = c_section_types (col_codec c)" using r(8) by simp
    obtain d' t' where d: "decode_ops codec ops (Input ?p, vec_tag v) = Inr (d', t')"
      "eval_plan (pe_ext pe) c (inputs_of pe columns n d') = Inr (Plain (vec_pick js w))"
      "buf_has_tag (Plain (vec_pick js w)) t'"
      using decode_ops_eval [OF f(4) _ st ex inp] r(7) f(5) by metis
    note we = wrap_decode_eval [OF col d(2), of t']
    have "decode_type t (?p, vec_tag v) = Inr (fst (wrap_decode name (d', t')), vec_tag w)"
      using r(3,6,7) d(1,3) we(2) by (simp add: decode_type_def decode_ref_def decode_def prod_eq_iff)
    with that [OF compiled pick(1) r(3-7)] we(1) show thesis by blast
  qed
qed

section \<open>What an expression means\<close>

fun cell_func2 :: "Func2Type \<Rightarrow> cell \<Rightarrow> cell \<Rightarrow> cell res" where
  "cell_func2 Equals l r = Inr (cell_compare CmpEq l r)"
| "cell_func2 NotEquals l r = Inr (cell_compare CmpNeq l r)"
| "cell_func2 LT l r = Inr (cell_compare CmpLT l r)"
| "cell_func2 LTE l r = Inr (cell_compare CmpLTE l r)"
| "cell_func2 GT l r = Inr (cell_compare CmpLT r l)"
| "cell_func2 GTE l r = Inr (cell_compare CmpLTE r l)"
| "cell_func2 Func2Type.Add l r = cell_checked Addition l r"
| "cell_func2 Subtract l r = cell_checked Subtraction l r"
| "cell_func2 Multiply l r = cell_checked Multiplication l r"
| "cell_func2 Divide l r = cell_checked Division l r"
| "cell_func2 Modulo l r = cell_checked ModuloOp l r"
| "cell_func2 Func2Type.And (CInt l) (CInt r) = Inr (CInt (of_bool (l \<noteq> 0 \<and> r \<noteq> 0)))"
| "cell_func2 Func2Type.Or (CInt l) (CInt r) = Inr (CInt (of_bool (l \<noteq> 0 \<or> r \<noteq> 0)))"
| "cell_func2 _ _ _ = Inr CNull"

fun cell_regex :: "plan_externs \<Rightarrow> rstr \<Rightarrow> cell \<Rightarrow> cell" where
  "cell_regex pe pattern (CStr s) = CInt (of_bool (regex_find pe pattern s))"
| "cell_regex pe pattern _ = CNull"

fun cell_func1 :: "plan_externs \<Rightarrow> Func1Type \<Rightarrow> cell \<Rightarrow> cell res" where
  "cell_func1 pe Negate (CInt x) = Inr (CInt (wrap_i64 (- x)))"
| "cell_func1 pe Func1Type.Not (CInt x) = Inr (CInt (of_bool (x = 0)))"
| "cell_func1 pe ToYear (CInt x) = rmap CInt (unwrap (year_of pe x))"
| "cell_func1 pe _ _ = Inr CNull"

primrec expr_cell :: "plan_externs \<Rightarrow> (string \<Rightarrow> nat \<Rightarrow> cell) \<Rightarrow> Expr \<Rightarrow> nat \<Rightarrow> cell res" where
  "expr_cell pe rows (ColName name) i = Inr (rows name i)"
| "expr_cell pe rows (Const v) i =
     (case v of RawInt x \<Rightarrow> Inr (CInt x) | RawStr s \<Rightarrow> Inr (CStr s) | _ \<Rightarrow> Inr CNull)"
| "expr_cell pe rows (Func1 f e) i = rbind (expr_cell pe rows e i) (cell_func1 pe f)"
| "expr_cell pe rows (Func2 f l r) i =
     (case (f, r) of
        (RegexMatch, Const (RawStr s)) \<Rightarrow> rmap (cell_regex pe s) (expr_cell pe rows l i)
      | (Like, Const (RawStr s)) \<Rightarrow> rmap (cell_regex pe (like_regex pe s)) (expr_cell pe rows l i)
      | (NotLike, Const (RawStr s)) \<Rightarrow>
          rbind (rmap (cell_regex pe (like_regex pe s)) (expr_cell pe rows l i)) (cell_func1 pe Func1Type.Not)
      | _ \<Rightarrow> rbind (expr_cell pe rows l i) (\<lambda>x. rbind (expr_cell pe rows r i) (\<lambda>y. cell_func2 f x y)))"
| "expr_cell pe rows (Aggregate a e) i = Inr CNull"

text \<open>
  Types: the type of an expression over columns without nulls, and whether it is a constant. Two
  constants are not combined (there is no operator for them), and \<open>length\<close> and the null tests are
  left out (their results carry the type of their argument).
\<close>

fun arith_of :: "Func2Type \<Rightarrow> arith option" where
  "arith_of Func2Type.Add = Some Addition"
| "arith_of Subtract = Some Subtraction"
| "arith_of Multiply = Some Multiplication"
| "arith_of Divide = Some Division"
| "arith_of Modulo = Some ModuloOp"
| "arith_of _ = None"

text \<open>The comparison of a function and whether it exchanges its operands.\<close>

fun compare_of :: "Func2Type \<Rightarrow> (comparison \<times> bool) option" where
  "compare_of Equals = Some (CmpEq, False)"
| "compare_of NotEquals = Some (CmpNeq, False)"
| "compare_of LT = Some (CmpLT, False)"
| "compare_of LTE = Some (CmpLTE, False)"
| "compare_of GT = Some (CmpLT, True)"
| "compare_of GTE = Some (CmpLTE, True)"
| "compare_of _ = None"

definition func2_type :: "Func2Type \<Rightarrow> (BasicType \<times> bool) \<Rightarrow> (BasicType \<times> bool) \<Rightarrow> (BasicType \<times> bool) option" where
  "func2_type f l r =
     (if snd l \<and> snd r then None
      else if arith_of f \<noteq> None \<and> fst l = BInteger \<and> fst r = BInteger then Some (BInteger, False)
      else if compare_of f \<noteq> None \<and> fst l = fst r \<and> fst l \<in> {BInteger, BString} then Some (BBoolean, False)
      else if f \<in> {Func2Type.And, Func2Type.Or} \<and> fst l = BBoolean \<and> fst r = BBoolean then Some (BBoolean, False)
      else None)"

primrec expr_type :: "plan_externs \<Rightarrow> (string \<rightharpoonup> BasicType) \<Rightarrow> Expr \<Rightarrow> (BasicType \<times> bool) option" where
  "expr_type pe types (ColName name) = map_option (\<lambda>k. (k, False)) (types name)"
| "expr_type pe types (Const v) =
     (case v of RawInt _ \<Rightarrow> Some (BInteger, True) | RawStr _ \<Rightarrow> Some (BString, True) | _ \<Rightarrow> None)"
| "expr_type pe types (Func1 f e) =
     (case (f, e) of
        (Negate, Const (RawInt _)) \<Rightarrow> Some (BInteger, True)
      | (Func1Type.Not, _) \<Rightarrow> if expr_type pe types e = Some (BBoolean, False) then Some (BBoolean, False) else None
      | (ToYear, _) \<Rightarrow> if expr_type pe types e = Some (BInteger, False) then Some (BInteger, False) else None
      | _ \<Rightarrow> None)"
| "expr_type pe types (Func2 f l r) =
     (if f = RegexMatch then
        (case r of
           Const (RawStr s) \<Rightarrow>
             if expr_type pe types l = Some (BString, False) \<and> regex_valid pe s then Some (BBoolean, False) else None
         | _ \<Rightarrow> None)
      else if f = Like \<or> f = NotLike then
        (case r of
           Const (RawStr s) \<Rightarrow>
             if expr_type pe types l = Some (BString, False) \<and> regex_valid pe (like_regex pe s)
             then Some (BBoolean, False) else None
         | _ \<Rightarrow> None)
      else
        (case (expr_type pe types l, expr_type pe types r) of
           (Some a, Some b) \<Rightarrow> func2_type f a b
         | _ \<Rightarrow> None))"
| "expr_type pe types (Aggregate a e) = None"

text \<open>Constants that are compared with a column are subject to a condition on the column.\<close>

fun const_val :: "Expr \<Rightarrow> RawVal option" where
  "const_val (Const v) = Some v"
| "const_val (Func1 Negate (Const (RawInt i))) = Some (RawInt (wrap_i64 (- i)))"
| "const_val _ = None"

definition const_pair :: "(string \<Rightarrow> comparison \<Rightarrow> RawVal \<Rightarrow> bool) \<Rightarrow> Func2Type \<Rightarrow> Expr \<Rightarrow> Expr \<Rightarrow> bool" where
  "const_pair okc f col e =
     (case (col, const_val e, compare_of f) of
        (ColName name, Some v, Some (c, _)) \<Rightarrow> okc name c v
      | _ \<Rightarrow> True)"

primrec consts_fit :: "(string \<Rightarrow> comparison \<Rightarrow> RawVal \<Rightarrow> bool) \<Rightarrow> Expr \<Rightarrow> bool" where
  "consts_fit okc (ColName name) = True"
| "consts_fit okc (Const v) = True"
| "consts_fit okc (Func1 f e) = consts_fit okc e"
| "consts_fit okc (Func2 f l r) =
     (consts_fit okc l \<and> consts_fit okc r \<and> const_pair okc f l r \<and> const_pair okc f r l)"
| "consts_fit okc (Aggregate a e) = True"

section \<open>Encoded constants\<close>

text \<open>
  The condition on a constant: shifting it by the offset of the column stays within \<open>i64\<close>, and a
  string compared by order is a string of the dictionary. The values themselves were written without
  wrap-around, the dictionary in order.
\<close>

type_synonym column_env = "string \<rightharpoonup> BasicType \<times> CodecOp list \<times> vec \<times> vec"

definition dictionary_is :: "Column \<Rightarrow> rstr list \<Rightarrow> bool" where
  "dictionary_is c ds \<longleftrightarrow> (\<exists>di dd. index (col_data c) 1 = Inr (SecU64 di) \<and> index (col_data c) 2 = Inr (SecU8 dd) \<and>
     rmapM (entry_slice dd) di = Inr ds \<and> sorted_wrt (<) ds)"

definition const_ok :: "(string \<rightharpoonup> Column) \<Rightarrow> column_env \<Rightarrow> string \<Rightarrow> comparison \<Rightarrow> RawVal \<Rightarrow> bool" where
  "const_ok columns env name c val =
     (case (columns name, env name, val) of
        (Some col, Some (k, ops, v, w), RawInt y) \<Rightarrow>
          (case ops of
             [CodecOp.Add t x] \<Rightarrow> in_i64 (y - x) \<and> (\<forall>i < vec_len v. in_i64 (cell_i64 (vec_cell v i) + x))
           | [ToI64 t] \<Rightarrow> prims v \<noteq> None
           | _ \<Rightarrow> True)
      | (Some col, Some (k, ops, v, w), RawStr s) \<Rightarrow>
          ops \<noteq> [] \<longrightarrow> vec_tag v \<in> {EU8, EU16, EU32} \<and> (\<exists>ds. dictionary_is col ds \<and> (s \<in> set ds \<or> c = CmpEq \<or> c = CmpNeq))
      | _ \<Rightarrow> True)"

lemma inverse_dict_loop_eq:
  "rmapM (entry_slice dd) di = Inr ds \<Longrightarrow>
   inverse_dict_loop k di dd s =
     Inr (if s \<in> set ds then int (k + length (takeWhile (\<lambda>x. x \<noteq> s) ds)) else - 1)"
proof (induction di arbitrary: k ds)
  case (Cons e di)
  then obtain x xs where "entry_slice dd e = Inr x" "rmapM (entry_slice dd) di = Inr xs" "ds = x # xs" by auto
  with Cons.IH [of xs "Suc k"] show ?case by simp
qed simp

lemma index_of_string:
  assumes "s \<in> set ds"
  shows "length (takeWhile (\<lambda>x. x \<noteq> s) ds) < length ds" and "ds ! length (takeWhile (\<lambda>x. x \<noteq> s) ds) = s"
proof -
  show l: "length (takeWhile (\<lambda>x. x \<noteq> s) ds) < length ds"
    using assms by (induction ds) auto
  show "ds ! length (takeWhile (\<lambda>x. x \<noteq> s) ds) = s"
    using nth_length_takeWhile [OF l] by simp
qed

lemma sorted_strict_nth:
  fixes ds :: "'a::linorder list"
  assumes "sorted_wrt (<) ds" "a < length ds" "b < length ds"
  shows "ds ! a < ds ! b \<longleftrightarrow> a < b" and "ds ! a = ds ! b \<longleftrightarrow> a = b"
proof -
  have lt: "ds ! i < ds ! j" if "i < j" "j < length ds" for i j
    using sorted_wrt_nth_less [OF assms(1)] that by simp
  show "ds ! a < ds ! b \<longleftrightarrow> a < b" "ds ! a = ds ! b \<longleftrightarrow> a = b"
    using lt [of a b] lt [of b a] assms(2,3) by (cases a b rule: linorder_cases; auto)+
qed

text \<open>Codes compare with the code of a string of the dictionary as the strings do.\<close>

lemma code_compare:
  assumes sorted: "sorted_wrt (<) (ds :: rstr list)" and a: "a < length ds"
    and s: "s \<in> set ds \<or> c = CmpEq \<or> c = CmpNeq"
    and y: "y = (if s \<in> set ds then int (length (takeWhile (\<lambda>x. x \<noteq> s) ds)) else - 1)"
  shows "cmp_perform c (int a) y = cmp_perform c (ds ! a) s" and "cmp_perform c y (int a) = cmp_perform c s (ds ! a)"
proof -
  have "cmp_perform c (int a) y = cmp_perform c (ds ! a) s \<and> cmp_perform c y (int a) = cmp_perform c s (ds ! a)"
  proof (cases "s \<in> set ds")
    case True
    let ?i = "length (takeWhile (\<lambda>x. x \<noteq> s) ds)"
    note i = index_of_string [OF True]
    note o1 = sorted_strict_nth [OF sorted a i(1)] and o2 = sorted_strict_nth [OF sorted i(1) a]
    show ?thesis using True y i(2) o1 o2 by (cases c) (auto simp: order_le_less)
  next
    case False
    then have "ds ! a \<noteq> s" using a by auto
    with False s y show ?thesis by auto
  qed
  then show "cmp_perform c (int a) y = cmp_perform c (ds ! a) s" "cmp_perform c y (int a) = cmp_perform c s (ds ! a)" by auto
qed

lemma shift_compare:
  assumes "in_i64 (y - x)" "in_i64 (a + x)"
  shows "cmp_perform c a (wrap_i64 (y - x)) = cmp_perform c (wrap_i64 (a + x)) y"
    "cmp_perform c (wrap_i64 (y - x)) a = cmp_perform c y (wrap_i64 (a + x))"
  using assms by (cases c; auto)+

text \<open>The cells of decoded vectors.\<close>

lemma vec_addition_cell:
  "vec_addition x v = Inr w \<Longrightarrow> i < vec_len v \<Longrightarrow>
   prims v \<noteq> None \<and> vec_cell v i = CInt (cell_i64 (vec_cell v i)) \<and>
   vec_cell w i = CInt (wrap_i64 (cell_i64 (vec_cell v i) + x))"
  by (cases v) (auto simp: addition_perform_def)

lemma vec_cast_cell: "vec_cast_i64 v = Inr w \<Longrightarrow> prims v \<noteq> None \<Longrightarrow> i < vec_len v \<Longrightarrow> vec_cell w i = vec_cell v i"
  by (cases v) auto

lemma vec_dict_cell:
  assumes l: "vec_dict_lookup di dd v = Inr w" and ds: "rmapM (entry_slice dd) di = Inr ds"
    and tag: "vec_tag v \<in> {EU8, EU16, EU32}" and i: "i < vec_len v"
  obtains a where "a < length ds" "vec_cell v i = CInt (int a)" "vec_cell w i = CStr (ds ! a)"
proof -
  let ?f = "\<lambda>i. rbind (index di i) (entry_slice dd)"
  obtain "is" ss where r: "vec_indices v = Inr is" "rmapM ?f is = Inr ss" "w = VStr ss"
    using l by (auto simp: vec_dict_lookup_def dict_lookup_execute_rmapM cleared_def rmap_Inr_iff)
  have len: "length is = vec_len v" using r(1) by (cases v) auto
  have "?f (is ! i) = Inr (ss ! i)" using rmapM_nth [OF r(2)] len i by simp
  then have "is ! i < length di" "entry_slice dd (di ! (is ! i)) = Inr (ss ! i)" by (auto simp: index_def split: if_splits)
  moreover have "length ds = length di" using rmapM_Inr_length [OF ds] .
  moreover have "entry_slice dd (di ! (is ! i)) = Inr (ds ! (is ! i))"
    using rmapM_nth [OF ds] calculation(1) by simp
  ultimately have a: "is ! i < length ds" "ss ! i = ds ! (is ! i)" by simp_all
  have "vec_cell v i = CInt (int (is ! i))" using r(1) tag i by (cases v) auto
  with a r(3) show thesis by (intro that [of "is ! i"]) simp_all
qed

lemma encode_int_compare:
  assumes h: "column_holds pe name c n BInteger ops v w" and ops: "ops \<noteq> []"
    and ok: "columns name = Some c" "env name = Some (BInteger, ops, v, w)" "const_ok columns env name cp (RawInt y)"
    and codec: "c_ops codec = ops"
  obtains y' where "encode_int codec y = Inr y'" "vec_kind v = Some BInteger"
    "\<And>i. i < n \<Longrightarrow> cell_compare cp (vec_cell v i) (CInt y') = cell_compare cp (vec_cell w i) (CInt y)"
    "\<And>i. i < n \<Longrightarrow> cell_compare cp (CInt y') (vec_cell v i) = cell_compare cp (CInt y) (vec_cell w i)"
proof -
  have f: "fixed_ops ops" "vec_len v = n" "vec_kind w = Some BInteger"
    and ex: "rfoldM (exec_step (pe_ext pe) c) [Plain v] ops = Inr [Plain w]"
    using h by (auto simp: column_holds_def)
  from f(1) show thesis
  proof (cases rule: fixed_ops_cases)
    case (offset t x)
    with ex have add: "vec_addition x v = Inr w" by (auto simp: rmap_Inr_iff)
    have range: "in_i64 (y - x)" "\<And>i. i < n \<Longrightarrow> in_i64 (cell_i64 (vec_cell v i) + x)"
      using ok offset f(2) by (auto simp: const_ok_def)
    have cell: "vec_cell v i = CInt a \<and> vec_cell w i = CInt (wrap_i64 (a + x)) \<and> in_i64 (a + x)"
      if "i < n" "a = cell_i64 (vec_cell v i)" for i a
      using vec_addition_cell [OF add, of i] range(2) [of i] that f(2) by auto
    have "vec_kind v = Some BInteger" using add by (cases v) auto
    moreover have "encode_int codec y = Inr (wrap_i64 (y - x))" using codec offset by (simp add: encode_int_def)
    ultimately show thesis
      using cell shift_compare [OF range(1)] by (intro that [of "wrap_i64 (y - x)"]) (metis cell_compare.simps(1))+
  next
    case (cast t)
    with ex have "vec_cast_i64 v = Inr w" by (auto simp: rmap_Inr_iff)
    moreover have pv: "prims v \<noteq> None" using ok cast by (simp add: const_ok_def)
    ultimately have "vec_cell w i = vec_cell v i" if "i < n" for i
      using vec_cast_cell that f(2) by blast
    moreover have "vec_kind v = Some BInteger" using pv by (auto simp: vec_kind_Integer)
    moreover have "encode_int codec y = Inr y" using codec cast by (simp add: encode_int_def)
    ultimately show thesis using that by metis
  next
    case (dictionary t)
    with ex f(3) show thesis by (auto simp: rmap_Inr_iff vec_dict_lookup_def)
  qed (use ops in simp)
qed

lemma encode_str_compare:
  assumes h: "column_holds pe name c n BString ops v w" and ops: "ops \<noteq> []"
    and ok: "columns name = Some c" "env name = Some (BString, ops, v, w)" "const_ok columns env name cp (RawStr s)"
    and codec: "c_ops codec = ops" "c_column_name codec = name"
  obtains y' where "encode_str codec s = Inr (InverseDictLookup (ColumnSection name 1) (ColumnSection name 2) s)"
    "eval pe columns n (PInverseDictLookup name (ColumnSection name 1) (ColumnSection name 2) s) = Inr (VScalarI64 y')"
    "vec_kind v = Some BInteger"
    "\<And>i. i < n \<Longrightarrow> cell_compare cp (vec_cell v i) (CInt y') = cell_compare cp (vec_cell w i) (CStr s)"
    "\<And>i. i < n \<Longrightarrow> cell_compare cp (CInt y') (vec_cell v i) = cell_compare cp (CStr s) (vec_cell w i)"
proof -
  have f: "fixed_ops ops" "vec_len v = n" "vec_kind w = Some BString"
    and ex: "rfoldM (exec_step (pe_ext pe) c) [Plain v] ops = Inr [Plain w]"
    using h by (auto simp: column_holds_def)
  obtain ds where ds: "vec_tag v \<in> {EU8, EU16, EU32}" "dictionary_is c ds" "s \<in> set ds \<or> cp = CmpEq \<or> cp = CmpNeq"
    using ok ops by (auto simp: const_ok_def)
  then obtain di dd where d: "index (col_data c) 1 = Inr (SecU64 di)" "index (col_data c) 2 = Inr (SecU8 dd)"
    "rmapM (entry_slice dd) di = Inr ds" "sorted_wrt (<) ds" by (auto simp: dictionary_is_def)
  let ?y = "if s \<in> set ds then int (length (takeWhile (\<lambda>x. x \<noteq> s) ds)) else - 1"
  from f(1) show thesis
  proof (cases rule: fixed_ops_cases)
    case (dictionary t)
    with ex d have look: "vec_dict_lookup di dd v = Inr w" by (auto simp: rmap_Inr_iff)
    have cell: "cell_compare cp (vec_cell v i) (CInt ?y) = cell_compare cp (vec_cell w i) (CStr s)"
      "cell_compare cp (CInt ?y) (vec_cell v i) = cell_compare cp (CStr s) (vec_cell w i)" if i: "i < n" for i
    proof -
      have il: "i < vec_len v" using i f(2) by simp
      obtain a where a: "a < length ds" "vec_cell v i = CInt (int a)" "vec_cell w i = CStr (ds ! a)"
        using vec_dict_cell [OF look d(3) ds(1) il] by blast
      show "cell_compare cp (vec_cell v i) (CInt ?y) = cell_compare cp (vec_cell w i) (CStr s)"
        "cell_compare cp (CInt ?y) (vec_cell v i) = cell_compare cp (CStr s) (vec_cell w i)"
        using code_compare [OF d(4) a(1) ds(3) refl] a by simp_all
    qed
    have "eval pe columns n (PInverseDictLookup name (ColumnSection name 1) (ColumnSection name 2) s) = Inr (VScalarI64 ?y)"
      using ok(1) d inverse_dict_loop_eq [OF d(3), of 0 s] by (simp add: inverse_dict_lookup_execute_def)
    moreover have "vec_kind v = Some BInteger" using ds(1) by (cases v) auto
    ultimately show thesis using cell codec dictionary by (intro that) simp_all
  next
    case (offset t x)
    with ex f(3) show thesis by (cases v) (auto simp: rmap_Inr_iff)
  next
    case (cast t)
    with ex f(3) show thesis by (cases v) (auto simp: rmap_Inr_iff)
  qed (use ops in simp)
qed

section \<open>Plans that compute an expression\<close>

fun value_ok :: "BasicType \<Rightarrow> vec \<Rightarrow> bool" where
  "value_ok BInteger v = (vec_tag v = EI64)"
| "value_ok BString v = (vec_tag v = EStr)"
| "value_ok BBoolean v = (vec_tag v = EU8 \<and> (\<forall>i < vec_len v. vec_cell v i = CInt 0 \<or> vec_cell v i = CInt 1))"
| "value_ok _ v = False"

fun tag_for :: "BasicType \<Rightarrow> EncodingType" where
  "tag_for BInteger = EI64"
| "tag_for BString = EStr"
| "tag_for _ = EU8"

text \<open>
  A plan computes an expression on the rows \<open>js\<close>: it fails if the expression fails in one of them,
  and otherwise gives the vector of its values.
\<close>

definition computes ::
    "plan_externs \<Rightarrow> (string \<rightharpoonup> Column) \<Rightarrow> nat \<Rightarrow> (string \<Rightarrow> nat \<Rightarrow> cell) \<Rightarrow> nat list \<Rightarrow> Expr \<Rightarrow> BasicType \<Rightarrow> QueryPlan \<Rightarrow> bool" where
  "computes pe columns n rows js e k p \<longleftrightarrow>
     (if \<exists>j \<in> set js. \<exists>err. expr_cell pe rows e j = Inl err then \<exists>err. eval pe columns n p = Inl err
      else \<exists>v. eval pe columns n p = Inr (VBuf (Plain v)) \<and> value_ok k v \<and> vec_len v = length js \<and>
        (\<forall>i < length js. expr_cell pe rows e (js ! i) = Inr (vec_cell v i)))"

text \<open>The same for an operand, which may be a constant.\<close>

definition yields ::
    "plan_externs \<Rightarrow> (string \<rightharpoonup> Column) \<Rightarrow> nat \<Rightarrow> (string \<Rightarrow> nat \<Rightarrow> cell) \<Rightarrow> nat list \<Rightarrow> Expr \<Rightarrow> BasicType \<Rightarrow> bool \<Rightarrow> QueryPlan \<Rightarrow> bool" where
  "yields pe columns n rows js e k const p \<longleftrightarrow>
     (if \<exists>j \<in> set js. \<exists>err. expr_cell pe rows e j = Inl err then \<exists>err. eval pe columns n p = Inl err
      else \<exists>val l. eval pe columns n p = Inr val \<and> null_map_of val = None \<and> forget_nullability val = Inr l \<and>
        operand_kind l = Some k \<and> operand_fits (length js) l \<and> is_OVec l = (\<not> const) \<and>
        (\<forall>i < length js. expr_cell pe rows e (js ! i) = Inr (operand_cell l i)))"

lemma value_ok_kind: "value_ok k v \<Longrightarrow> k = BInteger \<or> k = BString \<Longrightarrow> vec_kind v = Some k"
  by (cases v) auto

lemma computes_yields:
  assumes "computes pe columns n rows js e k p" and "k = BInteger \<or> k = BString"
  shows "yields pe columns n rows js e k False p"
proof (cases "\<exists>j \<in> set js. \<exists>err. expr_cell pe rows e j = Inl err")
  case False
  with assms(1) obtain v where v: "eval pe columns n p = Inr (VBuf (Plain v))" "value_ok k v" "vec_len v = length js"
    "\<forall>i < length js. expr_cell pe rows e (js ! i) = Inr (vec_cell v i)" by (auto simp: computes_def)
  show ?thesis unfolding yields_def if_not_P [OF False]
    by (intro exI [of _ "VBuf (Plain v)"] exI [of _ "OVec v"]) (use v value_ok_kind [OF v(2) assms(2)] in auto)
qed (use assms(1) in \<open>simp add: computes_def yields_def\<close>)

lemma yields_const_int:
  "(\<And>i. expr_cell pe rows e i = Inr (CInt x)) \<Longrightarrow> yields pe columns n rows js e BInteger True (PScalarI64 x)"
  by (simp add: yields_def)

lemma yields_const_str:
  "(\<And>i. expr_cell pe rows e i = Inr (CStr s)) \<Longrightarrow> yields pe columns n rows js e BString True (PScalarStr s)"
  by (simp add: yields_def)

lemma run_plain:
  assumes "null_map_of x = None" "null_map_of y = None" "forget_nullability x = Inr l" "forget_nullability y = Inr r"
  shows "run_comparison c n x y = rmap (\<lambda>z. VBuf (Plain (VU8 z))) (comparison_operator c l r)"
    and "run_checked a n x y = rmap (\<lambda>z. VBuf (Plain (VI64 z))) (checked_operator a l r)"
    and "run_boolean g n x y = rbind (operand_u8 l) (\<lambda>u. rbind (operand_u8 r) (\<lambda>w. Inr (VBuf (Plain (VU8 (g u w))))))"
  using assms by (simp_all add: run_comparison_def run_checked_def run_boolean_def combine_nulls_def combine_nulls2_def)

text \<open>When both operands fail in no row, the rows of a two-argument function.\<close>

lemma yields_pair:
  assumes l: "yields pe columns n rows js l k a p" and r: "yields pe columns n rows js r k b q"
  shows "(\<exists>j \<in> set js. \<exists>err. rbind (expr_cell pe rows l j) (\<lambda>x. rbind (expr_cell pe rows r j) (g x)) = Inl err) \<and>
        (\<exists>err. rbind (eval pe columns n p) (\<lambda>x. rbind (eval pe columns n q) (h x)) = Inl err) \<or>
    (\<exists>x y u v. eval pe columns n p = Inr x \<and> eval pe columns n q = Inr y \<and> null_map_of x = None \<and> null_map_of y = None \<and>
       forget_nullability x = Inr u \<and> forget_nullability y = Inr v \<and> operand_kind u = Some k \<and> operand_kind v = Some k \<and>
       operand_fits (length js) u \<and> operand_fits (length js) v \<and> is_OVec u = (\<not> a) \<and> is_OVec v = (\<not> b) \<and>
       (\<forall>i < length js. expr_cell pe rows l (js ! i) = Inr (operand_cell u i) \<and> expr_cell pe rows r (js ! i) = Inr (operand_cell v i)))"
proof (cases "\<exists>j \<in> set js. \<exists>err. expr_cell pe rows l j = Inl err")
  case True
  then obtain j err where "j \<in> set js" "expr_cell pe rows l j = Inl err" by blast
  then have "\<exists>j \<in> set js. \<exists>err. rbind (expr_cell pe rows l j) (\<lambda>x. rbind (expr_cell pe rows r j) (g x)) = Inl err"
    by (metis rbind.simps(1))
  moreover obtain e where "eval pe columns n p = Inl e" using l True by (auto simp: yields_def)
  ultimately show ?thesis by auto
next
  case False
  with l obtain x u where xu: "eval pe columns n p = Inr x" "null_map_of x = None" "forget_nullability x = Inr u"
    "operand_kind u = Some k" "operand_fits (length js) u" "is_OVec u = (\<not> a)"
    "\<forall>i < length js. expr_cell pe rows l (js ! i) = Inr (operand_cell u i)" by (auto simp: yields_def)
  show ?thesis
  proof (cases "\<exists>j \<in> set js. \<exists>err. expr_cell pe rows r j = Inl err")
    case True
    then obtain j err where j: "j \<in> set js" "expr_cell pe rows r j = Inl err" by blast
    obtain c where "expr_cell pe rows l j = Inr c" using False j(1) by (metis sum.exhaust)
    with j have "\<exists>j \<in> set js. \<exists>err. rbind (expr_cell pe rows l j) (\<lambda>x. rbind (expr_cell pe rows r j) (g x)) = Inl err"
      by (metis rbind.simps)
    moreover obtain e where "eval pe columns n q = Inl e" using r True by (auto simp: yields_def)
    ultimately show ?thesis using xu(1) by auto
  next
    case F: False
    with r obtain y v where "eval pe columns n q = Inr y" "null_map_of y = None" "forget_nullability y = Inr v"
      "operand_kind v = Some k" "operand_fits (length js) v" "is_OVec v = (\<not> b)"
      "\<forall>i < length js. expr_cell pe rows r (js ! i) = Inr (operand_cell v i)" by (auto simp: yields_def)
    with xu show ?thesis by blast
  qed
qed

lemma operand_cell_int:
  "operand_kind l = Some BInteger \<Longrightarrow> operand_fits m l \<Longrightarrow> i < m \<Longrightarrow> operand_cell l i = CInt (cell_i64 (operand_cell l i))"
  by (cases l) (auto simp: vec_kind_Integer prims_rows)

lemma u8_bool_cells:
  assumes "length x = m" "\<forall>i < m. \<exists>b. x ! i = (of_bool b :: u8)"
  shows "value_ok BBoolean (VU8 x)"
proof -
  have "uint (x ! i) = 0 \<or> uint (x ! i) = 1" if i: "i < m" for i
  proof -
    obtain b where "x ! i = of_bool b" using assms(2) i by blast
    then show ?thesis by (cases b) simp_all
  qed
  then show ?thesis using assms(1) by simp
qed

lemma cmp_perform_bool: "\<exists>b. cmp_perform c l r = (of_bool b :: u8)"
  by (cases c) auto

lemma rmapM_Inl: "rmapM f xs = Inl e \<Longrightarrow> \<exists>x \<in> set xs. \<exists>e'. f x = Inl e'"
proof (induction xs)
  case (Cons x xs)
  then show ?case by (cases "f x"; cases "rmapM f xs") auto
qed simp

lemma cell_compare_bool:
  assumes "cell_compare c x y = CInt (uint z)"
  shows "\<exists>b. z = (of_bool b :: u8)"
proof -
  have "\<exists>b. uint z = uint (of_bool b :: u8)"
  proof (cases "(c, x, y)" rule: cell_compare.cases)
    case (1 c l r)
    then have "uint z = uint (cmp_perform c l r)" using assms by simp
    then show ?thesis using cmp_perform_bool [of c l r] by metis
  next
    case (2 c l r)
    then have "uint z = uint (cmp_perform c l r)" using assms by simp
    then show ?thesis using cmp_perform_bool [of c l r] by metis
  qed (use assms in auto)
  then show ?thesis by (simp only: word_uint_eq_iff)
qed

lemma computes_comparison:
  assumes l: "yields pe columns n rows js l k a p" and r: "yields pe columns n rows js r k b q"
    and k: "k = BInteger \<or> k = BString" and ab: "\<not> (a \<and> b)"
    and e: "\<And>i. expr_cell pe rows e i = rbind (expr_cell pe rows l i) (\<lambda>x. rbind (expr_cell pe rows r i) (\<lambda>y. Inr (cell_compare c x y)))"
  shows "computes pe columns n rows js e BBoolean (PCompare c p q)"
  using yields_pair [OF l r, of "\<lambda>x y. Inr (cell_compare c x y)" "run_comparison c n"]
proof (elim disjE exE conjE)
  fix err assume f: "\<exists>j \<in> set js. \<exists>err. rbind (expr_cell pe rows l j) (\<lambda>x. rbind (expr_cell pe rows r j) (\<lambda>y. Inr (cell_compare c x y))) = Inl err"
    and "rbind (eval pe columns n p) (\<lambda>x. rbind (eval pe columns n q) (run_comparison c n x)) = Inl err"
  then show ?thesis by (auto simp: computes_def e)
next
  fix x y u v
  assume ev: "eval pe columns n p = Inr x" "eval pe columns n q = Inr y"
    and nm: "null_map_of x = None" "null_map_of y = None" "forget_nullability x = Inr u" "forget_nullability y = Inr v"
    and ok: "operand_kind u = Some k" "operand_kind v = Some k" "operand_fits (length js) u" "operand_fits (length js) v"
      "is_OVec u = (\<not> a)" "is_OVec v = (\<not> b)"
    and cells: "\<forall>i < length js. expr_cell pe rows l (js ! i) = Inr (operand_cell u i) \<and> expr_cell pe rows r (js ! i) = Inr (operand_cell v i)"
  obtain z where z: "comparison_operator c u v = Inr z" "length z = length js"
    "\<And>i. i < length js \<Longrightarrow> cell_compare c (operand_cell u i) (operand_cell v i) = CInt (uint (z ! i))"
    using comparison_rows [of u v "length js" c] ok k ab by auto
  have row: "expr_cell pe rows e (js ! i) = Inr (vec_cell (VU8 z) i)" if "i < length js" for i
    using cells z(3) [OF that] that by (simp add: e)
  have "\<not> (\<exists>j \<in> set js. \<exists>err. expr_cell pe rows e j = Inl err)"
    using row by (metis in_set_conv_nth Inr_not_Inl)
  moreover have "value_ok BBoolean (VU8 z)"
  proof (rule u8_bool_cells [OF z(2)], intro allI impI)
    fix i assume i: "i < length js"
    show "\<exists>b. z ! i = of_bool b" by (rule cell_compare_bool [OF z(3) [OF i]])
  qed
  ultimately show ?thesis
    using ev z row by (auto simp: computes_def run_plain [OF nm])
qed

lemma computes_checked:
  assumes l: "yields pe columns n rows js l BInteger a p" and r: "yields pe columns n rows js r BInteger b q"
    and ab: "\<not> (a \<and> b)"
    and e: "\<And>i. expr_cell pe rows e i = rbind (expr_cell pe rows l i) (\<lambda>x. rbind (expr_cell pe rows r i) (\<lambda>y. cell_checked f x y))"
  shows "computes pe columns n rows js e BInteger (PChecked f p q)"
  using yields_pair [OF l r, of "cell_checked f" "run_checked f n"]
proof (elim disjE exE conjE)
  fix err assume "\<exists>j \<in> set js. \<exists>err. rbind (expr_cell pe rows l j) (\<lambda>x. rbind (expr_cell pe rows r j) (cell_checked f x)) = Inl err"
    and "rbind (eval pe columns n p) (\<lambda>x. rbind (eval pe columns n q) (run_checked f n x)) = Inl err"
  then show ?thesis by (auto simp: computes_def e)
next
  fix x y u v
  assume ev: "eval pe columns n p = Inr x" "eval pe columns n q = Inr y"
    and nm: "null_map_of x = None" "null_map_of y = None" "forget_nullability x = Inr u" "forget_nullability y = Inr v"
    and ok: "operand_kind u = Some BInteger" "operand_kind v = Some BInteger" "operand_fits (length js) u" "operand_fits (length js) v"
      "is_OVec u = (\<not> a)" "is_OVec v = (\<not> b)"
    and cells: "\<forall>i < length js. expr_cell pe rows l (js ! i) = Inr (operand_cell u i) \<and> expr_cell pe rows r (js ! i) = Inr (operand_cell v i)"
  let ?m = "length js"
  have op: "checked_operator f u v = rbind (rmapM (row_checked f u v) [0..<?m]) checked_results"
    using checked_operator_rows(1) [of u v ?m f] ok ab by auto
  have row: "expr_cell pe rows e (js ! i) =
      rbind (row_checked f u v i) (\<lambda>z. if snd z then Inl (Fail Overflow) else Inr (CInt (fst z)))" if "i < ?m" for i
  proof -
    let ?a = "cell_i64 (operand_cell u i)" and ?b = "cell_i64 (operand_cell v i)"
    have "operand_cell u i = CInt ?a" "operand_cell v i = CInt ?b"
      by (rule operand_cell_int [OF ok(1,3) that], rule operand_cell_int [OF ok(2,4) that])
    then have "cell_checked f (operand_cell u i) (operand_cell v i) = cell_checked f (CInt ?a) (CInt ?b)"
      by (rule arg_cong2)
    moreover have "expr_cell pe rows e (js ! i) = cell_checked f (operand_cell u i) (operand_cell v i)"
      using cells that by (simp add: e)
    ultimately show ?thesis by (cases "perform_checked f ?a ?b") (simp_all add: row_checked_def split_beta)
  qed
  have run: "eval pe columns n (PChecked f p q) = rmap (\<lambda>z. VBuf (Plain (VI64 z))) (checked_operator f u v)"
    using ev by (simp add: run_plain [OF nm])
  show ?thesis
  proof (cases "rmapM (row_checked f u v) [0..<?m]")
    case (Inl err)
    then have "\<exists>i < ?m. \<exists>err. row_checked f u v i = Inl err"
      using rmapM_Inl [OF Inl] by auto
    then obtain i err' where "i < ?m" "row_checked f u v i = Inl err'" by blast
    with row have "expr_cell pe rows e (js ! i) = Inl err'" "js ! i \<in> set js" by auto
    then have "\<exists>j \<in> set js. \<exists>err. expr_cell pe rows e j = Inl err" by blast
    with Inl run op show ?thesis by (simp add: computes_def)
  next
    case (Inr ys)
    have len: "length ys = ?m" using rmapM_Inr_length [OF Inr] by simp
    have y: "row_checked f u v i = Inr (ys ! i)" if "i < ?m" for i using rmapM_nth [OF Inr, of i] that by simp
    show ?thesis
    proof (cases "\<exists>i < ?m. snd (ys ! i)")
      case True
      then obtain i where i: "i < ?m" "snd (ys ! i)" by blast
      with row y have "expr_cell pe rows e (js ! i) = Inl (Fail Overflow)" "js ! i \<in> set js" by auto
      then have "\<exists>j \<in> set js. \<exists>err. expr_cell pe rows e j = Inl err" by blast
      moreover have "\<exists>y \<in> set ys. snd y" using i len by (metis nth_mem)
      ultimately show ?thesis using run op Inr by (simp add: computes_def checked_results_def)
    next
      case False
      have rows': "expr_cell pe rows e (js ! i) = Inr (CInt (fst (ys ! i)))" if "i < ?m" for i
        using row [OF that] y [OF that] False that by simp
      have "\<not> (\<exists>j \<in> set js. \<exists>err. expr_cell pe rows e j = Inl err)" using rows' by (metis in_set_conv_nth Inr_not_Inl)
      moreover have "\<not> (\<exists>y \<in> set ys. snd y)" using False len by (metis in_set_conv_nth)
      moreover have "eval pe columns n (PChecked f p q) = Inr (VBuf (Plain (VI64 (map fst ys))))"
        unfolding run op Inr using calculation(2) by (simp add: checked_results_def)
      ultimately show ?thesis using rows' len
        by (simp only: computes_def if_False) (intro exI [of _ "VI64 (map fst ys)"], simp)
    qed
  qed
qed

text \<open>Boolean functions of computed vectors.\<close>

lemma computes_value:
  assumes "computes pe columns n rows js e k p" and "\<not> (\<exists>j \<in> set js. \<exists>err. expr_cell pe rows e j = Inl err)"
  obtains v where "eval pe columns n p = Inr (VBuf (Plain v))" "value_ok k v" "vec_len v = length js"
    "\<And>i. i < length js \<Longrightarrow> expr_cell pe rows e (js ! i) = Inr (vec_cell v i)"
  using assms by (auto simp: computes_def)

lemma computes_error:
  assumes "computes pe columns n rows js e k p" and "\<exists>j \<in> set js. \<exists>err. expr_cell pe rows e j = Inl err"
  shows "\<exists>err. eval pe columns n p = Inl err"
  using assms by (simp add: computes_def)

text \<open>A total function of the cell applied by an operator that maps vectors.\<close>

lemma computes_map:
  assumes c: "computes pe columns n rows js e k p"
    and e: "\<And>i. expr_cell pe rows e' i = rmap g (expr_cell pe rows e i)"
    and op: "\<And>v. value_ok k v \<Longrightarrow> vec_len v = length js \<Longrightarrow>
      \<exists>w. h (VBuf (Plain v)) = Inr (VBuf (Plain w)) \<and> value_ok k' w \<and> vec_len w = length js \<and>
          (\<forall>i < length js. vec_cell w i = g (vec_cell v i))"
    and ev: "eval pe columns n q = rbind (eval pe columns n p) h"
  shows "computes pe columns n rows js e' k' q"
proof (cases "\<exists>j \<in> set js. \<exists>err. expr_cell pe rows e j = Inl err")
  case True
  moreover obtain err where "eval pe columns n p = Inl err" using computes_error [OF c True] by blast
  moreover have "\<exists>j \<in> set js. \<exists>err. expr_cell pe rows e' j = Inl err" using True unfolding e by (metis rmap_Inl)
  ultimately show ?thesis using ev by (simp add: computes_def)
next
  case False
  obtain v where v: "eval pe columns n p = Inr (VBuf (Plain v))" "value_ok k v" "vec_len v = length js"
    "\<And>i. i < length js \<Longrightarrow> expr_cell pe rows e (js ! i) = Inr (vec_cell v i)" using computes_value [OF c False] by blast
  obtain w where w: "h (VBuf (Plain v)) = Inr (VBuf (Plain w))" "value_ok k' w" "vec_len w = length js"
    "\<forall>i < length js. vec_cell w i = g (vec_cell v i)" using op [OF v(2,3)] by blast
  have "\<not> (\<exists>j \<in> set js. \<exists>err. expr_cell pe rows e' j = Inl err)"
  proof
    assume "\<exists>j \<in> set js. \<exists>err. expr_cell pe rows e' j = Inl err"
    then obtain j err where j: "j \<in> set js" "expr_cell pe rows e' j = Inl err" by blast
    then obtain c where "expr_cell pe rows e j = Inr c" using False by (metis sum.exhaust)
    with j show False by (simp add: e)
  qed
  with v w ev show ?thesis by (simp add: computes_def e)
qed

lemma bool_vec:
  assumes "value_ok BBoolean v" "vec_len v = m"
  obtains x where "v = VU8 x" "length x = m" "\<And>i. i < m \<Longrightarrow> x ! i = 0 \<or> x ! i = 1"
proof -
  obtain x where x: "v = VU8 x" using assms by (cases v) auto
  have "x ! i = 0 \<or> x ! i = 1" if "i < m" for i
    using assms that x by (simp add: word_uint_eq_iff)
  with x assms show thesis using that by simp
qed

lemma computes_not:
  assumes c: "computes pe columns n rows js e BBoolean p"
    and e: "\<And>i. expr_cell pe rows e' i = rbind (expr_cell pe rows e i) (cell_func1 pe Func1Type.Not)"
  shows "computes pe columns n rows js e' BBoolean (PNot p)"
proof -
  let ?g = "\<lambda>c. case c of CInt x \<Rightarrow> CInt (of_bool (x = 0)) | _ \<Rightarrow> CNull"
  have e': "expr_cell pe rows e' i = rmap ?g (expr_cell pe rows e i)" for i
    by (cases "expr_cell pe rows e i") (auto simp: e split: cell.split)
  show ?thesis
  proof (rule computes_map [OF c e'])
    fix v assume v: "value_ok BBoolean v" "vec_len v = length js"
    obtain x where x: "v = VU8 x" "length x = length js" "\<And>i. i < length js \<Longrightarrow> x ! i = 0 \<or> x ! i = 1"
      by (rule bool_vec [OF v]) blast
    let ?y = "map boolean_not_apply x"
    have y: "?y ! i = of_bool (x ! i = 0)" if "i < length js" for i
      using x(2) x(3) [OF that] that by (auto simp: boolean_not_apply_def)
    have "value_ok BBoolean (VU8 ?y)" by (rule u8_bool_cells [of _ "length js"]) (use x y in auto)
    moreover have "vec_cell (VU8 ?y) i = ?g (vec_cell v i)" if "i < length js" for i
      using y [OF that] x that by (auto simp: word_uint_eq_iff)
    ultimately show "\<exists>w. run_not (VBuf (Plain v)) = Inr (VBuf (Plain w)) \<and> value_ok BBoolean w \<and> vec_len w = length js \<and>
        (\<forall>i < length js. vec_cell w i = ?g (vec_cell v i))"
      using x by (intro exI [of _ "VU8 ?y"]) (simp add: map_execute_def map_loop_eq cleared_def)
  qed simp
qed

lemma computes_regex:
  assumes c: "computes pe columns n rows js e BString p"
    and e: "\<And>i. expr_cell pe rows e' i = rmap (cell_regex pe s) (expr_cell pe rows e i)"
    and valid: "regex_valid pe s"
  shows "computes pe columns n rows js e' BBoolean (PRegex p s)"
proof (rule computes_map [OF c e])
  fix v assume v: "value_ok BString v" "vec_len v = length js"
  obtain x where x: "v = VStr x" "length x = length js" using v by (cases v) auto
  let ?y = "map (\<lambda>t. of_bool (regex_find pe s t)) x :: u8 list"
  have "value_ok BBoolean (VU8 ?y)" by (rule u8_bool_cells [of _ "length js"]) (use x in auto)
  then show "\<exists>w. run_map_str (\<lambda>t. of_bool (regex_find pe s t)) VU8 (VBuf (Plain v)) = Inr (VBuf (Plain w)) \<and>
      value_ok BBoolean w \<and> vec_len w = length js \<and> (\<forall>i < length js. vec_cell w i = cell_regex pe s (vec_cell v i))"
    using x by (intro exI [of _ "VU8 ?y"]) (simp add: map_execute_def map_loop_eq cleared_def)
qed (simp add: valid rassert_def)

lemma computes_year:
  assumes c: "computes pe columns n rows js e BInteger p"
    and e: "\<And>i. expr_cell pe rows e' i = rbind (expr_cell pe rows e i) (cell_func1 pe ToYear)"
  shows "computes pe columns n rows js e' BInteger (PToYear p)"
proof (cases "\<exists>j \<in> set js. \<exists>err. expr_cell pe rows e j = Inl err")
  case True
  moreover obtain err where "eval pe columns n p = Inl err" using computes_error [OF c True] by blast
  moreover have "\<exists>j \<in> set js. \<exists>err. expr_cell pe rows e' j = Inl err" using True unfolding e by (metis rbind.simps(1))
  ultimately show ?thesis by (simp add: computes_def)
next
  case False
  obtain v where v: "eval pe columns n p = Inr (VBuf (Plain v))" "value_ok BInteger v" "vec_len v = length js"
    "\<And>i. i < length js \<Longrightarrow> expr_cell pe rows e (js ! i) = Inr (vec_cell v i)" using computes_value [OF c False] by blast
  obtain x where x: "v = VI64 x" "length x = length js" using v(2,3) by (cases v) auto
  let ?y = "rmapM (\<lambda>ts. unwrap (year_of pe ts)) x"
  have ev: "eval pe columns n (PToYear p) = rmap (\<lambda>y. VBuf (Plain (VI64 y))) ?y" using v(1) x by simp
  have row: "expr_cell pe rows e' (js ! i) = rmap CInt (unwrap (year_of pe (x ! i)))" if "i < length js" for i
    using v(4) [OF that] x that by (simp add: e)
  show ?thesis
  proof (cases ?y)
    case (Inl err)
    then obtain i err' where i: "i < length js" "unwrap (year_of pe (x ! i)) = Inl err'"
      using rmapM_Inl [OF Inl] x(2) by (metis in_set_conv_nth)
    then have "expr_cell pe rows e' (js ! i) = Inl err'" "js ! i \<in> set js" using row by simp_all
    then have "\<exists>j \<in> set js. \<exists>err. expr_cell pe rows e' j = Inl err" by blast
    with Inl ev show ?thesis by (simp add: computes_def)
  next
    case (Inr ys)
    have rows': "expr_cell pe rows e' (js ! i) = Inr (CInt (ys ! i))" if "i < length js" for i
      using row [OF that] rmapM_nth [OF Inr, of i] x(2) that by simp
    moreover have "length ys = length js" using rmapM_Inr_length [OF Inr] x(2) by simp
    moreover have "\<not> (\<exists>j \<in> set js. \<exists>err. expr_cell pe rows e' j = Inl err)" using rows' by (metis in_set_conv_nth Inr_not_Inl)
    moreover have "eval pe columns n (PToYear p) = Inr (VBuf (Plain (VI64 ys)))" unfolding ev Inr by simp
    ultimately show ?thesis
      by (simp only: computes_def if_False) (intro exI [of _ "VI64 ys"], simp)
  qed
qed

lemma boolean_evaluate_nth:
  "length x = length y \<Longrightarrow> length (boolean_and_evaluate x y) = length y \<and>
     (\<forall>i < length y. boolean_and_evaluate x y ! i = (x ! i AND y ! i))"
  "length x = length y \<Longrightarrow> length (boolean_or_evaluate x y) = length y \<and>
     (\<forall>i < length y. boolean_or_evaluate x y ! i = (x ! i OR y ! i))"
  by (induction x y rule: list_induct2; auto simp: nth_Cons split: nat.split)+

lemma computes_boolean:
  assumes l: "computes pe columns n rows js l BBoolean p" and r: "computes pe columns n rows js r BBoolean q"
    and e: "\<And>i. expr_cell pe rows e i = rbind (expr_cell pe rows l i) (\<lambda>x. rbind (expr_cell pe rows r i) (g x))"
    and g: "\<And>a b :: u8. (a = 0 \<or> a = 1) \<Longrightarrow> (b = 0 \<or> b = 1) \<Longrightarrow> (h a b = 0 \<or> h a b = 1) \<and> g (CInt (uint a)) (CInt (uint b)) = Inr (CInt (uint (h a b)))"
    and h: "\<And>x y. length x = length y \<Longrightarrow> length (ev x y) = length y \<and> (\<forall>i < length y. ev x y ! i = h (x ! i) (y ! i))"
    and run: "eval pe columns n pq = rbind (eval pe columns n p) (\<lambda>x. rbind (eval pe columns n q) (run_boolean ev n x))"
  shows "computes pe columns n rows js e BBoolean pq"
proof (cases "\<exists>j \<in> set js. \<exists>err. expr_cell pe rows l j = Inl err")
  case True
  moreover obtain err where "eval pe columns n p = Inl err" using computes_error [OF l True] by blast
  moreover have "\<exists>j \<in> set js. \<exists>err. expr_cell pe rows e j = Inl err" using True unfolding e by (metis rbind.simps(1))
  ultimately show ?thesis using run by (simp add: computes_def)
next
  case F: False
  obtain v where v: "eval pe columns n p = Inr (VBuf (Plain v))" "value_ok BBoolean v" "vec_len v = length js"
    "\<And>i. i < length js \<Longrightarrow> expr_cell pe rows l (js ! i) = Inr (vec_cell v i)" using computes_value [OF l F] by blast
  obtain x where x: "v = VU8 x" "length x = length js" "\<And>i. i < length js \<Longrightarrow> x ! i = 0 \<or> x ! i = 1"
    by (rule bool_vec [OF v(2,3)]) blast
  show ?thesis
  proof (cases "\<exists>j \<in> set js. \<exists>err. expr_cell pe rows r j = Inl err")
    case True
    then obtain j err where j: "j \<in> set js" "expr_cell pe rows r j = Inl err" by blast
    moreover obtain c where "expr_cell pe rows l j = Inr c" using F j(1) by (metis sum.exhaust)
    ultimately have "\<exists>j \<in> set js. \<exists>err. expr_cell pe rows e j = Inl err" by (metis e rbind.simps)
    moreover obtain err where "eval pe columns n q = Inl err" using computes_error [OF r True] by blast
    ultimately show ?thesis using run v(1) by (simp add: computes_def)
  next
    case G: False
    obtain w where w: "eval pe columns n q = Inr (VBuf (Plain w))" "value_ok BBoolean w" "vec_len w = length js"
      "\<And>i. i < length js \<Longrightarrow> expr_cell pe rows r (js ! i) = Inr (vec_cell w i)" using computes_value [OF r G] by blast
    obtain y where y: "w = VU8 y" "length y = length js" "\<And>i. i < length js \<Longrightarrow> y ! i = 0 \<or> y ! i = 1"
      by (rule bool_vec [OF w(2,3)]) blast
    have z: "length (ev x y) = length js" "\<And>i. i < length js \<Longrightarrow> ev x y ! i = h (x ! i) (y ! i)"
      using h [of x y] x(2) y(2) by auto
    have cells: "expr_cell pe rows e (js ! i) = Inr (vec_cell (VU8 (ev x y)) i)" if "i < length js" for i
      using v(4) [OF that] w(4) [OF that] x y z that g [OF x(3) [OF that] y(3) [OF that]] by (simp add: e)
    moreover have "\<not> (\<exists>j \<in> set js. \<exists>err. expr_cell pe rows e j = Inl err)" using cells by (metis in_set_conv_nth Inr_not_Inl)
    moreover have "value_ok BBoolean (VU8 (ev x y))"
    proof (rule u8_bool_cells [OF z(1)], intro allI impI)
      fix i assume i: "i < length js"
      have "ev x y ! i = of_bool False \<or> ev x y ! i = of_bool True"
        using g [OF x(3) [OF i] y(3) [OF i]] z(2) [OF i] by simp
      then show "\<exists>b. ev x y ! i = of_bool b" by blast
    qed
    moreover have "eval pe columns n pq = Inr (VBuf (Plain (VU8 (ev x y))))"
      using run v(1) w(1) x(1) y(1) by (simp add: run_boolean_def combine_nulls_def combine_nulls2_def)
    ultimately show ?thesis using z(1)
      by (simp only: computes_def if_False) (intro exI [of _ "VU8 (ev x y)"], simp)
  qed
qed

lemma computes_cong:
  assumes "computes pe columns n rows js e k p"
    and "\<And>j x. j \<in> set js \<Longrightarrow> expr_cell pe rows' e' j = Inr x \<longleftrightarrow> expr_cell pe rows e j = Inr x"
  shows "computes pe columns n rows' js e' k p"
proof -
  have "(\<exists>err. expr_cell pe rows' e' j = Inl err) \<longleftrightarrow> (\<exists>err. expr_cell pe rows e j = Inl err)" if "j \<in> set js" for j
    using assms(2) [OF that] by (metis Inr_not_Inl sum.exhaust)
  then have f: "(\<exists>j \<in> set js. \<exists>err. expr_cell pe rows' e' j = Inl err) = (\<exists>j \<in> set js. \<exists>err. expr_cell pe rows e j = Inl err)"
    by (rule bex_cong [OF refl])
  have "(\<forall>i < length js. expr_cell pe rows' e' (js ! i) = Inr (c i)) = (\<forall>i < length js. expr_cell pe rows e (js ! i) = Inr (c i))" for c
    using assms(2) by simp
  then show ?thesis using assms(1) unfolding computes_def f by simp
qed

section \<open>compile_expr\<close>

text \<open>What compiling a constant and compiling any other expression gives.\<close>

definition compiled_const ::
    "plan_externs \<Rightarrow> (string \<Rightarrow> nat \<Rightarrow> cell) \<Rightarrow> Expr \<Rightarrow> BasicType \<Rightarrow> typed_plan \<Rightarrow> bool" where
  "compiled_const pe rows e k r \<longleftrightarrow>
     (\<exists>x. const_val e = Some (RawInt x) \<and> k = BInteger \<and> r = const_i64 x \<and> (\<forall>i. expr_cell pe rows e i = Inr (CInt x))) \<or>
     (\<exists>s. const_val e = Some (RawStr s) \<and> k = BString \<and> r = const_str s \<and> (\<forall>i. expr_cell pe rows e i = Inr (CStr s)))"

definition compiled_column ::
    "plan_externs \<Rightarrow> (string \<rightharpoonup> Column) \<Rightarrow> column_env \<Rightarrow> nat \<Rightarrow> nat list \<Rightarrow> Expr \<Rightarrow> BasicType \<Rightarrow> typed_plan \<Rightarrow> string \<Rightarrow> vec \<Rightarrow> vec \<Rightarrow> bool" where
  "compiled_column pe columns env n js e k r name v w \<longleftrightarrow>
     e = ColName name \<and> snd (fst r) = vec_tag v \<and> eval pe columns n (fst (fst r)) = Inr (VBuf (Plain (vec_pick js v))) \<and>
     (\<exists>c ops codec. columns name = Some c \<and> env name = Some (k, ops, v, w) \<and> column_holds pe name c n k ops v w \<and>
        ty_codec (snd r) = Some codec \<and> c_ops codec = ops \<and> c_column_name codec = name)"

definition compiled ::
    "plan_externs \<Rightarrow> (string \<rightharpoonup> Column) \<Rightarrow> column_env \<Rightarrow> nat \<Rightarrow> (string \<Rightarrow> nat \<Rightarrow> cell) \<Rightarrow> nat list \<Rightarrow> Expr \<Rightarrow> BasicType \<Rightarrow> typed_plan \<Rightarrow> bool" where
  "compiled pe columns env n rows js e k r \<longleftrightarrow>
     ty_decoded (snd r) = k \<and> \<not> ty_is_scalar (snd r) \<and>
     (\<exists>q. decode_type (snd r) (fst r) = Inr (q, tag_for k) \<and> computes pe columns n rows js e k q) \<and>
     (ty_codec (snd r) = None \<or> (\<exists>name v w. compiled_column pe columns env n js e k r name v w))"

text \<open>The environment: every typed column holds its values, which are the cells of the rows.\<close>

definition env_holds ::
    "plan_externs \<Rightarrow> (string \<rightharpoonup> Column) \<Rightarrow> column_env \<Rightarrow> nat \<Rightarrow> (string \<Rightarrow> nat \<Rightarrow> cell) \<Rightarrow> bool" where
  "env_holds pe columns env n rows \<longleftrightarrow>
     (\<forall>name k ops v w. env name = Some (k, ops, v, w) \<longrightarrow>
        (\<exists>c. columns name = Some c \<and> column_holds pe name c n k ops v w) \<and> (\<forall>i < n. rows name i = vec_cell w i))"

lemma column_holds_len: "column_holds pe name c n k ops v w \<Longrightarrow> vec_len w = n"
  using fixed_exec_pick [of ops "pe_ext pe" c v w "[]"] by (auto simp: column_holds_def)

lemma env_holdsD:
  assumes "env_holds pe columns env n rows" "env name = Some (k, ops, v, w)"
  obtains c where "columns name = Some c" "column_holds pe name c n k ops v w" "\<forall>i < n. rows name i = vec_cell w i"
proof -
  from assms have "(\<exists>c. columns name = Some c \<and> column_holds pe name c n k ops v w) \<and> (\<forall>i < n. rows name i = vec_cell w i)"
    unfolding env_holds_def by blast
  then obtain c where "columns name = Some c" "column_holds pe name c n k ops v w" "\<forall>i < n. rows name i = vec_cell w i"
    by blast
  then show thesis by (intro that [of c]) simp_all
qed

lemma compiled_colname:
  assumes env: "env_holds pe columns env n rows" "env name = Some (k, ops, v, w)"
    and sel: "filter_selects pe columns n filt js"
  shows "\<exists>r. compile_colname columns n filt name = Inr r \<and> compiled pe columns env n rows js (ColName name) k r"
proof -
  obtain c where c: "columns name = Some c" "column_holds pe name c n k ops v w" "\<forall>i < n. rows name i = vec_cell w i"
    by (rule env_holdsD [OF env])
  have h: "vec_kind w = Some k" "vec_tag w \<in> {EI64, EStr}" using c(2) by (auto simp: column_holds_def)
  obtain p t codec q where r: "compile_colname columns n filt name = Inr ((p, vec_tag v), t)"
    "eval pe columns n p = Inr (VBuf (Plain (vec_pick js v)))"
    "ty_codec t = Some codec" "ty_decoded t = k" "\<not> ty_is_scalar t" "c_ops codec = ops" "c_column_name codec = name"
    "decode_type t (p, vec_tag v) = Inr (q, vec_tag w)" "eval pe columns n q = Inr (VBuf (Plain (vec_pick js w)))"
    by (rule compile_colname_eval [of pe name c n k ops v w columns filt js, OF c(2,1) sel])
  have len: "vec_len w = n" by (rule column_holds_len [OF c(2)])
  have js: "\<forall>j \<in> set js. j < vec_len w" using filter_selects_less [OF sel] len by blast
  have wt: "vec_tag w = tag_for k" "value_ok k (vec_pick js w)" using h by (cases w; auto)+
  have cells: "expr_cell pe rows (ColName name) (js ! i) = Inr (vec_cell (vec_pick js w) i)" if "i < length js" for i
    using c(3) js len that by simp
  have "computes pe columns n rows js (ColName name) k q"
    using r(9) wt(2) cells by (auto simp: computes_def)
  moreover have "compiled_column pe columns env n js (ColName name) k ((p, vec_tag v), t) name v w"
    using r c env(2) by (auto simp: compiled_column_def)
  ultimately show ?thesis using r wt(1) by (auto simp: compiled_def)
qed

text \<open>Decoding both operands of a comparison.\<close>

fun func_of :: "comparison \<Rightarrow> Func2Type" where
  "func_of CmpEq = Equals"
| "func_of CmpNeq = NotEquals"
| "func_of CmpLT = LT"
| "func_of CmpLTE = LTE"

lemma func_of_cell:
  "expr_cell pe rows (Func2 (func_of c) l r) i =
     rbind (expr_cell pe rows l i) (\<lambda>x. rbind (expr_cell pe rows r i) (\<lambda>y. Inr (cell_compare c x y)))"
  by (cases c; cases "expr_cell pe rows l i"; cases "expr_cell pe rows r i") simp_all

lemma compare_cell:
  assumes "compare_of f = Some (c, swap)"
  shows "expr_cell pe rows (Func2 f l r) i = Inr x \<longleftrightarrow>
    (\<exists>a b. expr_cell pe rows l i = Inr a \<and> expr_cell pe rows r i = Inr b \<and>
           x = (if swap then cell_compare c b a else cell_compare c a b))"
  using assms by (cases f) (auto simp: rbind_Inr_iff)

text \<open>A comparison in the order its function gives the operands.\<close>

definition compare_swap :: "bool \<Rightarrow> comparison \<Rightarrow> QueryPlan \<Rightarrow> QueryPlan \<Rightarrow> QueryPlan" where
  "compare_swap swap c p q = (if swap then PCompare c q p else PCompare c p q)"

lemma computes_compare_swap:
  assumes l: "yields pe columns n rows js l k a p" and r: "yields pe columns n rows js r k b q"
    and k: "k = BInteger \<or> k = BString" and ab: "\<not> (a \<and> b)" and f: "compare_of f = Some (c, swap)"
  shows "computes pe columns n rows js (Func2 f l r) BBoolean (compare_swap swap c p q)"
proof (cases swap)
  case False
  have "computes pe columns n rows js (Func2 (func_of c) l r) BBoolean (PCompare c p q)"
    by (rule computes_comparison [OF l r k ab func_of_cell])
  then have "computes pe columns n rows js (Func2 f l r) BBoolean (PCompare c p q)"
    by (rule computes_cong) (unfold compare_cell [OF f] func_of_cell, use False in auto)
  with False show ?thesis by (simp add: compare_swap_def)
next
  case True
  have "computes pe columns n rows js (Func2 (func_of c) r l) BBoolean (PCompare c q p)"
    by (rule computes_comparison [OF r l k _ func_of_cell]) (use ab in blast)
  then have "computes pe columns n rows js (Func2 f l r) BBoolean (PCompare c q p)"
    by (rule computes_cong) (unfold compare_cell [OF f] func_of_cell, use True in auto)
  with True show ?thesis by (simp add: compare_swap_def)
qed

lemma computes_compare_cong:
  assumes c: "computes pe columns n rows' js (Func2 f l' r') k p" and f: "compare_of f = Some (c, swap)"
    and l: "\<And>j. j \<in> set js \<Longrightarrow> \<exists>a b a' b'. expr_cell pe rows l j = Inr a \<and> expr_cell pe rows r j = Inr b \<and>
      expr_cell pe rows' l' j = Inr a' \<and> expr_cell pe rows' r' j = Inr b' \<and>
      cell_compare c a' b' = cell_compare c a b \<and> cell_compare c b' a' = cell_compare c b a"
  shows "computes pe columns n rows js (Func2 f l r) k p"
proof (rule computes_cong [OF c])
  fix j x assume "j \<in> set js"
  from l [OF this] show "expr_cell pe rows (Func2 f l r) j = Inr x \<longleftrightarrow> expr_cell pe rows' (Func2 f l' r') j = Inr x"
    unfolding compare_cell [OF f] by (elim exE conjE) simp
qed

text \<open>Comparing the codes of a column with an encoded constant.\<close>

lemma yields_codes:
  assumes "eval pe columns n p = Inr (VBuf (Plain (vec_pick js v)))" "vec_kind v = Some BInteger"
  shows "yields pe columns n (\<lambda>_. vec_cell v) js (ColName name) BInteger False p"
proof -
  have "vec_kind (vec_pick js v) = Some BInteger" using assms(2) by (cases v) auto
  then show ?thesis using assms(1) by (simp add: yields_def)
qed

lemma yields_code: "eval pe columns n q = Inr (VScalarI64 y) \<Longrightarrow>
    yields pe columns n rows js (Const (RawInt y)) BInteger True q"
  by (simp add: yields_def)

lemma compiled_column_cases:
  assumes "compiled pe columns env n rows js e k r"
  obtains "\<not> type_is_encoded (snd r)"
  | name c ops v w codec where "e = ColName name" "snd (fst r) = vec_tag v"
      "eval pe columns n (fst (fst r)) = Inr (VBuf (Plain (vec_pick js v)))" "columns name = Some c"
      "env name = Some (k, ops, v, w)" "column_holds pe name c n k ops v w" "ty_codec (snd r) = Some codec"
      "c_ops codec = ops" "c_column_name codec = name" "ops \<noteq> []" "type_is_encoded (snd r)"
proof (cases "type_is_encoded (snd r)")
  case True
  then have "ty_codec (snd r) \<noteq> None" by (auto simp: type_is_encoded_def split: option.splits)
  with assms obtain name v w where "compiled_column pe columns env n js e k r name v w" by (auto simp: compiled_def)
  then show thesis using True that(2) by (auto simp: compiled_column_def type_is_encoded_def is_identity_def)
qed (rule that(1))

lemma encoded_comparison:
  assumes env: "env_holds pe columns env n rows" and sel: "filter_selects pe columns n filt js"
    and r: "compiled pe columns env n rows js r k R" "type_is_encoded (snd R)"
    and l: "compiled_const pe rows l k L"
    and f: "compare_of f = Some (c, swap)" and fit: "const_pair (const_ok columns env) f r l"
  shows "\<exists>p. encode_scalar (snd R) (fst L) = Inr (p, EScalarI64) \<and> \<not> is_nullable (snd (fst R)) \<and>
    computes pe columns n rows js (Func2 f l r) BBoolean (compare_swap swap c p (fst (fst R))) \<and>
    computes pe columns n rows js (Func2 f r l) BBoolean (compare_swap swap c (fst (fst R)) p)"
  using r(1)
proof (cases rule: compiled_column_cases)
  case (2 name col ops v w codec)
  have rows_w: "\<forall>i < n. rows name i = vec_cell w i" by (rule env_holdsD [OF env 2(5)])
  have dec: "ty_decoded (snd R) = k" using r(1) by (simp add: compiled_def)
  have nn: "\<not> is_nullable (snd (fst R))" using 2(2) by (cases v) (auto simp: is_nullable_def)
  have main: ?thesis
    if enc: "encode_scalar (snd R) (fst L) = Inr (p, EScalarI64)" "eval pe columns n p = Inr (VScalarI64 y)"
      and v: "vec_kind v = Some BInteger" and lx: "\<And>i. expr_cell pe rows l i = Inr x"
      and cc: "\<And>i. i < n \<Longrightarrow> cell_compare c (vec_cell v i) (CInt y) = cell_compare c (vec_cell w i) x"
        "\<And>i. i < n \<Longrightarrow> cell_compare c (CInt y) (vec_cell v i) = cell_compare c x (vec_cell w i)" for p x y
  proof -
    let ?rows = "\<lambda>_ :: string. vec_cell v"
    note yc = yields_codes [OF 2(3) v, of name] and yk = yields_code [OF enc(2), of ?rows js]
    have jn: "j < n" if "j \<in> set js" for j using filter_selects_less [OF sel that] .
    have "computes pe columns n rows js (Func2 f l r) BBoolean (compare_swap swap c p (fst (fst R)))"
      by (rule computes_compare_cong [OF computes_compare_swap [OF yk yc _ _ f] f])
         (use jn rows_w lx cc 2(1) in auto)
    moreover have "computes pe columns n rows js (Func2 f r l) BBoolean (compare_swap swap c (fst (fst R)) p)"
      by (rule computes_compare_cong [OF computes_compare_swap [OF yc yk _ _ f] f])
         (use jn rows_w lx cc 2(1) in auto)
    ultimately show ?thesis using enc(1) nn by blast
  qed
  from l consider (int) x where "const_val l = Some (RawInt x)" "k = BInteger" "L = const_i64 x" "\<forall>i. expr_cell pe rows l i = Inr (CInt x)"
    | (str) s where "const_val l = Some (RawStr s)" "k = BString" "L = const_str s" "\<forall>i. expr_cell pe rows l i = Inr (CStr s)"
    by (auto simp: compiled_const_def)
  then show ?thesis
  proof cases
    case int
    have "const_ok columns env name c (RawInt x)" using fit int(1) f 2(1) by (simp add: const_pair_def)
    note enc = encode_int_compare [OF 2(6) [unfolded int(2)] 2(10,4) 2(5) [unfolded int(2)] this 2(8)]
    show ?thesis by (rule enc, rule main [where x = "CInt x"]) (use int dec 2(7) in \<open>auto simp: encode_scalar_def const_i64_def\<close>)
  next
    case str
    have "const_ok columns env name c (RawStr s)" using fit str(1) f 2(1) by (simp add: const_pair_def)
    note enc = encode_str_compare [OF 2(6) [unfolded str(2)] 2(10,4) 2(5) [unfolded str(2)] this 2(8,9)]
    show ?thesis by (rule enc, rule main [where x = "CStr s"]) (use str dec 2(7,9) in \<open>auto simp: encode_scalar_def const_str_def\<close>)
  qed
qed (use r(2) in simp)

text \<open>Both kinds of operands of a two-argument function.\<close>

definition compiled_as ::
    "plan_externs \<Rightarrow> (string \<rightharpoonup> Column) \<Rightarrow> column_env \<Rightarrow> nat \<Rightarrow> (string \<Rightarrow> nat \<Rightarrow> cell) \<Rightarrow> nat list \<Rightarrow> Expr \<Rightarrow>
     BasicType \<times> bool \<Rightarrow> typed_plan \<Rightarrow> bool" where
  "compiled_as pe columns env n rows js e kb r =
     (if snd kb then compiled_const pe rows e (fst kb) r else compiled pe columns env n rows js e (fst kb) r)"

lemma compiled_plain:
  "computes pe columns n rows js e k p \<Longrightarrow> ty_codec t = None \<Longrightarrow> ty_decoded t = k \<Longrightarrow> \<not> ty_is_scalar t \<Longrightarrow>
   compiled pe columns env n rows js e k ((p, tag_for k), t)"
  by (simp add: compiled_def decode_type_def)

lemma tag_for_not_nullable [simp]: "\<not> is_nullable (tag_for k)"
  by (cases k) (auto simp: is_nullable_def)

lemma scalar_tag_not_nullable [simp]: "\<not> is_nullable EScalarI64" "\<not> is_nullable EScalarStr"
  by (simp_all add: is_nullable_def)

lemma compiled_as_type:
  "compiled_as pe columns env n rows js e kb r \<Longrightarrow> ty_decoded (snd r) = fst kb \<and> ty_is_scalar (snd r) = snd kb"
  by (auto simp: compiled_as_def compiled_def compiled_const_def const_i64_def const_str_def type_scalar_def split: if_splits)

lemma compiled_as_const_encoded:
  "compiled_const pe rows e k r \<Longrightarrow> \<not> type_is_encoded (snd r)"
  by (auto simp: compiled_const_def const_i64_def const_str_def type_scalar_def type_is_encoded_def)

lemma compiled_as_decode:
  assumes "compiled_as pe columns env n rows js e kb r" and k: "fst kb = BInteger \<or> fst kb = BString"
  obtains q t where "decode_type (snd r) (fst r) = Inr (q, t)" "\<not> is_nullable t"
    "yields pe columns n rows js e (fst kb) (snd kb) q"
proof (cases "snd kb")
  case True
  with assms(1) consider
      (int) x where "fst kb = BInteger" "r = const_i64 x" "\<forall>i. expr_cell pe rows e i = Inr (CInt x)"
    | (str) s where "fst kb = BString" "r = const_str s" "\<forall>i. expr_cell pe rows e i = Inr (CStr s)"
    by (auto simp: compiled_as_def compiled_const_def)
  then show thesis
  proof cases
    case int
    show thesis by (rule that [of "PScalarI64 x" EScalarI64])
      (use int True yields_const_int [of pe rows e x columns n js] in \<open>auto simp: const_i64_def decode_type_def type_scalar_def\<close>)
  next
    case str
    show thesis by (rule that [of "PScalarStr s" EScalarStr])
      (use str True yields_const_str [of pe rows e s columns n js] in \<open>auto simp: const_str_def decode_type_def type_scalar_def\<close>)
  qed
next
  case False
  with assms(1) obtain q where "decode_type (snd r) (fst r) = Inr (q, tag_for (fst kb))" "computes pe columns n rows js e (fst kb) q"
    by (auto simp: compiled_as_def compiled_def)
  then show thesis using that computes_yields [OF _ k] False by auto
qed

lemma compile_comparison:
  assumes env: "env_holds pe columns env n rows" and sel: "filter_selects pe columns n filt js"
    and l: "compiled_as pe columns env n rows js l (k, a) L" and r: "compiled_as pe columns env n rows js r (k, b) R"
    and k: "k = BInteger \<or> k = BString" and ab: "\<not> (a \<and> b)" and f: "compare_of f = Some (c, swap)"
    and fit: "const_pair (const_ok columns env) f l r" "const_pair (const_ok columns env) f r l"
    and d: "encoding_invariance d"
  shows "\<exists>p q. compile_operands d L R = Inr (p, q) \<and> \<not> is_nullable (snd p) \<and> \<not> is_nullable (snd q) \<and>
    computes pe columns n rows js (Func2 f l r) BBoolean (compare_swap swap c (fst p) (fst q))"
proof -
  have ty: "ty_is_scalar (snd L) = a" "ty_is_scalar (snd R) = b" using compiled_as_type [OF l] compiled_as_type [OF r] by auto
  consider (lc) "a" "type_is_encoded (snd R)" | (rc) "b" "type_is_encoded (snd L)"
    | (dec) "\<not> (a \<and> type_is_encoded (snd R))" "\<not> (b \<and> type_is_encoded (snd L))" by blast
  then show ?thesis
  proof cases
    case lc
    then have "compiled pe columns env n rows js r k R" "compiled_const pe rows l k L"
      using l r ab by (auto simp: compiled_as_def)
    from encoded_comparison [OF env sel this(1) lc(2) this(2) f fit(2)]
    obtain p where "encode_scalar (snd R) (fst L) = Inr (p, EScalarI64)" "\<not> is_nullable (snd (fst R))"
      "computes pe columns n rows js (Func2 f l r) BBoolean (compare_swap swap c p (fst (fst R)))" by blast
    then show ?thesis using d lc ty by (simp add: compile_operands_def)
  next
    case rc
    then have "compiled pe columns env n rows js l k L" "compiled_const pe rows r k R"
      using l r ab by (auto simp: compiled_as_def)
    from encoded_comparison [OF env sel this(1) rc(2) this(2) f fit(1)]
    obtain p where "encode_scalar (snd L) (fst R) = Inr (p, EScalarI64)" "\<not> is_nullable (snd (fst L))"
      "computes pe columns n rows js (Func2 f l r) BBoolean (compare_swap swap c (fst (fst L)) p)" by blast
    then show ?thesis using d rc ty ab by (simp add: compile_operands_def)
  next
    case dec
    obtain p t where p: "decode_type (snd L) (fst L) = Inr (p, t)" "\<not> is_nullable t" "yields pe columns n rows js l k a p"
      using compiled_as_decode [OF l] k by auto
    obtain q u where q: "decode_type (snd R) (fst R) = Inr (q, u)" "\<not> is_nullable u" "yields pe columns n rows js r k b q"
      using compiled_as_decode [OF r] k by auto
    have "computes pe columns n rows js (Func2 f l r) BBoolean (compare_swap swap c p q)"
      by (rule computes_compare_swap [OF p(3) q(3) k ab f])
    with p(1,2) q(1,2) dec ty show ?thesis by (auto simp: compile_operands_def)
  qed
qed

lemma find_comparison:
  assumes "compare_of f = Some (c, swap)" "ty_decoded t = k" "ty_decoded u = k" "k = BInteger \<or> k = BString"
  shows "find_declaration f t u =
    Inr (comparison_op (\<lambda>lhs rhs. if swap then compare_plan c rhs lhs else compare_plan c lhs rhs) k)"
  using assms by (cases f) (auto simp: find_declaration_def comparison_ops_def comparison_op_def)

lemma find_arith:
  assumes "arith_of f = Some g" "ty_decoded t = BInteger" "ty_decoded u = BInteger"
  shows "find_declaration f t u = Inr (integer_op (checked_plan g))"
  using assms by (cases f) (auto simp: find_declaration_def integer_op_def)

lemma compile_comparison_op:
  assumes env: "env_holds pe columns env n rows" and sel: "filter_selects pe columns n filt js"
    and l: "compiled_as pe columns env n rows js l (k, a) L" and r: "compiled_as pe columns env n rows js r (k, b) R"
    and k: "k = BInteger \<or> k = BString" and ab: "\<not> (a \<and> b)" and f: "compare_of f = Some (c, swap)"
    and fit: "const_pair (const_ok columns env) f l r" "const_pair (const_ok columns env) f r l"
  shows "\<exists>z. compile_function2 f L R = Inr z \<and> compiled pe columns env n rows js (Func2 f l r) BBoolean z"
proof -
  let ?d = "comparison_op (\<lambda>lhs rhs. if swap then compare_plan c rhs lhs else compare_plan c lhs rhs) k"
  have find: "find_declaration f (snd L) (snd R) = Inr ?d"
    by (rule find_comparison [OF f _ _ k]) (use compiled_as_type [OF l] compiled_as_type [OF r] in auto)
  have "encoding_invariance ?d" by (simp add: comparison_op_def)
  from compile_comparison [OF env sel l r k ab f fit this]
  obtain p q where pq: "compile_operands ?d L R = Inr (p, q)" "\<not> is_nullable (snd p)" "\<not> is_nullable (snd q)"
    "computes pe columns n rows js (Func2 f l r) BBoolean (compare_swap swap c (fst p) (fst q))" by blast
  have "compile_function2 f L R = Inr ((compare_swap swap c (fst p) (fst q), EU8), type_mutable (type_unencoded BBoolean))"
    using find pq(1-3) by (simp add: compile_function2_def comparison_op_def compare_plan_def null_tag_def compare_swap_def)
  moreover have "compiled pe columns env n rows js (Func2 f l r) BBoolean
      ((compare_swap swap c (fst p) (fst q), EU8), type_mutable (type_unencoded BBoolean))"
    using compiled_plain [OF pq(4), of "type_mutable (type_unencoded BBoolean)" env]
    by (simp add: type_mutable_def type_unencoded_def)
  ultimately show ?thesis by blast
qed

lemma compile_arith_op:
  assumes l: "compiled_as pe columns env n rows js l (BInteger, a) L" and r: "compiled_as pe columns env n rows js r (BInteger, b) R"
    and ab: "\<not> (a \<and> b)" and f: "arith_of f = Some g"
  shows "\<exists>z. compile_function2 f L R = Inr z \<and> compiled pe columns env n rows js (Func2 f l r) BInteger z"
proof -
  let ?d = "integer_op (checked_plan g)"
  have find: "find_declaration f (snd L) (snd R) = Inr ?d"
    by (rule find_arith [OF f]) (use compiled_as_type [OF l] compiled_as_type [OF r] in auto)
  obtain p t where p: "decode_type (snd L) (fst L) = Inr (p, t)" "\<not> is_nullable t" "yields pe columns n rows js l BInteger a p"
    using compiled_as_decode [OF l] by auto
  obtain q u where q: "decode_type (snd R) (fst R) = Inr (q, u)" "\<not> is_nullable u" "yields pe columns n rows js r BInteger b q"
    using compiled_as_decode [OF r] by auto
  have cell: "expr_cell pe rows (Func2 f l r) i =
      rbind (expr_cell pe rows l i) (\<lambda>x. rbind (expr_cell pe rows r i) (\<lambda>y. cell_checked g x y))" for i
    using f by (cases f; cases "expr_cell pe rows l i"; cases "expr_cell pe rows r i") auto
  have "computes pe columns n rows js (Func2 f l r) BInteger (PChecked g p q)"
    by (rule computes_checked [OF p(3) q(3) ab cell])
  from compiled_plain [OF this, of "type_mutable (type_unencoded BInteger)" env]
  have "compiled pe columns env n rows js (Func2 f l r) BInteger ((PChecked g p q, EI64), type_mutable (type_unencoded BInteger))"
    by (simp add: type_mutable_def type_unencoded_def)
  moreover have "compile_function2 f L R = Inr ((PChecked g p q, EI64), type_mutable (type_unencoded BInteger))"
    using find p(1,2) q(1,2) by (simp add: compile_function2_def compile_operands_def integer_op_def checked_plan_def null_tag_def)
  ultimately show ?thesis by blast
qed

lemma compiled_bool:
  assumes "compiled pe columns env n rows js e BBoolean r"
  shows "computes pe columns n rows js e BBoolean (fst (fst r))" "snd (fst r) = EU8" "ty_codec (snd r) = None"
    "ty_decoded (snd r) = BBoolean" "\<not> ty_is_scalar (snd r)"
proof -
  have "\<not> compiled_column pe columns env n js e BBoolean r name v w" for name v w
    by (cases w) (auto simp: compiled_column_def column_holds_def)
  then show codec: "ty_codec (snd r) = None" using assms by (auto simp: compiled_def)
  with assms show "computes pe columns n rows js e BBoolean (fst (fst r))" "snd (fst r) = EU8"
    "ty_decoded (snd r) = BBoolean" "\<not> ty_is_scalar (snd r)"
    by (auto simp: compiled_def decode_type_def)
qed

lemma compile_boolean_op:
  assumes l: "compiled pe columns env n rows js l BBoolean L" and r: "compiled pe columns env n rows js r BBoolean R"
    and f: "f = Func2Type.And \<and> m = PAnd \<or> f = Func2Type.Or \<and> m = POr"
  shows "\<exists>z. compile_boolean m L R = Inr z \<and> compiled pe columns env n rows js (Func2 f l r) BBoolean z"
proof -
  note L = compiled_bool [OF l] and R = compiled_bool [OF r]
  have cell: "expr_cell pe rows (Func2 f l r) i =
      rbind (expr_cell pe rows l i) (\<lambda>x. rbind (expr_cell pe rows r i) (cell_func2 f x))" for i
    using f by auto
  have "computes pe columns n rows js (Func2 f l r) BBoolean (m (fst (fst L)) (fst (fst R)))"
    using f
  proof (elim disjE conjE)
    assume fm: "f = Func2Type.And" "m = PAnd"
    show ?thesis
      by (rule computes_boolean [OF L(1) R(1) cell, where h = "(AND)" and ev = boolean_and_evaluate])
         (use fm boolean_evaluate_nth(1) in auto)
  next
    assume fm: "f = Func2Type.Or" "m = POr"
    show ?thesis
      by (rule computes_boolean [OF L(1) R(1) cell, where h = "(OR)" and ev = boolean_or_evaluate])
         (use fm boolean_evaluate_nth(2) in auto)
  qed
  from compiled_plain [OF this, of type_bit_vec env] L R show ?thesis
    by (simp add: compile_boolean_def null_tag_def is_nullable_def type_bit_vec_def type_mutable_def type_new_def)
qed

lemma compile_regex_op:
  assumes l: "compiled pe columns env n rows js l BString L"
    and e: "\<And>i. expr_cell pe rows e i = rmap (cell_regex pe s) (expr_cell pe rows l i)"
    and valid: "regex_valid pe s"
  shows "\<exists>z. compile_regex s L = Inr z \<and> compiled pe columns env n rows js e BBoolean z"
proof -
  obtain q where q: "ty_decoded (snd L) = BString" "decode_type (snd L) (fst L) = Inr (q, EStr)" "computes pe columns n rows js l BString q"
    using l by (auto simp: compiled_def)
  from compiled_plain [OF computes_regex [OF q(3) e valid], of "type_mutable (type_unencoded BBoolean)" env] q
  show ?thesis by (simp add: compile_regex_def expect_tag_def type_mutable_def type_unencoded_def)
qed

lemma compile_not_op:
  assumes l: "compiled pe columns env n rows js l BBoolean L"
    and e: "\<And>i. expr_cell pe rows e i = rbind (expr_cell pe rows l i) (cell_func1 pe Func1Type.Not)"
  shows "\<exists>z. compile_func1 len Func1Type.Not L = Inr z \<and> compiled pe columns env n rows js e BBoolean z"
proof -
  note L = compiled_bool [OF l]
  from compiled_plain [OF computes_not [OF L(1) e], of "type_decoded (snd L)" env] L
  show ?thesis by (cases L) (simp add: decode_type_def expect_tag_def type_decoded_def)
qed

lemma compile_year_op:
  assumes l: "compiled pe columns env n rows js l BInteger L"
    and e: "\<And>i. expr_cell pe rows e i = rbind (expr_cell pe rows l i) (cell_func1 pe ToYear)"
  shows "\<exists>z. compile_func1 len ToYear L = Inr z \<and> compiled pe columns env n rows js e BInteger z"
proof -
  obtain q where q: "ty_decoded (snd L) = BInteger" "\<not> ty_is_scalar (snd L)"
    "decode_type (snd L) (fst L) = Inr (q, EI64)" "computes pe columns n rows js l BInteger q"
    using l by (auto simp: compiled_def)
  from compiled_plain [OF computes_year [OF q(4) e], of "type_decoded (snd L)" env] q
  show ?thesis by (cases L) (simp add: i64_like_def type_decoded_def is_nullable_def)
qed

lemma expr_type_Func2:
  assumes "expr_type pe types (Func2 f l r) = Some kb"
  obtains
    (arith) g a b where "arith_of f = Some g" "expr_type pe types l = Some (BInteger, a)" "expr_type pe types r = Some (BInteger, b)"
      "\<not> (a \<and> b)" "kb = (BInteger, False)"
  | (compare) c swap k a b where "compare_of f = Some (c, swap)" "expr_type pe types l = Some (k, a)" "expr_type pe types r = Some (k, b)"
      "\<not> (a \<and> b)" "k = BInteger \<or> k = BString" "kb = (BBoolean, False)"
  | (boolean) a b where "f = Func2Type.And \<or> f = Func2Type.Or" "expr_type pe types l = Some (BBoolean, a)"
      "expr_type pe types r = Some (BBoolean, b)" "kb = (BBoolean, False)"
  | (regex) s where "f = RegexMatch" "r = Const (RawStr s)" "regex_valid pe s" "expr_type pe types l = Some (BString, False)" "kb = (BBoolean, False)"
  | (like) s where "f = Like \<or> f = NotLike" "r = Const (RawStr s)" "regex_valid pe (like_regex pe s)" "expr_type pe types l = Some (BString, False)" "kb = (BBoolean, False)"
proof (cases "f = RegexMatch \<or> f = Like \<or> f = NotLike")
  case True
  with assms show thesis
    using regex like by (auto split: if_splits Expr.splits RawVal.splits)
next
  case False
  with assms obtain x y where xy: "expr_type pe types l = Some x" "expr_type pe types r = Some y" "func2_type f x y = Some kb"
    by (auto split: option.splits)
  from xy(3) show thesis
    unfolding func2_type_def
    by (cases x; cases y; cases "arith_of f"; cases "compare_of f")
       (use arith compare boolean xy(1,2) in \<open>auto split: if_splits\<close>)
qed

lemma expr_type_Func1:
  assumes "expr_type pe types (Func1 f e) = Some kb" "\<not> (f = Negate \<and> (\<exists>i. e = Const (RawInt i)))"
  obtains "f = Func1Type.Not" "expr_type pe types e = Some (BBoolean, False)" "kb = (BBoolean, False)"
  | "f = ToYear" "expr_type pe types e = Some (BInteger, False)" "kb = (BInteger, False)"
proof (cases f)
  case Negate
  with assms show thesis by (cases e) (auto split: RawVal.splits)
next
  case Not
  with assms(1) have "(if expr_type pe types e = Some (BBoolean, False) then Some (BBoolean, False) else None) = Some kb" by simp
  then have "expr_type pe types e = Some (BBoolean, False) \<and> kb = (BBoolean, False)" by (auto split: if_split_asm)
  with Not show thesis by (intro that(1)) simp_all
next
  case ToYear
  with assms(1) have "(if expr_type pe types e = Some (BInteger, False) then Some (BInteger, False) else None) = Some kb" by simp
  then have "expr_type pe types e = Some (BInteger, False) \<and> kb = (BInteger, False)" by (auto split: if_split_asm)
  with ToYear show thesis by (intro that(2)) simp_all
qed (use assms(1) in simp_all)

lemma compile_expr_Func2:
  "arith_of f \<noteq> None \<or> compare_of f \<noteq> None \<Longrightarrow>
   compile_expr pe columns n filt (Func2 f l r) =
     rbind (compile_expr pe columns n filt l) (\<lambda>L. rbind (compile_expr pe columns n filt r) (compile_function2 f L))"
  by (cases f) auto

lemma compile_expr_compiled:
  assumes env: "env_holds pe columns env n rows" and sel: "filter_selects pe columns n filt js"
  shows "expr_type pe (\<lambda>name. map_option fst (env name)) e = Some kb \<Longrightarrow> consts_fit (const_ok columns env) e \<Longrightarrow>
    \<exists>z. compile_expr pe columns n filt e = Inr z \<and> compiled_as pe columns env n rows js e kb z"
proof (induction e arbitrary: kb)
  case (ColName name)
  then obtain k ops v w where "env name = Some (k, ops, v, w)" "kb = (k, False)" by auto
  with compiled_colname [OF env _ sel] show ?case by (simp add: compiled_as_def)
next
  case (Const v)
  then show ?case by (cases v) (auto simp: compiled_as_def compiled_const_def)
next
  case (Func1 f e)
  consider (neg) i where "f = Negate" "e = Const (RawInt i)" | (other) "\<not> (f = Negate \<and> (\<exists>i. e = Const (RawInt i)))" by blast
  then show ?case
  proof cases
    case neg
    with Func1.prems show ?thesis by (auto simp: compiled_as_def compiled_const_def)
  next
    case other
    then have comp: "compile_expr pe columns n filt (Func1 f e) = rbind (compile_expr pe columns n filt e) (compile_func1 n f)"
      by (auto split: Func1Type.split Expr.split RawVal.split)
    from Func1.prems(1) other consider
        "f = Func1Type.Not" "expr_type pe (\<lambda>name. map_option fst (env name)) e = Some (BBoolean, False)" "kb = (BBoolean, False)"
      | "f = ToYear" "expr_type pe (\<lambda>name. map_option fst (env name)) e = Some (BInteger, False)" "kb = (BInteger, False)"
      by (rule expr_type_Func1)
    then show ?thesis
    proof cases
      case 1
      then obtain L where L: "compile_expr pe columns n filt e = Inr L" "compiled pe columns env n rows js e BBoolean L"
        using Func1.IH [OF 1(2)] Func1.prems(2) by (auto simp: compiled_as_def)
      obtain z where "compile_func1 n Func1Type.Not L = Inr z" "compiled pe columns env n rows js (Func1 f e) BBoolean z"
        using compile_not_op [OF L(2), of "Func1 f e" n] 1(1) by auto
      with comp L 1 show ?thesis by (simp add: compiled_as_def)
    next
      case 2
      then obtain L where L: "compile_expr pe columns n filt e = Inr L" "compiled pe columns env n rows js e BInteger L"
        using Func1.IH [OF 2(2)] Func1.prems(2) by (auto simp: compiled_as_def)
      obtain z where "compile_func1 n ToYear L = Inr z" "compiled pe columns env n rows js (Func1 f e) BInteger z"
        using compile_year_op [OF L(2), of "Func1 f e" n] 2(1) by auto
      with comp L 2 show ?thesis by (simp add: compiled_as_def)
    qed
  qed
next
  case (Func2 f l r)
  have fit: "consts_fit (const_ok columns env) l" "consts_fit (const_ok columns env) r"
    "const_pair (const_ok columns env) f l r" "const_pair (const_ok columns env) f r l" using Func2.prems(2) by auto
  from Func2.prems(1) show ?case
  proof (cases rule: expr_type_Func2)
    case (arith g a b)
    obtain L where L: "compile_expr pe columns n filt l = Inr L" "compiled_as pe columns env n rows js l (BInteger, a) L"
      using Func2.IH(1) [OF arith(2) fit(1)] by blast
    obtain R where R: "compile_expr pe columns n filt r = Inr R" "compiled_as pe columns env n rows js r (BInteger, b) R"
      using Func2.IH(2) [OF arith(3) fit(2)] by blast
    from compile_arith_op [OF L(2) R(2) arith(4,1)] L(1) R(1) arith(1,5) compile_expr_Func2 [of f]
    show ?thesis by (auto simp: compiled_as_def simp del: compile_expr.simps)
  next
    case (compare c swap k a b)
    obtain L where L: "compile_expr pe columns n filt l = Inr L" "compiled_as pe columns env n rows js l (k, a) L"
      using Func2.IH(1) [OF compare(2) fit(1)] by blast
    obtain R where R: "compile_expr pe columns n filt r = Inr R" "compiled_as pe columns env n rows js r (k, b) R"
      using Func2.IH(2) [OF compare(3) fit(2)] by blast
    from compile_comparison_op [OF env sel L(2) R(2) compare(5,4,1) fit(3,4)] L(1) R(1) compare(1,6) compile_expr_Func2 [of f]
    show ?thesis by (auto simp: compiled_as_def simp del: compile_expr.simps)
  next
    case (boolean a b)
    obtain L where L: "compile_expr pe columns n filt l = Inr L" "compiled_as pe columns env n rows js l (BBoolean, a) L"
      using Func2.IH(1) [OF boolean(2) fit(1)] by blast
    obtain R where R: "compile_expr pe columns n filt r = Inr R" "compiled_as pe columns env n rows js r (BBoolean, b) R"
      using Func2.IH(2) [OF boolean(3) fit(2)] by blast
    have "compiled pe columns env n rows js l BBoolean L" "compiled pe columns env n rows js r BBoolean R"
      using L(2) R(2) by (auto simp: compiled_as_def compiled_const_def split: if_splits)
    from compile_boolean_op [OF this, of f] L(1) R(1) boolean show ?thesis by (auto simp: compiled_as_def)
  next
    case (regex s)
    obtain L where L: "compile_expr pe columns n filt l = Inr L" "compiled pe columns env n rows js l BString L"
      using Func2.IH(1) [OF regex(4) fit(1)] by (auto simp: compiled_as_def)
    from compile_regex_op [OF L(2), of "Func2 f l r" s] L(1) regex
    show ?thesis by (auto simp: compiled_as_def compile_regex_match_def)
  next
    case (like s)
    obtain L where L: "compile_expr pe columns n filt l = Inr L" "compiled pe columns env n rows js l BString L"
      using Func2.IH(1) [OF like(4) fit(1)] by (auto simp: compiled_as_def)
    obtain z where z: "compile_regex (like_regex pe s) L = Inr z"
      "compiled pe columns env n rows js (Func2 Like l r) BBoolean z"
      using compile_regex_op [OF L(2), of "Func2 Like l r" "like_regex pe s"] like(2,3) by auto
    from like(1) show ?thesis
    proof
      assume "f = Like"
      with L(1) z like(2,5) show ?thesis by (simp add: compiled_as_def compile_like_def)
    next
      assume f: "f = NotLike"
      with compile_not_op [OF z(2), of "Func2 f l r" n] L(1) z(1) like(2,5)
      show ?thesis by (auto simp: compiled_as_def compile_like_def)
    qed
  qed
qed simp

text \<open>
  C3. Compiling an expression is correct. Over columns whose codecs decode, under every filter, an
  expression that has a type (integers, strings and comparisons of them, boolean functions,
  arithmetic, \<open>LIKE\<close> and \<open>regex\<close> with a valid expression, \<open>to_year\<close>) compiles, and the decoded plan gives for every
  selected row the value of the expression there, or fails if the expression fails in one of the rows
  (overflow, division by zero). This covers comparisons that never decode the column but encode the
  constant instead: then the constant minus the offset has to stay within \<open>i64\<close>, and a string compared
  by order has to be one of the dictionary.
\<close>

theorem compile_expr_correct:
  assumes "env_holds pe columns env n rows" and "filter_selects pe columns n filt js"
    and "expr_type pe (\<lambda>name. map_option fst (env name)) e = Some (k, False)"
    and "consts_fit (const_ok columns env) e"
  shows "\<exists>p t q. compile_expr pe columns n filt e = Inr (p, t) \<and> decode_type t p = Inr (q, tag_for k) \<and>
    (if \<exists>j \<in> set js. \<exists>err. expr_cell pe rows e j = Inl err then \<exists>err. eval pe columns n q = Inl err
     else \<exists>v. eval pe columns n q = Inr (VBuf (Plain v)) \<and> vec_tag v = tag_for k \<and> vec_len v = length js \<and>
       (\<forall>i < length js. expr_cell pe rows e (js ! i) = Inr (vec_cell v i)))"
proof -
  obtain p t q where "compile_expr pe columns n filt e = Inr (p, t)" "decode_type t p = Inr (q, tag_for k)"
    and c: "computes pe columns n rows js e k q"
    using compile_expr_compiled [OF assms(1,2,3,4)] by (auto simp: compiled_as_def compiled_def)
  moreover have "vec_tag v = tag_for k" if "value_ok k v" for v using that by (cases k) auto
  ultimately show ?thesis using c unfolding computes_def
    by (intro exI [of _ p] exI [of _ t] exI [of _ q] conjI) (assumption | (simp split: if_splits; blast))+
qed

text \<open>The codes 1, 5, 3 with offset 100, and the condition \<open>x > 102 AND x + x < 209\<close>.\<close>

definition plain_externs :: plan_externs where
  "plain_externs =
     \<lparr>pe_ext = \<lparr>enable_lz4 = False, lz4_frame = id, lz4_unframe = id, hex_decode = (\<lambda>s. None), hex_encode = id,
        hex_encode_upper = id\<rparr>,
      pe_sort = stable_sort, regex_valid = (\<lambda>p. True), regex_find = (\<lambda>p s. p = s), regex_escape = id,
      regex_replace_all = (\<lambda>r t u. t),
      year_of = (\<lambda>t. Some (t div 31556952 + 1970)), float_rank = uint, float_mul = (\<lambda>a b. a), float_of_i64 = of_int\<rparr>"

definition offset_column :: Column where
  "offset_column =
     \<lparr>col_name = ''x'', col_len = 3, col_range = Some (101, 105),
      col_codec = \<lparr>c_ops = [CodecOp.Add EU8 100], c_column_name = ''x'', c_section_types = [EU8], c_decoded_type = BInteger,
        c_is_summation_preserving = False, c_is_order_preserving = True, c_is_fixed_width = True\<rparr>,
      col_data = [SecU8 [1, 5, 3]]\<rparr>"

definition offset_condition :: Expr where
  "offset_condition =
     Func2 Func2Type.And (Func2 GT (ColName ''x'') (Const (RawInt 102)))
       (Func2 LT (Func2 Func2Type.Add (ColName ''x'') (ColName ''x'')) (Const (RawInt 209)))"

definition offset_env :: column_env where
  "offset_env = [''x'' \<mapsto> (BInteger, [CodecOp.Add EU8 100], VU8 [1, 5, 3], VI64 [101, 105, 103])]"

lemma offset_column_new: "column_new ''x'' 3 (Some (101, 105)) [CodecOp.Add EU8 100] [SecU8 [1, 5, 3]] = Inr offset_column"
  by code_simp

lemma example_i64: "wrap_i64 101 = 101" "wrap_i64 103 = 103" "wrap_i64 105 = 105"
  "overflowing_i64 202 = (202, False)" "overflowing_i64 206 = (206, False)" "overflowing_i64 210 = (210, False)"
  "in_i64 2" "in_i64 101" "in_i64 105" "in_i64 103"
  by code_simp+

lemma offset_env_holds:
  "env_holds plain_externs [''x'' \<mapsto> offset_column] offset_env 3 (\<lambda>_ i. CInt ([101, 105, 103] ! i))"
  by (simp add: env_holds_def offset_env_def column_holds_def offset_column_def col_typed_def addition_perform_def
    less_Suc_eq numeral_3_eq_3 [symmetric] example_i64)

theorem compile_expr_correct_witness:
  "\<exists>p t q v. compile_expr plain_externs [''x'' \<mapsto> offset_column] 3 FNone offset_condition = Inr (p, t) \<and>
     decode_type t p = Inr (q, EU8) \<and> eval plain_externs [''x'' \<mapsto> offset_column] 3 q = Inr (VBuf (Plain v)) \<and>
     map (vec_cell v) [0, 1, 2] = [CInt 0, CInt 0, CInt 1]"
proof -
  let ?rows = "\<lambda>_ i. CInt ([101, 105, 103] ! i)"
  have cells: "expr_cell plain_externs ?rows offset_condition 0 = Inr (CInt 0)"
    "expr_cell plain_externs ?rows offset_condition 1 = Inr (CInt 0)"
    "expr_cell plain_externs ?rows offset_condition 2 = Inr (CInt 1)"
    by (simp_all add: offset_condition_def example_i64)
  have ty: "expr_type plain_externs (\<lambda>name. map_option fst (offset_env name)) offset_condition = Some (BBoolean, False)"
    by (simp add: offset_condition_def offset_env_def func2_type_def)
  have codes: "in_i64 (uint ([1, 5, 3 :: u8] ! i) + 100)" if "i < 3" for i
  proof -
    from that have "i = 0 \<or> i = 1 \<or> i = 2" by auto
    then show ?thesis by (auto simp: example_i64)
  qed
  have fit: "consts_fit (const_ok [''x'' \<mapsto> offset_column] offset_env) offset_condition"
    by (auto simp: offset_condition_def const_pair_def const_ok_def offset_env_def example_i64 codes)
  have sel: "filter_selects plain_externs [''x'' \<mapsto> offset_column] 3 FNone [0, 1, 2]"
    by (simp add: filter_selects_def upt_rec)
  have "\<not> (\<exists>j \<in> set [0, 1, 2]. \<exists>err. expr_cell plain_externs ?rows offset_condition j = Inl err)" using cells by auto
  then obtain p t q v where r: "compile_expr plain_externs [''x'' \<mapsto> offset_column] 3 FNone offset_condition = Inr (p, t)"
    "decode_type t p = Inr (q, tag_for BBoolean)" "eval plain_externs [''x'' \<mapsto> offset_column] 3 q = Inr (VBuf (Plain v))"
    "\<forall>i < length [0, 1, 2::nat]. expr_cell plain_externs ?rows offset_condition ([0, 1, 2] ! i) = Inr (vec_cell v i)"
    using compile_expr_correct [OF offset_env_holds sel ty fit] by (simp only: if_False) blast
  from r(4) have "\<forall>i \<in> {0, 1, 2}. expr_cell plain_externs ?rows offset_condition i = Inr (vec_cell v i)"
    by (auto simp: All_less_Suc numeral_2_eq_2)
  with cells r(1-3) show ?thesis by (intro exI [of _ p] exI [of _ t] exI [of _ q] exI [of _ v]) simp
qed

end
