(* ===== verification/Query_Run.thy ===== *)
theory Query_Run
  imports Expr_Correct Batch_Merging
begin

text \<open>
  Running the main phase of a query without aggregates on one partition
  (src/src/engine/planning/query.rs, \<open>NormalFormQuery::run\<close>): the plan of the filter, the sort of the
  selected rows or their top n, the row numbers that the projections are evaluated on, and the
  collection of the result columns (src/src/engine/execution/scratchpad.rs, \<open>collect_aliased\<close>).

  The columns of the result are lists of cells; cells are ordered as the merge operators compare
  them (\<open>None\<close> before everything else, then numbers, strings by their bytes), so that the results of
  Batch_Merging and Query_Results apply to what this theory computes.
\<close>

section \<open>The order of cells\<close>

fun cell_rank :: "cell \<Rightarrow> int list" where
  "cell_rank CNull = [0]"
| "cell_rank (CInt x) = [1, x]"
| "cell_rank (CStr s) = 2 # map uint s"
| "cell_rank (CFloat f) = [3, uint f]"

lemma map_uint_inj: "map uint s = map uint t \<longleftrightarrow> s = (t :: 'a::len word list)"
  by (rule inj_map_eq_map) (simp add: inj_def word_uint_eq_iff)

lemma cell_rank_inj: "cell_rank a = cell_rank b \<Longrightarrow> a = b"
  by (cases a; cases b) (simp_all add: map_uint_inj word_uint_eq_iff)

instantiation cell :: linorder
begin

definition less_eq_cell :: "cell \<Rightarrow> cell \<Rightarrow> bool" where
  "a \<le> b \<longleftrightarrow> cell_rank a \<le> cell_rank b"

definition less_cell :: "cell \<Rightarrow> cell \<Rightarrow> bool" where
  "a < b \<longleftrightarrow> cell_rank a < cell_rank b"

instance
  by standard (auto simp: less_eq_cell_def less_cell_def dest: cell_rank_inj)

end

lemma map_uint_less: "map uint s < map uint t \<longleftrightarrow> s < (t :: 'a::len word list)"
proof (induction s arbitrary: t)
  case Nil
  then show ?case by (cases t) simp_all
next
  case (Cons a s)
  then show ?case by (cases t) (simp_all add: word_less_def word_uint_eq_iff)
qed

lemma map_uint_le: "map uint s \<le> map uint t \<longleftrightarrow> s \<le> (t :: 'a::len word list)"
  by (simp add: order_le_less map_uint_less map_uint_inj)

lemma cell_le_simps [simp]:
  "CInt a \<le> CInt b \<longleftrightarrow> a \<le> b" "CStr s \<le> CStr t \<longleftrightarrow> s \<le> t"
  by (auto simp: less_eq_cell_def map_uint_le)

section \<open>NormalFormQuery::run\<close>

definition where_filter :: "tref \<Rightarrow> Filter" where
  "where_filter p =
     (if snd p = EU8 then FU8 (fst p) else if snd p = ENullableU8 then FNullableU8 (fst p) else FNone)"

definition order_preserving :: "typed_plan \<Rightarrow> typed_plan res" where
  "order_preserving p =
     (if type_is_order_preserving (snd p) then Inr p
      else case ty_codec (snd p) of
             None \<Rightarrow> Inl Panicked
           | Some codec \<Rightarrow> rmap (\<lambda>q. (q, type_decoded (snd p))) (decode_ref codec (fst p)))"

text \<open>One pass of the loop over the \<open>ORDER BY\<close> expressions, from the last to the first.\<close>

definition sort_step ::
    "plan_externs \<Rightarrow> (string \<rightharpoonup> Column) \<Rightarrow> nat \<Rightarrow> Filter \<Rightarrow> nat \<Rightarrow> bool \<Rightarrow> QueryPlan option \<Rightarrow> Expr \<times> bool \<Rightarrow>
     QueryPlan option res" where
  "sort_step pe columns partition_len filt limit single sort_indices e =
     rbind (compile_expr pe columns partition_len filt (fst e)) (\<lambda>p.
     rbind (order_preserving p) (\<lambda>((ranking, _), _).
       Inr (Some (if limit < partition_len div 2 \<and> single then PTopN ranking limit (snd e)
                  else case sort_indices of
                         None \<Rightarrow> PSortBy ranking (PIndices ranking) (snd e) False
                       | Some indices \<Rightarrow> PSortBy ranking indices (snd e) True))))"

definition compile_order_by ::
    "plan_externs \<Rightarrow> (string \<rightharpoonup> Column) \<Rightarrow> nat \<Rightarrow> Filter \<Rightarrow> nat \<Rightarrow> (Expr \<times> bool) list \<Rightarrow> QueryPlan option res" where
  "compile_order_by pe columns partition_len filt limit order_by =
     rfoldM (sort_step pe columns partition_len filt limit (length order_by = 1)) None (rev order_by)"

text \<open>The row numbers of the partition in the order of the result.\<close>

definition sorted_filter :: "nat \<Rightarrow> Filter \<Rightarrow> QueryPlan option \<Rightarrow> Filter res" where
  "sorted_filter partition_len filt sort_indices =
     (case sort_indices of
        None \<Rightarrow> Inr filt
      | Some sort_indices \<Rightarrow>
          (case filt of
             FU8 where_true \<Rightarrow> Inr (FIndices (PSelect (PFilter (PIndices (PNullVec partition_len)) where_true) sort_indices))
           | FNullableU8 where_true \<Rightarrow>
               Inr (FIndices (PSelect (PNullableFilter (PIndices (PNullVec partition_len)) where_true) sort_indices))
           | FNone \<Rightarrow> Inr (FIndices sort_indices)
           | FIndices _ \<Rightarrow> Inl Panicked))"

definition compile_projection ::
    "plan_externs \<Rightarrow> (string \<rightharpoonup> Column) \<Rightarrow> nat \<Rightarrow> Filter \<Rightarrow> Expr \<Rightarrow> QueryPlan res" where
  "compile_projection pe columns partition_len filt e =
     rbind (compile_expr pe columns partition_len filt e) (\<lambda>(p, t).
     rbind (decode_type t p) (\<lambda>(plan, tag).
       Inr (if is_nullable tag then PFuseNulls plan else plan)))"

text \<open>
  The columns are collected with \<open>collect_aliased\<close>; equal plans have the same buffer.
\<close>

definition value_cells :: "value \<Rightarrow> cell list res" where
  "value_cells v = rmap (\<lambda>len. map (value_cell v) [0..<len]) (value_len v)"

definition plan_cells :: "plan_externs \<Rightarrow> (string \<rightharpoonup> Column) \<Rightarrow> nat \<Rightarrow> QueryPlan \<Rightarrow> cell list res" where
  "plan_cells pe columns partition_len p = rbind (eval pe columns partition_len p) value_cells"

definition run_query ::
    "plan_externs \<Rightarrow> (string \<rightharpoonup> Column) \<Rightarrow> bool \<Rightarrow> nat \<Rightarrow> NormalFormQuery \<Rightarrow> cell BatchResult res" where
  "run_query pe columns show_plan partition_len q =
     (let limit = (lc_limit (nf_limit q) + lc_offset (nf_limit q)) mod 2 ^ 64 in
      rbind (compile_expr pe columns partition_len FNone (nf_filter q)) (\<lambda>(filter_plan, _).
      rbind (compile_order_by pe columns partition_len (where_filter filter_plan) limit (nf_order_by q)) (\<lambda>sort_indices.
      rbind (sorted_filter partition_len (where_filter filter_plan) sort_indices) (\<lambda>filt.
      rbind (rmapM (\<lambda>c. compile_projection pe columns partition_len filt (ci_expr c)) (nf_projection q)) (\<lambda>select.
      rbind (rmapM (\<lambda>(e, desc). rmap (\<lambda>p. (p, desc)) (compile_projection pe columns partition_len filt e)) (nf_order_by q)) (\<lambda>order_by.
      let (plans, projection, aggregations, ranking) = collect_aliased id select [] order_by in
      rbind (rmapM (plan_cells pe columns partition_len) plans) (\<lambda>cols.
        Inr \<lparr>br_columns = cols, br_projection = projection, br_aggregations = aggregations, br_order_by = ranking,
             br_level = 0, br_batch_count = 1, br_show = show_plan\<rparr>)))))))"

section \<open>Sorting by several keys\<close>

definition rank_le :: "bool \<Rightarrow> 'k::linorder \<Rightarrow> 'k \<Rightarrow> bool" where
  "rank_le desc a b = (if desc then b \<le> a else a \<le> b)"

text \<open>A stable sort breaks ties by the order the rows had before.\<close>

lemma insert_by_lex:
  assumes le_total: "\<And>a b. le a b \<or> le b a" and le_trans: "\<And>a b c. le a b \<Longrightarrow> le b c \<Longrightarrow> le a c"
    and sorted: "sorted_wrt (\<lambda>i j. le i j \<and> (le j i \<longrightarrow> R i j)) ys" and R: "\<forall>y \<in> set ys. R x y"
  shows "sorted_wrt (\<lambda>i j. le i j \<and> (le j i \<longrightarrow> R i j)) (insert_by le x ys)"
  using sorted R
proof (induction ys)
  case (Cons y ys)
  show ?case
  proof (cases "le x y")
    case True
    then have "\<forall>z \<in> set (y # ys). le x z" using Cons.prems(1) le_trans by auto
    with True Cons.prems show ?thesis by auto
  next
    case False
    then have "le y x" using le_total by blast
    with False Cons show ?thesis by auto
  qed
qed simp

lemma stable_sort_lex:
  assumes "\<And>a b. le a b \<or> le b a" and "\<And>a b c. le a b \<Longrightarrow> le b c \<Longrightarrow> le a c" and "sorted_wrt R xs"
  shows "sorted_wrt (\<lambda>i j. le i j \<and> (le j i \<longrightarrow> R i j)) (stable_sort le xs)"
  using assms(3) unfolding stable_sort_def
proof (induction xs)
  case (Cons x xs)
  have "set (foldr (insert_by le) xs []) = set xs" by (induction xs) auto
  with Cons show ?case using insert_by_lex [OF assms(1,2)] by simp
qed simp

lemma rank_le_laws:
  "rank_le desc a b \<or> rank_le desc b a"
  "rank_le desc a b \<Longrightarrow> rank_le desc b c \<Longrightarrow> rank_le desc a c"
  by (auto simp: rank_le_def)

lemma sort_le_rank: "sort_le desc ranking i j = rank_le desc (ranking i) (ranking j)"
  by (simp add: sort_le_def rank_le_def)

lemma sort_le_laws:
  "sort_le desc ranking a b \<or> sort_le desc ranking b a"
  "sort_le desc ranking a b \<Longrightarrow> sort_le desc ranking b c \<Longrightarrow> sort_le desc ranking a c"
  unfolding sort_le_rank using rank_le_laws by blast+

text \<open>The order of rows: the first key decides, the next ones break ties.\<close>

fun rows_le :: "((nat \<Rightarrow> cell) \<times> bool) list \<Rightarrow> nat \<Rightarrow> nat \<Rightarrow> bool" where
  "rows_le [] i j \<longleftrightarrow> True"
| "rows_le ((key, desc) # ks) i j \<longleftrightarrow>
     rank_le desc (key i) (key j) \<and> (rank_le desc (key j) (key i) \<longrightarrow> rows_le ks i j)"

text \<open>Rankings that order rows as their keys do.\<close>

definition ranks_rows :: "'k::linorder list \<Rightarrow> (nat \<Rightarrow> cell) \<Rightarrow> nat list \<Rightarrow> bool" where
  "ranks_rows ranking key js \<longleftrightarrow> length ranking = length js \<and>
     (\<forall>i < length js. \<forall>j < length js. ranking ! i \<le> ranking ! j \<longleftrightarrow> key (js ! i) \<le> key (js ! j))"

lemma ranks_rows_le:
  "ranks_rows ranking key js \<Longrightarrow> i < length js \<Longrightarrow> j < length js \<Longrightarrow>
   rank_le desc (ranking ! i) (ranking ! j) \<longleftrightarrow> rank_le desc (key (js ! i)) (key (js ! j))"
  by (simp add: ranks_rows_def rank_le_def)

text \<open>The first sort, which need not be stable, and the stable ones that follow it.\<close>

lemma sort_by_first:
  assumes u: "sorts_unstably usort" and r: "ranks_rows ranking key js"
  obtains "is" where "sort_by_execute usort desc False ranking [0..<length js] = Inr is" "mset is = mset [0..<length js]"
    "sorted_wrt (\<lambda>i j. rows_le [(key, desc)] (js ! i) (js ! j)) is"
proof (cases "length js < 2")
  case True
  then have "length js = 0 \<or> length js = 1" by linarith
  then show thesis by (intro that [of "[0..<length js]"]) (auto simp: sort_by_execute_def)
next
  case False
  let ?is = "usort (sort_le desc (\<lambda>i. ranking ! i)) [0..<length js]"
  have ms: "mset ?is = mset [0..<length js]" "sorted_wrt (sort_le desc (\<lambda>i. ranking ! i)) ?is"
    using u sort_le_laws [of desc "\<lambda>i. ranking ! i"] unfolding sorts_unstably_def by blast+
  have bound: "i < length js" if "i \<in> set ?is" for i using ms(1) that by (metis atLeastLessThan_iff set_mset_mset set_upt)
  have "sorted_wrt (\<lambda>i j. rows_le [(key, desc)] (js ! i) (js ! j)) ?is"
    by (rule sorted_wrt_mono_rel [OF _ ms(2)]) (use bound ranks_rows_le [OF r] in \<open>simp add: sort_le_rank\<close>)
  with False ms(1) r show thesis by (intro that [of ?is]) (simp_all add: sort_by_execute_def ranks_rows_def)
qed

lemma sort_by_next:
  assumes r: "ranks_rows ranking key js" and "is": "mset is = mset [0..<length js]"
    "sorted_wrt (\<lambda>i j. rows_le ks (js ! i) (js ! j)) is"
  obtains is' where "sort_by_execute usort desc True ranking is = Inr is'" "mset is' = mset [0..<length js]"
    "sorted_wrt (\<lambda>i j. rows_le ((key, desc) # ks) (js ! i) (js ! j)) is'"
proof (cases "length is < 2")
  case True
  then have "length is = 0 \<or> length is = 1" by linarith
  then have "sorted_wrt R is" for R by (auto simp: length_Suc_conv)
  with True "is"(1) show thesis by (intro that [of "is"]) (simp_all add: sort_by_execute_def)
next
  case False
  let ?le = "sort_le desc (\<lambda>i. ranking ! i)" and ?R = "\<lambda>i j. rows_le ks (js ! i) (js ! j)"
  let ?is = "stable_sort ?le is"
  note laws = sort_le_laws [of desc "\<lambda>i. ranking ! i"]
  have ms: "mset ?is = mset is" using stable_sorts laws unfolding sorts_unstably_def by blast
  have s: "sorted_wrt (\<lambda>i j. ?le i j \<and> (?le j i \<longrightarrow> ?R i j)) ?is" by (rule stable_sort_lex [OF laws "is"(2)])
  have bound: "i < length js" if "i \<in> set ?is" for i
    using ms "is"(1) that by (metis atLeastLessThan_iff set_mset_mset set_upt)
  have "sorted_wrt (\<lambda>i j. rows_le ((key, desc) # ks) (js ! i) (js ! j)) ?is"
    by (rule sorted_wrt_mono_rel [OF _ s]) (use bound ranks_rows_le [OF r] in \<open>simp add: sort_le_rank\<close>)
  moreover have "\<not> (\<exists>i \<in> set is. length ranking \<le> i)"
    using r "is"(1) by (metis atLeastLessThan_iff not_le ranks_rows_def set_mset_mset set_upt)
  ultimately show thesis using False ms "is"(1) by (intro that [of ?is]) (simp_all add: sort_by_execute_def)
qed

text \<open>Top n: the selected rows are sorted, and no other row belongs before one of them.\<close>

lemma sorted_split_le:
  assumes "sorted_wrt R xs" "x \<in> set (take n xs)" "y \<in> set (drop n xs)"
  shows "R x y"
  using assms sorted_wrt_append [of R "take n xs" "drop n xs"] by simp

lemma top_n_rows:
  fixes ranking :: "'k::linorder list"
  assumes u: "sorts_unstably usort" and n: "0 < n" and r: "ranks_rows ranking key js"
  obtains "is" where "top_n_run usort (top_n_comparator desc) n [ranking] = Inr is"
    "distinct is" "set is \<subseteq> {..<length js}" "length is = min n (length js)"
    "sorted_wrt (\<lambda>i j. rows_le [(key, desc)] (js ! i) (js ! j)) is"
    "\<And>i j. i \<in> set is \<Longrightarrow> j < length js \<Longrightarrow> j \<notin> set is \<Longrightarrow> rank_le desc (key (js ! i)) (key (js ! j))"
proof -
  obtain "is" where t: "top_n_run usort (top_n_comparator desc) n [ranking] = Inr is"
    "map (\<lambda>i. ranking ! i) is = sorted_prefix desc n ranking" "distinct is" "set is \<subseteq> {..<length ranking}"
    using top_n_run_rows [OF u n, of desc "[ranking]"] by auto
  have len: "length ranking = length js" using r by (simp add: ranks_rows_def)
  have bound: "i < length js" if "i \<in> set is" for i using t(4) len that by auto
  let ?full = "if desc then rev (sort ranking) else sort ranking"
  have pre: "map (\<lambda>i. ranking ! i) is = take n ?full" using t(2) by (simp add: sorted_prefix_def)
  have full: "mset ?full = mset ranking" "sorted_wrt (rank_le desc) ?full"
    by (auto simp: rank_le_def [abs_def] sorted_wrt_rev)
  have li: "length is = min n (length js)" using arg_cong [OF pre, of length] len by auto
  have "sorted_wrt (rank_le desc) (map (\<lambda>i. ranking ! i) is)" unfolding pre by (rule sorted_wrt_take [OF full(2)])
  then have "sorted_wrt (\<lambda>i j. rank_le desc (ranking ! i) (ranking ! j)) is" by (simp add: sorted_wrt_map)
  then have sorted: "sorted_wrt (\<lambda>i j. rows_le [(key, desc)] (js ! i) (js ! j)) is"
    by (rule sorted_wrt_mono_rel [rotated]) (use bound ranks_rows_le [OF r] in simp)
  have rest: "rank_le desc (key (js ! i)) (key (js ! j))" if i: "i \<in> set is" and j: "j < length js" "j \<notin> set is" for i j
  proof -
    let ?rest = "filter (\<lambda>k. k \<notin> set is) [0..<length ranking]"
    have "mset is = mset (filter (\<lambda>k. k \<in> set is) [0..<length ranking])"
      using t(3,4) by (intro set_eq_iff_mset_eq_distinct [THEN iffD1]) auto
    then have "mset [0..<length ranking] = mset is + mset ?rest"
      using multiset_partition [of "mset [0..<length ranking]" "\<lambda>k. k \<in> set is"] by (simp only: mset_filter)
    then have "mset (map ((!) ranking) [0..<length ranking]) = mset (map ((!) ranking) is) + mset (map ((!) ranking) ?rest)"
      by (metis image_mset_union mset_map)
    then have "mset ?full = mset (take n ?full) + mset (map ((!) ranking) ?rest)"
      using full(1) pre by (simp add: map_nth)
    then have "mset (drop n ?full) = mset (map ((!) ranking) ?rest)"
      by (metis add_left_cancel append_take_drop_id mset_append)
    moreover have "ranking ! j \<in> set (map ((!) ranking) ?rest)" using j len by auto
    ultimately have "ranking ! j \<in> set (drop n ?full)" by (metis set_mset_mset)
    moreover have "ranking ! i \<in> set (take n ?full)" using i pre by (metis in_set_conv_nth length_map nth_map nth_mem)
    ultimately have "rank_le desc (ranking ! i) (ranking ! j)" by (rule sorted_split_le [OF full(2), rotated])
    then show ?thesis using ranks_rows_le [OF r bound [OF i] j(1)] by simp
  qed
  show thesis by (rule that [OF t(1,3) _ li sorted rest]) (use t(4) len in auto)
qed

section \<open>Rankings\<close>

text \<open>
  Sorting uses the codes of a column that preserves the order of its values. The codes were written
  without wrap-around, and dictionaries are sorted.
\<close>

definition order_ok :: "(string \<rightharpoonup> Column) \<Rightarrow> column_env \<Rightarrow> string \<Rightarrow> bool" where
  "order_ok columns env name =
     (case (columns name, env name) of
        (Some col, Some (k, ops, v, w)) \<Rightarrow>
          (case ops of
             [] \<Rightarrow> True
           | [CodecOp.Add t x] \<Rightarrow> \<forall>i < vec_len v. in_i64 (cell_i64 (vec_cell v i) + x)
           | [ToI64 t] \<Rightarrow> prims v \<noteq> None
           | _ \<Rightarrow> vec_tag v \<in> {EU8, EU16, EU32} \<and> (\<exists>ds. dictionary_is col ds))
      | _ \<Rightarrow> True)"

definition order_fits :: "(string \<rightharpoonup> Column) \<Rightarrow> column_env \<Rightarrow> Expr \<Rightarrow> bool" where
  "order_fits columns env e = (case e of ColName name \<Rightarrow> order_ok columns env name | _ \<Rightarrow> True)"

lemma vec_keys_cells:
  assumes "vec_kind v = Some k" "k = BInteger \<or> k = BString"
  obtains keys where "vec_keys pe v = Some keys" "length keys = vec_len v" "\<not> is_wide v"
    "\<And>i j. i < vec_len v \<Longrightarrow> j < vec_len v \<Longrightarrow> keys ! i \<le> keys ! j \<longleftrightarrow> vec_cell v i \<le> vec_cell v j"
  using assms by (cases v) (auto simp: map_uint_le order.order_iff_strict [where 'a = int])

lemma code_order:
  assumes h: "column_holds pe name c n k ops v w" and ops: "ops \<noteq> []" and k: "k = BInteger \<or> k = BString"
    and ok: "columns name = Some c" "env name = Some (k, ops, v, w)" "order_ok columns env name"
  shows "vec_kind v = Some BInteger \<and> (\<forall>i < n. \<forall>j < n. vec_cell v i \<le> vec_cell v j \<longleftrightarrow> vec_cell w i \<le> vec_cell w j)"
proof -
  have f: "fixed_ops ops" "vec_len v = n" "vec_kind w = Some k"
    and ex: "rfoldM (exec_step (pe_ext pe) c) [Plain v] ops = Inr [Plain w]"
    using h by (auto simp: column_holds_def)
  from f(1) show ?thesis
  proof (cases rule: fixed_ops_cases)
    case (offset t x)
    with ex have add: "vec_addition x v = Inr w" by (auto simp: rmap_Inr_iff)
    have range: "\<And>i. i < n \<Longrightarrow> in_i64 (cell_i64 (vec_cell v i) + x)"
      using ok offset f(2) by (auto simp: order_ok_def)
    have cell: "\<exists>a. vec_cell v i = CInt a \<and> vec_cell w i = CInt (a + x)" if "i < n" for i
      using vec_addition_cell [OF add, of i] range [of i] that f(2) by auto
    have "vec_cell v i \<le> vec_cell v j \<longleftrightarrow> vec_cell w i \<le> vec_cell w j" if "i < n" "j < n" for i j
      using cell [OF that(1)] cell [OF that(2)] by auto
    moreover have "vec_kind v = Some BInteger" using add by (cases v) auto
    ultimately show ?thesis by blast
  next
    case (cast t)
    with ex have "vec_cast_i64 v = Inr w" by (auto simp: rmap_Inr_iff)
    moreover have "prims v \<noteq> None" using ok cast by (simp add: order_ok_def)
    ultimately have "vec_cell w i = vec_cell v i" if "i < n" for i using vec_cast_cell that f(2) by blast
    then show ?thesis using \<open>prims v \<noteq> None\<close> by (simp add: vec_kind_Integer)
  next
    case (dictionary t)
    obtain di dd ds where tag: "vec_tag v \<in> {EU8, EU16, EU32}" and d: "index (col_data c) 1 = Inr (SecU64 di)"
      "index (col_data c) 2 = Inr (SecU8 dd)" "rmapM (entry_slice dd) di = Inr ds" "sorted_wrt (<) ds"
      using ok dictionary by (auto simp: order_ok_def dictionary_is_def)
    with ex dictionary have look: "vec_dict_lookup di dd v = Inr w" by (auto simp: rmap_Inr_iff)
    have cell: "\<exists>a < length ds. vec_cell v i = CInt (int a) \<and> vec_cell w i = CStr (ds ! a)" if "i < n" for i
    proof -
      have "i < vec_len v" using that f(2) by simp
      then show ?thesis by (rule vec_dict_cell [OF look d(3) tag]) blast
    qed
    have "vec_cell v i \<le> vec_cell v j \<longleftrightarrow> vec_cell w i \<le> vec_cell w j" if ij: "i < n" "j < n" for i j
    proof -
      obtain a b where ab: "a < length ds" "vec_cell v i = CInt (int a)" "vec_cell w i = CStr (ds ! a)"
        "b < length ds" "vec_cell v j = CInt (int b)" "vec_cell w j = CStr (ds ! b)"
        using cell [OF ij(1)] cell [OF ij(2)] by auto
      have "ds ! a \<le> ds ! b \<longleftrightarrow> a \<le> b" using sorted_strict_nth [OF d(4) ab(1,4)] by (auto simp: order_le_less)
      then show ?thesis using ab by simp
    qed
    moreover have "vec_kind v = Some BInteger" using tag by (cases v) auto
    ultimately show ?thesis by blast
  qed (use ops in simp)
qed

text \<open>The value of an expression in a row, when it does not fail there.\<close>

definition row_value :: "plan_externs \<Rightarrow> (string \<Rightarrow> nat \<Rightarrow> cell) \<Rightarrow> Expr \<Rightarrow> nat \<Rightarrow> cell" where
  "row_value pe rows e i = (case expr_cell pe rows e i of Inr c \<Rightarrow> c | Inl _ \<Rightarrow> CNull)"

definition no_failure :: "plan_externs \<Rightarrow> (string \<Rightarrow> nat \<Rightarrow> cell) \<Rightarrow> Expr \<Rightarrow> nat list \<Rightarrow> bool" where
  "no_failure pe rows e js \<longleftrightarrow> (\<forall>j \<in> set js. \<exists>c. expr_cell pe rows e j = Inr c)"

lemma computes_values:
  assumes "computes pe columns n rows js e k p" "no_failure pe rows e js"
  obtains v where "eval pe columns n p = Inr (VBuf (Plain v))" "value_ok k v" "vec_len v = length js"
    "\<forall>i < length js. vec_cell v i = row_value pe rows e (js ! i)"
proof -
  have nf: "\<not> (\<exists>j \<in> set js. \<exists>err. expr_cell pe rows e j = Inl err)"
    using assms(2) by (fastforce simp: no_failure_def)
  show thesis
    by (rule computes_value [OF assms(1) nf]) (rule that, auto simp: row_value_def)
qed

lemma ranking_decoded:
  assumes "computes pe columns n rows js e k p" "no_failure pe rows e js" "k = BInteger \<or> k = BString"
  shows "\<exists>u keys. eval pe columns n p = Inr (VBuf (Plain u)) \<and> vec_len u = length js \<and>
    vec_keys pe u = Some keys \<and> \<not> is_wide u \<and> ranks_rows keys (row_value pe rows e) js"
proof -
  obtain v where v: "eval pe columns n p = Inr (VBuf (Plain v))" "value_ok k v" "vec_len v = length js"
    "\<forall>i < length js. vec_cell v i = row_value pe rows e (js ! i)" by (rule computes_values [OF assms(1,2)])
  show ?thesis
    by (rule vec_keys_cells [OF value_ok_kind [OF v(2) assms(3)] assms(3), of pe])
       (use v in \<open>auto simp: ranks_rows_def\<close>)
qed

lemma ranking_codes:
  assumes env: "env_holds pe columns env n rows" and sel: "filter_selects pe columns n filt js"
    and c: "compiled_column pe columns env n js e k r name v w" and k: "k = BInteger \<or> k = BString"
    and fit: "order_fits columns env e"
  shows "\<exists>u keys. eval pe columns n (fst (fst r)) = Inr (VBuf (Plain u)) \<and> vec_len u = length js \<and>
    vec_keys pe u = Some keys \<and> \<not> is_wide u \<and> ranks_rows keys (row_value pe rows e) js"
proof -
  obtain col ops where h: "e = ColName name" "columns name = Some col" "env name = Some (k, ops, v, w)"
    "column_holds pe name col n k ops v w" "eval pe columns n (fst (fst r)) = Inr (VBuf (Plain (vec_pick js v)))"
    using c by (auto simp: compiled_column_def)
  have rw: "\<forall>i < n. rows name i = vec_cell w i" by (rule env_holdsD [OF env h(3)])
  have jn: "js ! i < n" if "i < length js" for i using filter_selects_less [OF sel] that by simp
  have kind: "\<exists>k'. vec_kind v = Some k' \<and> (k' = BInteger \<or> k' = BString) \<and>
      (\<forall>i < n. \<forall>j < n. vec_cell v i \<le> vec_cell v j \<longleftrightarrow> vec_cell w i \<le> vec_cell w j)"
  proof (cases "ops = []")
    case True
    then have "v = w" "vec_kind w = Some k" using h(4) by (auto simp: column_holds_def)
    with k show ?thesis by auto
  next
    case False
    have "order_ok columns env name" using fit h(1) by (simp add: order_fits_def)
    with code_order [where columns = columns and env = env, OF h(4) False k h(2,3)] show ?thesis by auto
  qed
  then obtain k' where kv: "vec_kind (vec_pick js v) = Some k'" "k' = BInteger \<or> k' = BString"
    and le: "\<forall>i < n. \<forall>j < n. vec_cell v i \<le> vec_cell v j \<longleftrightarrow> vec_cell w i \<le> vec_cell w j"
    by (cases v) auto
  show ?thesis
    by (rule vec_keys_cells [OF kv, of pe])
       (use h(1,5) le rw jn in \<open>auto simp: ranks_rows_def row_value_def\<close>)
qed

lemma ranking_ok:
  assumes env: "env_holds pe columns env n rows" and sel: "filter_selects pe columns n filt js"
    and c: "compiled pe columns env n rows js e k r" and k: "k = BInteger \<or> k = BString"
    and fit: "order_fits columns env e" and nf: "no_failure pe rows e js"
  obtains p tag t u keys where "order_preserving r = Inr ((p, tag), t)" "eval pe columns n p = Inr (VBuf (Plain u))"
    "vec_len u = length js" "vec_keys pe u = Some keys" "\<not> is_wide u" "ranks_rows keys (row_value pe rows e) js"
proof -
  obtain q where q: "decode_type (snd r) (fst r) = Inr (q, tag_for k)" "computes pe columns n rows js e k q"
    using c by (auto simp: compiled_def)
  note dec = ranking_decoded [OF q(2) nf k]
  show thesis
  proof (cases "ty_codec (snd r)")
    case None
    then have "order_preserving r = Inr r" "fst (fst r) = q" using q(1)
      by (auto simp: order_preserving_def type_is_order_preserving_def decode_type_def)
    with dec that [of "fst (fst r)" "snd (fst r)" "snd r"] show thesis by auto
  next
    case (Some codec)
    then obtain name v w where col: "compiled_column pe columns env n js e k r name v w"
      using c by (auto simp: compiled_def)
    show thesis
    proof (cases "c_is_order_preserving codec")
      case True
      with Some have "order_preserving r = Inr r" by (simp add: order_preserving_def type_is_order_preserving_def)
      with ranking_codes [OF env sel col k fit] that [of "fst (fst r)" "snd (fst r)" "snd r"] show thesis by auto
    next
      case False
      with Some q(1) have "order_preserving r = Inr ((q, tag_for k), type_decoded (snd r))"
        by (simp add: order_preserving_def type_is_order_preserving_def decode_type_def)
      with dec that show thesis by blast
    qed
  qed
qed

section \<open>Sorting the selected rows\<close>

text \<open>Expressions the result can be computed for, and those it can be sorted by.\<close>

definition evaluable :: "plan_externs \<Rightarrow> (string \<rightharpoonup> Column) \<Rightarrow> column_env \<Rightarrow> (string \<Rightarrow> nat \<Rightarrow> cell) \<Rightarrow> nat list \<Rightarrow> Expr \<Rightarrow> bool" where
  "evaluable pe columns env rows js e \<longleftrightarrow>
     (\<exists>k. expr_type pe (\<lambda>name. map_option fst (env name)) e = Some (k, False)) \<and>
     consts_fit (const_ok columns env) e \<and> no_failure pe rows e js"

definition sortable :: "plan_externs \<Rightarrow> (string \<rightharpoonup> Column) \<Rightarrow> column_env \<Rightarrow> (string \<Rightarrow> nat \<Rightarrow> cell) \<Rightarrow> nat list \<Rightarrow> Expr \<Rightarrow> bool" where
  "sortable pe columns env rows js e \<longleftrightarrow> evaluable pe columns env rows js e \<and> order_fits columns env e \<and>
     (\<forall>k. expr_type pe (\<lambda>name. map_option fst (env name)) e = Some (k, False) \<longrightarrow> k = BInteger \<or> k = BString)"

definition sort_keys :: "plan_externs \<Rightarrow> (string \<Rightarrow> nat \<Rightarrow> cell) \<Rightarrow> (Expr \<times> bool) list \<Rightarrow> ((nat \<Rightarrow> cell) \<times> bool) list" where
  "sort_keys pe rows = map (\<lambda>(e, desc). (row_value pe rows e, desc))"

lemma sortable_ranking:
  assumes env: "env_holds pe columns env n rows" and sel: "filter_selects pe columns n filt js"
    and e: "sortable pe columns env rows js e"
  obtains r p tag t u keys where "compile_expr pe columns n filt e = Inr r" "order_preserving r = Inr ((p, tag), t)"
    "eval pe columns n p = Inr (VBuf (Plain u))" "vec_len u = length js" "vec_keys pe u = Some keys" "\<not> is_wide u"
    "ranks_rows keys (row_value pe rows e) js"
proof -
  obtain k where k: "expr_type pe (\<lambda>name. map_option fst (env name)) e = Some (k, False)" "k = BInteger \<or> k = BString"
    and fit: "consts_fit (const_ok columns env) e" "order_fits columns env e" "no_failure pe rows e js"
    using e by (auto simp: sortable_def evaluable_def)
  obtain r where r: "compile_expr pe columns n filt e = Inr r" "compiled pe columns env n rows js e k r"
    using compile_expr_compiled [OF env sel k(1) fit(1)] by (auto simp: compiled_as_def)
  show thesis by (rule ranking_ok [OF env sel r(2) k(2) fit(2,3)]) (rule that [OF r(1)])
qed

lemma sort_fold:
  assumes env: "env_holds pe columns env n rows" and sel: "filter_selects pe columns n filt js"
    and u: "sorts_unstably (pe_sort pe)" and nt: "\<not> (limit < n div 2 \<and> single)"
    and xs: "\<forall>x \<in> set xs. sortable pe columns env rows js (fst x)" "xs \<noteq> []"
  shows "\<exists>p is. rfoldM (sort_step pe columns n filt limit single) None (rev xs) = Inr (Some p) \<and>
    eval pe columns n p = Inr (VUSize is) \<and> mset is = mset [0..<length js] \<and>
    sorted_wrt (\<lambda>i j. rows_le (sort_keys pe rows xs) (js ! i) (js ! j)) is"
  using xs
proof (induction xs)
  case (Cons x xs)
  have sx: "sortable pe columns env rows js (fst x)" using Cons.prems(1) by simp
  obtain r p tag t v keys where r: "compile_expr pe columns n filt (fst x) = Inr r" "order_preserving r = Inr ((p, tag), t)"
    "eval pe columns n p = Inr (VBuf (Plain v))" "vec_len v = length js" "vec_keys pe v = Some keys"
    and ranks: "ranks_rows keys (row_value pe rows (fst x)) js"
    by (rule sortable_ranking [OF env sel sx])
  have key: "sort_keys pe rows (x # xs) = (row_value pe rows (fst x), snd x) # sort_keys pe rows xs"
    by (simp add: sort_keys_def split_beta)
  show ?case
  proof (cases "xs = []")
    case True
    obtain "is" where i: "sort_by_execute (pe_sort pe) (snd x) False keys [0..<length js] = Inr is" "mset is = mset [0..<length js]"
      "sorted_wrt (\<lambda>i j. rows_le [(row_value pe rows (fst x), snd x)] (js ! i) (js ! j)) is"
      by (rule sort_by_first [OF u ranks])
    let ?p = "PSortBy p (PIndices p) (snd x) False"
    have "rfoldM (sort_step pe columns n filt limit single) None (rev (x # xs)) = Inr (Some ?p)"
      using r nt True by (auto simp: sort_step_def)
    moreover have "eval pe columns n ?p = Inr (VUSize is)" using r i(1) by simp
    moreover have "sorted_wrt (\<lambda>i j. rows_le (sort_keys pe rows (x # xs)) (js ! i) (js ! j)) is"
      using i(3) True unfolding key by (simp add: sort_keys_def)
    ultimately show ?thesis using i(2) by blast
  next
    case False
    then obtain q "is" where q: "rfoldM (sort_step pe columns n filt limit single) None (rev xs) = Inr (Some q)"
      "eval pe columns n q = Inr (VUSize is)" "mset is = mset [0..<length js]"
      "sorted_wrt (\<lambda>i j. rows_le (sort_keys pe rows xs) (js ! i) (js ! j)) is"
      using Cons by auto
    obtain is' where i: "sort_by_execute (pe_sort pe) (snd x) True keys is = Inr is'" "mset is' = mset [0..<length js]"
      "sorted_wrt (\<lambda>i j. rows_le ((row_value pe rows (fst x), snd x) # sort_keys pe rows xs) (js ! i) (js ! j)) is'"
      by (rule sort_by_next [OF ranks q(3,4), of "pe_sort pe" "snd x"])
    let ?p = "PSortBy p q (snd x) True"
    have "rfoldM (sort_step pe columns n filt limit single) None (rev (x # xs)) = Inr (Some ?p)"
      using r nt q(1) by (auto simp: sort_step_def rfoldM_append)
    moreover have "eval pe columns n ?p = Inr (VUSize is')" using r q(2) i(1) by simp
    ultimately show ?thesis using i(2,3) unfolding key by blast
  qed
qed simp

text \<open>
  What sorting gives: a list of distinct selected rows in the order asked for; all of them, or the
  first \<open>limit\<close> when the top-n operator is used.
\<close>

definition sorted_selection :: "((nat \<Rightarrow> cell) \<times> bool) list \<Rightarrow> nat list \<Rightarrow> nat \<Rightarrow> bool \<Rightarrow> nat list \<Rightarrow> bool" where
  "sorted_selection keys selected limit use_top ks \<longleftrightarrow>
     distinct ks \<and> set ks \<subseteq> set selected \<and> sorted_wrt (rows_le keys) ks \<and>
     (if use_top then length ks = min limit (length selected) \<and>
        (\<forall>i \<in> set ks. \<forall>j \<in> set selected - set ks. rows_le keys i j)
      else set ks = set selected)"

lemma compile_order_by_sorts:
  assumes env: "env_holds pe columns env n rows" and sel: "filter_selects pe columns n filt js" "distinct js"
    and u: "sorts_unstably (pe_sort pe)" and limit: "0 < limit"
    and xs: "\<forall>x \<in> set xs. sortable pe columns env rows js (fst x)" "xs \<noteq> []"
  shows "\<exists>p is. compile_order_by pe columns n filt limit xs = Inr (Some p) \<and> eval pe columns n p = Inr (VUSize is) \<and>
    (\<forall>i \<in> set is. i < length js) \<and>
    sorted_selection (sort_keys pe rows xs) js limit (limit < n div 2 \<and> length xs = 1) (map ((!) js) is)"
proof (cases "limit < n div 2 \<and> length xs = 1")
  case True
  then obtain x where x: "xs = [x]" by (auto simp: length_Suc_conv)
  have sx: "sortable pe columns env rows js (fst x)" using xs(1) x by simp
  obtain r p tag t v keys where r: "compile_expr pe columns n filt (fst x) = Inr r" "order_preserving r = Inr ((p, tag), t)"
    "eval pe columns n p = Inr (VBuf (Plain v))" "vec_len v = length js" "vec_keys pe v = Some keys" "\<not> is_wide v"
    and ranks: "ranks_rows keys (row_value pe rows (fst x)) js"
    by (rule sortable_ranking [OF env sel(1) sx])
  obtain "is" where i: "top_n_run (pe_sort pe) (top_n_comparator (snd x)) limit [keys] = Inr is"
    "distinct is" "set is \<subseteq> {..<length js}" "length is = min limit (length js)"
    "sorted_wrt (\<lambda>i j. rows_le [(row_value pe rows (fst x), snd x)] (js ! i) (js ! j)) is"
    "\<And>i j. i \<in> set is \<Longrightarrow> j < length js \<Longrightarrow> j \<notin> set is \<Longrightarrow>
       rank_le (snd x) (row_value pe rows (fst x) (js ! i)) (row_value pe rows (fst x) (js ! j))"
    using top_n_rows [OF u limit ranks, of "snd x" thesis] by blast
  have keys: "sort_keys pe rows xs = [(row_value pe rows (fst x), snd x)]" by (simp add: sort_keys_def x split_beta)
  have inj: "inj_on ((!) js) {..<length js}" using sel(2) by (auto simp: inj_on_def nth_eq_iff_index_eq)
  have "compile_order_by pe columns n filt limit xs = Inr (Some (PTopN p limit (snd x)))"
    using True r x by (simp add: compile_order_by_def sort_step_def)
  moreover have "eval pe columns n (PTopN p limit (snd x)) = Inr (VUSize is)"
    using r i(1) by (cases "snd x") (simp_all add: run_top_n_def top_n_comparator_def)
  moreover have "distinct (map ((!) js) is)" using i(2,3) inj by (auto simp: distinct_map intro: inj_on_subset)
  moreover have "rows_le (sort_keys pe rows xs) a b" if ab: "a \<in> set (map ((!) js) is)" "b \<in> set js - set (map ((!) js) is)" for a b
  proof -
    obtain i0 j0 where "i0 \<in> set is" "a = js ! i0" "j0 < length js" "b = js ! j0" "j0 \<notin> set is"
      using ab by (auto simp: in_set_conv_nth [of b js])
    with i(6) show ?thesis unfolding keys by simp
  qed
  moreover have "\<forall>k \<in> set is. k < length js" "set (map ((!) js) is) \<subseteq> set js" using i(3) by auto
  ultimately show ?thesis using i(4,5) True unfolding sorted_selection_def keys
    by (intro exI [of _ "PTopN p limit (snd x)"] exI [of _ "is"]) (simp add: sorted_wrt_map)
next
  case False
  obtain p "is" where i: "compile_order_by pe columns n filt limit xs = Inr (Some p)" "eval pe columns n p = Inr (VUSize is)"
    "mset is = mset [0..<length js]" "sorted_wrt (\<lambda>i j. rows_le (sort_keys pe rows xs) (js ! i) (js ! j)) is"
    using sort_fold [OF env sel(1) u False xs] unfolding compile_order_by_def by blast
  have "mset (map ((!) js) is) = mset (map ((!) js) [0..<length js])" using i(3) by (metis mset_map)
  then have ms: "mset (map ((!) js) is) = mset js" by (simp only: map_nth)
  have "distinct (map ((!) js) is)" "set (map ((!) js) is) = set js"
    using ms sel(2) by (metis distinct_count_atmost_1 set_mset_mset count_mset mset_eq_setD, metis ms mset_eq_setD)
  moreover have "\<forall>k \<in> set is. k < length js" using i(3) by (metis atLeastLessThan_iff set_mset_mset set_upt)
  ultimately show ?thesis using i(1,2,4) False unfolding sorted_selection_def by (auto simp: sorted_wrt_map)
qed

section \<open>The rows of the result\<close>

lemma where_selects:
  assumes sel: "filter_selects pe columns n filt js" and p: "eval pe columns n p = Inr (VUSize is)"
    and "is": "\<forall>i \<in> set is. i < length js" and nf: "\<forall>q. filt \<noteq> FIndices q"
  shows "\<exists>filt'. sorted_filter n filt (Some p) = Inr filt' \<and> filter_selects pe columns n filt' (map ((!) js) is)"
proof -
  have less: "\<forall>j \<in> set (map ((!) js) is). j < n"
    using filter_selects_less [OF sel] "is" by simp
  have sx: "select_execute False js is [] = Inr (map ((!) js) is)" by (rule select_execute_pick [OF "is"])
  show ?thesis
  proof (cases filt)
    case FNone
    then have "map ((!) js) is = is" using sel "is" by (simp add: filter_selects_def map_idI)
    with FNone p less show ?thesis by (simp add: sorted_filter_def filter_selects_def)
  next
    case (FU8 w)
    with sel obtain f where f: "eval pe columns n w = Inr (VBuf (Plain (VU8 f)))" "length f = n"
      "js = filter (\<lambda>i. f ! i > 0) [0..<n]" by (auto simp: filter_selects_def)
    have "map ((!) [0..<n]) js = js" using filter_selects_less [OF sel] by (simp add: map_idI)
    then have "filter_execute False [0..<n] f [] = js" using filter_execute_pick [of "[0..<n]" n f] f(2,3) by simp
    with FU8 p less sx f(1) show ?thesis by (simp add: sorted_filter_def filter_selects_def)
  next
    case (FNullableU8 w)
    with sel obtain f present where f: "eval pe columns n w = Inr (VBuf (Nulls (VU8 f) present))" "length f = n"
      "js = filter (\<lambda>i. f ! i > 0 \<and> bv_is_set present i) [0..<n]" by (auto simp: filter_selects_def)
    have "map ((!) [0..<n]) js = js" using filter_selects_less [OF sel] by (simp add: map_idI)
    then have "nullable_filter_execute False [0..<n] f present [] = Inr js"
      using nullable_filter_execute_pick [of "[0..<n]" n f present] f(2,3) by simp
    with FNullableU8 p less sx f(1) show ?thesis by (simp add: sorted_filter_def filter_selects_def)
  qed (use nf in blast)
qed

text \<open>Projections.\<close>

lemma compile_projection_ok:
  assumes env: "env_holds pe columns env n rows" and sel: "filter_selects pe columns n filt js"
    and e: "evaluable pe columns env rows js e"
  obtains p where "compile_projection pe columns n filt e = Inr p"
    "plan_cells pe columns n p = Inr (map (row_value pe rows e) js)"
proof -
  obtain k where k: "expr_type pe (\<lambda>name. map_option fst (env name)) e = Some (k, False)"
    and fit: "consts_fit (const_ok columns env) e" "no_failure pe rows e js" using e by (auto simp: evaluable_def)
  obtain p t q where r: "compile_expr pe columns n filt e = Inr (p, t)" "decode_type t p = Inr (q, tag_for k)"
    and c: "computes pe columns n rows js e k q"
    using compile_expr_compiled [OF env sel k fit(1)] by (auto simp: compiled_as_def compiled_def)
  obtain v where v: "eval pe columns n q = Inr (VBuf (Plain v))" "vec_len v = length js"
    "\<forall>i < length js. vec_cell v i = row_value pe rows e (js ! i)" by (rule computes_values [OF c fit(2)])
  have "map (value_cell (VBuf (Plain v))) [0..<length js] = map (row_value pe rows e) js"
    by (rule nth_equalityI) (use v(3) in simp_all)
  then have "plan_cells pe columns n q = Inr (map (row_value pe rows e) js)"
    using v(1,2) by (simp add: plan_cells_def value_cells_def)
  moreover have "compile_projection pe columns n filt e = Inr q" using r by (simp add: compile_projection_def)
  ultimately show thesis using that by blast
qed

lemma rmapM_projections:
  assumes "\<And>x. x \<in> set xs \<Longrightarrow> \<exists>p. f x = Inr p \<and> P x p"
  shows "\<exists>ps. rmapM f xs = Inr ps \<and> list_all2 P xs ps"
  using assms
proof (induction xs)
  case (Cons x xs)
  obtain p where p: "f x = Inr p" "P x p" using Cons.prems [of x] by auto
  obtain ps where ps: "rmapM f xs = Inr ps" "list_all2 P xs ps" using Cons by auto
  from p ps show ?case by (intro exI [of _ "p # ps"]) simp
qed simp

text \<open>Collecting every buffer once.\<close>

lemma collect_buffers_ok:
  assumes c: "collect_aliased id select [] order_by = (plans, projection, aggregations, ranking)"
    and cells: "\<forall>p \<in> set select \<union> set (map fst order_by). plan_cells pe columns n p = Inr (f p)"
  shows "\<exists>cols. rmapM (plan_cells pe columns n) plans = Inr cols \<and> length cols = length plans \<and> aggregations = [] \<and>
    (\<forall>c \<in> set cols. \<exists>p \<in> set select \<union> set (map fst order_by). c = f p) \<and> (select \<noteq> [] \<longrightarrow> cols \<noteq> []) \<and>
    length projection = length select \<and> map snd ranking = map snd order_by \<and>
    (\<forall>i < length select. projection ! i < length cols \<and> cols ! (projection ! i) = f (select ! i)) \<and>
    (\<forall>i < length order_by. fst (ranking ! i) < length cols \<and> cols ! fst (ranking ! i) = f (fst (order_by ! i)))"
proof -
  have a: "list_all2 (\<lambda>b i. i < length plans \<and> plans ! i = b) select projection" "aggregations = []"
    "list_all2 (\<lambda>b i. fst i < length plans \<and> plans ! fst i = fst b \<and> snd i = snd b) order_by ranking"
    "set plans \<subseteq> set select \<union> set (map fst order_by)"
    using collect_aliased_ok [OF c] by auto
  have cols: "rmapM (plan_cells pe columns n) plans = Inr (map f plans)"
    by (rule rmapM_Inr_map) (use cells a(4) in blast)
  have len: "length projection = length select" "length ranking = length order_by"
    using list_all2_lengthD [OF a(1)] list_all2_lengthD [OF a(3)] by simp_all
  have p: "projection ! i < length plans \<and> plans ! (projection ! i) = select ! i" if "i < length select" for i
    using list_all2_nthD [OF a(1) that] .
  have r: "fst (ranking ! i) < length plans \<and> plans ! fst (ranking ! i) = fst (order_by ! i) \<and> snd (ranking ! i) = snd (order_by ! i)"
    if "i < length order_by" for i using list_all2_nthD [OF a(3) that] .
  have "map snd ranking = map snd order_by" by (rule nth_equalityI) (use r len in simp_all)
  moreover have "select \<noteq> [] \<longrightarrow> plans \<noteq> []" using p [of 0] by auto
  ultimately show ?thesis using cols a(2,4) len p r by (intro exI [of _ "map f plans"]) auto
qed

text \<open>The relation of \<open>rows_le\<close> to the order of Batch_Merging.\<close>

lemma rank_le_cmp: "rank_le desc a b \<and> (rank_le desc b a \<longrightarrow> R) \<longleftrightarrow> cmp (comparator_of desc) a b \<or> (a = b \<and> R)"
  by (auto simp: rank_le_def comparator_of_def CmpLessThan_def CmpGreaterThan_def)

lemma rows_le_order_le:
  "rows_le keys i j \<longleftrightarrow> order_le (map snd keys) (map (\<lambda>k. fst k i) keys) (map (\<lambda>k. fst k j) keys)"
proof (induction keys)
  case (Cons k keys)
  then show ?case by (cases k) (simp add: rank_le_cmp)
qed simp

lemma rows_le_sort_keys:
  "rows_le (sort_keys pe rows xs) =
     (\<lambda>i j. order_le (map snd xs) (map (\<lambda>x. row_value pe rows (fst x) i) xs) (map (\<lambda>x. row_value pe rows (fst x) j) xs))"
  by (simp add: fun_eq_iff rows_le_order_le sort_keys_def comp_def split_beta)

text \<open>The rows a filter selects: a constant selects all of them.\<close>

definition selects_rows ::
    "plan_externs \<Rightarrow> (string \<rightharpoonup> Column) \<Rightarrow> column_env \<Rightarrow> (string \<Rightarrow> nat \<Rightarrow> cell) \<Rightarrow> nat \<Rightarrow> Expr \<Rightarrow> nat list \<Rightarrow> bool" where
  "selects_rows pe columns env rows n e js \<longleftrightarrow>
     (case e of
        Const v \<Rightarrow> (\<exists>x. v = RawInt x) \<and> js = [0..<n]
      | _ \<Rightarrow> expr_type pe (\<lambda>name. map_option fst (env name)) e = Some (BBoolean, False) \<and>
             consts_fit (const_ok columns env) e \<and> no_failure pe rows e [0..<n] \<and>
             js = filter (\<lambda>i. row_value pe rows e i \<noteq> CInt 0) [0..<n])"

lemma where_boolean:
  assumes env: "env_holds pe columns env n rows"
    and ty: "expr_type pe (\<lambda>name. map_option fst (env name)) e = Some (BBoolean, False)"
    and fit: "consts_fit (const_ok columns env) e" "no_failure pe rows e [0..<n]"
  shows "\<exists>p t. compile_expr pe columns n FNone e = Inr (p, t) \<and>
    filter_selects pe columns n (where_filter p) (filter (\<lambda>i. row_value pe rows e i \<noteq> CInt 0) [0..<n]) \<and>
    (\<forall>q. where_filter p \<noteq> FIndices q)"
proof -
  have all: "filter_selects pe columns n FNone [0..<n]" by (simp add: filter_selects_def)
  obtain p t where r: "compile_expr pe columns n FNone e = Inr (p, t)" "compiled pe columns env n rows [0..<n] e BBoolean (p, t)"
    using compile_expr_compiled [OF env all ty fit(1)] by (auto simp: compiled_as_def)
  have c: "computes pe columns n rows [0..<n] e BBoolean (fst p)" "snd p = EU8" using compiled_bool [OF r(2)] by simp_all
  obtain v where v: "eval pe columns n (fst p) = Inr (VBuf (Plain v))" "value_ok BBoolean v" "vec_len v = n"
    "\<forall>i < n. vec_cell v i = row_value pe rows e i" using computes_values [OF c(1) fit(2)] by auto
  obtain f where f: "v = VU8 f" "length f = n" "\<And>i. i < n \<Longrightarrow> f ! i = 0 \<or> f ! i = 1"
    by (rule bool_vec [OF v(2,3)]) blast
  have "f ! i > 0 \<longleftrightarrow> row_value pe rows e i \<noteq> CInt 0" if "i < n" for i
  proof -
    have "row_value pe rows e i = CInt (uint (f ! i))" using v(4) f(1,2) that by auto
    then show ?thesis using f(3) [OF that] by auto
  qed
  then have "filter (\<lambda>i. row_value pe rows e i \<noteq> CInt 0) [0..<n] = filter (\<lambda>i. f ! i > 0) [0..<n]"
    by (intro filter_cong) auto
  then have "filter_selects pe columns n (where_filter p) (filter (\<lambda>i. row_value pe rows e i \<noteq> CInt 0) [0..<n])"
    using v(1) f(1,2) c(2) by (simp add: where_filter_def filter_selects_def)
  moreover have "\<forall>q. where_filter p \<noteq> FIndices q" by (simp add: where_filter_def)
  ultimately show ?thesis using r(1) by blast
qed

lemma where_ok:
  assumes env: "env_holds pe columns env n rows" and sel: "selects_rows pe columns env rows n e js"
  obtains p t where "compile_expr pe columns n FNone e = Inr (p, t)" "filter_selects pe columns n (where_filter p) js"
    "\<forall>q. where_filter p \<noteq> FIndices q" "distinct js"
proof (cases "\<exists>v. e = Const v")
  case True
  then obtain x where "e = Const (RawInt x)" "js = [0..<n]" using sel by (auto simp: selects_rows_def)
  then show thesis
    by (intro that [of "(PScalarI64 x, EScalarI64)" "type_scalar BInteger"])
       (simp_all add: const_i64_def where_filter_def filter_selects_def)
next
  case False
  then have "expr_type pe (\<lambda>name. map_option fst (env name)) e = Some (BBoolean, False)"
    "consts_fit (const_ok columns env) e" "no_failure pe rows e [0..<n]"
    "js = filter (\<lambda>i. row_value pe rows e i \<noteq> CInt 0) [0..<n]"
    using sel by (cases e; simp add: selects_rows_def)+
  with where_boolean [OF env this(1-3)] that show thesis by auto
qed

section \<open>Main result\<close>

lemma sorted_filter_ok:
  assumes env: "env_holds pe columns env n rows" and sel: "filter_selects pe columns n filt js" "distinct js"
    and u: "sorts_unstably (pe_sort pe)" and limit: "0 < limit" and nf: "\<forall>q. filt \<noteq> FIndices q"
    and xs: "\<forall>x \<in> set xs. sortable pe columns env rows js (fst x)"
  obtains s filt' ks where "compile_order_by pe columns n filt limit xs = Inr s" "sorted_filter n filt s = Inr filt'"
    "filter_selects pe columns n filt' ks" "set ks \<subseteq> set js"
    "if xs = [] then ks = js
     else sorted_selection (sort_keys pe rows xs) js limit (limit < n div 2 \<and> length xs = 1) ks"
proof (cases "xs = []")
  case True
  then show thesis using sel by (intro that [of None filt js]) (simp_all add: compile_order_by_def sorted_filter_def)
next
  case False
  from compile_order_by_sorts [OF env sel u limit xs False]
  obtain p "is" where i: "compile_order_by pe columns n filt limit xs = Inr (Some p)" "eval pe columns n p = Inr (VUSize is)"
    "\<forall>i \<in> set is. i < length js"
    "sorted_selection (sort_keys pe rows xs) js limit (limit < n div 2 \<and> length xs = 1) (map ((!) js) is)" by blast
  obtain filt' where "sorted_filter n filt (Some p) = Inr filt'" "filter_selects pe columns n filt' (map ((!) js) is)"
    using where_selects [OF sel(1) i(2,3) nf] by blast
  then show thesis using i False by (intro that [of "Some p" filt' "map ((!) js) is"]) auto
qed

lemma no_failure_subset: "no_failure pe rows e js \<Longrightarrow> set ks \<subseteq> set js \<Longrightarrow> no_failure pe rows e ks"
  by (auto simp: no_failure_def)

lemma projections_ok:
  assumes env: "env_holds pe columns env n rows" and sel: "filter_selects pe columns n filt ks"
    and es: "\<forall>e \<in> set es. evaluable pe columns env rows js e" "set ks \<subseteq> set js"
  obtains ps where "rmapM (compile_projection pe columns n filt) es = Inr ps"
    "list_all2 (\<lambda>e p. plan_cells pe columns n p = Inr (map (row_value pe rows e) ks)) es ps"
proof -
  have "\<exists>p. compile_projection pe columns n filt e = Inr p \<and>
      plan_cells pe columns n p = Inr (map (row_value pe rows e) ks)" if "e \<in> set es" for e
  proof -
    have "evaluable pe columns env rows ks e" using es that no_failure_subset by (auto simp: evaluable_def)
    then show ?thesis by (rule compile_projection_ok [OF env sel]) blast
  qed
  from rmapM_projections [of es "compile_projection pe columns n filt", OF this] show thesis using that by blast
qed

lemma rmapM_comp: "rmapM (\<lambda>x. f (g x)) xs = rmapM f (map g xs)"
  by (induction xs) simp_all

lemma rmapM_paired: "rmapM (\<lambda>(e, d). rmap (\<lambda>p. (p, d)) (f e)) xs = rmap (\<lambda>ps. zip ps (map snd xs)) (rmapM f (map fst xs))"
proof (induction xs)
  case (Cons x xs)
  then show ?case by (cases x; cases "f (fst x)"; cases "rmapM f (map fst xs)") simp_all
qed simp

lemma collected_columns:
  assumes c: "collect_aliased id select [] order_by = (plans, projection, aggregations, ranking)"
    and sel: "list_all2 (\<lambda>e p. plan_cells pe columns n p = Inr (h e)) es select"
    and ord: "list_all2 (\<lambda>e p. plan_cells pe columns n p = Inr (h e)) fs (map fst order_by)"
  shows "\<exists>cols. rmapM (plan_cells pe columns n) plans = Inr cols"
proof -
  have "\<exists>xs. plan_cells pe columns n p = Inr xs" if p: "p \<in> set select \<union> set (map fst order_by)" for p
  proof -
    from p show ?thesis
    proof
      assume "p \<in> set select"
      then obtain i where "i < length select" "p = select ! i" by (auto simp: in_set_conv_nth)
      then show ?thesis using list_all2_nthD2 [OF sel] by auto
    next
      assume "p \<in> set (map fst order_by)"
      then obtain i where "i < length (map fst order_by)" "p = map fst order_by ! i" by (metis in_set_conv_nth)
      then show ?thesis using list_all2_nthD2 [OF ord] by auto
    qed
  qed
  then have "\<forall>p \<in> set select \<union> set (map fst order_by). plan_cells pe columns n p = Inr (projr (plan_cells pe columns n p))"
    by fastforce
  from collect_buffers_ok [OF c this] show ?thesis by blast
qed

text \<open>The batch that is collected from the plans of the projections and of the sort keys.\<close>

lemma collected_batch:
  assumes c: "collect_aliased id select [] order_by = (plans, projection, aggregations, ranking)"
    and cols: "rmapM (plan_cells pe columns n) plans = Inr cols"
    and sel: "list_all2 (\<lambda>e p. plan_cells pe columns n p = Inr (map (g e) ks)) es select" "es \<noteq> []"
    and ord: "list_all2 (\<lambda>e p. plan_cells pe columns n p = Inr (map (g e) ks)) fs (map fst order_by)"
    and b: "b = \<lparr>br_columns = cols, br_projection = projection, br_aggregations = aggregations, br_order_by = ranking,
      br_level = 0, br_batch_count = 1, br_show = sh\<rparr>"
  shows "batch_ok b" "br_aggregations b = []" "map snd (br_order_by b) = map snd order_by" "length (br_projection b) = length es"
    "sorted_rows b = map (\<lambda>j. (map (\<lambda>e. g e j) es, map (\<lambda>e. g e j) fs)) ks"
proof -
  let ?f = "\<lambda>p. case plan_cells pe columns n p of Inr xs \<Rightarrow> xs | Inl _ \<Rightarrow> []"
  have len: "length es = length select" "length fs = length order_by"
    using list_all2_lengthD [OF sel(1)] list_all2_lengthD [OF ord] by simp_all
  have es: "plan_cells pe columns n (select ! i) = Inr (map (g (es ! i)) ks)" if "i < length es" for i
    using list_all2_nthD [OF sel(1) that] .
  have fs: "plan_cells pe columns n (fst (order_by ! i)) = Inr (map (g (fs ! i)) ks)" if "i < length fs" for i
    using list_all2_nthD [OF ord that] that len(2) by simp
  have cells: "\<forall>p \<in> set select \<union> set (map fst order_by). plan_cells pe columns n p = Inr (?f p)"
  proof
    fix p assume "p \<in> set select \<union> set (map fst order_by)"
    then consider i where "i < length es" "p = select ! i" | i where "i < length fs" "p = fst (order_by ! i)"
      by (auto simp: in_set_conv_nth len)
    then show "plan_cells pe columns n p = Inr (?f p)" using es fs by cases auto
  qed
  have fl: "length (?f p) = length ks" if p: "p \<in> set select \<union> set (map fst order_by)" for p
  proof -
    consider i where "i < length es" "p = select ! i" | i where "i < length fs" "p = fst (order_by ! i)"
      using p by (auto simp: in_set_conv_nth len)
    then show ?thesis using es fs by cases auto
  qed
  from collect_buffers_ok [OF c cells] cols
  have ag: "aggregations = []" and f: "\<forall>c \<in> set cols. \<exists>p \<in> set select \<union> set (map fst order_by). c = ?f p" "select \<noteq> [] \<longrightarrow> cols \<noteq> []"
    "length projection = length select" "map snd ranking = map snd order_by"
    "\<forall>i < length select. projection ! i < length cols \<and> cols ! (projection ! i) = ?f (select ! i)"
    "\<forall>i < length order_by. fst (ranking ! i) < length cols \<and> cols ! fst (ranking ! i) = ?f (fst (order_by ! i))"
    by auto
  have lc: "length c = length ks" if cm: "c \<in> set cols" for c
  proof -
    obtain p where p: "p \<in> set select \<union> set (map fst order_by)" "c = ?f p" using bspec [OF f(1) cm] by (elim bexE)
    show ?thesis unfolding p(2) by (rule fl [OF p(1)])
  qed
  have "cols \<noteq> []" using f(2) sel(2) len(1) by auto
  then have bl: "batch_len b = length ks" using lc b by (cases cols) (simp_all add: batch_len_def)
  have lr: "length ranking = length order_by" using f(4) by (metis length_map)
  show "br_aggregations b = []" "map snd (br_order_by b) = map snd order_by" "length (br_projection b) = length es"
    using b ag f(3,4) len by simp_all
  have "i < length cols" if i: "i \<in> set projection" for i
  proof -
    obtain k where "k < length projection" "i = projection ! k" using i by (auto simp: in_set_conv_nth)
    then show ?thesis using f(3,5) by simp
  qed
  moreover have "i < length cols" if i: "i \<in> set (map fst ranking)" for i
  proof -
    obtain k where "k < length (map fst ranking)" "i = map fst ranking ! k" using i by (metis in_set_conv_nth)
    then show ?thesis using f(6) lr by simp
  qed
  ultimately show "batch_ok b" using bl lc unfolding batch_ok_def by (simp only: b ag BatchResult.select_convs list.map list.set) blast
  have "projected cols projection k = map (\<lambda>e. g e (ks ! k)) es" if "k < length ks" for k
    by (rule nth_equalityI) (use that f(3,5) len es in \<open>auto simp: projected_def\<close>)
  moreover have "projected cols (map fst ranking) k = map (\<lambda>e. g e (ks ! k)) fs" if "k < length ks" for k
    by (rule nth_equalityI) (use that f(6) lr len fs in \<open>auto simp: projected_def\<close>)
  ultimately show "sorted_rows b = map (\<lambda>j. (map (\<lambda>e. g e j) es, map (\<lambda>e. g e j) fs)) ks"
    unfolding sorted_rows_def bl by (intro nth_equalityI) (simp_all add: b)
qed

lemma run_query_rows:
  assumes "env_holds pe columns env n rows" and "sorts_unstably (pe_sort pe)"
    and "selects_rows pe columns env rows n (nf_filter q) js"
    and "\<forall>c \<in> set (nf_projection q). evaluable pe columns env rows js (ci_expr c)" and "nf_projection q \<noteq> []"
    and "\<forall>x \<in> set (nf_order_by q). sortable pe columns env rows js (fst x)"
    and "0 < limit" and "limit = (lc_limit (nf_limit q) + lc_offset (nf_limit q)) mod 2 ^ 64"
  shows "\<exists>b ks. run_query pe columns show_plan n q = Inr b \<and> batch_ok b \<and> br_aggregations b = [] \<and> in_order b \<and>
    map snd (br_order_by b) = map snd (nf_order_by q) \<and> length (br_projection b) = length (nf_projection q) \<and>
    sorted_rows b = map (\<lambda>j. (map (\<lambda>c. row_value pe rows (ci_expr c) j) (nf_projection q),
                              map (\<lambda>x. row_value pe rows (fst x) j) (nf_order_by q))) ks \<and>
    (if nf_order_by q = [] then ks = js
     else sorted_selection (sort_keys pe rows (nf_order_by q)) js limit
            (limit < n div 2 \<and> length (nf_order_by q) = 1) ks)"
proof -
  note env = assms(1)
  obtain p t where w: "compile_expr pe columns n FNone (nf_filter q) = Inr (p, t)"
    "filter_selects pe columns n (where_filter p) js" "\<forall>q. where_filter p \<noteq> FIndices q" "distinct js"
    by (rule where_ok [OF env assms(3)])
  obtain s filt ks where s: "compile_order_by pe columns n (where_filter p) limit (nf_order_by q) = Inr s"
    "sorted_filter n (where_filter p) s = Inr filt" "filter_selects pe columns n filt ks" "set ks \<subseteq> set js"
    and sorted: "if nf_order_by q = [] then ks = js
      else sorted_selection (sort_keys pe rows (nf_order_by q)) js limit (limit < n div 2 \<and> length (nf_order_by q) = 1) ks"
    by (rule sorted_filter_ok [OF env w(2,4) assms(2,7) w(3) assms(6)])
  have ev: "\<forall>e \<in> set (map ci_expr (nf_projection q)). evaluable pe columns env rows js e"
    "\<forall>e \<in> set (map fst (nf_order_by q)). evaluable pe columns env rows js e"
    using assms(4,6) by (auto simp: sortable_def)
  obtain ps where ps: "rmapM (compile_projection pe columns n filt) (map ci_expr (nf_projection q)) = Inr ps"
    "list_all2 (\<lambda>e p. plan_cells pe columns n p = Inr (map (row_value pe rows e) ks)) (map ci_expr (nf_projection q)) ps"
    by (rule projections_ok [OF env s(3) ev(1) s(4)])
  obtain os where os: "rmapM (compile_projection pe columns n filt) (map fst (nf_order_by q)) = Inr os"
    "list_all2 (\<lambda>e p. plan_cells pe columns n p = Inr (map (row_value pe rows e) ks)) (map fst (nf_order_by q)) os"
    by (rule projections_ok [OF env s(3) ev(2) s(4)])
  let ?order = "zip os (map snd (nf_order_by q))"
  have lo: "map fst ?order = os" "map snd ?order = map snd (nf_order_by q)" using list_all2_lengthD [OF os(2)] by simp_all
  obtain plans projection aggregations ranking where c: "collect_aliased id ps [] ?order = (plans, projection, aggregations, ranking)"
    by (cases "collect_aliased id ps [] ?order")
  obtain cols where cols: "rmapM (plan_cells pe columns n) plans = Inr cols"
    using collected_columns [OF c ps(2)] os(2) lo(1) by auto
  define b where "b = \<lparr>br_columns = cols, br_projection = projection, br_aggregations = aggregations,
    br_order_by = ranking, br_level = 0, br_batch_count = 1, br_show = show_plan\<rparr>"
  have run: "run_query pe columns show_plan n q = Inr b"
    using w(1) s(1,2) ps(1) os(1) c cols assms(8)
    by (simp add: run_query_def rmapM_comp [of "compile_projection pe columns n filt" ci_expr] rmapM_paired b_def)
  have ord: "list_all2 (\<lambda>e p. plan_cells pe columns n p = Inr (map (row_value pe rows e) ks)) (map fst (nf_order_by q)) (map fst ?order)"
    using os(2) lo(1) by simp
  have ne: "map ci_expr (nf_projection q) \<noteq> []" using assms(5) by simp
  note batch = collected_batch [OF c cols ps(2) ne ord b_def]
  have rows: "sorted_rows b = map (\<lambda>j. (map (\<lambda>c. row_value pe rows (ci_expr c) j) (nf_projection q),
      map (\<lambda>x. row_value pe rows (fst x) j) (nf_order_by q))) ks"
    unfolding batch(5) by (simp add: comp_def)
  have "in_order b"
  proof (cases "nf_order_by q = []")
    case True
    then show ?thesis unfolding in_order_def rows batch(3) lo(2) by (simp add: sorted_wrt_map sorted_wrt_true)
  next
    case False
    then have "sorted_wrt (rows_le (sort_keys pe rows (nf_order_by q))) ks" using sorted by (simp add: sorted_selection_def)
    then show ?thesis unfolding in_order_def rows batch(3) lo(2) rows_le_sort_keys by (simp add: sorted_wrt_map)
  qed
  with run batch(1-4) lo(2) rows sorted show ?thesis by (intro exI [of _ b] exI [of _ ks]) simp
qed

text \<open>
  C2. Running a query on a partition is correct. For a query without aggregates over columns whose
  codecs decode, \<open>run\<close> succeeds and gives a well-formed batch whose rows are the values of the selected
  expressions in the rows the filter selects: in the order of the partition without \<open>ORDER BY\<close>; with
  it, sorted by the given expressions, either all selected rows or, from the top-n operator, the first
  \<open>limit + offset\<close> of them. It does not matter that the filter and the sort work on encoded columns,
  that the first sort is unstable, and that equal expressions share a result column. The batch is one
  the merge operators accept as sorted.
\<close>

theorem run_query_correct:
  assumes "env_holds pe columns env n rows" and "sorts_unstably (pe_sort pe)"
    and "selects_rows pe columns env rows n (nf_filter q) js"
    and "\<forall>c \<in> set (nf_projection q). evaluable pe columns env rows js (ci_expr c)" and "nf_projection q \<noteq> []"
    and "\<forall>x \<in> set (nf_order_by q). sortable pe columns env rows js (fst x)"
    and "0 < limit" and "limit = (lc_limit (nf_limit q) + lc_offset (nf_limit q)) mod 2 ^ 64"
  shows "\<exists>b ks. run_query pe columns show_plan n q = Inr b \<and> batch_ok b \<and> br_aggregations b = [] \<and> in_order b \<and>
    map snd (br_order_by b) = map snd (nf_order_by q) \<and> length (br_projection b) = length (nf_projection q) \<and>
    sorted_rows b = map (\<lambda>j. (map (\<lambda>c. row_value pe rows (ci_expr c) j) (nf_projection q),
                              map (\<lambda>x. row_value pe rows (fst x) j) (nf_order_by q))) ks \<and>
    (if nf_order_by q = [] then ks = js
     else sorted_selection (sort_keys pe rows (nf_order_by q)) js limit
            (limit < n div 2 \<and> length (nf_order_by q) = 1) ks)"
  by (rule run_query_rows [OF assms])

text \<open>\<open>SELECT x, x WHERE x > 102 ORDER BY x DESC LIMIT 2\<close> on the column 101, 105, 103.\<close>

definition offset_query :: NormalFormQuery where
  "offset_query =
     \<lparr>nf_projection = [\<lparr>ci_expr = ColName ''x'', ci_name = None\<rparr>, \<lparr>ci_expr = ColName ''x'', ci_name = None\<rparr>],
      nf_filter = Func2 GT (ColName ''x'') (Const (RawInt 102)), nf_aggregate = [],
      nf_order_by = [(ColName ''x'', True)], nf_limit = \<lparr>lc_limit = 2, lc_offset = 0\<rparr>\<rparr>"

abbreviation offset_rows :: "string \<Rightarrow> nat \<Rightarrow> cell" where
  "offset_rows \<equiv> \<lambda>_ i. CInt ([101, 105, 103] ! i)"

lemma offset_codes: "i < 3 \<Longrightarrow> in_i64 (uint ([1, 5, 3 :: u8] ! i) + 100)"
proof -
  assume "i < 3"
  then have "i = 0 \<or> i = 1 \<or> i = 2" by auto
  then show ?thesis by (auto simp: example_i64)
qed

lemma offset_query_selects:
  "selects_rows plain_externs [''x'' \<mapsto> offset_column] offset_env offset_rows 3 (nf_filter offset_query) [1, 2]"
  by (auto simp: selects_rows_def offset_query_def offset_env_def func2_type_def const_pair_def const_ok_def example_i64
      offset_codes no_failure_def row_value_def upt_rec)

lemma offset_column_fits:
  "evaluable plain_externs [''x'' \<mapsto> offset_column] offset_env offset_rows js (ColName ''x'')"
  "sortable plain_externs [''x'' \<mapsto> offset_column] offset_env offset_rows js (ColName ''x'')"
  by (auto simp: evaluable_def sortable_def offset_env_def no_failure_def order_fits_def order_ok_def offset_codes)

lemma offset_selection:
  assumes "sorted_selection (sort_keys plain_externs offset_rows (nf_order_by offset_query)) [1, 2] 2 False ks"
  shows "ks = [1, 2]"
proof -
  have ks: "distinct ks" "set ks = {1, 2}" "sorted_wrt (rows_le (sort_keys plain_externs offset_rows (nf_order_by offset_query))) ks"
    using assms by (auto simp: sorted_selection_def)
  have "length ks = 2" using distinct_card [OF ks(1)] ks(2) by simp
  then obtain x y where "ks = [x, y]" by (auto simp: numeral_2_eq_2 length_Suc_conv)
  with ks show ?thesis
    by (auto simp: doubleton_eq_iff sort_keys_def offset_query_def row_value_def rank_le_def)
qed

theorem run_query_correct_witness:
  "\<exists>b. run_query plain_externs [''x'' \<mapsto> offset_column] False 3 offset_query = Inr b \<and> in_order b \<and>
    sorted_rows b = [([CInt 105, CInt 105], [CInt 105]), ([CInt 103, CInt 103], [CInt 103])]"
proof -
  let ?q = offset_query
  have pe: "sorts_unstably (pe_sort plain_externs)" by (simp add: plain_externs_def stable_sorts)
  have proj: "\<forall>c \<in> set (nf_projection ?q). evaluable plain_externs [''x'' \<mapsto> offset_column] offset_env offset_rows [1, 2] (ci_expr c)"
    "nf_projection ?q \<noteq> []"
    "\<forall>x \<in> set (nf_order_by ?q). sortable plain_externs [''x'' \<mapsto> offset_column] offset_env offset_rows [1, 2] (fst x)"
    using offset_column_fits by (simp_all add: offset_query_def)
  have lim: "2 = (lc_limit (nf_limit ?q) + lc_offset (nf_limit ?q)) mod 2 ^ 64" by (simp add: offset_query_def)
  obtain b ks where b: "run_query plain_externs [''x'' \<mapsto> offset_column] False 3 ?q = Inr b" "in_order b"
    "sorted_rows b = map (\<lambda>j. (map (\<lambda>c. row_value plain_externs offset_rows (ci_expr c) j) (nf_projection ?q),
       map (\<lambda>x. row_value plain_externs offset_rows (fst x) j) (nf_order_by ?q))) ks"
    "sorted_selection (sort_keys plain_externs offset_rows (nf_order_by ?q)) [1, 2] 2 (2 < 3 div (2::nat) \<and> length (nf_order_by ?q) = 1) ks"
    using run_query_correct [OF offset_env_holds pe offset_query_selects proj _ lim, of False] by (auto simp: offset_query_def)
  have "ks = [1, 2]" using offset_selection b(4) by simp
  with b show ?thesis by (simp add: offset_query_def row_value_def)
qed

end
