(* ===== verification/Query_Answers.thy ===== *)
theory Query_Answers
  imports Query_Results Query_Run
begin

text \<open>
  Whole queries without aggregates: the threads of a query task (Query_Tasks, Query_Results) running
  \<open>NormalFormQuery::run\<close> (Query_Run) on the columns of every partition.
\<close>

text \<open>
  The main phase of a task (src/src/engine/execution/query_task.rs, \<open>QueryTask::run\<close>): the columns and
  the number of rows of the partitions by their index; no plan is explained or shown.
\<close>

definition query_ops ::
    "plan_externs \<Rightarrow> (nat \<Rightarrow> string \<rightharpoonup> Column) \<Rightarrow> (nat \<Rightarrow> nat) \<Rightarrow> cell task_ops \<Rightarrow> cell task_ops" where
  "query_ops pe cols lens ops =
     ops\<lparr>run_phase := \<lambda>q i. rmap (\<lambda>b. (b, None)) (run_query pe (cols i) False (lens i) q)\<rparr>"

text \<open>A row of the result with its sort key.\<close>

definition result_row ::
    "plan_externs \<Rightarrow> (string \<Rightarrow> nat \<Rightarrow> cell) \<Rightarrow> NormalFormQuery \<Rightarrow> Expr \<Rightarrow> nat \<Rightarrow> cell list \<times> cell list" where
  "result_row pe rows q e j = (map (\<lambda>c. row_value pe rows (ci_expr c) j) (nf_projection q), [row_value pe rows e j])"

lemma run_query_unit: "run_query pe columns sh n q = Inr b \<Longrightarrow> br_batch_count b = 1"
  by (auto simp: run_query_def Let_def split_beta)

lemma key_le_result: "key_le desc (result_row pe rows q e i) (result_row pe rows q e j) \<longleftrightarrow>
    rank_le desc (row_value pe rows e i) (row_value pe rows e j)"
  by (simp add: key_le_def result_row_def rank_le_def comparator_of_def CmpLessThan_def CmpGreaterThan_def)

text \<open>A sorted selection of rows is a cut of a sorted arrangement of all of them.\<close>

lemma sorted_selection_cut:
  assumes s: "sorted_selection [(key, desc)] js L use_top ks" and js: "distinct js"
  obtains f where "mset f = mset js" "sorted_wrt (\<lambda>i j. rank_le desc (key i) (key j)) f" "cut_of L f ks"
proof -
  let ?le = "\<lambda>i j. rank_le desc (key i) (key j)" and ?rest = "filter (\<lambda>j. j \<notin> set ks) js"
  have eq: "rows_le [(key, desc)] = ?le" by (simp add: fun_eq_iff)
  have ks: "distinct ks" "set ks \<subseteq> set js" "sorted_wrt ?le ks"
    using s by (auto simp: sorted_selection_def eq)
  have r: "mset (stable_sort ?le ?rest) = mset ?rest" "sorted_wrt ?le (stable_sort ?le ?rest)"
    by (rule sorts_unstablyD [OF stable_sorts]; (rule rank_le_laws(1) | erule (1) rank_le_laws(2)))+
  have after: "?le i j" if "i \<in> set ks" "j \<in> set (stable_sort ?le ?rest)" for i j
  proof -
    have "j \<in> set js" "j \<notin> set ks" using that(2) mset_eq_setD [OF r(1)] by auto
    then show ?thesis using s that(1) by (auto simp: sorted_selection_def split: if_splits)
  qed
  have "mset ks = mset (filter (\<lambda>j. j \<in> set ks) js)"
    using ks(1,2) js by (intro set_eq_iff_mset_eq_distinct [THEN iffD1]) auto
  then have m: "mset js = mset ks + mset ?rest"
    using multiset_partition [of "mset js" "\<lambda>j. j \<in> set ks"] by (simp only: mset_filter)
  have "?rest = [] \<or> length ks = L"
  proof (cases "use_top \<and> L \<le> length js")
    case True
    then show ?thesis using s by (auto simp: sorted_selection_def)
  next
    case False
    have "set ks = set js"
    proof (cases use_top)
      case True
      then have "card (set ks) = card (set js)" using s False ks(1) js by (simp add: sorted_selection_def distinct_card)
      then show ?thesis using ks(2) by (simp add: card_subset_eq)
    qed (use s in \<open>simp add: sorted_selection_def\<close>)
    then show ?thesis by simp
  qed
  then have "stable_sort ?le ?rest = [] \<or> length ks = L" using r(1) by (metis mset_zero_iff)
  then have "cut_of L (ks @ stable_sort ?le ?rest) ks" unfolding cut_of_def by blast
  moreover have "sorted_wrt ?le (ks @ stable_sort ?le ?rest)" using ks(3) r(2) after by (simp add: sorted_wrt_append)
  moreover have "mset (ks @ stable_sort ?le ?rest) = mset js" using m r(1) by simp
  ultimately show thesis using that by blast
qed

lemma cut_of_map: "cut_of L f ks \<Longrightarrow> cut_of L (map g f) (map g ks)"
  unfolding cut_of_def by (metis length_map list.map_disc_iff map_append)

text \<open>What every partition has to satisfy.\<close>

definition partition_fits ::
    "plan_externs \<Rightarrow> NormalFormQuery \<Rightarrow> Expr \<Rightarrow> (string \<rightharpoonup> Column) \<Rightarrow> column_env \<Rightarrow> nat \<Rightarrow> (string \<Rightarrow> nat \<Rightarrow> cell) \<Rightarrow> nat list \<Rightarrow> bool" where
  "partition_fits pe q e columns env n rows js \<longleftrightarrow>
     env_holds pe columns env n rows \<and> selects_rows pe columns env rows n (nf_filter q) js \<and>
     (\<forall>c \<in> set (nf_projection q). evaluable pe columns env rows js (ci_expr c)) \<and> sortable pe columns env rows js e"

lemma selects_rows_distinct: "selects_rows pe columns env rows n e js \<Longrightarrow> distinct js"
  by (cases e) (auto simp: selects_rows_def)

lemma run_query_cut:
  assumes "partition_fits pe q e columns env n rows js" and "sorts_unstably (pe_sort pe)" and "nf_projection q \<noteq> []"
    and q: "nf_order_by q = [(e, desc)]" and L: "0 < L" "L = (lc_limit (nf_limit q) + lc_offset (nf_limit q)) mod 2 ^ 64"
  obtains b f where "run_query pe columns False n q = Inr b" "sorted_batch desc (length (nf_projection q)) b"
    "mset f = mset (map (result_row pe rows q e) js)" "sorted_wrt (key_le desc) f" "cut_of L f (sorted_rows b)"
proof -
  have h: "env_holds pe columns env n rows" "selects_rows pe columns env rows n (nf_filter q) js"
    "\<forall>c \<in> set (nf_projection q). evaluable pe columns env rows js (ci_expr c)"
    "\<forall>x \<in> set (nf_order_by q). sortable pe columns env rows js (fst x)"
    using assms(1) q by (auto simp: partition_fits_def)
  obtain b ks where b: "run_query pe columns False n q = Inr b" "batch_ok b" "br_aggregations b = []" "in_order b" "map snd (br_order_by b) = [desc]"
    "length (br_projection b) = length (nf_projection q)"
    "sorted_rows b = map (result_row pe rows q e) ks"
    "sorted_selection [(row_value pe rows e, desc)] js L (L < n div 2) ks"
    using run_query_rows [OF h(1) assms(2) h(2,3) assms(3) h(4) L, of False] q
    by (auto simp: result_row_def [abs_def] sort_keys_def)
  obtain f where f: "mset f = mset js" "sorted_wrt (\<lambda>i j. rank_le desc (row_value pe rows e i) (row_value pe rows e j)) f"
    "cut_of L f ks" by (rule sorted_selection_cut [OF b(8) selects_rows_distinct [OF h(2)]])
  have "mset (map (result_row pe rows q e) f) = mset (map (result_row pe rows q e) js)" using f(1) by (metis mset_map)
  moreover have "sorted_wrt (key_le desc) (map (result_row pe rows q e) f)"
    using f(2) by (simp add: sorted_wrt_map key_le_result)
  moreover have "cut_of L (map (result_row pe rows q e) f) (sorted_rows b)" unfolding b(7) by (rule cut_of_map [OF f(3)])
  moreover have "sorted_batch desc (length (nf_projection q)) b"
    using b(2-6) by (simp add: sorted_batch_def)
  ultimately show thesis using that b(1) by blast
qed

text \<open>
  C1. Queries end to end. Take a query without aggregates that sorts by one expression, over
  partitions whose columns decode. For any number of threads and any interleaving of their steps, the
  rows of an answer are the window given by offset and limit of one sorted arrangement of all rows of
  all partitions that the filter selects, each with the values of the selected expressions: neither
  filtering and sorting on encoded columns, nor keeping only the first rows of each partition, nor
  combining the results of the partitions in any order changes the answer.
\<close>

theorem select_query_answer:
  assumes "task_reachable t (query_ops pe cols lens ops) s ws" and "Inr out \<in> set (ss_sent (sender s))"
    and "qt_main_phase t = q" and "qt_final_pass t = None" and "nf_aggregate q = []" and "nf_order_by q = [(e, desc)]"
    and "nf_projection q \<noteq> []" and "sorts_unstably (pe_sort pe)"
    and "\<forall>i < length (qt_partitions t). partition_fits pe q e (cols i) (envs i) (lens i) (rows i) (js i)"
    and "0 < lc_limit (nf_limit q) + lc_offset (nf_limit q)" and "lc_limit (nf_limit q) + lc_offset (nf_limit q) < 2 ^ 64"
    and "(\<Sum>i < length (qt_partitions t). length (js i)) < 2 ^ 64"
  shows "\<exists>full. mset full = (\<Sum>i \<in># mset [0..<length (qt_partitions t)]. mset (map (result_row pe (rows i) q e) (js i))) \<and>
    sorted_wrt (\<lambda>x y. order_le [desc] (snd x) (snd y)) full \<and>
    qo_rows out = map fst (take (lc_limit (nf_limit q)) (drop (lc_offset (nf_limit q)) full))"
proof -
  let ?ops = "query_ops pe cols lens ops" and ?all = "\<lambda>i. mset (map (result_row pe (rows i) q e) (js i))"
  have run: "run_batch t ?ops i = rmap (\<lambda>b. (b, None)) (run_query pe (cols i) False (lens i) q)" for i
    using assms(3,5) by (simp add: run_batch_def query_ops_def)
  then have unit: "unit_batches t ?ops" by (auto simp: unit_batches_def rmap_Inr_iff dest: run_query_unit)
  have L: "combined_limit t = (lc_limit (nf_limit q) + lc_offset (nf_limit q)) mod 2 ^ 64" "0 < combined_limit t"
    using assms(3,10,11) by (simp_all add: combined_limit_def usize_add_def)
  have "cut_phase t ?ops desc (length (nf_projection q)) ?all"
    unfolding cut_phase_def
  proof (intro allI impI)
    fix i b x assume i: "i < length (qt_partitions t)" and "run_batch t ?ops i = Inr (b, x)"
    then have b: "run_query pe (cols i) False (lens i) q = Inr b" using run by (auto simp: rmap_Inr_iff)
    have fits: "partition_fits pe q e (cols i) (envs i) (lens i) (rows i) (js i)" using assms(9) i by blast
    show "sorted_batch desc (length (nf_projection q)) b \<and> (\<forall>x \<in># ?all i. \<exists>k. snd x = [k]) \<and>
        (\<exists>f. mset f = ?all i \<and> sorted_wrt (key_le desc) f \<and> cut_of (combined_limit t) f (sorted_rows b))"
      by (rule run_query_cut [OF fits assms(8,7,6) L(2,1)]) (use b in \<open>auto simp: result_row_def\<close>)
  qed
  moreover have "size (\<Sum>i \<in># mset [0..<length (qt_partitions t)]. ?all i) < 2 ^ 64"
    using assms(12) by (simp add: size_multiset_sum sum_unfold_sum_mset lessThan_atLeast0 image_mset.compositionality comp_def)
  moreover have "0 < length (nf_projection q)" using assms(7) by simp
  ultimately show ?thesis
    using answer_window [OF assms(1) unit, of desc "length (nf_projection q)" ?all out] assms(2-4,6,11) by simp
qed

text \<open>A task with one partition, the column 101, 105, 103, and the query of Query_Run.\<close>

definition offset_task :: QueryTask where
  "offset_task = \<lparr>qt_main_phase = offset_query, qt_final_pass = None, qt_partitions = [partition_nonresident 0 3 []],
     qt_referenced_cols = {''x''}, qt_output_colnames = [''x'', ''x'']\<rparr>"

definition no_ops :: "cell task_ops" where
  "no_ops = \<lparr>run_phase = (\<lambda>q i. Inl Panicked), run_aggregate_phase = (\<lambda>q i. Inl Panicked),
     run_final = (\<lambda>q cols. Inl Panicked), cols_len = (\<lambda>i. 3), agg_op = (\<lambda>a x y. Inl Panicked)\<rparr>"

abbreviation offset_ops :: "cell task_ops" where
  "offset_ops \<equiv> query_ops plain_externs (\<lambda>i. [''x'' \<mapsto> offset_column]) (\<lambda>i. 3) no_ops"

lemma offset_fits:
  "partition_fits plain_externs offset_query (ColName ''x'') [''x'' \<mapsto> offset_column] offset_env 3 offset_rows [1, 2]"
  using offset_env_holds offset_query_selects offset_column_fits by (simp add: partition_fits_def offset_query_def)

lemma offset_run:
  obtains b where "run_query plain_externs [''x'' \<mapsto> offset_column] False 3 offset_query = Inr b" "batch_ok b"
    "batch_len b = 2" "output_rows b = [[CInt 105, CInt 105], [CInt 103, CInt 103]]"
proof -
  have pe: "sorts_unstably (pe_sort plain_externs)" by (simp add: plain_externs_def stable_sorts)
  have q: "nf_projection offset_query \<noteq> []" "nf_order_by offset_query = [(ColName ''x'', True)]"
    "2 = (lc_limit (nf_limit offset_query) + lc_offset (nf_limit offset_query)) mod 2 ^ 64"
    by (simp_all add: offset_query_def)
  obtain b f where b: "run_query plain_externs [''x'' \<mapsto> offset_column] False 3 offset_query = Inr b"
    "sorted_batch True (length (nf_projection offset_query)) b"
    "mset f = mset (map (result_row plain_externs offset_rows offset_query (ColName ''x'')) [1, 2])"
    "sorted_wrt (key_le True) f" "cut_of 2 f (sorted_rows b)"
    by (rule run_query_cut [OF offset_fits pe q(1,2) _ q(3)]) simp
  have row: "result_row plain_externs offset_rows offset_query (ColName ''x'') j =
      ([CInt ([101, 105, 103] ! j), CInt ([101, 105, 103] ! j)], [CInt ([101, 105, 103] ! j)])" for j
    by (simp add: result_row_def offset_query_def row_value_def)
  have "length f = 2" using arg_cong [OF b(3), of size] by simp
  then obtain x y where "f = [x, y]" by (auto simp: numeral_2_eq_2 length_Suc_conv)
  with b(3,4) have f: "f = [([CInt 105, CInt 105], [CInt 105]), ([CInt 103, CInt 103], [CInt 103])]"
    by (auto simp: row add_eq_conv_ex key_le_def comparator_of_def CmpGreaterThan_def)
  have "sorted_rows b = f" using b(5) \<open>length f = 2\<close> by (auto simp: cut_of_def)
  then show thesis using that [OF b(1)] sorted_batch_output [OF b(2)] b(2) f by (simp add: sorted_batch_def)
qed

definition offset_end :: "cell QueryState \<times> cell worker" where
  "offset_end = solo offset_task offset_ops (Suc (Suc (Suc (Suc (Suc (Suc 0))))))"

lemma offset_reachable: "task_reachable offset_task offset_ops (fst offset_end) [snd offset_end]"
  unfolding offset_end_def by (rule solo_reachable) (simp add: offset_task_def)

lemma offset_limits: "combined_limit offset_task = 2" "length (qt_partitions offset_task) = 1" "\<not> sufficient_rows offset_task n"
  "nf_aggregate offset_query = []" "qt_final_pass offset_task = None" "qt_main_phase offset_task = offset_query"
  "qt_output_colnames offset_task = [''x'', ''x'']" "output_limit offset_task = \<lparr>lc_limit = 2, lc_offset = 0\<rparr>"
  by (simp_all add: offset_task_def offset_query_def combined_limit_def usize_add_def sufficient_rows_def output_limit_def)

lemma offset_solo:
  "\<exists>out. ss_sent (sender (fst offset_end)) = [Inr out] \<and> qo_rows out = [[CInt 105, CInt 105], [CInt 103, CInt 103]]"
proof (rule offset_run)
  fix b assume b: "run_query plain_externs [''x'' \<mapsto> offset_column] False 3 offset_query = Inr b" "batch_ok b"
    "batch_len b = 2" "output_rows b = [[CInt 105, CInt 105], [CInt 103, CInt 103]]"
  have run: "run_batch offset_task offset_ops 0 = Inr (b, None)"
    using b(1) by (simp add: run_batch_def query_ops_def offset_limits)
  have out: "final_output offset_task offset_ops b scanned plans =
      Inr \<lparr>qo_colnames = [''x'', ''x''], qo_rows = [[CInt 105, CInt 105], [CInt 103, CInt 103]],
           qo_query_plans = plan_counts plans, qo_rows_scanned = scanned\<rparr>" for scanned plans
    using convert_ok [OF b(2), of offset_task scanned plans] b(3,4) by (simp add: final_output_def offset_limits)
  show ?thesis
    by (simp add: offset_end_def Let_def worker_step_def next_partition_def process_def finish_def push_result_def
      combine_results_def offset_limits run out b(3) state_init_def worker_init_def shared_send_def shared_sender_new_def
      run_query_unit [OF b(1)])
qed

theorem select_query_answer_witness:
  "\<exists>out full. ss_sent (sender (fst offset_end)) = [Inr out] \<and> qo_rows out = map fst (take 2 full) \<and>
    mset full = {#([CInt 103, CInt 103], [CInt 103]), ([CInt 105, CInt 105], [CInt 105])#}"
proof -
  obtain out where out: "ss_sent (sender (fst offset_end)) = [Inr out]" using offset_solo by blast
  have fits: "\<forall>i < length (qt_partitions offset_task). partition_fits plain_externs offset_query (ColName ''x'')
      [''x'' \<mapsto> offset_column] offset_env 3 offset_rows [1, 2]"
    using offset_fits by simp
  have row: "result_row plain_externs offset_rows offset_query (ColName ''x'') j =
      ([CInt ([101, 105, 103] ! j), CInt ([101, 105, 103] ! j)], [CInt ([101, 105, 103] ! j)])" for j
    by (simp add: result_row_def offset_query_def row_value_def)
  have q: "nf_aggregate offset_query = []" "nf_order_by offset_query = [(ColName ''x'', True)]" "nf_projection offset_query \<noteq> []"
    "nf_limit offset_query = \<lparr>lc_limit = 2, lc_offset = 0\<rparr>" by (simp_all add: offset_query_def)
  have "sorts_unstably (pe_sort plain_externs)" by (simp add: plain_externs_def stable_sorts)
  then show ?thesis
    using select_query_answer [OF offset_reachable _ offset_limits(6,5) q(1,2,3) _ fits, of out] out
    by (auto simp: q(4) offset_limits(2) row)
qed

end
