(* ===== verification/Storage_Format.thy ===== *)
theory Storage_Format
  imports Storage
begin

text \<open>
  How columns and the metadata of partitions are written to disk: the messages of
  src/src/storage_format.capnp, and the functions of src/src/disk_store/rocksdb.rs that build and
  read them. The structs, unions and enums of the schema are datatypes and records with its fields;
  \<open>UInt64\<close> fields are words of 64 bits and \<open>as u64\<close> and \<open>as usize\<close> are \<open>of_nat\<close> and \<open>unat\<close>.

  The code that capnproto generates from the schema, and its encoding of a message as bytes, are
  parameters: the fields of \<open>capnp\<close>, whose type parameter stands for the encoded bytes, with
  \<open>capnp_lossless\<close> as what their documentation promises. A list
  of a message has fewer than \<open>2 ^ 29\<close> elements, the limit of the encoding; building a longer
  one panics.

  The main results: exactly the columns whose operations are storable can be written,
  and what is read back is the column that was written (\<open>column_format_correct\<close>); integer columns
  are always storable (\<open>integer_column_written\<close>), compressed float columns never.
\<close>

section \<open>Messages\<close>

datatype capnp_type = CapU8 | CapU16 | CapU32 | CapU64 | CapI64 | CapNull | CapF64

datatype codec_op_msg =
    MsgAdd capnp_type i64
  | MsgDelta capnp_type
  | MsgToI64 capnp_type
  | MsgPushDataSection u64
  | MsgDictLookup capnp_type
  | MsgLz4 capnp_type u64
  | MsgUnpackStrings
  | MsgUnhexpackStrings bool u64
  | MsgNullable

datatype data_section_msg =
    MsgU8 "u8 list"
  | MsgU16 "u16 list"
  | MsgU32 "u32 list"
  | MsgU64 "u64 list"
  | MsgI64 "i64 list"
  | MsgNull u64
  | MsgF64 "f64 list"

datatype range_msg = MsgRange i64 i64 | MsgEmpty

record column_msg =
  cmsg_name :: string
  cmsg_len :: u64
  cmsg_range :: range_msg
  cmsg_codec :: "codec_op_msg list"
  cmsg_data :: "data_section_msg list"

record column_meta_msg =
  cmm_name :: string
  cmm_size_bytes :: u64

record meta_data_msg =
  md_tablename :: string
  md_len :: u64
  md_columns :: "column_meta_msg list"

record 'b capnp =
  write_column_message :: "column_msg \<Rightarrow> 'b"
  read_column_message :: "'b \<Rightarrow> column_msg option"
  write_meta_message :: "meta_data_msg \<Rightarrow> 'b"
  read_meta_message :: "'b \<Rightarrow> meta_data_msg option"

definition capnp_lossless :: "'b capnp \<Rightarrow> bool" where
  "capnp_lossless cp \<longleftrightarrow>
     (\<forall>m. read_column_message cp (write_column_message cp m) = Some m) \<and>
     (\<forall>m. read_meta_message cp (write_meta_message cp m) = Some m)"

definition list_msg :: "'a list \<Rightarrow> 'a list res" where
  "list_msg xs = (if length xs < 2 ^ 29 then Inr xs else Inl Panicked)"

section \<open>Writing\<close>

fun encoding_type_to_capnp :: "EncodingType \<Rightarrow> capnp_type res" where
  "encoding_type_to_capnp EU8 = Inr CapU8"
| "encoding_type_to_capnp EU16 = Inr CapU16"
| "encoding_type_to_capnp EU32 = Inr CapU32"
| "encoding_type_to_capnp EU64 = Inr CapU64"
| "encoding_type_to_capnp EI64 = Inr CapI64"
| "encoding_type_to_capnp ENull = Inr CapNull"
| "encoding_type_to_capnp _ = Inl Panicked"

fun serialize_op :: "CodecOp \<Rightarrow> codec_op_msg res" where
  "serialize_op Nullable = Inr MsgNullable"
| "serialize_op (Add t amount) = rmap (\<lambda>t. MsgAdd t amount) (encoding_type_to_capnp t)"
| "serialize_op (Delta t) = rmap MsgDelta (encoding_type_to_capnp t)"
| "serialize_op (ToI64 t) = rmap MsgToI64 (encoding_type_to_capnp t)"
| "serialize_op (PushDataSection section) = Inr (MsgPushDataSection (of_nat section))"
| "serialize_op (DictLookup t) = rmap MsgDictLookup (encoding_type_to_capnp t)"
| "serialize_op (LZ4 t decoded_length) =
     rmap (\<lambda>t. MsgLz4 t (of_nat decoded_length)) (encoding_type_to_capnp t)"
| "serialize_op UnpackStrings = Inr MsgUnpackStrings"
| "serialize_op (UnhexpackStrings uppercase total_bytes) =
     Inr (MsgUnhexpackStrings uppercase (of_nat total_bytes))"
| "serialize_op Unknown = Inl Panicked"

fun serialize_section :: "DataSection \<Rightarrow> data_section_msg res" where
  "serialize_section (SecU8 x) = rmap MsgU8 (list_msg x)"
| "serialize_section (SecU16 x) = rmap MsgU16 (list_msg x)"
| "serialize_section (SecU32 x) = rmap MsgU32 (list_msg x)"
| "serialize_section (SecU64 x) = rmap MsgU64 (list_msg x)"
| "serialize_section (SecI64 x) = rmap MsgI64 (list_msg x)"
| "serialize_section (SecF64 x) = rmap MsgF64 (list_msg x)"
| "serialize_section (SecNull n) = Inr (MsgNull (of_nat n))"

fun serialize_range :: "(i64 \<times> i64) option \<Rightarrow> range_msg" where
  "serialize_range None = MsgEmpty"
| "serialize_range (Some (start, end)) = MsgRange start end"

definition column_message :: "Column \<Rightarrow> column_msg res" where
  "column_message col =
     rbind (list_msg (c_ops (col_codec col))) (\<lambda>ops.
     rbind (rmapM serialize_op ops) (\<lambda>codec.
     rbind (list_msg (col_data col)) (\<lambda>sections.
     rbind (rmapM serialize_section sections) (\<lambda>data_sections.
       Inr \<lparr>cmsg_name = col_name col, cmsg_len = of_nat (col_len col),
            cmsg_range = serialize_range (col_range col),
            cmsg_codec = codec, cmsg_data = data_sections\<rparr>))))"

definition serialize_column :: "'b capnp \<Rightarrow> Column \<Rightarrow> 'b res" where
  "serialize_column cp col = rmap (write_column_message cp) (column_message col)"

text \<open>The length of a partition is that of its first column, \<open>columns[0].len()\<close>.\<close>

definition serialize_meta_data :: "'b capnp \<Rightarrow> (Column \<Rightarrow> nat) \<Rightarrow> string \<Rightarrow> Column list \<Rightarrow> 'b res" where
  "serialize_meta_data cp heap tablename columns =
     rbind (index columns 0) (\<lambda>c0.
     rbind (list_msg columns) (\<lambda>columns.
       Inr (write_meta_message cp
         \<lparr>md_tablename = tablename, md_len = of_nat (col_len c0),
          md_columns = map (\<lambda>c. \<lparr>cmm_name = col_name c, cmm_size_bytes = of_nat (heap c)\<rparr>) columns\<rparr>)))"

section \<open>Reading\<close>

fun deserialize_type :: "capnp_type \<Rightarrow> EncodingType" where
  "deserialize_type CapU8 = EU8"
| "deserialize_type CapU16 = EU16"
| "deserialize_type CapU32 = EU32"
| "deserialize_type CapU64 = EU64"
| "deserialize_type CapI64 = EI64"
| "deserialize_type CapNull = ENull"
| "deserialize_type CapF64 = EF64"

fun deserialize_op :: "codec_op_msg \<Rightarrow> CodecOp" where
  "deserialize_op MsgNullable = Nullable"
| "deserialize_op (MsgAdd t amount) = Add (deserialize_type t) amount"
| "deserialize_op (MsgDelta t) = Delta (deserialize_type t)"
| "deserialize_op (MsgToI64 t) = ToI64 (deserialize_type t)"
| "deserialize_op (MsgPushDataSection section) = PushDataSection (unat section)"
| "deserialize_op (MsgDictLookup t) = DictLookup (deserialize_type t)"
| "deserialize_op (MsgLz4 t len_decoded) = LZ4 (deserialize_type t) (unat len_decoded)"
| "deserialize_op MsgUnpackStrings = UnpackStrings"
| "deserialize_op (MsgUnhexpackStrings uppercase total_bytes) =
     UnhexpackStrings uppercase (unat total_bytes)"

fun deserialize_section :: "data_section_msg \<Rightarrow> DataSection" where
  "deserialize_section (MsgU8 x) = SecU8 x"
| "deserialize_section (MsgU16 x) = SecU16 x"
| "deserialize_section (MsgU32 x) = SecU32 x"
| "deserialize_section (MsgU64 x) = SecU64 x"
| "deserialize_section (MsgI64 x) = SecI64 x"
| "deserialize_section (MsgF64 x) = SecF64 x"
| "deserialize_section (MsgNull n) = SecNull (unat n)"

fun deserialize_range :: "range_msg \<Rightarrow> (i64 \<times> i64) option" where
  "deserialize_range MsgEmpty = None"
| "deserialize_range (MsgRange start end) = Some (start, end)"

definition deserialize_column :: "'b capnp \<Rightarrow> 'b \<Rightarrow> Column res" where
  "deserialize_column cp data =
     rbind (unwrap (read_column_message cp data)) (\<lambda>column.
       column_new (cmsg_name column) (unat (cmsg_len column)) (deserialize_range (cmsg_range column))
         (map deserialize_op (cmsg_codec column)) (map deserialize_section (cmsg_data column)))"

definition deserialize_meta_data :: "'b capnp \<Rightarrow> 'b \<Rightarrow> PartitionID \<Rightarrow> PartitionMetadata res" where
  "deserialize_meta_data cp data partition_id =
     rbind (unwrap (read_meta_message cp data)) (\<lambda>md.
       Inr \<lparr>pm_id = partition_id, pm_tablename = md_tablename md, pm_len = unat (md_len md),
            pm_columns = map (\<lambda>c. \<lparr>cm_name = cmm_name c, cm_size_bytes = unat (cmm_size_bytes c)\<rparr>)
              (md_columns md)\<rparr>)"

section \<open>Columns that can be written\<close>

definition storable_type :: "EncodingType \<Rightarrow> bool" where
  "storable_type t \<longleftrightarrow> t \<in> {EU8, EU16, EU32, EU64, EI64, ENull}"

fun storable_op :: "CodecOp \<Rightarrow> bool" where
  "storable_op (Add t _) = storable_type t"
| "storable_op (Delta t) = storable_type t"
| "storable_op (ToI64 t) = storable_type t"
| "storable_op (DictLookup t) = storable_type t"
| "storable_op (LZ4 t _) = storable_type t"
| "storable_op Unknown = False"
| "storable_op _ = True"

fun storable_section :: "DataSection \<Rightarrow> bool" where
  "storable_section (SecNull _) = True"
| "storable_section d = (section_len d < 2 ^ 29)"

definition storable :: "Column \<Rightarrow> bool" where
  "storable c \<longleftrightarrow>
     list_all storable_op (c_ops (col_codec c)) \<and> list_all storable_section (col_data c) \<and>
     length (c_ops (col_codec c)) < 2 ^ 29 \<and> length (col_data c) < 2 ^ 29"

text \<open>Numbers of a column that are \<open>usize\<close> in the sources.\<close>

fun op_fits :: "CodecOp \<Rightarrow> bool" where
  "op_fits (PushDataSection n) = (n < 2 ^ 64)"
| "op_fits (LZ4 _ n) = (n < 2 ^ 64)"
| "op_fits (UnhexpackStrings _ n) = (n < 2 ^ 64)"
| "op_fits _ = True"

definition sizes_fit :: "Column \<Rightarrow> bool" where
  "sizes_fit c \<longleftrightarrow>
     col_len c < 2 ^ 64 \<and> list_all op_fits (c_ops (col_codec c)) \<and>
     list_all (\<lambda>d. section_len d < 2 ^ 64) (col_data c)"

text \<open>A column as \<open>Column::new\<close> builds it.\<close>

definition canonical :: "Column \<Rightarrow> bool" where
  "canonical c \<longleftrightarrow>
     column_new (col_name c) (col_len c) (col_range c) (c_ops (col_codec c)) (col_data c) = Inr c"

section \<open>Round trips of the parts\<close>

lemma unat_of_nat_u64 [simp]: "n < 2 ^ 64 \<Longrightarrow> unat (of_nat n :: u64) = n"
  by (intro unat_of_nat_small) simp

lemma type_roundtrip:
  "if storable_type t then \<exists>m. encoding_type_to_capnp t = Inr m \<and> deserialize_type m = t
   else encoding_type_to_capnp t = Inl Panicked"
  by (cases t) (auto simp: storable_type_def)

lemma op_roundtrip:
  "if storable_op op then \<exists>m. serialize_op op = Inr m \<and> (op_fits op \<longrightarrow> deserialize_op m = op)
   else serialize_op op = Inl Panicked"
  using type_roundtrip by (cases op) (fastforce simp: rmap_def split: if_splits)+

lemma section_roundtrip:
  "if storable_section d
   then \<exists>m. serialize_section d = Inr m \<and> (section_len d < 2 ^ 64 \<longrightarrow> deserialize_section m = d)
   else serialize_section d = Inl Panicked"
  by (cases d) (auto simp: rmap_def list_msg_def)

lemma range_roundtrip [simp]: "deserialize_range (serialize_range r) = r"
  by (cases r) auto

text \<open>A list is written exactly when each element is, and then read back element by element.\<close>

lemma rmapM_roundtrip:
  assumes "\<And>x. if ok x then \<exists>m. f x = Inr m \<and> (small x \<longrightarrow> g m = x) else f x = Inl Panicked"
  shows "if list_all ok xs then \<exists>ms. rmapM f xs = Inr ms \<and> (list_all small xs \<longrightarrow> map g ms = xs)
         else rmapM f xs = Inl Panicked"
proof (induction xs)
  case (Cons x xs)
  show ?case using assms [of x] Cons by (auto split: if_splits)
qed simp

lemmas ops_roundtrip = rmapM_roundtrip [OF op_roundtrip]
lemmas sections_roundtrip = rmapM_roundtrip [OF section_roundtrip]

lemma column_message_cases:
  "if storable c
   then \<exists>m. column_message c = Inr m \<and> cmsg_name m = col_name c \<and> cmsg_len m = of_nat (col_len c) \<and>
     cmsg_range m = serialize_range (col_range c) \<and>
     (sizes_fit c \<longrightarrow> map deserialize_op (cmsg_codec m) = c_ops (col_codec c) \<and>
       map deserialize_section (cmsg_data m) = col_data c)
   else column_message c = Inl Panicked"
  using ops_roundtrip [of "c_ops (col_codec c)"] sections_roundtrip [of "col_data c"]
  by (auto simp: column_message_def storable_def sizes_fit_def list_msg_def split: if_splits)

section \<open>Columns that builders write\<close>

lemma column_new_canonical:
  assumes "column_new name len r ops data = Inr c"
  shows "canonical c" and "c_ops (col_codec c) = ops" and "col_data c = data" and "col_name c = name"
    and "col_len c = len" and "col_range c = r" and "c_column_name (col_codec c) = name"
    and "ops \<noteq> [] \<Longrightarrow> c_section_types (col_codec c) = map section_encoding_type data"
proof -
  have "c_ops (col_codec c) = ops \<and> col_data c = data \<and> col_name c = name \<and> col_len c = len \<and> col_range c = r \<and>
    c_column_name (col_codec c) = name \<and>
    (ops \<noteq> [] \<longrightarrow> c_section_types (col_codec c) = map section_encoding_type data)"
    using assms by (auto simp: column_new_def codec_new_def codec_identity_def set_column_name_def
        rmap_def split: if_splits)
  then show "c_ops (col_codec c) = ops" "col_data c = data" "col_name c = name" "col_len c = len"
    "col_range c = r" "c_column_name (col_codec c) = name"
    "ops \<noteq> [] \<Longrightarrow> c_section_types (col_codec c) = map section_encoding_type data" by auto
  with assms show "canonical c" by (simp add: canonical_def)
qed

lemma identity_section_type:
  assumes "column_new name len r [] [d] = Inr c"
  shows "c_section_types (col_codec c) = [section_encoding_type d]"
  using assms by (cases d) (auto simp: column_new_def codec_identity_def set_column_name_def index_def rmap_def)

text \<open>
  The two columns that compression can give: the column itself, or one whose first section holds
  the compressed bytes, fewer than the uncompressed ones.
\<close>

lemma worth_it_shorter:
  assumes "section_lz4_encode ext d = (encoded, True)"
  shows "\<exists>e. encoded = SecU8 e \<and> length e < 8 * section_len d"
  using assms by (cases d) (auto simp: section_lz4_encode_def worth_it_def Let_def)

lemma lz4_forms:
  assumes c0: "column_new name len r ops (d # ds) = Inr c0" and "ops = [] \<Longrightarrow> ds = []"
    and c: "column_lz4_encode ext c0 = Inr c"
  shows "canonical c \<and> col_name c = name \<and> col_len c = len \<and>
    ((c_ops (col_codec c) = ops \<and> col_data c = d # ds) \<or>
     (\<exists>e. c_ops (col_codec c) = LZ4 (section_encoding_type d) (section_len d) # ops \<and>
        col_data c = SecU8 e # ds \<and> length e < 8 * section_len d))"
proof -
  note f = column_new_canonical [OF c0]
  have ty: "c_section_types (col_codec c0) = map section_encoding_type (d # ds)"
  proof (cases "ops = []")
    case True
    with assms(2) identity_section_type [of name len r d c0] c0 show ?thesis by simp
  qed (use f(8) in simp)
  show ?thesis
  proof (cases "enable_lz4 ext \<and> snd (section_lz4_encode ext d)")
    case False
    then have "column_lz4_encode ext c0 = Inr c0"
      using f(3) by (simp add: column_lz4_encode_def index_def case_prod_beta)
    with c f show ?thesis by simp
  next
    case True
    then obtain encoded where enc: "section_lz4_encode ext d = (encoded, True)" by (metis prod.collapse)
    obtain e where e: "encoded = SecU8 e" "length e < 8 * section_len d" using worth_it_shorter [OF enc] by blast
    from c True enc e(1) f ty obtain codec where codec:
      "codec_new (LZ4 (section_encoding_type d) (section_len d) # ops) (EU8 # map section_encoding_type ds) = Inr codec"
      "c = c0\<lparr>col_codec := set_column_name codec name, col_data := SecU8 e # ds\<rparr>"
      by (auto simp: column_lz4_encode_def index_def with_lz4_def)
    then have "column_new name len r (LZ4 (section_encoding_type d) (section_len d) # ops) (SecU8 e # ds) = Inr c"
      using f by (simp add: column_new_def)
    from column_new_canonical [OF this] e(2) show ?thesis by auto
  qed
qed

text \<open>What the integer and string builders have in common.\<close>

definition written_form :: "externs \<Rightarrow> Column \<Rightarrow> bool" where
  "written_form ext c \<longleftrightarrow>
     (\<exists>name len r ops d ds c0. column_new name len r ops (d # ds) = Inr c0 \<and> column_lz4_encode ext c0 = Inr c \<and>
        (ops = [] \<longrightarrow> ds = []) \<and> len < 2 ^ 64 \<and> length ops < 5 \<and> length ds < 5 \<and>
        list_all storable_op ops \<and> list_all op_fits ops \<and>
        storable_type (section_encoding_type d) \<and> 8 * section_len d < 2 ^ 29 \<and>
        list_all (\<lambda>d. section_len d < 2 ^ 29) ds)"

lemma written_formI:
  assumes "column_new name len r ops (d # ds) = Inr c0" and "column_lz4_encode ext c0 = Inr c"
    and "ops = [] \<Longrightarrow> ds = []" and "len < 2 ^ 64" and "length ops < 5" and "length ds < 5"
    and "list_all storable_op ops" and "list_all op_fits ops"
    and "storable_type (section_encoding_type d)" and "8 * section_len d < 2 ^ 29"
    and "list_all (\<lambda>d. section_len d < 2 ^ 29) ds"
  shows "written_form ext c"
  unfolding written_form_def using assms by blast

lemma storable_section_short: "section_len d < 2 ^ 29 \<Longrightarrow> storable_section d"
  by (cases d) auto

lemma written_form_storable:
  assumes "written_form ext c"
  shows "canonical c \<and> storable c \<and> sizes_fit c"
proof -
  from assms obtain name len r ops d ds c0 where
    c0: "column_new name len r ops (d # ds) = Inr c0" and c: "column_lz4_encode ext c0 = Inr c"
    and e: "ops = [] \<longrightarrow> ds = []" and len: "len < 2 ^ 64" and short: "length ops < 5" "length ds < 5"
    and ops: "list_all storable_op ops" "list_all op_fits ops"
    and d: "storable_type (section_encoding_type d)" "8 * section_len d < 2 ^ 29"
    and ds: "list_all (\<lambda>d. section_len d < 2 ^ 29) ds"
    unfolding written_form_def by (elim exE conjE) blast
  have "list_all storable_section ds" "list_all (\<lambda>d. section_len d < 2 ^ 64) ds"
    using ds by (auto simp: list_all_iff intro: storable_section_short)
  with lz4_forms [OF c0 _ c] e len short ops d show ?thesis
    by (auto simp: storable_def sizes_fit_def intro!: storable_section_short)
qed

lemma delta_encode_values_length:
  "delta_encode_values de vs mn mx = (ds, mn', mx') \<Longrightarrow> length ds = length vs"
proof -
  have loop: "length (fst (delta_encode_loop p a b ws)) = length ws" for p a b ws
    by (induction p a b ws rule: delta_encode_loop.induct) (auto simp: Let_def case_prod_beta)
  show "delta_encode_values de vs mn mx = (ds, mn', mx') \<Longrightarrow> length ds = length vs"
    by (auto simp: delta_encode_values_def Let_def case_prod_beta loop split: if_splits list.splits)
qed

lemma int_codec_ok:
  assumes "storable_type t"
  shows "list_all storable_op (int_codec t n de off)" "list_all op_fits (int_codec t n de off)"
    "length (int_codec t n de off) < 5" "int_codec t n de off \<noteq> []"
  using assms by (auto simp: int_codec_def storable_type_def split: bool.splits)

lemma i64_codec_ok:
  "list_all storable_op (i64_codec n de)" "list_all op_fits (i64_codec n de)" "length (i64_codec n de) < 5"
  "i64_codec n de = [] \<Longrightarrow> \<not> n"
  by (auto simp: i64_codec_def storable_type_def split: if_splits)

lemma create_col_written:
  assumes "rbind (create_col into name values offset mn mx de null t) (column_lz4_encode ext) = Inr c"
    and "\<And>vs. section_encoding_type (into vs) = t" and "\<And>vs. section_len (into vs) = length vs"
    and "storable_type t" and "8 * length values < 2 ^ 29" and "\<forall>p. null = Some p \<longrightarrow> length p < 2 ^ 29"
  shows "written_form ext c"
proof -
  from assms(1) obtain vals c0 where vals: "encode_values values offset = Inr vals"
    and c0: "column_new name (length vals) (Some (wrap_i64 (mn - offset), wrap_i64 (mx - offset)))
      (int_codec t (null \<noteq> None) de offset) (into vals # present_sections null) = Inr c0"
    and c: "column_lz4_encode ext c0 = Inr c"
    by (auto simp: create_col_def)
  have "length vals = length values" using vals by (auto simp: encode_values_def dest: rmapM_Inr_length)
  then show ?thesis
    by (intro written_formI [OF c0 c]) (use assms int_codec_ok [OF assms(4)] in \<open>cases null; auto\<close>)+
qed

lemma integer_column_written:
  assumes "integer_column_new_boxed ext name values mn mx de null = Inr c"
    and "8 * length values < 2 ^ 29" and "\<forall>p. null = Some p \<longrightarrow> length p < 2 ^ 29"
  shows "written_form ext c"
proof -
  obtain ds mn' mx' where d: "delta_encode_values de values mn mx = (ds, mn', mx')" by (cases "delta_encode_values de values mn mx")
  have l: "8 * length ds < 2 ^ 29" using assms(2) delta_encode_values_length [OF d] by simp
  note cc = create_col_written [OF _ _ _ _ l assms(3)]
  have last: "written_form ext c"
    if "rbind (column_new name (length ds) (Some (mn, mx)) (i64_codec (null \<noteq> None) de) (SecI64 ds # present_sections null))
      (column_lz4_encode ext) = Inr c"
  proof -
    from that obtain c0 where c0: "column_new name (length ds) (Some (mn, mx)) (i64_codec (null \<noteq> None) de)
        (SecI64 ds # present_sections null) = Inr c0" and c: "column_lz4_encode ext c0 = Inr c" by auto
    show ?thesis
      by (intro written_formI [OF c0 c])
        (use i64_codec_ok [of "null \<noteq> None" de] l assms(3) in \<open>cases null; auto simp: storable_type_def\<close>)+
  qed
  show ?thesis
    using assms(1) cc [of SecU8 name 0 mn mx de EU8] cc [of SecU8 name mn' mn mx de EU8]
      cc [of SecU16 name 0 mn mx de EU16] cc [of SecU16 name mn' mn mx de EU16]
      cc [of SecU32 name 0 mn mx de EU32] cc [of SecU32 name mn' mn mx de EU32] last
    by (simp add: integer_column_new_boxed_def d storable_type_def Let_def split: if_splits)
qed

section \<open>Main results\<close>

text \<open>An encoding that keeps the message as it is.\<close>

definition plain_capnp :: "(column_msg + meta_data_msg) capnp" where
  "plain_capnp =
     \<lparr>write_column_message = Inl, read_column_message = (\<lambda>b. case b of Inl m \<Rightarrow> Some m | Inr _ \<Rightarrow> None),
      write_meta_message = Inr, read_meta_message = (\<lambda>b. case b of Inl _ \<Rightarrow> None | Inr m \<Rightarrow> Some m)\<rparr>"

lemma plain_capnp_lossless [simp]: "capnp_lossless plain_capnp"
  by (simp add: capnp_lossless_def plain_capnp_def)

lemma delta_column_storable: "canonical delta_column" "sizes_fit delta_column" "storable delta_column"
  by (simp_all add: canonical_def sizes_fit_def storable_def storable_type_def delta_column_def column_new_def
      codec_new_def output_type_def has_property_def index_def set_column_name_def i64_like_def is_nullable_def)

text \<open>
  C27. The storage format is lossless. Writing a column fails exactly when an operation of its codec is
  opaque or works on a type the schema functions reject, or a list is too long for a message. In
  every other case reading the written bytes gives the same column: name, length, range, codec
  with all derived properties, and data.
\<close>

theorem column_format_correct:
  assumes "capnp_lossless cp" and "canonical c" and "sizes_fit c"
  shows "if storable c then \<exists>bytes. serialize_column cp c = Inr bytes \<and> deserialize_column cp bytes = Inr c
         else serialize_column cp c = Inl Panicked"
  using column_message_cases [of c] assms
  by (auto simp: serialize_column_def deserialize_column_def rmap_def canonical_def capnp_lossless_def sizes_fit_def
      split: if_splits)

theorem column_format_correct_witness:
  "\<exists>bytes. serialize_column plain_capnp delta_column = Inr bytes \<and> deserialize_column plain_capnp bytes = Inr delta_column"
  using column_format_correct [of plain_capnp delta_column] delta_column_storable by simp

text \<open>
  Compressed float columns cannot be stored. Where compression is worth it, a column of floats is
  built with an operation that decompresses to \<open>F64\<close>, and writing it panics, although the schema has
  that type and reading handles it.
\<close>

theorem compressed_float_column_panics:
  assumes "enable_lz4 ext" and "worth_it (length values) 8 (lz4_encode ext 8 (map unat values))"
  shows "\<exists>c. float_column_new_boxed ext name values None = Inr c \<and> serialize_column cp c = Inl Panicked"
  using assms
  by (simp add: float_column_new_boxed_def column_new_def column_lz4_encode_def with_lz4_def codec_identity_def
      index_def set_column_name_def section_lz4_encode_def codec_new_def output_type_def has_property_def
      serialize_column_def column_message_def list_msg_def Let_def)

text \<open>A compressor with a code for sixteen zero bytes.\<close>

definition zero_run_externs :: externs where
  "zero_run_externs =
     \<lparr>enable_lz4 = True, lz4_frame = (\<lambda>b. if b = replicate 16 0 then [1] else 0 # b),
      lz4_unframe = (\<lambda>b. if b = [1] then replicate 16 0 else tl b),
      hex_decode = Some, hex_encode = (\<lambda>b. b), hex_encode_upper = (\<lambda>b. b)\<rparr>"

theorem compressed_float_column_panics_witness:
  "lz4_lossless zero_run_externs \<and>
   (\<exists>c. float_column_new_boxed zero_run_externs ''f'' [0, 0] None = Inr c \<and> serialize_column plain_capnp c = Inl Panicked)"
proof -
  have "le_bytes n 0 = replicate n 0" for n by (induction n) auto
  then have "concat (map (le_bytes 8) (map unat [0, 0 :: f64])) = replicate 16 0"
    using replicate_add [of 8 8 "0 :: u8"] by simp
  then have "lz4_encode zero_run_externs 8 (map unat [0, 0 :: f64]) = [1]"
    unfolding lz4_encode_def zero_run_externs_def by (simp only: externs.simps if_True refl)
  then have "worth_it (length [0, 0 :: f64]) 8 (lz4_encode zero_run_externs 8 (map unat [0, 0 :: f64]))"
    by (simp only: worth_it_def) simp
  then show ?thesis
    using compressed_float_column_panics [of zero_run_externs "[0, 0]" "''f''" plain_capnp]
    by (simp add: lz4_lossless_def zero_run_externs_def)
qed

end
