(* ===== verification/Disk_Store.thy ===== *)
theory Disk_Store
  imports Storage_Format
begin

text \<open>
  The database on disk, src/src/disk_store/rocksdb.rs and noop_storage.rs, behind the interface of
  src/src/disk_store/interface.rs. Columns are stored under a key made of the name of the column and
  the id of its partition in big-endian order, so that the columns of one name lie next to each
  other and a range of partitions is read by one sequential scan.

  RocksDB is a sorted map from byte strings: a column family is a finite map here, iterating visits
  its keys in lexicographic order, and a write batch is applied as a whole, as its documentation says.
  A column name is a list of bytes written as characters. Loading a range of columns hands each one
  to the database in memory, the parameter \<open>restore\<close> on a state \<open>'s\<close>; src/src/scheduler/inner_locustdb.rs
  provides it in theory \<open>Database\<close>.

  The main results: what was stored is loaded again, nothing else changes (interpretation \<open>rocks\<close> of
  the interface), and a range scan loads exactly the stored columns of the range
  (\<open>load_column_range_correct\<close>).
\<close>

section \<open>Keys\<close>

text \<open>\<open>BigEndian::write_u64\<close> and \<open>read_u64\<close>.\<close>

fun be_bytes :: "nat \<Rightarrow> nat \<Rightarrow> rstr" where
  "be_bytes 0 n = []"
| "be_bytes (Suc k) n = of_nat (n div 256 ^ k) # be_bytes k (n mod 256 ^ k)"

definition be_value :: "rstr \<Rightarrow> nat" where
  "be_value bs = foldl (\<lambda>n b. 256 * n + unat b) 0 bs"

definition read_u64 :: "rstr \<Rightarrow> nat res" where
  "read_u64 bs = (if 8 \<le> length bs then Inr (be_value (take 8 bs)) else Inl Panicked)"

definition name_bytes :: "string \<Rightarrow> rstr" where
  "name_bytes name = map (\<lambda>c. of_nat (of_char c)) name"

definition column_key :: "PartitionID \<Rightarrow> string \<Rightarrow> rstr" where
  "column_key pid column_name = name_bytes column_name @ be_bytes 8 pid"

text \<open>\<open>key.len() - 8\<close> wraps for a shorter key and the slice is out of range.\<close>

definition deserialize_column_key :: "rstr \<Rightarrow> (PartitionID \<times> string) res" where
  "deserialize_column_key key =
     (if length key < 8 then Inl Panicked
      else let i = length key - 8 in
        Inr (be_value (drop i key), map (\<lambda>b. char_of (unat b)) (take i key)))"

section \<open>Storing and loading\<close>

record 'b RocksDB =
  rd_metadata :: "rstr \<rightharpoonup> 'b"
  rd_partitions :: "rstr \<rightharpoonup> 'b"

definition rocksdb_empty :: "'b RocksDB" where
  "rocksdb_empty = \<lparr>rd_metadata = Map.empty, rd_partitions = Map.empty\<rparr>"

definition entries :: "(rstr \<rightharpoonup> 'b) \<Rightarrow> (rstr \<times> 'b) list" where
  "entries kv = map (\<lambda>key. (key, the (kv key))) (sorted_list_of_set (dom kv))"

definition load_metadata :: "'b capnp \<Rightarrow> 'b RocksDB \<Rightarrow> PartitionMetadata list res" where
  "load_metadata cp db =
     rmapM (\<lambda>(key, value). rbind (read_u64 key) (\<lambda>partition_id. deserialize_meta_data cp value partition_id))
       (entries (rd_metadata db))"

definition load_column :: "'b capnp \<Rightarrow> 'b RocksDB \<Rightarrow> PartitionID \<Rightarrow> string \<Rightarrow> Column res" where
  "load_column cp db pid column_name =
     rbind (unwrap (rd_partitions db (column_key pid column_name))) (deserialize_column cp)"

fun range_loop ::
    "'b capnp \<Rightarrow> (PartitionID \<Rightarrow> Column \<Rightarrow> 's \<Rightarrow> 's res) \<Rightarrow> PartitionID \<Rightarrow> string \<Rightarrow> (rstr \<times> 'b) list \<Rightarrow> 's \<Rightarrow> 's res" where
  "range_loop cp restore until column_name [] ldb = Inr ldb"
| "range_loop cp restore until column_name ((key, value) # rest) ldb =
     rbind (deserialize_column_key key) (\<lambda>(i, name).
       if name \<noteq> column_name \<or> i > until then Inr ldb
       else rbind (deserialize_column cp value) (\<lambda>col.
            rbind (restore i col ldb) (range_loop cp restore until column_name rest)))"

definition load_column_range ::
    "'b capnp \<Rightarrow> (PartitionID \<Rightarrow> Column \<Rightarrow> 's \<Rightarrow> 's res) \<Rightarrow> 'b RocksDB \<Rightarrow>
     PartitionID \<Rightarrow> PartitionID \<Rightarrow> string \<Rightarrow> 's \<Rightarrow> 's res" where
  "load_column_range cp restore db start until column_name ldb =
     range_loop cp restore until column_name
       (filter (\<lambda>(key, value). column_key start column_name \<le> key) (entries (rd_partitions db))) ldb"

text \<open>\<open>bulk_load\<close> also measures and logs its throughput.\<close>

definition bulk_load ::
    "'b capnp \<Rightarrow> (PartitionID \<Rightarrow> Column \<Rightarrow> 's \<Rightarrow> 's res) \<Rightarrow> 'b RocksDB \<Rightarrow> 's \<Rightarrow> 's res" where
  "bulk_load cp restore db ldb =
     rfoldM (\<lambda>ldb (key, value).
       rbind (deserialize_column_key key) (\<lambda>(i, name).
       rbind (deserialize_column cp value) (\<lambda>col. restore i col ldb))) ldb (entries (rd_partitions db))"

definition store_columns ::
    "'b capnp \<Rightarrow> PartitionID \<Rightarrow> Column list \<Rightarrow> (rstr \<rightharpoonup> 'b) \<Rightarrow> (rstr \<rightharpoonup> 'b) res" where
  "store_columns cp pid columns kv =
     rfoldM (\<lambda>kv column.
       rbind (serialize_column cp column) (\<lambda>data.
         Inr (kv(column_key pid (col_name column) \<mapsto> data)))) kv columns"

definition disk_store_partition ::
    "'b capnp \<Rightarrow> (Column \<Rightarrow> nat) \<Rightarrow> PartitionID \<Rightarrow> string \<Rightarrow> Column list \<Rightarrow> 'b RocksDB \<Rightarrow> 'b RocksDB res" where
  "disk_store_partition cp heap pid tablename columns db =
     rbind (serialize_meta_data cp heap tablename columns) (\<lambda>md.
     rbind (store_columns cp pid columns (rd_partitions db)) (\<lambda>kv.
       Inr \<lparr>rd_metadata = (rd_metadata db)(be_bytes 8 pid \<mapsto> md), rd_partitions = kv\<rparr>))"

section \<open>NoopStorage\<close>

definition noop_load_metadata :: "PartitionMetadata list" where
  "noop_load_metadata = []"

definition noop_load_column :: "PartitionID \<Rightarrow> string \<Rightarrow> Column res" where
  "noop_load_column pid column_name = Inl Panicked"

definition noop_load_column_range :: "PartitionID \<Rightarrow> PartitionID \<Rightarrow> string \<Rightarrow> 's \<Rightarrow> 's res" where
  "noop_load_column_range start until column_name ldb = Inr ldb"

definition noop_bulk_load :: "'s \<Rightarrow> 's res" where
  "noop_bulk_load ldb = Inr ldb"

definition noop_store_partition :: "PartitionID \<Rightarrow> string \<Rightarrow> Column list \<Rightarrow> unit" where
  "noop_store_partition pid tablename columns = ()"

section \<open>Big-endian order\<close>

lemma length_be_bytes [simp]: "length (be_bytes k n) = k"
  by (induction k arbitrary: n) auto

lemma be_value_append: "foldl (\<lambda>n b. 256 * n + unat b) a bs = 256 ^ length bs * a + be_value bs"
proof (induction bs arbitrary: a)
  case (Cons b bs)
  show ?case
    using Cons [of "256 * a + unat b"] Cons [of "unat b"] by (simp add: be_value_def algebra_simps)
qed (simp add: be_value_def)

lemma be_value_Cons: "be_value (b # bs) = 256 ^ length bs * unat b + be_value bs"
  using be_value_append [of "unat b" bs] by (simp add: be_value_def)

lemma be_value_be_bytes: "n < 256 ^ k \<Longrightarrow> be_value (be_bytes k n) = n"
proof (induction k arbitrary: n)
  case (Suc k)
  have "n div 256 ^ k < 256" using Suc.prems by (simp add: less_mult_imp_div_less)
  then have "unat (of_nat (n div 256 ^ k) :: u8) = n div 256 ^ k" by (intro unat_of_nat_small) simp
  then show ?case using Suc.IH [of "n mod 256 ^ k"] by (simp add: be_value_Cons)
qed (simp add: be_value_def)

lemma less_by_div_mod: "(i::nat) < j \<longleftrightarrow> i div B < j div B \<or> (i div B = j div B \<and> i mod B < j mod B)"
proof (cases "i div B = j div B")
  case True
  then have "i = B * (j div B) + i mod B" "j = B * (j div B) + j mod B" by (metis mult_div_mod_eq)+
  then show ?thesis using True by linarith
next
  case False
  then show ?thesis using div_le_mono [of i j B] div_le_mono [of j i B] by linarith
qed

lemma be_bytes_less_iff:
  "i < 256 ^ k \<Longrightarrow> j < 256 ^ k \<Longrightarrow> be_bytes k i < be_bytes k j \<longleftrightarrow> i < j"
proof (induction k arbitrary: i j)
  case (Suc k)
  let ?B = "256 ^ k :: nat"
  have d: "i div ?B < 256" "j div ?B < 256" using Suc.prems by (simp_all add: less_mult_imp_div_less)
  have ui: "unat (of_nat (i div ?B) :: u8) = i div ?B" and uj: "unat (of_nat (j div ?B) :: u8) = j div ?B"
    using d by (intro unat_of_nat_small; simp)+
  have u: "(of_nat (i div ?B) :: u8) < of_nat (j div ?B) \<longleftrightarrow> i div ?B < j div ?B"
    by (simp only: word_less_nat_alt ui uj)
  have u': "(of_nat (i div ?B) :: u8) = of_nat (j div ?B) \<longleftrightarrow> i div ?B = j div ?B"
    by (metis ui uj)
  show ?case using Suc.IH [of "i mod ?B" "j mod ?B"] u u' less_by_div_mod [of i j ?B] by simp
qed simp

lemma be_bytes_inj: "i < 256 ^ k \<Longrightarrow> j < 256 ^ k \<Longrightarrow> be_bytes k i = be_bytes k j \<longleftrightarrow> i = j"
  by (metis be_value_be_bytes)

section \<open>Keys of one column lie next to each other\<close>

text \<open>Names without zero bytes and ids whose first byte is zero, which every database has.\<close>

definition key_ok :: "PartitionID \<Rightarrow> string \<Rightarrow> bool" where
  "key_ok pid name \<longleftrightarrow> pid < 2 ^ 56 \<and> CHR 0x00 \<notin> set name"

lemma be_bytes_8: "pid < 2 ^ 56 \<Longrightarrow> be_bytes 8 pid = 0 # be_bytes 7 pid"
proof -
  assume a: "pid < 2 ^ 56"
  have "be_bytes 8 pid = be_bytes (Suc 7) pid" by simp
  also have "\<dots> = 0 # be_bytes 7 pid" unfolding be_bytes.simps using a by simp
  finally show ?thesis .
qed

lemma unat_char_byte: "unat (of_nat (of_char c) :: u8) = of_char c"
  using nat_of_char_less_256 [of c] by (intro unat_of_nat_small) simp

lemma deserialize_column_key_ok:
  assumes "pid < 2 ^ 64"
  shows "deserialize_column_key (column_key pid name) = Inr (pid, name)"
proof -
  have "be_value (be_bytes 8 pid) = pid" using assms by (intro be_value_be_bytes) simp
  moreover have "map (\<lambda>b. char_of (unat b)) (name_bytes name) = name"
  proof (induction name)
    case (Cons c name)
    then show ?case by (simp only: name_bytes_def list.map char_of_char unat_char_byte)
  qed (simp add: name_bytes_def)
  ultimately show ?thesis by (simp add: deserialize_column_key_def column_key_def)
qed

lemma append_less_same: "(xs @ ys < xs @ zs) \<longleftrightarrow> (ys < (zs :: 'a::order list))"
  by (induction xs) auto

lemma column_key_less_iff:
  assumes "i < 2 ^ 64" and "j < 2 ^ 64"
  shows "column_key i name < column_key j name \<longleftrightarrow> i < j"
  using assms be_bytes_less_iff [of i 8 j] by (simp add: column_key_def append_less_same)

text \<open>A key between two keys of a name belongs to that name.\<close>

lemma between_zero:
  fixes k :: "u8 list"
  assumes "xs @ 0 # as \<le> k" and "k \<le> xs @ 0 # bs"
  shows "\<exists>cs. k = xs @ 0 # cs"
  using assms
proof (induction xs arbitrary: k)
  case Nil
  then show ?case by (cases k) (auto simp: le_less)
next
  case (Cons x xs)
  then obtain y ys where k: "k = y # ys" by (cases k) (auto simp: le_less)
  then have "y = x" using Cons.prems by (auto simp: le_less)
  with Cons k show ?case by (auto simp: le_less)
qed

lemma same_name:
  assumes "xs @ 0 # as = ys @ 0 # (bs :: u8 list)" and "0 \<notin> set xs" and "0 \<notin> set ys"
  shows "xs = ys"
  using assms
proof (induction xs arbitrary: ys)
  case Nil
  then show ?case by (cases ys) auto
next
  case (Cons x xs)
  then show ?case by (cases ys) auto
qed

section \<open>A range scan\<close>

definition keys_ok :: "(rstr \<rightharpoonup> 'b) \<Rightarrow> bool" where
  "keys_ok kv \<longleftrightarrow> finite (dom kv) \<and> (\<forall>key \<in> dom kv. \<exists>pid name. key = column_key pid name \<and> key_ok pid name)"

lemma name_bytes_inj [simp]: "name_bytes n = name_bytes m \<longleftrightarrow> n = m"
proof -
  have "(of_nat (of_char c) :: u8) = of_nat (of_char d) \<longleftrightarrow> c = d" for c d
    by (metis char_of_char unat_char_byte)
  then have "inj (\<lambda>c. of_nat (of_char c) :: u8)" by (auto intro: injI)
  then show ?thesis by (simp add: name_bytes_def inj_map_eq_map)
qed

lemma key_ok_column_key:
  assumes "key_ok pid name"
  obtains bs where "column_key pid name = name_bytes name @ 0 # bs" and "0 \<notin> set (name_bytes name)"
proof -
  have nz: "of_nat (of_char c) \<noteq> (0 :: u8)" if "c \<noteq> CHR 0x00" for c
  proof
    assume "of_nat (of_char c) = (0 :: u8)"
    then have "of_char c = (0 :: nat)" using unat_char_byte [of c] by simp
    then have "c = char_of (0 :: nat)" by (metis char_of_char)
    with that show False by (simp add: char_of_def)
  qed
  have "0 \<notin> set (name_bytes name)"
  proof
    assume "0 \<in> set (name_bytes name)"
    then obtain c where c: "0 = (of_nat (of_char c) :: u8)" "c \<in> set name"
      unfolding name_bytes_def set_map by (rule imageE)
    with assms have "c \<noteq> CHR 0x00" unfolding key_ok_def by blast
    from nz [OF this] c(1) show False by (rule notE [OF _ sym])
  qed
  with that [of "be_bytes 7 pid"] assms show thesis by (simp add: column_key_def key_ok_def be_bytes_8)
qed

lemma key_between:
  assumes "key_ok start name" and "key_ok pid n" and "key_ok i name"
    and "column_key start name \<le> column_key pid n" and "column_key pid n \<le> column_key i name"
  shows "n = name \<and> start \<le> pid \<and> pid \<le> i"
proof -
  obtain bs where bs: "column_key start name = name_bytes name @ 0 # bs" "0 \<notin> set (name_bytes name)"
    using key_ok_column_key [OF assms(1)] .
  obtain cs where cs: "column_key i name = name_bytes name @ 0 # cs" using key_ok_column_key [OF assms(3)] .
  obtain ds where ds: "column_key pid n = name_bytes n @ 0 # ds" "0 \<notin> set (name_bytes n)"
    using key_ok_column_key [OF assms(2)] .
  obtain es where "column_key pid n = name_bytes name @ 0 # es"
    using between_zero assms(4,5) bs(1) cs by metis
  with same_name ds bs(2) have "name_bytes n = name_bytes name" by metis
  then have "n = name" by simp
  moreover have "pid < 2 ^ 64" "i < 2 ^ 64" "start < 2 ^ 64" using assms(1-3) by (auto simp: key_ok_def)
  ultimately show ?thesis using assms(4,5) column_key_less_iff by (metis linorder_not_less)
qed

lemma takeWhile_sorted:
  assumes "sorted xs" and "\<And>x y. x \<in> set xs \<Longrightarrow> y \<in> set xs \<Longrightarrow> x \<le> y \<Longrightarrow> P y \<Longrightarrow> P x"
  shows "takeWhile P xs = filter P xs"
  using assms
proof (induction xs)
  case (Cons x xs)
  show ?case
  proof (cases "P x")
    case True
    have "takeWhile P xs = filter P xs"
      by (rule Cons.IH) (use Cons.prems in auto)
    with True show ?thesis by simp
  next
    case False
    have "\<not> P y" if "y \<in> set xs" for y
      using Cons.prems(2) [of x y] Cons.prems(1) that False by auto
    then have "filter P xs = []" by (simp add: filter_empty_conv)
    with False show ?thesis by simp
  qed
qed simp

text \<open>The columns of a name in a range of partitions, in the order of the scan.\<close>

definition stored_ids :: "(rstr \<rightharpoonup> 'b) \<Rightarrow> string \<Rightarrow> PartitionID \<Rightarrow> PartitionID \<Rightarrow> PartitionID list" where
  "stored_ids kv name start until =
     filter (\<lambda>pid. column_key pid name \<in> dom kv) [start..<Suc until]"

lemma column_key_inj:
  assumes "i < 2 ^ 64" and "j < 2 ^ 64"
  shows "column_key i n = column_key j m \<longleftrightarrow> i = j \<and> n = m"
  using deserialize_column_key_ok [OF assms(1), of n] deserialize_column_key_ok [OF assms(2), of m]
  by (metis Inr_inject prod.inject)

lemma keys_ok_column_key:
  assumes "keys_ok kv" and "column_key pid name \<in> dom kv" and "pid < 2 ^ 64"
  shows "key_ok pid name"
proof -
  from assms(1,2) obtain i n where i: "column_key pid name = column_key i n" "key_ok i n"
    unfolding keys_ok_def by blast
  then have "i < 2 ^ 64" by (auto simp: key_ok_def)
  with i assms(3) column_key_inj show ?thesis by metis
qed

lemma column_key_le_iff:
  assumes "i < 2 ^ 64" and "j < 2 ^ 64"
  shows "column_key i name \<le> column_key j name \<longleftrightarrow> i \<le> j"
  using column_key_less_iff [OF assms(2,1)] by (metis linorder_not_less)

lemma sorted_column_keys:
  assumes "sorted pids" and "\<forall>pid \<in> set pids. pid < 2 ^ 64"
  shows "sorted (map (\<lambda>pid. column_key pid name) pids)"
  using assms by (induction pids) (auto simp: column_key_le_iff)

lemma distinct_column_keys:
  assumes "distinct pids" and "\<forall>pid \<in> set pids. pid < 2 ^ 64"
  shows "distinct (map (\<lambda>pid. column_key pid name) pids)"
  using assms by (auto simp: distinct_map inj_on_def column_key_inj)

lemma scan_keys:
  assumes ok: "keys_ok kv" and start: "key_ok start name" and until: "until < 2 ^ 64"
  shows "takeWhile (\<lambda>key. \<exists>pid \<le> until. key = column_key pid name \<and> key_ok pid name)
      (filter (\<lambda>key. column_key start name \<le> key) (sorted_list_of_set (dom kv)))
    = map (\<lambda>pid. column_key pid name) (stored_ids kv name start until)"
    (is "takeWhile ?P ?L = _")
proof -
  have fin: "finite (dom kv)" using ok by (simp add: keys_ok_def)
  have keys: "\<exists>pid n. x = column_key pid n \<and> key_ok pid n" if "x \<in> set ?L" for x
    using that fin ok by (auto simp: keys_ok_def)
  have down: "?P x" if xy: "x \<in> set ?L" "y \<in> set ?L" "x \<le> y" "?P y" for x y
  proof -
    obtain pid n where x: "x = column_key pid n" "key_ok pid n" using keys xy(1) by blast
    obtain i where y: "i \<le> until" "y = column_key i name" "key_ok i name" using xy(4) by blast
    have "column_key start name \<le> x" using xy(1) by simp
    then have "n = name \<and> start \<le> pid \<and> pid \<le> i"
      using key_between [OF start x(2) y(3)] x(1) y(2) xy(3) by simp
    with x y(1) show ?thesis by (auto intro: order_trans)
  qed
  have "takeWhile ?P ?L = filter ?P ?L"
    by (rule takeWhile_sorted) (use down in \<open>auto intro: sorted_wrt_filter\<close>)
  also have "\<dots> = map (\<lambda>pid. column_key pid name) (stored_ids kv name start until)"
  proof (rule sorted_distinct_set_unique)
    have small: "\<forall>pid \<in> set (stored_ids kv name start until). pid < 2 ^ 64"
      using until by (auto simp: stored_ids_def)
    have s64: "start < 2 ^ 64" using start by (auto simp: key_ok_def)
    show "sorted (map (\<lambda>pid. column_key pid name) (stored_ids kv name start until))"
      using small by (intro sorted_column_keys) (auto simp: stored_ids_def sorted_wrt_filter simp del: upt_Suc)
    show "distinct (map (\<lambda>pid. column_key pid name) (stored_ids kv name start until))"
      using small by (intro distinct_column_keys) (auto simp: stored_ids_def simp del: upt_Suc)
    show "set (filter ?P ?L) = set (map (\<lambda>pid. column_key pid name) (stored_ids kv name start until))"
    proof (intro equalityI subsetI)
      fix x assume "x \<in> set (filter ?P ?L)"
      then obtain i where i: "i \<le> until" "x = column_key i name" "x \<in> dom kv" "column_key start name \<le> x"
        using fin by auto
      then have "start \<le> i" using column_key_le_iff [of start i name] s64 until by simp
      with i show "x \<in> set (map (\<lambda>pid. column_key pid name) (stored_ids kv name start until))"
        by (auto simp: stored_ids_def simp del: upt_Suc)
    next
      fix x assume "x \<in> set (map (\<lambda>pid. column_key pid name) (stored_ids kv name start until))"
      then obtain i where i: "x = column_key i name" "column_key i name \<in> dom kv" "start \<le> i" "i \<le> until"
        by (auto simp: stored_ids_def less_Suc_eq_le simp del: upt_Suc)
      then have "key_ok i name" using ok until by (intro keys_ok_column_key) auto
      moreover have "column_key start name \<le> x" using i s64 until by (simp add: column_key_le_iff)
      ultimately show "x \<in> set (filter ?P ?L)" using i fin by auto
    qed
  qed (use fin in \<open>auto intro: sorted_wrt_filter\<close>)
  finally show ?thesis .
qed

text \<open>The loop handles the entries up to the first one that is past the range.\<close>

lemma range_loop_takeWhile:
  assumes "\<forall>key \<in> set keys. \<exists>pid n. key = column_key pid n \<and> key_ok pid n"
  shows "range_loop cp restore until name (map (\<lambda>key. (key, the (kv key))) keys) ldb =
    rfoldM (\<lambda>ldb key. rbind (deserialize_column_key key) (\<lambda>(i, _).
        rbind (deserialize_column cp (the (kv key))) (\<lambda>col. restore i col ldb))) ldb
      (takeWhile (\<lambda>key. \<exists>pid \<le> until. key = column_key pid name \<and> key_ok pid name) keys)"
  using assms
proof (induction keys arbitrary: ldb)
  case (Cons key keys)
  then obtain pid n where k: "key = column_key pid n" "key_ok pid n" by auto
  then have p64: "pid < 2 ^ 64" by (auto simp: key_ok_def)
  have d: "deserialize_column_key key = Inr (pid, n)" using deserialize_column_key_ok [OF p64] k by simp
  have iff: "(\<exists>i \<le> until. key = column_key i name \<and> key_ok i name) \<longleftrightarrow> n = name \<and> pid \<le> until"
  proof
    assume "\<exists>i \<le> until. key = column_key i name \<and> key_ok i name"
    then obtain i where i: "i \<le> until" "key = column_key i name" "key_ok i name" by blast
    then have "i < 2 ^ 64" by (auto simp: key_ok_def)
    with column_key_inj [OF p64 this, of n name] i k show "n = name \<and> pid \<le> until" by simp
  qed (use k in auto)
  have IH: "range_loop cp restore until name (map (\<lambda>key. (key, the (kv key))) keys) = (\<lambda>ldb.
    rfoldM (\<lambda>ldb key. rbind (deserialize_column_key key) (\<lambda>(i, _).
        rbind (deserialize_column cp (the (kv key))) (\<lambda>col. restore i col ldb))) ldb
      (takeWhile (\<lambda>key. \<exists>pid \<le> until. key = column_key pid name \<and> key_ok pid name) keys))"
    by (rule ext) (use Cons in simp)
  show ?case
    using d iff IH by (cases "n = name \<and> pid \<le> until"; cases "deserialize_column cp (the (kv key))") auto
qed simp

lemma load_column_range_eq:
  assumes "keys_ok (rd_partitions db)" and "key_ok start name" and "until < 2 ^ 64"
  shows "load_column_range cp restore db start until name ldb =
    rfoldM (\<lambda>ldb pid. rbind (load_column cp db pid name) (\<lambda>col. restore pid col ldb)) ldb
      (stored_ids (rd_partitions db) name start until)"
proof -
  let ?kv = "rd_partitions db"
  let ?keys = "filter (\<lambda>key. column_key start name \<le> key) (sorted_list_of_set (dom ?kv))"
  let ?f = "\<lambda>ldb key. rbind (deserialize_column_key key) (\<lambda>(i, _).
        rbind (deserialize_column cp (the (?kv key))) (\<lambda>col. restore i col ldb))"
  have fm: "filter (\<lambda>(key, value). column_key start name \<le> key) (map (\<lambda>key. (key, the (?kv key))) ks) =
      map (\<lambda>key. (key, the (?kv key))) (filter (\<lambda>key. column_key start name \<le> key) ks)" for ks
    by (induction ks) auto
  have ok: "\<forall>key \<in> set ?keys. \<exists>pid n. key = column_key pid n \<and> key_ok pid n"
    using assms(1) by (auto simp: keys_ok_def)
  have "load_column_range cp restore db start until name ldb =
      rfoldM ?f ldb (map (\<lambda>pid. column_key pid name) (stored_ids ?kv name start until))"
    unfolding load_column_range_def entries_def fm range_loop_takeWhile [OF ok] scan_keys [OF assms] ..
  also have "\<dots> = rfoldM (\<lambda>ldb pid. rbind (load_column cp db pid name) (\<lambda>col. restore pid col ldb)) ldb
      (stored_ids ?kv name start until)"
  proof -
    have "rfoldM ?f s (map (\<lambda>pid. column_key pid name) pids) =
        rfoldM (\<lambda>ldb pid. rbind (load_column cp db pid name) (\<lambda>col. restore pid col ldb)) s pids"
      if "\<forall>pid \<in> set pids. pid < 2 ^ 64 \<and> column_key pid name \<in> dom ?kv" for pids s
      using that
    proof (induction pids arbitrary: s)
      case (Cons pid pids)
      then obtain v where "?kv (column_key pid name) = Some v" by auto
      moreover have "deserialize_column_key (column_key pid name) = Inr (pid, name)"
        using Cons.prems by (intro deserialize_column_key_ok) simp
      moreover have "rfoldM ?f s (map (\<lambda>pid. column_key pid name) pids) =
        rfoldM (\<lambda>ldb pid. rbind (load_column cp db pid name) (\<lambda>col. restore pid col ldb)) s pids" for s
        using Cons by simp
      ultimately show ?case by (simp add: load_column_def)
    qed simp
    then show ?thesis using assms(3) by (auto simp: stored_ids_def simp del: upt_Suc)
  qed
  finally show ?thesis .
qed

section \<open>The interface of a disk store\<close>

text \<open>
  What the rest of the database relies on: a column that was stored is loaded again, and storing a
  partition does not change the columns of others. \<open>ok\<close> is the invariant of the store, \<open>fine\<close> says
  which partitions can be stored.
\<close>

locale disk_store =
  fixes ok :: "'d \<Rightarrow> bool" and fine :: "PartitionID \<Rightarrow> Column list \<Rightarrow> bool"
    and store :: "PartitionID \<Rightarrow> string \<Rightarrow> Column list \<Rightarrow> 'd \<Rightarrow> 'd res"
    and load :: "'d \<Rightarrow> PartitionID \<Rightarrow> string \<Rightarrow> Column res"
  assumes store_ok: "ok d \<Longrightarrow> fine pid cols \<Longrightarrow> \<exists>d'. store pid table cols d = Inr d' \<and> ok d'"
    and load_stored: "ok d \<Longrightarrow> fine pid cols \<Longrightarrow> store pid table cols d = Inr d' \<Longrightarrow> c \<in> set cols \<Longrightarrow>
      load d' pid (col_name c) = Inr c"
    and load_other: "ok d \<Longrightarrow> fine pid cols \<Longrightarrow> store pid table cols d = Inr d' \<Longrightarrow>
      pid' \<noteq> pid \<or> name \<notin> col_name ` set cols \<Longrightarrow> pid' < 2 ^ 64 \<Longrightarrow> load d' pid' name = load d pid' name"
begin

text \<open>A sequence of partitions, each with its table, is stored one after the other.\<close>

definition store_all :: "(PartitionID \<times> string \<times> Column list) list \<Rightarrow> 'd \<Rightarrow> 'd res" where
  "store_all ps d = rfoldM (\<lambda>d (pid, table, cols). store pid table cols d) d ps"

lemma store_all_ok:
  assumes "ok d" and "\<forall>(pid, table, cols) \<in> set ps. fine pid cols"
  shows "\<exists>d'. store_all ps d = Inr d' \<and> ok d'"
  using assms
proof (induction ps arbitrary: d)
  case (Cons p ps)
  obtain pid table cols where p: "p = (pid, table, cols)" by (cases p)
  then obtain d1 where "store pid table cols d = Inr d1" "ok d1" using store_ok Cons.prems by fastforce
  with Cons p show ?case by (simp add: store_all_def)
qed (simp add: store_all_def)

lemma store_all_other:
  assumes "ok d" and "\<forall>(pid, table, cols) \<in> set ps. fine pid cols" and "store_all ps d = Inr d'"
    and "pid' \<notin> fst ` set ps" and "pid' < 2 ^ 64"
  shows "load d' pid' name = load d pid' name"
  using assms
proof (induction ps arbitrary: d)
  case (Cons p ps)
  obtain pid table cols where p: "p = (pid, table, cols)" by (cases p)
  with Cons.prems obtain d1 where d1: "store pid table cols d = Inr d1" "store_all ps d1 = Inr d'"
    by (auto simp: store_all_def)
  have fine: "fine pid cols" using Cons.prems(2) p by simp
  moreover have "ok d1" using store_ok [OF Cons.prems(1) fine, of table] d1(1) by auto
  ultimately show ?case
    using Cons.IH [OF _ _ d1(2)] Cons.prems p load_other [OF Cons.prems(1) _ d1(1)] by simp
qed (simp add: store_all_def)

lemma load_after_store_all:
  assumes "ok d" and "\<forall>(pid, table, cols) \<in> set ps. fine pid cols \<and> pid < 2 ^ 64" and "distinct (map fst ps)"
    and "(pid, table, cols) \<in> set ps" and "c \<in> set cols" and "store_all ps d = Inr d'"
  shows "load d' pid (col_name c) = Inr c"
  using assms
proof (induction ps arbitrary: d)
  case (Cons p ps)
  obtain pid1 table1 cols1 where p: "p = (pid1, table1, cols1)" by (cases p)
  with Cons.prems obtain d1 where d1: "store pid1 table1 cols1 d = Inr d1" "store_all ps d1 = Inr d'"
    by (auto simp: store_all_def)
  have fine: "fine pid1 cols1" using Cons.prems(2) p by simp
  have ok1: "ok d1" using store_ok [OF Cons.prems(1) fine, of table1] d1(1) by auto
  show ?case
  proof (cases "(pid, table, cols) = p")
    case True
    with p load_stored [OF Cons.prems(1) fine d1(1)] Cons.prems(5) have "load d1 pid (col_name c) = Inr c" by simp
    moreover have "pid \<notin> fst ` set ps" using True Cons.prems(3) by force
    ultimately show ?thesis using store_all_other [OF ok1 _ d1(2)] Cons.prems(2) True by fastforce
  next
    case False
    with Cons.IH [OF ok1 _ _ _ _ d1(2)] Cons.prems show ?thesis by simp
  qed
qed simp

end

section \<open>RocksDB is a disk store\<close>

definition rocks_ok :: "'b capnp \<Rightarrow> 'b RocksDB \<Rightarrow> bool" where
  "rocks_ok cp db \<longleftrightarrow> capnp_lossless cp \<and> keys_ok (rd_partitions db)"

definition rocks_fine :: "PartitionID \<Rightarrow> Column list \<Rightarrow> bool" where
  "rocks_fine pid cols \<longleftrightarrow>
     cols \<noteq> [] \<and> length cols < 2 ^ 29 \<and> distinct (map col_name cols) \<and>
     (\<forall>c \<in> set cols. key_ok pid (col_name c) \<and> canonical c \<and> sizes_fit c \<and> storable c)"

lemma column_written:
  assumes "capnp_lossless cp" and "canonical c" and "sizes_fit c" and "storable c"
  obtains bytes where "serialize_column cp c = Inr bytes" and "deserialize_column cp bytes = Inr c"
  using column_message_cases [of c] assms
  by (auto simp: serialize_column_def deserialize_column_def rmap_def canonical_def capnp_lossless_def sizes_fit_def)

lemma keys_ok_update: "keys_ok kv \<Longrightarrow> key_ok pid name \<Longrightarrow> keys_ok (kv(column_key pid name \<mapsto> b))"
  by (auto simp: keys_ok_def)

lemma store_columns_spec:
  assumes "capnp_lossless cp" and "keys_ok kv" and "distinct (map col_name cols)"
    and "\<forall>c \<in> set cols. key_ok pid (col_name c) \<and> canonical c \<and> sizes_fit c \<and> storable c"
  shows "\<exists>kv'. store_columns cp pid cols kv = Inr kv' \<and> keys_ok kv' \<and>
    (\<forall>c \<in> set cols. \<exists>b. kv' (column_key pid (col_name c)) = Some b \<and> deserialize_column cp b = Inr c) \<and>
    (\<forall>key. key \<notin> (\<lambda>c. column_key pid (col_name c)) ` set cols \<longrightarrow> kv' key = kv key)"
  using assms
proof (induction cols arbitrary: kv)
  case (Cons c cols)
  obtain b where b: "serialize_column cp c = Inr b" "deserialize_column cp b = Inr c"
    using column_written [of cp c] Cons.prems by auto
  let ?kv = "kv(column_key pid (col_name c) \<mapsto> b)"
  have k: "keys_ok ?kv" using Cons.prems(2,4) by (intro keys_ok_update) auto
  have d: "distinct (map col_name cols)" using Cons.prems(3) by simp
  have f: "\<forall>c \<in> set cols. key_ok pid (col_name c) \<and> canonical c \<and> sizes_fit c \<and> storable c"
    using Cons.prems(4) by simp
  from Cons.IH [OF Cons.prems(1) k d f] obtain kv' where kv': "store_columns cp pid cols ?kv = Inr kv'" "keys_ok kv'"
      "\<forall>c \<in> set cols. \<exists>b. kv' (column_key pid (col_name c)) = Some b \<and> deserialize_column cp b = Inr c"
      "\<forall>key. key \<notin> (\<lambda>c. column_key pid (col_name c)) ` set cols \<longrightarrow> kv' key = ?kv key"
    by (elim exE conjE)
  have "pid < 2 ^ 64" using Cons.prems(4) by (auto simp: key_ok_def)
  then have "column_key pid (col_name c) \<notin> (\<lambda>c. column_key pid (col_name c)) ` set cols"
    using Cons.prems(3) by (auto simp: column_key_inj)
  with kv'(4) have here: "kv' (column_key pid (col_name c)) = Some b" by simp
  have "store_columns cp pid (c # cols) kv = Inr kv'" using b(1) kv'(1) by (simp add: store_columns_def)
  with kv' here b(2) show ?case by auto
qed (simp add: store_columns_def)

lemma disk_store_partition_spec:
  assumes "rocks_ok cp db" and "rocks_fine pid cols"
  shows "\<exists>db' md. disk_store_partition cp heap pid table cols db = Inr db' \<and> rocks_ok cp db' \<and>
    serialize_meta_data cp heap table cols = Inr md \<and> rd_metadata db' = (rd_metadata db)(be_bytes 8 pid \<mapsto> md) \<and>
    (\<forall>c \<in> set cols. load_column cp db' pid (col_name c) = Inr c) \<and>
    (\<forall>key. key \<notin> (\<lambda>c. column_key pid (col_name c)) ` set cols \<longrightarrow> rd_partitions db' key = rd_partitions db key)"
proof -
  from assms(2) obtain c0 cs where "cols = c0 # cs" by (cases cols) (auto simp: rocks_fine_def)
  then have "\<exists>md. serialize_meta_data cp heap table cols = Inr md"
    using assms(2) by (auto simp: serialize_meta_data_def index_def list_msg_def rocks_fine_def)
  moreover have "\<exists>kv'. store_columns cp pid cols (rd_partitions db) = Inr kv' \<and> keys_ok kv' \<and>
    (\<forall>c \<in> set cols. \<exists>b. kv' (column_key pid (col_name c)) = Some b \<and> deserialize_column cp b = Inr c) \<and>
    (\<forall>key. key \<notin> (\<lambda>c. column_key pid (col_name c)) ` set cols \<longrightarrow> kv' key = rd_partitions db key)"
    by (rule store_columns_spec) (use assms in \<open>auto simp: rocks_ok_def rocks_fine_def\<close>)
  ultimately show ?thesis
    using assms(1) by (fastforce simp: disk_store_partition_def rocks_ok_def load_column_def)
qed

interpretation rocks: disk_store "rocks_ok cp" rocks_fine "disk_store_partition cp heap" "load_column cp" for cp heap
proof
  fix db :: "'a RocksDB" and pid table cols
  assume h: "rocks_ok cp db" "rocks_fine pid cols"
  from disk_store_partition_spec [OF h, of heap table]
  show "\<exists>d'. disk_store_partition cp heap pid table cols db = Inr d' \<and> rocks_ok cp d'" by blast
  fix db'
  assume st: "disk_store_partition cp heap pid table cols db = Inr db'"
  note sp = disk_store_partition_spec [OF h, of heap table]
  show "load_column cp db' pid (col_name c) = Inr c" if "c \<in> set cols" for c
    using sp st that by fastforce
  show "load_column cp db' pid' name = load_column cp db pid' name"
    if other: "pid' \<noteq> pid \<or> name \<notin> col_name ` set cols" "pid' < 2 ^ 64" for pid' name
  proof -
    have "pid < 2 ^ 64" using h(2) by (cases cols) (auto simp: rocks_fine_def key_ok_def)
    then have "column_key pid' name \<notin> (\<lambda>c. column_key pid (col_name c)) ` set cols"
      using other by (auto simp: column_key_inj)
    then show ?thesis using sp st by (auto simp: load_column_def)
  qed
qed

section \<open>Metadata\<close>

definition metadata_of :: "(Column \<Rightarrow> nat) \<Rightarrow> PartitionID \<Rightarrow> string \<Rightarrow> Column list \<Rightarrow> PartitionMetadata" where
  "metadata_of heap pid table cols =
     \<lparr>pm_id = pid, pm_tablename = table, pm_len = col_len (hd cols),
      pm_columns = map (\<lambda>c. \<lparr>cm_name = col_name c, cm_size_bytes = heap c\<rparr>) cols\<rparr>"

lemma meta_data_roundtrip:
  assumes "capnp_lossless cp" and "serialize_meta_data cp heap table cols = Inr md"
    and "\<forall>c \<in> set cols. heap c < 2 ^ 64 \<and> col_len c < 2 ^ 64"
  shows "deserialize_meta_data cp md pid = Inr (metadata_of heap pid table cols)"
  using assms
  by (cases cols) (auto simp: serialize_meta_data_def deserialize_meta_data_def metadata_of_def index_def
      list_msg_def capnp_lossless_def split: if_splits)

lemma be_bytes_8_value [simp]: "pid < 2 ^ 64 \<Longrightarrow> be_value (be_bytes 8 pid) = pid"
  by (intro be_value_be_bytes) simp

lemma be_bytes_8_inj: "i < 2 ^ 64 \<Longrightarrow> j < 2 ^ 64 \<Longrightarrow> be_bytes 8 i = be_bytes 8 j \<longleftrightarrow> i = j"
  by (metis be_bytes_8_value)

lemma sorted_id_keys:
  assumes "finite ids" and "\<forall>i \<in> ids. i < 2 ^ 64"
  shows "sorted_list_of_set (be_bytes 8 ` ids) = map (be_bytes 8) (sorted_list_of_set ids)"
proof (rule sorted_distinct_set_unique)
  have le: "be_bytes 8 i \<le> be_bytes 8 j \<longleftrightarrow> i \<le> j" if "i < 2 ^ 64" "j < 2 ^ 64" for i j
  proof -
    have "be_bytes 8 j < be_bytes 8 i \<longleftrightarrow> j < i" by (rule be_bytes_less_iff) (use that in simp_all)
    then show ?thesis by (metis linorder_not_less)
  qed
  have "sorted (map (be_bytes 8) is)" if "sorted is" "\<forall>i \<in> set is. i < 2 ^ 64" for "is"
    using that by (induction "is") (auto simp: le)
  then show "sorted (map (be_bytes 8) (sorted_list_of_set ids))" using assms by simp
  show "distinct (map (be_bytes 8) (sorted_list_of_set ids))"
    using assms by (auto simp: distinct_map inj_on_def be_bytes_8_inj)
qed (use assms in auto)

text \<open>The metadata family after a sequence of partitions was stored.\<close>

abbreviation store_partitions where
  "store_partitions cp heap ps db \<equiv> rfoldM (\<lambda>d (pid, table, cols). disk_store_partition cp heap pid table cols d) db ps"

lemma stored_metadata:
  assumes "capnp_lossless cp" and "rocks_ok cp db"
    and "\<forall>(pid, table, cols) \<in> set ps. rocks_fine pid cols \<and> (\<forall>c \<in> set cols. heap c < 2 ^ 64)"
    and "distinct (map fst ps)" and "store_partitions cp heap ps db = Inr db'"
  shows "dom (rd_metadata db') = dom (rd_metadata db) \<union> be_bytes 8 ` fst ` set ps \<and>
    (\<forall>(pid, table, cols) \<in> set ps. \<exists>md. rd_metadata db' (be_bytes 8 pid) = Some md \<and>
       deserialize_meta_data cp md pid = Inr (metadata_of heap pid table cols)) \<and>
    (\<forall>key. key \<notin> be_bytes 8 ` fst ` set ps \<longrightarrow> rd_metadata db' key = rd_metadata db key)"
  using assms
proof (induction ps arbitrary: db)
  case (Cons p ps)
  obtain pid table cols where p: "p = (pid, table, cols)" by (cases p)
  have fine: "rocks_fine pid cols" using Cons.prems(3) p by simp
  obtain db1 md where db1: "disk_store_partition cp heap pid table cols db = Inr db1" "rocks_ok cp db1"
    "serialize_meta_data cp heap table cols = Inr md" "rd_metadata db1 = (rd_metadata db)(be_bytes 8 pid \<mapsto> md)"
    using disk_store_partition_spec [OF Cons.prems(2) fine, of heap table] by blast
  have "\<forall>c \<in> set cols. heap c < 2 ^ 64 \<and> col_len c < 2 ^ 64"
    using Cons.prems(3) p fine by (auto simp: rocks_fine_def sizes_fit_def)
  note md = meta_data_roundtrip [OF Cons.prems(1) db1(3) this, of pid]
  have rest: "store_partitions cp heap ps db1 = Inr db'" using Cons.prems(5) p db1(1) by simp
  have small: "i < 2 ^ 64" if i: "i \<in> fst ` set (p # ps)" for i
  proof -
    obtain q where q: "q \<in> set (p # ps)" "i = fst q" using i by blast
    obtain t cs where "q = (i, t, cs)" using q(2) by (metis prod.collapse)
    then have "rocks_fine i cs" using Cons.prems(3) q(1) by blast
    then show ?thesis by (cases cs) (auto simp: rocks_fine_def key_ok_def)
  qed
  have new: "be_bytes 8 pid \<notin> be_bytes 8 ` fst ` set ps"
  proof
    assume "be_bytes 8 pid \<in> be_bytes 8 ` fst ` set ps"
    then obtain i where "i \<in> fst ` set ps" "be_bytes 8 pid = be_bytes 8 i" by blast
    then show False using be_bytes_8_inj [of pid i] small Cons.prems(4) p by auto
  qed
  have IH: "dom (rd_metadata db') = dom (rd_metadata db1) \<union> be_bytes 8 ` fst ` set ps \<and>
    (\<forall>(pid, table, cols) \<in> set ps. \<exists>md. rd_metadata db' (be_bytes 8 pid) = Some md \<and>
       deserialize_meta_data cp md pid = Inr (metadata_of heap pid table cols)) \<and>
    (\<forall>key. key \<notin> be_bytes 8 ` fst ` set ps \<longrightarrow> rd_metadata db' key = rd_metadata db1 key)"
    by (rule Cons.IH [OF Cons.prems(1) db1(2) _ _ rest]) (use Cons.prems in auto)
  then have "rd_metadata db' (be_bytes 8 pid) = Some md" using new db1(4) by simp
  with IH md db1(4) p show ?case by auto
qed simp

lemma load_metadata_spec:
  assumes "dom (rd_metadata db) = be_bytes 8 ` ids" and "finite ids" and "\<forall>i \<in> ids. i < 2 ^ 64"
    and "\<forall>i \<in> ids. \<exists>md. rd_metadata db (be_bytes 8 i) = Some md \<and> deserialize_meta_data cp md i = Inr (f i)"
  shows "load_metadata cp db = Inr (map f (sorted_list_of_set ids))"
proof -
  have step: "rmapM (\<lambda>(key, value). rbind (read_u64 key) (\<lambda>i. deserialize_meta_data cp value i))
      (map (\<lambda>key. (key, the (rd_metadata db key))) (map (be_bytes 8) is)) = Inr (map f is)"
    if "set is \<subseteq> ids" for "is"
    using that assms(3,4) by (induction "is") (auto simp: read_u64_def)
  show ?thesis
    unfolding load_metadata_def entries_def assms(1) sorted_id_keys [OF assms(2,3)]
    by (rule step) (use assms(2) in simp)
qed

section \<open>Main results\<close>

text \<open>A column stored in two partitions.\<close>

definition two_partitions :: "(PartitionID \<times> string \<times> Column list) list" where
  "two_partitions = [(2, ''t'', [delta_column]), (1, ''t'', [delta_column])]"

lemma two_partitions_fine:
  "\<forall>(pid, table, cols) \<in> set two_partitions. rocks_fine pid cols \<and> (\<forall>c \<in> set cols. 3 < (2 :: nat) ^ 64)"
  using delta_column_storable
  by (auto simp: two_partitions_def rocks_fine_def key_ok_def delta_column_def)

text \<open>
  C25. What was stored is there after a restart. Storing any sequence of partitions with different ids
  in an empty database succeeds when their columns can be written. Afterwards every column of every
  partition is loaded as it was, and loading the metadata gives for each partition, in the
  order of the ids, its table, length, and the names and sizes of its columns.
\<close>

theorem stored_partitions_loaded:
  assumes "capnp_lossless cp" and "distinct (map fst ps)"
    and "\<forall>(pid, table, cols) \<in> set ps. rocks_fine pid cols \<and> (\<forall>c \<in> set cols. heap c < 2 ^ 64)"
  shows "\<exists>db. store_partitions cp heap ps rocksdb_empty = Inr db \<and>
    (\<forall>(pid, table, cols) \<in> set ps. \<forall>c \<in> set cols. load_column cp db pid (col_name c) = Inr c) \<and>
    load_metadata cp db = Inr (map (\<lambda>i. case the (map_of ps i) of (table, cols) \<Rightarrow> metadata_of heap i table cols)
      (sorted_list_of_set (fst ` set ps)))"
proof -
  have ok: "rocks_ok cp rocksdb_empty" using assms(1) by (simp add: rocks_ok_def keys_ok_def rocksdb_empty_def)
  have fine: "\<forall>(pid, table, cols) \<in> set ps. rocks_fine pid cols" using assms(3) by blast
  have fine64: "\<forall>(pid, table, cols) \<in> set ps. rocks_fine pid cols \<and> pid < 2 ^ 64"
  proof (clarify, rule conjI)
    fix pid table cols assume "(pid, table, cols) \<in> set ps"
    then show "rocks_fine pid cols" using fine by blast
    then show "pid < 2 ^ 64" by (cases cols) (auto simp: rocks_fine_def key_ok_def)
  qed
  obtain db where db: "store_partitions cp heap ps rocksdb_empty = Inr db"
    using rocks.store_all_ok [OF ok fine, of heap] unfolding rocks.store_all_def by blast
  have cols: "\<forall>(pid, table, cols) \<in> set ps. \<forall>c \<in> set cols. load_column cp db pid (col_name c) = Inr c"
    using rocks.load_after_store_all [OF ok fine64 assms(2)] db unfolding rocks.store_all_def by blast
  note md = stored_metadata [OF assms(1) ok assms(3,2) db]
  have "load_metadata cp db = Inr (map (\<lambda>i. case the (map_of ps i) of (table, cols) \<Rightarrow> metadata_of heap i table cols)
      (sorted_list_of_set (fst ` set ps)))"
  proof (rule load_metadata_spec)
    show "dom (rd_metadata db) = be_bytes 8 ` fst ` set ps" using md by (simp add: rocksdb_empty_def)
    show "\<forall>i \<in> fst ` set ps. i < 2 ^ 64" using fine64 by fastforce
    show "\<forall>i \<in> fst ` set ps. \<exists>md. rd_metadata db (be_bytes 8 i) = Some md \<and>
      deserialize_meta_data cp md i = Inr (case the (map_of ps i) of (table, cols) \<Rightarrow> metadata_of heap i table cols)"
    proof
      fix i assume "i \<in> fst ` set ps"
      then obtain table cols where t: "(i, table, cols) \<in> set ps" by auto
      then have "map_of ps i = Some (table, cols)" using assms(2) by simp
      with t md show "\<exists>md. rd_metadata db (be_bytes 8 i) = Some md \<and>
        deserialize_meta_data cp md i = Inr (case the (map_of ps i) of (table, cols) \<Rightarrow> metadata_of heap i table cols)"
        by fastforce
    qed
  qed simp
  with db cols show ?thesis by blast
qed

theorem stored_partitions_loaded_witness:
  "\<exists>db. store_partitions plain_capnp (\<lambda>_. 3) two_partitions rocksdb_empty = Inr db \<and>
    load_column plain_capnp db 2 ''d'' = Inr delta_column \<and>
    rmap (map pm_id) (load_metadata plain_capnp db) = Inr [1, 2]"
proof -
  have "distinct (map fst two_partitions)" by (simp add: two_partitions_def)
  from stored_partitions_loaded [OF plain_capnp_lossless this two_partitions_fine] show ?thesis
    by (auto simp: two_partitions_def delta_column_def metadata_of_def rmap_def)
qed

text \<open>
  C28. A range scan loads the range. Scanning from the key of a column in partition \<open>start\<close> hands exactly
  the columns of that name with ids from \<open>start\<close> to \<open>until\<close> that are stored to the database, in the order
  of their ids, as loading them one by one would. It relies on names without zero bytes and ids
  below \<open>2 ^ 56\<close>, so that no key of another name lies between those of one name.
\<close>

theorem load_column_range_correct:
  assumes "keys_ok (rd_partitions db)" and "key_ok start name" and "until < 2 ^ 64"
  shows "load_column_range cp restore db start until name ldb =
    rfoldM (\<lambda>ldb pid. rbind (load_column cp db pid name) (\<lambda>col. restore pid col ldb)) ldb
      (stored_ids (rd_partitions db) name start until)"
  using assms by (rule load_column_range_eq)

theorem load_column_range_correct_witness:
  "\<exists>db. store_partitions plain_capnp (\<lambda>_. 3) two_partitions rocksdb_empty = Inr db \<and>
    load_column_range plain_capnp (\<lambda>pid col loaded. Inr (loaded @ [(pid, col)])) db 1 2 ''d'' [] =
      Inr [(1, delta_column), (2, delta_column)]"
proof -
  have ok: "rocks_ok plain_capnp (rocksdb_empty :: (column_msg + meta_data_msg) RocksDB)"
    by (simp add: rocks_ok_def keys_ok_def rocksdb_empty_def)
  have fine: "\<forall>(pid, table, cols) \<in> set two_partitions. rocks_fine pid cols \<and> pid < 2 ^ 64"
    using two_partitions_fine by (auto simp: two_partitions_def)
  obtain db where db: "rocks.store_all plain_capnp (\<lambda>_. 3) two_partitions rocksdb_empty = Inr db" "rocks_ok plain_capnp db"
    using rocks.store_all_ok [OF ok, of two_partitions "\<lambda>_. 3"] fine by blast
  have d: "distinct (map fst two_partitions)" by (simp add: two_partitions_def)
  have load: "load_column plain_capnp db pid ''d'' = Inr delta_column" if "pid \<in> {1, 2}" for pid
    using rocks.load_after_store_all [OF ok fine d _ _ db(1), of pid "''t''" "[delta_column]" delta_column] that
    by (auto simp: two_partitions_def delta_column_def)
  have "column_key pid ''d'' \<in> dom (rd_partitions db)" if "pid \<in> {1, 2}" for pid
    using load [OF that] by (cases "rd_partitions db (column_key pid ''d'')") (auto simp: load_column_def)
  then have ids: "stored_ids (rd_partitions db) ''d'' 1 2 = [1, 2]"
    by (simp add: stored_ids_def numeral_2_eq_2 del: dom_fun_upd)
  have "keys_ok (rd_partitions db)" using db(2) by (simp add: rocks_ok_def)
  from load_column_range_correct [OF this, of 1 "''d''" 2 plain_capnp "\<lambda>pid col loaded. Inr (loaded @ [(pid, col)])" "[]"] have
    "load_column_range plain_capnp (\<lambda>pid col loaded. Inr (loaded @ [(pid, col)])) db 1 2 ''d'' [] =
      Inr [(1, delta_column), (2, delta_column)]"
    using ids [simplified] load [of 1] load [of 2] by (simp add: key_ok_def)
  with db(1) show ?thesis unfolding rocks.store_all_def by blast
qed

end
