(* ===== verification/Disk_Reads.thy ===== *)
theory Disk_Reads
  imports Disk_Store
begin

text \<open>
  Scheduling reads from disk, src/src/scheduler/disk_read_scheduler.rs: which columns of which
  partitions are read together (\<open>schedule_sequential_read\<close>, \<open>schedule_bulk_load\<close>), the thread that
  works off the queue of runs (\<open>service_reads\<close>), and how a query gets one column
  (\<open>get_or_load\<close>).

  The partitions of a snapshot are shared objects whose flags are changed in place; here the changed
  partitions are returned. A \<open>HashSet\<close> of column names is a set, and the order in which a set or a
  map is iterated is a parameter. Log output and the semaphore that limits the number of readers are
  left out.

  The main results: the runs of a sequential read cover every column that a query needs and that is
  not in memory, and exactly those are promised (\<open>sequential_read_correct\<close>); a bulk load covers
  every column (\<open>bulk_load_covers\<close>).
\<close>

section \<open>Runs\<close>

record DiskRun =
  run_start :: PartitionID
  run_end :: PartitionID
  run_columns :: "string set"
  run_bytes :: nat

definition disk_run_default :: DiskRun where
  "disk_run_default = \<lparr>run_start = 0, run_end = 0, run_columns = {}, run_bytes = 0\<rparr>"

section \<open>Sequential reads for a query\<close>

record seq_state =
  sq_queue :: "DiskRun list"
  sq_run :: DiskRun
  sq_previous :: PartitionID
  sq_done :: "Partition list"

definition seq_step :: "string set \<Rightarrow> nat \<Rightarrow> seq_state \<Rightarrow> Partition \<Rightarrow> seq_state" where
  "seq_step columns readahead s p =
     (let run = sq_run s in
      if run_bytes run > readahead \<or> \<not> nonresidents_match p (run_columns run) columns
      then let queue = (if run_columns run \<noteq> {} then sq_queue s @ [run\<lparr>run_end := sq_previous s\<rparr>] else sq_queue s);
               cols = non_residents p columns;
               (p', bytes) = promise_load p cols
           in \<lparr>sq_queue = queue,
               sq_run = \<lparr>run_start = p_id p, run_end = 0, run_columns = cols, run_bytes = bytes\<rparr>,
               sq_previous = p_id p, sq_done = sq_done s @ [p']\<rparr>
      else let (p', bytes) = promise_load p (run_columns run)
           in s\<lparr>sq_run := run\<lparr>run_bytes := run_bytes run + bytes\<rparr>,
                sq_previous := p_id p, sq_done := sq_done s @ [p']\<rparr>)"

text \<open>The queue and the partitions of the snapshot, sorted by their ids, with the promises made.\<close>

definition schedule_sequential_read ::
    "DiskRun list \<Rightarrow> Partition list \<Rightarrow> string set \<Rightarrow> nat \<Rightarrow> DiskRun list \<times> Partition list" where
  "schedule_sequential_read task_queue snapshot columns readahead =
     (let s = foldl (seq_step columns readahead)
                \<lparr>sq_queue = task_queue, sq_run = disk_run_default, sq_previous = 0, sq_done = []\<rparr>
                (sort_key p_id snapshot)
      in (sq_queue s @ [(sq_run s)\<lparr>run_end := sq_previous s\<rparr>], sq_done s))"

section \<open>Bulk loads\<close>

definition bulk_step ::
    "nat \<Rightarrow> PartitionID \<Rightarrow> (DiskRun list \<times> (string \<rightharpoonup> DiskRun) \<times> Partition) \<Rightarrow> string \<Rightarrow>
     DiskRun list \<times> (string \<rightharpoonup> DiskRun) \<times> Partition" where
  "bulk_step chunk_size pid = (\<lambda>(task_queue, runs, p) col.
     let run = (case runs col of
                  Some run \<Rightarrow> run
                | None \<Rightarrow> \<lparr>run_start = pid, run_end = pid, run_columns = {col}, run_bytes = 0\<rparr>);
         (p', bytes) = promise_load p (run_columns run);
         run' = run\<lparr>run_bytes := run_bytes run + bytes, run_end := pid\<rparr>
     in if run_bytes run' > chunk_size
        then (task_queue @ [run'], runs(col := None), p')
        else (task_queue, runs(col \<mapsto> run'), p'))"

definition bulk_partition ::
    "nat \<Rightarrow> (DiskRun list \<times> (string \<rightharpoonup> DiskRun) \<times> Partition list) \<Rightarrow> Partition \<Rightarrow>
     DiskRun list \<times> (string \<rightharpoonup> DiskRun) \<times> Partition list" where
  "bulk_partition chunk_size = (\<lambda>(task_queue, runs, ps) p.
     let (task_queue', runs', p') = foldl (bulk_step chunk_size (p_id p)) (task_queue, runs, p) (col_names p)
     in (task_queue', runs', ps @ [p']))"

definition schedule_bulk_load ::
    "((string \<rightharpoonup> DiskRun) \<Rightarrow> string list) \<Rightarrow> DiskRun list \<Rightarrow> Partition list \<Rightarrow> nat \<Rightarrow> DiskRun list \<times> Partition list" where
  "schedule_bulk_load order task_queue snapshot chunk_size =
     (let (queue, runs, ps) = foldl (bulk_partition chunk_size) (task_queue, Map.empty, []) (sort_key p_id snapshot)
      in (queue @ map (\<lambda>col. the (runs col)) (order runs), ps))"

section \<open>Servicing reads\<close>

definition service_sequential_read ::
    "'b capnp \<Rightarrow> (string set \<Rightarrow> string list) \<Rightarrow> (PartitionID \<Rightarrow> Column \<Rightarrow> 's \<Rightarrow> 's res) \<Rightarrow> 'b RocksDB \<Rightarrow> DiskRun \<Rightarrow> 's \<Rightarrow> 's res" where
  "service_sequential_read cp order restore db run ldb =
     rfoldM (\<lambda>ldb col. load_column_range cp restore db (run_start run) (run_end run) col ldb)
       ldb (order (run_columns run))"

text \<open>
  The loop of \<open>service_reads\<close>: \<open>background_load_in_progress\<close> is set for as long as the queue is not
  empty. The result is the database and the flag, when the thread returns.
\<close>

fun service_reads ::
    "'b capnp \<Rightarrow> (string set \<Rightarrow> string list) \<Rightarrow> (PartitionID \<Rightarrow> Column \<Rightarrow> 's \<Rightarrow> 's res) \<Rightarrow> 'b RocksDB \<Rightarrow>
     DiskRun list \<Rightarrow> 's \<Rightarrow> ('s \<times> bool) res" where
  "service_reads cp order restore db [] ldb = Inr (ldb, False)"
| "service_reads cp order restore db (read # task_queue) ldb =
     rbind (service_sequential_read cp order restore db read ldb)
       (service_reads cp order restore db task_queue)"

section \<open>Getting a column\<close>

text \<open>
  One round of the loop of \<open>get_or_load\<close>. \<open>Again\<close> stands for another round: the column was evicted
  after its flag was read, or a background load has promised it. \<open>unique\<close> says whether the query is
  the only owner of the column in memory (\<open>Arc::get_mut\<close>).
\<close>

datatype 'l got = Got Column ColumnHandle 'l | Again

definition decode_in_memory ::
    "env \<Rightarrow> bool \<Rightarrow> bool \<Rightarrow> Column \<Rightarrow> ColumnHandle \<Rightarrow> (Column \<times> ColumnHandle) res" where
  "decode_in_memory e decode_lz4 unique column handle =
     (if enable_lz4 (e_ext e) \<and> decode_lz4
      then rmap (\<lambda>c. (c, handle\<lparr>h_size_bytes := e_heap e c\<rparr>))
             (if unique then column_lz4_decode (e_ext e) column else Inr column)
      else Inr (column, handle))"

definition get_or_load ::
    "'b capnp \<Rightarrow> env \<Rightarrow> 'l lru_ops \<Rightarrow> 'b RocksDB \<Rightarrow> bool \<Rightarrow> bool \<Rightarrow> ColumnHandle \<Rightarrow> 'l \<Rightarrow> 'l got res" where
  "get_or_load cp e ops db decode_lz4 unique handle lru =
     (if h_resident handle
      then (case h_col handle of
              Some column \<Rightarrow>
                rmap (\<lambda>(c, h). Got c (h\<lparr>h_col := Some c\<rparr>) (lru_touch ops (h_key handle) lru))
                  (decode_in_memory e decode_lz4 unique column handle)
            | None \<Rightarrow> Inr Again)
      else if h_load_scheduled handle then Inr Again
      else rbind (load_column cp db (fst (h_key handle)) (handle_name handle)) (\<lambda>column.
             rmap (\<lambda>(c, h). Got c (h\<lparr>h_col := Some c, h_resident := True\<rparr>) (lru_put ops (h_key handle) lru))
               (decode_in_memory e decode_lz4 True column handle)))"

section \<open>Sequential reads cover what is missing\<close>

text \<open>Promising exactly the columns that are eligible and not in memory.\<close>

definition promised :: "string set \<Rightarrow> Partition \<Rightarrow> Partition" where
  "promised columns p =
     p\<lparr>p_cols := map (\<lambda>h. if \<not> h_resident h \<and> handle_name h \<in> columns then h\<lparr>h_load_scheduled := True\<rparr> else h) (p_cols p)\<rparr>"

definition run_covers :: "DiskRun \<Rightarrow> PartitionID \<Rightarrow> string \<Rightarrow> bool" where
  "run_covers r pid name \<longleftrightarrow> run_start r \<le> pid \<and> pid \<le> run_end r \<and> name \<in> run_columns r"

text \<open>No column of a partition appears both in memory and on disk.\<close>

definition names_distinct :: "Partition \<Rightarrow> bool" where
  "names_distinct p \<longleftrightarrow> distinct (col_names p)"

lemma promise_load_match:
  assumes "nonresidents_match p cols columns" and "cols \<subseteq> columns"
  shows "fst (promise_load p cols) = promised columns p"
proof -
  have "handle_name h \<in> cols \<longleftrightarrow> \<not> h_resident h \<and> handle_name h \<in> columns" if h: "h \<in> set (p_cols p)" for h
  proof (cases "h_resident h")
    case True
    then show ?thesis using assms(1) h by (auto simp: nonresidents_match_def)
  next
    case False
    then show ?thesis using assms h by (auto simp: nonresidents_match_def)
  qed
  then show ?thesis by (auto simp: promise_load_def promised_def)
qed

lemma handle_name_unique:
  assumes "names_distinct p" and "h \<in> set (p_cols p)" and "h' \<in> set (p_cols p)" and "handle_name h = handle_name h'"
  shows "h = h'"
  using assms by (auto simp: names_distinct_def col_names_def distinct_map inj_on_def)

lemma promise_load_fresh:
  assumes "names_distinct p"
  shows "fst (promise_load p (non_residents p columns)) = promised columns p"
proof -
  have "handle_name h \<in> non_residents p columns \<longleftrightarrow> \<not> h_resident h \<and> handle_name h \<in> columns"
    if "h \<in> set (p_cols p)" for h
    using handle_name_unique [OF assms that] that by (auto simp: non_residents_def)
  then show ?thesis by (auto simp: promise_load_def promised_def)
qed

text \<open>
  The invariant of the loop after the partitions \<open>ps\<close>: what they miss is covered by a run that was
  queued or by the current one, once it ends at the previous partition.
\<close>

definition missing :: "string set \<Rightarrow> Partition \<Rightarrow> string \<Rightarrow> bool" where
  "missing columns p name \<longleftrightarrow> name \<in> columns \<and> (\<exists>h \<in> set (p_cols p). \<not> h_resident h \<and> handle_name h = name)"

text \<open>A run that reads something starts at a partition that misses a column, and ends at a partition.\<close>

definition run_from :: "string set \<Rightarrow> Partition list \<Rightarrow> DiskRun \<Rightarrow> bool" where
  "run_from columns ps r \<longleftrightarrow> run_columns r \<subseteq> columns \<and>
     (run_columns r \<noteq> {} \<longrightarrow> (\<exists>p \<in> set ps. \<exists>name. p_id p = run_start r \<and> missing columns p name)) \<and>
     run_end r \<in> insert 0 (p_id ` set ps)"

lemma run_from_mono: "run_from columns ps r \<Longrightarrow> run_from columns (ps @ qs) r"
  by (auto simp: run_from_def)

lemma run_from_set: "set ps = set qs \<Longrightarrow> run_from columns ps r \<longleftrightarrow> run_from columns qs r"
  by (simp add: run_from_def)

definition seq_inv :: "DiskRun list \<Rightarrow> string set \<Rightarrow> Partition list \<Rightarrow> seq_state \<Rightarrow> bool" where
  "seq_inv queue columns ps s \<longleftrightarrow>
     sq_done s = map (promised columns) ps \<and>
     (\<forall>p \<in> set ps. p_id p \<le> sq_previous s) \<and>
     run_from columns ps ((sq_run s)\<lparr>run_end := sq_previous s\<rparr>) \<and>
     (\<exists>new. sq_queue s = queue @ new \<and> (\<forall>r \<in> set new. run_from columns ps r) \<and>
        (\<forall>p \<in> set ps. \<forall>name. missing columns p name \<longrightarrow>
           (\<exists>r \<in> set (new @ [(sq_run s)\<lparr>run_end := sq_previous s\<rparr>]). run_covers r (p_id p) name)))"

lemma run_covers_extend:
  "run_covers (r\<lparr>run_end := a\<rparr>) pid name \<Longrightarrow> a \<le> b \<Longrightarrow> run_covers (r\<lparr>run_bytes := n, run_end := b\<rparr>) pid name"
  by (auto simp: run_covers_def)

lemma missing_match:
  "nonresidents_match p cols columns \<Longrightarrow> missing columns p name \<Longrightarrow> name \<in> cols"
  by (fastforce simp: nonresidents_match_def missing_def)

lemma missing_non_residents: "missing columns p name \<longleftrightarrow> name \<in> non_residents p columns"
  by (auto simp: missing_def non_residents_def)

lemma seq_step_new_run:
  assumes inv: "seq_inv queue columns ps s" and nd: "names_distinct p" and le: "sq_previous s \<le> p_id p"
    and new: "run_bytes (sq_run s) > readahead \<or> \<not> nonresidents_match p (run_columns (sq_run s)) columns"
  shows "seq_inv queue columns (ps @ [p]) (seq_step columns readahead s p)"
proof -
  let ?run = "(sq_run s)\<lparr>run_end := sq_previous s\<rparr>"
  from inv obtain n where n: "sq_queue s = queue @ n" "\<forall>r \<in> set n. run_from columns ps r"
    "\<forall>p \<in> set ps. \<forall>name. missing columns p name \<longrightarrow> (\<exists>r \<in> set (n @ [?run]). run_covers r (p_id p) name)"
    by (auto simp: seq_inv_def)
  define n' where "n' = (if run_columns (sq_run s) \<noteq> {} then n @ [?run] else n)"
  obtain bytes where bytes: "promise_load p (non_residents p columns) = (promised columns p, bytes)"
    using promise_load_fresh [OF nd, of columns] by (metis prod.collapse)
  have step: "seq_step columns readahead s p = \<lparr>sq_queue = queue @ n',
      sq_run = \<lparr>run_start = p_id p, run_end = 0, run_columns = non_residents p columns, run_bytes = bytes\<rparr>,
      sq_previous = p_id p, sq_done = sq_done s @ [promised columns p]\<rparr>"
    using new bytes n(1) by (simp add: seq_step_def Let_def n'_def)
  have old: "\<exists>r \<in> set n'. run_covers r (p_id q) name" if "q \<in> set ps" "missing columns q name" for q name
    using n(3) that by (auto simp: n'_def run_covers_def)
  let ?r = "\<lparr>run_start = p_id p, run_end = p_id p, run_columns = non_residents p columns, run_bytes = bytes\<rparr>"
  have "run_covers ?r (p_id p) name" if "missing columns p name" for name
    using that by (simp add: run_covers_def missing_non_residents)
  moreover have "\<forall>r \<in> set n'. run_from columns (ps @ [p]) r"
    using inv n(2) run_from_mono by (auto simp: n'_def seq_inv_def)
  moreover have "run_from columns (ps @ [p]) ?r"
    using missing_non_residents [of columns p] by (auto simp: run_from_def missing_def)
  ultimately show ?thesis using inv old le unfolding seq_inv_def step by (force intro: order_trans)
qed

lemma seq_step_same_run:
  assumes inv: "seq_inv queue columns ps s" and le: "sq_previous s \<le> p_id p" and st: "run_start (sq_run s) \<le> sq_previous s"
    and same: "\<not> (run_bytes (sq_run s) > readahead \<or> \<not> nonresidents_match p (run_columns (sq_run s)) columns)"
  shows "seq_inv queue columns (ps @ [p]) (seq_step columns readahead s p)"
proof -
  let ?run = "(sq_run s)\<lparr>run_end := sq_previous s\<rparr>"
  from inv obtain n where n: "sq_queue s = queue @ n" "\<forall>r \<in> set n. run_from columns ps r"
    "\<forall>p \<in> set ps. \<forall>name. missing columns p name \<longrightarrow> (\<exists>r \<in> set (n @ [?run]). run_covers r (p_id p) name)"
    by (auto simp: seq_inv_def)
  have cur: "run_from columns ps ?run" using inv by (simp add: seq_inv_def)
  then have sub: "run_columns (sq_run s) \<subseteq> columns" by (simp add: run_from_def)
  obtain bytes where bytes: "promise_load p (run_columns (sq_run s)) = (promised columns p, bytes)"
    using promise_load_match [of p "run_columns (sq_run s)" columns] same sub by (metis prod.collapse)
  let ?run' = "(sq_run s)\<lparr>run_bytes := run_bytes (sq_run s) + bytes, run_end := p_id p\<rparr>"
  have step: "seq_step columns readahead s p = s\<lparr>sq_run := (sq_run s)\<lparr>run_bytes := run_bytes (sq_run s) + bytes\<rparr>,
      sq_previous := p_id p, sq_done := sq_done s @ [promised columns p]\<rparr>"
    using same bytes by (simp add: seq_step_def Let_def)
  have old: "\<exists>r \<in> set (n @ [?run']). run_covers r (p_id q) name" if "q \<in> set ps" "missing columns q name" for q name
    using n(3) that run_covers_extend [OF _ le, of "sq_run s" "p_id q" name] by fastforce
  have "run_covers ?run' (p_id p) name" if "missing columns p name" for name
    using that missing_match [OF _ that] same st le by (auto simp: run_covers_def)
  moreover have "run_from columns (ps @ [p]) ?run'" using cur by (auto simp: run_from_def)
  moreover have "\<forall>r \<in> set n. run_from columns (ps @ [p]) r" using n(2) run_from_mono by auto
  ultimately show ?thesis using inv old le n(1) unfolding seq_inv_def step by (force intro: order_trans)
qed

lemma seq_step_start: "run_start (sq_run s) \<le> sq_previous s \<Longrightarrow> sq_previous s \<le> p_id p \<Longrightarrow>
    run_start (sq_run (seq_step columns readahead s p)) \<le> sq_previous (seq_step columns readahead s p) \<and>
    sq_previous (seq_step columns readahead s p) = p_id p"
  by (auto simp: seq_step_def Let_def case_prod_beta)

lemma seq_fold_inv:
  assumes "seq_inv queue columns ps s" and "run_start (sq_run s) \<le> sq_previous s"
    and "sorted (map p_id qs)" and "\<forall>q \<in> set qs. sq_previous s \<le> p_id q \<and> names_distinct q"
  shows "seq_inv queue columns (ps @ qs) (foldl (seq_step columns readahead) s qs)"
  using assms
proof (induction qs arbitrary: ps s)
  case (Cons q qs)
  let ?s = "seq_step columns readahead s q"
  have "seq_inv queue columns (ps @ [q]) ?s"
    using seq_step_new_run [OF Cons.prems(1)] seq_step_same_run [OF Cons.prems(1)] Cons.prems(2,4)
    by (metis list.set_intros(1))
  moreover have "run_start (sq_run ?s) \<le> sq_previous ?s \<and> sq_previous ?s = p_id q"
    using seq_step_start [of s q columns readahead] Cons.prems(2,4) by simp
  ultimately show ?case using Cons.IH [of "ps @ [q]" ?s] Cons.prems(3,4) by simp
qed simp

lemma sequential_read_spec:
  assumes "\<forall>p \<in> set snapshot. names_distinct p"
  shows "\<exists>runs. schedule_sequential_read task_queue snapshot columns readahead =
      (task_queue @ runs, map (promised columns) (sort_key p_id snapshot)) \<and>
    (\<forall>r \<in> set runs. run_from columns snapshot r) \<and>
    (\<forall>p \<in> set snapshot. \<forall>name. missing columns p name \<longrightarrow> (\<exists>r \<in> set runs. run_covers r (p_id p) name))"
proof -
  let ?s0 = "\<lparr>sq_queue = task_queue, sq_run = disk_run_default, sq_previous = 0, sq_done = []\<rparr>"
  have "seq_inv task_queue columns ([] @ sort_key p_id snapshot)
      (foldl (seq_step columns readahead) ?s0 (sort_key p_id snapshot))"
    by (rule seq_fold_inv) (use assms in \<open>auto simp: seq_inv_def disk_run_default_def run_from_def\<close>)
  then obtain new where
    "sq_queue (foldl (seq_step columns readahead) ?s0 (sort_key p_id snapshot)) = task_queue @ new" and
    rest: "seq_inv task_queue columns (sort_key p_id snapshot) (foldl (seq_step columns readahead) ?s0 (sort_key p_id snapshot))"
    by (auto simp: seq_inv_def)
  then show ?thesis
    unfolding schedule_sequential_read_def Let_def
    by (intro exI [of _ "new @ [(sq_run (foldl (seq_step columns readahead) ?s0 (sort_key p_id snapshot)))
          \<lparr>run_end := sq_previous (foldl (seq_step columns readahead) ?s0 (sort_key p_id snapshot))\<rparr>]"])
      (auto simp: seq_inv_def run_from_set [of "sort_key p_id snapshot" snapshot])
qed

section \<open>Bulk loads cover every column\<close>

definition bulk_inv :: "DiskRun list \<Rightarrow> (PartitionID \<times> string) set \<Rightarrow> PartitionID \<Rightarrow> DiskRun list \<Rightarrow> (string \<rightharpoonup> DiskRun) \<Rightarrow> bool" where
  "bulk_inv queue todo pid q runs \<longleftrightarrow> finite (dom runs) \<and>
     (\<forall>col run. runs col = Some run \<longrightarrow> run_columns run = {col} \<and> run_start run \<le> run_end run \<and> run_end run \<le> pid) \<and>
     (\<exists>new. q = queue @ new \<and>
        (\<forall>(i, col) \<in> todo. (\<exists>r \<in> set new. run_covers r i col) \<or> (\<exists>r. runs col = Some r \<and> run_covers r i col)))"

lemma bulk_step_inv:
  assumes "bulk_inv queue todo pid q runs" and "bulk_step chunk pid (q, runs, p) col = (q', runs', p')"
  shows "bulk_inv queue (insert (pid, col) todo) pid q' runs'"
proof -
  from assms(1) obtain new where new: "q = queue @ new"
      "\<forall>(i, c) \<in> todo. (\<exists>r \<in> set new. run_covers r i c) \<or> (\<exists>r. runs c = Some r \<and> run_covers r i c)"
    and fin: "finite (dom runs)" and runs: "\<forall>c run. runs c = Some run \<longrightarrow> run_columns run = {c} \<and> run_start run \<le> run_end run \<and> run_end run \<le> pid"
    by (auto simp: bulk_inv_def)
  define run where "run = (case runs col of Some run \<Rightarrow> run
    | None \<Rightarrow> \<lparr>run_start = pid, run_end = pid, run_columns = {col}, run_bytes = 0\<rparr>)"
  define run' where "run' = run\<lparr>run_bytes := run_bytes run + snd (promise_load p (run_columns run)), run_end := pid\<rparr>"
  have r: "run_columns run' = {col}" "run_start run' \<le> run_end run'" "run_end run' = pid"
    using runs by (auto simp: run'_def run_def split: option.splits dest: order_trans)
  have grow: "run_covers run' i col" if "runs col = Some ro" "run_covers ro i col" for ro i
    using that runs by (fastforce simp: run'_def run_def run_covers_def)
  have here: "run_covers run' pid col" using r by (simp add: run_covers_def)
  show ?thesis
  proof (cases "run_bytes run' > chunk")
    case True
    then have eq: "q' = queue @ (new @ [run'])" "runs' = runs(col := None)"
      using assms(2) new(1) by (auto simp: bulk_step_def Let_def run_def run'_def case_prod_beta)
    have "(\<exists>r \<in> set (new @ [run']). run_covers r i c) \<or> (\<exists>r. runs' c = Some r \<and> run_covers r i c)"
      if "(i, c) \<in> insert (pid, col) todo" for i c
      using that new(2) here grow eq(2) by (cases "c = col") fastforce+
    then have "\<forall>(i, c) \<in> insert (pid, col) todo.
        (\<exists>r \<in> set (new @ [run']). run_covers r i c) \<or> (\<exists>r. runs' c = Some r \<and> run_covers r i c)" by blast
    moreover have "\<forall>c run. runs' c = Some run \<longrightarrow> run_columns run = {c} \<and> run_start run \<le> run_end run \<and> run_end run \<le> pid"
      using eq(2) runs by simp
    moreover have "finite (dom runs')" using eq(2) fin by simp
    ultimately show ?thesis using eq(1) unfolding bulk_inv_def by blast
  next
    case False
    then have eq: "q' = queue @ new" "runs' = runs(col \<mapsto> run')"
      using assms(2) new(1) by (auto simp: bulk_step_def Let_def run_def run'_def case_prod_beta)
    have "(\<exists>r \<in> set new. run_covers r i c) \<or> (\<exists>r. runs' c = Some r \<and> run_covers r i c)"
      if "(i, c) \<in> insert (pid, col) todo" for i c
      using that new(2) here grow eq(2) by (cases "c = col") fastforce+
    then have "\<forall>(i, c) \<in> insert (pid, col) todo.
        (\<exists>r \<in> set new. run_covers r i c) \<or> (\<exists>r. runs' c = Some r \<and> run_covers r i c)" by blast
    moreover have "\<forall>c run. runs' c = Some run \<longrightarrow> run_columns run = {c} \<and> run_start run \<le> run_end run \<and> run_end run \<le> pid"
      using eq(2) runs r by simp
    moreover have "finite (dom runs')" using eq(2) fin by simp
    ultimately show ?thesis using eq(1) unfolding bulk_inv_def by blast
  qed
qed

lemma bulk_columns_inv:
  assumes "bulk_inv queue todo pid q runs" and "foldl (bulk_step chunk pid) (q, runs, p) cols = (q', runs', p')"
  shows "bulk_inv queue (todo \<union> {pid} \<times> set cols) pid q' runs'"
  using assms
proof (induction cols arbitrary: todo q runs p)
  case (Cons col cols)
  obtain q1 runs1 p1 where st: "bulk_step chunk pid (q, runs, p) col = (q1, runs1, p1)" by (cases "bulk_step chunk pid (q, runs, p) col")
  have "bulk_inv queue (insert (pid, col) todo \<union> {pid} \<times> set cols) pid q' runs'"
    by (rule Cons.IH [OF bulk_step_inv [OF Cons.prems(1) st]]) (use Cons.prems(2) st in simp)
  moreover have "insert (pid, col) todo \<union> {pid} \<times> set cols = todo \<union> {pid} \<times> set (col # cols)" by auto
  ultimately show ?case by simp
qed simp

lemma bulk_inv_mono: "bulk_inv queue todo i q runs \<Longrightarrow> i \<le> j \<Longrightarrow> bulk_inv queue todo j q runs"
  by (fastforce simp: bulk_inv_def)

lemma bulk_partitions_inv:
  assumes "bulk_inv queue todo i q runs" and "sorted (map p_id ps)" and "\<forall>p \<in> set ps. i \<le> p_id p"
    and "foldl (bulk_partition chunk) (q, runs, done) ps = (q', runs', done')"
  shows "\<exists>j. bulk_inv queue (todo \<union> (\<Union>p \<in> set ps. {p_id p} \<times> set (col_names p))) j q' runs'"
  using assms
proof (induction ps arbitrary: todo i q runs "done")
  case (Cons p ps)
  obtain q1 runs1 p1 where st: "foldl (bulk_step chunk (p_id p)) (q, runs, p) (col_names p) = (q1, runs1, p1)"
    by (cases "foldl (bulk_step chunk (p_id p)) (q, runs, p) (col_names p)")
  have "bulk_inv queue todo (p_id p) q runs" using Cons.prems(1,3) bulk_inv_mono by simp
  from bulk_columns_inv [OF this st] have "\<exists>j. bulk_inv queue (todo \<union> {p_id p} \<times> set (col_names p) \<union>
      (\<Union>p \<in> set ps. {p_id p} \<times> set (col_names p))) j q' runs'"
    by (rule Cons.IH) (use Cons.prems(2,4) st in \<open>auto simp: bulk_partition_def\<close>)
  then show ?case by (simp add: Un_assoc)
qed auto

section \<open>Main results\<close>

text \<open>A snapshot of three partitions; the column \<open>a\<close> of the second one is in memory.\<close>

definition example_snapshot :: "Partition list" where
  "example_snapshot =
     [\<lparr>p_id = 7, p_len = 1, p_cols = [handle_non_resident 7 ''a'' 4, handle_non_resident 7 ''b'' 4]\<rparr>,
      \<lparr>p_id = 3, p_len = 1, p_cols = [(handle_non_resident 3 ''a'' 4)\<lparr>h_resident := True\<rparr>]\<rparr>,
      \<lparr>p_id = 5, p_len = 1, p_cols = [handle_non_resident 5 ''a'' 4]\<rparr>]"

text \<open>
  Sequential reads cover what a query misses. Scheduling the reads of a query promises exactly the
  columns it refers to that are not in memory, and adds runs to the queue such that each of these
  columns lies in the range of a run that reads its name. No run reads a column the query does not
  refer to, and a run that reads anything starts at a partition that misses a column.
\<close>

theorem sequential_read_correct:
  assumes "\<forall>p \<in> set snapshot. names_distinct p"
  shows "\<exists>runs. schedule_sequential_read task_queue snapshot columns readahead =
      (task_queue @ runs, map (promised columns) (sort_key p_id snapshot)) \<and>
    (\<forall>r \<in> set runs. run_from columns snapshot r) \<and>
    (\<forall>p \<in> set snapshot. \<forall>name. missing columns p name \<longrightarrow> (\<exists>r \<in> set runs. run_covers r (p_id p) name))"
  using assms by (rule sequential_read_spec)

theorem sequential_read_correct_witness:
  "\<exists>runs ps. schedule_sequential_read [] example_snapshot {''a''} 100 = (runs, ps) \<and> map p_id ps = [3, 5, 7] \<and>
    list_ex (\<lambda>r. run_covers r 7 ''a'') runs \<and> list_ex (\<lambda>r. run_covers r 5 ''a'') runs"
proof -
  have "\<forall>p \<in> set example_snapshot. names_distinct p"
    by (simp add: example_snapshot_def names_distinct_def col_names_def handle_name_def handle_non_resident_def)
  from sequential_read_correct [OF this, of "[]" "{''a''}" 100] show ?thesis
    by (auto simp: example_snapshot_def missing_def handle_name_def handle_non_resident_def promised_def list_ex_iff)
qed

text \<open>
  A bulk load covers every column. Whatever the chunk size, for every column of every partition
  of the snapshot there is a run in the queue whose range contains the partition and that reads
  the column.
\<close>

theorem bulk_load_covers:
  assumes "\<forall>runs. finite (dom runs) \<longrightarrow> set (order runs) = dom runs"
  shows "\<exists>runs. fst (schedule_bulk_load order task_queue snapshot chunk_size) = task_queue @ runs \<and>
    (\<forall>p \<in> set snapshot. \<forall>name \<in> set (col_names p). \<exists>r \<in> set runs. run_covers r (p_id p) name)"
proof -
  obtain q runs ps where st: "foldl (bulk_partition chunk_size) (task_queue, Map.empty, []) (sort_key p_id snapshot) = (q, runs, ps)"
    by (cases "foldl (bulk_partition chunk_size) (task_queue, Map.empty, []) (sort_key p_id snapshot)")
  have "bulk_inv task_queue {} 0 task_queue Map.empty" by (simp add: bulk_inv_def)
  from bulk_partitions_inv [OF this _ _ st] obtain j where
    "bulk_inv task_queue (\<Union>p \<in> set snapshot. {p_id p} \<times> set (col_names p)) j q runs" by auto
  then obtain new where fin: "finite (dom runs)" and q: "q = task_queue @ new" and
    cov: "\<forall>(i, col) \<in> (\<Union>p \<in> set snapshot. {p_id p} \<times> set (col_names p)).
      (\<exists>r \<in> set new. run_covers r i col) \<or> (\<exists>r. runs col = Some r \<and> run_covers r i col)"
    by (auto simp: bulk_inv_def)
  let ?runs = "new @ map (\<lambda>col. the (runs col)) (order runs)"
  have "\<exists>r \<in> set ?runs. run_covers r (p_id p) name" if p: "p \<in> set snapshot" "name \<in> set (col_names p)" for p name
  proof -
    have "(\<exists>r \<in> set new. run_covers r (p_id p) name) \<or> (\<exists>r. runs name = Some r \<and> run_covers r (p_id p) name)"
      using cov p by blast
    then show ?thesis
    proof
      assume "\<exists>r. runs name = Some r \<and> run_covers r (p_id p) name"
      then obtain r where "runs name = Some r" "run_covers r (p_id p) name" by blast
      moreover have "name \<in> set (order runs)" using assms fin calculation(1) by auto
      ultimately show ?thesis by force
    qed auto
  qed
  then show ?thesis using st q by (intro exI [of _ ?runs]) (simp add: schedule_bulk_load_def)
qed

theorem bulk_load_covers_witness:
  "\<exists>runs. fst (schedule_bulk_load (\<lambda>runs. sorted_list_of_set (dom runs)) [] example_snapshot 5) = runs \<and>
    list_ex (\<lambda>r. run_covers r 7 ''b'') runs \<and> list_ex (\<lambda>r. run_covers r 5 ''a'') runs"
proof -
  have "\<forall>runs :: string \<rightharpoonup> DiskRun. finite (dom runs) \<longrightarrow> set (sorted_list_of_set (dom runs)) = dom runs" by simp
  from bulk_load_covers [OF this, of "[]" example_snapshot 5] show ?thesis
    by (auto simp: example_snapshot_def col_names_def handle_name_def handle_non_resident_def list_ex_iff)
qed

end
