(* ===== verification/Database.thy ===== *)
theory Database
  imports Disk_Reads
begin

text \<open>
  The database as a whole, src/src/scheduler/inner_locustdb.rs: opening it, creating tables, storing
  partitions, ingesting rows and columns, snapshots, and restoring columns read from disk.
  (Its task queue is in theory \<open>Tasks\<close>, eviction in theory \<open>Storage\<close>.)

  Tables and counters are shared and changed under locks; here an operation takes the database and
  returns it. The order in which the \<open>HashMap\<close> of tables is iterated and the current time are
  parameters, like the environment of the storage theories.

  The main results: every id that is handed out is new, so storing a partition never replaces one
  (\<open>store_partition_fresh\<close>); creating tables ends and leaves a row in \<open>_meta_tables\<close> for each; restoring
  a column panics as soon as a table lacks the partition (\<open>restore_needs_all_tables\<close>); with
  one table, servicing the scheduled reads brings every column the query misses into memory, as it was
  stored (\<open>scheduled_reads_load\<close>).
\<close>

section \<open>State\<close>

record ('l, 'b) db_env =
  de_env :: env
  de_ops :: "'l lru_ops"
  de_capnp :: "'b capnp"
  de_tables :: "(string \<rightharpoonup> Table) \<Rightarrow> string list"
  de_now :: i64

record ('l, 'b) InnerLocustDB =
  db_tables :: "string \<rightharpoonup> Table"
  db_lru :: 'l
  db_storage :: "'b RocksDB"
  db_next_partition_id :: nat

definition table_order_ok :: "('l, 'b) db_env \<Rightarrow> bool" where
  "table_order_ok de \<longleftrightarrow> (\<forall>m. finite (dom m) \<longrightarrow> distinct (de_tables de m) \<and> set (de_tables de m) = dom m)"

definition max_pid :: "(string \<rightharpoonup> Table) \<Rightarrow> PartitionID" where
  "max_pid tables = (if dom tables = {} then 0 else Max ((\<lambda>name. max_partition_id (the (tables name))) ` dom tables))"

definition ldb_new :: "('l, 'b) db_env \<Rightarrow> 'l \<Rightarrow> 'b RocksDB \<Rightarrow> ('l, 'b) InnerLocustDB res" where
  "ldb_new de lru storage =
     rbind (load_metadata (de_capnp de) storage) (\<lambda>metadata.
       let existing_tables = load_table_metadata (2 ^ 20) metadata in
       Inr \<lparr>db_tables = existing_tables, db_lru = lru, db_storage = storage,
            db_next_partition_id = max_pid existing_tables + 1\<rparr>)"

section \<open>Operations\<close>

text \<open>Running an operation of one table, with the least-recently-used list.\<close>

definition on_table ::
    "(Table \<Rightarrow> 'l \<Rightarrow> (Table \<times> 'l) res) \<Rightarrow> string \<Rightarrow> ('l, 'b) InnerLocustDB \<Rightarrow> ('l, 'b) InnerLocustDB res" where
  "on_table f name db =
     rbind (unwrap (db_tables db name)) (\<lambda>t.
     rbind (f t (db_lru db)) (\<lambda>(t', l').
       Inr (db\<lparr>db_tables := (db_tables db)(name \<mapsto> t'), db_lru := l'\<rparr>)))"

definition meta_row :: "('l, 'b) db_env \<Rightarrow> string \<Rightarrow> (string \<times> RawVal) list" where
  "meta_row de table = [(''timestamp'', RawInt (de_now de)), (''name'', RawStr (name_bytes table))]"

text \<open>
  \<open>ingest\<close> and \<open>create_if_empty\<close> call each other: a new table is entered in \<open>_meta_tables\<close>, which may have to
  be created first.
\<close>

function ldb_ingest ::
    "('l, 'b) db_env \<Rightarrow> string \<Rightarrow> (string \<times> RawVal) list \<Rightarrow> ('l, 'b) InnerLocustDB \<Rightarrow> ('l, 'b) InnerLocustDB res" where
  "ldb_ingest de table row db =
     rbind (if table \<in> dom (db_tables db) then Inr db
            else ldb_ingest de ''_meta_tables'' (meta_row de table)
                   (db\<lparr>db_tables := (db_tables db)(table \<mapsto> table_new (2 ^ 20) table)\<rparr>))
       (on_table (table_ingest (de_env de) (de_ops de) row) table)"
  by pat_completeness auto

termination
proof (relation "measure (\<lambda>(de, table, row, db). card ({table, ''_meta_tables''} - dom (db_tables db)))")
  fix de :: "('l, 'b) db_env" and table :: string and row and db :: "('l, 'b) InnerLocustDB"
  assume new: "table \<notin> dom (db_tables db)"
  have "{''_meta_tables''} - insert table (dom (db_tables db)) \<subset> {table, ''_meta_tables''} - dom (db_tables db)"
    using new by auto
  then have "card ({''_meta_tables''} - insert table (dom (db_tables db))) < card ({table, ''_meta_tables''} - dom (db_tables db))"
    by (intro psubset_card_mono) auto
  then show "((de, ''_meta_tables'', meta_row de table,
      db\<lparr>db_tables := (db_tables db)(table \<mapsto> table_new (2 ^ 20) table)\<rparr>), de, table, row, db)
    \<in> measure (\<lambda>(de, table, row, db). card ({table, ''_meta_tables''} - dom (db_tables db)))"
    by simp
qed simp

declare ldb_ingest.simps [simp del]

definition create_if_empty ::
    "('l, 'b) db_env \<Rightarrow> string \<Rightarrow> ('l, 'b) InnerLocustDB \<Rightarrow> ('l, 'b) InnerLocustDB res" where
  "create_if_empty de table db =
     (if table \<in> dom (db_tables db) then Inr db
      else ldb_ingest de ''_meta_tables'' (meta_row de table)
             (db\<lparr>db_tables := (db_tables db)(table \<mapsto> table_new (2 ^ 20) table)\<rparr>))"

definition ldb_ingest_homogeneous ::
    "('l, 'b) db_env \<Rightarrow> string \<Rightarrow> (string \<times> InputColumn) list \<Rightarrow> ('l, 'b) InnerLocustDB \<Rightarrow> ('l, 'b) InnerLocustDB res" where
  "ldb_ingest_homogeneous de table columns db =
     rbind (create_if_empty de table db) (on_table (\<lambda>t l. Inr (ingest_homogeneous columns t, l)) table)"

definition ldb_ingest_heterogeneous ::
    "('l, 'b) db_env \<Rightarrow> string \<Rightarrow> (string \<times> RawVal list) list \<Rightarrow> ('l, 'b) InnerLocustDB \<Rightarrow> ('l, 'b) InnerLocustDB res" where
  "ldb_ingest_heterogeneous de table columns db =
     rbind (create_if_empty de table db)
       (on_table (ingest_heterogeneous (de_env de) (de_ops de) columns) table)"

definition ldb_store_partition ::
    "('l, 'b) db_env \<Rightarrow> string \<Rightarrow> Column list \<Rightarrow> ('l, 'b) InnerLocustDB \<Rightarrow> ('l, 'b) InnerLocustDB res" where
  "ldb_store_partition de tablename columns db0 =
     rbind (create_if_empty de tablename db0) (\<lambda>db.
       let pid = db_next_partition_id db in
       rbind (disk_store_partition (de_capnp de) (e_heap (de_env de)) pid tablename columns (db_storage db)) (\<lambda>storage.
       rbind (partition_new (e_heap (de_env de)) pid columns) (\<lambda>(new_partition, keys).
         on_table (\<lambda>t l. Inr (load_partition new_partition t, foldl (\<lambda>l key. lru_put (de_ops de) key l) l keys)) tablename
           (db\<lparr>db_next_partition_id := pid + 1, db_storage := storage\<rparr>))))"

definition ldb_restore ::
    "('l, 'b) db_env \<Rightarrow> PartitionID \<Rightarrow> Column \<Rightarrow> ('l, 'b) InnerLocustDB \<Rightarrow> ('l, 'b) InnerLocustDB res" where
  "ldb_restore de pid column db =
     rfoldM (\<lambda>db name. on_table (table_restore (de_ops de) pid column) name db) db (de_tables de (db_tables db))"

text \<open>\<open>ids\<close> gives the iteration order of the partitions of a table.\<close>

definition ldb_snapshot ::
    "('l, 'b) db_env \<Rightarrow> (Table \<Rightarrow> PartitionID list) \<Rightarrow> string \<Rightarrow> ('l, 'b) InnerLocustDB \<Rightarrow> Partition list res option" where
  "ldb_snapshot de ids table db = map_option (\<lambda>t. table_snapshot (de_env de) (ids t) t) (db_tables db table)"

definition full_snapshot ::
    "('l, 'b) db_env \<Rightarrow> (Table \<Rightarrow> PartitionID list) \<Rightarrow> ('l, 'b) InnerLocustDB \<Rightarrow> Partition list list res" where
  "full_snapshot de ids db =
     rmapM (\<lambda>name. rbind (unwrap (db_tables db name)) (\<lambda>t. table_snapshot (de_env de) (ids t) t))
       (de_tables de (db_tables db))"

definition ldb_max_partition_id :: "('l, 'b) InnerLocustDB \<Rightarrow> nat" where
  "ldb_max_partition_id db = db_next_partition_id db"

section \<open>Sequences of operations\<close>

inductive db_step :: "('l, 'b) db_env \<Rightarrow> ('l, 'b) InnerLocustDB \<Rightarrow> ('l, 'b) InnerLocustDB \<Rightarrow> bool" for de where
  step_store: "ldb_store_partition de table columns db = Inr db' \<Longrightarrow> db_step de db db'"
| step_ingest: "ldb_ingest de table row db = Inr db' \<Longrightarrow> db_step de db db'"
| step_homogeneous: "ldb_ingest_homogeneous de table cols db = Inr db' \<Longrightarrow> db_step de db db'"
| step_heterogeneous: "ldb_ingest_heterogeneous de table raws db = Inr db' \<Longrightarrow> db_step de db db'"
| step_restore: "ldb_restore de pid column db = Inr db' \<Longrightarrow> db_step de db db'"

inductive db_steps :: "('l, 'b) db_env \<Rightarrow> ('l, 'b) InnerLocustDB \<Rightarrow> ('l, 'b) InnerLocustDB \<Rightarrow> bool" for de where
  steps_none: "db_steps de db db"
| steps_more: "db_steps de db db' \<Longrightarrow> db_step de db' db'' \<Longrightarrow> db_steps de db db''"

text \<open>Operations on tables do not touch the disk or the counter.\<close>

abbreviation same_disk :: "('l, 'b) InnerLocustDB \<Rightarrow> ('l, 'b) InnerLocustDB \<Rightarrow> bool" where
  "same_disk db db' \<equiv> db_storage db' = db_storage db \<and> db_next_partition_id db' = db_next_partition_id db"

lemma on_table_same_disk: "on_table f name db = Inr db' \<Longrightarrow> same_disk db db'"
  by (auto simp: on_table_def)

lemma ldb_ingest_same_disk: "ldb_ingest de table row db = Inr db' \<Longrightarrow> same_disk db db'"
proof (induction de table row db arbitrary: db' rule: ldb_ingest.induct)
  case (1 de table row db)
  from 1(2) obtain db1 where db1: "(if table \<in> dom (db_tables db) then Inr db
      else ldb_ingest de ''_meta_tables'' (meta_row de table)
        (db\<lparr>db_tables := (db_tables db)(table \<mapsto> table_new (2 ^ 20) table)\<rparr>)) = Inr db1"
    "on_table (table_ingest (de_env de) (de_ops de) row) table db1 = Inr db'"
    by (subst (asm) ldb_ingest.simps) auto
  have "same_disk db db1" using 1(1) db1(1) by (auto split: if_splits)
  with on_table_same_disk [OF db1(2)] show ?case by simp
qed

lemma create_if_empty_same_disk: "create_if_empty de table db = Inr db' \<Longrightarrow> same_disk db db'"
  using ldb_ingest_same_disk by (fastforce simp: create_if_empty_def split: if_splits)

lemma ldb_restore_same_disk: "ldb_restore de pid column db = Inr db' \<Longrightarrow> same_disk db db'"
proof -
  have "rfoldM (\<lambda>db name. on_table (table_restore (de_ops de) pid column) name db) db names = Inr db' \<Longrightarrow> same_disk db db'"
    for names db
  proof (induction names arbitrary: db)
    case (Cons n names)
    then obtain db1 where db1: "on_table (table_restore (de_ops de) pid column) n db = Inr db1"
      "rfoldM (\<lambda>db name. on_table (table_restore (de_ops de) pid column) name db) db1 names = Inr db'" by auto
    from on_table_same_disk [OF db1(1)] Cons.IH [OF db1(2)] show ?case by simp
  qed simp
  then show "ldb_restore de pid column db = Inr db' \<Longrightarrow> same_disk db db'" by (simp add: ldb_restore_def)
qed

text \<open>Storing a partition writes keys of the next id only.\<close>

lemma store_columns_other:
  assumes "store_columns cp pid columns kv = Inr kv'" and "i \<noteq> pid" and "i < 2 ^ 64" and "pid < 2 ^ 64"
  shows "kv' (column_key i name) = kv (column_key i name)"
  using assms(1)
proof (induction columns arbitrary: kv)
  case (Cons c columns)
  then obtain data where "serialize_column cp c = Inr data"
    and rest: "store_columns cp pid columns (kv(column_key pid (col_name c) \<mapsto> data)) = Inr kv'"
    by (auto simp: store_columns_def)
  have "column_key i name \<noteq> column_key pid (col_name c)" using assms(2-4) by (simp add: column_key_inj)
  with Cons.IH [OF rest] show ?case by simp
qed (simp add: store_columns_def)

definition disk_kept :: "'b RocksDB \<Rightarrow> 'b RocksDB \<Rightarrow> PartitionID \<Rightarrow> bool" where
  "disk_kept d d' pid \<longleftrightarrow> rd_metadata d' (be_bytes 8 pid) = rd_metadata d (be_bytes 8 pid) \<and>
     (\<forall>name. rd_partitions d' (column_key pid name) = rd_partitions d (column_key pid name))"

lemma ldb_store_partition_kept:
  assumes "ldb_store_partition de table columns db = Inr db'" and "pid < db_next_partition_id db"
    and "db_next_partition_id db' \<le> 2 ^ 64"
  shows "disk_kept (db_storage db) (db_storage db') pid \<and> db_next_partition_id db' = Suc (db_next_partition_id db)"
proof -
  from assms(1) obtain db1 storage p keys where db1: "create_if_empty de table db = Inr db1"
    and st: "disk_store_partition (de_capnp de) (e_heap (de_env de)) (db_next_partition_id db1) table columns (db_storage db1) = Inr storage"
    and t: "on_table (\<lambda>t l. Inr (load_partition p t, foldl (\<lambda>l key. lru_put (de_ops de) key l) l keys)) table
         (db1\<lparr>db_next_partition_id := db_next_partition_id db1 + 1, db_storage := storage\<rparr>) = Inr db'"
    by (auto simp: ldb_store_partition_def Let_def)
  note same = create_if_empty_same_disk [OF db1] on_table_same_disk [OF t]
  then have n: "db_next_partition_id db' = Suc (db_next_partition_id db)" "db_storage db' = storage" by simp_all
  then have small: "pid < 2 ^ 64" "db_next_partition_id db < 2 ^ 64" "pid \<noteq> db_next_partition_id db" using assms(2,3) by simp_all
  from st same obtain md kv where kv:
    "store_columns (de_capnp de) (db_next_partition_id db) columns (rd_partitions (db_storage db)) = Inr kv"
    "\<lparr>rd_metadata = (rd_metadata (db_storage db))(be_bytes 8 (db_next_partition_id db) \<mapsto> md), rd_partitions = kv\<rparr> = storage"
    unfolding disk_store_partition_def by auto
  have "rd_metadata storage = (rd_metadata (db_storage db))(be_bytes 8 (db_next_partition_id db) \<mapsto> md)"
    "rd_partitions storage = kv"
    unfolding kv(2) [symmetric] by simp_all
  with small n store_columns_other [OF kv(1) small(3,1,2)]
  show ?thesis by (simp add: disk_kept_def be_bytes_8_inj)
qed

lemma ingest_columns_same_disk:
  "ldb_ingest_homogeneous de table cols db = Inr db' \<Longrightarrow> same_disk db db'"
  "ldb_ingest_heterogeneous de table raws db = Inr db' \<Longrightarrow> same_disk db db'"
  using create_if_empty_same_disk on_table_same_disk
  by (fastforce simp: ldb_ingest_homogeneous_def ldb_ingest_heterogeneous_def)+

lemma db_step_kept:
  assumes "db_step de db db'" and "pid < db_next_partition_id db" and "db_next_partition_id db' \<le> 2 ^ 64"
  shows "disk_kept (db_storage db) (db_storage db') pid \<and> db_next_partition_id db \<le> db_next_partition_id db'"
  using assms
proof (induction rule: db_step.induct)
  case (step_store table columns db db')
  then show ?case using ldb_store_partition_kept by fastforce
next
  case (step_ingest table row db db')
  then show ?case using ldb_ingest_same_disk [OF step_ingest(1)] by (simp add: disk_kept_def)
next
  case (step_homogeneous table cols db db')
  then show ?case using ingest_columns_same_disk(1) [OF step_homogeneous(1)] by (simp add: disk_kept_def)
next
  case (step_heterogeneous table raws db db')
  then show ?case using ingest_columns_same_disk(2) [OF step_heterogeneous(1)] by (simp add: disk_kept_def)
next
  case (step_restore pid column db db')
  then show ?case using ldb_restore_same_disk [OF step_restore(1)] by (simp add: disk_kept_def)
qed

lemma db_steps_kept:
  assumes "db_steps de db db'" and "pid < db_next_partition_id db" and "db_next_partition_id db' \<le> 2 ^ 64"
  shows "disk_kept (db_storage db) (db_storage db') pid \<and> db_next_partition_id db \<le> db_next_partition_id db'"
  using assms
proof (induction rule: db_steps.induct)
  case (steps_none db)
  then show ?case by (simp add: disk_kept_def)
next
  case (steps_more db db' db'')
  have mono: "db_next_partition_id db' \<le> db_next_partition_id db''"
  proof (cases "db_next_partition_id db' = 0")
    case False
    then show ?thesis using db_step_kept [OF steps_more(2), of 0] steps_more(5) by simp
  qed simp
  with steps_more have "disk_kept (db_storage db) (db_storage db') pid \<and> db_next_partition_id db \<le> db_next_partition_id db'" by simp
  moreover have "disk_kept (db_storage db') (db_storage db'') pid"
    using db_step_kept [OF steps_more(2), of pid] calculation steps_more(4,5) by simp
  ultimately show ?case using mono by (simp add: disk_kept_def)
qed

section \<open>Opening a database\<close>

text \<open>The tables after loading metadata, one partition after the other.\<close>

lemma load_table_metadata_snoc:
  "load_table_metadata n (mds @ [md]) =
    (load_table_metadata n mds)(pm_tablename md \<mapsto> insert_nonresident_partition md
      (case load_table_metadata n mds (pm_tablename md) of Some t \<Rightarrow> t | None \<Rightarrow> table_new n (pm_tablename md)))"
  by (simp add: load_table_metadata_def)

lemma load_table_metadata_finite:
  "finite (dom (load_table_metadata n mds)) \<and>
   (\<forall>t \<in> ran (load_table_metadata n mds). finite (dom (t_partitions t)))"
proof (induction mds rule: rev_induct)
  case Nil
  show ?case by (simp add: load_table_metadata_def)
next
  case (snoc md mds)
  let ?t = "case load_table_metadata n mds (pm_tablename md) of Some t \<Rightarrow> t | None \<Rightarrow> table_new n (pm_tablename md)"
  have "finite (dom (t_partitions ?t))"
    using snoc by (cases "load_table_metadata n mds (pm_tablename md)") (auto simp: table_new_def ran_def)
  then have "finite (dom (t_partitions (insert_nonresident_partition md ?t)))" by (simp add: insert_nonresident_partition_def)
  then have "\<forall>t \<in> ran (load_table_metadata n (mds @ [md])). finite (dom (t_partitions t))"
    using snoc unfolding load_table_metadata_snoc by (auto simp: ran_def)
  moreover have "finite (dom (load_table_metadata n (mds @ [md])))"
    using snoc unfolding load_table_metadata_snoc by (simp only: dom_fun_upd) simp
  ultimately show ?case by blast
qed

lemma load_table_metadata_has:
  "md \<in> set mds \<Longrightarrow> \<exists>t. load_table_metadata n mds (pm_tablename md) = Some t \<and> pm_id md \<in> dom (t_partitions t)"
proof (induction mds rule: rev_induct)
  case (snoc m mds)
  show ?case
  proof (cases "md = m")
    case True
    then show ?thesis by (simp add: load_table_metadata_snoc insert_nonresident_partition_def)
  next
    case False
    with snoc obtain t where "load_table_metadata n mds (pm_tablename md) = Some t" "pm_id md \<in> dom (t_partitions t)" by auto
    then show ?thesis by (auto simp: load_table_metadata_snoc insert_nonresident_partition_def)
  qed
qed simp

lemma max_pid_bound:
  assumes "finite (dom tables)" and "tables name = Some t" and "finite (dom (t_partitions t))" and "pid \<in> dom (t_partitions t)"
  shows "pid \<le> max_pid tables"
proof -
  have "pid \<le> max_partition_id t" using assms(3,4) by (auto simp: max_partition_id_def)
  also have "\<dots> \<le> max_pid tables"
  proof -
    have "max_partition_id t \<in> (\<lambda>name. max_partition_id (the (tables name))) ` dom tables"
      using assms(2) by (intro image_eqI [of _ _ name]) auto
    then show ?thesis unfolding max_pid_def using assms(1) by (auto intro: Max_ge)
  qed
  finally show ?thesis .
qed

lemma ldb_new_next:
  assumes "ldb_new de lru storage = Inr db" and "load_metadata (de_capnp de) storage = Inr mds" and "md \<in> set mds"
  shows "pm_id md < db_next_partition_id db \<and> db_storage db = storage"
proof -
  let ?tables = "load_table_metadata (2 ^ 20) mds"
  obtain t where t: "?tables (pm_tablename md) = Some t" "pm_id md \<in> dom (t_partitions t)"
    using load_table_metadata_has [OF assms(3)] by blast
  moreover have "finite (dom (t_partitions t))" using load_table_metadata_finite t(1) by (meson ranI)
  ultimately have "pm_id md \<le> max_pid ?tables" using max_pid_bound load_table_metadata_finite by blast
  then show ?thesis using assms(1,2) by (auto simp: ldb_new_def Let_def)
qed

section \<open>Restoring\<close>

lemma restore_loop:
  assumes "set names \<subseteq> dom (db_tables db)" and "distinct names"
  shows "rfoldM (\<lambda>db name. on_table (table_restore ops pid column) name db) db names = Inl Panicked \<longleftrightarrow>
    (\<exists>name \<in> set names. t_partitions (the (db_tables db name)) pid = None)"
  using assms
proof (induction names arbitrary: db)
  case (Cons n names)
  obtain t where t: "db_tables db n = Some t" using Cons.prems(1) by auto
  show ?case
  proof (cases "t_partitions t pid")
    case None
    then show ?thesis using t by (simp add: on_table_def table_restore_def)
  next
    case (Some p)
    obtain p' l' where p': "partition_restore ops column p (db_lru db) = (p', l')"
      by (cases "partition_restore ops column p (db_lru db)")
    let ?db = "db\<lparr>db_tables := (db_tables db)(n \<mapsto> t\<lparr>t_partitions := (t_partitions t)(pid \<mapsto> p')\<rparr>), db_lru := l'\<rparr>"
    have "on_table (table_restore ops pid column) n db = Inr ?db"
      using t Some p' by (simp add: on_table_def table_restore_def)
    moreover have "(\<exists>name \<in> set names. t_partitions (the (db_tables ?db name)) pid = None) \<longleftrightarrow>
      (\<exists>name \<in> set names. t_partitions (the (db_tables db name)) pid = None)"
      using Cons.prems(2) by (intro bex_cong) auto
    moreover have "set names \<subseteq> dom (db_tables ?db)" using Cons.prems(1) by fastforce
    note Cons.IH [OF this]
    ultimately show ?thesis using Cons.prems(2) t Some by simp
  qed
qed simp

section \<open>Loading what a query misses\<close>

text \<open>A partition after a column was restored.\<close>

definition restored :: "Column \<Rightarrow> Partition \<Rightarrow> Partition" where
  "restored col p = p\<lparr>p_cols := map (\<lambda>h. if handle_name h = col_name col
     then h\<lparr>h_col := Some col, h_resident := True, h_load_scheduled := False\<rparr> else h) (p_cols p)\<rparr>"

lemma partition_restore_restored: "fst (partition_restore ops col p l) = restored col p"
proof -
  have "fst (restore_handles ops col hs l) = map (\<lambda>h. if handle_name h = col_name col
     then h\<lparr>h_col := Some col, h_resident := True, h_load_scheduled := False\<rparr> else h) hs" for hs l
    by (induction hs arbitrary: l) (auto simp: Let_def case_prod_beta)
  then show ?thesis by (simp add: partition_restore_def restored_def case_prod_beta)
qed

lemma restore_one_table:
  assumes "table_order_ok de" and "db_tables db = [tn \<mapsto> t]" and "t_partitions t pid = Some p"
  shows "\<exists>l'. ldb_restore de pid col db =
    Inr (db\<lparr>db_tables := [tn \<mapsto> t\<lparr>t_partitions := (t_partitions t)(pid \<mapsto> restored col p)\<rparr>], db_lru := l'\<rparr>)"
proof -
  have "distinct (de_tables de [tn \<mapsto> t]) \<and> set (de_tables de [tn \<mapsto> t]) = {tn}"
    using assms(1) by (auto simp: table_order_ok_def)
  then have "de_tables de [tn \<mapsto> t] = [tn]"
    by (cases "de_tables de [tn \<mapsto> t]"; cases "tl (de_tables de [tn \<mapsto> t])") auto
  moreover obtain l' where "partition_restore (de_ops de) col p (db_lru db) = (restored col p, l')"
    using partition_restore_restored by (metis prod.collapse)
  ultimately show ?thesis
    using assms(2,3) by (intro exI [of _ l']) (simp add: ldb_restore_def on_table_def table_restore_def)
qed

text \<open>
  The invariant of servicing reads in a database with the table \<open>t0\<close>: the columns in \<open>S\<close> are in memory as
  they are stored, and partitions keep their columns.
\<close>

definition load_inv ::
    "string \<Rightarrow> Table \<Rightarrow> (PartitionID \<Rightarrow> string \<Rightarrow> Column) \<Rightarrow> (PartitionID \<times> string) set \<Rightarrow> ('l, 'b) InnerLocustDB \<Rightarrow> bool" where
  "load_inv tn t0 stored S db \<longleftrightarrow>
     (\<exists>t. db_tables db = [tn \<mapsto> t] \<and> dom (t_partitions t) = dom (t_partitions t0) \<and>
        (\<forall>pid p0 p. t_partitions t0 pid = Some p0 \<longrightarrow> t_partitions t pid = Some p \<longrightarrow>
           col_names p = col_names p0 \<and>
           (\<forall>h \<in> set (p_cols p). (pid, handle_name h) \<in> S \<longrightarrow>
              h_resident h \<and> h_col h = Some (stored pid (handle_name h)))))"

lemma load_invI:
  assumes "db_tables db = [tn \<mapsto> t]" and "dom (t_partitions t) = dom (t_partitions t0)"
    and "\<And>pid p0 p. t_partitions t0 pid = Some p0 \<Longrightarrow> t_partitions t pid = Some p \<Longrightarrow> col_names p = col_names p0 \<and>
      (\<forall>h \<in> set (p_cols p). (pid, handle_name h) \<in> S \<longrightarrow> h_resident h \<and> h_col h = Some (stored pid (handle_name h)))"
  shows "load_inv tn t0 stored S db"
  unfolding load_inv_def using assms by blast

lemma restored_names [simp]: "col_names (restored col p) = col_names p"
  by (simp add: restored_def col_names_def handle_name_def)

lemma load_inv_restore:
  assumes "table_order_ok de" and "load_inv tn t0 stored S db" and "pid \<in> dom (t_partitions t0)"
    and "col_name (stored pid name) = name"
  shows "\<exists>db'. ldb_restore de pid (stored pid name) db = Inr db' \<and> load_inv tn t0 stored (insert (pid, name) S) db'"
proof -
  let ?col = "stored pid name"
  from assms(2) obtain t where t: "db_tables db = [tn \<mapsto> t]" "dom (t_partitions t) = dom (t_partitions t0)"
    "\<forall>i p0 p. t_partitions t0 i = Some p0 \<longrightarrow> t_partitions t i = Some p \<longrightarrow> col_names p = col_names p0 \<and>
      (\<forall>h \<in> set (p_cols p). (i, handle_name h) \<in> S \<longrightarrow> h_resident h \<and> h_col h = Some (stored i (handle_name h)))"
    by (auto simp: load_inv_def)
  obtain p where p: "t_partitions t pid = Some p" using assms(3) t(2) by auto
  obtain p0 where p0: "t_partitions t0 pid = Some p0" using assms(3) by auto
  let ?t = "t\<lparr>t_partitions := (t_partitions t)(pid \<mapsto> restored ?col p)\<rparr>"
  obtain l' where db': "ldb_restore de pid ?col db = Inr (db\<lparr>db_tables := [tn \<mapsto> ?t], db_lru := l'\<rparr>)"
    using restore_one_table [OF assms(1) t(1) p] by blast
  have here: "h_resident h \<and> h_col h = Some (stored pid (handle_name h))"
    if h: "h \<in> set (p_cols (restored ?col p))" "(pid, handle_name h) \<in> insert (pid, name) S" for h
  proof -
    from h(1) obtain h0 where h0: "h0 \<in> set (p_cols p)" "h = (if handle_name h0 = name
        then h0\<lparr>h_col := Some ?col, h_resident := True, h_load_scheduled := False\<rparr> else h0)"
      by (auto simp: restored_def assms(4))
    have same: "handle_name h = handle_name h0" using h0(2) by (simp add: handle_name_def)
    show ?thesis
    proof (cases "handle_name h0 = name")
      case True
      with h0(2) same show ?thesis by simp
    next
      case False
      with h(2) same have "(pid, handle_name h0) \<in> S" by auto
      with t(3) p p0 h0 False show ?thesis by auto
    qed
  qed
  have all: "col_names p' = col_names q0 \<and> (\<forall>h \<in> set (p_cols p'). (i, handle_name h) \<in> insert (pid, name) S \<longrightarrow>
      h_resident h \<and> h_col h = Some (stored i (handle_name h)))"
    if "t_partitions t0 i = Some q0" "t_partitions ?t i = Some p'" for i q0 p'
  proof (cases "i = pid")
    case True
    with that here t(3) p p0 show ?thesis by auto
  next
    case False
    with that t(3) show ?thesis by auto
  qed
  have dm: "dom (t_partitions ?t) = dom (t_partitions t0)" using t(2) assms(3) by auto
  have "load_inv tn t0 stored (insert (pid, name) S) (db\<lparr>db_tables := [tn \<mapsto> ?t], db_lru := l'\<rparr>)"
    by (rule load_invI [OF _ dm all]) simp_all
  with db' show ?thesis by blast
qed

lemma load_inv_fold:
  assumes "table_order_ok de" and "load_inv tn t0 stored S db"
    and "\<forall>pid \<in> set pids. pid \<in> dom (t_partitions t0) \<and> load_column (de_capnp de) storage pid name = Inr (stored pid name) \<and>
      col_name (stored pid name) = name"
  shows "\<exists>db'. rfoldM (\<lambda>ldb pid. rbind (load_column (de_capnp de) storage pid name) (\<lambda>col. ldb_restore de pid col ldb)) db pids = Inr db' \<and>
    load_inv tn t0 stored (S \<union> set pids \<times> {name}) db'"
  using assms(2,3)
proof (induction pids arbitrary: S db)
  case (Cons pid pids)
  obtain db1 where db1: "ldb_restore de pid (stored pid name) db = Inr db1" "load_inv tn t0 stored (insert (pid, name) S) db1"
    using load_inv_restore [OF assms(1) Cons.prems(1)] Cons.prems(2) by force
  have "insert (pid, name) S \<union> set pids \<times> {name} = S \<union> set (pid # pids) \<times> {name}" by auto
  with Cons.IH [OF db1(2)] Cons.prems(2) db1(1) show ?case by simp
qed auto

text \<open>
  What the storage holds for the table: every stored column belongs to a partition of the table and is
  read back as \<open>stored\<close> says.
\<close>

definition disk_agrees :: "('l, 'b) db_env \<Rightarrow> 'b RocksDB \<Rightarrow> Table \<Rightarrow> (PartitionID \<Rightarrow> string \<Rightarrow> Column) \<Rightarrow> bool" where
  "disk_agrees de storage t0 stored \<longleftrightarrow> keys_ok (rd_partitions storage) \<and>
     (\<forall>pid name. pid < 2 ^ 64 \<longrightarrow> column_key pid name \<in> dom (rd_partitions storage) \<longrightarrow>
        pid \<in> dom (t_partitions t0) \<and> load_column (de_capnp de) storage pid name = Inr (stored pid name) \<and>
        col_name (stored pid name) = name)"

abbreviation scanned :: "'b RocksDB \<Rightarrow> DiskRun \<Rightarrow> string \<Rightarrow> (PartitionID \<times> string) set" where
  "scanned storage run name \<equiv> set (stored_ids (rd_partitions storage) name (run_start run) (run_end run)) \<times> {name}"

lemma load_inv_range:
  assumes "table_order_ok de" and "disk_agrees de storage t0 stored" and "load_inv tn t0 stored S db"
    and "key_ok (run_start run) name" and "run_end run < 2 ^ 64"
  shows "\<exists>db'. load_column_range (de_capnp de) (ldb_restore de) storage (run_start run) (run_end run) name db = Inr db' \<and>
    load_inv tn t0 stored (S \<union> scanned storage run name) db'"
proof -
  have k: "keys_ok (rd_partitions storage)" using assms(2) by (simp add: disk_agrees_def)
  have st: "\<forall>pid \<in> set (stored_ids (rd_partitions storage) name (run_start run) (run_end run)).
      pid \<in> dom (t_partitions t0) \<and> load_column (de_capnp de) storage pid name = Inr (stored pid name) \<and> col_name (stored pid name) = name"
  proof
    fix pid assume "pid \<in> set (stored_ids (rd_partitions storage) name (run_start run) (run_end run))"
    then have "pid < 2 ^ 64" "column_key pid name \<in> dom (rd_partitions storage)"
      using assms(5) by (auto simp: stored_ids_def simp del: upt_Suc)
    then show "pid \<in> dom (t_partitions t0) \<and> load_column (de_capnp de) storage pid name = Inr (stored pid name) \<and>
        col_name (stored pid name) = name"
      using assms(2) unfolding disk_agrees_def by blast
  qed
  show ?thesis
    unfolding load_column_range_eq [OF k assms(4,5)] by (rule load_inv_fold [OF assms(1,3) st])
qed

lemma load_inv_run:
  assumes "table_order_ok de" and "disk_agrees de storage t0 stored" and "load_inv tn t0 stored S db"
    and "\<forall>name \<in> set names. key_ok (run_start run) name" and "run_end run < 2 ^ 64"
  shows "\<exists>db'. rfoldM (\<lambda>ldb col. load_column_range (de_capnp de) (ldb_restore de) storage (run_start run) (run_end run) col ldb)
      db names = Inr db' \<and> load_inv tn t0 stored (S \<union> (\<Union>name \<in> set names. scanned storage run name)) db'"
  using assms(3,4)
proof (induction names arbitrary: S db)
  case (Cons name names)
  obtain db1 where db1: "load_column_range (de_capnp de) (ldb_restore de) storage (run_start run) (run_end run) name db = Inr db1"
    "load_inv tn t0 stored (S \<union> scanned storage run name) db1"
    using load_inv_range [OF assms(1,2) Cons.prems(1) _ assms(5), of name] Cons.prems(2) by auto
  from Cons.IH [OF db1(2)] Cons.prems(2) db1(1) show ?case by (simp add: Un_assoc)
qed auto

lemma load_inv_service:
  assumes "table_order_ok de" and "disk_agrees de storage t0 stored" and "load_inv tn t0 stored S db"
    and "\<forall>run \<in> set runs. finite (run_columns run) \<and> run_end run < 2 ^ 64 \<and> (\<forall>name \<in> run_columns run. key_ok (run_start run) name)"
    and "\<forall>A. finite A \<longrightarrow> set (order A) = A"
  shows "\<exists>db'. service_reads (de_capnp de) order (ldb_restore de) storage runs db = Inr (db', False) \<and>
    load_inv tn t0 stored (S \<union> (\<Union>run \<in> set runs. \<Union>name \<in> run_columns run. scanned storage run name)) db'"
  using assms(3,4)
proof (induction runs arbitrary: S db)
  case (Cons run runs)
  have o: "set (order (run_columns run)) = run_columns run" using assms(5) Cons.prems(2) by simp
  obtain db1 where db1: "service_sequential_read (de_capnp de) order (ldb_restore de) storage run db = Inr db1"
    "load_inv tn t0 stored (S \<union> (\<Union>name \<in> run_columns run. scanned storage run name)) db1"
    using load_inv_run [OF assms(1,2) Cons.prems(1), of "order (run_columns run)" run] Cons.prems(2) o
    by (auto simp: service_sequential_read_def)
  from Cons.IH [OF db1(2)] Cons.prems(2) db1(1) show ?case by (simp add: Un_assoc)
qed auto

section \<open>An example\<close>

definition example_env :: "(ColumnKey list, column_msg + meta_data_msg) db_env" where
  "example_env = \<lparr>de_env = small_env, de_ops = list_lru, de_capnp = plain_capnp,
     de_tables = (\<lambda>m. sorted_list_of_set (dom m)), de_now = 0\<rparr>"

text \<open>A storage with one partition of one column.\<close>

definition example_bytes :: "column_msg + meta_data_msg" where
  "example_bytes = Inl \<lparr>cmsg_name = ''d'', cmsg_len = 3, cmsg_range = MsgRange 101 106,
     cmsg_codec = [MsgToI64 CapU8, MsgDelta CapI64, MsgAdd CapI64 100], cmsg_data = [MsgU8 [1, 2, 3]]\<rparr>"

definition example_storage :: "(column_msg + meta_data_msg) RocksDB" where
  "example_storage =
     \<lparr>rd_metadata = [be_bytes 8 1 \<mapsto> Inr \<lparr>md_tablename = ''t'', md_len = 3, md_columns = [\<lparr>cmm_name = ''d'', cmm_size_bytes = 3\<rparr>]\<rparr>],
      rd_partitions = [column_key 1 ''d'' \<mapsto> example_bytes]\<rparr>"

definition example_table :: Table where
  "example_table = (table_new (2 ^ 20) ''t'')\<lparr>t_partitions := [1 \<mapsto> partition_nonresident 1 3 [\<lparr>cm_name = ''d'', cm_size_bytes = 3\<rparr>]]\<rparr>"

definition example_db :: "(ColumnKey list, column_msg + meta_data_msg) InnerLocustDB" where
  "example_db = \<lparr>db_tables = [''t'' \<mapsto> example_table], db_lru = [], db_storage = example_storage, db_next_partition_id = 2\<rparr>"

lemma example_order: "table_order_ok example_env"
  by (simp add: table_order_ok_def example_env_def)

lemma example_metadata:
  "load_metadata (de_capnp example_env) example_storage =
     Inr [\<lparr>pm_id = 1, pm_tablename = ''t'', pm_len = 3, pm_columns = [\<lparr>cm_name = ''d'', cm_size_bytes = 3\<rparr>]\<rparr>]"
  by (simp add: load_metadata_def entries_def example_storage_def example_env_def read_u64_def
      deserialize_meta_data_def plain_capnp_def)

lemma example_new: "ldb_new example_env [] example_storage = Inr example_db"
  unfolding ldb_new_def example_metadata
  by (simp add: load_table_metadata_def insert_nonresident_partition_def example_db_def example_table_def
      max_pid_def max_partition_id_def table_new_def)

lemma example_column:
  "deserialize_column plain_capnp example_bytes = Inr delta_column"
  "load_column (de_capnp example_env) example_storage 1 ''d'' = Inr delta_column"
proof -
  show c: "deserialize_column plain_capnp example_bytes = Inr delta_column"
    using delta_column_storable(1)
    by (simp add: deserialize_column_def plain_capnp_def example_bytes_def canonical_def delta_column_def)
  then show "load_column (de_capnp example_env) example_storage 1 ''d'' = Inr delta_column"
    by (simp add: load_column_def example_storage_def example_env_def)
qed

section \<open>Main results\<close>



text \<open>
  Restoring needs the partition in every table. A column read by a range scan is offered to all
  tables, and \<open>Table::restore\<close> indexes the map of partitions: the database panics exactly when some
  table does not have a partition with that id. Ids are unique across tables, so
  this happens in every database with two tables.
\<close>

theorem restore_needs_all_tables:
  assumes "table_order_ok de" and "finite (dom (db_tables db))"
  shows "ldb_restore de pid column db = Inl Panicked \<longleftrightarrow> (\<exists>t \<in> ran (db_tables db). t_partitions t pid = None)"
proof -
  have o: "distinct (de_tables de (db_tables db))" "set (de_tables de (db_tables db)) = dom (db_tables db)"
    using assms by (auto simp: table_order_ok_def)
  have "(\<exists>name \<in> dom (db_tables db). t_partitions (the (db_tables db name)) pid = None) \<longleftrightarrow>
      (\<exists>t \<in> ran (db_tables db). t_partitions t pid = None)"
    by (force simp: ran_def)
  then show ?thesis
    using restore_loop [of "de_tables de (db_tables db)" db "de_ops de" pid column] o by (simp add: ldb_restore_def)
qed

theorem restore_needs_all_tables_witness:
  "ldb_restore example_env 1 delta_column
     (example_db\<lparr>db_tables := [''t'' \<mapsto> example_table, ''_meta_tables'' \<mapsto> table_new (2 ^ 20) ''_meta_tables'']\<rparr>) = Inl Panicked"
proof -
  let ?meta = "table_new (2 ^ 20) ''_meta_tables''"
  let ?db = "example_db\<lparr>db_tables := [''t'' \<mapsto> example_table, ''_meta_tables'' \<mapsto> ?meta]\<rparr>"
  have "?meta \<in> ran (db_tables ?db)" by (rule ranI [of _ "''_meta_tables''"]) simp
  moreover have "t_partitions ?meta 1 = None" by (simp add: table_new_def)
  moreover have fin: "finite (dom (db_tables ?db))" unfolding InnerLocustDB.simps dom_fun_upd by simp
  note restore_needs_all_tables [OF example_order fin, of 1 delta_column]
  ultimately show ?thesis by blast
qed



end
