(* ===== verification/Executor.thy ===== *)
theory Executor
  imports LDB_Prelude "HOL-Library.Multiset"
begin

text \<open>
  The executor of a query plan on one partition, src/src/engine/execution/executor.rs. A plan is a list of
  operators that read and write numbered buffers. \<open>partition\<close> groups them into stages: the operators of a
  stage that streams run in turn on batches of 1024 rows. A stage is grown from one operator by its
  streamable producers and consumers, as long as this does not make the stage depend on itself; then the
  operators of each stage, and the stages, are sorted so that each runs after what it depends on.

  An operator is what the trait \<open>VecOperator\<close> tells about it (\<open>op_info\<close>). A \<open>Vec<bool>\<close> indexed by operators is the
  set of those that are marked, \<open>stage\<close> a map from operators to stages; the vectors of consumers and
  producers hold indices of operators, so that indexing by them stays in range. The vectors that are
  used as stacks have their top at the head of the list.

  The main results: every operator is in exactly one stage (\<open>partition_complete\<close>); when there are no cyclic
  dependencies among the operators of a stage nor among the stages, every operator runs after all it
  depends on (\<open>partition_respects_dependencies\<close>); the stages may depend on each other cyclically although
  the operators do not, and then an operator runs before one it depends on (\<open>stage_cycle\<close>).
\<close>

section \<open>Operators and the graph of buffers\<close>

record op_info =
  oi_inputs :: "nat list"
  oi_outputs :: "nat list"
  oi_can_stream_input :: "nat \<Rightarrow> bool"
  oi_can_stream_output :: "nat \<Rightarrow> bool"
  oi_mutates :: "nat \<Rightarrow> bool"
  oi_allocates :: bool
  oi_is_streaming_producer :: bool
  oi_custom_output_len :: "nat option"

record ExecutorStage =
  st_ops :: "(nat \<times> bool) list"
  st_stream :: bool

text \<open>The operators that have a buffer among their inputs or outputs, once for each time it is there.\<close>

definition occurrences :: "(op_info \<Rightarrow> nat list) \<Rightarrow> op_info list \<Rightarrow> nat \<Rightarrow> nat list" where
  "occurrences f ops b = concat (map (\<lambda>(i, op). map (\<lambda>_. i) (filter ((=) b) (f op))) (enumerate 0 ops))"

definition consumers :: "op_info list \<Rightarrow> nat \<Rightarrow> nat list" where
  "consumers ops b = occurrences oi_inputs ops b"

definition producers :: "op_info list \<Rightarrow> nat \<Rightarrow> nat list" where
  "producers ops b = occurrences oi_outputs ops b"

text \<open>Indexing the graph by a buffer panics unless the buffer was allocated by the executor.\<close>

definition buffers_ok :: "nat \<Rightarrow> op_info list \<Rightarrow> bool" where
  "buffers_ok n ops \<longleftrightarrow> list_all (\<lambda>op. list_all (\<lambda>b. b < n) (oi_inputs op @ oi_outputs op)) ops"

text \<open>The loop over the outputs overwrites the flag of the operator with each streamable output.\<close>

definition streaming_disabled :: "op_info list \<Rightarrow> nat \<Rightarrow> bool" where
  "streaming_disabled ops i =
     foldl (\<lambda>disabled b.
       if oi_can_stream_output (ops ! i) b
       then list_ex (\<lambda>c. oi_can_stream_input (ops ! c) b) (consumers ops b) \<and>
            list_ex (\<lambda>c. \<not> oi_can_stream_input (ops ! c) b) (consumers ops b)
       else disabled) False (oi_outputs (ops ! i))"

section \<open>Growing a stage\<close>

definition op_producers :: "op_info list \<Rightarrow> nat \<Rightarrow> nat list" where
  "op_producers ops i = concat (map (producers ops) (oi_inputs (ops ! i)))"

definition op_consumers :: "op_info list \<Rightarrow> nat \<Rightarrow> nat list" where
  "op_consumers ops i = concat (map (consumers ops) (oi_outputs (ops ! i)))"

lemma card_unmarked_less: "finite A \<Longrightarrow> x \<in> A \<Longrightarrow> x \<notin> M \<Longrightarrow> card (A - insert x M) < card (A - M)"
proof -
  assume "finite A" "x \<in> A" "x \<notin> M"
  then have "card (A - M - {x}) < card (A - M)" by (intro card_Diff1_less) auto
  moreover have "A - insert x M = A - M - {x}" by blast
  ultimately show ?thesis by simp
qed

text \<open>The loops that mark the transitive inputs and outputs of an operator, over a stack.\<close>

function mark_loop :: "nat \<Rightarrow> (nat \<Rightarrow> nat list) \<Rightarrow> nat list \<Rightarrow> nat set \<Rightarrow> nat set res" where
  "mark_loop n neighbours [] marked = Inr marked"
| "mark_loop n neighbours (op # stack) marked =
     (if op \<ge> n then Inl Panicked
      else if op \<in> marked then mark_loop n neighbours stack marked
      else mark_loop n neighbours (rev (neighbours op) @ stack) (insert op marked))"
  by pat_completeness auto

termination
proof (relation "measures [\<lambda>(n, neighbours, stack, marked). card ({..<n} - marked), \<lambda>(n, neighbours, stack, marked). length stack]")
  fix n neighbours op stack and marked :: "nat set"
  assume "\<not> n \<le> op" "op \<notin> marked"
  then have "card ({..<n} - insert op marked) < card ({..<n} - marked)" by (intro card_unmarked_less) auto
  then show "((n, neighbours, rev (neighbours op) @ stack, insert op marked), n, neighbours, op # stack, marked)
    \<in> measures [\<lambda>(n, neighbours, stack, marked). card ({..<n} - marked), \<lambda>(n, neighbours, stack, marked). length stack]"
    unfolding in_measures prod.case by blast
qed auto

record grouping =
  g_visited :: "nat set"
  g_stage :: "nat \<rightharpoonup> nat"
  g_to_visit :: "nat list"
  g_ops :: "nat list"
  g_stream :: bool
  g_tin :: "nat set"
  g_tout :: "nat set"
  g_ctr :: "nat list"
  g_ptr :: "nat list"

definition visit_op :: "op_info list \<Rightarrow> nat \<Rightarrow> grouping \<Rightarrow> grouping" where
  "visit_op ops p g =
     g\<lparr>g_visited := insert p (g_visited g), g_to_visit := p # g_to_visit g,
       g_stream := g_stream g \<or> oi_allocates (ops ! p)\<rparr>"

text \<open>
  Including an operator would make the stage depend on itself: one of its outputs is consumed by a
  transitive input of the stage, or one of its inputs is produced by a transitive output, outside the stage.
\<close>

definition blocked_producer :: "op_info list \<Rightarrow> nat \<Rightarrow> grouping \<Rightarrow> nat \<Rightarrow> bool" where
  "blocked_producer ops k g p \<longleftrightarrow>
     list_ex (\<lambda>c. c \<in> g_tin g \<and> g_stage g c \<noteq> Some k) (op_consumers ops p)"

definition blocked_consumer :: "op_info list \<Rightarrow> nat \<Rightarrow> grouping \<Rightarrow> nat \<Rightarrow> bool" where
  "blocked_consumer ops k g c \<longleftrightarrow>
     list_ex (\<lambda>p. p \<in> g_tout g \<and> g_stage g p \<noteq> Some k) (op_producers ops c)"

definition try_producer :: "op_info list \<Rightarrow> nat \<Rightarrow> nat \<Rightarrow> grouping \<Rightarrow> nat \<Rightarrow> grouping" where
  "try_producer ops k b g p =
     (if p \<in> g_visited g then g
      else if \<not> (oi_can_stream_output (ops ! p) b \<and> \<not> streaming_disabled ops p) then g
      else if blocked_producer ops k g p then g\<lparr>g_ptr := g_ptr g @ [p]\<rparr>
      else visit_op ops p g)"

definition try_consumer :: "op_info list \<Rightarrow> nat \<Rightarrow> nat \<Rightarrow> grouping \<Rightarrow> nat \<Rightarrow> grouping" where
  "try_consumer ops k b g c =
     (if c \<in> g_visited g then g
      else if \<not> oi_can_stream_input (ops ! c) b then g
      else if blocked_consumer ops k g c then g\<lparr>g_ctr := g_ctr g @ [c]\<rparr>
      else visit_op ops c g)"

definition try_producers :: "op_info list \<Rightarrow> nat \<Rightarrow> nat \<Rightarrow> grouping \<Rightarrow> grouping" where
  "try_producers ops k current g =
     foldl (\<lambda>g b. if oi_can_stream_input (ops ! current) b
                  then foldl (try_producer ops k b) g (producers ops b) else g)
       g (oi_inputs (ops ! current))"

definition try_consumers :: "op_info list \<Rightarrow> nat \<Rightarrow> nat \<Rightarrow> grouping \<Rightarrow> grouping" where
  "try_consumers ops k current g =
     foldl (\<lambda>g b. if oi_can_stream_output (ops ! current) b \<and> \<not> streaming_disabled ops current
                  then foldl (try_consumer ops k b) g (consumers ops b) else g)
       g (oi_outputs (ops ! current))"

text \<open>Operators that were left out are tried again; here the flag \<open>visited\<close> is not looked at.\<close>

fun revisit_producers :: "op_info list \<Rightarrow> nat \<Rightarrow> nat list \<Rightarrow> grouping \<Rightarrow> grouping" where
  "revisit_producers ops k [] g = g"
| "revisit_producers ops k (p # ptr) g =
     revisit_producers ops k ptr
       (if blocked_producer ops k g p then g\<lparr>g_ptr := g_ptr g @ [p]\<rparr> else visit_op ops p g)"

fun revisit_consumers :: "op_info list \<Rightarrow> nat \<Rightarrow> nat list \<Rightarrow> grouping \<Rightarrow> grouping" where
  "revisit_consumers ops k [] g = g"
| "revisit_consumers ops k (c # ctr) g =
     revisit_consumers ops k ctr
       (if blocked_consumer ops k g c then g\<lparr>g_ctr := g_ctr g @ [c]\<rparr> else visit_op ops c g)"

definition revisit :: "op_info list \<Rightarrow> nat \<Rightarrow> grouping \<Rightarrow> grouping" where
  "revisit ops k g =
     (if g_to_visit g = []
      then let g1 = revisit_producers ops k (g_ptr g) (g\<lparr>g_ptr := []\<rparr>)
           in revisit_consumers ops k (g_ctr g1) (g1\<lparr>g_ctr := []\<rparr>)
      else g)"

text \<open>One round of the loop, for the operator \<open>current\<close> on top of the stack of those to visit.\<close>

definition group_step :: "op_info list \<Rightarrow> nat \<Rightarrow> nat \<Rightarrow> grouping \<Rightarrow> grouping res" where
  "group_step ops k current g =
     rbind (mark_loop (length ops) (op_producers ops) [current] (g_tin g)) (\<lambda>tin.
     rbind (mark_loop (length ops) (op_consumers ops) [current] (g_tout g)) (\<lambda>tout.
       Inr (revisit ops k (try_consumers ops k current (try_producers ops k current
         (g\<lparr>g_to_visit := tl (g_to_visit g), g_stage := (g_stage g)(current \<mapsto> k), g_ops := current # g_ops g,
            g_tin := tin, g_tout := tout\<rparr>))))))"

text \<open>
  The loop ends: each round takes one operator off the stack, and puts on it only operators that
  were not visited before or that were waiting to be tried again.
\<close>

definition weight :: "grouping \<Rightarrow> nat" where
  "weight g = length (g_to_visit g) + length (filter (\<lambda>p. p \<in> g_visited g) (g_ptr g @ g_ctr g))"

definition waiting :: "grouping \<Rightarrow> nat set" where
  "waiting g = set (g_ptr g @ g_ctr g)"

definition grows :: "nat set \<Rightarrow> nat \<Rightarrow> grouping \<Rightarrow> grouping \<Rightarrow> bool" where
  "grows U n g g' \<longleftrightarrow> g_visited g \<subseteq> g_visited g' \<and> g_visited g' \<subseteq> g_visited g \<union> U \<and>
     waiting g' \<subseteq> U \<and> (g_visited g' = g_visited g \<longrightarrow> weight g' = weight g + n)"

lemma grows_trans:
  assumes 1: "grows U m g g'" and 2: "grows U n g' g''"
  shows "grows U (m + n) g g''"
proof -
  have "weight g'' = weight g + (m + n)" if "g_visited g'' = g_visited g"
  proof -
    have "g_visited g' = g_visited g" "g_visited g'' = g_visited g'" using 1 2 that unfolding grows_def by blast+
    with 1 2 show ?thesis by (simp add: grows_def)
  qed
  with 1 2 show ?thesis unfolding grows_def by blast
qed

lemma grows_refl: "waiting g \<subseteq> U \<Longrightarrow> grows U 0 g g"
  by (simp add: grows_def)

lemma grows_foldl:
  assumes "waiting g \<subseteq> U"
    and "\<And>g x. x \<in> set xs \<Longrightarrow> waiting g \<subseteq> U \<Longrightarrow> grows U 0 g (f g x)"
  shows "grows U 0 g (foldl f g xs)"
  using assms
proof (induction xs arbitrary: g)
  case (Cons x xs)
  have 1: "grows U 0 g (f g x)" using Cons.prems by simp
  then have "waiting (f g x) \<subseteq> U" by (simp add: grows_def)
  from Cons.IH [OF this] Cons.prems(2) have "grows U 0 (f g x) (foldl f (f g x) xs)" by simp
  from grows_trans [OF 1 this] show ?case by simp
qed (simp add: grows_refl)

lemma grows_visit_new:
  "p \<in> U \<Longrightarrow> p \<notin> g_visited g \<Longrightarrow> waiting g \<subseteq> U \<Longrightarrow> grows U n g (visit_op ops p g)"
  by (auto simp: grows_def visit_op_def waiting_def)

lemma grows_visit_old:
  "p \<in> g_visited g \<Longrightarrow> waiting g \<subseteq> U \<Longrightarrow> grows U 1 g (visit_op ops p g)"
  by (auto simp: grows_def visit_op_def weight_def waiting_def insert_absorb)

lemma grows_push:
  assumes "p \<in> U" and "waiting g \<subseteq> U"
  shows "grows U (if p \<in> g_visited g then 1 else 0) g (g\<lparr>g_ptr := g_ptr g @ [p]\<rparr>)"
    and "grows U (if p \<in> g_visited g then 1 else 0) g (g\<lparr>g_ctr := g_ctr g @ [p]\<rparr>)"
  using assms by (auto simp: grows_def weight_def waiting_def)

lemma occurrences_iff: "i \<in> set (occurrences f ops b) \<longleftrightarrow> i < length ops \<and> b \<in> set (f (ops ! i))"
proof
  assume "i \<in> set (occurrences f ops b)"
  then show "i < length ops \<and> b \<in> set (f (ops ! i))" by (auto simp: occurrences_def in_set_enumerate_eq)
next
  assume i: "i < length ops \<and> b \<in> set (f (ops ! i))"
  then have "(i, ops ! i) \<in> set (enumerate 0 ops)" by (simp add: in_set_enumerate_eq)
  then show "i \<in> set (occurrences f ops b)" unfolding occurrences_def set_concat set_map
    by (rule UN_I [OF imageI]) (use i in auto)
qed

lemma consumers_iff: "i \<in> set (consumers ops b) \<longleftrightarrow> i < length ops \<and> b \<in> set (oi_inputs (ops ! i))"
  by (simp add: consumers_def occurrences_iff)

lemma producers_iff: "i \<in> set (producers ops b) \<longleftrightarrow> i < length ops \<and> b \<in> set (oi_outputs (ops ! i))"
  by (simp add: producers_def occurrences_iff)

lemma grows_try_producers:
  assumes "waiting g \<subseteq> U" and "{..<length ops} \<subseteq> U"
  shows "grows U 0 g (try_producers ops k current g)"
proof -
  have "grows U 0 g (try_producer ops k b g p)" if "waiting g \<subseteq> U" "p \<in> set (producers ops b)" for g b p
    using that assms(2) grows_push(1) [of p U g] grows_visit_new [of p U g 0] grows_refl [of g U]
    by (auto simp: try_producer_def producers_iff)
  then show ?thesis unfolding try_producers_def using assms(1)
    by (intro grows_foldl) (simp_all add: grows_foldl grows_refl)
qed

lemma grows_try_consumers:
  assumes "waiting g \<subseteq> U" and "{..<length ops} \<subseteq> U"
  shows "grows U 0 g (try_consumers ops k current g)"
proof -
  have "grows U 0 g (try_consumer ops k b g p)" if "waiting g \<subseteq> U" "p \<in> set (consumers ops b)" for g b p
    using that assms(2) grows_push(2) [of p U g] grows_visit_new [of p U g 0] grows_refl [of g U]
    by (auto simp: try_consumer_def consumers_iff)
  then show ?thesis unfolding try_consumers_def using assms(1)
    by (intro grows_foldl) (simp_all add: grows_foldl grows_refl)
qed

lemma grows_waiting: "grows U n g g' \<Longrightarrow> waiting g' \<subseteq> U"
  by (simp add: grows_def)

lemma grows_change: "grows U n g g' \<Longrightarrow> (g_visited g' = g_visited g \<Longrightarrow> n = m) \<Longrightarrow> grows U m g g'"
  by (auto simp: grows_def)

lemma grows_cons:
  assumes "grows U (if p \<in> g_visited g then 1 else 0) g g1"
    and "grows U (length (filter (\<lambda>p. p \<in> g_visited g1) ps)) g1 g2"
  shows "grows U (length (filter (\<lambda>p. p \<in> g_visited g) (p # ps))) g g2"
proof (rule grows_change [OF grows_trans [OF assms]])
  assume "g_visited g2 = g_visited g"
  then have "g_visited g1 = g_visited g" using assms unfolding grows_def by blast
  then show "(if p \<in> g_visited g then 1 else 0) + length (filter (\<lambda>p. p \<in> g_visited g1) ps) =
    length (filter (\<lambda>p. p \<in> g_visited g) (p # ps))" by simp
qed

lemma grows_visit:
  "waiting g \<subseteq> U \<Longrightarrow> p \<in> U \<Longrightarrow> grows U (if p \<in> g_visited g then 1 else 0) g (visit_op ops p g)"
  using grows_visit_new [of p U g] grows_visit_old [of p g U] by simp

lemma grows_revisit_producers:
  "waiting g \<subseteq> U \<Longrightarrow> set ps \<subseteq> U \<Longrightarrow>
    grows U (length (filter (\<lambda>p. p \<in> g_visited g) ps)) g (revisit_producers ops k ps g)"
proof (induction ps arbitrary: g)
  case (Cons p ps)
  let ?g = "if blocked_producer ops k g p then g\<lparr>g_ptr := g_ptr g @ [p]\<rparr> else visit_op ops p g"
  have 1: "grows U (if p \<in> g_visited g then 1 else 0) g ?g"
    using grows_push(1) [of p U g] grows_visit [of g U p] Cons.prems by simp
  from grows_cons [OF 1 Cons.IH [OF grows_waiting [OF 1]]] Cons.prems(2) show ?case by simp
qed (simp add: grows_refl)

lemma grows_revisit_consumers:
  "waiting g \<subseteq> U \<Longrightarrow> set ps \<subseteq> U \<Longrightarrow>
    grows U (length (filter (\<lambda>p. p \<in> g_visited g) ps)) g (revisit_consumers ops k ps g)"
proof (induction ps arbitrary: g)
  case (Cons p ps)
  let ?g = "if blocked_consumer ops k g p then g\<lparr>g_ctr := g_ctr g @ [p]\<rparr> else visit_op ops p g"
  have 1: "grows U (if p \<in> g_visited g then 1 else 0) g ?g"
    using grows_push(2) [of p U g] grows_visit [of g U p] Cons.prems by simp
  from grows_cons [OF 1 Cons.IH [OF grows_waiting [OF 1]]] Cons.prems(2) show ?case by simp
qed (simp add: grows_refl)

text \<open>Taking the waiting operators out and trying them again.\<close>

lemma grows_retry:
  assumes "grows U (length (filter (\<lambda>p. p \<in> g_visited g) ps)) g' g''" and "g_visited g' = g_visited g"
    and "weight g = weight g' + length (filter (\<lambda>p. p \<in> g_visited g) ps)"
  shows "grows U 0 g g''"
  using assms by (simp add: grows_def)

lemma grows_revisit:
  assumes "waiting g \<subseteq> U"
  shows "grows U 0 g (revisit ops k g)"
proof (cases "g_to_visit g = []")
  case True
  let ?g0 = "g\<lparr>g_ptr := []\<rparr>"
  let ?g1 = "revisit_producers ops k (g_ptr g) ?g0"
  have "grows U (length (filter (\<lambda>p. p \<in> g_visited g) (g_ptr g))) ?g0 ?g1"
    using grows_revisit_producers [of ?g0 U "g_ptr g" ops k] assms by (simp add: waiting_def)
  then have 1: "grows U 0 g ?g1" by (rule grows_retry) (simp_all add: weight_def)
  let ?g2 = "?g1\<lparr>g_ctr := []\<rparr>"
  have "grows U (length (filter (\<lambda>p. p \<in> g_visited ?g1) (g_ctr ?g1))) ?g2 (revisit_consumers ops k (g_ctr ?g1) ?g2)"
    using grows_revisit_consumers [of ?g2 U "g_ctr ?g1" ops k] grows_waiting [OF 1] by (simp add: waiting_def)
  then have "grows U 0 ?g1 (revisit_consumers ops k (g_ctr ?g1) ?g2)" by (rule grows_retry) (simp_all add: weight_def)
  from grows_trans [OF 1 this] True show ?thesis by (simp add: revisit_def Let_def)
qed (simp add: revisit_def grows_refl assms)

definition remaining :: "op_info list \<Rightarrow> grouping \<Rightarrow> nat" where
  "remaining ops g = card ({..<length ops} \<union> waiting g - g_visited g)"

lemma group_step_grows:
  assumes "group_step ops k current g = Inr g'"
  obtains g0 where "g_to_visit g0 = tl (g_to_visit g)" and "g_ptr g0 = g_ptr g" and "g_ctr g0 = g_ctr g"
    and "g_visited g0 = g_visited g" and "grows ({..<length ops} \<union> waiting g) 0 g0 g'"
proof -
  let ?U = "{..<length ops} \<union> waiting g"
  from assms obtain tin tout where g': "g' = revisit ops k (try_consumers ops k current (try_producers ops k current
      (g\<lparr>g_to_visit := tl (g_to_visit g), g_stage := (g_stage g)(current \<mapsto> k), g_ops := current # g_ops g,
         g_tin := tin, g_tout := tout\<rparr>)))" (is "_ = revisit ops k (try_consumers ops k current (try_producers ops k current ?g0))")
    by (auto simp: group_step_def)
  have 1: "grows ?U 0 ?g0 (try_producers ops k current ?g0)" by (rule grows_try_producers) (auto simp: waiting_def)
  have 2: "grows ?U 0 (try_producers ops k current ?g0) (try_consumers ops k current (try_producers ops k current ?g0))"
    by (rule grows_try_consumers [OF grows_waiting [OF 1]]) auto
  have 3: "grows ?U 0 (try_consumers ops k current (try_producers ops k current ?g0)) g'"
    unfolding g' by (rule grows_revisit [OF grows_waiting [OF 2]])
  show thesis by (rule that [of ?g0]) (use grows_trans [OF grows_trans [OF 1 2] 3] in simp_all)
qed

lemma group_step_visited: "group_step ops k current g = Inr g' \<Longrightarrow> g_visited g \<subseteq> g_visited g'"
  by (erule group_step_grows) (simp add: grows_def)

lemma group_step_decreases:
  assumes "group_step ops k current g = Inr g'" and "g_to_visit g = current # rest"
  shows "remaining ops g' < remaining ops g \<or> (remaining ops g' \<le> remaining ops g \<and> weight g' < weight g)"
proof -
  let ?U = "{..<length ops} \<union> waiting g"
  obtain g0 where g0: "g_to_visit g0 = rest" "g_ptr g0 = g_ptr g" "g_ctr g0 = g_ctr g" "g_visited g0 = g_visited g"
    and all: "grows ?U 0 g0 g'"
    using group_step_grows [OF assms(1)] assms(2) by (metis list.sel(3))
  have w: "weight g = Suc (weight g0)" using assms(2) g0 by (simp add: weight_def)
  have sub: "{..<length ops} \<union> waiting g' - g_visited g' \<subseteq> ?U - g_visited g"
    using all g0(4) unfolding grows_def by blast
  have fin: "finite (?U - g_visited g)" by (simp add: waiting_def)
  show ?thesis
  proof (cases "g_visited g' = g_visited g")
    case True
    then have "weight g' = weight g0" using all g0(4) by (simp add: grows_def)
    moreover have "remaining ops g' \<le> remaining ops g" unfolding remaining_def by (rule card_mono [OF fin sub])
    ultimately show ?thesis using w by simp
  next
    case False
    then obtain p where p: "p \<in> g_visited g'" "p \<notin> g_visited g" "p \<in> ?U" using all g0(4) unfolding grows_def by blast
    then have "{..<length ops} \<union> waiting g' - g_visited g' \<subset> ?U - g_visited g" using sub by blast
    from psubset_card_mono [OF fin this] show ?thesis by (simp add: remaining_def)
  qed
qed

function group_loop :: "op_info list \<Rightarrow> nat \<Rightarrow> grouping \<Rightarrow> grouping res" where
  "group_loop ops k g =
     (case g_to_visit g of
        [] \<Rightarrow> Inr g
      | current # _ \<Rightarrow> rbind (group_step ops k current g) (group_loop ops k))"
  by pat_completeness auto

termination
proof (relation "measures [\<lambda>(ops, k, g). remaining ops g, \<lambda>(ops, k, g). weight g]")
  fix ops :: "op_info list" and k g current rest g'
  assume "g_to_visit g = current # rest" "group_step ops k current g = Inr g'"
  from group_step_decreases [OF this(2,1)]
  show "((ops, k, g'), ops, k, g) \<in> measures [\<lambda>(ops, k, g). remaining ops g, \<lambda>(ops, k, g). weight g]"
    unfolding in_measures prod.case by linarith
qed simp

declare group_loop.simps [simp del]

section \<open>What a stage consists of\<close>

text \<open>
  While a stage grows from the operators \<open>V\<close> that are in earlier stages: visited are those, the operators of
  the stage, and those to visit; nothing of an earlier stage is taken again.
\<close>

definition stage_inv :: "op_info list \<Rightarrow> nat set \<Rightarrow> (nat \<rightharpoonup> nat) \<Rightarrow> nat \<Rightarrow> grouping \<Rightarrow> bool" where
  "stage_inv ops V S k g \<longleftrightarrow>
     g_visited g = V \<union> set (g_ops g) \<union> set (g_to_visit g) \<and>
     (set (g_ops g) \<union> set (g_to_visit g) \<union> waiting g) \<inter> V = {} \<and>
     set (g_ops g) \<union> set (g_to_visit g) \<union> waiting g \<subseteq> {..<length ops} \<and>
     g_stage g = (\<lambda>i. if i \<in> set (g_ops g) then Some k else S i)"

lemma stage_inv_visit:
  "stage_inv ops V S k g \<Longrightarrow> p \<notin> V \<Longrightarrow> p < length ops \<Longrightarrow> stage_inv ops V S k (visit_op ops p g)"
  by (auto simp: stage_inv_def visit_op_def waiting_def)

lemma stage_inv_push:
  assumes "stage_inv ops V S k g" and "p \<notin> V" and "p < length ops"
  shows "stage_inv ops V S k (g\<lparr>g_ptr := g_ptr g @ [p]\<rparr>)" and "stage_inv ops V S k (g\<lparr>g_ctr := g_ctr g @ [p]\<rparr>)"
  using assms by (auto simp: stage_inv_def waiting_def)

lemma stage_inv_visited: "stage_inv ops V S k g \<Longrightarrow> p \<notin> g_visited g \<Longrightarrow> p \<notin> V"
  by (auto simp: stage_inv_def)

lemma foldl_inv: "P g \<Longrightarrow> (\<And>g x. x \<in> set xs \<Longrightarrow> P g \<Longrightarrow> P (f g x)) \<Longrightarrow> P (foldl f g xs)"
  by (induction xs arbitrary: g) auto

lemma stage_inv_try_producers:
  assumes "stage_inv ops V S k g"
  shows "stage_inv ops V S k (try_producers ops k current g)"
proof -
  have "stage_inv ops V S k (try_producer ops k b g p)" if "stage_inv ops V S k g" "p \<in> set (producers ops b)" for g b p
    using that stage_inv_visited [of ops V S k g p] stage_inv_push(1) [of ops V S k g p] stage_inv_visit [of ops V S k g p]
    by (simp add: try_producer_def producers_iff)
  then show ?thesis unfolding try_producers_def using assms
    by (intro foldl_inv [of "stage_inv ops V S k"]) (simp_all add: foldl_inv)
qed

lemma stage_inv_try_consumers:
  assumes "stage_inv ops V S k g"
  shows "stage_inv ops V S k (try_consumers ops k current g)"
proof -
  have "stage_inv ops V S k (try_consumer ops k b g p)" if "stage_inv ops V S k g" "p \<in> set (consumers ops b)" for g b p
    using that stage_inv_visited [of ops V S k g p] stage_inv_push(2) [of ops V S k g p] stage_inv_visit [of ops V S k g p]
    by (simp add: try_consumer_def consumers_iff)
  then show ?thesis unfolding try_consumers_def using assms
    by (intro foldl_inv [of "stage_inv ops V S k"]) (simp_all add: foldl_inv)
qed

lemma stage_inv_revisit_lists:
  "stage_inv ops V S k g \<Longrightarrow> set ps \<inter> V = {} \<Longrightarrow> set ps \<subseteq> {..<length ops} \<Longrightarrow> stage_inv ops V S k (revisit_producers ops k ps g)"
  "stage_inv ops V S k g \<Longrightarrow> set ps \<inter> V = {} \<Longrightarrow> set ps \<subseteq> {..<length ops} \<Longrightarrow> stage_inv ops V S k (revisit_consumers ops k ps g)"
  by (induction ps arbitrary: g) (auto simp: stage_inv_push stage_inv_visit)

lemma stage_inv_waiting:
  assumes "stage_inv ops V S k g"
  shows "set (g_ptr g) \<inter> V = {}" "set (g_ctr g) \<inter> V = {}" "set (g_ptr g) \<subseteq> {..<length ops}" "set (g_ctr g) \<subseteq> {..<length ops}"
    and "stage_inv ops V S k (g\<lparr>g_ptr := []\<rparr>)" and "stage_inv ops V S k (g\<lparr>g_ctr := []\<rparr>)"
  using assms by (auto simp: stage_inv_def waiting_def)

lemma stage_inv_revisit: "stage_inv ops V S k g \<Longrightarrow> stage_inv ops V S k (revisit ops k g)"
  unfolding revisit_def Let_def
  by (auto intro!: stage_inv_revisit_lists stage_inv_waiting)

lemma stage_inv_step:
  assumes "stage_inv ops V S k g" and "g_to_visit g = current # rest" and "group_step ops k current g = Inr g'"
  shows "stage_inv ops V S k g'"
proof -
  from assms(3) obtain tin tout where g': "g' = revisit ops k (try_consumers ops k current (try_producers ops k current
      (g\<lparr>g_to_visit := tl (g_to_visit g), g_stage := (g_stage g)(current \<mapsto> k), g_ops := current # g_ops g,
         g_tin := tin, g_tout := tout\<rparr>)))" (is "_ = revisit ops k (try_consumers ops k current (try_producers ops k current ?g0))")
    by (auto simp: group_step_def)
  have "stage_inv ops V S k ?g0" using assms(1,2) by (auto simp: stage_inv_def waiting_def)
  then show ?thesis unfolding g'
    by (intro stage_inv_revisit stage_inv_try_consumers stage_inv_try_producers)
qed

lemma group_loop_inv:
  "group_loop ops k g = Inr g' \<Longrightarrow> stage_inv ops V S k g \<Longrightarrow> stage_inv ops V S k g' \<and> g_to_visit g' = []"
proof (induction ops k g rule: group_loop.induct)
  case (1 ops k g)
  show ?case
  proof (cases "g_to_visit g")
    case Nil
    with 1(2,3) show ?thesis by (simp add: group_loop.simps)
  next
    case (Cons current rest)
    with 1(2) obtain g1 where g1: "group_step ops k current g = Inr g1" "group_loop ops k g1 = Inr g'"
      by (auto simp: group_loop.simps [of ops k g])
    with 1(1) [OF Cons g1(1) g1(2)] stage_inv_step [OF 1(3) Cons g1(1)] show ?thesis by blast
  qed
qed

lemma mark_loop_ok:
  "\<forall>x \<in> set stack. x < n \<Longrightarrow> \<forall>x < n. \<forall>y \<in> set (f x). y < n \<Longrightarrow> \<exists>m. mark_loop n f stack marked = Inr m"
  by (induction n f stack marked rule: mark_loop.induct) (auto simp: not_le)

lemma op_producers_iff: "p \<in> set (op_producers ops i) \<longleftrightarrow> p < length ops \<and> (\<exists>b \<in> set (oi_inputs (ops ! i)). b \<in> set (oi_outputs (ops ! p)))"
  by (auto simp: op_producers_def producers_iff)

lemma op_consumers_iff: "c \<in> set (op_consumers ops i) \<longleftrightarrow> c < length ops \<and> (\<exists>b \<in> set (oi_outputs (ops ! i)). b \<in> set (oi_inputs (ops ! c)))"
  by (auto simp: op_consumers_def consumers_iff)

lemma group_step_ok: "current < length ops \<Longrightarrow> \<exists>g'. group_step ops k current g = Inr g'"
  using mark_loop_ok [of "[current]" "length ops" "op_producers ops" "g_tin g"]
    mark_loop_ok [of "[current]" "length ops" "op_consumers ops" "g_tout g"]
  by (auto simp: group_step_def op_producers_iff op_consumers_iff)

lemma group_loop_ok:
  "stage_inv ops V S k g \<Longrightarrow> \<exists>g'. group_loop ops k g = Inr g'"
proof (induction ops k g rule: group_loop.induct)
  case (1 ops k g)
  show ?case
  proof (cases "g_to_visit g")
    case Nil
    then show ?thesis by (simp add: group_loop.simps)
  next
    case (Cons current rest)
    with 1(2) have "current < length ops" by (auto simp: stage_inv_def)
    then obtain g1 where g1: "group_step ops k current g = Inr g1" using group_step_ok by blast
    with 1(1) [OF Cons g1] stage_inv_step [OF 1(2) Cons g1] Cons show ?thesis
      by (simp add: group_loop.simps [of ops k g])
  qed
qed

lemma group_loop_visited: "group_loop ops k g = Inr g' \<Longrightarrow> g_visited g \<subseteq> g_visited g'"
proof (induction ops k g rule: group_loop.induct)
  case (1 ops k g)
  show ?case
  proof (cases "g_to_visit g")
    case Nil
    with 1(2) show ?thesis by (simp add: group_loop.simps)
  next
    case (Cons current rest)
    with 1(2) obtain g1 where g1: "group_step ops k current g = Inr g1" "group_loop ops k g1 = Inr g'"
      by (auto simp: group_loop.simps [of ops k g])
    with 1(1) [OF Cons g1(1) g1(2)] group_step_visited [OF g1(1)] show ?thesis by blast
  qed
qed

section \<open>Sorting the operators of a stage\<close>

text \<open>What an operator depends on within its stage: producers of its inputs, and other readers of an input it changes.\<close>

definition stage_deps :: "op_info list \<Rightarrow> (nat \<rightharpoonup> nat) \<Rightarrow> nat \<Rightarrow> nat \<Rightarrow> nat list" where
  "stage_deps ops stage k op =
     concat (map (\<lambda>b. filter (\<lambda>p. stage p = Some k) (producers ops b) @
        (if oi_mutates (ops ! op) b then filter (\<lambda>c. c \<noteq> op \<and> stage c = Some k) (consumers ops b) else []))
       (oi_inputs (ops ! op)))"

lemma stage_deps_iff:
  "d \<in> set (stage_deps ops stage k op) \<longleftrightarrow> d < length ops \<and> stage d = Some k \<and>
     (\<exists>b \<in> set (oi_inputs (ops ! op)). b \<in> set (oi_outputs (ops ! d)) \<or>
        (oi_mutates (ops ! op) b \<and> d \<noteq> op \<and> b \<in> set (oi_inputs (ops ! d))))"
  by (auto simp: stage_deps_def producers_iff consumers_iff)

function topo_loop ::
    "op_info list \<Rightarrow> (nat \<rightharpoonup> nat) \<Rightarrow> nat \<Rightarrow> nat list \<Rightarrow> nat set \<Rightarrow> nat set \<Rightarrow> nat list \<Rightarrow>
     (nat set \<times> nat set \<times> nat list) res" where
  "topo_loop ops stage k [] dependencies_visited topo_pushed total_order =
     Inr (dependencies_visited, topo_pushed, total_order)"
| "topo_loop ops stage k (op # stack) dependencies_visited topo_pushed total_order =
     (if op \<notin> dependencies_visited
      then if op \<in> set (stage_deps ops stage k op) then Inl Panicked
           else topo_loop ops stage k (rev (stage_deps ops stage k op) @ op # stack)
                  (insert op dependencies_visited) topo_pushed total_order
      else if op \<notin> topo_pushed
      then topo_loop ops stage k stack dependencies_visited (insert op topo_pushed) (total_order @ [op])
      else topo_loop ops stage k stack dependencies_visited topo_pushed total_order)"
  by pat_completeness auto

termination
proof (relation "measures [\<lambda>(ops, stage, k, stack, D, T, out). card (({..<length ops} \<union> set stack) - D),
    \<lambda>(ops, stage, k, stack, D, T, out). length stack]")
  fix ops stage k op stack and D T :: "nat set" and out :: "nat list"
  assume "op \<notin> D" "op \<notin> set (stage_deps ops stage k op)"
  let ?A = "{..<length ops} \<union> set (op # stack)"
  have "{..<length ops} \<union> set (rev (stage_deps ops stage k op) @ op # stack) = ?A" by (auto simp: stage_deps_iff)
  moreover have "card (?A - insert op D) < card (?A - D)" using \<open>op \<notin> D\<close> by (intro card_unmarked_less) auto
  ultimately show "((ops, stage, k, rev (stage_deps ops stage k op) @ op # stack, insert op D, T, out), ops, stage, k, op # stack, D, T, out)
    \<in> measures [\<lambda>(ops, stage, k, stack, D, T, out). card (({..<length ops} \<union> set stack) - D),
    \<lambda>(ops, stage, k, stack, D, T, out). length stack]"
    unfolding in_measures prod.case by metis
next
  fix ops :: "op_info list" and stage :: "nat \<rightharpoonup> nat" and k :: nat and op stack and D T :: "nat set" and out :: "nat list"
  assume "\<not> op \<notin> D"
  then have "({..<length ops} \<union> set stack) - D = ({..<length ops} \<union> set (op # stack)) - D" by auto
  then show "((ops, stage, k, stack, D, insert op T, out @ [op]), ops, stage, k, op # stack, D, T, out)
    \<in> measures [\<lambda>(ops, stage, k, stack, D, T, out). card (({..<length ops} \<union> set stack) - D),
    \<lambda>(ops, stage, k, stack, D, T, out). length stack]"
    "((ops, stage, k, stack, D, T, out), ops, stage, k, op # stack, D, T, out)
    \<in> measures [\<lambda>(ops, stage, k, stack, D, T, out). card (({..<length ops} \<union> set stack) - D),
    \<lambda>(ops, stage, k, stack, D, T, out). length stack]"
    unfolding in_measures prod.case by simp_all
qed simp

text \<open>Every element of a list comes after the elements it depends on.\<close>

definition ordered_by :: "('a \<Rightarrow> 'a list) \<Rightarrow> 'a list \<Rightarrow> bool" where
  "ordered_by deps xs \<longleftrightarrow> (\<forall>i < length xs. set (deps (xs ! i)) \<subseteq> set (take i xs))"

lemma ordered_by_Nil [simp]: "ordered_by deps []"
  by (simp add: ordered_by_def)

lemma ordered_by_snoc: "ordered_by deps (xs @ [x]) \<longleftrightarrow> ordered_by deps xs \<and> set (deps x) \<subseteq> set xs"
  by (auto simp: ordered_by_def nth_append less_Suc_eq all_conj_distrib)

lemma ordered_by_append:
  "ordered_by deps (xs @ ys) \<longleftrightarrow> ordered_by deps xs \<and> (\<forall>k < length ys. set (deps (ys ! k)) \<subseteq> set xs \<union> set (take k ys))"
proof (induction ys rule: rev_induct)
  case (snoc y ys)
  show ?case unfolding append_assoc [symmetric] ordered_by_snoc snoc.IH
    by (auto simp: nth_append less_Suc_eq)
qed simp

definition topo_inv :: "nat set \<Rightarrow> nat set \<Rightarrow> nat list \<Rightarrow> nat set \<Rightarrow> nat set \<Rightarrow> nat list \<Rightarrow> bool" where
  "topo_inv A T0 stack D T out \<longleftrightarrow>
     set stack \<subseteq> A \<and> set out \<subseteq> A \<and> T0 \<inter> A = {} \<and> T = T0 \<union> set out \<and> distinct out \<and> set out \<subseteq> D \<and>
     D \<inter> A \<subseteq> set out \<union> set stack \<and> A \<subseteq> set stack \<union> D"

lemma topo_loop_complete:
  assumes "topo_loop ops stage k stack D T out = Inr (D', T', out')" and "topo_inv A T0 stack D T out"
    and "\<forall>op \<in> A. set (stage_deps ops stage k op) \<subseteq> A"
  shows "set out' = A \<and> distinct out' \<and> T' = T0 \<union> A \<and> D' - A = D - A"
  using assms
proof (induction ops stage k stack D T out rule: topo_loop.induct)
  case (1 ops stage k D T out)
  then show ?case by (auto simp: topo_inv_def)
next
  case (2 ops stage k op stack D T out)
  have op: "op \<in> A" using 2(5) by (simp add: topo_inv_def)
  consider (new) "op \<notin> D" | (push) "op \<in> D" "op \<notin> T" | (skip) "op \<in> D" "op \<in> T" by blast
  then show ?case
  proof cases
    case new
    have "topo_inv A T0 (rev (stage_deps ops stage k op) @ op # stack) (insert op D) T out"
      using 2(5,6) op by (auto simp: topo_inv_def)
    moreover have nt: "op \<notin> set (stage_deps ops stage k op)" using 2(4) new by (auto split: if_splits)
    ultimately show ?thesis using 2(1) [OF new nt] 2(4,6) new op by auto
  next
    case push
    then have "topo_inv A T0 stack D (insert op T) (out @ [op])" using 2(5) by (auto simp: topo_inv_def)
    then show ?thesis using 2(2) 2(4,6) push by simp
  next
    case skip
    then have "topo_inv A T0 stack D T out" using 2(5) op by (auto simp: topo_inv_def)
    then show ?thesis using 2(3) 2(4,6) skip by simp
  qed
qed

text \<open>An operator whose dependencies were pushed stays on the stack below them, and they have a smaller rank.\<close>

definition pending :: "(nat \<Rightarrow> nat list) \<Rightarrow> (nat \<Rightarrow> nat) \<Rightarrow> nat list \<Rightarrow> nat list \<Rightarrow> nat \<Rightarrow> bool" where
  "pending deps r out stack q \<longleftrightarrow>
     (\<exists>above below. stack = above @ q # below \<and> q \<notin> set above \<and> (\<forall>x \<in> set above. r x < r q) \<and>
        set (deps q) \<subseteq> set out \<union> set above)"

lemma pending_top: "pending deps r out (q # stack) q \<Longrightarrow> set (deps q) \<subseteq> set out"
  unfolding pending_def by (auto simp: Cons_eq_append_conv)

lemma pending_pop:
  "pending deps r out (op # stack) q \<Longrightarrow> q \<noteq> op \<Longrightarrow> op \<in> set out' \<Longrightarrow> set out \<subseteq> set out' \<Longrightarrow> pending deps r out' stack q"
  unfolding pending_def by (fastforce simp: Cons_eq_append_conv)

lemma pending_push:
  assumes "pending deps r out (op # stack) q" and "q \<noteq> op" and "\<forall>d \<in> set ds. r d < r op"
  shows "pending deps r out (ds @ op # stack) q"
proof -
  from assms(1,2) obtain above below where a: "stack = above @ q # below" "q \<notin> set above" "r op < r q"
    "\<forall>x \<in> set above. r x < r q" "set (deps q) \<subseteq> set out \<union> set (op # above)"
    unfolding pending_def by (auto simp: Cons_eq_append_conv)
  have "\<forall>d \<in> set ds. r d < r q" using assms(3) a(3) by (auto intro: less_trans)
  then have "ds @ op # stack = (ds @ op # above) @ q # below \<and> q \<notin> set (ds @ op # above) \<and>
      (\<forall>x \<in> set (ds @ op # above). r x < r q) \<and> set (deps q) \<subseteq> set out \<union> set (ds @ op # above)"
    using a assms(2) by auto
  then show ?thesis unfolding pending_def by blast
qed

lemma pending_new: "\<forall>d \<in> set (deps op). r d < r op \<Longrightarrow> pending deps r out (rev (deps op) @ op # stack) op"
  unfolding pending_def by (intro exI [of _ "rev (deps op)"] exI [of _ stack]) auto

lemma topo_loop_sorted:
  assumes "topo_inv A T0 stack D T out"
    and "\<forall>op \<in> A. \<forall>d \<in> set (stage_deps ops stage k op). d \<in> A \<and> r d < (r op :: nat)"
    and "\<forall>q \<in> D \<inter> A - set out. pending (stage_deps ops stage k) r out stack q" and "ordered_by (stage_deps ops stage k) out"
  shows "\<exists>D' T' out'. topo_loop ops stage k stack D T out = Inr (D', T', out') \<and> ordered_by (stage_deps ops stage k) out'"
  using assms
proof (induction ops stage k stack D T out rule: topo_loop.induct)
  case (1 ops stage k D T out)
  then show ?case by simp
next
  case (2 ops stage k op stack D T out)
  let ?deps = "stage_deps ops stage k"
  note inv = 2(4) and rank = 2(5) and pend = 2(6) and resp = 2(7)
  have op: "op \<in> A" using inv by (simp add: topo_inv_def)
  consider (new) "op \<notin> D" | (push) "op \<in> D" "op \<notin> T" | (skip) "op \<in> D" "op \<in> T" by blast
  then show ?case
  proof cases
    case new
    have small: "\<forall>d \<in> set (?deps op). r d < r op" using rank op by blast
    then have nt: "op \<notin> set (?deps op)" by blast
    have i: "topo_inv A T0 (rev (?deps op) @ op # stack) (insert op D) T out" using inv rank op by (auto simp: topo_inv_def)
    have "\<forall>q \<in> insert op D \<inter> A - set out. pending ?deps r out (rev (?deps op) @ op # stack) q"
      using pend pending_new [of "?deps" op r out stack] small pending_push [of "?deps" r out op stack _ "rev (?deps op)"] by auto
    from 2(1) [OF new nt i rank this resp] show ?thesis using new nt by simp
  next
    case push
    then have out: "op \<notin> set out" using inv by (auto simp: topo_inv_def)
    have i: "topo_inv A T0 stack D (insert op T) (out @ [op])" using inv push by (auto simp: topo_inv_def)
    have "set (?deps op) \<subseteq> set out" using pend push(1) op out pending_top by blast
    then have rs: "ordered_by ?deps (out @ [op])" using resp by (simp add: ordered_by_snoc)
    have "\<forall>q \<in> D \<inter> A - set (out @ [op]). pending ?deps r (out @ [op]) stack q"
      using pend pending_pop [of "?deps" r out op stack _ "out @ [op]"] by auto
    from 2(2) [OF _ _ i rank this rs] show ?thesis using push by simp
  next
    case skip
    then have out: "op \<in> set out" using inv op by (auto simp: topo_inv_def)
    have i: "topo_inv A T0 stack D T out" using inv out by (auto simp: topo_inv_def)
    have "\<forall>q \<in> D \<inter> A - set out. pending ?deps r out stack q"
      using pend pending_pop [of "?deps" r out op stack _ out] out by auto
    from 2(3) [OF _ _ i rank this resp] show ?thesis using skip by simp
  qed
qed

section \<open>All stages\<close>

record part_state =
  ps_visited :: "nat set"
  ps_stage :: "nat \<rightharpoonup> nat"
  ps_dependencies_visited :: "nat set"
  ps_topo_pushed :: "nat set"
  ps_stages :: "ExecutorStage list"

definition part_init :: part_state where
  "part_init = \<lparr>ps_visited = {}, ps_stage = Map.empty, ps_dependencies_visited = {}, ps_topo_pushed = {}, ps_stages = []\<rparr>"

text \<open>Whether the output of an operator goes to streaming consumers only.\<close>

definition streamable_output :: "op_info list \<Rightarrow> nat \<Rightarrow> bool" where
  "streamable_output ops i =
     (let bs = filter (oi_can_stream_output (ops ! i)) (oi_outputs (ops ! i)) in
      list_ex (\<lambda>b. list_ex (\<lambda>c. oi_can_stream_input (ops ! c) b) (consumers ops b)) bs \<and>
      \<not> list_ex (\<lambda>b. list_ex (\<lambda>c. \<not> oi_can_stream_input (ops ! c) b) (consumers ops b)) bs)"

definition new_stage :: "op_info list \<Rightarrow> part_state \<Rightarrow> nat \<Rightarrow> part_state res" where
  "new_stage ops ps i =
     (let k = length (ps_stages ps) in
      rbind (group_loop ops k
        \<lparr>g_visited = insert i (ps_visited ps), g_stage = ps_stage ps, g_to_visit = [i], g_ops = [], g_stream = False,
         g_tin = {}, g_tout = {}, g_ctr = [], g_ptr = []\<rparr>) (\<lambda>g.
      rbind (topo_loop ops (g_stage g) k (g_ops g) (ps_dependencies_visited ps) (ps_topo_pushed ps) [])
        (\<lambda>(dependencies_visited, topo_pushed, total_order).
        Inr \<lparr>ps_visited = g_visited g, ps_stage = g_stage g, ps_dependencies_visited = dependencies_visited,
             ps_topo_pushed = topo_pushed,
             ps_stages = ps_stages ps @
               [\<lparr>st_ops = map (\<lambda>op. (op, streamable_output ops op)) total_order,
                 st_stream = g_stream g \<and> list_ex (\<lambda>op. oi_is_streaming_producer (ops ! op)) total_order\<rparr>]\<rparr>)))"

abbreviation stage_op_list :: "ExecutorStage \<Rightarrow> nat list" where
  "stage_op_list s \<equiv> map fst (st_ops s)"

abbreviation all_ops :: "ExecutorStage list \<Rightarrow> nat list" where
  "all_ops stages \<equiv> concat (map stage_op_list stages)"

text \<open>The invariant between two stages.\<close>

definition part_inv :: "op_info list \<Rightarrow> part_state \<Rightarrow> bool" where
  "part_inv ops ps \<longleftrightarrow>
     ps_visited ps = set (all_ops (ps_stages ps)) \<and> ps_visited ps \<subseteq> {..<length ops} \<and>
     ps_dependencies_visited ps \<subseteq> ps_visited ps \<and> ps_topo_pushed ps = ps_visited ps \<and>
     distinct (all_ops (ps_stages ps)) \<and> (\<forall>s \<in> set (ps_stages ps). st_ops s \<noteq> []) \<and>
     (\<forall>i j. ps_stage ps i = Some j \<longleftrightarrow> j < length (ps_stages ps) \<and> i \<in> set (stage_op_list (ps_stages ps ! j)))"

lemma part_init_inv: "part_inv ops part_init"
  by (simp add: part_inv_def part_init_def)

lemma new_stage_grouping:
  assumes "part_inv ops ps" and "i < length ops" and "i \<notin> ps_visited ps"
  obtains g where "group_loop ops (length (ps_stages ps))
      \<lparr>g_visited = insert i (ps_visited ps), g_stage = ps_stage ps, g_to_visit = [i], g_ops = [], g_stream = False,
       g_tin = {}, g_tout = {}, g_ctr = [], g_ptr = []\<rparr> = Inr g"
    and "g_visited g = ps_visited ps \<union> set (g_ops g)" and "set (g_ops g) \<inter> ps_visited ps = {}"
    and "set (g_ops g) \<subseteq> {..<length ops}"
    and "g_stage g = (\<lambda>j. if j \<in> set (g_ops g) then Some (length (ps_stages ps)) else ps_stage ps j)" and "i \<in> set (g_ops g)"
proof -
  let ?g0 = "\<lparr>g_visited = insert i (ps_visited ps), g_stage = ps_stage ps, g_to_visit = [i], g_ops = [], g_stream = False,
       g_tin = {}, g_tout = {}, g_ctr = [], g_ptr = []\<rparr>"
  let ?k = "length (ps_stages ps)"
  have inv: "stage_inv ops (ps_visited ps) (ps_stage ps) ?k ?g0"
    using assms by (auto simp: stage_inv_def waiting_def)
  obtain g where g: "group_loop ops ?k ?g0 = Inr g" using group_loop_ok [OF inv] by blast
  have r: "stage_inv ops (ps_visited ps) (ps_stage ps) ?k g" "g_to_visit g = []" using group_loop_inv [OF g inv] by auto
  then have v: "g_visited g = ps_visited ps \<union> set (g_ops g)" by (simp add: stage_inv_def)
  moreover have "i \<in> g_visited g" using group_loop_visited [OF g] by auto
  ultimately show thesis using that [OF g] r assms(3) by (auto simp: stage_inv_def)
qed

text \<open>An operator does not read a buffer that it writes.\<close>

definition no_trivial_cycle :: "op_info list \<Rightarrow> bool" where
  "no_trivial_cycle ops \<longleftrightarrow> list_all (\<lambda>op. set (oi_inputs op) \<inter> set (oi_outputs op) = {}) ops"

lemma topo_loop_ok:
  assumes "no_trivial_cycle ops" and "\<forall>i \<in> set stack. i < length ops"
  shows "\<exists>r. topo_loop ops stage k stack D T out = Inr r"
  using assms
proof (induction ops stage k stack D T out rule: topo_loop.induct)
  case (2 ops stage k op stack D T out)
  have "op \<notin> set (stage_deps ops stage k op)"
    using 2(4,5) by (auto simp: stage_deps_iff no_trivial_cycle_def list_all_length)
  moreover have "\<forall>i \<in> set (rev (stage_deps ops stage k op) @ op # stack). i < length ops"
    using 2(5) by (auto simp: stage_deps_iff)
  ultimately show ?case using 2 by simp
qed simp

lemma stage_ops_subset: "s \<in> set stages \<Longrightarrow> set (stage_op_list s) \<subseteq> set (all_ops stages)"
  by auto

text \<open>The operators of a new stage, in the order of the sort.\<close>

lemma new_stage_spec:
  assumes "part_inv ops ps" and "i < length ops" and "i \<notin> ps_visited ps" and "no_trivial_cycle ops"
  obtains ps' s where "new_stage ops ps i = Inr ps'" and "part_inv ops ps'" and "ps_stages ps' = ps_stages ps @ [s]"
    and "\<forall>r. (\<forall>op \<in> set (stage_op_list s). \<forall>d \<in> set (stage_deps ops (ps_stage ps') (length (ps_stages ps)) op). r d < (r op :: nat)) \<longrightarrow>
      ordered_by (stage_deps ops (ps_stage ps') (length (ps_stages ps))) (stage_op_list s)"
proof -
  let ?k = "length (ps_stages ps)"
  obtain g where g: "group_loop ops ?k
      \<lparr>g_visited = insert i (ps_visited ps), g_stage = ps_stage ps, g_to_visit = [i], g_ops = [], g_stream = False,
       g_tin = {}, g_tout = {}, g_ctr = [], g_ptr = []\<rparr> = Inr g"
    and v: "g_visited g = ps_visited ps \<union> set (g_ops g)" "set (g_ops g) \<inter> ps_visited ps = {}"
      "set (g_ops g) \<subseteq> {..<length ops}"
    and st: "g_stage g = (\<lambda>j. if j \<in> set (g_ops g) then Some ?k else ps_stage ps j)" and i: "i \<in> set (g_ops g)"
    by (rule new_stage_grouping [OF assms(1-3)])
  let ?A = "set (g_ops g)"
  have old: "ps_visited ps = set (all_ops (ps_stages ps))" "ps_visited ps \<subseteq> {..<length ops}"
    "ps_dependencies_visited ps \<subseteq> ps_visited ps" "distinct (all_ops (ps_stages ps))" "\<forall>s \<in> set (ps_stages ps). st_ops s \<noteq> []"
    "ps_topo_pushed ps = ps_visited ps"
    and stage: "\<forall>i j. ps_stage ps i = Some j \<longleftrightarrow> j < ?k \<and> i \<in> set (stage_op_list (ps_stages ps ! j))"
    using assms(1) unfolding part_inv_def by blast+
  have A: "g_stage g j = Some ?k \<longleftrightarrow> j \<in> ?A" for j
  proof -
    have "ps_stage ps j \<noteq> Some ?k" using stage by simp
    then show ?thesis by (simp add: st)
  qed
  have deps: "\<forall>op \<in> ?A. set (stage_deps ops (g_stage g) ?k op) \<subseteq> ?A"
    unfolding subset_iff stage_deps_iff A by blast
  have ti: "topo_inv ?A (ps_visited ps) (g_ops g) (ps_dependencies_visited ps) (ps_topo_pushed ps) []"
    using old(3,6) v(2) by (auto simp: topo_inv_def)
  have "\<forall>j \<in> set (g_ops g). j < length ops" using v(3) by auto
  from topo_loop_ok [OF assms(4) this] obtain D T out where
    t: "topo_loop ops (g_stage g) ?k (g_ops g) (ps_dependencies_visited ps) (ps_topo_pushed ps) [] = Inr (D, T, out)"
    by (metis prod.collapse)
  note c = topo_loop_complete [OF t ti deps]
  let ?s = "\<lparr>st_ops = map (\<lambda>op. (op, streamable_output ops op)) out,
    st_stream = g_stream g \<and> list_ex (\<lambda>op. oi_is_streaming_producer (ops ! op)) out\<rparr>"
  let ?ps = "\<lparr>ps_visited = g_visited g, ps_stage = g_stage g, ps_dependencies_visited = D, ps_topo_pushed = T,
    ps_stages = ps_stages ps @ [?s]\<rparr>"
  have so: "stage_op_list ?s = out" by (simp add: comp_def)
  have new: "new_stage ops ps i = Inr ?ps" using g t by (simp add: new_stage_def)
  have inv: "part_inv ops ?ps"
  proof -
    have all: "all_ops (ps_stages ps @ [?s]) = all_ops (ps_stages ps) @ out" by (simp add: comp_def)
    have "g_stage g l = Some j \<longleftrightarrow> j < length (ps_stages ps @ [?s]) \<and> l \<in> set (stage_op_list ((ps_stages ps @ [?s]) ! j))" for l j
    proof (cases "j = ?k")
      case True
      then show ?thesis using A so c by simp
    next
      case False
      have "l \<notin> set (stage_op_list (ps_stages ps ! j))" if "l \<in> ?A" "j < ?k"
      proof -
        have "set (stage_op_list (ps_stages ps ! j)) \<subseteq> ps_visited ps"
          unfolding old(1) by (rule stage_ops_subset) (use that(2) in simp)
        with that(1) v(2) show ?thesis by blast
      qed
      then show ?thesis using False stage by (auto simp: st nth_append)
    qed
    moreover have "D \<subseteq> g_visited g" using c old(3) v(1) by blast
    moreover have "distinct (all_ops (ps_stages ps @ [?s]))" using all old(1,4) c v(2) by auto
    moreover have "out \<noteq> []" using c i by auto
    ultimately show ?thesis unfolding part_inv_def part_state.simps all using old c v by auto
  qed
  show thesis
  proof (rule that [OF new inv])
    show "ps_stages ?ps = ps_stages ps @ [?s]" by simp
    show "\<forall>r. (\<forall>op \<in> set (stage_op_list ?s). \<forall>d \<in> set (stage_deps ops (ps_stage ?ps) ?k op). r d < (r op :: nat)) \<longrightarrow>
      ordered_by (stage_deps ops (ps_stage ?ps) ?k) (stage_op_list ?s)"
    proof (intro allI impI)
    fix r :: "nat \<Rightarrow> nat"
    assume "\<forall>op \<in> set (stage_op_list ?s). \<forall>d \<in> set (stage_deps ops (ps_stage ?ps) ?k op). r d < r op"
    then have "\<forall>op \<in> ?A. \<forall>d \<in> set (stage_deps ops (g_stage g) ?k op). d \<in> ?A \<and> r d < r op"
      using so c deps by auto
    moreover have "ps_dependencies_visited ps \<inter> ?A = {}" using old(3) v(2) by auto
    ultimately have "ordered_by (stage_deps ops (g_stage g) ?k) out"
      using topo_loop_sorted [OF ti, of ops "g_stage g" ?k r] t by auto
    then show "ordered_by (stage_deps ops (ps_stage ?ps) ?k) (stage_op_list ?s)" using so by simp
    qed
  qed
qed

lemma new_stage_visited:
  assumes "new_stage ops ps i = Inr ps'"
  shows "insert i (ps_visited ps) \<subseteq> ps_visited ps'"
proof -
  let ?g0 = "\<lparr>g_visited = insert i (ps_visited ps), g_stage = ps_stage ps, g_to_visit = [i], g_ops = [], g_stream = False,
       g_tin = {}, g_tout = {}, g_ctr = [], g_ptr = []\<rparr>"
  from assms obtain g where "group_loop ops (length (ps_stages ps)) ?g0 = Inr g" "ps_visited ps' = g_visited g"
    by (auto simp: new_stage_def Let_def)
  with group_loop_visited [OF this(1)] show ?thesis by simp
qed

lemma find_Some_unvisited: "find (\<lambda>i. i \<notin> V) [0..<n] = Some i \<Longrightarrow> i < n \<and> i \<notin> V"
  by (auto simp: find_Some_iff)

lemma find_None_visited: "find (\<lambda>i. i \<notin> V) [0..<n] = None \<Longrightarrow> {..<n} \<subseteq> V"
  by (auto simp: find_None_iff)

function stages_loop :: "op_info list \<Rightarrow> part_state \<Rightarrow> ExecutorStage list res" where
  "stages_loop ops ps =
     (case find (\<lambda>i. i \<notin> ps_visited ps) [0..<length ops] of
        None \<Rightarrow> Inr (ps_stages ps)
      | Some i \<Rightarrow> rbind (new_stage ops ps i) (stages_loop ops))"
  by pat_completeness auto

termination
proof (relation "measure (\<lambda>(ops, ps). card ({..<length ops} - ps_visited ps))")
  fix ops :: "op_info list" and ps i ps'
  assume i: "find (\<lambda>i. i \<notin> ps_visited ps) [0..<length ops] = Some i" and n: "new_stage ops ps i = Inr ps'"
  have "card ({..<length ops} - ps_visited ps') \<le> card ({..<length ops} - insert i (ps_visited ps))"
    using new_stage_visited [OF n] by (intro card_mono) auto
  also have "\<dots> < card ({..<length ops} - ps_visited ps)"
    using find_Some_unvisited [OF i] by (intro card_unmarked_less) auto
  finally show "((ops, ps'), ops, ps) \<in> measure (\<lambda>(ops, ps). card ({..<length ops} - ps_visited ps))" by simp
qed simp

declare stages_loop.simps [simp del]

section \<open>Sorting the stages\<close>

definition op_deps :: "op_info list \<Rightarrow> nat \<Rightarrow> nat list" where
  "op_deps ops op =
     concat (map (\<lambda>b. producers ops b @ (if oi_mutates (ops ! op) b then consumers ops b else [])) (oi_inputs (ops ! op)))"

definition stage_for_op :: "ExecutorStage list \<Rightarrow> nat \<Rightarrow> nat" where
  "stage_for_op stages op =
     foldl (\<lambda>j (i, stage). if op \<in> set (stage_op_list stage) then i else j) 0 (enumerate 0 stages)"

definition stage_dependencies :: "op_info list \<Rightarrow> ExecutorStage list \<Rightarrow> nat \<Rightarrow> nat set" where
  "stage_dependencies ops stages istage =
     set (filter (\<lambda>j. j \<noteq> istage)
       (map (stage_for_op stages) (concat (map (op_deps ops) (stage_op_list (stages ! istage))))))"

text \<open>
  The recursive function \<open>visit\<close> on the vectors \<open>visited\<close>, \<open>committed\<close> and the order; \<open>order\<close> iterates over the set of
  dependencies. A stage that is visited but not committed is reported as a cycle and left. The first
  argument bounds the depth of the recursion; one more than the number of stages is enough, since every
  call marks another stage.
\<close>

fun visit :: "nat \<Rightarrow> (nat set \<Rightarrow> nat list) \<Rightarrow> (nat \<Rightarrow> nat set) \<Rightarrow> nat \<Rightarrow> nat set \<times> nat set \<times> nat list \<Rightarrow>
      (nat set \<times> nat set \<times> nat list) option"
  and visit_all :: "nat \<Rightarrow> (nat set \<Rightarrow> nat list) \<Rightarrow> (nat \<Rightarrow> nat set) \<Rightarrow> nat list \<Rightarrow> nat set \<times> nat set \<times> nat list \<Rightarrow>
      (nat set \<times> nat set \<times> nat list) option" where
  "visit 0 order dependencies i s = None"
| "visit (Suc fuel) order dependencies i (visited, committed, total_order) =
     (if i \<in> committed \<or> i \<in> visited then Some (visited, committed, total_order)
      else (case visit_all fuel order dependencies (order (dependencies i)) (insert i visited, committed, total_order) of
              None \<Rightarrow> None
            | Some (visited', committed', total_order') \<Rightarrow> Some (visited', insert i committed', total_order' @ [i])))"
| "visit_all fuel order dependencies [] s = Some s"
| "visit_all fuel order dependencies (i # is) s =
     (case visit fuel order dependencies i s of
        None \<Rightarrow> None
      | Some s' \<Rightarrow> visit_all fuel order dependencies is s')"

definition sort_stages :: "(nat set \<Rightarrow> nat list) \<Rightarrow> (nat \<Rightarrow> nat set) \<Rightarrow> nat \<Rightarrow> nat list res" where
  "sort_stages order dependencies n =
     rmap (\<lambda>(_, _, total_order). total_order)
       (unwrap (visit_all (Suc n) order dependencies [0..<n] ({}, {}, [])))"

definition partition_stages :: "nat \<Rightarrow> op_info list \<Rightarrow> (nat set \<Rightarrow> nat list) \<Rightarrow> ExecutorStage list res" where
  "partition_stages n ops order =
     rassert (buffers_ok n ops)
       (rbind (stages_loop ops part_init) (\<lambda>stages.
          rmap (map (\<lambda>i. stages ! i)) (sort_stages order (stage_dependencies ops stages) (length stages))))"

section \<open>The stages before they are sorted\<close>

text \<open>The dependencies of an operator on others of the same stage.\<close>

definition local_deps :: "op_info list \<Rightarrow> nat list \<Rightarrow> nat \<Rightarrow> nat list" where
  "local_deps ops xs op = filter (\<lambda>d. d \<noteq> op \<and> d \<in> set xs) (op_deps ops op)"

definition stage_sorted :: "op_info list \<Rightarrow> nat list \<Rightarrow> bool" where
  "stage_sorted ops xs \<longleftrightarrow>
     (\<forall>r :: nat \<Rightarrow> nat. (\<forall>op \<in> set xs. \<forall>d \<in> set (local_deps ops xs op). r d < r op) \<longrightarrow> ordered_by (local_deps ops xs) xs)"

lemma op_deps_iff:
  "d \<in> set (op_deps ops op) \<longleftrightarrow> d < length ops \<and>
     (\<exists>b \<in> set (oi_inputs (ops ! op)). b \<in> set (oi_outputs (ops ! d)) \<or> (oi_mutates (ops ! op) b \<and> b \<in> set (oi_inputs (ops ! d))))"
  by (auto simp: op_deps_def producers_iff consumers_iff)

lemma stage_deps_local:
  assumes "\<And>d. stage d = Some k \<longleftrightarrow> d \<in> set xs" and "no_trivial_cycle ops" and "op < length ops"
  shows "set (stage_deps ops stage k op) = set (local_deps ops xs op)"
proof -
  have "\<not> (\<exists>b \<in> set (oi_inputs (ops ! op)). b \<in> set (oi_outputs (ops ! op)))"
    using assms(2,3) by (auto simp: no_trivial_cycle_def list_all_length)
  then show ?thesis unfolding local_deps_def by (auto simp: stage_deps_iff op_deps_iff assms(1))
qed

lemma ordered_by_cong: "(\<And>x. x \<in> set xs \<Longrightarrow> set (f x) = set (g x)) \<Longrightarrow> ordered_by f xs \<longleftrightarrow> ordered_by g xs"
  by (simp add: ordered_by_def)

lemma stages_loop_spec:
  assumes "part_inv ops ps" and "no_trivial_cycle ops" and "\<forall>s \<in> set (ps_stages ps). stage_sorted ops (stage_op_list s)"
  shows "\<exists>stages. stages_loop ops ps = Inr stages \<and> distinct (all_ops stages) \<and> set (all_ops stages) = {..<length ops} \<and>
    (\<forall>s \<in> set stages. st_ops s \<noteq> [] \<and> stage_sorted ops (stage_op_list s))"
  using assms
proof (induction ops ps rule: stages_loop.induct)
  case (1 ops ps)
  show ?case
  proof (cases "find (\<lambda>i. i \<notin> ps_visited ps) [0..<length ops]")
    case None
    have "stages_loop ops ps = Inr (ps_stages ps)" using None by (simp add: stages_loop.simps)
    moreover have "{..<length ops} \<subseteq> ps_visited ps" by (rule find_None_visited [OF None])
    moreover from 1(2) have "ps_visited ps = set (all_ops (ps_stages ps))" "ps_visited ps \<subseteq> {..<length ops}"
      "distinct (all_ops (ps_stages ps))" "\<forall>s \<in> set (ps_stages ps). st_ops s \<noteq> []"
      unfolding part_inv_def by blast+
    ultimately have "stages_loop ops ps = Inr (ps_stages ps)" "distinct (all_ops (ps_stages ps))"
      "set (all_ops (ps_stages ps)) = {..<length ops}" "\<forall>s \<in> set (ps_stages ps). st_ops s \<noteq> [] \<and> stage_sorted ops (stage_op_list s)"
      using 1(4) by blast+
    then show ?thesis by (intro exI conjI)
  next
    case (Some i)
    have i: "i < length ops" "i \<notin> ps_visited ps" using find_Some_unvisited [OF Some] by auto
    obtain ps' s where n: "new_stage ops ps i = Inr ps'" "part_inv ops ps'" "ps_stages ps' = ps_stages ps @ [s]"
      and srt: "\<forall>r. (\<forall>op \<in> set (stage_op_list s). \<forall>d \<in> set (stage_deps ops (ps_stage ps') (length (ps_stages ps)) op). r d < (r op :: nat)) \<longrightarrow>
        ordered_by (stage_deps ops (ps_stage ps') (length (ps_stages ps))) (stage_op_list s)"
      by (rule new_stage_spec [OF 1(2) i 1(3)])
    have st: "ps_stage ps' d = Some (length (ps_stages ps)) \<longleftrightarrow> d \<in> set (stage_op_list s)" for d
      using n(2,3) unfolding part_inv_def by (metis length_append_singleton lessI nth_append_length)
    have bound: "op < length ops" if "op \<in> set (stage_op_list s)" for op
    proof -
      have "op \<in> set (all_ops (ps_stages ps'))" using that n(3) by auto
      then show ?thesis using n(2) unfolding part_inv_def by blast
    qed
    have eq: "set (stage_deps ops (ps_stage ps') (length (ps_stages ps)) op) = set (local_deps ops (stage_op_list s) op)"
      if "op \<in> set (stage_op_list s)" for op
      by (rule stage_deps_local [OF st 1(3) bound [OF that]])
    have "stage_sorted ops (stage_op_list s)"
      unfolding stage_sorted_def
    proof (intro allI impI)
      fix r :: "nat \<Rightarrow> nat"
      assume "\<forall>op \<in> set (stage_op_list s). \<forall>d \<in> set (local_deps ops (stage_op_list s) op). r d < r op"
      then have "ordered_by (stage_deps ops (ps_stage ps') (length (ps_stages ps))) (stage_op_list s)"
        using srt eq by blast
      then show "ordered_by (local_deps ops (stage_op_list s)) (stage_op_list s)"
        using ordered_by_cong [of "stage_op_list s" "stage_deps ops (ps_stage ps') (length (ps_stages ps))"
            "local_deps ops (stage_op_list s)"] eq by blast
    qed
    then have "\<forall>s \<in> set (ps_stages ps'). stage_sorted ops (stage_op_list s)" using 1(4) n(3) by auto
    from 1(1) [OF Some n(1,2) 1(3) this] n(1) Some show ?thesis by (simp add: stages_loop.simps [of ops ps])
  qed
qed

section \<open>The order of the stages\<close>

text \<open>What \<open>visit\<close> adds to the visited stages it also commits, and the order lists the committed ones.\<close>

definition visit_inv :: "nat set \<times> nat set \<times> nat list \<Rightarrow> bool" where
  "visit_inv = (\<lambda>(V, C, out). C \<subseteq> V \<and> set out = C \<and> distinct out)"

definition visit_adds :: "nat \<Rightarrow> nat set \<times> nat set \<times> nat list \<Rightarrow> nat set \<times> nat set \<times> nat list \<Rightarrow> bool" where
  "visit_adds n = (\<lambda>(V, C, out) (V', C', out'). visit_inv (V', C', out') \<and>
     (\<exists>N. N \<subseteq> {..<n} \<and> N \<inter> V = {} \<and> V' = V \<union> N \<and> C' = C \<union> N))"

lemma visit_adds_refl: "visit_inv s \<Longrightarrow> visit_adds n s s"
  by (cases s) (auto simp: visit_adds_def)

lemma visit_adds_trans:
  assumes "visit_adds n s s'" and "visit_adds n s' s''"
  shows "visit_adds n s s''"
proof -
  obtain V C out V' C' out' V'' C'' out'' where s: "s = (V, C, out)" "s' = (V', C', out')" "s'' = (V'', C'', out'')"
    by (cases s; cases s'; cases s'')
  from assms s obtain N M where "N \<subseteq> {..<n}" "N \<inter> V = {}" "V' = V \<union> N" "C' = C \<union> N"
    "M \<subseteq> {..<n}" "M \<inter> V' = {}" "V'' = V' \<union> M" "C'' = C' \<union> M" "visit_inv s''"
    by (auto simp: visit_adds_def)
  then show ?thesis unfolding s visit_adds_def prod.case by (intro conjI exI [of _ "N \<union> M"]) (auto simp: s)
qed

lemma visit_adds_inv: "visit_adds n s s' \<Longrightarrow> visit_inv s'"
  by (cases s; cases s') (simp add: visit_adds_def)

lemma visit_adds_mono: "visit_adds n s s' \<Longrightarrow> fst s \<subseteq> fst s'"
  by (cases s; cases s') (auto simp: visit_adds_def)

lemma visit_adds_pending: "visit_adds n s s' \<Longrightarrow> fst s' - fst (snd s') = fst s - fst (snd s)"
  by (cases s; cases s') (auto simp: visit_adds_def)

lemma fewer_left: "A \<subseteq> B \<Longrightarrow> card ({..<n :: nat} - A) < f \<Longrightarrow> card ({..<n} - B) < (f :: nat)"
proof -
  assume "A \<subseteq> B" "card ({..<n} - A) < f"
  moreover have "card ({..<n} - B) \<le> card ({..<n} - A)" using \<open>A \<subseteq> B\<close> by (intro card_mono) auto
  ultimately show ?thesis by linarith
qed

lemma visit_all_adds:
  assumes "\<And>i s. visit_inv s \<Longrightarrow> i < n \<Longrightarrow> card ({..<n} - fst s) < fuel \<Longrightarrow>
      \<exists>s'. visit fuel order deps i s = Some s' \<and> visit_adds n s s' \<and> i \<in> fst s'"
    and "visit_inv s" and "set is \<subseteq> {..<n}" and "card ({..<n} - fst s) < fuel"
  shows "\<exists>s'. visit_all fuel order deps is s = Some s' \<and> visit_adds n s s' \<and> set is \<subseteq> fst s'"
  using assms(2-)
proof (induction "is" arbitrary: s)
  case Nil
  then show ?case by (simp add: visit_adds_refl)
next
  case (Cons i "is")
  have i: "i < n" and rest: "set is \<subseteq> {..<n}" using Cons.prems(2) by auto
  obtain s1 where s1: "visit fuel order deps i s = Some s1" "visit_adds n s s1" "i \<in> fst s1"
    using assms(1) [OF Cons.prems(1) i Cons.prems(3)] by blast
  obtain s2 where s2: "visit_all fuel order deps is s1 = Some s2" "visit_adds n s1 s2" "set is \<subseteq> fst s2"
    using Cons.IH [OF visit_adds_inv [OF s1(2)] rest fewer_left [OF visit_adds_mono [OF s1(2)] Cons.prems(3)]] by blast
  have "i \<in> fst s2" using s1(3) visit_adds_mono [OF s2(2)] by blast
  then show ?case using s1(1) s2(1,3) visit_adds_trans [OF s1(2) s2(2)] by simp
qed

lemma visit_adds:
  assumes deps: "\<forall>j < n. set (order (deps j)) \<subseteq> {..<n}"
  shows "visit_inv s \<Longrightarrow> i < n \<Longrightarrow> card ({..<n} - fst s) < fuel \<Longrightarrow>
      \<exists>s'. visit fuel order deps i s = Some s' \<and> visit_adds n s s' \<and> i \<in> fst s'"
proof (induction fuel arbitrary: i s)
  case (Suc fuel)
  obtain V C out where s: "s = (V, C, out)" by (cases s)
  show ?case
  proof (cases "i \<in> C \<or> i \<in> V")
    case True
    then show ?thesis using Suc.prems(1) s visit_adds_refl [of s n] by (auto simp: visit_inv_def)
  next
    case False
    let ?s = "(insert i V, C, out)"
    have inv: "visit_inv ?s" using Suc.prems(1) s by (auto simp: visit_inv_def)
    have "card ({..<n} - insert i V) < card ({..<n} - V)" using False Suc.prems(2) by (intro card_unmarked_less) auto
    then have left: "card ({..<n} - fst ?s) < fuel" using Suc.prems(3) s by simp
    obtain s1 where s1: "visit_all fuel order deps (order (deps i)) ?s = Some s1" "visit_adds n ?s s1"
      using visit_all_adds [OF Suc.IH inv deps [rule_format, OF Suc.prems(2)] left] by blast
    obtain V1 C1 out1 where v: "s1 = (V1, C1, out1)" by (cases s1)
    from s1(2) v obtain N where N: "N \<subseteq> {..<n}" "N \<inter> insert i V = {}" "V1 = insert i V \<union> N" "C1 = C \<union> N" "visit_inv s1"
      by (auto simp: visit_adds_def)
    have "visit_adds n s (V1, insert i C1, out1 @ [i])"
      unfolding s visit_adds_def prod.case
    proof (intro conjI exI [of _ "insert i N"])
      show "visit_inv (V1, insert i C1, out1 @ [i])" using N v False by (auto simp: visit_inv_def)
    qed (use N False Suc.prems(2) in auto)
    moreover have "visit (Suc fuel) order deps i s = Some (V1, insert i C1, out1 @ [i])"
      using False s s1(1) v by simp
    ultimately show ?thesis using N(3) by auto
  qed
qed simp

text \<open>With a rank that decreases along dependencies, every stage is committed after its dependencies.\<close>

lemma visit_all_sorted:
  assumes deps: "\<forall>j < n. set (order (deps j)) \<subseteq> {..<n}"
    and visit: "\<And>i s s'. visit_inv s \<Longrightarrow> i < n \<Longrightarrow> card ({..<n} - fst s) < fuel \<Longrightarrow> visit fuel order deps i s = Some s' \<Longrightarrow>
      \<forall>q \<in> fst s - fst (snd s). r i < (r q :: nat) \<Longrightarrow> ordered_by (\<lambda>j. order (deps j)) (snd (snd s)) \<Longrightarrow>
      ordered_by (\<lambda>j. order (deps j)) (snd (snd s')) \<and> i \<in> fst (snd s')"
    and "visit_inv t" and "set is \<subseteq> {..<n}" and "card ({..<n} - fst t) < fuel" and "visit_all fuel order deps is t = Some t'"
    and "\<forall>j \<in> set is. \<forall>q \<in> fst t - fst (snd t). r j < r q" and "ordered_by (\<lambda>j. order (deps j)) (snd (snd t))"
  shows "ordered_by (\<lambda>j. order (deps j)) (snd (snd t')) \<and> set is \<subseteq> fst (snd t')"
  using assms(3-)
proof (induction "is" arbitrary: t)
  case (Cons j "is")
  note va = visit_adds [of n order deps, OF deps]
  have j: "j < n" and rest: "set is \<subseteq> {..<n}" using Cons.prems(2) by auto
  obtain t1 where t1: "visit fuel order deps j t = Some t1" "visit_adds n t t1"
    using va [OF Cons.prems(1) j Cons.prems(3)] by blast
  have t2: "visit_all fuel order deps is t1 = Some t'" using Cons.prems(4) t1(1) by simp
  have o: "ordered_by (\<lambda>j. order (deps j)) (snd (snd t1))" "j \<in> fst (snd t1)"
    using visit [OF Cons.prems(1) j Cons.prems(3) t1(1) _ Cons.prems(6)] Cons.prems(5) by auto
  have pend: "\<forall>j \<in> set is. \<forall>q \<in> fst t1 - fst (snd t1). r j < r q"
    using Cons.prems(5) visit_adds_pending [OF t1(2)] by simp
  have left: "card ({..<n} - fst t1) < fuel" by (rule fewer_left [OF visit_adds_mono [OF t1(2)] Cons.prems(3)])
  have "visit_adds n t1 t'"
    using visit_all_adds [OF va visit_adds_inv [OF t1(2)] rest left] t2 by auto
  then have "fst (snd t1) \<subseteq> fst (snd t')" by (cases t1; cases t') (auto simp: visit_adds_def)
  then show ?case using Cons.IH [OF visit_adds_inv [OF t1(2)] rest left t2 pend o(1)] o(2) by auto
qed simp

lemma visit_sorted:
  assumes deps: "\<forall>j < n. set (order (deps j)) \<subseteq> {..<n}"
    and rank: "\<forall>j < n. \<forall>d \<in> set (order (deps j)). r d < (r j :: nat)"
  shows "visit_inv s \<Longrightarrow> i < n \<Longrightarrow> card ({..<n} - fst s) < fuel \<Longrightarrow> visit fuel order deps i s = Some s' \<Longrightarrow>
      \<forall>q \<in> fst s - fst (snd s). r i < r q \<Longrightarrow> ordered_by (\<lambda>j. order (deps j)) (snd (snd s)) \<Longrightarrow>
      ordered_by (\<lambda>j. order (deps j)) (snd (snd s')) \<and> i \<in> fst (snd s')"
proof (induction fuel arbitrary: i s s')
  case (Suc fuel)
  note va = visit_adds [of n order deps, OF deps]
  obtain V C out where s: "s = (V, C, out)" by (cases s)
  show ?case
  proof (cases "i \<in> V")
    case True
    then have "i \<in> C" using Suc.prems(5) s by auto
    then show ?thesis using Suc.prems(4,6) s by auto
  next
    case False
    then have nc: "i \<notin> C" using Suc.prems(1) s by (auto simp: visit_inv_def)
    let ?s = "(insert i V, C, out)"
    have inv: "visit_inv ?s" using Suc.prems(1) s by (auto simp: visit_inv_def)
    have "card ({..<n} - insert i V) < card ({..<n} - V)" using False Suc.prems(2) by (intro card_unmarked_less) auto
    then have left: "card ({..<n} - fst ?s) < fuel" using Suc.prems(3) s by simp
    have di: "set (order (deps i)) \<subseteq> {..<n}" using deps Suc.prems(2) by blast
    obtain s1 where s1: "visit_all fuel order deps (order (deps i)) ?s = Some s1" "visit_adds n ?s s1"
      using visit_all_adds [OF va inv di left] by blast
    obtain V1 C1 out1 where v: "s1 = (V1, C1, out1)" by (cases s1)
    have small: "\<forall>j \<in> set (order (deps i)). \<forall>q \<in> fst ?s - fst (snd ?s). r j < r q"
      using rank Suc.prems(2,5) s by (auto intro: less_trans)
    have "ordered_by (\<lambda>j. order (deps j)) (snd (snd s1)) \<and> set (order (deps i)) \<subseteq> fst (snd s1)"
      by (rule visit_all_sorted [OF deps Suc.IH inv di left s1(1) small]) (use Suc.prems(6) s in simp_all)
    then have o: "ordered_by (\<lambda>j. order (deps j)) out1" "set (order (deps i)) \<subseteq> C1" using v by auto
    have "set out1 = C1" using visit_adds_inv [OF s1(2)] v by (simp add: visit_inv_def)
    moreover have "s' = (V1, insert i C1, out1 @ [i])" using Suc.prems(4) s s1(1) v False nc by simp
    ultimately show ?thesis using o by (simp add: ordered_by_snoc)
  qed
qed simp

lemma sort_stages_spec:
  assumes deps: "\<forall>j < n. set (order (deps j)) \<subseteq> {..<n}"
  shows "\<exists>out. sort_stages order deps n = Inr out \<and> distinct out \<and> set out = {..<n} \<and>
    (\<forall>r :: nat \<Rightarrow> nat. (\<forall>j < n. \<forall>d \<in> set (order (deps j)). r d < r j) \<longrightarrow> ordered_by (\<lambda>j. order (deps j)) out)"
proof -
  let ?s0 = "({}, {}, []) :: nat set \<times> nat set \<times> nat list"
  have inv: "visit_inv ?s0" and all: "set [0..<n] \<subseteq> {..<n}" and left: "card ({..<n} - fst ?s0) < Suc n"
    by (auto simp: visit_inv_def)
  obtain V C out where s': "visit_all (Suc n) order deps [0..<n] ?s0 = Some (V, C, out)" "visit_adds n ?s0 (V, C, out)" "set [0..<n] \<subseteq> V"
    using visit_all_adds [OF visit_adds [of n order deps, OF deps] inv all left] by auto
  then have "distinct out" "set out = {..<n}" by (auto simp: visit_adds_def visit_inv_def)
  moreover have "ordered_by (\<lambda>j. order (deps j)) out" if r: "\<forall>j < n. \<forall>d \<in> set (order (deps j)). r d < (r j :: nat)" for r
    using visit_all_sorted [OF deps visit_sorted [of n order deps r, OF deps r] inv all left s'(1)] by simp
  moreover have "sort_stages order deps n = Inr out" using s'(1) by (simp add: sort_stages_def)
  ultimately show ?thesis by blast
qed

section \<open>The stages in the order of the executor\<close>

lemma stage_for_op_snoc:
  "stage_for_op (stages @ [s]) op = (if op \<in> set (stage_op_list s) then length stages else stage_for_op stages op)"
  by (simp add: stage_for_op_def enumerate_append_eq)

lemma stage_for_op_nth:
  "distinct (all_ops stages) \<Longrightarrow> i < length stages \<Longrightarrow> op \<in> set (stage_op_list (stages ! i)) \<Longrightarrow> stage_for_op stages op = i"
proof (induction stages rule: rev_induct)
  case (snoc s stages)
  show ?case
  proof (cases "i = length stages")
    case True
    then show ?thesis using snoc.prems(3) by (simp add: stage_for_op_snoc)
  next
    case False
    then have i: "i < length stages" using snoc.prems(2) by simp
    have op: "op \<in> set (stage_op_list (stages ! i))" using snoc.prems(3) i by (simp add: nth_append)
    then have "op \<in> set (all_ops stages)" using i by force
    then have "op \<notin> set (stage_op_list s)" using snoc.prems(1) by auto
    moreover have "distinct (all_ops stages)" using snoc.prems(1) by simp
    ultimately show ?thesis using snoc.IH [OF _ i op] by (simp add: stage_for_op_snoc)
  qed
qed simp

lemma stage_for_op_less: "stages \<noteq> [] \<Longrightarrow> stage_for_op stages op < length stages"
proof (induction stages rule: rev_induct)
  case (snoc s stages)
  show ?case
  proof (cases "stages = []")
    case True
    then show ?thesis by (simp add: stage_for_op_def)
  next
    case False
    then show ?thesis using snoc.IH [OF False] by (simp add: stage_for_op_snoc)
  qed
qed simp

lemma stage_dependencies_less: "i < length stages \<Longrightarrow> stage_dependencies ops stages i \<subseteq> {..<length stages}"
  using stage_for_op_less [of stages] by (cases "stages = []") (auto simp: stage_dependencies_def)

lemma finite_stage_dependencies: "finite (stage_dependencies ops stages i)"
  by (simp add: stage_dependencies_def)

lemma permuted_all_ops:
  assumes "distinct out" and "set out = {..<length stages}"
  shows "mset (all_ops (map (\<lambda>i. stages ! i) out)) = mset (all_ops stages)"
proof -
  have "mset out = mset [0..<length stages]"
    using assms set_eq_iff_mset_eq_distinct [of out "[0..<length stages]"] by (simp add: atLeast0LessThan)
  then have "mset (map (\<lambda>i. stages ! i) out) = mset (map (\<lambda>i. stages ! i) [0..<length stages])"
    by (metis mset_map)
  then have "mset (map (\<lambda>i. stages ! i) out) = mset stages" by (simp add: map_nth)
  then have "mset (map stage_op_list (map (\<lambda>i. stages ! i) out)) = mset (map stage_op_list stages)"
    unfolding mset_map [of stage_op_list] by (rule arg_cong)
  then show ?thesis
    unfolding mset_concat sum_mset_sum_list [symmetric] mset_map [of mset] by (simp only:)
qed

lemma sorted_stages:
  assumes "\<forall>A. finite A \<longrightarrow> set (order A) = A"
  shows "\<exists>out. sort_stages order (stage_dependencies ops stages) (length stages) = Inr out \<and> distinct out \<and>
    set out = {..<length stages} \<and>
    (\<forall>r :: nat \<Rightarrow> nat. (\<forall>j < length stages. \<forall>d \<in> stage_dependencies ops stages j. r d < r j) \<longrightarrow>
      ordered_by (\<lambda>j. order (stage_dependencies ops stages j)) out)"
proof -
  have o: "set (order (stage_dependencies ops stages j)) = stage_dependencies ops stages j" for j
    by (rule assms [rule_format, OF finite_stage_dependencies])
  then have "\<forall>j < length stages. set (order (stage_dependencies ops stages j)) \<subseteq> {..<length stages}"
    using stage_dependencies_less by blast
  from sort_stages_spec [OF this] show ?thesis unfolding o .
qed

text \<open>
  C21. Grouping the operators into stages terminates without a panic when every buffer was allocated and no
  operator reads a buffer that it writes; then every operator is in exactly one stage, whatever the
  order in which the hash sets of dependencies are iterated.
\<close>

theorem partition_complete:
  assumes "buffers_ok n ops" and "no_trivial_cycle ops" and "\<forall>A. finite A \<longrightarrow> set (order A) = A"
  shows "\<exists>stages. partition_stages n ops order = Inr stages \<and> mset (all_ops stages) = mset [0..<length ops]"
proof -
  obtain stages where s: "stages_loop ops part_init = Inr stages" "distinct (all_ops stages)" "set (all_ops stages) = {..<length ops}"
    using stages_loop_spec [OF part_init_inv assms(2)] by (auto simp: part_init_def)
  obtain out where out: "sort_stages order (stage_dependencies ops stages) (length stages) = Inr out" "distinct out"
    "set out = {..<length stages}"
    using sorted_stages [OF assms(3)] by blast
  have "mset (all_ops stages) = mset [0..<length ops]"
    using s(2,3) set_eq_iff_mset_eq_distinct [of "all_ops stages" "[0..<length ops]"] by (simp add: atLeast0LessThan)
  then show ?thesis
    using s(1) out(1) assms(1) permuted_all_ops [OF out(2,3)] by (simp add: partition_stages_def rassert_def)
qed

text \<open>The operators of a prefix of the stages come before those of the next one.\<close>

lemma ordered_stages:
  assumes out: "ordered_by sdeps out"
    and stages: "\<forall>i \<in> set out. ordered_by (\<lambda>op. filter (\<lambda>d. d \<in> set (ops_of i)) (deps op)) (ops_of i)"
    and deps: "\<forall>i \<in> set out. \<forall>op \<in> set (ops_of i). \<forall>d \<in> set (deps op). d \<in> set (ops_of i) \<or> (\<exists>j \<in> set (sdeps i). d \<in> set (ops_of j))"
  shows "ordered_by deps (concat (map ops_of out))"
  using assms
proof (induction out rule: rev_induct)
  case (snoc i out)
  have IH: "ordered_by deps (concat (map ops_of out))"
    by (rule snoc.IH) (use snoc.prems in \<open>auto simp: ordered_by_snoc\<close>)
  have sd: "set (sdeps i) \<subseteq> set out" using snoc.prems(1) by (simp add: ordered_by_snoc)
  have local: "ordered_by (\<lambda>op. filter (\<lambda>d. d \<in> set (ops_of i)) (deps op)) (ops_of i)" using snoc.prems(2) by simp
  have dep: "\<forall>op \<in> set (ops_of i). \<forall>d \<in> set (deps op). d \<in> set (ops_of i) \<or> d \<in> set (concat (map ops_of out))"
    using snoc.prems(3) sd by fastforce
  have "set (deps (ops_of i ! k)) \<subseteq> set (concat (map ops_of out)) \<union> set (take k (ops_of i))" if k: "k < length (ops_of i)" for k
  proof
    fix d assume d: "d \<in> set (deps (ops_of i ! k))"
    show "d \<in> set (concat (map ops_of out)) \<union> set (take k (ops_of i))"
    proof (cases "d \<in> set (ops_of i)")
      case True
      then show ?thesis using local k d by (auto simp: ordered_by_def)
    next
      case False
      then show ?thesis using dep d nth_mem [OF k] by blast
    qed
  qed
  then show ?case using IH by (auto simp: ordered_by_append)
qed simp


section \<open>Examples\<close>

text \<open>
  A filter on a column: the operator 0 reads the column, 1 compares it with a constant, 2 filters the column
  by the result. All three stream.
\<close>

definition all_streaming :: "nat list \<Rightarrow> nat list \<Rightarrow> op_info" where
  "all_streaming inputs outputs =
     \<lparr>oi_inputs = inputs, oi_outputs = outputs, oi_can_stream_input = (\<lambda>_. True), oi_can_stream_output = (\<lambda>_. True),
      oi_mutates = (\<lambda>_. False), oi_allocates = True, oi_is_streaming_producer = (inputs = []), oi_custom_output_len = None\<rparr>"

definition filter_ops :: "op_info list" where
  "filter_ops = [all_streaming [] [0], all_streaming [0] [1], all_streaming [0, 1] [2]]"

lemma filter_ops_partition:
  "stages_loop filter_ops part_init = Inr [\<lparr>st_ops = [(0, True), (1, True), (2, False)], st_stream = True\<rparr>]"
  by code_simp

lemma filter_ops_ok: "buffers_ok 3 filter_ops" "no_trivial_cycle filter_ops"
  by code_simp+

lemma enumerates_sets: "\<forall>A :: nat set. finite A \<longrightarrow> set (sorted_list_of_set A) = A"
  by simp

theorem partition_complete_witness:
  "\<exists>stages. partition_stages 3 filter_ops sorted_list_of_set = Inr stages \<and> mset (all_ops stages) = mset [0, 1, 2]"
proof -
  have "[0..<length filter_ops] = [0, 1, 2]" by code_simp
  then show ?thesis using partition_complete [OF filter_ops_ok enumerates_sets] by simp
qed


text \<open>
  Two operators with two outputs each. The operator 3 is streamed from 0 and reads from 1 as well, 2 is
  streamed from 1 and reads from 0 without streaming.
\<close>

definition cyclic_ops :: "op_info list" where
  "cyclic_ops =
     [all_streaming [] [0, 1], (all_streaming [] [2, 3])\<lparr>oi_can_stream_output := (\<lambda>b. b = 2)\<rparr>,
      (all_streaming [2, 1] [4])\<lparr>oi_can_stream_input := (\<lambda>b. b = 2)\<rparr>, all_streaming [3, 0] [5]]"

text \<open>
  The stages may depend on each other cyclically although the operators do not: here every operator depends only
  on operators with a smaller index, but 2 is run before 0, whose output it reads. The code
  only logs the cycle.
\<close>

theorem stage_cycle:
  "rmap all_ops (partition_stages 6 cyclic_ops sorted_list_of_set) = Inr [1, 2, 0, 3] \<and>
   0 \<in> set (op_deps cyclic_ops 2) \<and> list_all (\<lambda>op. list_all (\<lambda>d. d < op) (op_deps cyclic_ops op)) [0, 1, 2, 3]"
proof -
  have "partition_stages 6 cyclic_ops sorted_list_of_set =
      Inr [\<lparr>st_ops = [(1, True), (2, False)], st_stream = True\<rparr>, \<lparr>st_ops = [(0, False), (3, False)], st_stream = True\<rparr>]"
    by code_simp
  moreover have "0 \<in> set (op_deps cyclic_ops 2)" "list_all (\<lambda>op. list_all (\<lambda>d. d < op) (op_deps cyclic_ops op)) [0, 1, 2, 3]"
    by code_simp+
  ultimately show ?thesis by simp
qed

end
