(* ===== verification/Execution.thy ===== *)
theory Execution
  imports Executor Vector_Ops
begin

text \<open>
  Running the stages of an executor (\<open>init_stage\<close>, \<open>run_stage\<close> and \<open>run\<close> of src/src/engine/execution/executor.rs) and
  the operators that make up the streaming part of most plans: \<open>ReadColumnData\<close> (column_ops.rs), \<open>MapOperator\<close>,
  \<open>BinaryOperator\<close> and \<open>Filter\<close>.

  An operator is a record of its methods (trait \<open>VecOperator\<close> of vector_operator.rs) on a state that holds the scratchpad
  and the fields of all operators. The loop of \<open>run_stage\<close> ends when no operator has more input; it is a
  partial function, and that it returns is part of the theorems.

  The main results: a stage that streams its columns in batches of 1024 rows ends and leaves in every
  buffer that is not streamed the result for the whole columns (\<open>streaming_stage_correct\<close>); a stage that
  streams a column together with a shorter one, as the bit map of a nullable column is, panics
  (\<open>short_column_panics\<close>).
\<close>

section \<open>Operators and stages\<close>

record 's VecOperator =
  vo_info :: op_info
  vo_init :: "nat \<Rightarrow> nat \<Rightarrow> 's \<Rightarrow> 's res"
  vo_execute :: "bool \<Rightarrow> 's \<Rightarrow> 's res"
  vo_has_more :: "'s \<Rightarrow> bool"
  vo_finalize :: "'s \<Rightarrow> 's res"

definition init_stage ::
    "('s \<Rightarrow> nat \<Rightarrow> nat res) \<Rightarrow> 's VecOperator list \<Rightarrow> nat \<Rightarrow> ExecutorStage \<Rightarrow> 's \<Rightarrow> (nat \<times> nat \<times> 's) res" where
  "init_stage buffer_len ops column_length stage s =
     rbind (rmapM (buffer_len s) (concat (map (\<lambda>(op, _). oi_inputs (vo_info (ops ! op))) (st_ops stage)))) (\<lambda>lens.
     let has_streaming_producer = list_ex (\<lambda>(op, _). oi_is_streaming_producer (vo_info (ops ! op))) (st_ops stage);
         max_input_length = (if has_streaming_producer then column_length else foldl max 0 lens);
         batch_size = (if st_stream stage then 1024 else max_input_length) in
     rmap (\<lambda>s'. (max_input_length, batch_size, s'))
       (rfoldM (\<lambda>s (op, streamable).
          let buffer_length = (if streamable then batch_size
                               else case oi_custom_output_len (vo_info (ops ! op)) of
                                      None \<Rightarrow> max_input_length | Some n \<Rightarrow> n) in
          vo_init (ops ! op) max_input_length buffer_length s) s (st_ops stage)))"

text \<open>One round of the loop over the operators of the stage.\<close>

fun execute_ops :: "'s VecOperator list \<Rightarrow> bool \<Rightarrow> (nat \<times> bool) list \<Rightarrow> 's \<Rightarrow> bool \<Rightarrow> ('s \<times> bool) res" where
  "execute_ops ops stream [] s has_more = Inr (s, has_more)"
| "execute_ops ops stream ((op, streamable) # rest) s has_more =
     rbind (vo_execute (ops ! op) (stream \<and> streamable) s) (\<lambda>s'.
       execute_ops ops stream rest s' (has_more \<or> vo_has_more (ops ! op) s' \<and> stream))"

partial_function (option) stage_loop ::
    "'s VecOperator list \<Rightarrow> bool \<Rightarrow> (nat \<times> bool) list \<Rightarrow> 's \<Rightarrow> 's res option" where
  "stage_loop ops stream l s =
     (case execute_ops ops stream l s False of
        Inl e \<Rightarrow> Some (Inl e)
      | Inr (s', has_more) \<Rightarrow> if has_more then stage_loop ops stream l s' else Some (Inr s'))"

definition run_stage ::
    "('s \<Rightarrow> nat \<Rightarrow> nat res) \<Rightarrow> 's VecOperator list \<Rightarrow> nat \<Rightarrow> ExecutorStage \<Rightarrow> 's \<Rightarrow> 's res option" where
  "run_stage buffer_len ops column_length stage s =
     (case init_stage buffer_len ops column_length stage s of
        Inl e \<Rightarrow> Some (Inl e)
      | Inr (_, _, s1) \<Rightarrow>
          (case stage_loop ops (st_stream stage) (st_ops stage) s1 of
             None \<Rightarrow> None
           | Some (Inl e) \<Rightarrow> Some (Inl e)
           | Some (Inr s2) \<Rightarrow> Some (rfoldM (\<lambda>s (op, _). vo_finalize (ops ! op) s) s2 (st_ops stage))))"

fun run_stages ::
    "('s \<Rightarrow> nat \<Rightarrow> nat res) \<Rightarrow> 's VecOperator list \<Rightarrow> nat \<Rightarrow> ExecutorStage list \<Rightarrow> 's \<Rightarrow> 's res option" where
  "run_stages buffer_len ops len [] s = Some (Inr s)"
| "run_stages buffer_len ops len (stage # stages) s =
     (case run_stage buffer_len ops len stage s of
        None \<Rightarrow> None
      | Some (Inl e) \<Rightarrow> Some (Inl e)
      | Some (Inr s') \<Rightarrow> run_stages buffer_len ops len stages s')"

text \<open>A loop that makes progress whenever it goes on returns.\<close>

lemma stage_loop_returns:
  assumes "\<And>s s'. execute_ops ops stream l s False = Inr (s', True) \<Longrightarrow> m s' < (m s :: nat)"
  shows "\<exists>r. stage_loop ops stream l s = Some r"
proof (induction "m s" arbitrary: s rule: less_induct)
  case less
  show ?case
  proof (cases "execute_ops ops stream l s False")
    case (Inl e)
    then show ?thesis by (simp add: stage_loop.simps)
  next
    case (Inr p)
    obtain s' hm where p: "p = (s', hm)" by (cases p)
    show ?thesis
    proof (cases hm)
      case True
      then have "m s' < m s" using assms [of s s'] Inr p by simp
      then show ?thesis using less Inr p True by (simp add: stage_loop.simps [of _ _ _ s])
    next
      case False
      then show ?thesis using Inr p by (simp add: stage_loop.simps)
    qed
  qed
qed

lemma execute_ops_not_streaming: "execute_ops ops False l s m = Inr (s', m') \<Longrightarrow> m' = m"
  by (induction l arbitrary: s) (auto simp: rbind_Inr_iff)

text \<open>A stage that does not stream runs its operators once.\<close>

lemma stage_loop_once: "stage_loop ops False l s = Some (rmap fst (execute_ops ops False l s False))"
  using execute_ops_not_streaming [of ops l s False]
  by (cases "execute_ops ops False l s False") (auto simp: stage_loop.simps [of _ _ _ s])

section \<open>Column readers, element-wise operators and filters\<close>

text \<open>
  The state: the buffers of the scratchpad, the sections of the columns, and for each reader, which is named
  by its output buffer, its fields \<open>current_index\<close>, \<open>batch_size\<close> and \<open>has_more\<close>.
\<close>

record 'v pad =
  pd_buffers :: "nat \<Rightarrow> 'v list"
  pd_columns :: "string \<rightharpoonup> 'v list list"
  pd_current :: "nat \<Rightarrow> nat"
  pd_batch_size :: "nat \<Rightarrow> nat"
  pd_has_more :: "nat \<Rightarrow> bool"

datatype 'v Operator =
    ReadColumnData string nat nat
  | MapOperator "'v \<Rightarrow> 'v" nat nat
  | BinaryOperator "'v \<Rightarrow> 'v \<Rightarrow> 'v" nat nat nat
  | FilterOperator nat nat nat

fun op_inputs :: "'v Operator \<Rightarrow> nat list" where
  "op_inputs (ReadColumnData _ _ _) = []"
| "op_inputs (MapOperator _ input _) = [input]"
| "op_inputs (BinaryOperator _ lhs rhs _) = [lhs, rhs]"
| "op_inputs (FilterOperator input filt _) = [input, filt]"

fun op_output :: "'v Operator \<Rightarrow> nat" where
  "op_output (ReadColumnData _ _ output) = output"
| "op_output (MapOperator _ _ output) = output"
| "op_output (BinaryOperator _ _ _ output) = output"
| "op_output (FilterOperator _ _ output) = output"

fun is_read :: "'v Operator \<Rightarrow> bool" where
  "is_read (ReadColumnData _ _ _) \<longleftrightarrow> True"
| "is_read _ \<longleftrightarrow> False"

definition operator_info :: "'v Operator \<Rightarrow> op_info" where
  "operator_info op =
     \<lparr>oi_inputs = op_inputs op, oi_outputs = [op_output op], oi_can_stream_input = (\<lambda>_. \<not> is_read op),
      oi_can_stream_output = (\<lambda>_. True), oi_mutates = (\<lambda>_. False), oi_allocates = (\<not> is_read op),
      oi_is_streaming_producer = is_read op, oi_custom_output_len = None\<rparr>"

definition set_buffer :: "nat \<Rightarrow> 'v list \<Rightarrow> 'v pad \<Rightarrow> 'v pad" where
  "set_buffer i v s = s\<lparr>pd_buffers := (pd_buffers s)(i := v)\<rparr>"

definition slice_box :: "'v list \<Rightarrow> nat \<Rightarrow> nat \<Rightarrow> 'v list res" where
  "slice_box v from to =
     (let to = min to (length v) in rassert (from \<le> to) (Inr (drop from (take to v))))"

definition get_column_data :: "'v pad \<Rightarrow> string \<Rightarrow> nat \<Rightarrow> 'v list res" where
  "get_column_data s name section_index = rbind (unwrap (pd_columns s name)) (\<lambda>col. index col section_index)"

definition read_execute :: "string \<Rightarrow> nat \<Rightarrow> nat \<Rightarrow> bool \<Rightarrow> 'v pad \<Rightarrow> 'v pad res" where
  "read_execute colname section_index output streaming s =
     rbind (get_column_data s colname section_index) (\<lambda>data_section.
     let end = (if streaming then pd_current s output + pd_batch_size s output else length data_section) in
     rbind (slice_box data_section (pd_current s output) end) (\<lambda>result.
       Inr ((set_buffer output result s)
         \<lparr>pd_current := (pd_current s)(output := pd_current s output + pd_batch_size s output),
          pd_has_more := (pd_has_more s)(output := end < length data_section)\<rparr>)))"

text \<open>\<open>to_u8\<close> is the view of a buffer as \<open>u8\<close>, which the filter has.\<close>

fun op_execute :: "('v \<Rightarrow> u8) \<Rightarrow> 'v Operator \<Rightarrow> bool \<Rightarrow> 'v pad \<Rightarrow> 'v pad res" where
  "op_execute to_u8 (ReadColumnData colname section_index output) stream s = read_execute colname section_index output stream s"
| "op_execute to_u8 (MapOperator f input output) stream s =
     Inr (set_buffer output (map_execute f stream (pd_buffers s input) (pd_buffers s output)) s)"
| "op_execute to_u8 (BinaryOperator f lhs rhs output) stream s =
     Inr (set_buffer output
       (map_execute (\<lambda>(l, r). f l r) stream (zip (pd_buffers s lhs) (pd_buffers s rhs)) (pd_buffers s output)) s)"
| "op_execute to_u8 (FilterOperator input filt output) stream s =
     Inr (set_buffer output
       (filter_execute stream (pd_buffers s input) (map to_u8 (pd_buffers s filt)) (pd_buffers s output)) s)"

definition op_init :: "'v Operator \<Rightarrow> nat \<Rightarrow> nat \<Rightarrow> 'v pad \<Rightarrow> 'v pad res" where
  "op_init op total_count batch_size s =
     Inr (if is_read op then s\<lparr>pd_batch_size := (pd_batch_size s)(op_output op := batch_size)\<rparr>
          else set_buffer (op_output op) [] s)"

definition vec_operator :: "('v \<Rightarrow> u8) \<Rightarrow> 'v Operator \<Rightarrow> 'v pad VecOperator" where
  "vec_operator to_u8 op =
     \<lparr>vo_info = operator_info op, vo_init = op_init op, vo_execute = op_execute to_u8 op,
      vo_has_more = (\<lambda>s. is_read op \<and> pd_has_more s (op_output op)), vo_finalize = Inr\<rparr>"

definition pad_len :: "'v pad \<Rightarrow> nat \<Rightarrow> nat res" where
  "pad_len s i = Inr (length (pd_buffers s i))"

section \<open>The value of a stage\<close>

text \<open>The operators on whole vectors: \<open>colseg\<close> gives the part of each column section that is read.\<close>

fun seg_step :: "('v \<Rightarrow> u8) \<Rightarrow> (string \<Rightarrow> nat \<Rightarrow> 'v list) \<Rightarrow> (nat \<Rightarrow> 'v list) \<Rightarrow> 'v Operator \<Rightarrow> nat \<Rightarrow> 'v list" where
  "seg_step to_u8 colseg env (ReadColumnData colname section_index output) = env(output := colseg colname section_index)"
| "seg_step to_u8 colseg env (MapOperator f input output) = env(output := map f (env input))"
| "seg_step to_u8 colseg env (BinaryOperator f lhs rhs output) = env(output := map2 f (env lhs) (env rhs))"
| "seg_step to_u8 colseg env (FilterOperator input filt output) =
     env(output := map fst (filter (\<lambda>(d, b). to_u8 b > 0) (zip (env input) (env filt))))"

definition seg_values :: "('v \<Rightarrow> u8) \<Rightarrow> (string \<Rightarrow> nat \<Rightarrow> 'v list) \<Rightarrow> 'v Operator list \<Rightarrow> nat \<Rightarrow> 'v list" where
  "seg_values to_u8 colseg ops = foldl (seg_step to_u8 colseg) (\<lambda>_. []) ops"

text \<open>
  Which vectors have the same length: the class of a buffer lists the filters that were applied. A binary
  operator or a filter takes two buffers of the same class.
\<close>

fun class_ok :: "(nat \<Rightarrow> nat list) \<Rightarrow> 'v Operator \<Rightarrow> bool" where
  "class_ok cls (ReadColumnData _ _ output) \<longleftrightarrow> cls output = []"
| "class_ok cls (MapOperator _ input output) \<longleftrightarrow> cls output = cls input"
| "class_ok cls (BinaryOperator _ lhs rhs output) \<longleftrightarrow> cls lhs = cls rhs \<and> cls output = cls lhs"
| "class_ok cls (FilterOperator input filt output) \<longleftrightarrow> cls input = cls filt \<and> cls output = filt # cls filt"

text \<open>
  A stage in the order of its operators: an operator reads only outputs of earlier ones, in a streaming stage
  only of those that are streamed, and no two operators have the same output. Readers in a
  streaming stage stream.
\<close>

fun stage_ok :: "(nat \<Rightarrow> nat list) \<Rightarrow> bool \<Rightarrow> nat set \<Rightarrow> nat set \<Rightarrow> ('v Operator \<times> bool) list \<Rightarrow> bool" where
  "stage_ok cls stream avail used [] \<longleftrightarrow> True"
| "stage_ok cls stream avail used ((op, s) # rest) \<longleftrightarrow>
     set (op_inputs op) \<subseteq> avail \<and> op_output op \<notin> used \<and> (stream \<longrightarrow> is_read op \<longrightarrow> s) \<and> class_ok cls op \<and>
     stage_ok cls stream (if stream \<longrightarrow> s then insert (op_output op) avail else avail) (insert (op_output op) used) rest"

section \<open>One round\<close>

text \<open>What the readers of a round read is \<open>colseg\<close>.\<close>

fun read_ready :: "bool \<Rightarrow> (string \<Rightarrow> nat \<Rightarrow> 'v list) \<Rightarrow> 'v pad \<Rightarrow> 'v Operator \<Rightarrow> bool" where
  "read_ready stream colseg s (ReadColumnData colname section_index output) \<longleftrightarrow>
     (\<exists>d. get_column_data s colname section_index = Inr d \<and>
       slice_box d (pd_current s output) (if stream then pd_current s output + pd_batch_size s output else length d) =
         Inr (colseg colname section_index))"
| "read_ready stream colseg s _ \<longleftrightarrow> True"

fun more_to_read :: "'v pad \<Rightarrow> 'v Operator \<Rightarrow> bool" where
  "more_to_read s (ReadColumnData colname section_index output) \<longleftrightarrow>
     (case get_column_data s colname section_index of
        Inr d \<Rightarrow> pd_current s output + pd_batch_size s output < length d
      | Inl _ \<Rightarrow> False)"
| "more_to_read s _ \<longleftrightarrow> False"

lemma filter_to_u8:
  "map fst (filter (\<lambda>(d, s). 0 < s) (zip xs (map to_u8 ys))) = map fst (filter (\<lambda>(d, b). 0 < (to_u8 b :: u8)) (zip xs ys))"
  by (simp add: zip_map2 filter_map comp_def case_prod_unfold)

lemma op_execute_value:
  assumes "set (op_inputs op) \<subseteq> avail" and "\<forall>a \<in> avail. pd_buffers s a = env a" and "read_ready b colseg s op"
  shows "\<exists>s1. op_execute to_u8 op b s = Inr s1 \<and>
    pd_buffers s1 = (pd_buffers s)(op_output op :=
      (if is_read op \<or> b then [] else pd_buffers s (op_output op)) @ seg_step to_u8 colseg env op (op_output op)) \<and>
    pd_columns s1 = pd_columns s \<and> pd_batch_size s1 = pd_batch_size s \<and>
    pd_current s1 = (if is_read op then (pd_current s)(op_output op := pd_current s (op_output op) + pd_batch_size s (op_output op))
                     else pd_current s) \<and>
    (b \<longrightarrow> (is_read op \<and> pd_has_more s1 (op_output op)) = more_to_read s op)"
proof (cases op)
  case (ReadColumnData n k out)
  then obtain d where d: "get_column_data s n k = Inr d"
      "slice_box d (pd_current s out) (if b then pd_current s out + pd_batch_size s out else length d) = Inr (colseg n k)"
    using assms(3) by auto
  show ?thesis using d ReadColumnData by (cases b) (simp_all add: read_execute_def Let_def set_buffer_def)
next
  case (FilterOperator input filt out)
  then show ?thesis using assms by (simp add: set_buffer_def filter_execute_def filter_loop_eq filter_to_u8 cleared_def)
qed (use assms in \<open>simp_all add: set_buffer_def map_execute_def map_loop_eq cleared_def\<close>)

text \<open>The round on the operators themselves.\<close>

fun exec_list :: "('v \<Rightarrow> u8) \<Rightarrow> bool \<Rightarrow> ('v Operator \<times> bool) list \<Rightarrow> 'v pad \<Rightarrow> bool \<Rightarrow> ('v pad \<times> bool) res" where
  "exec_list to_u8 stream [] s has_more = Inr (s, has_more)"
| "exec_list to_u8 stream ((op, streamable) # rest) s has_more =
     rbind (op_execute to_u8 op (stream \<and> streamable) s) (\<lambda>s'.
       exec_list to_u8 stream rest s' (has_more \<or> (is_read op \<and> pd_has_more s' (op_output op)) \<and> stream))"

lemma execute_ops_list:
  "\<forall>(i, _) \<in> set l. i < length os \<Longrightarrow>
   execute_ops (map (vec_operator to_u8) os) stream l s hm = exec_list to_u8 stream (map (\<lambda>(i, f). (os ! i, f)) l) s hm"
  by (induction l arbitrary: s hm) (auto simp: vec_operator_def)

lemma seg_step_other: "b \<noteq> op_output op \<Longrightarrow> seg_step to_u8 colseg env op b = env b"
  by (cases op) auto

abbreviation outputs :: "('v Operator \<times> bool) list \<Rightarrow> nat set" where
  "outputs l \<equiv> (\<lambda>(op, _). op_output op) ` set l"

lemma stage_ok_used: "stage_ok cls stream avail used l \<Longrightarrow> outputs l \<inter> used = {}"
  by (induction cls stream avail used l rule: stage_ok.induct) auto

lemma seg_values_other: "b \<notin> outputs l \<Longrightarrow> foldl (seg_step to_u8 colseg) env (map fst l) b = env b"
  by (induction l arbitrary: env) (auto simp: seg_step_other)

lemma read_ready_cong:
  "pd_columns s1 = pd_columns s \<Longrightarrow> pd_batch_size s1 = pd_batch_size s \<Longrightarrow>
   pd_current s1 (op_output op) = pd_current s (op_output op) \<Longrightarrow> read_ready b colseg s1 op \<longleftrightarrow> read_ready b colseg s op"
  by (cases op) (auto simp: get_column_data_def)

lemma more_to_read_cong:
  "pd_columns s1 = pd_columns s \<Longrightarrow> pd_batch_size s1 = pd_batch_size s \<Longrightarrow>
   pd_current s1 (op_output op) = pd_current s (op_output op) \<Longrightarrow> more_to_read s1 op \<longleftrightarrow> more_to_read s op"
  by (cases op) (simp_all add: get_column_data_def cong: sum.case_cong)

text \<open>What one round changes, from the state \<open>s\<close> to \<open>s'\<close>: \<open>env\<close> holds the values of all operators for this round.\<close>

definition round_of :: "bool \<Rightarrow> (nat \<Rightarrow> 'v list) \<Rightarrow> ('v Operator \<times> bool) list \<Rightarrow> 'v pad \<Rightarrow> 'v pad \<Rightarrow> bool" where
  "round_of stream env l s s' \<longleftrightarrow>
     pd_columns s' = pd_columns s \<and> pd_batch_size s' = pd_batch_size s \<and>
     (\<forall>b. b \<notin> outputs l \<longrightarrow> pd_buffers s' b = pd_buffers s b \<and> pd_current s' b = pd_current s b) \<and>
     (\<forall>(op, f) \<in> set l.
        pd_buffers s' (op_output op) =
          (if is_read op \<or> stream \<and> f then [] else pd_buffers s (op_output op)) @ env (op_output op) \<and>
        pd_current s' (op_output op) =
          pd_current s (op_output op) + (if is_read op then pd_batch_size s (op_output op) else 0))"

lemma exec_list_round:
  assumes "stage_ok cls stream avail used l" and "\<forall>a \<in> avail. pd_buffers s a = env a" and "avail \<subseteq> used"
    and "\<forall>(op, f) \<in> set l. read_ready (stream \<and> f) colseg s op"
    and "\<not> stream \<longrightarrow> (\<forall>(op, f) \<in> set l. pd_buffers s (op_output op) = [])"
  shows "\<exists>s'. exec_list to_u8 stream l s hm = Inr (s', hm \<or> (stream \<and> (\<exists>(op, f) \<in> set l. more_to_read s op))) \<and>
    round_of stream (foldl (seg_step to_u8 colseg) env (map fst l)) l s s'"
  using assms
proof (induction l arbitrary: avail used s env hm)
  case Nil
  then show ?case by (simp add: round_of_def)
next
  case (Cons x l)
  obtain op f where x: "x = (op, f)" by (cases x)
  let ?o = "op_output op" and ?env = "seg_step to_u8 colseg env op" and ?b = "stream \<and> f"
  let ?avail = "if stream \<longrightarrow> f then insert ?o avail else avail"
  have ok: "set (op_inputs op) \<subseteq> avail" "?o \<notin> used" "stream \<longrightarrow> is_read op \<longrightarrow> f" "stage_ok cls stream ?avail (insert ?o used) l"
    using Cons.prems(1) x by auto
  have ready: "read_ready ?b colseg s op" using Cons.prems(4) x by simp
  obtain s1 where e: "op_execute to_u8 op ?b s = Inr s1"
    and b1: "pd_buffers s1 = (pd_buffers s)(?o := (if is_read op \<or> ?b then [] else pd_buffers s ?o) @ ?env ?o)"
    and c1: "pd_columns s1 = pd_columns s" "pd_batch_size s1 = pd_batch_size s"
      "pd_current s1 = (if is_read op then (pd_current s)(?o := pd_current s ?o + pd_batch_size s ?o) else pd_current s)"
    and m1: "?b \<longrightarrow> (is_read op \<and> pd_has_more s1 ?o) = more_to_read s op"
    using op_execute_value [OF ok(1) Cons.prems(2) ready, of to_u8] by blast
  have fresh: "?o \<notin> outputs l" using stage_ok_used [OF ok(4)] by blast
  have cur: "pd_current s1 b = pd_current s b" if "b \<noteq> ?o" for b using c1(3) that by simp
  have avail: "\<forall>a \<in> ?avail. pd_buffers s1 a = ?env a"
    using Cons.prems(2,3,5) ok(2) b1 x by (auto simp: seg_step_other)
  have more: "(is_read op \<and> pd_has_more s1 ?o) \<and> stream \<longleftrightarrow> stream \<and> more_to_read s op"
    using m1 ok(3) by (cases op) auto
  have other: "op_output (fst y) \<noteq> ?o" if "y \<in> set l" for y using fresh that by (cases y) (auto simp: image_iff)
  have "\<forall>(op, f) \<in> set l. read_ready (stream \<and> f) colseg s1 op"
    using Cons.prems(4) x read_ready_cong [OF c1(1,2) cur] other by fastforce
  moreover have "\<not> stream \<longrightarrow> (\<forall>(op, f) \<in> set l. pd_buffers s1 (op_output op) = [])"
    using Cons.prems(5) x b1 other by fastforce
  moreover have "?avail \<subseteq> insert ?o used" using Cons.prems(3) by auto
  ultimately obtain s' where
    s': "exec_list to_u8 stream l s1 (hm \<or> (is_read op \<and> pd_has_more s1 ?o) \<and> stream) =
       Inr (s', (hm \<or> (is_read op \<and> pd_has_more s1 ?o) \<and> stream) \<or> (stream \<and> (\<exists>(op, f) \<in> set l. more_to_read s1 op)))"
    and r: "round_of stream (foldl (seg_step to_u8 colseg) ?env (map fst l)) l s1 s'"
    using Cons.IH [OF ok(4) avail] by blast
  have same: "more_to_read s1 (fst y) = more_to_read s (fst y)" if "y \<in> set l" for y
    by (rule more_to_read_cong [OF c1(1,2) cur [OF other [OF that]]])
  then have "(\<exists>(op, f) \<in> set l. more_to_read s1 op) = (\<exists>(op, f) \<in> set l. more_to_read s op)" by fastforce
  then have "exec_list to_u8 stream (x # l) s hm = Inr (s', hm \<or> (stream \<and> (\<exists>(op, f) \<in> set (x # l). more_to_read s op)))"
    using e s' more x by auto
  moreover have "round_of stream (foldl (seg_step to_u8 colseg) env (map fst (x # l))) (x # l) s s'"
    using r b1 c1 fresh other cur seg_values_other [OF fresh, of to_u8 colseg ?env] x
    by (fastforce simp: round_of_def)
  ultimately show ?case by blast
qed

section \<open>Batches add up\<close>

text \<open>
  The length of a buffer by its class, when the columns have \<open>n\<close> rows: an unfiltered buffer has all rows, a
  filtered one those that its last filter selects.
\<close>

fun class_len :: "('v \<Rightarrow> u8) \<Rightarrow> (nat \<Rightarrow> 'v list) \<Rightarrow> nat \<Rightarrow> nat list \<Rightarrow> nat" where
  "class_len to_u8 env n [] = n"
| "class_len to_u8 env n (filt # _) = length (filter (\<lambda>b. to_u8 b > 0) (env filt))"

definition aligned :: "('v \<Rightarrow> u8) \<Rightarrow> (nat \<Rightarrow> nat list) \<Rightarrow> nat \<Rightarrow> nat set \<Rightarrow> (nat \<Rightarrow> 'v list) \<Rightarrow> bool" where
  "aligned to_u8 cls n A env \<longleftrightarrow>
     (\<forall>a \<in> A. length (env a) = class_len to_u8 env n (cls a) \<and> (\<forall>filt rest. cls a = filt # rest \<longrightarrow> filt \<in> A))"

lemma length_filter_zip:
  "length xs = length ys \<Longrightarrow> length (filter (\<lambda>(d, b). P b) (zip xs ys)) = length (filter P ys)"
  by (induction xs ys rule: list_induct2) auto

lemma aligned_same: "aligned to_u8 cls n A env \<Longrightarrow> a \<in> A \<Longrightarrow> b \<in> A \<Longrightarrow> cls a = cls b \<Longrightarrow> length (env a) = length (env b)"
  by (simp add: aligned_def)

lemma aligned_step:
  assumes al: "aligned to_u8 cls n A env" and ok: "class_ok cls op" "set (op_inputs op) \<subseteq> A" "op_output op \<notin> A"
    and col: "\<forall>name i out. op = ReadColumnData name i out \<longrightarrow> length (colseg name i) = n"
  shows "aligned to_u8 cls n (insert (op_output op) A) (seg_step to_u8 colseg env op)"
proof -
  let ?env = "seg_step to_u8 colseg env op" and ?o = "op_output op"
  have keep: "class_len to_u8 ?env n (cls a) = class_len to_u8 env n (cls a)" if "\<forall>filt rest. cls a = filt # rest \<longrightarrow> filt \<in> A" for a
  proof (cases "cls a")
    case (Cons filt rest)
    then have "?env filt = env filt" using that ok(3) by (metis seg_step_other)
    then show ?thesis using Cons by simp
  qed simp
  have old: "length (?env a) = class_len to_u8 ?env n (cls a) \<and> (\<forall>filt rest. cls a = filt # rest \<longrightarrow> filt \<in> insert ?o A)"
    if "a \<in> A" for a
  proof -
    have f: "\<forall>filt rest. cls a = filt # rest \<longrightarrow> filt \<in> A" and l: "length (env a) = class_len to_u8 env n (cls a)"
      using al that unfolding aligned_def by blast+
    have "?env a = env a" using that ok(3) by (metis seg_step_other)
    then show ?thesis using keep [OF f] f l by simp
  qed
  have new: "length (?env ?o) = class_len to_u8 ?env n (cls ?o) \<and> (\<forall>filt rest. cls ?o = filt # rest \<longrightarrow> filt \<in> insert ?o A)"
  proof (cases op)
    case (ReadColumnData name i out)
    then show ?thesis using ok(1) col by simp
  next
    case (MapOperator f input out)
    then have "input \<noteq> out" using ok by auto
    then show ?thesis using ok MapOperator old [of input] by auto
  next
    case (BinaryOperator f lhs rhs out)
    have "length (env lhs) = length (env rhs)" using al ok BinaryOperator by (intro aligned_same [OF al]) auto
    moreover have "lhs \<noteq> out" using ok BinaryOperator by auto
    ultimately show ?thesis using ok BinaryOperator old [of lhs] by auto
  next
    case (FilterOperator input filt out)
    have "length (env input) = length (env filt)" using al ok FilterOperator by (intro aligned_same [OF al]) auto
    then show ?thesis using ok FilterOperator by (auto simp: length_filter_zip)
  qed
  show ?thesis unfolding aligned_def using old new by blast
qed

text \<open>The values for two consecutive parts of the columns append to the value for both.\<close>

lemma seg_step_append:
  assumes "\<forall>a \<in> A. env a = env1 a @ env2 a" and "aligned to_u8 cls n A env1"
    and ok: "class_ok cls op" "set (op_inputs op) \<subseteq> A" "op_output op \<notin> A"
    and col: "\<forall>name i. colseg name i = colseg1 name i @ colseg2 name i"
  shows "\<forall>a \<in> insert (op_output op) A. seg_step to_u8 colseg env op a = seg_step to_u8 colseg1 env1 op a @ seg_step to_u8 colseg2 env2 op a"
proof -
  have "seg_step to_u8 colseg env op (op_output op) =
      seg_step to_u8 colseg1 env1 op (op_output op) @ seg_step to_u8 colseg2 env2 op (op_output op)"
  proof (cases op)
    case (BinaryOperator f lhs rhs out)
    have "length (env1 lhs) = length (env1 rhs)" using ok BinaryOperator by (intro aligned_same [OF assms(2)]) auto
    then show ?thesis using assms(1) ok BinaryOperator by simp
  next
    case (FilterOperator input filt out)
    have "length (env1 input) = length (env1 filt)" using ok FilterOperator by (intro aligned_same [OF assms(2)]) auto
    then show ?thesis using assms(1) ok FilterOperator by simp
  qed (use assms in auto)
  moreover have "seg_step to_u8 c e op a = e a" if "a \<in> A" for a c e using that ok(3) by (metis seg_step_other)
  ultimately show ?thesis using assms(1) by simp
qed

lemma seg_fold_append:
  assumes "stage_ok cls stream avail used l" and "avail \<subseteq> used" and "\<forall>a \<in> used. env a = env1 a @ env2 a"
    and "aligned to_u8 cls n used env1"
    and "\<forall>name i. colseg name i = colseg1 name i @ colseg2 name i" 
    and "\<forall>(op, f) \<in> set l. \<forall>name i out. op = ReadColumnData name i out \<longrightarrow> length (colseg1 name i) = n"
  shows "\<forall>a \<in> used \<union> outputs l. foldl (seg_step to_u8 colseg) env (map fst l) a =
    foldl (seg_step to_u8 colseg1) env1 (map fst l) a @ foldl (seg_step to_u8 colseg2) env2 (map fst l) a"
  using assms
proof (induction l arbitrary: avail used env env1 env2)
  case (Cons x l)
  obtain op f where x: "x = (op, f)" by (cases x)
  let ?o = "op_output op" and ?avail = "if stream \<longrightarrow> f then insert (op_output op) avail else avail"
  have ok: "set (op_inputs op) \<subseteq> used" "?o \<notin> used" "class_ok cls op" "stage_ok cls stream ?avail (insert ?o used) l"
    using Cons.prems(1,2) x by auto
  have "\<forall>a \<in> insert ?o used \<union> outputs l. foldl (seg_step to_u8 colseg) (seg_step to_u8 colseg env op) (map fst l) a =
    foldl (seg_step to_u8 colseg1) (seg_step to_u8 colseg1 env1 op) (map fst l) a @
    foldl (seg_step to_u8 colseg2) (seg_step to_u8 colseg2 env2 op) (map fst l) a"
  proof (rule Cons.IH [OF ok(4)])
    show "?avail \<subseteq> insert ?o used" using Cons.prems(2) by auto
    show "\<forall>a \<in> insert ?o used. seg_step to_u8 colseg env op a = seg_step to_u8 colseg1 env1 op a @ seg_step to_u8 colseg2 env2 op a"
      by (rule seg_step_append [OF Cons.prems(3,4) ok(3,1,2) Cons.prems(5)])
    show "aligned to_u8 cls n (insert ?o used) (seg_step to_u8 colseg1 env1 op)"
      using Cons.prems(6) x by (intro aligned_step [OF Cons.prems(4) ok(3,1,2)]) auto
  qed (use Cons.prems in simp_all)
  then show ?case using x by simp
qed simp

lemma stage_ok_reads: "stage_ok cls True avail used l \<Longrightarrow> (op, f) \<in> set l \<Longrightarrow> is_read op \<Longrightarrow> f"
  by (induction l arbitrary: avail used) auto

lemma seg_fold_cong:
  "\<forall>op \<in> set ops. \<forall>name i out. op = ReadColumnData name i out \<longrightarrow> c name i = c' name i \<Longrightarrow>
   foldl (seg_step to_u8 c) env ops = foldl (seg_step to_u8 c') env ops"
proof (induction ops arbitrary: env)
  case (Cons op ops)
  have "seg_step to_u8 c env op = seg_step to_u8 c' env op" using Cons.prems by (cases op) auto
  then show ?case using Cons by simp
qed simp

lemma finalize_ops:
  "\<forall>(i, _) \<in> set m. i < length os \<Longrightarrow> rfoldM (\<lambda>s (op, _). vo_finalize (map (vec_operator to_u8) os ! op) s) s m = Inr s"
  by (induction m) (auto simp: vec_operator_def)

section \<open>All batches\<close>

definition col_values :: "'v pad \<Rightarrow> string \<Rightarrow> nat \<Rightarrow> 'v list" where
  "col_values s name i = (case get_column_data s name i of Inr d \<Rightarrow> d | Inl _ \<Rightarrow> [])"

lemma seg_fold_Nil: "foldl (seg_step to_u8 (\<lambda>_ _. [])) (\<lambda>_. []) ops = (\<lambda>_. [])"
proof -
  have "seg_step to_u8 (\<lambda>_ _. []) (\<lambda>_. []) op = (\<lambda>_. [])" for op :: "'a Operator" by (cases op) auto
  then show ?thesis by (induction ops) auto
qed

text \<open>The state before the round that starts at row \<open>k\<close>.\<close>

definition batch_inv :: "('v \<Rightarrow> u8) \<Rightarrow> (string \<Rightarrow> nat \<Rightarrow> 'v list) \<Rightarrow> nat \<Rightarrow> ('v Operator \<times> bool) list \<Rightarrow> nat \<Rightarrow> 'v pad \<Rightarrow> bool" where
  "batch_inv to_u8 col len l k s \<longleftrightarrow>
     (\<forall>(op, f) \<in> set l.
        (\<forall>name i out. op = ReadColumnData name i out \<longrightarrow>
           get_column_data s name i = Inr (col name i) \<and> length (col name i) = len \<and>
           pd_current s out = k \<and> pd_batch_size s out = 1024) \<and>
        (\<not> is_read op \<longrightarrow> \<not> f \<longrightarrow>
           pd_buffers s (op_output op) = seg_values to_u8 (\<lambda>name i. take k (col name i)) (map fst l) (op_output op)))"

lemma batch_round:
  assumes inv: "batch_inv to_u8 col len l k s" and ok: "stage_ok cls True {} {} l" and k: "k \<le> len" "\<exists>(op, _) \<in> set l. is_read op"
  shows "\<exists>s'. exec_list to_u8 True l s False = Inr (s', k + 1024 < len) \<and> batch_inv to_u8 col len l (k + 1024) s'"
proof -
  let ?batch = "\<lambda>name i. take 1024 (drop k (col name i))"
  let ?env = "foldl (seg_step to_u8 ?batch) (\<lambda>_. []) (map fst l)"
  have rd: "get_column_data s name i = Inr (col name i)" "length (col name i) = len" "pd_current s out = k" "pd_batch_size s out = 1024" "f"
    if "(ReadColumnData name i out, f) \<in> set l" for name i out f
  proof -
    show "get_column_data s name i = Inr (col name i)" "length (col name i) = len" "pd_current s out = k" "pd_batch_size s out = 1024"
      using inv that unfolding batch_inv_def by auto
    show f using stage_ok_reads [OF ok that] by simp
  qed
  have ready: "\<forall>(op, f) \<in> set l. read_ready (True \<and> f) ?batch s op"
  proof clarify
    fix op f assume m: "(op, f) \<in> set l"
    show "read_ready (True \<and> f) ?batch s op"
    proof (cases op)
      case (ReadColumnData name i out)
      have "slice_box (col name i) k (k + 1024) = Inr (?batch name i)"
        using rd(2) m k(1) ReadColumnData by (simp add: slice_box_def rassert_def Let_def take_drop add.commute min_def)
      moreover have f using rd(5) m ReadColumnData by blast
      ultimately show ?thesis using rd(1-4) [of name i out f] m ReadColumnData by simp
    qed simp_all
  qed
  have "\<forall>a \<in> {}. pd_buffers s a = []" by simp
  then have "\<exists>s'. exec_list to_u8 True l s False = Inr (s', False \<or> (True \<and> (\<exists>(op, f) \<in> set l. more_to_read s op))) \<and>
      round_of True ?env l s s'"
    by (rule exec_list_round [OF ok _ _ ready]) auto
  then obtain s' where
    s': "exec_list to_u8 True l s False = Inr (s', \<exists>(op, f) \<in> set l. more_to_read s op)" "round_of True ?env l s s'"
    by auto
  have mr: "more_to_read s op \<longleftrightarrow> is_read op \<and> k + 1024 < len" if "(op, f) \<in> set l" for op f
    using rd that by (cases op) auto
  then have more: "(\<exists>(op, f) \<in> set l. more_to_read s op) \<longleftrightarrow> k + 1024 < len" using k(2) by fastforce
  have app: "\<forall>a \<in> {} \<union> outputs l. foldl (seg_step to_u8 (\<lambda>name i. take (k + 1024) (col name i))) (\<lambda>_. []) (map fst l) a =
      foldl (seg_step to_u8 (\<lambda>name i. take k (col name i))) (\<lambda>_. []) (map fst l) a @ ?env a"
    using rd(2) by (intro seg_fold_append [OF ok, where n = "min k len"]) (auto simp: aligned_def take_add)
  have "batch_inv to_u8 col len l (k + 1024) s'"
    unfolding batch_inv_def
  proof (clarify, intro conjI allI impI)
    fix op f name i out assume m: "(op, f) \<in> set l" and o: "op = ReadColumnData name i out"
    show "get_column_data s' name i = Inr (col name i)" "length (col name i) = len"
      using rd [of name i out f] m o s'(2) by (auto simp: round_of_def get_column_data_def)
    show "pd_current s' out = k + 1024" "pd_batch_size s' out = 1024"
      using rd [of name i out f] m o s'(2) by (auto simp: round_of_def)
  next
    fix op f assume m: "(op, f) \<in> set l" and o: "\<not> is_read op" "\<not> f"
    have "pd_buffers s' (op_output op) = pd_buffers s (op_output op) @ ?env (op_output op)"
      using m o s'(2) by (auto simp: round_of_def)
    moreover have "pd_buffers s (op_output op) = seg_values to_u8 (\<lambda>name i. take k (col name i)) (map fst l) (op_output op)"
      using inv m o unfolding batch_inv_def by auto
    moreover have mem: "op_output op \<in> {} \<union> outputs l" using m by force
    ultimately show "pd_buffers s' (op_output op) = seg_values to_u8 (\<lambda>name i. take (k + 1024) (col name i)) (map fst l) (op_output op)"
      unfolding seg_values_def app [rule_format, OF mem] by simp
  qed
  then show ?thesis using s'(1) more by auto
qed

lemma batch_loop:
  assumes "batch_inv to_u8 col len l k s" and "stage_ok cls True {} {} l" and "k \<le> len" and "\<exists>(op, _) \<in> set l. is_read op"
    and "\<forall>(i, _) \<in> set m. i < length os" and l: "l = map (\<lambda>(i, f). (os ! i, f)) m"
  shows "\<exists>s' k'. stage_loop (map (vec_operator to_u8) os) True m s = Some (Inr s') \<and> batch_inv to_u8 col len l k' s' \<and> len \<le> k'"
  using assms(1,3)
proof (induction "len - k" arbitrary: k s rule: less_induct)
  case less
  obtain s' where s': "exec_list to_u8 True l s False = Inr (s', k + 1024 < len)" "batch_inv to_u8 col len l (k + 1024) s'"
    using batch_round [OF less(2) assms(2) less(3) assms(4)] by blast
  have e: "execute_ops (map (vec_operator to_u8) os) True m s False = Inr (s', k + 1024 < len)"
    using execute_ops_list [OF assms(5)] s'(1) l by simp
  show ?case
  proof (cases "k + 1024 < len")
    case True
    then have "len - (k + 1024) < len - k" "k + 1024 \<le> len" by auto
    from less(1) [OF this(1) s'(2) this(2)] show ?thesis using e True by (simp add: stage_loop.simps [of _ _ _ s])
  next
    case False
    then show ?thesis using e s'(2) by (intro exI [of _ s'] exI [of _ "k + 1024"]) (simp add: stage_loop.simps [of _ _ _ s])
  qed
qed

text \<open>Preparing the operators of a stage.\<close>

definition prepared :: "nat \<Rightarrow> ('v Operator \<times> bool) list \<Rightarrow> 'v pad \<Rightarrow> 'v pad \<Rightarrow> bool" where
  "prepared batch_size l s s' \<longleftrightarrow>
     pd_columns s' = pd_columns s \<and> pd_current s' = pd_current s \<and>
     (\<forall>(op, f) \<in> set l. (is_read op \<longrightarrow> f \<longrightarrow> pd_batch_size s' (op_output op) = batch_size) \<and>
        (\<not> is_read op \<longrightarrow> pd_buffers s' (op_output op) = []))"

lemma init_ops:
  assumes "\<forall>(i, f) \<in> set m. i < length os \<and> (is_read (os ! i) \<longrightarrow> f)"
  shows "\<exists>s'. rfoldM (\<lambda>s (op, streamable).
      vo_init (map (vec_operator to_u8) os ! op) cnt (if streamable then batch_size else other op) s) s m = Inr s' \<and>
    prepared batch_size (map (\<lambda>(i, f). (os ! i, f)) m) s s' \<and> (\<forall>b. pd_buffers s b = [] \<longrightarrow> pd_buffers s' b = [])"
  using assms
proof (induction m rule: rev_induct)
  case Nil
  then show ?case by (simp add: prepared_def)
next
  case (snoc x m)
  obtain i f where x: "x = (i, f)" "i < length os" "is_read (os ! i) \<longrightarrow> f" using snoc.prems by (cases x) auto
  obtain s1 where s1: "rfoldM (\<lambda>s (op, streamable).
      vo_init (map (vec_operator to_u8) os ! op) cnt (if streamable then batch_size else other op) s) s m = Inr s1"
    "prepared batch_size (map (\<lambda>(i, f). (os ! i, f)) m) s s1" "\<forall>b. pd_buffers s b = [] \<longrightarrow> pd_buffers s1 b = []"
    using snoc by auto
  let ?op = "os ! i"
  let ?s2 = "if is_read ?op then s1\<lparr>pd_batch_size := (pd_batch_size s1)(op_output ?op := if f then batch_size else other i)\<rparr>
    else set_buffer (op_output ?op) [] s1"
  have "vo_init (map (vec_operator to_u8) os ! i) cnt (if f then batch_size else other i) s1 = Inr ?s2"
    using x(2) by (simp add: vec_operator_def op_init_def)
  then show ?case using s1 x by (auto simp: rfoldM_append prepared_def set_buffer_def)
qed

lemma init_stage_streaming:
  assumes "st_stream stage" and "\<forall>(i, f) \<in> set (st_ops stage). i < length os \<and> (is_read (os ! i) \<longrightarrow> f)"
  shows "\<exists>n k s'. init_stage pad_len (map (vec_operator to_u8) os) len stage s = Inr (n, k, s') \<and>
    prepared 1024 (map (\<lambda>(i, f). (os ! i, f)) (st_ops stage)) s s'"
proof -
  let ?ops = "map (vec_operator to_u8) os"
  let ?lens = "map (\<lambda>i. length (pd_buffers s i)) (concat (map (\<lambda>(op, _). oi_inputs (vo_info (?ops ! op))) (st_ops stage)))"
  let ?n = "if list_ex (\<lambda>(op, _). oi_is_streaming_producer (vo_info (?ops ! op))) (st_ops stage) then len else foldl max 0 ?lens"
  let ?other = "\<lambda>op. case oi_custom_output_len (vo_info (?ops ! op)) of None \<Rightarrow> ?n | Some n \<Rightarrow> n"
  have lens: "rmapM (pad_len s) xs = Inr (map (\<lambda>i. length (pd_buffers s i)) xs)" for xs
    by (induction xs) (auto simp: pad_len_def)
  obtain s' where s': "rfoldM (\<lambda>s (op, streamable). vo_init (?ops ! op) ?n (if streamable then 1024 else ?other op) s) s (st_ops stage) = Inr s'"
    "prepared 1024 (map (\<lambda>(i, f). (os ! i, f)) (st_ops stage)) s s'"
    using init_ops [OF assms(2), of to_u8 ?n 1024 ?other s] by blast
  have "init_stage pad_len ?ops len stage s = Inr (?n, 1024, s')"
    unfolding init_stage_def lens rbind.simps Let_def by (simp only: assms(1) if_True s'(1) rmap_Inr)
  then show ?thesis using s'(2) by blast
qed

text \<open>
  C20. A streaming stage of column readers, element-wise operators and filters, in an order in which every
  operator reads what earlier ones stream, ends, whatever the length of the columns, and leaves in the
  buffer of every operator that is not streamed the value for the whole columns.
\<close>

theorem streaming_stage_correct:
  assumes "st_stream stage" and "\<forall>(i, _) \<in> set (st_ops stage). i < length os"
    and l: "l = map (\<lambda>(i, f). (os ! i, f)) (st_ops stage)" and ok: "stage_ok cls True {} {} l"
    and reads: "\<exists>(op, _) \<in> set l. is_read op"
      "\<forall>(op, f) \<in> set l. \<forall>name i out. op = ReadColumnData name i out \<longrightarrow>
         (\<exists>d. get_column_data s name i = Inr d \<and> length d = len) \<and> pd_current s out = 0"
  shows "\<exists>s'. run_stage pad_len (map (vec_operator to_u8) os) len stage s = Some (Inr s') \<and>
    (\<forall>(op, f) \<in> set l. \<not> f \<longrightarrow> pd_buffers s' (op_output op) = seg_values to_u8 (col_values s) (map fst l) (op_output op))"
proof -
  have rf: "f" if "(op, f) \<in> set l" "is_read op" for op f using stage_ok_reads [OF ok] that by auto
  then have "\<forall>(i, f) \<in> set (st_ops stage). i < length os \<and> (is_read (os ! i) \<longrightarrow> f)" using assms(2) l by fastforce
  then obtain n k s1 where i: "init_stage pad_len (map (vec_operator to_u8) os) len stage s = Inr (n, k, s1)" "prepared 1024 l s s1"
    using init_stage_streaming [OF assms(1)] l by blast
  have "batch_inv to_u8 (col_values s) len l 0 s1"
    unfolding batch_inv_def
  proof (clarify, intro conjI allI impI)
    fix op f name i out assume m: "(op, f) \<in> set l" and o: "op = ReadColumnData name i out"
    then obtain d where d: "get_column_data s name i = Inr d" "length d = len" "pd_current s out = 0" using reads(2) by fastforce
    then show "get_column_data s1 name i = Inr (col_values s name i)" "length (col_values s name i) = len" "pd_current s1 out = 0"
      using i(2) by (auto simp: prepared_def get_column_data_def col_values_def)
    show "pd_batch_size s1 out = 1024" using i(2) m o rf [OF m] by (fastforce simp: prepared_def)
  next
    fix op f assume m: "(op, f) \<in> set l" "\<not> is_read op" "\<not> f"
    then show "pd_buffers s1 (op_output op) = seg_values to_u8 (\<lambda>name i. take 0 (col_values s name i)) (map fst l) (op_output op)"
      using i(2) by (auto simp: prepared_def seg_values_def seg_fold_Nil)
  qed
  from batch_loop [OF this ok _ reads(1) assms(2) l] obtain s2 k' where
    s2: "stage_loop (map (vec_operator to_u8) os) True (st_ops stage) s1 = Some (Inr s2)"
      "batch_inv to_u8 (col_values s) len l k' s2" "len \<le> k'" by auto
  have whole: "seg_values to_u8 (\<lambda>name i. take k' (col_values s name i)) (map fst l) = seg_values to_u8 (col_values s) (map fst l)"
    unfolding seg_values_def
    by (rule seg_fold_cong) (use s2(2,3) in \<open>auto simp: batch_inv_def\<close>)
  have "rfoldM (\<lambda>s (op, _). vo_finalize (map (vec_operator to_u8) os ! op) s) s2 (st_ops stage) = Inr s2"
    by (rule finalize_ops [OF assms(2)])
  then have "run_stage pad_len (map (vec_operator to_u8) os) len stage s = Some (Inr s2)"
    using i(1) s2(1) assms(1) by (simp add: run_stage_def)
  moreover have "pd_buffers s2 (op_output op) = seg_values to_u8 (col_values s) (map fst l) (op_output op)"
    if m: "(op, f) \<in> set l" "\<not> f" for op f
  proof -
    have "\<not> is_read op" using rf m by blast
    then show ?thesis using s2(2) m whole unfolding batch_inv_def by fastforce
  qed
  ultimately show ?thesis by blast
qed

section \<open>Columns of different lengths\<close>

lemma op_execute_frame:
  assumes "op_execute to_u8 op b s = Inr s1"
  shows "pd_columns s1 = pd_columns s \<and> pd_batch_size s1 = pd_batch_size s \<and> (\<forall>o'. o' \<noteq> op_output op \<longrightarrow> pd_current s1 o' = pd_current s o')"
  using assms by (cases op) (auto simp: read_execute_def set_buffer_def Let_def rbind_Inr_iff)

lemma op_execute_error: "op_execute to_u8 op b s = Inl e \<Longrightarrow> e = Panicked"
proof (cases op)
  case (ReadColumnData name i out)
  moreover assume "op_execute to_u8 op b s = Inl e"
  ultimately show ?thesis
    by (cases "pd_columns s name") (auto simp: read_execute_def get_column_data_def slice_box_def rassert_def index_def Let_def rbind_Inl_iff
        split: if_splits option.splits)
qed auto

lemma exec_list_panics:
  assumes "stage_ok cls True avail used l" and "(ReadColumnData name i out, f) \<in> set l" and "get_column_data s name i = Inr d"
    and "length d < pd_current s out"
  shows "exec_list to_u8 True l s hm = Inl Panicked"
  using assms
proof (induction l arbitrary: avail used s hm)
  case (Cons x l)
  obtain op g where x: "x = (op, g)" by (cases x)
  let ?o = "op_output op"
  obtain avail' where ok: "stage_ok cls True avail' (insert ?o used) l" using Cons.prems(1) x by auto
  show ?case
  proof (cases "op_execute to_u8 op (True \<and> g) s")
    case (Inl e)
    then show ?thesis using op_execute_error [OF Inl] x by simp
  next
    case (Inr s1)
    show ?thesis
    proof (cases "(ReadColumnData name i out, f) \<in> set l")
      case True
      have "out \<noteq> ?o" using stage_ok_used [OF ok] True by force
      moreover note fr = op_execute_frame [OF Inr]
      moreover have "get_column_data s1 name i = Inr d" using Cons.prems(3) fr by (simp add: get_column_data_def)
      ultimately show ?thesis using Cons.IH [OF ok True] Cons.prems(4) Inr x by simp
    next
      case False
      then have "op = ReadColumnData name i out" using Cons.prems(2) x by simp
      then have "op_execute to_u8 op (True \<and> g) s = Inl Panicked"
        using Cons.prems(3,4) by (cases g) (auto simp: read_execute_def slice_box_def rassert_def Let_def)
      then show ?thesis using Inr by simp
    qed
  qed
qed simp

text \<open>
  C23. A streaming stage that reads a column of more than 1024 rows and another one with fewer than 1024 elements
  panics in its second round, where it slices the short one from row 1024 on. The bit map of the present values of a
  nullable column has one bit for each row, so this is what happens to a nullable column of 1025 to
  about 8000 rows.
\<close>

theorem short_column_panics:
  assumes "st_stream stage" and "\<forall>(i, _) \<in> set (st_ops stage). i < length os"
    and l: "l = map (\<lambda>(i, f). (os ! i, f)) (st_ops stage)" and ok: "stage_ok cls True {} {} l"
    and reads: "\<forall>(op, f) \<in> set l. \<forall>name i out. op = ReadColumnData name i out \<longrightarrow>
         (\<exists>d. get_column_data s name i = Inr d) \<and> pd_current s out = 0"
    and long: "(ReadColumnData name i out, f) \<in> set l" "get_column_data s name i = Inr d" "1024 < length d"
    and short: "(ReadColumnData name' i' out', f') \<in> set l" "get_column_data s name' i' = Inr d'" "length d' < 1024"
  shows "run_stage pad_len (map (vec_operator to_u8) os) len stage s = Some (Inl Panicked)"
proof -
  let ?ops = "map (vec_operator to_u8) os" and ?col = "\<lambda>name i. take 1024 (col_values s name i)"
  have rf: "f" if "(op, f) \<in> set l" "is_read op" for op f using stage_ok_reads [OF ok] that by auto
  then have "\<forall>(i, f) \<in> set (st_ops stage). i < length os \<and> (is_read (os ! i) \<longrightarrow> f)" using assms(2) l by fastforce
  then obtain n k s1 where i: "init_stage pad_len ?ops len stage s = Inr (n, k, s1)" "prepared 1024 l s s1"
    using init_stage_streaming [OF assms(1)] l by blast
  have st: "get_column_data s1 name i = get_column_data s name i" "pd_current s1 = pd_current s" for name i
    using i(2) by (auto simp: prepared_def get_column_data_def)
  have bs: "pd_batch_size s1 out = 1024" if "(ReadColumnData name i out, f) \<in> set l" for name i out f
    using i(2) that rf [OF that] by (fastforce simp: prepared_def)
  have "read_ready (True \<and> f) ?col s1 op" if m: "(op, f) \<in> set l" for op f
  proof (cases op)
    case (ReadColumnData name i out)
    then obtain d where "get_column_data s name i = Inr d" "pd_current s out = 0" using reads m by fastforce
    moreover have f using rf [OF m] ReadColumnData by simp
    ultimately show ?thesis
      using ReadColumnData bs [of name i out f] m st
      by (auto simp: slice_box_def rassert_def Let_def col_values_def min_def)
  qed simp_all
  then have ready: "\<forall>(op, f) \<in> set l. read_ready (True \<and> f) ?col s1 op" by blast
  have "\<forall>a \<in> {}. pd_buffers s1 a = []" by simp
  then have "\<exists>s2. exec_list to_u8 True l s1 False = Inr (s2, False \<or> (True \<and> (\<exists>(op, f) \<in> set l. more_to_read s1 op))) \<and>
      round_of True (foldl (seg_step to_u8 ?col) (\<lambda>_. []) (map fst l)) l s1 s2"
    by (rule exec_list_round [OF ok _ _ ready]) auto
  then obtain s2 where s2: "exec_list to_u8 True l s1 False = Inr (s2, \<exists>(op, f) \<in> set l. more_to_read s1 op)"
      "round_of True (foldl (seg_step to_u8 ?col) (\<lambda>_. []) (map fst l)) l s1 s2"
    by auto
  have "pd_current s out = 0" if "(ReadColumnData name i out, f) \<in> set l" for name i out f
    using bspec [OF reads that] by simp
  then have "pd_current s out = 0" "pd_current s out' = 0" using long(1) short(1) by blast+
  then have cur: "pd_current s1 out = 0" "pd_current s1 out' = 0" using st by auto
  have "more_to_read s1 (ReadColumnData name i out)" using st long bs [OF long(1)] cur by simp
  then have more: "\<exists>(op, f) \<in> set l. more_to_read s1 op" using long(1) by blast
  have "get_column_data s2 name' i' = Inr d'" using s2(2) st short(2) by (simp add: round_of_def get_column_data_def)
  moreover have "pd_current s2 out' = 1024" using s2(2) short(1) cur bs [OF short(1)] by (fastforce simp: round_of_def)
  ultimately have second: "exec_list to_u8 True l s2 False = Inl Panicked"
    using exec_list_panics [OF ok short(1)] short(3) by simp
  note e = execute_ops_list [OF assms(2), of to_u8 True, folded l]
  have "stage_loop ?ops True (st_ops stage) s2 = Some (Inl Panicked)"
    using second e by (simp add: stage_loop.simps [of _ _ _ s2])
  then have "stage_loop ?ops True (st_ops stage) s1 = Some (Inl Panicked)"
    using s2(1) more e by (simp add: stage_loop.simps [of _ _ _ s1])
  then show ?thesis using i(1) assms(1) by (simp add: run_stage_def)
qed

section \<open>Examples\<close>

text \<open>\<open>SELECT a FROM t WHERE p\<close>: the column is read, mapped to a predicate, and filtered by it.\<close>

definition filter_operators :: "int Operator list" where
  "filter_operators =
     [ReadColumnData ''a'' 0 0, MapOperator (\<lambda>x. if x < 3 then 1 else 0) 0 1, FilterOperator 0 1 2]"

definition filter_pad :: "int list \<Rightarrow> int pad" where
  "filter_pad column =
     \<lparr>pd_buffers = (\<lambda>_. []), pd_columns = [''a'' \<mapsto> [column]], pd_current = (\<lambda>_. 0), pd_batch_size = (\<lambda>_. 0),
      pd_has_more = (\<lambda>_. False)\<rparr>"

definition filter_stage :: ExecutorStage where
  "filter_stage = \<lparr>st_ops = [(0, True), (1, True), (2, False)], st_stream = True\<rparr>"

text \<open>This is the stage that the executor makes of these operators.\<close>

lemma filter_stage_partition:
  "partition_stages 3 (map operator_info filter_operators) sorted_list_of_set = Inr [filter_stage]"
  by code_simp

definition below_three :: "int list \<Rightarrow> int list" where
  "below_three xs = map fst (filter (\<lambda>(d, b). (of_int b :: u8) > 0) (zip xs (map (\<lambda>x. if x < 3 then 1 else 0) xs)))"

definition long_column :: "int list" where
  "long_column = replicate 1997 7 @ [0, 1, 2]"

definition null_bytes :: "int list" where
  "null_bytes = replicate 250 255"

lemma length_long_column: "length long_column = 2000"
  unfolding long_column_def length_append length_replicate by simp

lemma length_null_bytes: "length null_bytes = 250"
  unfolding null_bytes_def by (rule length_replicate)

lemma below_three_long: "below_three long_column = [0, 1, 2]"
proof -
  have b: "below_three xs = filter (\<lambda>x. x < 3) xs" for xs by (induction xs) (auto simp: below_three_def)
  have "filter (\<lambda>x. x < 3) (replicate n 7) = ([] :: int list)" for n by (induction n) auto
  then show ?thesis unfolding b long_column_def filter_append by simp
qed

theorem streaming_stage_correct_witness:
  "\<exists>s'. run_stage pad_len (map (vec_operator of_int) filter_operators) 2000 filter_stage (filter_pad long_column) = Some (Inr s') \<and>
     pd_buffers s' 2 = [0, 1, 2]"
proof -
  let ?l = "map (\<lambda>(i, f). (filter_operators ! i, f)) (st_ops filter_stage)"
  have l: "?l = [(ReadColumnData ''a'' 0 0, True), (MapOperator (\<lambda>x. if x < 3 then 1 else 0) 0 1, True), (FilterOperator 0 1 2, False)]"
    by (simp add: filter_stage_def filter_operators_def)
  have a: "st_stream filter_stage" "\<forall>(i, _) \<in> set (st_ops filter_stage). i < length filter_operators"
    by (auto simp: filter_stage_def filter_operators_def)
  have ok: "stage_ok (\<lambda>b. if b = 2 then [1] else []) True {} {} ?l" by (simp add: l)
  have r: "\<exists>(op, _) \<in> set ?l. is_read op"
      "\<forall>(op, f) \<in> set ?l. \<forall>name i out. op = ReadColumnData name i out \<longrightarrow>
        (\<exists>d. get_column_data (filter_pad long_column) name i = Inr d \<and> length d = 2000) \<and> pd_current (filter_pad long_column) out = 0"
    by (auto simp: l filter_pad_def get_column_data_def index_def length_long_column)
  obtain s' where s': "run_stage pad_len (map (vec_operator of_int) filter_operators) 2000 filter_stage (filter_pad long_column) = Some (Inr s')"
    "\<forall>(op, f) \<in> set ?l. \<not> f \<longrightarrow>
      pd_buffers s' (op_output op) = seg_values of_int (col_values (filter_pad long_column)) (map fst ?l) (op_output op)"
    using streaming_stage_correct [OF a refl ok r] by blast
  have "pd_buffers s' 2 = below_three long_column"
    using s'(2) by (simp add: l seg_values_def col_values_def filter_pad_def get_column_data_def index_def below_three_def)
  then show ?thesis using s'(1) below_three_long by auto
qed

text \<open>A nullable column of 2000 rows, whose bit map has 250 bytes.\<close>

definition nullable_operators :: "int Operator list" where
  "nullable_operators = [ReadColumnData ''a'' 0 0, ReadColumnData ''a'' 1 1, MapOperator id 0 2]"

definition nullable_pad :: "int pad" where
  "nullable_pad = (filter_pad [])\<lparr>pd_columns := [''a'' \<mapsto> [long_column, null_bytes]]\<rparr>"

theorem short_column_panics_witness:
  "run_stage pad_len (map (vec_operator of_int) nullable_operators) 2000
     \<lparr>st_ops = [(0, True), (1, True), (2, False)], st_stream = True\<rparr> nullable_pad = Some (Inl Panicked)"
proof -
  let ?stage = "\<lparr>st_ops = [(0, True), (1, True), (2, False)], st_stream = True\<rparr>"
  let ?l = "map (\<lambda>(i, f). (nullable_operators ! i, f)) (st_ops ?stage)"
  have l: "?l = [(ReadColumnData ''a'' 0 0, True), (ReadColumnData ''a'' 1 1, True), (MapOperator id 0 2, False)]"
    by (simp add: nullable_operators_def)
  have d: "get_column_data nullable_pad ''a'' 0 = Inr long_column" "get_column_data nullable_pad ''a'' 1 = Inr null_bytes"
    "\<forall>out. pd_current nullable_pad out = 0"
    by (simp_all add: nullable_pad_def filter_pad_def get_column_data_def index_def)
  show ?thesis
  proof (rule short_column_panics [OF _ _ refl])
    show "stage_ok (\<lambda>_. []) True {} {} ?l" unfolding l by simp
    show "\<forall>(op, f) \<in> set ?l. \<forall>name i out. op = ReadColumnData name i out \<longrightarrow>
        (\<exists>d. get_column_data nullable_pad name i = Inr d) \<and> pd_current nullable_pad out = 0"
      unfolding l using d by auto
    show "(ReadColumnData ''a'' 0 0, True) \<in> set ?l" "(ReadColumnData ''a'' 1 1, True) \<in> set ?l" unfolding l by simp_all
    show "get_column_data nullable_pad ''a'' 0 = Inr long_column" "get_column_data nullable_pad ''a'' 1 = Inr null_bytes" by (rule d)+
  qed (simp_all add: nullable_operators_def length_long_column length_null_bytes)
qed

end
