(* ===== verification/Spec2Isabelle.thy ===== *)
theory Spec2Isabelle
  imports Query_Answers Database Execution
begin

text \<open>
  A verification development for LocustDB, a column store with a query engine written in Rust
  (\<open>src/src/\<close>). The program ingests rows into buffers, turns full buffers into partitions of encoded
  columns, writes partitions to disk and evicts columns from memory, plans a query as a main phase and
  a final pass, runs the main phase on every partition on a pool of threads, and merges the results of
  partitions pairwise into one answer.

  \<^bold>\<open>Conventions.\<close> An operation that can fail returns \<open>'a res = failure + 'a\<close>: \<open>Fail e\<close> is an \<open>Err\<close> of the
  \<open>QueryError\<close> enum, \<open>Panicked\<close> a panic (failed assertion, \<open>unwrap\<close> of \<open>None\<close>, index out of range).
  Unsigned integers are words of their width where they are data; \<open>i64\<close> values are \<open>int\<close> with the range
  and wrap-around written out (\<open>in_i64\<close>, \<open>wrap_i64\<close>, \<open>checked_i64\<close>), lengths and ids are \<open>nat\<close>. Strings
  of the data are byte lists (\<open>rstr\<close>), names are \<open>string\<close>. Objects that the program changes in place
  under locks are passed in and returned.

  \<^bold>\<open>Parameters.\<close> Code outside the repository is an argument: the \<open>lz4\<close> and \<open>hex\<close> crates (\<open>externs\<close>), the
  \<open>lru\<close> crate (\<open>lru_ops\<close>), capnproto (\<open>capnp\<close>), conversion and printing of floats (\<open>float_ops\<close>), sizes
  of heap objects and the iteration order of hash maps (\<open>env\<close>, \<open>db_env\<close>). What their documentation promises
  is a named hypothesis (\<open>lz4_lossless\<close>, \<open>hex_ok\<close>, \<open>lru_laws\<close>, \<open>capnp_lossless\<close>, \<open>hash_order\<close>, \<open>sorts_unstably\<close>), and
  every theorem that needs one has a witness with a concrete function. The planner has the parameters
  \<open>plan_externs\<close>: the \<open>regex\<close> and \<open>chrono\<close> crates, multiplication of floats, and the
  order in which the unstable sort leaves equal keys.

  \<^bold>\<open>Plans.\<close> A plan is a term, its buffers are its subterms. The numbers of buffers and the sharing of equal
  subplans are not represented; a buffer that \<open>And\<close> or \<open>Or\<close> changes in place while another operator still
  reads it is therefore outside the model.

  \<^bold>\<open>Theories, from the bottom up.\<close>

  \<^item> \<open>LDB_Prelude\<close>: failures, error-passing folds and maps, machine integers (\<open>errors.rs\<close>).
  \<^item> \<open>Bit_Vectors\<close> (\<open>bitvec.rs\<close>): null maps; setting and testing bits.
  \<^item> \<open>String_Pack\<close> (\<open>stringpack.rs\<close>): packed strings, their iterators and the dictionary store; round trips, and
    the limit of 24 bits per length. A locale states what an element reader promises.
  \<^item> \<open>Encoding_Types\<close>, \<open>Codecs\<close> (\<open>engine/data_types/types.rs\<close>, \<open>mem_store/codec.rs\<close>): the types of vectors, codecs as
    programs of a stack machine and the plans that decode them; types are sound, and splitting a codec keeps its meaning.
  \<^item> \<open>Vector_Ops\<close> (\<open>engine/operators/\<close>): element-wise operators as streams; running them in batches is running them once.
  \<^item> \<open>Columns\<close> (\<open>mem_store/column.rs\<close>, \<open>lz4.rs\<close>): sections, compression, reading a column; the decoding plan refines
    the codec.
  \<^item> \<open>Column_Builders\<close> (\<open>mem_store/integers.rs\<close>, \<open>floats.rs\<close>, \<open>strings.rs\<close>, \<open>column_builder.rs\<close>): choice of encodings.
  \<^item> \<open>Merging\<close>, \<open>Partitioned_Merging\<close>, \<open>Batch_Merging\<close> (\<open>engine/operators/merge*.rs\<close>, \<open>partition.rs\<close>, \<open>subpartition.rs\<close>,
    \<open>engine/execution/batch_merging.rs\<close>): merging the results of two partitions, sorted, grouped or plain.
  \<^item> \<open>Ingestion\<close> (\<open>ingest/\<close>, \<open>mem_store/mixed_column.rs\<close>): buffers of rows and columns.
  \<^item> \<open>Storage\<close> (\<open>mem_store/partition.rs\<close>, \<open>table.rs\<close>, \<open>lru.rs\<close>): partitions, tables and eviction.
  \<^item> \<open>Storage_Format\<close>, \<open>Disk_Store\<close> (\<open>storage_format.capnp\<close>, \<open>disk_store/\<close>): messages, keys, range scans. The locale
    \<open>disk_store\<close> is the interface, interpreted on the RocksDB backend.
  \<^item> \<open>Disk_Reads\<close>, \<open>Database\<close> (\<open>scheduler/disk_read_scheduler.rs\<close>, \<open>inner_locustdb.rs\<close>): scheduling reads, opening,
    storing and restoring, and sequences of these operations as a step relation.
  \<^item> \<open>Queries\<close> (\<open>syntax/expression.rs\<close>, \<open>engine/planning/query.rs\<close>): queries and their normal form.
  \<^item> \<open>Tasks\<close> (\<open>scheduler/task.rs\<close>, \<open>shared_sender.rs\<close>, \<open>inner_locustdb.rs\<close>): the task queue and its condition variable.
  \<^item> \<open>Query_Tasks\<close>, \<open>Query_Results\<close> (\<open>engine/execution/query_task.rs\<close>): a query run by any number of threads; the
    answer to a sorted query is a window of the sorted rows of all partitions.
  \<^item> \<open>Executor\<close>, \<open>Execution\<close> (\<open>engine/execution/executor.rs\<close>): grouping operators into stages, ordering stages, and
    running a stage in batches of 1024 rows, which gives what its operators give on whole columns.
  \<^item> \<open>Expr_Ops\<close> (\<open>engine/operators/binary_operator.rs\<close>, \<open>comparison_operators.rs\<close>, \<open>numeric_operators.rs\<close>):
    comparisons and checked arithmetic on vectors and constants of every width; both are row-wise.
  \<^item> \<open>Top_N\<close> (\<open>engine/operators/top_n.rs\<close>, \<open>sort_by.rs\<close>): sorting row numbers, and the heap that keeps the first
    \<open>n\<close> rows, equal to sorting and cutting.
  \<^item> \<open>Expr_Compile\<close>, \<open>Expr_Correct\<close> (\<open>engine/planning/query_plan.rs\<close>): the compiler from expressions to plans over
    encoded columns, the evaluation of plans, and their agreement with the value of the expression in every row.
  \<^item> \<open>Query_Run\<close> (\<open>engine/planning/query.rs\<close>, \<open>NormalFormQuery::run\<close>): filter, sort, projection and the batch of
    result columns for one partition.
  \<^item> \<open>Query_Answers\<close>: the task of \<open>Query_Tasks\<close> with its parameter for running a phase instantiated by \<open>Query_Run\<close>,
    and the end-to-end theorem on the answer to a select.
  \<^item> This theory: properties that span components.

  \<^bold>\<open>Fuel.\<close> The iterators over packed strings take fuel one above the number of bytes, since each element
  takes at least one byte (\<open>length_concat_elements\<close>); the theorems say that they end with this much. The
  eviction loop is a \<open>partial_function\<close>, proved to return.

  \<^bold>\<open>Not modelled.\<close> The HTTP server, Python bindings, command line tools, the logging client and the
  generators of test data are I/O or glue. The derive macros generate code at compile time. The SQL
  parser converts the syntax tree of a third-party crate, the CSV loader reads files with another. Grouping
  and aggregation on one partition (\<open>run_aggregate\<close>, the hash map operators and \<open>aggregate.rs\<close>) are
  not modelled; combining their results is.
\<close>

section \<open>External libraries at work\<close>

text \<open>
  Concrete functions for the \<open>lz4\<close> and \<open>hex\<close> crates, to show that what the theorems assume of them
  can hold: a frame that stores its input, and hex digits that are kept as they are.
\<close>

definition stored_externs :: externs where
  "stored_externs =
     \<lparr>enable_lz4 = True, lz4_frame = (\<lambda>b. b), lz4_unframe = (\<lambda>b. b),
      hex_decode = Some, hex_encode = (\<lambda>b. b), hex_encode_upper = (\<lambda>b. b)\<rparr>"

lemma stored_lossless [simp]: "lz4_lossless stored_externs"
  by (simp add: lz4_lossless_def stored_externs_def)

lemma stored_hex_ok [simp]: "hex_ok stored_externs"
  by (simp add: hex_ok_def stored_externs_def)

section \<open>Columns\<close>

text \<open>
  C6. Integer columns round trip. Whatever values are pushed into an \<open>IntColBuilder\<close>, finalizing
  succeeds, and decoding the column (with or without delta encoding and compression, in any of the
  widths the writer picks) gives the pushed values back, with a null pushed as zero. A null map is
  attached to the result unchanged when the values take one or eight bytes.
\<close>

theorem int_builder_roundtrip:
  assumes "lz4_lossless ext" and "\<forall>v \<in> set (map present_or_zero xs). in_i64 v"
    and "present = None \<or> nulls_supported (ib_min (int_builder_of xs)) (ib_max (int_builder_of xs))"
  shows "\<exists>c. int_builder_finalize ext (int_builder_of xs) name present = Inr c \<and>
    read_column ext c = Inr (with_present present (VI64 (map present_or_zero xs))) \<and>
    col_len c = length xs \<and> col_name c = name"
  using assms by (rule int_builder_reads)

theorem int_builder_roundtrip_witness:
  "\<exists>c. int_builder_finalize stored_externs (int_builder_of [Some 3, None, Some 200]) ''a'' (Some [5]) = Inr c \<and>
    read_column stored_externs c = Inr (Nulls (VI64 [3, 0, 200]) [5]) \<and> col_len c = 3 \<and> col_name c = ''a''"
proof -
  let ?xs = "[Some 3, None, Some 200]"
  have "\<forall>v \<in> set (map present_or_zero ?xs). in_i64 v"
    by (simp add: present_or_zero_def i64_bounds)
  moreover have "nulls_supported (ib_min (int_builder_of ?xs)) (ib_max (int_builder_of ?xs))"
    by (simp add: nulls_supported_def fits_def int_builder_of_def int_builder_default_def
        int_builder_push_def Let_def i64_bounds)
  ultimately show ?thesis
    using int_builder_roundtrip [of stored_externs ?xs "Some [5]" "''a''"]
    by (simp add: present_or_zero_def numeral_3_eq_3)
qed

text \<open>
  C11. String columns round trip. Strings pushed into a \<open>StringColBuilder\<close> come back unchanged when
  the column is read, whether they were packed one after the other, packed as hex digits or put into
  a dictionary, compressed or not. The limits are those of the offset/length words: fewer than
  \<open>2^24\<close> bytes per string and fewer than \<open>2^40\<close> bytes in all.
\<close>

theorem string_builder_roundtrip:
  assumes "lz4_lossless ext" and "hex_ok ext"
    and "length (concat ss) < 2 ^ 40" and "\<forall>s \<in> set ss. length s < 2 ^ 24" and "length ss \<le> 2 ^ 32"
  shows "\<exists>c. string_builder_finalize ext (string_builder_of ss) name None = Inr c \<and>
    read_column ext c = Inr (Plain (VStr ss)) \<and> col_len c = length ss \<and> col_name c = name"
  using assms by (rule string_builder_reads)

theorem string_builder_roundtrip_witness:
  "\<exists>c. string_builder_finalize stored_externs (string_builder_of [[104, 105], [], [104, 105]]) ''s'' None = Inr c \<and>
    read_column stored_externs c = Inr (Plain (VStr [[104, 105], [], [104, 105]])) \<and> col_len c = 3 \<and> col_name c = ''s''"
  using string_builder_roundtrip [of stored_externs "[[104, 105], [], [104, 105]]" "''s''"]
  by (simp add: numeral_3_eq_3)

section \<open>Combining the results of two batches\<close>

text \<open>
  C9. Sorted results. Combining two results of an \<open>ORDER BY\<close> query over one column, or over two that
  are the only columns, always succeeds. The rows of the result (projected values with the order-by
  values) are the first \<open>limit\<close> rows of one sorted arrangement of all rows of both batches: no row is
  lost, duplicated or torn apart, and the result is again well-formed with the same directions.
\<close>

theorem combine_order_by:
  fixes b1 b2 :: "'v::linorder BatchResult"
  assumes "batch_ok b1" and "batch_ok b2" and "length (br_projection b1) = length (br_projection b2)"
    and "map snd (br_order_by b1) = map snd (br_order_by b2)"
    and "br_aggregations b1 = []" and "br_aggregations b2 = []"
    and "sort_supported b1 b2 limit" and "in_order b1" and "in_order b2"
  shows "\<exists>r full. combine agg b1 b2 limit = Inr r \<and> batch_ok r \<and>
    map snd (br_order_by r) = map snd (br_order_by b1) \<and> sorted_rows r = take limit full \<and>
    mset full = mset (sorted_rows b1) + mset (sorted_rows b2) \<and>
    sorted_wrt (\<lambda>x y. order_le (map snd (br_order_by b1)) (snd x) (snd y)) full"
proof -
  have "br_order_by b1 \<noteq> []" using assms(7) by (auto simp: sort_supported_def)
  moreover have "length (br_order_by b1) = length (br_order_by b2)" using assms(4) by (metis length_map)
  ultimately have "combine agg b1 b2 limit = combine_sorted b1 b2 limit"
    using assms(3,5,6) by (simp add: combine_def)
  then show ?thesis using combine_sorted_rows [OF assms(1-4,7-9)] by simp
qed

text \<open>Two small results of \<open>SELECT a, b ORDER BY a DESC\<close>.\<close>

definition batch_ex :: "int list list \<Rightarrow> nat list \<Rightarrow> (nat \<times> Aggregator) list \<Rightarrow> (nat \<times> bool) list \<Rightarrow> int BatchResult" where
  "batch_ex cols ps as os = \<lparr>br_columns = cols, br_projection = ps, br_aggregations = as,
     br_order_by = os, br_level = 0, br_batch_count = 1, br_show = False\<rparr>"

definition sort_left :: "int BatchResult" where
  "sort_left = batch_ex [[9, 4], [1, 2]] [0, 1] [] [(0, True)]"

definition sort_right :: "int BatchResult" where
  "sort_right = batch_ex [[3], [7]] [1, 0] [] [(1, True)]"

theorem combine_order_by_witness:
  "\<exists>r full. combine combine_i64 sort_left sort_right 2 = Inr r \<and> batch_ok r \<and>
    map snd (br_order_by r) = [True] \<and> sorted_rows r = take 2 full \<and>
    mset full = mset [([9, 1], [9]), ([4, 2], [4])] + mset [([7, 3], [7])] \<and>
    sorted_wrt (\<lambda>x y. order_le [True] (snd x) (snd y)) full"
proof -
  note ex = sort_left_def sort_right_def batch_ex_def
  have rows: "sorted_rows sort_left = [([9, 1], [9]), ([4, 2], [4])]" "sorted_rows sort_right = [([7, 3], [7])]"
    by (simp_all add: sorted_rows_def ex batch_len_def projected_def)
  have fields: "map snd (br_order_by sort_left) = [True]" "map snd (br_order_by sort_right) = [True]"
    "length (br_projection sort_left) = length (br_projection sort_right)"
    "br_aggregations sort_left = []" "br_aggregations sort_right = []" by (simp_all add: ex)
  have "batch_ok sort_left" "batch_ok sort_right" by (simp_all add: batch_ok_def ex batch_len_def)
  moreover have "in_order sort_left" "in_order sort_right"
    by (simp_all add: in_order_def rows fields comparator_of_def CmpGreaterThan_def)
  moreover have "sort_supported sort_left sort_right 2" by (simp add: sort_supported_def ex)
  ultimately show ?thesis
    using combine_order_by [of sort_left sort_right 2 combine_i64] rows fields by simp
qed

text \<open>
  C10. Aggregated results. Combining two results of a query with aggregates and no, one or two
  group-by columns gives the sorted union of the group-by keys, and for every key and aggregate the
  combination of what the two batches have for that key (the value itself where only one batch has
  the key). The combination fails only when combining two values fails, and then with that error.
\<close>

theorem combine_group_by:
  fixes b1 b2 :: "'v::linorder BatchResult"
  assumes "batch_ok b1" and "batch_ok b2" and "length (br_projection b1) = length (br_projection b2)"
    and "map snd (br_aggregations b1) = map snd (br_aggregations b2)" and "br_aggregations b1 \<noteq> []"
    and "length (br_order_by b1) = length (br_order_by b2)"
    and "grouping_supported b1 b2 limit"
    and "sorted_wrt (<) (group_keys b1)" and "sorted_wrt (<) (group_keys b2)"
  shows "(\<exists>r. combine agg b1 b2 limit = Inr r \<and> batch_ok r \<and>
      map snd (br_aggregations r) = map snd (br_aggregations b1) \<and> group_keys r = merged_keys b1 b2 \<and>
      (\<forall>m < length (br_aggregations b1).
         merged_values agg b1 b2 m = Inr (map (\<lambda>row. snd row ! m) (group_rows r)))) \<or>
    (\<exists>m < length (br_aggregations b1). \<exists>e.
       merged_values agg b1 b2 m = Inl e \<and> combine agg b1 b2 limit = Inl e)"
proof -
  have "length (br_aggregations b1) = length (br_aggregations b2)" using assms(4) by (metis length_map)
  then have "combine agg b1 b2 limit = combine_aggregates agg b1 b2 limit"
    using assms(3,5,6) by (simp add: combine_def)
  then show ?thesis using combine_aggregates_rows [OF assms(1-5,7-9)] by simp
qed

text \<open>Two results of \<open>SELECT k, SUM(v) GROUP BY k\<close>.\<close>

definition group_left :: "int BatchResult" where
  "group_left = batch_ex [[1, 4], [10, 20]] [0] [(1, SumI64)] []"

definition group_right :: "int BatchResult" where
  "group_right = batch_ex [[5, 6], [4, 7]] [1] [(0, SumI64)] []"

theorem combine_group_by_witness:
  "\<exists>r. combine combine_i64 group_left group_right 100 = Inr r \<and> batch_ok r \<and>
    group_keys r = [[1], [4], [7]] \<and> map (\<lambda>row. snd row ! 0) (group_rows r) = [10, 25, 6]"
proof -
  note ex = group_left_def group_right_def batch_ex_def
  have rows: "group_rows group_left = [([1], [10]), ([4], [20])]" "group_rows group_right = [([4], [5]), ([7], [6])]"
    by (simp_all add: group_rows_def ex batch_len_def projected_def)
  have keys: "group_keys group_left = [[1], [4]]" "group_keys group_right = [[4], [7]]"
    by (simp_all add: group_keys_def rows)
  have mk: "merged_keys group_left group_right = [[1], [4], [7]]"
    unfolding merged_keys_def keys by (simp add: insert_commute)
  have agg: "br_aggregations group_left = [(1, SumI64)]" "br_aggregations group_right = [(0, SumI64)]"
    "length (br_projection group_left) = length (br_projection group_right)"
    "br_order_by group_left = []" "br_order_by group_right = []"  by (simp_all add: ex)
  have vals: "merged_values combine_i64 group_left group_right 0 = Inr [10, 25, 6]"
    by (simp add: merged_values_def mk group_value_def rows agg checked_i64_def i64_bounds)
  have "batch_ok group_left" "batch_ok group_right" by (simp_all add: batch_ok_def ex batch_len_def)
  moreover have "grouping_supported group_left group_right 100" by (simp add: grouping_supported_def ex)
  ultimately show ?thesis
    using combine_group_by [of group_left group_right 100 combine_i64] keys vals agg mk by auto
qed

text \<open>
  C29. Unsorted results. Combining two results of a plain select appends the rows of the second to
  those of the first and keeps the first \<open>limit\<close> of them, in every column.
\<close>

theorem combine_select:
  assumes "br_projection b1 = br_projection b2" and "batch_len b1 \<le> limit"
    and "batch_ok b1" and "batch_ok b2" and "length (br_columns b1) = length (br_columns b2)"
    and "br_aggregations b1 = []" and "br_aggregations b2 = []" and "br_order_by b1 = []" and "br_order_by b2 = []"
  shows "\<exists>r. combine agg b1 b2 limit = Inr r \<and> br_projection r = br_projection b1 \<and>
    br_columns r = map (\<lambda>(c1, c2). take limit (c1 @ c2)) (zip (br_columns b1) (br_columns b2)) \<and>
    br_batch_count r = br_batch_count b1 + br_batch_count b2"
  using assms combine_selects_rows [OF assms(1-5)] by (simp add: combine_def merged_batch_def)

theorem combine_select_witness:
  "\<exists>r. combine combine_i64 (batch_ex [[1, 2], [3, 4]] [1, 0] [] []) (batch_ex [[5, 6], [7, 8]] [1, 0] [] []) 3 = Inr r \<and>
    br_projection r = [1, 0] \<and> br_columns r = [[1, 2, 5], [3, 4, 7]] \<and> br_batch_count r = 2"
  using combine_select [of "batch_ex [[1, 2], [3, 4]] [1, 0] [] []" "batch_ex [[5, 6], [7, 8]] [1, 0] [] []" 3 combine_i64]
  by (simp add: batch_ex_def batch_ok_def batch_len_def numeral_3_eq_3 numeral_2_eq_2)

text \<open>
  C39. A sort over two columns in a result with four or more columns cannot be combined: the loop over
  the middle order-by columns takes its bound from the number of columns and runs past the end of
  the order-by columns.
\<close>

theorem combine_two_keys_four_columns:
  fixes b1 b2 :: "'v::linorder BatchResult"
  assumes "batch_ok b1" and "batch_ok b2" and "length (br_projection b1) = length (br_projection b2)"
    and "br_aggregations b1 = []" and "br_aggregations b2 = []"
    and "length (br_order_by b1) = 2" and "length (br_order_by b2) = 2" and "4 \<le> length (br_columns b1)"
  shows "combine agg b1 b2 limit = Inl Panicked"
proof -
  obtain p q where o1: "br_order_by b1 = [p, q]" using assms(6) by (auto simp: length_Suc_conv numeral_2_eq_2)
  obtain p' q' where o2: "br_order_by b2 = [p', q']" using assms(7) by (auto simp: length_Suc_conv numeral_2_eq_2)
  have "fst p < length (br_columns b1)" "fst p' < length (br_columns b2)"
    using assms(1,2) o1 o2 by (auto simp: batch_ok_def)
  moreover have "[1..<length (br_columns b1) - 1] = 1 # 2 # [3..<length (br_columns b1) - 1]"
    using assms(8) upt_conv_Cons [of 1 "length (br_columns b1) - 1"] upt_conv_Cons [of 2 "length (br_columns b1) - 1"]
    by (simp add: numeral_2_eq_2 numeral_3_eq_3)
  ultimately have "sort_plan (br_columns b1) (br_columns b2) (br_order_by b1) (br_order_by b2) limit = Inl Panicked"
    by (simp add: sort_plan_def o1 o2 index_def columns_at_def split_def)
  then show ?thesis using assms(3-5) o1 o2 by (simp add: combine_def combine_sorted_def)
qed

theorem combine_two_keys_four_columns_witness:
  "combine combine_i64 (batch_ex [[1], [2], [3], [4]] [2, 3] [] [(0, False), (1, False)])
     (batch_ex [[1], [2], [3], [4]] [2, 3] [] [(0, False), (1, False)]) 10 = Inl Panicked"
  using combine_two_keys_four_columns [of "batch_ex [[1], [2], [3], [4]] [2, 3] [] [(0, False), (1, False)]"
      "batch_ex [[1], [2], [3], [4]] [2, 3] [] [(0, False), (1, False)]" combine_i64 10]
  by (simp add: batch_ex_def batch_ok_def batch_len_def)

end
